(* ===== verification/Prelude.thy ===== *)
theory Prelude
  imports Main "HOL-Library.Word"
begin

text \<open>
  Shared vocabulary of the development: the machine-integer types of
  \<^verbatim>\<open>include/kernel.h\<close>, the first-match search that almost every table scan of the kernel is,
  bit maps stored in byte arrays (used by the frame allocator and by the block allocator of the
  file system), and the two contracts that several components implement: an index allocator over a
  bounded universe and a bounded first-in-first-out queue.
\<close>

unbundle bit_operations_syntax

type_synonym u8 = "8 word"
type_synonym u16 = "16 word"
type_synonym u32 = "32 word"
type_synonym u64 = "64 word"
type_synonym bytes = "u8 list"

text \<open>
  How an operation can end: it returns, it halts the machine (a fault inside the kernel), or it leaves what the models
  describe, by a write over the end of an array, a read outside a buffer or a list that does not end.
\<close>

datatype 'a outcome = Returns 'a | Halts | Wild

named_theorems wire_simps \<open>rewriting of byte windows and encoders\<close>
named_theorems bitmap_simps \<open>effect of the bit-map operations on single bits\<close>


section \<open>Alignment masks\<close>

text \<open>\<^verbatim>\<open>x & ~(2^n - 1)\<close> rounds down to a multiple of \<open>2 ^ n\<close>.\<close>

lemma and_not_mask_eq: "x AND NOT (mask n) = push_bit n (drop_bit n (x :: 'a :: len word))"
  by (rule bit_word_eqI)
    (auto simp: bit_and_iff bit_not_iff bit_mask_iff bit_push_bit_iff bit_drop_bit_eq)

lemma unat_and_not_mask: "unat (x AND NOT (mask n)) = unat (x :: 'a :: len word) div 2 ^ n * 2 ^ n"
proof -
  have "unat x div 2 ^ n * 2 ^ n \<le> unat x" by simp
  also have "\<dots> < 2 ^ LENGTH('a)" by simp
  finally have "take_bit LENGTH('a) (push_bit n (drop_bit n (unat x))) = unat x div 2 ^ n * 2 ^ n"
    by (simp add: push_bit_eq_mult drop_bit_eq_div take_bit_nat_eq_self_iff)
  then show ?thesis by (simp only: and_not_mask_eq unsigned_push_bit_eq unat_drop_bit_eq)
qed


lemma unat_of_nat_small: "n < 2 ^ LENGTH('a) \<Longrightarrow> unat (of_nat n :: 'a :: len word) = n"
  by (simp add: unat_of_nat)

lemma unat_plus_small:
  "unat a + unat b < 2 ^ LENGTH('a) \<Longrightarrow> unat (a + b) = unat a + unat (b :: 'a :: len word)"
  by (simp add: unat_word_ariths)


section \<open>First match in a table scan\<close>

text \<open>
  The loop \<^verbatim>\<open>for (i = lo; i < hi; i++) if (P(i)) return i;\<close>, \<open>None\<close> when it runs to the end.
\<close>

function find_from :: "(nat \<Rightarrow> bool) \<Rightarrow> nat \<Rightarrow> nat \<Rightarrow> nat option" where
  "find_from P lo hi =
     (if lo < hi then (if P lo then Some lo else find_from P (Suc lo) hi) else None)"
  by pat_completeness auto
termination
  by (relation "measure (\<lambda>(P, lo, hi). hi - lo)") auto

declare find_from.simps [simp del]

lemma find_from_None: "find_from P lo hi = None \<longleftrightarrow> (\<forall>i. lo \<le> i \<and> i < hi \<longrightarrow> \<not> P i)"
proof (induction P lo hi rule: find_from.induct)
  case (1 P lo hi)
  have *: "(\<forall>i. lo \<le> i \<and> i < hi \<longrightarrow> \<not> P i) \<longleftrightarrow>
      (lo < hi \<longrightarrow> \<not> P lo) \<and> (\<forall>i. Suc lo \<le> i \<and> i < hi \<longrightarrow> \<not> P i)"
    by (metis Suc_leD Suc_leI le_neq_implies_less le_refl)
  show ?case
    using "1.IH" by (subst find_from.simps) (auto simp: *)
qed

lemma find_from_SomeD:
  "find_from P lo hi = Some k \<Longrightarrow> lo \<le> k \<and> k < hi \<and> P k \<and> (\<forall>i. lo \<le> i \<and> i < k \<longrightarrow> \<not> P i)"
proof (induction P lo hi rule: find_from.induct)
  case (1 P lo hi)
  show ?case
  proof (cases "lo < hi \<and> \<not> P lo")
    case True
    with "1.prems" have "find_from P (Suc lo) hi = Some k"
      by (subst (asm) find_from.simps) simp
    with "1.IH" True have "Suc lo \<le> k \<and> k < hi \<and> P k \<and> (\<forall>i. Suc lo \<le> i \<and> i < k \<longrightarrow> \<not> P i)"
      by simp
    with True show ?thesis by (metis Suc_leD Suc_leI le_neq_implies_less)
  next
    case False
    with "1.prems" show ?thesis by (subst (asm) find_from.simps) (auto split: if_splits)
  qed
qed

lemma find_from_SomeI:
  assumes "lo \<le> k" "k < hi" "P k" "\<And>i. lo \<le> i \<Longrightarrow> i < k \<Longrightarrow> \<not> P i"
  shows "find_from P lo hi = Some k"
proof (cases "find_from P lo hi")
  case None
  with assms show ?thesis by (auto simp: find_from_None)
next
  case (Some j)
  from find_from_SomeD [OF this] have j: "lo \<le> j" "P j" "\<forall>i. lo \<le> i \<and> i < j \<longrightarrow> \<not> P i" by auto
  have "j = k"
  proof (cases j k rule: linorder_cases)
    case less with assms(4) j show ?thesis by blast
  next
    case greater with assms(1,3) j show ?thesis by blast
  qed simp
  with Some show ?thesis by simp
qed

lemma find_from_cong:
  assumes "\<And>i. lo \<le> i \<Longrightarrow> i < hi \<Longrightarrow> P i = Q i"
  shows "find_from P lo hi = find_from Q lo hi"
proof (cases "find_from Q lo hi")
  case None
  then have "find_from P lo hi = None" using assms by (auto simp: find_from_None)
  with None show ?thesis by simp
next
  case (Some k)
  from find_from_SomeD [OF this] have "lo \<le> k" "k < hi" "Q k" "\<forall>i. lo \<le> i \<and> i < k \<longrightarrow> \<not> Q i"
    by auto
  with assms have "find_from P lo hi = Some k"
    by (intro find_from_SomeI) (auto dest: order_less_trans)
  with Some show ?thesis by simp
qed


section \<open>Bit maps in byte arrays\<close>

text \<open>
  \<^verbatim>\<open>bm[i >> 3] & (1 << (i & 7))\<close>, \<^verbatim>\<open>bm[i >> 3] |= (uint8_t)(1 << (i & 7))\<close> and
  \<^verbatim>\<open>bm[i >> 3] &= (uint8_t)~(1 << (i & 7))\<close>.
\<close>

definition bit_test :: "bytes \<Rightarrow> nat \<Rightarrow> bool" where
  "bit_test bm i \<longleftrightarrow> (bm ! (i div 8)) AND (push_bit (i mod 8) 1) \<noteq> 0"

definition bit_set :: "bytes \<Rightarrow> nat \<Rightarrow> bytes" where
  "bit_set bm i = bm[i div 8 := (bm ! (i div 8)) OR (push_bit (i mod 8) 1)]"

definition bit_clear :: "bytes \<Rightarrow> nat \<Rightarrow> bytes" where
  "bit_clear bm i = bm[i div 8 := (bm ! (i div 8)) AND NOT (push_bit (i mod 8) 1)]"

lemma bit_test_bit: "bit_test bm i \<longleftrightarrow> bit (bm ! (i div 8)) (i mod 8)"
  by (simp add: bit_test_def bit_iff_and_push_bit_not_eq_0)

lemma bit_exp8: "bit ((2 :: u8) ^ m) n \<longleftrightarrow> m = n \<and> n < 8"
  by (auto simp: bit_exp_iff)

lemma length_bit_set [simp]: "length (bit_set bm i) = length bm"
  by (simp add: bit_set_def)

lemma length_bit_clear [simp]: "length (bit_clear bm i) = length bm"
  by (simp add: bit_clear_def)

lemma div_mod_8_eq: "i div 8 = j div 8 \<Longrightarrow> i mod 8 = j mod 8 \<Longrightarrow> i = (j :: nat)"
  by (metis div_mult_mod_eq)

lemma bit_test_set [bitmap_simps]:
  assumes "i div 8 < length bm"
  shows "bit_test (bit_set bm i) j \<longleftrightarrow> j = i \<or> bit_test bm j"
proof (cases "j div 8 = i div 8")
  case True
  with assms show ?thesis
    by (auto simp: bit_test_bit bit_set_def bit_or_iff bit_exp8 dest: div_mod_8_eq)
next
  case False
  then show ?thesis by (auto simp: bit_test_bit bit_set_def)
qed

lemma bit_test_clear [bitmap_simps]:
  assumes "i div 8 < length bm"
  shows "bit_test (bit_clear bm i) j \<longleftrightarrow> j \<noteq> i \<and> bit_test bm j"
proof (cases "j div 8 = i div 8")
  case True
  with assms show ?thesis
    by (auto simp: bit_test_bit bit_clear_def bit_and_iff bit_not_iff bit_exp8
        dest: div_mod_8_eq)
next
  case False
  then show ?thesis by (auto simp: bit_test_bit bit_clear_def)
qed

lemma bit_clear_set:
  assumes "i div 8 < length bm" "\<not> bit_test bm i"
  shows "bit_clear (bit_set bm i) i = bm"
proof -
  have "(bm ! (i div 8) OR push_bit (i mod 8) 1) AND NOT (push_bit (i mod 8) 1) = bm ! (i div 8)"
    using assms(2)
    by (intro bit_word_eqI)
      (auto simp: bit_test_bit bit_or_iff bit_and_iff bit_not_iff bit_exp8)
  with assms show ?thesis by (simp add: bit_clear_def bit_set_def)
qed

lemma bit_test_replicate_0 [simp]: "i div 8 < n \<Longrightarrow> \<not> bit_test (replicate n 0) i"
  by (simp add: bit_test_def)

text \<open>The indices below \<open>n\<close> whose bit is set: the abstract value of a bit map.\<close>

definition used_below :: "bytes \<Rightarrow> nat \<Rightarrow> nat set" where
  "used_below bm n = {i. i < n \<and> bit_test bm i}"

lemma finite_used_below [simp]: "finite (used_below bm n)"
  by (simp add: used_below_def)

lemma used_below_set:
  "i < n \<Longrightarrow> i div 8 < length bm \<Longrightarrow> used_below (bit_set bm i) n = insert i (used_below bm n)"
  by (auto simp: used_below_def bitmap_simps)

lemma used_below_clear:
  "i div 8 < length bm \<Longrightarrow> used_below (bit_clear bm i) n = used_below bm n - {i}"
  by (auto simp: used_below_def bitmap_simps)

lemma used_below_bound: "used_below bm n \<subseteq> {..<n}"
  by (auto simp: used_below_def)

lemma card_used_below: "card (used_below bm n) \<le> n"
  using card_mono [OF _ used_below_bound] by simp

lemma bit_index_ok: "n \<le> 8 * l \<Longrightarrow> i < n \<Longrightarrow> i div 8 < (l :: nat)"
  by (simp add: less_mult_imp_div_less mult.commute)


section \<open>Contract of an index allocator\<close>

text \<open>
  The frame allocator and the block allocator hand out indices below a capacity and take them
  back. \<open>alloc_many\<close> is what their clients do: several allocations in a row, giving up at the
  first failure.
\<close>

fun alloc_many :: "('s \<Rightarrow> (nat \<times> 's) option) \<Rightarrow> nat \<Rightarrow> 's \<Rightarrow> (nat list \<times> 's) option" where
  "alloc_many alloc 0 s = Some ([], s)"
| "alloc_many alloc (Suc n) s =
     (case alloc s of None \<Rightarrow> None
      | Some (i, s') \<Rightarrow>
          (case alloc_many alloc n s' of None \<Rightarrow> None | Some (is, s'') \<Rightarrow> Some (i # is, s'')))"

locale index_allocator =
  fixes alloc :: "'s \<Rightarrow> (nat \<times> 's) option"
    and free :: "nat \<Rightarrow> 's \<Rightarrow> 's"
    and used :: "'s \<Rightarrow> nat set"
    and cap :: "'s \<Rightarrow> nat"
    and inv :: "'s \<Rightarrow> bool"
  assumes used_bound: "inv s \<Longrightarrow> used s \<subseteq> {..<cap s}"
    and alloc_fails: "inv s \<Longrightarrow> alloc s = None \<longleftrightarrow> {..<cap s} \<subseteq> used s"
    and alloc_fresh: "inv s \<Longrightarrow> alloc s = Some (i, s') \<Longrightarrow> i < cap s \<and> i \<notin> used s"
    and alloc_used: "inv s \<Longrightarrow> alloc s = Some (i, s') \<Longrightarrow> used s' = insert i (used s)"
    and alloc_inv: "inv s \<Longrightarrow> alloc s = Some (i, s') \<Longrightarrow> inv s' \<and> cap s' = cap s"
    and free_used: "inv s \<Longrightarrow> i \<in> used s \<Longrightarrow> used (free i s) = used s - {i}"
    and free_inv: "inv s \<Longrightarrow> i \<in> used s \<Longrightarrow> inv (free i s) \<and> cap (free i s) = cap s"
begin

lemma finite_used: "inv s \<Longrightarrow> finite (used s)"
  using used_bound finite_subset by blast

lemma alloc_many_fresh:
  "inv s \<Longrightarrow> alloc_many alloc n s = Some (is, s') \<Longrightarrow>
     length is = n \<and> distinct is \<and> set is \<inter> used s = {} \<and> set is \<subseteq> {..<cap s}
     \<and> used s' = used s \<union> set is \<and> inv s' \<and> cap s' = cap s"
proof (induction n arbitrary: s "is")
  case 0
  then show ?case by auto
next
  case (Suc n)
  from Suc.prems(2) obtain i s1 js where a: "alloc s = Some (i, s1)"
    and m: "alloc_many alloc n s1 = Some (js, s')" and "is = i # js"
    by (auto split: option.splits)
  have fresh: "i < cap s" "i \<notin> used s" using alloc_fresh [OF Suc.prems(1) a] by simp_all
  have u: "used s1 = insert i (used s)" by (rule alloc_used [OF Suc.prems(1) a])
  have s1: "inv s1" "cap s1 = cap s" using alloc_inv [OF Suc.prems(1) a] by simp_all
  from Suc.IH [OF s1(1) m] have js: "length js = n" "distinct js" "set js \<inter> used s1 = {}"
    "set js \<subseteq> {..<cap s1}" "used s' = used s1 \<union> set js" "inv s'" "cap s' = cap s1"
    by blast+
  have 1: "length is = Suc n" using js(1) \<open>is = i # js\<close> by simp
  have 2: "distinct is" using js(2,3) u \<open>is = i # js\<close> by auto
  have 3: "set is \<inter> used s = {}" using js(3) u fresh \<open>is = i # js\<close> by auto
  have 4: "set is \<subseteq> {..<cap s}" using js(4) s1(2) fresh \<open>is = i # js\<close> by auto
  have 5: "used s' = used s \<union> set is" unfolding js(5) u \<open>is = i # js\<close> by simp
  have 6: "cap s' = cap s" using js(7) s1(2) by simp
  from 1 2 3 4 5 js(6) 6 show ?case by blast
qed

lemma alloc_many_enough:
  "inv s \<Longrightarrow> card (used s) + n \<le> cap s \<Longrightarrow> \<exists>is s'. alloc_many alloc n s = Some (is, s')"
proof (induction n arbitrary: s)
  case 0
  then show ?case by simp
next
  case (Suc n)
  have "\<not> {..<cap s} \<subseteq> used s"
  proof
    assume "{..<cap s} \<subseteq> used s"
    then have "card {..<cap s} \<le> card (used s)"
      by (rule card_mono [OF finite_used [OF Suc.prems(1)]])
    with Suc.prems(2) show False by simp
  qed
  then obtain i s1 where a: "alloc s = Some (i, s1)"
    using alloc_fails [OF Suc.prems(1)] by (cases "alloc s") auto
  note step = alloc_fresh [OF Suc.prems(1) a] alloc_used [OF Suc.prems(1) a]
    alloc_inv [OF Suc.prems(1) a]
  then have "card (used s1) + n \<le> cap s1"
    using Suc.prems finite_used [OF Suc.prems(1)] by simp
  with step Suc.IH obtain js s' where "alloc_many alloc n s1 = Some (js, s')" by blast
  with a show ?case by simp
qed

lemma free_alloc:
  assumes "inv s" "alloc s = Some (i, s')"
  shows "used (free i s') = used s"
  using assms alloc_fresh [OF assms] alloc_used [OF assms] alloc_inv [OF assms] free_used [of s' i]
  by auto

end


section \<open>Contract of a bounded queue\<close>

text \<open>
  The keyboard ring and the datagram queue of a UDP socket are bounded queues that silently drop
  what does not fit. \<open>pop_many\<close> is a client that takes what it can get.
\<close>

fun pop_many :: "('s \<Rightarrow> ('a \<times> 's) option) \<Rightarrow> nat \<Rightarrow> 's \<Rightarrow> 'a list \<times> 's" where
  "pop_many pop 0 s = ([], s)"
| "pop_many pop (Suc n) s =
     (case pop s of None \<Rightarrow> ([], s)
      | Some (x, s') \<Rightarrow> (case pop_many pop n s' of (xs, s'') \<Rightarrow> (x # xs, s'')))"

locale bounded_fifo =
  fixes contents :: "'s \<Rightarrow> 'a list"
    and cap :: nat
    and push :: "'a \<Rightarrow> 's \<Rightarrow> 's"
    and pop :: "'s \<Rightarrow> ('a \<times> 's) option"
    and inv :: "'s \<Rightarrow> bool"
  assumes contents_bound: "inv s \<Longrightarrow> length (contents s) \<le> cap"
    and push_contents: "inv s \<Longrightarrow>
      contents (push x s) = (if length (contents s) < cap then contents s @ [x] else contents s)"
    and push_inv: "inv s \<Longrightarrow> inv (push x s)"
    and pop_none: "inv s \<Longrightarrow> pop s = None \<longleftrightarrow> contents s = []"
    and pop_some: "inv s \<Longrightarrow> pop s = Some (x, s') \<Longrightarrow> contents s = x # contents s' \<and> inv s'"
begin

lemma push_take: "inv s \<Longrightarrow> contents (push x s) = take cap (contents s @ [x])"
  using contents_bound [of s] by (auto simp: push_contents take_Cons')

lemma push_all:
  "inv s \<Longrightarrow> inv (fold push xs s) \<and> contents (fold push xs s) = take cap (contents s @ xs)"
proof (induction xs arbitrary: s)
  case Nil
  then show ?case using contents_bound by simp
next
  case (Cons x xs)
  then have "inv (push x s)" by (simp add: push_inv)
  with Cons.IH [OF this] Cons.prems show ?case by (auto simp: push_take take_Cons')
qed

lemma pop_many_prefix:
  "inv s \<Longrightarrow> pop_many pop n s = (xs, s') \<Longrightarrow>
     inv s' \<and> xs = take n (contents s) \<and> contents s' = drop n (contents s)"
proof (induction n arbitrary: s xs s')
  case 0
  then show ?case by simp
next
  case (Suc n)
  show ?case
  proof (cases "pop s")
    case None
    then have "xs = []" "s' = s" using Suc.prems(2) by auto
    moreover have "contents s = []" using None pop_none [OF Suc.prems(1)] by simp
    ultimately show ?thesis using Suc.prems(1) by simp
  next
    case (Some p)
    obtain x s1 where p: "p = (x, s1)" by fastforce
    obtain ys s2 where r: "pop_many pop n s1 = (ys, s2)" by fastforce
    have "contents s = x # contents s1" "inv s1" using pop_some Suc.prems(1) Some p by auto
    with Suc.IH [OF this(2) r] Suc.prems(2) Some p r show ?thesis by auto
  qed
qed

text \<open>What was pushed into an empty queue comes out in order, as far as it fits.\<close>

lemma fifo:
  assumes "inv s" "contents s = []" "pop_many pop n (fold push xs s) = (ys, s')"
  shows "ys = take n (take cap xs) \<and> inv s'"
  using pop_many_prefix [OF _ assms(3)] push_all [OF assms(1), of xs] assms(2) by auto

end

end
