(* ===== verification/Bytes.thy ===== *)
theory Bytes
  imports Prelude
begin

text \<open>
  Byte windows inside larger buffers, \<^verbatim>\<open>memcpy(buf + off, v, n)\<close> and \<^verbatim>\<open>memcpy(v, buf + off, n)\<close>, and the
  layout of 16- and 32-bit integers in memory: little endian for structures the kernel copies as they
  are, big endian for network headers. The lemmas are collected in \<open>wire_simps\<close>.
\<close>

section \<open>Windows\<close>

definition sub_bytes :: "bytes \<Rightarrow> nat \<Rightarrow> nat \<Rightarrow> bytes" where
  "sub_bytes bs off n = take n (drop off bs)"

definition put_bytes :: "bytes \<Rightarrow> nat \<Rightarrow> bytes \<Rightarrow> bytes" where
  "put_bytes bs off v = take off bs @ v @ drop (off + length v) bs"

lemma length_put_bytes [simp]: "off + length v \<le> length bs \<Longrightarrow> length (put_bytes bs off v) = length bs"
  by (simp add: put_bytes_def)

lemma length_sub_bytes [simp]: "off + n \<le> length bs \<Longrightarrow> length (sub_bytes bs off n) = n"
  by (simp add: sub_bytes_def)

lemma sub_put_same [wire_simps]:
  "off + length v \<le> length bs \<Longrightarrow> length v = n \<Longrightarrow> sub_bytes (put_bytes bs off v) off n = v"
  by (simp add: sub_bytes_def put_bytes_def)

lemma nth_put_bytes:
  "off + length v \<le> length bs \<Longrightarrow> i < length bs \<Longrightarrow>
     put_bytes bs off v ! i = (if off \<le> i \<and> i < off + length v then v ! (i - off) else bs ! i)"
  by (auto simp: put_bytes_def nth_append min_def)

lemma nth_sub_bytes: "off + n \<le> length bs \<Longrightarrow> i < n \<Longrightarrow> sub_bytes bs off n ! i = bs ! (off + i)"
  by (simp add: sub_bytes_def)

lemma sub_put_other [wire_simps]:
  assumes "off + length v \<le> length bs" "o2 + n \<le> length bs" "o2 + n \<le> off \<or> off + length v \<le> o2"
  shows "sub_bytes (put_bytes bs off v) o2 n = sub_bytes bs o2 n"
  using assms by (intro nth_equalityI) (auto simp: nth_sub_bytes nth_put_bytes)

lemma put_sub_same: "off + n \<le> length bs \<Longrightarrow> put_bytes bs off (sub_bytes bs off n) = bs"
  by (intro nth_equalityI) (auto simp: nth_sub_bytes nth_put_bytes)

lemma sub_bytes_all [simp]: "n = length bs \<Longrightarrow> sub_bytes bs 0 n = bs"
  by (simp add: sub_bytes_def)

lemma sub_bytes_append:
  "sub_bytes (xs @ ys) off n =
     (if off + n \<le> length xs then sub_bytes xs off n
      else if length xs \<le> off then sub_bytes ys (off - length xs) n
      else drop off xs @ take (off + n - length xs) ys)"
  by (auto simp: sub_bytes_def add.commute)

lemma sub_bytes_Cons_Suc [simp]: "sub_bytes (x # xs) (Suc off) n = sub_bytes xs off n"
  by (simp add: sub_bytes_def)

lemma sub_bytes_replicate: "off + n \<le> m \<Longrightarrow> sub_bytes (replicate m x) off n = replicate n x"
  by (simp add: sub_bytes_def)


section \<open>Integers\<close>

definition le16 :: "u16 \<Rightarrow> bytes" where
  "le16 w = [ucast w, ucast (drop_bit 8 w)]"

definition un16 :: "bytes \<Rightarrow> u16" where
  "un16 bs = ucast (bs ! 0) OR push_bit 8 (ucast (bs ! 1))"

definition le32 :: "u32 \<Rightarrow> bytes" where
  "le32 w = [ucast w, ucast (drop_bit 8 w), ucast (drop_bit 16 w), ucast (drop_bit 24 w)]"

definition un32 :: "bytes \<Rightarrow> u32" where
  "un32 bs = ucast (bs ! 0) OR push_bit 8 (ucast (bs ! 1)) OR push_bit 16 (ucast (bs ! 2))
     OR push_bit 24 (ucast (bs ! 3))"

lemma length_le [simp]: "length (le16 w) = 2" "length (le32 v) = 4"
  by (simp_all add: le16_def le32_def)

lemmas bit_byte_simps = bit_or_iff bit_and_iff bit_push_bit_iff bit_drop_bit_eq bit_unsigned_iff
  bit_take_bit_iff

lemma un16_le16 [simp, wire_simps]: "un16 (le16 w) = w"
proof (rule bit_word_eqI)
  fix n assume "n < LENGTH(16)"
  then show "bit (un16 (le16 w)) n = bit w n"
    by (cases "n < 8") (auto simp: un16_def le16_def bit_byte_simps)
qed

lemma un32_le32 [simp, wire_simps]: "un32 (le32 w) = w"
proof (rule bit_word_eqI)
  fix n assume "n < LENGTH(32)"
  then consider "n < 8" | "8 \<le> n" "n < 16" | "16 \<le> n" "n < 24" | "24 \<le> n" "n < 32" by force
  then show "bit (un32 (le32 w)) n = bit w n"
    by cases (auto simp: un32_def le32_def bit_byte_simps)
qed

lemma le16_un16:
  assumes "length bs = 2"
  shows "le16 (un16 bs) = bs"
proof -
  from assms obtain a b where bs: "bs = [a, b]" by (auto simp: numeral_eq_Suc length_Suc_conv)
  have "ucast (un16 [a, b]) = a" "ucast (drop_bit 8 (un16 [a, b])) = b"
    by (intro bit_word_eqI; auto simp: un16_def bit_byte_simps dest: bit_imp_le_length)+
  then show ?thesis by (simp add: bs le16_def)
qed

lemma le32_un32:
  assumes "length bs = 4"
  shows "le32 (un32 bs) = bs"
proof -
  from assms obtain a b c d where bs: "bs = [a, b, c, d]" by (auto simp: numeral_eq_Suc length_Suc_conv)
  have "ucast (un32 [a, b, c, d]) = a" "ucast (drop_bit 8 (un32 [a, b, c, d])) = b"
    "ucast (drop_bit 16 (un32 [a, b, c, d])) = c" "ucast (drop_bit 24 (un32 [a, b, c, d])) = d"
    by (intro bit_word_eqI; auto simp: un32_def bit_byte_simps dest: bit_imp_le_length)+
  then show ?thesis by (simp add: bs le32_def)
qed


section \<open>Arrays of 32-bit integers\<close>

definition u32_at :: "bytes \<Rightarrow> nat \<Rightarrow> u32" where
  "u32_at bs j = un32 (sub_bytes bs (4 * j) 4)"

definition put_u32 :: "bytes \<Rightarrow> nat \<Rightarrow> u32 \<Rightarrow> bytes" where
  "put_u32 bs j v = put_bytes bs (4 * j) (le32 v)"

definition enc_u32s :: "u32 list \<Rightarrow> bytes" where
  "enc_u32s ws = concat (map le32 ws)"

definition dec_u32s :: "nat \<Rightarrow> bytes \<Rightarrow> u32 list" where
  "dec_u32s n bs = map (u32_at bs) [0..<n]"

lemma length_put_u32 [simp]: "4 * j + 4 \<le> length bs \<Longrightarrow> length (put_u32 bs j v) = length bs"
  by (simp add: put_u32_def)

lemma u32_at_put:
  assumes "4 * j + 4 \<le> length bs" "4 * i + 4 \<le> length bs"
  shows "u32_at (put_u32 bs j v) i = (if i = j then v else u32_at bs i)"
proof (cases "i = j")
  case False
  then have "4 * i + 4 \<le> 4 * j \<or> 4 * j + 4 \<le> 4 * i" by auto
  with False assms show ?thesis by (simp add: u32_at_def put_u32_def sub_put_other)
qed (use assms in \<open>simp add: u32_at_def put_u32_def wire_simps\<close>)

lemma length_enc_u32s [simp]: "length (enc_u32s ws) = 4 * length ws"
  by (induction ws) (simp_all add: enc_u32s_def)

lemma u32_at_enc: "i < length ws \<Longrightarrow> u32_at (enc_u32s ws) i = ws ! i"
proof (induction ws arbitrary: i)
  case (Cons w ws)
  have e: "enc_u32s (w # ws) = le32 w @ enc_u32s ws" by (simp add: enc_u32s_def)
  show ?case
  proof (cases i)
    case 0
    then show ?thesis by (simp add: u32_at_def e sub_bytes_append)
  next
    case (Suc j)
    then have "u32_at (enc_u32s (w # ws)) i = u32_at (enc_u32s ws) j"
      by (simp add: u32_at_def e sub_bytes_append)
    with Cons Suc show ?thesis by simp
  qed
qed simp

lemma dec_enc_u32s [wire_simps]: "length ws = n \<Longrightarrow> dec_u32s n (enc_u32s ws) = ws"
  by (auto simp: dec_u32s_def u32_at_enc intro: nth_equalityI)

end
