(* ===== verification/Net_Wire.thy ===== *)
theory Net_Wire
  imports Bytes
begin

text \<open>
  The wire format of the network stack, \<^verbatim>\<open>kernel/net.cpp\<close>: big-endian fields and the Internet checksum
  of IPv4, ICMP, UDP and TCP. A packet is a pointer and a length in the code; here it is a list of
  bytes and, where the code may look past the length, the list and the length.
\<close>

section \<open>Fields\<close>

definition rd16 :: "bytes \<Rightarrow> nat \<Rightarrow> u16" where
  "rd16 d p = push_bit 8 (ucast (d ! p)) OR ucast (d ! (p + 1))"

definition rd32 :: "bytes \<Rightarrow> nat \<Rightarrow> u32" where
  "rd32 d p = push_bit 24 (ucast (d ! p)) OR push_bit 16 (ucast (d ! (p + 1))) OR push_bit 8 (ucast (d ! (p + 2))) OR ucast (d ! (p + 3))"

definition be16 :: "u16 \<Rightarrow> bytes" where
  "be16 v = [ucast (drop_bit 8 v), ucast (v AND 0xFF)]"

definition be32 :: "u32 \<Rightarrow> bytes" where
  "be32 v = [ucast (drop_bit 24 v), ucast (drop_bit 16 v), ucast (drop_bit 8 v), ucast (v AND 0xFF)]"

definition wr16 :: "nat \<Rightarrow> u16 \<Rightarrow> bytes \<Rightarrow> bytes" where
  "wr16 p v b = put_bytes b p (be16 v)"

definition wr32 :: "nat \<Rightarrow> u32 \<Rightarrow> bytes \<Rightarrow> bytes" where
  "wr32 p v b = put_bytes b p (be32 v)"

lemma length_be [simp]: "length (be16 v) = 2" "length (be32 w) = 4"
  by (simp_all add: be16_def be32_def)

lemma length_wr [simp]: "p + 2 \<le> length b \<Longrightarrow> length (wr16 p v b) = length b" "p + 4 \<le> length b \<Longrightarrow> length (wr32 p w b) = length b"
  by (simp_all add: wr16_def wr32_def)

lemma low_byte: "ucast (v AND 0xFF) = (ucast v :: u8)" for v :: "'a :: len word"
proof (rule bit_word_eqI)
  have m: "(0xFF :: 'a word) = mask 8" by (simp add: mask_eq_exp_minus_1)
  fix n assume "n < LENGTH(8)"
  then show "bit (ucast (v AND 0xFF) :: u8) n = bit (ucast v :: u8) n"
    unfolding m by (auto simp: bit_byte_simps bit_mask_iff dest: bit_imp_le_length)
qed

lemma rd16_be16: "rd16 (be16 v) 0 = v"
proof (rule bit_word_eqI)
  fix n assume "n < LENGTH(16)"
  then show "bit (rd16 (be16 v) 0) n = bit v n"
    by (cases "n < 8") (auto simp: rd16_def be16_def bit_byte_simps low_byte)
qed

lemma rd32_be32: "rd32 (be32 v) 0 = v"
proof (rule bit_word_eqI)
  fix n assume "n < LENGTH(32)"
  then consider "n < 8" | "8 \<le> n" "n < 16" | "16 \<le> n" "n < 24" | "24 \<le> n" "n < 32" by force
  then show "bit (rd32 (be32 v) 0) n = bit v n"
    by cases (auto simp: rd32_def be32_def bit_byte_simps low_byte)
qed

lemma rd_cong:
  "d ! p = d' ! p' \<Longrightarrow> d ! (p + 1) = d' ! (p' + 1) \<Longrightarrow> rd16 d p = rd16 d' p'"
  "d ! p = d' ! p' \<Longrightarrow> d ! (p + 1) = d' ! (p' + 1) \<Longrightarrow> d ! (p + 2) = d' ! (p' + 2) \<Longrightarrow> d ! (p + 3) = d' ! (p' + 3) \<Longrightarrow> rd32 d p = rd32 d' p'"
  by (simp_all add: rd16_def rd32_def)

lemma rd16_wr16 [wire_simps]: "p + 2 \<le> length b \<Longrightarrow> rd16 (wr16 p v b) p = v"
  by (subst rd_cong(1) [where d' = "be16 v" and p' = 0]) (auto simp: wr16_def nth_put_bytes rd16_be16)

lemma rd32_wr32 [wire_simps]: "p + 4 \<le> length b \<Longrightarrow> rd32 (wr32 p v b) p = v"
  by (subst rd_cong(2) [where d' = "be32 v" and p' = 0]) (auto simp: wr32_def nth_put_bytes rd32_be32 numeral_2_eq_2)


section \<open>The Internet checksum\<close>

fun sum16 :: "bytes \<Rightarrow> u32 \<Rightarrow> u32" where
  "sum16 (a # b # r) s = sum16 r (s + (push_bit 8 (ucast a) OR ucast b))"
| "sum16 [a] s = s + push_bit 8 (ucast a)"
| "sum16 [] s = s"

lemma unat_halves: "unat (s AND 0xFFFF) = unat s mod 2 ^ 16" "unat (drop_bit 16 s) = unat s div 2 ^ 16" for s :: u32
proof -
  have "s AND 0xFFFF = take_bit 16 s" by (simp add: take_bit_eq_mask mask_eq_exp_minus_1)
  then show "unat (s AND 0xFFFF) = unat s mod 2 ^ 16" by (simp add: unsigned_take_bit_eq del: take_bit_eq_mod) (simp add: take_bit_eq_mod)
  show "unat (drop_bit 16 s) = unat s div 2 ^ 16" by (simp add: drop_bit_eq_div unat_div)
qed

lemma fold16_step: "unat ((s AND 0xFFFF) + drop_bit 16 s) = unat s mod 2 ^ 16 + unat s div 2 ^ 16" for s :: u32
proof -
  have "unat s div 2 ^ 16 < 2 ^ 16" using unsigned_less [of s] by (simp add: div_less_iff_less_mult)
  moreover have "unat s mod 2 ^ 16 < 2 ^ 16" by simp
  ultimately have "unat (s AND 0xFFFF) + unat (drop_bit 16 s) < 2 ^ 32" unfolding unat_halves by simp
  then show ?thesis by (subst unat_plus_small) (simp_all add: unat_halves)
qed

lemma fold16_less:
  assumes "drop_bit 16 s \<noteq> (0 :: u32)"
  shows "unat ((s AND 0xFFFF) + drop_bit 16 s) < unat s"
proof -
  have "0 < unat s div 2 ^ 16" using assms unat_halves(2) [of s] by (metis gr0I unat_eq_zero)
  then have "unat s mod 2 ^ 16 + unat s div 2 ^ 16 < unat s mod 2 ^ 16 + 65536 * (unat s div 2 ^ 16)"
    by (intro add_strict_left_mono) simp
  also have "\<dots> = unat s" using mult_div_mod_eq [of "2 ^ 16" "unat s"] by (simp add: add.commute)
  finally show ?thesis unfolding fold16_step .
qed

function fold16 :: "u32 \<Rightarrow> u32" where
  "fold16 s = (if drop_bit 16 s \<noteq> 0 then fold16 ((s AND 0xFFFF) + drop_bit 16 s) else s)"
  by auto
termination by (relation "measure unat") (auto simp: fold16_less)

declare fold16.simps [simp del]

definition inet_checksum :: "u32 \<Rightarrow> bytes \<Rightarrow> u16" where
  "inet_checksum init d = ucast (NOT (fold16 (sum16 d init)))"

definition ip_checksum :: "bytes \<Rightarrow> u16" where
  "ip_checksum d = inet_checksum 0 d"

definition pseudo_sum :: "u32 \<Rightarrow> u32 \<Rightarrow> u32 \<Rightarrow> nat \<Rightarrow> u32" where
  "pseudo_sum saddr daddr proto len =
     (drop_bit 16 saddr + (saddr AND 0xFFFF)) + (drop_bit 16 daddr + (daddr AND 0xFFFF)) + proto + of_nat len"

definition udp_checksum :: "u32 \<Rightarrow> u32 \<Rightarrow> bytes \<Rightarrow> u16" where
  "udp_checksum saddr daddr u = inet_checksum (pseudo_sum saddr daddr 17 (length u)) u"

definition tcp_checksum :: "u32 \<Rightarrow> u32 \<Rightarrow> bytes \<Rightarrow> u16" where
  "tcp_checksum saddr daddr tt = inet_checksum (pseudo_sum saddr daddr 6 (length tt)) tt"

text \<open>The same sum over numbers.\<close>

fun word_sum :: "bytes \<Rightarrow> nat" where
  "word_sum (a # b # r) = 256 * unat a + unat b + word_sum r"
| "word_sum [a] = 256 * unat a"
| "word_sum [] = 0"

lemma byte_less: "unat (a :: u8) < 256"
  using unsigned_less [of a, where 'a = nat] by simp

lemma byte_up: "unat (ucast (a :: u8) :: u32) = unat a"
  using byte_less [of a] by (simp add: unsigned_ucast_eq take_bit_nat_eq_self)

lemma unat_pair: "unat (push_bit 8 (ucast a) OR ucast b :: u32) = 256 * unat a + unat b" for a b :: u8
proof -
  have "push_bit 8 (ucast a) AND ucast b = (0 :: u32)"
    by (rule bit_word_eqI) (auto simp: bit_byte_simps dest: bit_imp_le_length)
  then have "push_bit 8 (ucast a) OR ucast b = (push_bit 8 (ucast a) + ucast b :: u32)" by (simp add: disjunctive_add_eq_or)
  moreover have "unat (push_bit 8 (ucast a) :: u32) = 256 * unat a"
    using byte_less [of a] byte_up [of a] by (simp add: push_bit_eq_mult unat_word_ariths)
  ultimately show ?thesis using byte_less [of a] byte_less [of b] byte_up [of b] by (simp add: unat_word_ariths)
qed

lemma unat_high: "unat (push_bit 8 (ucast a) :: u32) = 256 * unat a" for a :: u8
  using unat_pair [of a 0] by simp

lemma sum16_unat: "unat s + word_sum d < 2 ^ 32 \<Longrightarrow> unat (sum16 d s) = unat s + word_sum d"
proof (induction d s rule: sum16.induct)
  case (1 a b r s)
  have "unat (s + (push_bit 8 (ucast a) OR ucast b)) = unat s + (256 * unat a + unat b)"
    using 1(2) by (subst unat_plus_small) (simp_all add: unat_pair)
  then show ?case using 1 by simp
next
  case (2 a s)
  then show ?case by (simp add: unat_plus_small unat_high)
qed simp

lemma word_sum_le: "2 * word_sum d \<le> 65535 * (length d + 1)"
proof (induction d rule: word_sum.induct)
  case (1 a b r)
  then show ?case using byte_less [of a] byte_less [of b] by simp
next
  case (2 a)
  then show ?case using byte_less [of a] by simp
qed simp

lemma fold16_facts: "unat (fold16 s) < 2 ^ 16 \<and> unat (fold16 s) mod 65535 = unat s mod 65535 \<and> (fold16 s = 0 \<longleftrightarrow> s = 0)"
proof (induction s rule: fold16.induct)
  case (1 s)
  show ?case
  proof (cases "drop_bit 16 s = 0")
    case True
    then have "unat s div 2 ^ 16 = 0" using unat_halves(2) [of s] by simp
    then show ?thesis using True by (simp add: fold16.simps [of s])
  next
    case False
    define t where "t = (s AND 0xFFFF) + drop_bit 16 s"
    have t: "unat t = unat s mod 2 ^ 16 + unat s div 2 ^ 16" unfolding t_def by (rule fold16_step)
    have "unat s = 65535 * (unat s div 2 ^ 16) + unat t" using mult_div_mod_eq [of "2 ^ 16" "unat s"] t by simp
    then have m: "unat t mod 65535 = unat s mod 65535" by (metis mod_mult_self4)
    have "0 < unat s div 2 ^ 16" using False unat_halves(2) [of s] by (metis gr0I unat_eq_zero)
    then have "t \<noteq> 0" "s \<noteq> 0" using t by (auto simp: unat_eq_zero [symmetric])
    then show ?thesis using 1 [OF False] m False by (simp add: fold16.simps [of s] t_def)
  qed
qed

lemma unat_not16: "unat (NOT w :: u16) = 65535 - unat w"
proof -
  have n: "NOT w = - 1 - w" by (simp add: not_eq_complement)
  have "w \<le> - 1" by simp
  then have "unat (- 1 - w) = unat (- 1 :: u16) - unat w" by (rule unat_sub)
  then show ?thesis by (simp add: n unsigned_minus_1_eq_mask mask_eq_exp_minus_1)
qed

text \<open>The total that a checksum covers, and what it says about it.\<close>

definition csum_total :: "u32 \<Rightarrow> bytes \<Rightarrow> nat" where
  "csum_total init d = unat init + word_sum d"

lemma checksum_value:
  assumes "csum_total init d < 2 ^ 32"
  shows "unat (inet_checksum init d) < 2 ^ 16" "csum_total init d + unat (inet_checksum init d) > 0"
    "(csum_total init d + unat (inet_checksum init d)) mod 65535 = 0"
    "inet_checksum init d = 0 \<longleftrightarrow> 0 < csum_total init d \<and> csum_total init d mod 65535 = 0"
proof -
  define f where "f = fold16 (sum16 d init)"
  have tot: "unat (sum16 d init) = csum_total init d" using assms sum16_unat [of init d] by (simp add: csum_total_def)
  have f: "unat f < 2 ^ 16" "unat f mod 65535 = csum_total init d mod 65535" "f = 0 \<longleftrightarrow> csum_total init d = 0"
    using fold16_facts [of "sum16 d init"] tot unat_eq_zero [of "sum16 d init"] by (auto simp: f_def)
  have c: "unat (inet_checksum init d) = 65535 - unat f"
  proof -
    have "ucast (NOT f) = (NOT (ucast f) :: u16)" by (rule bit_word_eqI) (auto simp: bit_byte_simps bit_not_iff)
    moreover have "unat (ucast f :: u16) = unat f" using f(1) by (simp add: unsigned_ucast_eq take_bit_nat_eq_self)
    ultimately show ?thesis by (simp add: inet_checksum_def f_def [symmetric] unat_not16)
  qed
  show "unat (inet_checksum init d) < 2 ^ 16" using c by simp
  show "csum_total init d + unat (inet_checksum init d) > 0" using c f(1,3) by (cases "csum_total init d = 0") auto
  have "(csum_total init d + (65535 - unat f)) mod 65535 = (unat f + (65535 - unat f)) mod 65535" using f(2) by (metis mod_add_left_eq)
  then show "(csum_total init d + unat (inet_checksum init d)) mod 65535 = 0" using f(1) by (simp add: c)
  show "inet_checksum init d = 0 \<longleftrightarrow> 0 < csum_total init d \<and> csum_total init d mod 65535 = 0"
  proof
    assume "inet_checksum init d = 0"
    then have "unat f = 65535" using c f(1) by (simp add: unat_eq_zero [symmetric])
    then show "0 < csum_total init d \<and> csum_total init d mod 65535 = 0" using f(2,3) by (auto intro: gr0I)
  next
    assume t: "0 < csum_total init d \<and> csum_total init d mod 65535 = 0"
    then have "unat f mod 65535 = 0" "0 < unat f" using f(2,3) by (auto simp: unat_gt_0)
    then have "unat f = 65535" using f(1) by (cases "unat f < 65535") auto
    then show "inet_checksum init d = 0" using c by (simp add: unat_eq_zero [symmetric])
  qed
qed

lemma word_sum_put:
  assumes "even p" "p + 2 \<le> length d"
  shows "word_sum (put_bytes d p [a, b]) + 256 * unat (d ! p) + unat (d ! (p + 1)) = word_sum d + 256 * unat a + unat b"
  using assms
proof (induction d arbitrary: p rule: word_sum.induct)
  case (1 x y r)
  show ?case
  proof (cases "p = 0")
    case True
    then show ?thesis by (simp add: put_bytes_def)
  next
    case False
    then obtain q where q: "p = Suc (Suc q)" using 1(2) by (metis even_Suc evenE not0_implies_Suc odd_one One_nat_def)
    then have "put_bytes (x # y # r) p [a, b] = x # y # put_bytes r q [a, b]" by (simp add: put_bytes_def)
    then show ?thesis using 1(1) [of q] 1(2,3) q by simp
  qed
qed auto

lemma word_sum_update:
  assumes "i < length d"
  shows "int (word_sum (d[i := b])) = int (word_sum d) + (if even i then 256 else 1) * (int (unat b) - int (unat (d ! i)))"
  using assms
proof (induction d arbitrary: i rule: word_sum.induct)
  case (1 x y r)
  consider "i = 0" | "i = 1" | j where "i = Suc (Suc j)" by (metis One_nat_def not0_implies_Suc)
  then show ?case
  proof cases
    case 3
    then show ?thesis using 1 by simp
  qed simp_all
qed auto

lemma unat_be16: "256 * unat (be16 v ! 0) + unat (be16 v ! 1) = unat v"
proof -
  have "unat (ucast (v AND 0xFF) :: u8) = unat v mod 256" by (simp add: low_byte unsigned_ucast_eq take_bit_eq_mod)
  moreover have "unat (ucast (drop_bit 8 v) :: u8) = unat v div 256"
    using unsigned_less [of v, where 'a = nat] by (simp add: unsigned_ucast_eq drop_bit_eq_div unat_div take_bit_nat_eq_self div_less_iff_less_mult)
  ultimately show ?thesis by (simp add: be16_def)
qed

lemma total_wr16:
  assumes "even p" "p + 2 \<le> length d"
  shows "csum_total init (wr16 p v d) = csum_total init (wr16 p 0 d) + unat v"
proof -
  have e: "be16 v = [be16 v ! 0, be16 v ! 1]" "be16 0 = [0, 0]" by (simp_all add: be16_def)
  have "wr16 p v d = put_bytes d p [be16 v ! 0, be16 v ! 1]" unfolding wr16_def using e(1) by simp
  then show ?thesis using word_sum_put [OF assms, of "be16 v ! 0" "be16 v ! 1"] word_sum_put [OF assms, of 0 0] unat_be16 [of v]
    by (simp add: csum_total_def wr16_def e(2))
qed

lemma total_small:
  assumes "length d \<le> 0xFFFF" "unat init \<le> 0x100000"
  shows "csum_total init d < 2 ^ 32"
proof -
  have "65535 * (length d + 1) \<le> 65535 * 65536" using assms(1) by simp
  then have "2 * word_sum d \<le> 65535 * 65536" using word_sum_le [of d] by simp
  then show ?thesis using assms(2) by (simp add: csum_total_def)
qed

lemma checksum_field:
  assumes "even p" "p + 2 \<le> length d" "length d \<le> 0xFFFF" "unat init \<le> 0x100000"
  shows "inet_checksum init (wr16 p (inet_checksum init (wr16 p 0 d)) d) = 0"
proof -
  define c where "c = inet_checksum init (wr16 p 0 d)"
  have l: "csum_total init (wr16 p 0 d) < 2 ^ 32" "csum_total init (wr16 p c d) < 2 ^ 32" using assms by (intro total_small; simp)+
  note V = checksum_value [OF l(1), folded c_def]
  show "inet_checksum init (wr16 p c d) = 0"
    unfolding checksum_value(4) [OF l(2)] total_wr16 [OF assms(1,2), of init c] using V(2,3) by simp
qed

text \<open>
  C23. The Internet checksum: storing the checksum of a packet, computed with a zero checksum field,
  makes the receiver's check (the checksum of the whole packet is zero) succeed, for every field at an
  even offset; and no change of a single byte of a packet that passes the check goes unnoticed.
\<close>

theorem checksum_correct:
  assumes "even p" "p + 2 \<le> length d" "length d \<le> 0xFFFF" "unat init \<le> 0x100000"
  shows "inet_checksum init (wr16 p (inet_checksum init (wr16 p 0 d)) d) = 0
     \<and> (\<forall>i b. i < length d \<and> d ! i \<noteq> b \<and> inet_checksum init d = 0 \<longrightarrow> inet_checksum init (d[i := b]) \<noteq> 0)"
proof (intro conjI allI impI)
  show "inet_checksum init (wr16 p (inet_checksum init (wr16 p 0 d)) d) = 0" by (rule checksum_field [OF assms])
  have small: "csum_total init e < 2 ^ 32" if "length e = length d" for e using total_small that assms(3,4) by simp
  fix i b assume i: "i < length d \<and> d ! i \<noteq> b \<and> inet_checksum init d = 0"
  define x where "x = int (unat b)"
  define y where "y = int (unat (d ! i))"
  define w :: int where "w = (if even i then 256 else 1) * (x - y)"
  have xy: "0 \<le> x" "0 \<le> y" "x < 256" "y < 256" "x \<noteq> y"
    using byte_less [of b] byte_less [of "d ! i"] i
    by (simp_all only: x_def y_def of_nat_less_numeral_iff of_nat_0_le_iff of_nat_eq_iff word_unat_eq_iff not_False_eq_True) auto
  have e: "int (csum_total init (d[i := b])) = int (csum_total init d) + w" using word_sum_update [of i d b] i by (simp add: csum_total_def w_def x_def y_def)
  have ne: "w \<noteq> 0" using xy by (simp add: w_def)
  have "\<bar>w\<bar> < 65535" using xy by (auto simp: w_def)
  then have nd: "\<not> 65535 dvd w" using ne by (auto dest: zdvd_imp_le simp: dvd_def abs_mult) 
  have d0: "65535 dvd int (csum_total init d)"
    using i checksum_value(4) [OF small [of d]] by (auto simp: mod_eq_0_iff_dvd int_dvd_int_iff [of 65535, simplified, symmetric])
  show "inet_checksum init (d[i := b]) \<noteq> 0"
  proof
    assume "inet_checksum init (d[i := b]) = 0"
    then have "65535 dvd int (csum_total init (d[i := b]))"
      using checksum_value(4) [OF small [of "d[i := b]"]] by (auto simp: mod_eq_0_iff_dvd int_dvd_int_iff [of 65535, simplified, symmetric])
    then show False using nd d0 e by (metis dvd_add_right_iff)
  qed
qed

theorem checksum_correct_witness:
  "inet_checksum 0 (wr16 2 (inet_checksum 0 (wr16 2 0 [8, 0, 7, 7, 1, 2, 3])) [8, 0, 7, 7, 1, 2, 3]) = 0"
  using checksum_correct [of 2 "[8, 0, 7, 7, 1, 2, 3]" 0] by simp

end
