(* ===== verification/Pmm.thy ===== *)
theory Pmm
  imports Prelude
begin

text \<open>
  The physical memory manager, \<^verbatim>\<open>kernel/pmm.cpp\<close>: a bit map with one bit per 4 KB frame
  (1 = allocated) over the frames from the end of the kernel image to the top of RAM. The file's
  static variables are the fields of \<open>pmm\<close>; the BIOS memory map, the CMOS bytes and the address
  of \<^verbatim>\<open>__kernel_end\<close> are arguments of \<open>pmm_init\<close>. Indices of frames are \<open>nat\<close>: there are at most
  $2^{18}$ frames, so the casts of indices to \<^verbatim>\<open>uint32_t\<close> never truncate.
\<close>

record pmm =
  bits :: bytes
  base :: u64
  nframes :: u64
  free_frames :: u64
  ram_top :: u64
  ram_kb :: u64

record e820_entry =
  e_base :: u64
  e_len :: u64
  e_type :: u32

definition ONE_GIB :: u64 where "ONE_GIB = 0x40000000"
definition ONE_MIB :: u64 where "ONE_MIB = 0x100000"

text \<open>\<^verbatim>\<open>(p - base) >> 12\<close>: the index of the frame at address \<open>p\<close>.\<close>

definition frame_index :: "u64 \<Rightarrow> u64 \<Rightarrow> nat" where
  "frame_index b p = unat (drop_bit 12 (p - b))"

text \<open>\<^verbatim>\<open>base + (i << 12)\<close>: the address of frame \<open>i\<close>.\<close>

definition frame_addr :: "u64 \<Rightarrow> nat \<Rightarrow> u64" where
  "frame_addr b i = b + push_bit 12 (of_nat i)"

fun range_mark :: "u64 \<Rightarrow> nat \<Rightarrow> bool \<Rightarrow> pmm \<Rightarrow> pmm" where
  "range_mark p 0 u s = s"
| "range_mark p (Suc n) u s =
     (let idx = frame_index (base s) p;
          s' = s\<lparr>bits := (if u then bit_set (bits s) idx else bit_clear (bits s) idx)\<rparr>
      in range_mark (p + 4096) n u s')"

text \<open>
  The loop over the usable BIOS entries: \<open>(have_map, ram_kb, ram_top)\<close>. Entries below 1 MB or
  at and above 1 GB only count towards \<open>ram_kb\<close>.
\<close>

fun e820_loop :: "e820_entry list \<Rightarrow> bool \<times> u64 \<times> u64 \<Rightarrow> bool \<times> u64 \<times> u64" where
  "e820_loop [] st = st"
| "e820_loop (e # es) (have_map, kb, rtop) =
     (if e_type e \<noteq> 1 then e820_loop es (have_map, kb, rtop)
      else
        let kb' = kb + e_len e div 1024
        in if e_base e < ONE_MIB then e820_loop es (True, kb', rtop)
           else if e_base e \<ge> ONE_GIB then e820_loop es (True, kb', rtop)
           else
             let end0 = e_base e + e_len e;
                 end1 = (if end0 > ONE_GIB then ONE_GIB else end0)
             in e820_loop es (True, kb', if end1 > rtop then end1 else rtop))"

text \<open>RAM size from the memory map, or from the CMOS registers when no usable entry is there.\<close>

definition detect_ram :: "u32 \<Rightarrow> e820_entry list \<Rightarrow> (u8 \<Rightarrow> u8) \<Rightarrow> u64 \<times> u64" where
  "detect_ram cnt0 mp cmos_read =
     (let cnt = (if cnt0 > 64 then 64 else cnt0);
          (have_map, kb, rtop) = e820_loop (take (unat cnt) mp) (False, 0, 0);
          kb = (if cnt \<noteq> 0 \<and> kb > ONE_GIB div 1024 then ONE_GIB div 1024 else kb)
      in if have_map then (kb, rtop)
         else
           let ext_low = push_bit 8 (ucast (cmos_read 0x31)) OR (ucast (cmos_read 0x30) :: u16);
               ext_hi = cmos_read 0x17;
               ext_kb = ucast ext_low + (ucast ext_hi :: u64) * 64;
               rtop = ONE_MIB + ext_kb * 1024;
               kb = 1024 + ext_kb;
               rtop = (if rtop > ONE_GIB then ONE_GIB else rtop);
               kb = (if kb > ONE_GIB div 1024 then ONE_GIB div 1024 else kb)
           in (kb, rtop))"

text \<open>
  The mask \<^verbatim>\<open>~0xfffu\<close> is a 32-bit constant, zero-extended. The bit map is placed on the first
  frames of the region, which are then taken out of it.
\<close>

definition pmm_init :: "u32 \<Rightarrow> e820_entry list \<Rightarrow> (u8 \<Rightarrow> u8) \<Rightarrow> u64 \<Rightarrow> pmm \<Rightarrow> pmm" where
  "pmm_init cnt0 mp cmos_read kernel_end s =
     (let (kb, rtop) = detect_ram cnt0 mp cmos_read;
          s = s\<lparr>ram_kb := kb, ram_top := rtop\<rparr>;
          start = (kernel_end + 0xfff) AND 0xFFFFF000
      in if start \<ge> rtop then s\<lparr>nframes := 0, base := 0\<rparr>
         else
           let nf = (rtop - start) div 4096;
               bm_frames = (ucast (((nf + 7) div 8 + 4095) div 4096) :: u32);
               base' = start + (ucast bm_frames :: u64) * 4096;
               nf' = nf - ucast bm_frames
           in s\<lparr>base := base', nframes := nf',
                bits := replicate (unat ((nf' + 7) div 8)) 0, free_frames := nf'\<rparr>)"

definition pmm_alloc_frame :: "pmm \<Rightarrow> u64 \<times> pmm" where
  "pmm_alloc_frame s =
     (case find_from (\<lambda>i. \<not> bit_test (bits s) i) 0 (unat (nframes s)) of
        None \<Rightarrow> (0, s)
      | Some i \<Rightarrow>
          (frame_addr (base s) i,
           s\<lparr>bits := bit_set (bits s) i, free_frames := free_frames s - 1\<rparr>))"

text \<open>
  \<open>i\<close> runs up to \<^verbatim>\<open>nframes\<close> inclusive, so that a run that reaches the end of the map is seen;
  \<open>run\<close> is the length of the run of free frames that ends before \<open>i\<close>.
\<close>

function alloc_range_loop :: "pmm \<Rightarrow> nat \<Rightarrow> nat \<Rightarrow> nat \<Rightarrow> u64 \<times> pmm" where
  "alloc_range_loop s n i run =
     (if i \<le> unat (nframes s) then
        if i < unat (nframes s) \<and> \<not> bit_test (bits s) i
        then alloc_range_loop s n (Suc i) (Suc run)
        else if run \<ge> n
        then let p = frame_addr (base s) (i - run)
             in (p, (range_mark p n True s)\<lparr>free_frames := free_frames s - of_nat n\<rparr>)
        else alloc_range_loop s n (Suc i) 0
      else (0, s))"
  by pat_completeness auto
termination
  by (relation "measure (\<lambda>(s, n, i, run). Suc (unat (nframes s)) - i)") auto

declare alloc_range_loop.simps [simp del]

definition pmm_alloc_range :: "u32 \<Rightarrow> pmm \<Rightarrow> u64 \<times> pmm" where
  "pmm_alloc_range n s = (if n = 0 then (0, s) else alloc_range_loop s (unat n) 0 0)"

definition pmm_free_frame :: "u64 \<Rightarrow> pmm \<Rightarrow> pmm" where
  "pmm_free_frame phys s =
     (if phys < base s \<or> phys \<ge> base s + nframes s * 4096 then s
      else (range_mark phys 1 False s)\<lparr>free_frames := free_frames s + 1\<rparr>)"

definition pmm_free_range :: "u64 \<Rightarrow> u32 \<Rightarrow> pmm \<Rightarrow> pmm" where
  "pmm_free_range phys n s =
     (if n = 0 then s
      else if phys < base s \<or> phys + ucast n * 4096 > base s + nframes s * 4096 then s
      else (range_mark phys (unat n) False s)\<lparr>free_frames := free_frames s + ucast n\<rparr>)"

definition pmm_total_kb :: "pmm \<Rightarrow> u64" where "pmm_total_kb s = ram_kb s"
definition pmm_managed_kb :: "pmm \<Rightarrow> u64" where "pmm_managed_kb s = nframes s * 4"
definition pmm_free_frames :: "pmm \<Rightarrow> u32" where "pmm_free_frames s = ucast (free_frames s)"
definition pmm_total_frames :: "pmm \<Rightarrow> u32" where "pmm_total_frames s = ucast (nframes s)"


section \<open>Invariant\<close>

definition pmm_used :: "pmm \<Rightarrow> nat set" where
  "pmm_used s = used_below (bits s) (unat (nframes s))"

definition pmm_cap :: "pmm \<Rightarrow> nat" where
  "pmm_cap s = unat (nframes s)"

text \<open>
  The map covers every managed frame, the managed region lies below 1 GB and is page aligned, a
  managed frame never has address 0 (which \<open>pmm_alloc_frame\<close> returns for ``none''), and the
  counter is the number of clear bits.
\<close>

definition pmm_inv :: "pmm \<Rightarrow> bool" where
  "pmm_inv s \<longleftrightarrow>
     unat (nframes s) \<le> 8 * length (bits s)
     \<and> unat (base s) + 4096 * unat (nframes s) \<le> 2 ^ 30
     \<and> unat (base s) mod 4096 = 0
     \<and> (nframes s \<noteq> 0 \<longrightarrow> base s \<noteq> 0)
     \<and> unat (free_frames s) = unat (nframes s) - card (pmm_used s)"


section \<open>Frame addresses\<close>

lemma frame_index_addr: "i < 2 ^ 52 \<Longrightarrow> frame_index b (frame_addr b i) = i"
  by (simp add: frame_index_def frame_addr_def unat_drop_bit_eq push_bit_eq_mult unat_word_ariths
      unat_of_nat drop_bit_eq_div)

lemma frame_addr_Suc: "frame_addr b i + 4096 = frame_addr b (Suc i)"
  by (simp add: frame_addr_def push_bit_eq_mult algebra_simps)

lemma unat_frame_addr:
  assumes "unat b + 4096 * n \<le> 2 ^ 30" "i \<le> n"
  shows "unat (frame_addr b i) = unat b + 4096 * i"
proof -
  have "4096 * i \<le> 4096 * n" using assms(2) by simp
  then have "i < 2 ^ 32" "unat b + 4096 * i < 2 ^ 64" using assms(1) by simp_all
  then show ?thesis
    by (simp add: frame_addr_def push_bit_eq_mult unat_word_ariths unat_of_nat mult.commute)
qed

lemma pmm_invD:
  assumes "pmm_inv s"
  shows "unat (nframes s) \<le> 8 * length (bits s)"
    and "unat (base s) + 4096 * unat (nframes s) \<le> 2 ^ 30"
    and "unat (base s) mod 4096 = 0"
    and "nframes s \<noteq> 0 \<Longrightarrow> base s \<noteq> 0"
    and "unat (free_frames s) = unat (nframes s) - card (pmm_used s)"
  using assms by (auto simp: pmm_inv_def)

lemma pmm_nframes_small: "pmm_inv s \<Longrightarrow> unat (nframes s) \<le> 2 ^ 18"
  using pmm_invD(2) [of s] by simp

lemma pmm_frame_addr:
  assumes "pmm_inv s" "i \<le> unat (nframes s)"
  shows "unat (frame_addr (base s) i) = unat (base s) + 4096 * i"
  using assms by (auto intro: unat_frame_addr dest: pmm_invD(2))

lemma pmm_frame_nonzero:
  assumes "pmm_inv s" "i < unat (nframes s)"
  shows "frame_addr (base s) i \<noteq> 0"
proof
  assume "frame_addr (base s) i = 0"
  with pmm_frame_addr [OF assms(1), of i] assms(2) have "unat (base s) = 0" by simp
  with pmm_invD(4) [OF assms(1)] assms(2) show False by (cases "nframes s = 0") (auto simp: unat_eq_zero)
qed

lemma pmm_frame_index:
  assumes "pmm_inv s" "i \<le> unat (nframes s)"
  shows "frame_index (base s) (frame_addr (base s) i) = i"
  using pmm_nframes_small [OF assms(1)] assms(2) by (intro frame_index_addr) simp


section \<open>Marking a range\<close>

lemma range_mark_frame [simp]:
  "base (range_mark p n u s) = base s" "nframes (range_mark p n u s) = nframes s"
  "free_frames (range_mark p n u s) = free_frames s" "ram_top (range_mark p n u s) = ram_top s"
  "ram_kb (range_mark p n u s) = ram_kb s" "length (bits (range_mark p n u s)) = length (bits s)"
  by (induction p n u s rule: range_mark.induct) (simp_all add: Let_def)

lemma range_mark_numeral [simp]:
  "range_mark p (numeral k) u s =
     (let idx = frame_index (base s) p;
          s' = s\<lparr>bits := (if u then bit_set (bits s) idx else bit_clear (bits s) idx)\<rparr>
      in range_mark (p + 4096) (pred_numeral k) u s')"
  by (simp add: numeral_eq_Suc)

lemma range_mark_test:
  assumes "i + n \<le> 8 * length (bits s)" "i + n \<le> 2 ^ 52"
  shows "bit_test (bits (range_mark (frame_addr (base s) i) n u s)) j \<longleftrightarrow>
         (if i \<le> j \<and> j < i + n then u else bit_test (bits s) j)"
  using assms
proof (induction n arbitrary: i s)
  case 0
  then show ?case by auto
next
  case (Suc n)
  let ?s = "s\<lparr>bits := (if u then bit_set (bits s) i else bit_clear (bits s) i)\<rparr>"
  have i: "i div 8 < length (bits s)" using Suc.prems(1) by (intro bit_index_ok) auto
  have step: "range_mark (frame_addr (base s) i) (Suc n) u s
      = range_mark (frame_addr (base ?s) (Suc i)) n u ?s"
    using Suc.prems(2) by (simp add: Let_def frame_index_addr frame_addr_Suc)
  have "bit_test (bits (range_mark (frame_addr (base ?s) (Suc i)) n u ?s)) j \<longleftrightarrow>
      (if Suc i \<le> j \<and> j < Suc i + n then u else bit_test (bits ?s) j)"
    using Suc.prems by (intro Suc.IH) simp_all
  also have "bit_test (bits ?s) j \<longleftrightarrow> (if j = i then u else bit_test (bits s) j)"
    using i by (auto simp: bitmap_simps)
  finally show ?case unfolding step by auto
qed

lemma range_mark_used:
  assumes "pmm_inv s" "i + n \<le> unat (nframes s)"
  shows "pmm_used (range_mark (frame_addr (base s) i) n u s)
         = (if u then pmm_used s \<union> {i..<i + n} else pmm_used s - {i..<i + n})"
  using assms pmm_invD(1) [OF assms(1)] pmm_nframes_small [OF assms(1)]
  by (auto simp: pmm_used_def used_below_def range_mark_test)

lemma pmm_used_bound: "pmm_used s \<subseteq> {..<unat (nframes s)}"
  by (auto simp: pmm_used_def used_below_def)

lemma finite_pmm_used [simp]: "finite (pmm_used s)"
  by (simp add: pmm_used_def)

lemma card_pmm_used: "card (pmm_used s) \<le> unat (nframes s)"
  by (simp add: pmm_used_def card_used_below)

text \<open>Changing the map and the counter together keeps the invariant.\<close>

lemma pmm_inv_update:
  assumes "pmm_inv s" "length bs = length (bits s)"
    and "unat f = unat (nframes s) - card (used_below bs (unat (nframes s)))"
  shows "pmm_inv (s\<lparr>bits := bs, free_frames := f\<rparr>)"
  using assms by (simp add: pmm_inv_def pmm_used_def)

lemma pmm_upd_split:
  "(range_mark p n u s)\<lparr>free_frames := f\<rparr> = s\<lparr>bits := bits (range_mark p n u s), free_frames := f\<rparr>"
  by (induction p n u s rule: range_mark.induct) (simp_all add: Let_def)


section \<open>Single frames\<close>

lemma pmm_alloc_frame_cases:
  assumes "pmm_inv s"
  obtains (full) "pmm_alloc_frame s = (0, s)" "pmm_used s = {..<unat (nframes s)}"
  | (found) i where "i < unat (nframes s)" "i \<notin> pmm_used s" "{..<i} \<subseteq> pmm_used s"
      "pmm_alloc_frame s = (frame_addr (base s) i,
         s\<lparr>bits := bit_set (bits s) i, free_frames := free_frames s - 1\<rparr>)"
proof (cases "find_from (\<lambda>i. \<not> bit_test (bits s) i) 0 (unat (nframes s))")
  case None
  then have "pmm_used s = {..<unat (nframes s)}"
    by (auto simp: find_from_None pmm_used_def used_below_def)
  with None show ?thesis by (intro full) (simp_all add: pmm_alloc_frame_def)
next
  case (Some i)
  with find_from_SomeD [OF Some] show ?thesis
    by (intro found [of i]) (auto simp: pmm_alloc_frame_def pmm_used_def used_below_def)
qed

lemma unat_pred: "0 < unat (x :: u64) \<Longrightarrow> unat (x - 1) = unat x - 1"
  by (simp add: unat_minus_one unat_gt_0)

lemma pmm_set_frame:
  assumes "pmm_inv s" "i < unat (nframes s)" "i \<notin> pmm_used s"
  defines "s' \<equiv> s\<lparr>bits := bit_set (bits s) i, free_frames := free_frames s - 1\<rparr>"
  shows "pmm_used s' = insert i (pmm_used s)" "pmm_inv s'"
    "unat (free_frames s') = unat (free_frames s) - 1" "0 < unat (free_frames s)"
proof -
  have i: "i div 8 < length (bits s)"
    using bit_index_ok pmm_invD(1) [OF assms(1)] assms(2) by blast
  show u: "pmm_used s' = insert i (pmm_used s)"
    using i assms(2) by (simp add: s'_def pmm_used_def used_below_set)
  have "card (insert i (pmm_used s)) \<le> unat (nframes s)"
    using card_pmm_used [of s'] unfolding u by (simp add: s'_def)
  then have less: "card (pmm_used s) < unat (nframes s)" using assms(3) by simp
  then show pos: "0 < unat (free_frames s)" using pmm_invD(5) [OF assms(1)] by simp
  then show dec: "unat (free_frames s') = unat (free_frames s) - 1"
    by (simp add: s'_def unat_pred)
  have "unat (free_frames s - 1) = unat (nframes s) - card (insert i (pmm_used s))"
    using pmm_invD(5) [OF assms(1)] assms(3) unat_pred [OF pos] by simp
  then show "pmm_inv s'"
    unfolding s'_def using i assms(1,2)
    by (intro pmm_inv_update) (simp_all add: used_below_set pmm_used_def)
qed

lemma pmm_free_frame_at:
  assumes "pmm_inv s" "i < unat (nframes s)"
  shows "pmm_free_frame (frame_addr (base s) i) s
         = s\<lparr>bits := bit_clear (bits s) i, free_frames := free_frames s + 1\<rparr>"
proof -
  have top: "base s + nframes s * 4096 = frame_addr (base s) (unat (nframes s))"
    by (simp add: frame_addr_def push_bit_eq_mult)
  have "frame_addr (base s) i \<ge> base s" "frame_addr (base s) i < base s + nframes s * 4096"
    unfolding top word_le_nat_alt word_less_nat_alt
    using assms pmm_frame_addr [OF assms(1)] by simp_all
  then show ?thesis
    using pmm_frame_index [OF assms(1), of i] assms(2)
    by (simp add: pmm_free_frame_def linorder_not_le linorder_not_less)
qed

lemma pmm_free_frame_fields [simp]:
  "nframes (pmm_free_frame p s) = nframes s" "base (pmm_free_frame p s) = base s"
  by (simp_all add: pmm_free_frame_def)

lemma pmm_clear_frame:
  assumes "pmm_inv s" "i \<in> pmm_used s"
  defines "s' \<equiv> pmm_free_frame (frame_addr (base s) i) s"
  shows "pmm_used s' = pmm_used s - {i}" "pmm_inv s'"
proof -
  have i: "i < unat (nframes s)" "i div 8 < length (bits s)"
    using pmm_used_bound [of s] assms(2) bit_index_ok pmm_invD(1) [OF assms(1)] by auto
  have s': "s' = s\<lparr>bits := bit_clear (bits s) i, free_frames := free_frames s + 1\<rparr>"
    using pmm_free_frame_at [OF assms(1) i(1)] by (simp add: s'_def)
  show "pmm_used s' = pmm_used s - {i}"
    using i by (simp add: s' pmm_used_def used_below_clear)
  have pos: "0 < card (pmm_used s)" using assms(2) by (auto simp: card_gt_0_iff)
  have "unat (free_frames s) < 2 ^ 18 + 1"
    using pmm_invD(5) [OF assms(1)] pmm_nframes_small [OF assms(1)] by simp
  then have "unat (free_frames s + 1) = unat (free_frames s) + 1"
    by (simp add: unat_word_ariths)
  then have "unat (free_frames s + 1) = unat (nframes s) - card (pmm_used s - {i})"
    using pmm_invD(5) [OF assms(1)] pos card_pmm_used [of s] assms(2) by simp
  then show "pmm_inv s'"
    unfolding s' using i assms(1)
    by (intro pmm_inv_update) (simp_all add: used_below_clear pmm_used_def)
qed


section \<open>Contiguous ranges\<close>

text \<open>
  The scan finds a run iff there is one: \<open>run\<close> frames before \<open>i\<close> are free, the frame before
  them is allocated, and no window of \<open>n\<close> free frames ends before them.
\<close>

definition scan_ok :: "nat set \<Rightarrow> nat \<Rightarrow> nat \<Rightarrow> nat \<Rightarrow> nat \<Rightarrow> bool" where
  "scan_ok U N n i run \<longleftrightarrow>
     run \<le> i \<and> (\<forall>j. i - run \<le> j \<and> j < i \<longrightarrow> j < N \<and> j \<notin> U)
     \<and> (0 < i - run \<longrightarrow> i - run - 1 \<in> U \<or> i - run - 1 \<ge> N)
     \<and> (\<forall>st. st + n \<le> i - run \<and> st + n \<le> N \<longrightarrow> {st..<st + n} \<inter> U \<noteq> {})"

lemma scan_ok_init: "0 < n \<Longrightarrow> scan_ok U N n 0 0"
  by (simp add: scan_ok_def)

lemma scan_ok_free: "scan_ok U N n i run \<Longrightarrow> i < N \<Longrightarrow> i \<notin> U \<Longrightarrow> scan_ok U N n (Suc i) (Suc run)"
  by (auto simp: scan_ok_def less_Suc_eq)

lemma scan_ok_used:
  assumes "scan_ok U N n i run" "i < N \<longrightarrow> i \<in> U" "run < n"
  shows "scan_ok U N n (Suc i) 0"
proof -
  have "{st..<st + n} \<inter> U \<noteq> {}" if w: "st + n \<le> Suc i" "st + n \<le> N" for st
  proof -
    consider "st + n = Suc i" | "st + n \<le> i - run" | "st < i - run" "i - run < st + n" "st + n \<le> i"
      using w assms(1,3) unfolding scan_ok_def by linarith
    then show ?thesis
    proof cases
      case 1
      with w(2) assms(2,3) have "i \<in> {st..<st + n} \<inter> U" by auto
      then show ?thesis by blast
    next
      case 2
      with w(2) assms(1) show ?thesis by (simp add: scan_ok_def)
    next
      case 3
      with assms(1) w(2) have "i - run - 1 \<in> U" by (auto simp: scan_ok_def)
      with 3 have "i - run - 1 \<in> {st..<st + n} \<inter> U" by auto
      then show ?thesis by blast
    qed
  qed
  with assms show ?thesis by (auto simp: scan_ok_def)
qed

text \<open>What \<open>pmm_alloc_range\<close> returns: the run it marked, or no run at all.\<close>

definition range_result :: "pmm \<Rightarrow> nat \<Rightarrow> u64 \<times> pmm \<Rightarrow> bool" where
  "range_result s n r \<longleftrightarrow>
     (\<exists>st. st + n \<le> unat (nframes s) \<and> {st..<st + n} \<inter> pmm_used s = {}
        \<and> r = (frame_addr (base s) st,
               (range_mark (frame_addr (base s) st) n True s)
                 \<lparr>free_frames := free_frames s - of_nat n\<rparr>))
     \<or> r = (0, s) \<and> (\<forall>st. st + n \<le> unat (nframes s) \<longrightarrow> {st..<st + n} \<inter> pmm_used s \<noteq> {})"

lemma alloc_range_loop_result:
  assumes "scan_ok (pmm_used s) (unat (nframes s)) n i run" "0 < n"
  shows "range_result s n (alloc_range_loop s n i run)"
  using assms
proof (induction s n i run rule: alloc_range_loop.induct)
  case (1 s n i run)
  let ?N = "unat (nframes s)"
  have bt: "bit_test (bits s) j \<longleftrightarrow> j \<in> pmm_used s" if "j < ?N" for j
    using that by (simp add: pmm_used_def used_below_def)
  consider (free) "i < ?N" "\<not> bit_test (bits s) i"
    | (hit) "i \<le> ?N" "\<not> (i < ?N \<and> \<not> bit_test (bits s) i)" "run \<ge> n"
    | (miss) "i \<le> ?N" "\<not> (i < ?N \<and> \<not> bit_test (bits s) i)" "run < n"
    | (over) "\<not> i \<le> ?N" by linarith
  then show ?case
  proof cases
    case free
    with "1.prems"(1) bt have "scan_ok (pmm_used s) ?N n (Suc i) (Suc run)"
      by (intro scan_ok_free) auto
    moreover have "alloc_range_loop s n i run = alloc_range_loop s n (Suc i) (Suc run)"
      using free by (subst alloc_range_loop.simps) simp
    ultimately show ?thesis using "1.IH"(1) free "1.prems"(2) by simp
  next
    case hit
    have "i - run + n \<le> ?N" "{i - run..<i - run + n} \<inter> pmm_used s = {}"
      using "1.prems"(1) hit by (auto simp: scan_ok_def)
    with hit show ?thesis
      unfolding range_result_def by (subst alloc_range_loop.simps) (auto simp: Let_def)
  next
    case miss
    with "1.prems"(1) bt have "scan_ok (pmm_used s) ?N n (Suc i) 0"
      by (intro scan_ok_used [where run = run]) auto
    moreover have "alloc_range_loop s n i run = alloc_range_loop s n (Suc i) 0"
      using miss by (subst alloc_range_loop.simps) auto
    ultimately show ?thesis using "1.IH"(2) miss "1.prems"(2) by simp
  next
    case over
    then have "alloc_range_loop s n i run = (0, s)" by (subst alloc_range_loop.simps) simp
    moreover have "{st..<st + n} \<inter> pmm_used s \<noteq> {}" if "st + n \<le> ?N" for st
    proof (cases "st + n \<le> i - run")
      case True
      with that "1.prems"(1) show ?thesis by (simp add: scan_ok_def)
    next
      case False
      with that over have "run \<noteq> 0" by linarith
      with "1.prems"(1) over have "i - 1 < ?N" by (auto simp: scan_ok_def)
      with over show ?thesis by simp
    qed
    ultimately show ?thesis unfolding range_result_def by blast
  qed
qed

lemma pmm_range_marked:
  assumes "pmm_inv s" "st + n \<le> unat (nframes s)" "{st..<st + n} \<inter> pmm_used s = {}"
  defines "s' \<equiv> (range_mark (frame_addr (base s) st) n True s)\<lparr>free_frames := free_frames s - of_nat n\<rparr>"
  shows "pmm_used s' = pmm_used s \<union> {st..<st + n}" "pmm_inv s'"
proof -
  have u: "pmm_used s' = pmm_used (range_mark (frame_addr (base s) st) n True s)"
    by (simp add: s'_def pmm_used_def)
  then show u': "pmm_used s' = pmm_used s \<union> {st..<st + n}"
    using range_mark_used [OF assms(1,2)] by simp
  have "card (pmm_used s \<union> {st..<st + n}) = card (pmm_used s) + n"
    using assms(3) by (subst card_Un_disjoint) auto
  moreover have "card (pmm_used s \<union> {st..<st + n}) \<le> unat (nframes s)"
    using card_pmm_used [of s'] u' by (simp add: s'_def)
  ultimately have c: "card (pmm_used s) + n \<le> unat (nframes s)" by simp
  then have n: "n \<le> unat (free_frames s)" using pmm_invD(5) [OF assms(1)] by simp
  have "n < 2 ^ 64" using assms(2) pmm_nframes_small [OF assms(1)] by simp
  then have "unat (of_nat n :: u64) = n" by (simp add: unat_of_nat)
  then have "unat (free_frames s - of_nat n) = unat (free_frames s) - n"
    using n by (simp add: unat_sub word_le_nat_alt)
  then have "unat (free_frames s - of_nat n) = unat (nframes s) - card (pmm_used s')"
    unfolding u' using pmm_invD(5) [OF assms(1)] assms(3) by (subst card_Un_disjoint) auto
  then show "pmm_inv s'"
    unfolding s'_def pmm_upd_split using assms(1)
    by (intro pmm_inv_update) (simp_all add: pmm_used_def s'_def)
qed


section \<open>Initialisation\<close>

lemma e820_loop_top:
  "top0 \<le> ONE_GIB \<Longrightarrow> e820_loop es (h, kb, top0) = (h', kb', top1) \<Longrightarrow> top1 \<le> ONE_GIB"
  by (induction es "(h, kb, top0)" arbitrary: h kb top0 rule: e820_loop.induct)
    (auto simp: Let_def split: if_splits)

lemma detect_ram_top: "snd (detect_ram cnt mp cmos) \<le> ONE_GIB"
  using e820_loop_top [of 0]
  by (auto simp: detect_ram_def Let_def split: prod.splits)

lemma word_and_page_mask:
  assumes "unat (x :: u64) < 2 ^ 32"
  shows "unat (x AND 0xFFFFF000) = unat x - unat x mod 4096"
proof -
  have "x AND 0xFFFFF000 = push_bit 12 (drop_bit 12 x)"
  proof (rule bit_word_eqI)
    fix n assume "n < LENGTH(64)"
    have "take_bit 32 x = x"
      using assms by (simp add: word_unat_eq_iff unsigned_take_bit_eq take_bit_nat_eq_self_iff)
    then have high: "bit x n \<Longrightarrow> n < 32" by (metis bit_take_bit_iff)
    have "bit (0xFFFFF000 :: u64) n \<longleftrightarrow> 12 \<le> n \<and> n < 32"
    proof -
      have e: "(0xFFFFF000 :: u64) = push_bit 12 (mask 20)" by (simp add: mask_eq_exp_minus_1)
      show ?thesis using \<open>n < LENGTH(64)\<close> unfolding e bit_push_bit_iff bit_mask_iff by auto
    qed
    then show "bit (x AND 0xFFFFF000) n = bit (push_bit 12 (drop_bit 12 x)) n"
      using high \<open>n < LENGTH(64)\<close> by (auto simp: bit_and_iff bit_push_bit_iff bit_drop_bit_eq)
  qed
  moreover have "unat (push_bit 12 (drop_bit 12 x)) = unat x div 4096 * 4096"
    using assms
    by (simp add: push_bit_eq_mult unat_word_ariths unat_drop_bit_eq drop_bit_eq_div)
  ultimately show ?thesis by (simp add: minus_mod_eq_div_mult)
qed


lemma bitmap_frames_fit: "((nf + 7) div 8 + 4095) div 4096 \<le> (nf :: nat)"
proof (cases "nf = 0")
  case False
  then have "(nf + 7) div 8 \<le> nf" by simp
  then have "((nf + 7) div 8 + 4095) div 4096 \<le> (nf + 4095) div 4096" by (intro div_le_mono) simp
  also have "\<dots> \<le> nf" using False by simp
  finally show ?thesis .
qed simp

text \<open>The word arithmetic of \<open>pmm_init\<close> on the natural numbers.\<close>

lemma pmm_init_nat:
  fixes start rt :: u64
  assumes "start < rt" "rt \<le> ONE_GIB"
  defines "nf \<equiv> (rt - start) div 4096"
  defines "bm \<equiv> (ucast (((nf + 7) div 8 + 4095) div 4096) :: u32)"
  defines "n \<equiv> (unat rt - unat start) div 4096"
  defines "b \<equiv> ((n + 7) div 8 + 4095) div 4096"
  shows "unat (nf - ucast bm) = n - b" "unat (start + (ucast bm :: u64) * 4096) = unat start + b * 4096"
    "unat (((nf - ucast bm) + 7) div 8) = (n - b + 7) div 8" "b \<le> n"
    "unat start + 4096 * n \<le> unat rt"
proof -
  have rt: "unat rt \<le> 2 ^ 30" "unat start < unat rt"
    using assms(1,2) by (simp_all add: word_le_nat_alt word_less_nat_alt ONE_GIB_def)
  have nf: "unat nf = n"
    using assms(1) by (simp add: nf_def n_def unat_div unat_sub word_le_nat_alt word_less_nat_alt)
  have n: "n \<le> 2 ^ 18" using rt unfolding n_def by simp
  show bn: "b \<le> n" unfolding b_def by (rule bitmap_frames_fit)
  show top: "unat start + 4096 * n \<le> unat rt" using rt unfolding n_def by simp
  have "unat (((nf + 7) div 8 + 4095) div 4096) = b"
    using nf n unfolding b_def by (simp add: unat_div unat_word_ariths)
  then have bm: "unat bm = b"
    using bn n unfolding bm_def by (simp add: unsigned_ucast_eq take_bit_nat_eq_self_iff)
  then have bm64: "unat (ucast bm :: u64) = b"
    using bn n by (simp add: unsigned_ucast_eq take_bit_nat_eq_self_iff)
  show d: "unat (nf - ucast bm) = n - b"
    using nf bm64 bn by (simp add: unat_sub word_le_nat_alt)
  have "b * 4096 \<le> n * 4096" using bn by simp
  then show "unat (start + (ucast bm :: u64) * 4096) = unat start + b * 4096"
    using bm64 bn n top rt by (simp add: unat_word_ariths)
  show "unat (((nf - ucast bm) + 7) div 8) = (n - b + 7) div 8"
    using d n by (simp add: unat_div unat_word_ariths)
qed

lemma pmm_init_start:
  assumes "0 < unat k" "unat (k :: u64) + 4095 < 2 ^ 32"
  shows "unat ((k + 0xfff) AND 0xFFFFF000) mod 4096 = 0" "unat k \<le> unat ((k + 0xfff) AND 0xFFFFF000)"
proof -
  have k: "unat (k + 0xfff) = unat k + 4095" using assms by (simp add: unat_word_ariths)
  with word_and_page_mask [of "k + 0xfff"] assms(2)
  have e: "unat ((k + 0xfff) AND 0xFFFFF000) = (unat k + 4095) - (unat k + 4095) mod 4096" by simp
  show "unat ((k + 0xfff) AND 0xFFFFF000) mod 4096 = 0"
    unfolding e by (simp add: minus_mod_eq_div_mult)
  show "unat k \<le> unat ((k + 0xfff) AND 0xFFFFF000)"
    unfolding e using mod_less_divisor [of 4096 "unat k + 4095"] by linarith
qed


section \<open>The contract and the properties\<close>

definition pmm_alloc_index :: "pmm \<Rightarrow> (nat \<times> pmm) option" where
  "pmm_alloc_index s =
     (let (p, s') = pmm_alloc_frame s in if p = 0 then None else Some (frame_index (base s) p, s'))"

definition pmm_free_index :: "nat \<Rightarrow> pmm \<Rightarrow> pmm" where
  "pmm_free_index i s = pmm_free_frame (frame_addr (base s) i) s"

lemma pmm_alloc_index_cases:
  assumes "pmm_inv s"
  obtains (full) "pmm_alloc_index s = None" "pmm_used s = {..<pmm_cap s}"
  | (found) i where "i < pmm_cap s" "i \<notin> pmm_used s" "pmm_alloc_index s = Some (i,
      s\<lparr>bits := bit_set (bits s) i, free_frames := free_frames s - 1\<rparr>)"
proof (cases rule: pmm_alloc_frame_cases [OF assms])
  case 1
  then show ?thesis using full by (simp add: pmm_alloc_index_def pmm_cap_def)
next
  case (2 i)
  then show ?thesis
    using found [of i] pmm_frame_nonzero [OF assms] pmm_frame_index [OF assms, of i]
    by (simp add: pmm_alloc_index_def pmm_cap_def)
qed

interpretation frames: index_allocator pmm_alloc_index pmm_free_index pmm_used pmm_cap pmm_inv
proof
  show "pmm_inv s \<Longrightarrow> pmm_used s \<subseteq> {..<pmm_cap s}" for s
    by (simp add: pmm_cap_def pmm_used_bound)
  show "pmm_inv s \<Longrightarrow> pmm_alloc_index s = None \<longleftrightarrow> {..<pmm_cap s} \<subseteq> pmm_used s" for s
    by (cases s rule: pmm_alloc_index_cases) (auto simp: subset_iff)
  fix s i s'
  assume inv: "pmm_inv s"
  show "pmm_alloc_index s = Some (i, s') \<Longrightarrow> i < pmm_cap s \<and> i \<notin> pmm_used s"
    using inv by (cases s rule: pmm_alloc_index_cases) auto
  show "pmm_alloc_index s = Some (i, s') \<Longrightarrow> pmm_used s' = insert i (pmm_used s)"
    by (cases rule: pmm_alloc_index_cases [OF inv]) (auto simp: pmm_set_frame [OF inv] pmm_cap_def)
  show "pmm_alloc_index s = Some (i, s') \<Longrightarrow> pmm_inv s' \<and> pmm_cap s' = pmm_cap s"
    by (cases rule: pmm_alloc_index_cases [OF inv]) (auto simp: pmm_set_frame [OF inv] pmm_cap_def)
  show "i \<in> pmm_used s \<Longrightarrow> pmm_used (pmm_free_index i s) = pmm_used s - {i}"
    using inv by (simp add: pmm_free_index_def pmm_clear_frame)
  show "i \<in> pmm_used s \<Longrightarrow> pmm_inv (pmm_free_index i s) \<and> pmm_cap (pmm_free_index i s) = pmm_cap s"
    using pmm_clear_frame(2) [OF inv] by (simp add: pmm_free_index_def pmm_cap_def)
qed

text \<open>
  C1. \<open>pmm_init\<close> establishes the allocator's invariant whatever the BIOS map and the CMOS say:
  every frame it manages lies above the kernel image and below the detected top of RAM, nothing
  is allocated, and the bit map itself (placed at the start of the region) is not managed.
\<close>

theorem pmm_init_establishes:
  assumes "0 < unat kernel_end" "unat kernel_end + 4095 < 2 ^ 32" "free_frames s0 = 0"
    and s_def: "s = pmm_init cnt mp cmos kernel_end s0"
  shows "pmm_inv s \<and> pmm_used s = {}
     \<and> (nframes s \<noteq> 0 \<longrightarrow>
          unat kernel_end + length (bits s) \<le> unat (base s)
          \<and> unat (base s) + 4096 * unat (nframes s) \<le> unat (ram_top s))"
proof -
  obtain kb rt where d: "detect_ram cnt mp cmos = (kb, rt)" by fastforce
  with detect_ram_top [of cnt mp cmos] have rt: "rt \<le> ONE_GIB" by simp
  define start where "start = (kernel_end + 0xfff) AND 0xFFFFF000"
  note st = pmm_init_start [OF assms(1,2), folded start_def]
  show ?thesis
  proof (cases "start \<ge> rt")
    case True
    then have "s = s0\<lparr>ram_kb := kb, ram_top := rt, nframes := 0, base := 0\<rparr>"
      by (simp add: s_def pmm_init_def d start_def Let_def)
    then show ?thesis using assms(3) by (simp add: pmm_inv_def pmm_used_def used_below_def)
  next
    case False
    then have less: "start < rt" by simp
    define nf where "nf = (rt - start) div 4096"
    define bm where "bm = (ucast (((nf + 7) div 8 + 4095) div 4096) :: u32)"
    define n where "n = (unat rt - unat start) div 4096"
    define b where "b = ((n + 7) div 8 + 4095) div 4096"
    note ar = pmm_init_nat [OF less rt, folded nf_def, folded bm_def, folded n_def, folded b_def]
    have s: "s = s0\<lparr>ram_kb := kb, ram_top := rt, base := start + (ucast bm :: u64) * 4096,
        nframes := nf - ucast bm, bits := replicate (unat ((nf - ucast bm + 7) div 8)) 0,
        free_frames := nf - ucast bm\<rparr>"
      using False unfolding s_def pmm_init_def nf_def bm_def start_def by (simp add: d Let_def)
    have len: "length (bits s) = (n - b + 7) div 8" by (simp add: s ar)
    have cap: "n - b \<le> 8 * ((n - b + 7) div 8)" by linarith
    have u: "pmm_used s = {}"
      using bit_index_ok [OF cap] by (auto simp: s pmm_used_def used_below_def ar)
    have "b * 4096 \<le> n * 4096" using ar(4) by simp
    then have hi: "unat start + b * 4096 + 4096 * (n - b) \<le> unat rt"
      using ar(5) by (simp add: diff_mult_distrib2)
    have bmsize: "(n - b + 7) div 8 \<le> b * 4096"
    proof -
      have "(n + 7) div 8 \<le> b * 4096" unfolding b_def by linarith
      moreover have "(n - b + 7) div 8 \<le> (n + 7) div 8" by (intro div_le_mono) simp
      ultimately show ?thesis by linarith
    qed
    have rt30: "unat rt \<le> 2 ^ 30" using rt by (simp add: ONE_GIB_def word_le_nat_alt)
    have base: "unat (base s) = unat start + b * 4096" by (simp add: s ar)
    then have nz: "base s \<noteq> 0" using st(2) assms(1) by (metis add_is_0 le_zero_eq not_gr_zero unat_0)
    have "pmm_inv s"
      unfolding pmm_inv_def using len cap u base hi rt30 st(1) nz
      by (auto simp: s ar mod_add_eq [symmetric])
    with u base hi bmsize len st(2) show ?thesis by (auto simp: s ar)
  qed
qed

definition pmm_zero :: pmm where
  "pmm_zero = \<lparr>bits = [], base = 0, nframes = 0, free_frames = 0, ram_top = 0, ram_kb = 0\<rparr>"

theorem pmm_init_establishes_witness:
  "pmm_inv (pmm_init 1 [\<lparr>e_base = 0x100000, e_len = 0x700000, e_type = 1\<rparr>] (\<lambda>_. 0) 0x150123 pmm_zero)
   \<and> nframes (pmm_init 1 [\<lparr>e_base = 0x100000, e_len = 0x700000, e_type = 1\<rparr>] (\<lambda>_. 0) 0x150123 pmm_zero) = 1710"
proof -
  have "free_frames pmm_zero = 0" by (simp add: pmm_zero_def)
  moreover have "nframes (pmm_init 1 [\<lparr>e_base = 0x100000, e_len = 0x700000, e_type = 1\<rparr>] (\<lambda>_. 0)
      0x150123 pmm_zero) = 1710"
    by (simp add: pmm_init_def detect_ram_def pmm_zero_def ONE_GIB_def ONE_MIB_def Let_def)
  ultimately show ?thesis
    using pmm_init_establishes [of "0x150123" pmm_zero _ 1
        "[\<lparr>e_base = 0x100000, e_len = 0x700000, e_type = 1\<rparr>]" "\<lambda>_. 0"]
    by simp
qed

text \<open>
  C2. \<open>pmm_alloc_frame\<close> is first fit and exact: it returns 0 and changes nothing precisely when
  every managed frame is allocated; otherwise it returns the page-aligned address of the lowest
  free frame, marks that frame and no other, and decrements the counter; the invariant is kept.
\<close>

theorem pmm_alloc_frame_correct:
  assumes "pmm_inv s" "pmm_alloc_frame s = (p, s')"
  shows "pmm_inv s' \<and>
     (if pmm_used s = {..<unat (nframes s)} then p = 0 \<and> s' = s
      else p \<noteq> 0 \<and> unat p mod 4096 = 0
        \<and> unat (free_frames s') = unat (free_frames s) - 1
        \<and> (\<exists>i < unat (nframes s). i \<notin> pmm_used s \<and> {..<i} \<subseteq> pmm_used s
             \<and> unat p = unat (base s) + 4096 * i \<and> pmm_used s' = insert i (pmm_used s)))"
  using assms(1)
proof (cases s rule: pmm_alloc_frame_cases)
  case full
  with assms show ?thesis by simp
next
  case (found i)
  then have eqs: "p = frame_addr (base s) i"
    "s' = s\<lparr>bits := bit_set (bits s) i, free_frames := free_frames s - 1\<rparr>"
    using assms(2) by simp_all
  have addr: "unat p = unat (base s) + 4096 * i"
    unfolding eqs using pmm_frame_addr [OF assms(1)] found(1) by simp
  then have "unat p mod 4096 = 0" using pmm_invD(3) [OF assms(1)] by presburger
  moreover have "pmm_used s \<noteq> {..<unat (nframes s)}" using found(1,2) by auto
  moreover note pmm_set_frame [OF assms(1) found(1,2), folded eqs(2)]
    pmm_frame_nonzero [OF assms(1) found(1), folded eqs(1)]
  ultimately show ?thesis using found(1-3) addr by auto
qed

definition pmm_ex :: pmm where
  "pmm_ex = \<lparr>bits = [5], base = 0x200000, nframes = 6, free_frames = 4, ram_top = 0x206000, ram_kb = 2072\<rparr>"

lemma pmm_ex_used: "pmm_used pmm_ex = {0, 2}"
proof -
  have "bit_test [5] i \<longleftrightarrow> i = 0 \<or> i = 2" if "i < 6" for i
  proof -
    from that have "i = 0 \<or> i = 1 \<or> i = 2 \<or> i = 3 \<or> i = 4 \<or> i = 5" by linarith
    then show ?thesis by (auto simp: bit_test_def)
  qed
  then show ?thesis by (auto simp: pmm_used_def used_below_def pmm_ex_def)
qed

lemma pmm_ex_inv: "pmm_inv pmm_ex"
  using pmm_ex_used by (simp add: pmm_inv_def) (simp add: pmm_ex_def)

lemma pmm_ex_alloc: "pmm_alloc_frame pmm_ex = (0x201000, pmm_ex\<lparr>bits := [7], free_frames := 3\<rparr>)"
  by (simp add: pmm_alloc_frame_def pmm_ex_def find_from.simps bit_test_def bit_set_def frame_addr_def
      push_bit_eq_mult)

theorem pmm_alloc_frame_correct_witness:
  "pmm_inv pmm_ex \<and> pmm_alloc_frame pmm_ex = (0x201000, pmm_ex\<lparr>bits := [7], free_frames := 3\<rparr>)
   \<and> pmm_used (pmm_ex\<lparr>bits := [7], free_frames := 3\<rparr>) = {0, 1, 2}"
proof -
  have ne: "pmm_used pmm_ex \<noteq> {..<unat (nframes pmm_ex)}"
    unfolding pmm_ex_used by (auto simp: pmm_ex_def set_eq_iff intro!: exI [of _ 1])
  have b: "unat (base pmm_ex) = 0x200000" by (simp add: pmm_ex_def)
  show ?thesis
    using pmm_alloc_frame_correct [OF pmm_ex_inv pmm_ex_alloc] ne b pmm_ex_inv pmm_ex_alloc pmm_ex_used
    by auto
qed

lemma pmm_alloc_range_start:
  assumes "pmm_inv s" "n \<noteq> 0" "pmm_alloc_range n s = (p, s')" "p \<noteq> 0"
  shows "pmm_inv s' \<and> (\<exists>st. st + unat n \<le> unat (nframes s) \<and> unat p = unat (base s) + 4096 * st)"
proof -
  have n: "0 < unat n" using assms(2) by (simp add: unat_gt_0)
  have "range_result s (unat n) (p, s')"
    using alloc_range_loop_result [OF scan_ok_init [OF n] n, of s] assms(2,3)
    by (simp add: pmm_alloc_range_def)
  then obtain st where st: "st + unat n \<le> unat (nframes s)" "{st..<st + unat n} \<inter> pmm_used s = {}"
      "p = frame_addr (base s) st" "s' = (range_mark (frame_addr (base s) st) (unat n) True s)
         \<lparr>free_frames := free_frames s - of_nat (unat n)\<rparr>"
    using assms(4) unfolding range_result_def by blast
  have "unat p = unat (base s) + 4096 * st" using pmm_frame_addr [OF assms(1), of st] st(1,3) by simp
  with pmm_range_marked [OF assms(1) st(1,2), folded st(4)] st(1) show ?thesis by blast
qed

text \<open>
  \<open>pmm_alloc_range\<close> succeeds iff there are \<open>n\<close> consecutive free frames (no false
  ``out of memory''), and then returns the start of such a run, all of it previously free, and
  marks exactly these frames.
\<close>

theorem pmm_alloc_range_correct:
  assumes "pmm_inv s" "n \<noteq> 0" "pmm_alloc_range n s = (p, s')"
  shows "pmm_inv s' \<and>
     (if \<exists>st. st + unat n \<le> unat (nframes s) \<and> {st..<st + unat n} \<inter> pmm_used s = {}
      then \<exists>st. st + unat n \<le> unat (nframes s) \<and> {st..<st + unat n} \<inter> pmm_used s = {}
             \<and> p \<noteq> 0 \<and> unat p = unat (base s) + 4096 * st
             \<and> pmm_used s' = pmm_used s \<union> {st..<st + unat n}
      else p = 0 \<and> s' = s)"
proof -
  have n: "0 < unat n" using assms(2) by (simp add: unat_gt_0)
  have "range_result s (unat n) (alloc_range_loop s (unat n) 0 0)"
    by (rule alloc_range_loop_result [OF scan_ok_init [OF n] n])
  then have "range_result s (unat n) (p, s')"
    using assms(2,3) by (simp add: pmm_alloc_range_def)
  then consider st where "st + unat n \<le> unat (nframes s)" "{st..<st + unat n} \<inter> pmm_used s = {}"
      "p = frame_addr (base s) st" "s' = (range_mark (frame_addr (base s) st) (unat n) True s)
         \<lparr>free_frames := free_frames s - of_nat (unat n)\<rparr>"
    | "p = 0" "s' = s" "\<forall>st. st + unat n \<le> unat (nframes s) \<longrightarrow> {st..<st + unat n} \<inter> pmm_used s \<noteq> {}"
    unfolding range_result_def by blast
  then show ?thesis
  proof cases
    case 1
    then have "st < unat (nframes s)" using n by linarith
    then have "p \<noteq> 0" "unat p = unat (base s) + 4096 * st"
      using pmm_frame_nonzero [OF assms(1)] pmm_frame_addr [OF assms(1)] 1(3) by simp_all
    moreover note pmm_range_marked [OF assms(1) 1(1,2), folded 1(4)]
    ultimately show ?thesis using 1(1,2) by auto
  next
    case 2
    with assms(1) show ?thesis by auto
  qed
qed

lemma pmm_ex_range:
  "pmm_alloc_range 3 pmm_ex = (0x203000, pmm_ex\<lparr>bits := [61], free_frames := 1\<rparr>)"
  by (simp add: pmm_alloc_range_def pmm_ex_def alloc_range_loop.simps bit_test_def bit_set_def
      frame_addr_def frame_index_def push_bit_eq_mult drop_bit_eq_div Let_def)

theorem pmm_alloc_range_correct_witness:
  "pmm_inv pmm_ex \<and> pmm_alloc_range 3 pmm_ex = (0x203000, pmm_ex\<lparr>bits := [61], free_frames := 1\<rparr>)
   \<and> pmm_inv (pmm_ex\<lparr>bits := [61], free_frames := 1\<rparr>)"
  using pmm_alloc_range_correct [OF pmm_ex_inv _ pmm_ex_range] pmm_ex_inv pmm_ex_range by simp

text \<open>
  Freeing the frame just allocated restores the allocator bit for bit, counter included.
\<close>

theorem pmm_alloc_free_roundtrip:
  assumes "pmm_inv s" "pmm_alloc_frame s = (p, s')" "p \<noteq> 0"
  shows "pmm_free_frame p s' = s"
  using assms(1)
proof (cases s rule: pmm_alloc_frame_cases)
  case full
  with assms show ?thesis by simp
next
  case (found i)
  then have eqs: "p = frame_addr (base s') i"
    "s' = s\<lparr>bits := bit_set (bits s) i, free_frames := free_frames s - 1\<rparr>"
    using assms(2) by simp_all
  have inv': "pmm_inv s'" using pmm_set_frame(2) [OF assms(1) found(1,2)] by (simp add: eqs)
  have "i div 8 < length (bits s)" using bit_index_ok pmm_invD(1) [OF assms(1)] found(1) by blast
  moreover have "\<not> bit_test (bits s) i" using found(1,2) by (simp add: pmm_used_def used_below_def)
  ultimately show ?thesis
    using pmm_free_frame_at [OF inv', of i] found(1) bit_clear_set unfolding eqs by simp
qed

theorem pmm_alloc_free_roundtrip_witness:
  "pmm_inv pmm_ex \<and> pmm_alloc_frame pmm_ex = (0x201000, pmm_ex\<lparr>bits := [7], free_frames := 3\<rparr>)
   \<and> pmm_free_frame 0x201000 (pmm_ex\<lparr>bits := [7], free_frames := 3\<rparr>) = pmm_ex"
  using pmm_alloc_free_roundtrip [OF pmm_ex_inv pmm_ex_alloc] pmm_ex_inv pmm_ex_alloc by simp

end
