(* ===== verification/Kheap.thy ===== *)
theory Kheap
  imports Pmm
begin

text \<open>
  The kernel heap, \<^verbatim>\<open>kernel/memory.cpp\<close>: a size-headed, address-ordered free list over one arena
  taken from the frame allocator. A \<^verbatim>\<open>Block\<close> is a 16-byte header (\<^verbatim>\<open>size\<close>, \<^verbatim>\<open>next\<close>) at an address;
  the headers are kept in an explicit store, so that writing through one pointer is seen through
  every other. A \<^verbatim>\<open>Block**\<close> is a \<open>link\<close>: the list head or the \<^verbatim>\<open>next\<close> field of a block. The loops
  that chase pointers are partial functions (\<open>None\<close> = never returns on a cyclic list); that they
  return on every well-formed heap is proved.
\<close>

record kheap =
  arena_start :: u64
  arena_size :: u64
  heap_used :: u64
  free_list :: u64
  blk_size :: "u64 \<Rightarrow> u64"
  blk_next :: "u64 \<Rightarrow> u64"

datatype link = Head | NextOf u64

definition HDR :: u64 where "HDR = 16"
definition MIN_BLOCK :: u64 where "MIN_BLOCK = HDR + 16"
definition HEAP_PAGES :: u32 where "HEAP_PAGES = 256"

fun deref :: "kheap \<Rightarrow> link \<Rightarrow> u64" where
  "deref h Head = free_list h"
| "deref h (NextOf a) = blk_next h a"

fun assign :: "kheap \<Rightarrow> link \<Rightarrow> u64 \<Rightarrow> kheap" where
  "assign h Head v = h\<lparr>free_list := v\<rparr>"
| "assign h (NextOf a) v = h\<lparr>blk_next := (blk_next h)(a := v)\<rparr>"

definition set_size :: "u64 \<Rightarrow> u64 \<Rightarrow> kheap \<Rightarrow> kheap" where
  "set_size a v h = h\<lparr>blk_size := (blk_size h)(a := v)\<rparr>"

definition set_next :: "u64 \<Rightarrow> u64 \<Rightarrow> kheap \<Rightarrow> kheap" where
  "set_next a v h = h\<lparr>blk_next := (blk_next h)(a := v)\<rparr>"

definition align8 :: "u64 \<Rightarrow> u64" where
  "align8 n = (n + 7) AND NOT 7"

text \<open>The body of the loop of \<^verbatim>\<open>alloc_from\<close> for a block that is large enough.\<close>

definition carve :: "link \<Rightarrow> u64 \<Rightarrow> u64 \<Rightarrow> kheap \<Rightarrow> kheap" where
  "carve pp b need h =
     (let h1 =
        (if blk_size h b - need \<ge> MIN_BLOCK
         then let rest = b + need;
                  h = set_size rest (blk_size h b - need) h;
                  h = set_next rest (blk_next h b) h
              in assign h pp rest
         else assign h pp (blk_next h b))
      in set_size b need h1)"

partial_function (option) alloc_walk :: "u64 \<Rightarrow> link \<Rightarrow> kheap \<Rightarrow> (u64 \<times> kheap) option" where
  "alloc_walk need pp h =
     (let b = deref h pp
      in if b = 0 then Some (0, h)
         else if blk_size h b \<ge> need then Some (b + HDR, carve pp b need h)
         else alloc_walk need (NextOf b) h)"

definition alloc_from :: "u64 \<Rightarrow> kheap \<Rightarrow> (u64 \<times> kheap) option" where
  "alloc_from need h = alloc_walk need Head h"

definition in_arena :: "u64 \<Rightarrow> kheap \<Rightarrow> bool" where
  "in_arena b h \<longleftrightarrow> b \<ge> arena_start h \<and> b + blk_size h b \<le> arena_start h + arena_size h"

text \<open>\<^verbatim>\<open>while (*pp && *pp < b) pp = &(*pp)->next;\<close> and \<^verbatim>\<open>while (prev->next != b) prev = prev->next;\<close>\<close>

partial_function (option) find_link :: "u64 \<Rightarrow> link \<Rightarrow> kheap \<Rightarrow> link option" where
  "find_link b pp h =
     (let c = deref h pp in if c \<noteq> 0 \<and> c < b then find_link b (NextOf c) h else Some pp)"

partial_function (option) find_prev :: "u64 \<Rightarrow> u64 \<Rightarrow> kheap \<Rightarrow> u64 option" where
  "find_prev b prev h = (if blk_next h prev \<noteq> b then find_prev b (blk_next h prev) h else Some prev)"

definition insert_keep_coalesced :: "u64 \<Rightarrow> kheap \<Rightarrow> kheap option" where
  "insert_keep_coalesced b h =
     (case find_link b Head h of
        None \<Rightarrow> None
      | Some pp \<Rightarrow>
          let c = deref h pp;
              h = (if c \<noteq> 0 \<and> b + blk_size h b = c
                   then set_next b (blk_next h c) (set_size b (blk_size h b + blk_size h c) h)
                   else set_next b c h);
              h = assign h pp b
          in if pp \<noteq> Head
             then (case find_prev b (free_list h) h of
                     None \<Rightarrow> None
                   | Some prev \<Rightarrow>
                       Some (if prev + blk_size h prev = b
                             then set_next prev (blk_next h b)
                                    (set_size prev (blk_size h prev + blk_size h b) h)
                             else h))
             else Some h)"

definition kmalloc_init :: "pmm \<Rightarrow> kheap \<Rightarrow> pmm \<times> kheap" where
  "kmalloc_init s h =
     (if arena_size h \<noteq> 0 then (s, h)
      else
        let avail = pmm_free_frames s;
            want = (if HEAP_PAGES > avail then avail div 2 else HEAP_PAGES)
        in if want = 0 then (s, h)
           else
             let (a, s') = pmm_alloc_range want s
             in if a = 0 then (s', h)
                else (s', h\<lparr>arena_start := a, arena_size := ucast want * 4096, free_list := a,
                            blk_size := (blk_size h)(a := ucast want * 4096),
                            blk_next := (blk_next h)(a := 0), heap_used := 0\<rparr>))"

definition kmalloc_need :: "u64 \<Rightarrow> u64" where
  "kmalloc_need n =
     (let n = (if n = 0 then 1 else n); n = align8 n; n = (if n < 8 then 8 else n) in HDR + n)"

definition kmalloc :: "u64 \<Rightarrow> kheap \<Rightarrow> (u64 \<times> kheap) option" where
  "kmalloc n h =
     (let need = kmalloc_need n
      in case alloc_from need h of
           None \<Rightarrow> None
         | Some (p, h') \<Rightarrow>
             if p = 0 then Some (0, h') else Some (p, h'\<lparr>heap_used := heap_used h' + need\<rparr>))"

definition kfree :: "u64 \<Rightarrow> kheap \<Rightarrow> kheap option" where
  "kfree p h =
     (if p = 0 then Some h
      else
        let b = p - HDR
        in if \<not> in_arena b h \<or> blk_size h b AND 7 \<noteq> 0 then Some h
           else insert_keep_coalesced b (h\<lparr>heap_used := heap_used h - blk_size h b\<rparr>))"

definition kmem_used :: "kheap \<Rightarrow> u32" where "kmem_used h = ucast (heap_used h)"
definition kmem_capacity :: "kheap \<Rightarrow> u32" where "kmem_capacity h = ucast (arena_size h)"


section \<open>Linked lists in the store\<close>

fun cseg :: "(u64 \<Rightarrow> u64) \<Rightarrow> u64 \<Rightarrow> u64 list \<Rightarrow> u64 \<Rightarrow> bool" where
  "cseg nxt p [] q \<longleftrightarrow> p = q"
| "cseg nxt p (a # as) q \<longleftrightarrow> p = a \<and> a \<noteq> 0 \<and> cseg nxt (nxt a) as q"

definition lchain :: "kheap \<Rightarrow> u64 list \<Rightarrow> bool" where
  "lchain h bs \<longleftrightarrow> cseg (blk_next h) (free_list h) bs 0"

definition link_after :: "u64 list \<Rightarrow> link" where
  "link_after xs = (if xs = [] then Head else NextOf (last xs))"

lemma cseg_append: "cseg nxt p (xs @ ys) q \<longleftrightarrow> (\<exists>m. cseg nxt p xs m \<and> cseg nxt m ys q)"
  by (induction xs arbitrary: p) auto

lemma cseg_upd [simp]: "a \<notin> set xs \<Longrightarrow> cseg (nxt(a := v)) p xs q = cseg nxt p xs q"
  by (induction xs arbitrary: p) auto

lemma cseg_snoc: "cseg nxt p (xs @ [a]) q \<longleftrightarrow> cseg nxt p xs a \<and> a \<noteq> 0 \<and> nxt a = q"
  by (auto simp: cseg_append)

lemma cseg_nonzero: "cseg nxt p xs q \<Longrightarrow> 0 \<notin> set xs"
  by (induction xs arbitrary: p) auto

lemma link_after_snoc: "link_after (xs @ [a]) = NextOf a"
  by (simp add: link_after_def)

lemma lchain_deref:
  assumes "lchain h (xs @ ys)"
  shows "cseg (blk_next h) (deref h (link_after xs)) ys 0"
proof (cases xs rule: rev_cases)
  case Nil
  with assms show ?thesis by (simp add: lchain_def link_after_def)
next
  case (snoc zs z)
  with assms show ?thesis by (auto simp: lchain_def cseg_append link_after_def)
qed

lemma lchain_deref_Cons: "lchain h (xs @ b # ys) \<Longrightarrow> deref h (link_after xs) = b"
  by (drule lchain_deref) simp

lemma lchain_deref_Nil: "lchain h xs \<Longrightarrow> deref h (link_after xs) = 0"
  using lchain_deref [of h xs "[]"] by simp

lemma lchain_nonzero: "lchain h bs \<Longrightarrow> 0 \<notin> set bs"
  by (auto simp: lchain_def dest: cseg_nonzero)

lemma lchain_relink:
  assumes "lchain h (xs @ ys)" "distinct xs" "set xs \<inter> set zs = {}" "cseg (blk_next h) q zs 0"
  shows "lchain (assign h (link_after xs) q) (xs @ zs)"
proof (cases xs rule: rev_cases)
  case Nil
  with assms show ?thesis by (simp add: lchain_def link_after_def)
next
  case (snoc us u)
  with assms show ?thesis
    by (auto simp: lchain_def cseg_append link_after_def)
qed

lemma assign_fields [simp]:
  "arena_start (assign h l v) = arena_start h" "arena_size (assign h l v) = arena_size h"
  "blk_size (assign h l v) = blk_size h" "heap_used (assign h l v) = heap_used h"
  by (cases l; simp)+

lemma set_size_fields [simp]:
  "arena_start (set_size a v h) = arena_start h" "arena_size (set_size a v h) = arena_size h"
  "blk_next (set_size a v h) = blk_next h" "free_list (set_size a v h) = free_list h"
  "heap_used (set_size a v h) = heap_used h" "blk_size (set_size a v h) = (blk_size h)(a := v)"
  by (simp_all add: set_size_def)

lemma set_next_fields [simp]:
  "arena_start (set_next a v h) = arena_start h" "arena_size (set_next a v h) = arena_size h"
  "blk_size (set_next a v h) = blk_size h" "free_list (set_next a v h) = free_list h"
  "heap_used (set_next a v h) = heap_used h" "blk_next (set_next a v h) = (blk_next h)(a := v)"
  by (simp_all add: set_next_def)

lemma lchain_set_size [simp]: "lchain (set_size a v h) bs = lchain h bs"
  by (simp add: lchain_def)

lemma lchain_set_next [simp]: "a \<notin> set bs \<Longrightarrow> lchain (set_next a v h) bs = lchain h bs"
  by (simp add: lchain_def)


section \<open>The pointer walks on a well-formed list\<close>

lemma alloc_walk_none:
  assumes "lchain h (xs @ ys)" "\<forall>b \<in> set ys. blk_size h b < need"
  shows "alloc_walk need (link_after xs) h = Some (0, h)"
  using assms
proof (induction ys arbitrary: xs)
  case Nil
  then show ?case by (subst alloc_walk.simps) (simp add: lchain_deref_Nil)
next
  case (Cons b ys)
  have "b \<noteq> 0" using lchain_nonzero [OF Cons.prems(1)] by auto
  moreover have "alloc_walk need (NextOf b) h = Some (0, h)"
    using Cons.IH [of "xs @ [b]"] Cons.prems by (simp add: link_after_snoc)
  moreover have "\<not> need \<le> blk_size h b" using Cons.prems(2) by (simp add: linorder_not_le)
  ultimately show ?case
    using Cons.prems(1) by (subst alloc_walk.simps) (simp add: lchain_deref_Cons)
qed

lemma alloc_walk_found:
  assumes "lchain h (xs @ us @ b # vs)" "\<forall>x \<in> set us. blk_size h x < need" "need \<le> blk_size h b"
  shows "alloc_walk need (link_after xs) h = Some (b + HDR, carve (link_after (xs @ us)) b need h)"
  using assms
proof (induction us arbitrary: xs)
  case Nil
  have "b \<noteq> 0" using lchain_nonzero [OF Nil.prems(1)] by auto
  with Nil show ?case by (subst alloc_walk.simps) (simp add: lchain_deref_Cons)
next
  case (Cons u us)
  have "u \<noteq> 0" using lchain_nonzero [OF Cons.prems(1)] by auto
  moreover have "deref h (link_after xs) = u" using Cons.prems(1) by (simp add: lchain_deref_Cons)
  moreover have "alloc_walk need (NextOf u) h
      = Some (b + HDR, carve (link_after (xs @ u # us)) b need h)"
    using Cons.IH [of "xs @ [u]"] Cons.prems by (simp add: link_after_snoc)
  moreover have "\<not> need \<le> blk_size h u" using Cons.prems(2) by (simp add: linorder_not_le)
  ultimately show ?case by (subst alloc_walk.simps) simp
qed

lemma find_link_chain:
  assumes "lchain h (xs @ us @ vs)" "\<forall>x \<in> set us. x < b" "\<forall>v \<in> set vs. b \<le> v"
  shows "find_link b (link_after xs) h = Some (link_after (xs @ us))"
  using assms
proof (induction us arbitrary: xs)
  case Nil
  have "deref h (link_after xs) = 0 \<or> \<not> deref h (link_after xs) < b"
  proof (cases vs)
    case Nil
    with Nil.prems(1) show ?thesis by (simp add: lchain_deref_Nil)
  next
    case (Cons v ws)
    with Nil.prems show ?thesis by (simp add: lchain_deref_Cons linorder_not_less)
  qed
  then show ?case by (subst find_link.simps) (auto simp: Let_def)
next
  case (Cons u us)
  have "u \<noteq> 0" using lchain_nonzero [OF Cons.prems(1)] by auto
  moreover have "deref h (link_after xs) = u" using Cons.prems(1) by (simp add: lchain_deref_Cons)
  moreover have "find_link b (NextOf u) h = Some (link_after (xs @ u # us))"
    using Cons.IH [of "xs @ [u]"] Cons.prems by (simp add: link_after_snoc)
  ultimately show ?case using Cons.prems(2) by (subst find_link.simps) simp
qed

lemma find_prev_chain:
  assumes "cseg (blk_next h) p (xs @ a # b # ys) 0" "distinct (xs @ a # b # ys)"
  shows "find_prev b p h = Some a"
  using assms
proof (induction xs arbitrary: p)
  case Nil
  then show ?case by (subst find_prev.simps) simp
next
  case (Cons x xs)
  from Cons.prems have px: "p = x" "x \<noteq> 0" and c: "cseg (blk_next h) (blk_next h x) (xs @ a # b # ys) 0"
    by simp_all
  have "blk_next h x \<in> set (xs @ [a])" using c by (cases xs) auto
  then have "blk_next h x \<noteq> b" using Cons.prems(2) by auto
  moreover have "find_prev b (blk_next h x) h = Some a" using Cons.IH [OF c] Cons.prems(2) by simp
  ultimately show ?case using px by (subst find_prev.simps) simp
qed


section \<open>The heap invariant\<close>

text \<open>
  \<open>bs\<close> are the free blocks in list order and \<open>A\<close> the headers of the allocated blocks. The free
  list is chained through the headers in address order; all blocks are aligned, lie in the arena
  and do not overlap; \<open>heap_used\<close> is the sum of the allocated sizes. \<open>coalesced\<close> says that no
  two neighbours of the free list touch.
\<close>

definition blk_end :: "kheap \<Rightarrow> u64 \<Rightarrow> nat" where
  "blk_end h b = unat b + unat (blk_size h b)"

definition blk_ok :: "kheap \<Rightarrow> u64 \<Rightarrow> bool" where
  "blk_ok h b \<longleftrightarrow> unat (arena_start h) \<le> unat b
     \<and> blk_end h b \<le> unat (arena_start h) + unat (arena_size h)
     \<and> 8 dvd unat b \<and> 8 dvd unat (blk_size h b) \<and> 24 \<le> unat (blk_size h b)"

definition apart :: "kheap \<Rightarrow> u64 \<Rightarrow> u64 \<Rightarrow> bool" where
  "apart h a b \<longleftrightarrow> blk_end h a \<le> unat b \<or> blk_end h b \<le> unat a"

definition heap_core :: "kheap \<Rightarrow> u64 list \<Rightarrow> u64 set \<Rightarrow> bool" where
  "heap_core h bs A \<longleftrightarrow> lchain h bs \<and> sorted_wrt (\<lambda>a b. blk_end h a \<le> unat b) bs
     \<and> (\<forall>b \<in> set bs \<union> A. blk_ok h b)
     \<and> 0 < unat (arena_start h) \<and> unat (arena_start h) + unat (arena_size h) < 2 ^ 64
     \<and> finite A \<and> (\<forall>a \<in> A. \<forall>b \<in> A. a \<noteq> b \<longrightarrow> apart h a b) \<and> (\<forall>a \<in> A. \<forall>b \<in> set bs. apart h a b)"

definition coalesced :: "kheap \<Rightarrow> u64 list \<Rightarrow> bool" where
  "coalesced h bs \<longleftrightarrow> successively (\<lambda>a b. a + blk_size h a \<noteq> b) bs"

definition heap_count :: "kheap \<Rightarrow> u64 set \<Rightarrow> bool" where
  "heap_count h A \<longleftrightarrow> unat (heap_used h) = (\<Sum>a \<in> A. unat (blk_size h a))"

definition kheap_inv :: "kheap \<Rightarrow> u64 list \<Rightarrow> u64 set \<Rightarrow> bool" where
  "kheap_inv h bs A \<longleftrightarrow> heap_core h bs A \<and> coalesced h bs \<and> heap_count h A"

lemma heap_coreD:
  assumes "heap_core h bs A"
  shows "lchain h bs" "sorted_wrt (\<lambda>a b. blk_end h a \<le> unat b) bs"
    "\<And>b. b \<in> set bs \<Longrightarrow> blk_ok h b" "\<And>a. a \<in> A \<Longrightarrow> blk_ok h a"
    "unat (arena_start h) + unat (arena_size h) < 2 ^ 64" "finite A"
    "\<And>a b. a \<in> A \<Longrightarrow> b \<in> A \<Longrightarrow> a \<noteq> b \<Longrightarrow> apart h a b"
    "\<And>a b. a \<in> A \<Longrightarrow> b \<in> set bs \<Longrightarrow> apart h a b"
  using assms unfolding heap_core_def by blast+

lemma blk_ok_pos: "blk_ok h b \<Longrightarrow> unat b < blk_end h b"
  by (simp add: blk_ok_def blk_end_def)

lemma blk_end_word:
  assumes "heap_core h bs A" "b \<in> set bs \<union> A"
  shows "unat (b + blk_size h b) = blk_end h b"
proof -
  have "blk_ok h b" using heap_coreD(3,4) [OF assms(1)] assms(2) by blast
  then have "blk_end h b < 2 ^ 64" using heap_coreD(5) [OF assms(1)] unfolding blk_ok_def by linarith
  then show ?thesis by (simp add: blk_end_def unat_word_ariths)
qed

lemma sorted_blocks_distinct:
  "sorted_wrt (\<lambda>a b. blk_end h a \<le> unat b) bs \<Longrightarrow> \<forall>b \<in> set bs. blk_ok h b \<Longrightarrow> distinct bs"
proof (induction bs)
  case (Cons a bs)
  then have "a \<notin> set bs" using blk_ok_pos [of h a] by fastforce
  with Cons show ?case by simp
qed simp

lemma heap_core_distinct: "heap_core h bs A \<Longrightarrow> distinct bs"
  by (auto simp: heap_core_def intro: sorted_blocks_distinct)

lemma apart_irrefl: "blk_ok h a \<Longrightarrow> \<not> apart h a a"
  by (auto simp: apart_def dest: blk_ok_pos)

lemma heap_core_disjoint:
  assumes "heap_core h bs A"
  shows "set bs \<inter> A = {}"
  using heap_coreD(3,8) [OF assms] apart_irrefl by blast

lemma sorted_blocks_cong:
  assumes "\<forall>x \<in> set xs. blk_end h' x = blk_end h x"
  shows "sorted_wrt (\<lambda>a b. blk_end h' a \<le> unat b) xs = sorted_wrt (\<lambda>a b. blk_end h a \<le> unat b) xs"
  using assms by (induction xs) auto

lemma coalesced_cong:
  "\<forall>a \<in> set bs. blk_size h a = blk_size h' a \<Longrightarrow> coalesced h bs = coalesced h' bs"
  unfolding coalesced_def by (rule successively_cong) auto

lemma coalesced_append:
  "coalesced h (xs @ ys) \<longleftrightarrow> coalesced h xs \<and> coalesced h ys
     \<and> (xs = [] \<or> ys = [] \<or> last xs + blk_size h (last xs) \<noteq> hd ys)"
  by (auto simp: coalesced_def successively_append_iff)

lemma coalesced_Cons:
  "coalesced h (x # ys) \<longleftrightarrow> coalesced h ys \<and> (ys = [] \<or> x + blk_size h x \<noteq> hd ys)"
  by (cases ys) (auto simp: coalesced_def)

text \<open>Two free neighbours that touch can be merged; so can nothing else break.\<close>

definition merge_blk :: "u64 \<Rightarrow> u64 \<Rightarrow> kheap \<Rightarrow> kheap" where
  "merge_blk a c h = set_next a (blk_next h c) (set_size a (blk_size h a + blk_size h c) h)"

lemma heap_core_merge:
  assumes core: "heap_core h (xs @ a # c # ys) A" and touch: "a + blk_size h a = c"
    and h': "h' = merge_blk a c h"
  shows "heap_core h' (xs @ a # ys) A"
    and "\<And>x. x \<noteq> a \<Longrightarrow> blk_size h' x = blk_size h x"
    and "coalesced h (c # ys) \<Longrightarrow> coalesced h' (a # ys)"
proof -
  note D = heap_coreD [OF core]
  have dist: "distinct (xs @ a # c # ys)" by (rule heap_core_distinct [OF core])
  have A: "a \<notin> A" "c \<notin> A" using heap_core_disjoint [OF core] by auto
  have endc: "blk_end h c < 2 ^ 64" using D(3) [of c] D(5) unfolding blk_ok_def by auto
  have ca: "unat c = blk_end h a" using blk_end_word [OF core, of a] touch by simp
  then have sz: "unat (blk_size h a + blk_size h c) = unat (blk_size h a) + unat (blk_size h c)"
    using endc by (simp add: blk_end_def unat_word_ariths)
  have size': "blk_size h' = (blk_size h)(a := blk_size h a + blk_size h c)" by (simp add: h' merge_blk_def)
  have ar: "arena_start h' = arena_start h" "arena_size h' = arena_size h" by (simp_all add: h' merge_blk_def)
  have end': "blk_end h' x = (if x = a then blk_end h c else blk_end h x)" for x
    using ca sz by (simp add: blk_end_def size')
  have enda: "blk_end h' a = blk_end h c" by (simp add: end')
  show "\<And>x. x \<noteq> a \<Longrightarrow> blk_size h' x = blk_size h x" by (simp add: size')
  have "lchain h' (xs @ a # ys)"
    using D(1) dist by (auto simp: h' merge_blk_def lchain_def cseg_append)
  moreover have "sorted_wrt (\<lambda>a b. blk_end h' a \<le> unat b) (xs @ a # ys)"
  proof -
    have "sorted_wrt (\<lambda>a b. blk_end h' a \<le> unat b) xs \<longleftrightarrow> sorted_wrt (\<lambda>a b. blk_end h a \<le> unat b) xs"
      using dist by (intro sorted_blocks_cong) (auto simp: end')
    moreover have "sorted_wrt (\<lambda>a b. blk_end h' a \<le> unat b) ys \<longleftrightarrow> sorted_wrt (\<lambda>a b. blk_end h a \<le> unat b) ys"
      using dist by (intro sorted_blocks_cong) (auto simp: end')
    moreover have "\<forall>x \<in> set xs. blk_end h' x = blk_end h x" using dist by (auto simp: end')
    ultimately show ?thesis using D(2) enda by (simp add: sorted_wrt_append)
  qed
  moreover have "\<forall>b \<in> set (xs @ a # ys) \<union> A. blk_ok h' b"
  proof
    fix b assume b: "b \<in> set (xs @ a # ys) \<union> A"
    show "blk_ok h' b"
    proof (cases "b = a")
      case True
      with D(3) [of a] D(3) [of c] sz show ?thesis by (simp add: blk_ok_def end' size' ar)
    next
      case False
      have "blk_ok h b" using b D(3,4) by auto
      with False show ?thesis by (simp add: blk_ok_def end' size' ar)
    qed
  qed
  moreover have "\<forall>x \<in> A. \<forall>y \<in> A. x \<noteq> y \<longrightarrow> apart h' x y" using D(7) A by (auto simp: apart_def end')
  moreover have "\<forall>x \<in> A. \<forall>y \<in> set (xs @ a # ys). apart h' x y"
  proof (intro ballI)
    fix x y assume x: "x \<in> A" and y: "y \<in> set (xs @ a # ys)"
    show "apart h' x y"
    proof (cases "y = a")
      case True
      have "apart h x a" "apart h x c" using D(8) x by auto
      moreover have "unat x < blk_end h x" "x \<noteq> a" using blk_ok_pos D(4) x A by auto
      ultimately show ?thesis using True ca by (auto simp: apart_def end')
    next
      case False
      then show ?thesis using D(8) x y A by (auto simp: apart_def end')
    qed
  qed
  ultimately show "heap_core h' (xs @ a # ys) A" using core by (simp add: heap_core_def ar)
  assume co: "coalesced h (c # ys)"
  moreover have "coalesced h' ys = coalesced h ys"
    using dist by (auto intro!: coalesced_cong simp: size')
  ultimately show "coalesced h' (a # ys)"
    using touch by (auto simp: coalesced_Cons size' add.assoc [symmetric])
qed

text \<open>Linking a block between its neighbours, without merging.\<close>

lemma heap_core_insert:
  assumes core: "heap_core h (us @ vs) A" and b: "b \<in> A"
    and us: "\<forall>u \<in> set us. u < b" and vs: "\<forall>v \<in> set vs. b \<le> v"
    and h': "h' = assign (set_next b (deref h (link_after us)) h) (link_after us) b"
  shows "heap_core h' (us @ b # vs) (A - {b})" and "blk_size h' = blk_size h"
proof -
  note D = heap_coreD [OF core]
  have dist: "distinct (us @ vs)" by (rule heap_core_distinct [OF core])
  have bn: "b \<notin> set us" "b \<notin> set vs" using heap_core_disjoint [OF core] b by auto
  have b0: "b \<noteq> 0" using D(4) [OF b] core by (auto simp: blk_ok_def heap_core_def)
  show size': "blk_size h' = blk_size h" by (simp add: h')
  then have end': "blk_end h' = blk_end h" by (simp add: blk_end_def fun_eq_iff)
  have ar: "arena_start h' = arena_start h" "arena_size h' = arena_size h" by (simp_all add: h')
  have "lchain h' (us @ b # vs)"
    unfolding h'
  proof (rule lchain_relink)
    show "lchain (set_next b (deref h (link_after us)) h) (us @ vs)" using D(1) bn by simp
    show "distinct us" "set us \<inter> set (b # vs) = {}" using dist bn by auto
    show "cseg (blk_next (set_next b (deref h (link_after us)) h)) b (b # vs) 0"
      using lchain_deref [OF D(1)] b0 bn by simp
  qed
  moreover have "sorted_wrt (\<lambda>a b. blk_end h' a \<le> unat b) (us @ b # vs)"
  proof -
    have "blk_end h u \<le> unat b" if "u \<in> set us" for u
    proof -
      have "apart h b u" "unat u < unat b" using D(8) [OF b] us that by (auto simp: word_less_nat_alt)
      moreover have "unat b < blk_end h b" using D(4) [OF b] blk_ok_pos by auto
      ultimately show ?thesis by (auto simp: apart_def)
    qed
    moreover have "blk_end h b \<le> unat v" if "v \<in> set vs" for v
    proof -
      have "apart h b v" "unat b \<le> unat v" using D(8) [OF b] vs that by (auto simp: word_le_nat_alt)
      moreover have "unat v < blk_end h v" using D(3) [of v] that blk_ok_pos by auto
      ultimately show ?thesis by (auto simp: apart_def)
    qed
    ultimately show ?thesis using D(2) by (simp add: sorted_wrt_append end')
  qed
  moreover have "\<forall>x \<in> set (us @ b # vs) \<union> (A - {b}). blk_ok h' x"
    using D(3,4) b by (auto simp: blk_ok_def size' end' ar)
  moreover have "\<forall>x \<in> A - {b}. \<forall>y \<in> A - {b}. x \<noteq> y \<longrightarrow> apart h' x y"
    using D(7) by (auto simp: apart_def end')
  moreover have "\<forall>x \<in> A - {b}. \<forall>y \<in> set (us @ b # vs). apart h' x y"
    using D(7) [OF _ b] D(8) by (auto simp: apart_def end')
  ultimately show "heap_core h' (us @ b # vs) (A - {b})" using core by (simp add: heap_core_def ar)
qed

lemma sorted_split:
  assumes "heap_core h bs A"
  obtains us vs where "bs = us @ vs" "\<forall>u \<in> set us. u < b" "\<forall>v \<in> set vs. b \<le> v"
proof
  show "bs = takeWhile (\<lambda>u. u < b) bs @ dropWhile (\<lambda>u. u < b) bs" by simp
  show "\<forall>u \<in> set (takeWhile (\<lambda>u. u < b) bs). u < b" by (auto dest: set_takeWhileD)
  have ok: "\<forall>x \<in> set bs. blk_ok h x" using heap_coreD(3) [OF assms] by blast
  have "sorted_wrt (\<le>) bs"
    using heap_coreD(2) [OF assms] ok
    by (induction bs) (fastforce simp: word_le_nat_alt dest: blk_ok_pos)+
  then show "\<forall>v \<in> set (dropWhile (\<lambda>u. u < b) bs). b \<le> v"
    by (induction bs) auto
qed

text \<open>The coalescing insertion: link, merge to the right, merge to the left.\<close>

lemma insert_coalesced_right:
  assumes core: "heap_core h (us @ vs) A" and co: "coalesced h (us @ vs)" and b: "b \<in> A"
    and us: "\<forall>u \<in> set us. u < b" and vs: "\<forall>v \<in> set vs. b \<le> v" and c: "c = deref h (link_after us)"
    and h1: "h1 = assign (if c \<noteq> 0 \<and> b + blk_size h b = c
                   then set_next b (blk_next h c) (set_size b (blk_size h b + blk_size h c) h)
                   else set_next b c h) (link_after us) b"
  shows "\<exists>ws. heap_core h1 (us @ b # ws) (A - {b}) \<and> coalesced h1 us \<and> coalesced h1 (b # ws)
           \<and> (\<forall>a \<in> A - {b}. blk_size h1 a = blk_size h a)"
proof (cases "c \<noteq> 0 \<and> b + blk_size h b = c")
  case False
  with h1 c have h1': "h1 = assign (set_next b (deref h (link_after us)) h) (link_after us) b" by auto
  note I = heap_core_insert [OF core b us vs h1']
  have "coalesced h1 (b # vs)"
  proof (cases vs)
    case (Cons v ws)
    then have "c = v" "v \<noteq> 0" using c heap_coreD(1) [OF core] lchain_deref_Cons lchain_nonzero by fastforce+
    with False Cons co show ?thesis
      using coalesced_cong [of vs h1 h] by (auto simp: I(2) coalesced_Cons coalesced_append)
  qed (simp add: coalesced_def)
  moreover have "coalesced h1 us"
    using co coalesced_cong [of us h1 h] by (auto simp: I(2) coalesced_append)
  ultimately show ?thesis using I by (metis (no_types))
next
  case True
  define h0 where "h0 = assign (set_next b (deref h (link_after us)) h) (link_after us) b"
  note I = heap_core_insert [OF core b us vs h0_def]
  obtain ws where vs': "vs = c # ws"
    using True lchain_deref_Nil [of h us] lchain_deref_Cons [of h us] heap_coreD(1) [OF core] c
    by (cases vs) auto
  have "c \<noteq> b" using heap_core_disjoint [OF core] b vs' by auto
  have bu: "b \<notin> set us" using heap_core_disjoint [OF core] b by auto
  have "last us \<noteq> c \<and> last us \<noteq> b" if "us \<noteq> []"
    using heap_core_distinct [OF core] that vs' bu last_in_set [OF that] by auto
  then have eq: "h1 = merge_blk b c h0"
    using True bu \<open>c \<noteq> b\<close> unfolding h1 h0_def merge_blk_def set_next_def set_size_def c [symmetric]
    by (auto simp: link_after_def fun_upd_twist)
  have m: "heap_core h0 (us @ b # c # ws) (A - {b})" "b + blk_size h0 b = c"
    using I vs' True by simp_all
  note M = heap_core_merge [OF m eq]
  have "coalesced h0 (c # ws)" "coalesced h0 us"
    using co vs' coalesced_cong [of "c # ws" h0 h] coalesced_cong [of us h0 h]
    by (auto simp: I(2) coalesced_append)
  then have "coalesced h1 (b # ws)" "coalesced h1 us"
    using M(2,3) bu coalesced_cong [of us h1 h0] by auto metis
  moreover have "\<forall>a \<in> A - {b}. blk_size h1 a = blk_size h a" using M(2) I(2) by simp
  ultimately show ?thesis using M(1) by blast
qed


lemma insert_keep_coalesced_ok:
  assumes core: "heap_core h bs A" and co: "coalesced h bs" and b: "b \<in> A"
  shows "\<exists>h' bs'. insert_keep_coalesced b h = Some h' \<and> heap_core h' bs' (A - {b}) \<and> coalesced h' bs'
           \<and> (\<forall>a \<in> A - {b}. blk_size h' a = blk_size h a) \<and> heap_used h' = heap_used h"
proof -
  obtain us vs where bs: "bs = us @ vs" and us: "\<forall>u \<in> set us. u < b" and vs: "\<forall>v \<in> set vs. b \<le> v"
    using sorted_split [OF core] by metis
  have fl: "find_link b Head h = Some (link_after us)"
    using find_link_chain [of h "[]" us vs b] heap_coreD(1) [OF core] us vs
    by (simp add: bs link_after_def)
  define c where "c = deref h (link_after us)"
  define h1 where "h1 = assign (if c \<noteq> 0 \<and> b + blk_size h b = c
                   then set_next b (blk_next h c) (set_size b (blk_size h b + blk_size h c) h)
                   else set_next b c h) (link_after us) b"
  have body: "insert_keep_coalesced b h =
      (if link_after us \<noteq> Head
       then (case find_prev b (free_list h1) h1 of None \<Rightarrow> None
             | Some prev \<Rightarrow> Some (if prev + blk_size h1 prev = b then merge_blk prev b h1 else h1))
       else Some h1)"
    unfolding insert_keep_coalesced_def fl option.case Let_def c_def [symmetric] h1_def [symmetric]
      merge_blk_def by (rule refl)
  obtain ws where R: "heap_core h1 (us @ b # ws) (A - {b})" "coalesced h1 us" "coalesced h1 (b # ws)"
      "\<forall>a \<in> A - {b}. blk_size h1 a = blk_size h a"
    using insert_coalesced_right [OF core [unfolded bs] co [unfolded bs] b us vs c_def h1_def] by blast
  have used: "heap_used h1 = heap_used h" by (simp add: h1_def)
  show ?thesis
  proof (cases us rule: rev_cases)
    case Nil
    have "insert_keep_coalesced b h = Some h1"
      using body by (simp add: Nil link_after_def)
    with R used Nil show ?thesis by auto
  next
    case (snoc zs p)
    define h2 where "h2 = (if p + blk_size h1 p = b then merge_blk p b h1 else h1)"
    have "find_prev b (free_list h1) h1 = Some p"
      using find_prev_chain [of h1 "free_list h1" zs p b ws] heap_coreD(1) [OF R(1)]
        heap_core_distinct [OF R(1)] snoc by (simp add: lchain_def)
    then have run: "insert_keep_coalesced b h = Some h2"
      using body snoc by (simp add: link_after_def h2_def)
    show ?thesis
    proof (cases "p + blk_size h1 p = b")
      case True
      then have h2: "h2 = merge_blk p b h1" by (simp add: h2_def)
      have R1: "heap_core h1 (zs @ p # b # ws) (A - {b})" using R(1) snoc by simp
      note M = heap_core_merge [OF R1 True h2]
      have pz: "p \<notin> set zs" "p \<notin> A - {b}"
        using heap_core_distinct [OF R1] heap_core_disjoint [OF R1] by auto
      have "coalesced h2 zs"
        using coalesced_cong [of zs h2 h1] M(2) pz R(2) snoc by (metis coalesced_append)
      moreover have "last zs + blk_size h2 (last zs) \<noteq> p" if "zs \<noteq> []"
      proof -
        have "last zs \<noteq> p" using last_in_set [OF that] pz by auto
        then show ?thesis using R(2) snoc that M(2) [of "last zs"] by (auto simp: coalesced_append)
      qed
      ultimately have "coalesced h2 (zs @ p # ws)"
        using M(3) [OF R(3)] by (auto simp: coalesced_append)
      moreover have "\<forall>a \<in> A - {b}. blk_size h2 a = blk_size h a" using M(2) R(4) pz by metis
      moreover have "heap_used h2 = heap_used h" by (simp add: h2 merge_blk_def used)
      ultimately show ?thesis using run M(1) by blast
    next
      case False
      then have h2: "h2 = h1" by (simp add: h2_def)
      have "coalesced h1 (us @ b # ws)" using R(2,3) False snoc by (simp add: coalesced_append coalesced_Cons)
      then show ?thesis using run R(1,4) used h2 by blast
    qed
  qed
qed


section \<open>Carving an allocation out of a free block\<close>

lemma heap_core_carve:
  assumes core: "heap_core h (us @ b # vs) A" and need: "unat need \<le> unat (blk_size h b)"
    "8 dvd unat need" "24 \<le> unat need"
    and zs: "zs = [] \<or> zs = [b + need] \<and> blk_size h' (b + need) = blk_size h b - need
                \<and> 32 \<le> unat (blk_size h b) - unat need"
    and chain: "lchain h' (us @ zs @ vs)"
    and ar: "arena_start h' = arena_start h" "arena_size h' = arena_size h"
    and sizes: "blk_size h' b = need" "\<forall>x \<in> set us \<union> set vs \<union> A. blk_size h' x = blk_size h x"
  shows "heap_core h' (us @ zs @ vs) (insert b A)"
    and "coalesced h (us @ b # vs) \<Longrightarrow> coalesced h' (us @ zs @ vs)"
proof -
  note D = heap_coreD [OF core]
  have dist: "distinct (us @ b # vs)" by (rule heap_core_distinct [OF core])
  have bA: "b \<notin> A" using heap_core_disjoint [OF core] by auto
  have okb: "blk_ok h b" using D(3) by simp
  have ends: "\<forall>x \<in> set us \<union> set vs \<union> A. blk_end h' x = blk_end h x"
    using sizes(2) by (simp add: blk_end_def)
  have endb: "blk_end h' b = unat b + unat need" "blk_end h' b \<le> blk_end h b"
    using need(1) by (simp_all add: blk_end_def sizes(1))
  have rest: "blk_ok h' z \<and> blk_end h' b = unat z \<and> blk_end h' z = blk_end h b" if "z \<in> set zs" for z
  proof -
    from that zs have z: "z = b + need" and sz: "blk_size h' z = blk_size h b - need"
      and big: "32 \<le> unat (blk_size h b) - unat need" by auto
    have "blk_end h b < 2 ^ 64" using okb D(5) unfolding blk_ok_def by linarith
    then have uz: "unat z = unat b + unat need"
      using z need(1) by (simp add: unat_word_ariths blk_end_def)
    have us': "unat (blk_size h' z) = unat (blk_size h b) - unat need"
      using need(1) by (simp add: sz unat_sub word_le_nat_alt)
    have ez: "blk_end h' z = blk_end h b" using uz us' need(1) by (simp add: blk_end_def)
    show ?thesis using okb need big uz us' ez endb by (auto simp: blk_ok_def ar dvd_diff_nat)
  qed
  have old: "\<forall>u \<in> set us. blk_end h u \<le> unat b" "\<forall>v \<in> set vs. blk_end h b \<le> unat v"
    "\<forall>u \<in> set us. \<forall>v \<in> set vs. blk_end h u \<le> unat v"
    using D(2) by (auto simp: sorted_wrt_append)
  have bpos: "unat b < blk_end h' b" using need(3) endb(1) by simp
  have sorted: "sorted_wrt (\<lambda>a b. blk_end h' a \<le> unat b) (us @ zs @ vs)"
  proof -
    have "sorted_wrt (\<lambda>a b. blk_end h' a \<le> unat b) us" "sorted_wrt (\<lambda>a b. blk_end h' a \<le> unat b) vs"
      using D(2) ends sorted_blocks_cong [of us h' h] sorted_blocks_cong [of vs h' h]
      by (simp_all add: sorted_wrt_append)
    moreover have "sorted_wrt (\<lambda>a b. blk_end h' a \<le> unat b) zs" using zs by auto
    ultimately show ?thesis using old rest ends bpos by (fastforce simp: sorted_wrt_append)
  qed
  have ok: "\<forall>x \<in> set (us @ zs @ vs) \<union> insert b A. blk_ok h' x"
  proof
    fix x assume "x \<in> set (us @ zs @ vs) \<union> insert b A"
    then consider "x \<in> set zs" | "x = b" | "x \<in> set us \<union> set vs \<union> A" by auto
    then show "blk_ok h' x"
    proof cases
      case 2 then show ?thesis using okb need endb by (auto simp: blk_ok_def ar sizes)
    next
      case 3
      moreover from this have "blk_ok h x" using D(3,4) by auto
      ultimately show ?thesis using sizes ends by (simp add: blk_ok_def ar)
    qed (use rest in auto)
  qed
  have sepb: "apart h' b y \<and> apart h' y b" if "y \<in> A" for y
    using D(8) [OF that, of b] that ends endb by (auto simp: apart_def)
  have AA: "\<forall>x \<in> insert b A. \<forall>y \<in> insert b A. x \<noteq> y \<longrightarrow> apart h' x y"
    using D(7) sepb ends by (auto simp: apart_def)
  have AF: "apart h' x y" if x: "x \<in> insert b A" and y: "y \<in> set (us @ zs @ vs)" for x y
  proof (cases "x = b")
    case True
    with y old rest ends endb show ?thesis by (fastforce simp: apart_def)
  next
    case False
    with x have xA: "x \<in> A" by simp
    consider "y \<in> set zs" | "y \<in> set us \<union> set vs" using y by auto
    then show ?thesis
    proof cases
      case 1
      with rest D(8) [OF xA, of b] ends xA bpos show ?thesis by (fastforce simp: apart_def)
    next
      case 2
      with D(8) [OF xA, of y] ends xA show ?thesis by (auto simp: apart_def)
    qed
  qed
  show "heap_core h' (us @ zs @ vs) (insert b A)"
    using core chain sorted ok AA AF by (simp add: heap_core_def ar)
  assume co: "coalesced h (us @ b # vs)"
  have sub: "coalesced h' us" "coalesced h' vs"
    using co sizes(2) coalesced_cong [of us h' h] coalesced_cong [of vs h' h]
    by (auto simp: coalesced_append coalesced_Cons)
  have left: "last us + blk_size h' (last us) \<noteq> y" if "us \<noteq> []" "unat b < unat y" for y
  proof -
    have l: "last us \<in> set us" using that by simp
    then have "unat (last us + blk_size h (last us)) \<le> unat b"
      using blk_end_word [OF core, of "last us"] old by simp
    with that l sizes(2) show ?thesis by auto
  qed
  have bv: "unat b < unat (hd vs)" if "vs \<noteq> []"
    using old(2) bpos endb(2) that hd_in_set [OF that] by fastforce
  from zs show "coalesced h' (us @ zs @ vs)"
  proof (elim disjE conjE)
    assume "zs = []"
    then show ?thesis using sub left bv by (auto simp: coalesced_append)
  next
    assume z: "zs = [b + need]" and sz: "blk_size h' (b + need) = blk_size h b - need"
    have "unat b < unat (b + need)" using rest [of "b + need"] z bpos by simp
    moreover have "vs \<noteq> [] \<Longrightarrow> b + blk_size h b \<noteq> hd vs" using co by (simp add: coalesced_append coalesced_Cons)
    ultimately show ?thesis using sub left z sz by (auto simp: coalesced_append coalesced_Cons)
  qed
qed


lemma carve_ok:
  assumes core: "heap_core h (us @ b # vs) A" and co: "coalesced h (us @ b # vs)"
    and need: "need \<le> blk_size h b" "8 dvd unat need" "24 \<le> unat need"
    and h': "h' = carve (link_after us) b need h"
  shows "\<exists>zs. heap_core h' (us @ zs @ vs) (insert b A) \<and> coalesced h' (us @ zs @ vs)
     \<and> blk_size h' b = need \<and> (\<forall>a \<in> A. blk_size h' a = blk_size h a) \<and> heap_used h' = heap_used h"
proof -
  note D = heap_coreD [OF core]
  have dist: "distinct (us @ b # vs)" by (rule heap_core_distinct [OF core])
  have bA: "b \<notin> A" using heap_core_disjoint [OF core] by auto
  have le: "unat need \<le> unat (blk_size h b)" using need(1) by (simp add: word_le_nat_alt)
  have tail: "cseg (blk_next h) (blk_next h b) vs 0" using lchain_deref [OF D(1)] by simp
  show ?thesis
  proof (cases "MIN_BLOCK \<le> blk_size h b - need")
    case False
    then have h2: "h' = set_size b need (assign h (link_after us) (blk_next h b))"
      by (simp add: h' carve_def Let_def)
    have "lchain h' (us @ [] @ vs)"
      unfolding h2 lchain_set_size using dist tail by (intro lchain_relink [OF D(1)]) auto
    note C = heap_core_carve [OF core le need(2,3) _ this]
    from C [THEN conjI] show ?thesis
      using dist bA co by (intro exI [of _ "[]"]) (auto simp: h2)
  next
    case True
    define r where "r = b + need"
    define h1 where "h1 = set_next r (blk_next h b) (set_size r (blk_size h b - need) h)"
    have h2: "h' = set_size b need (assign h1 (link_after us) r)"
      using True by (simp add: h' h1_def carve_def Let_def r_def)
    have big: "32 \<le> unat (blk_size h b) - unat need"
      using True le by (simp add: word_le_nat_alt unat_sub MIN_BLOCK_def HDR_def)
    have okb: "blk_ok h b" using D(3) by simp
    have "blk_end h b < 2 ^ 64" using okb D(5) unfolding blk_ok_def by linarith
    then have ur: "unat r = unat b + unat need" using le by (simp add: r_def unat_word_ariths blk_end_def)
    have rb: "unat b < unat r" "unat r < blk_end h b" using ur big need(3) by (auto simp: blk_end_def)
    have "x \<noteq> r" if "x \<in> set us \<union> set vs \<union> A" for x
    proof
      assume "x = r"
      moreover have "blk_end h x \<le> unat b \<or> blk_end h b \<le> unat x"
        using D(2) D(8) [of x b] that by (auto simp: sorted_wrt_append apart_def)
      moreover have "unat x < blk_end h x" using D(3,4) that blk_ok_pos by auto
      ultimately show False using rb by auto
    qed
    moreover have "r \<noteq> b" "r \<noteq> 0" using rb by auto
    ultimately have fresh: "r \<notin> set us" "r \<notin> set vs" "r \<notin> A" "r \<noteq> b" "r \<noteq> 0" by blast+
    have c1: "lchain h1 (us @ b # vs)" using D(1) fresh by (simp add: h1_def)
    have "lchain h' (us @ [r] @ vs)"
      unfolding h2 lchain_set_size using dist fresh tail
      by (intro lchain_relink [OF c1]) (auto simp: h1_def)
    note chain = this
    have size': "blk_size h' = (blk_size h)(r := blk_size h b - need, b := need)"
      by (simp add: h2 h1_def)
    note C = heap_core_carve [OF core le need(2,3) _ chain]
    have zs: "[r] = [] \<or> [r] = [b + need] \<and> blk_size h' (b + need) = blk_size h b - need
        \<and> 32 \<le> unat (blk_size h b) - unat need"
      using big fresh(4) by (auto simp: size' r_def)
    have keep: "\<forall>x \<in> set us \<union> set vs \<union> A. blk_size h' x = blk_size h x"
      using fresh dist bA by (auto simp: size')
    have "heap_core h' (us @ [r] @ vs) (insert b A)" "coalesced h' (us @ [r] @ vs)"
      using C [OF zs] co keep by (auto simp: h2 h1_def)
    then show ?thesis using keep by (intro exI [of _ "[r]"]) (auto simp: h2 h1_def)
  qed
qed


lemma unat_kmalloc_need:
  assumes "unat n \<le> 2 ^ 64 - 32"
  shows "unat (kmalloc_need n) = 16 + (max 1 (unat n) + 7) div 8 * 8"
proof -
  define m where "m = (if n = 0 then 1 else n)"
  have m: "unat m = max 1 (unat n)" using unat_eq_zero [of n] by (auto simp: m_def)
  have al: "unat (align8 m) = (max 1 (unat n) + 7) div 8 * 8"
  proof -
    have "unat (m + 7) = unat m + 7" using assms m by (simp add: unat_word_ariths)
    then show ?thesis
      using unat_and_not_mask [of "m + 7" 3] m by (simp add: align8_def mask_eq_exp_minus_1)
  qed
  moreover have "\<not> align8 m < 8" using al by (simp add: word_less_nat_alt)
  ultimately have "kmalloc_need n = HDR + align8 m" by (simp add: kmalloc_need_def Let_def m_def)
  moreover have "(max 1 (unat n) + 7) div 8 * 8 \<le> max 1 (unat n) + 7" by simp
  ultimately show ?thesis using al assms by (simp add: unat_word_ariths HDR_def)
qed

lemma max_round_up:
  fixes k n :: nat
  shows "8 dvd (16 + (max k n + 7) div 8 * 8)" "n \<le> (max k n + 7) div 8 * 8" "k \<le> (max k n + 7) div 8 * 8"
proof -
  have "m \<le> (m + 7) div 8 * 8" for m :: nat by presburger
  from this [of "max k n"] show "n \<le> (max k n + 7) div 8 * 8" "k \<le> (max k n + 7) div 8 * 8" by simp_all
  show "8 dvd (16 + (max k n + 7) div 8 * 8)" by (intro dvd_add) simp_all
qed

text \<open>Disjoint blocks inside the arena: their sizes add up to at most its size.\<close>

lemma heap_core_total:
  assumes "heap_core h bs A"
  shows "(\<Sum>a \<in> A. unat (blk_size h a)) \<le> unat (arena_size h)"
proof -
  note D = heap_coreD [OF assms]
  let ?I = "\<lambda>a. {unat a..<blk_end h a}"
  have "(\<Sum>a \<in> A. unat (blk_size h a)) = (\<Sum>a \<in> A. card (?I a))" by (simp add: blk_end_def)
  also have "\<dots> = card (\<Union>a \<in> A. ?I a)"
    using D(6,7) by (intro card_UN_disjoint [symmetric]) (auto simp: apart_def, fastforce)
  also have "\<dots> \<le> card {unat (arena_start h)..<unat (arena_start h) + unat (arena_size h)}"
    using D(4) by (intro card_mono) (fastforce simp: blk_ok_def)+
  finally show ?thesis by simp
qed

lemma first_fit:
  obtains "\<forall>b \<in> set bs. \<not> P b"
    | us b vs where "bs = us @ b # vs" "\<forall>u \<in> set us. \<not> P u" "P b"
  by (metis split_list_first_prop)

lemma kmalloc_cases:
  assumes inv: "kheap_inv h bs A" and need: "8 dvd unat (kmalloc_need n)" "24 \<le> unat (kmalloc_need n)"
  obtains (none) "kmalloc n h = Some (0, h)" "\<forall>b \<in> set bs. blk_size h b < kmalloc_need n"
  | (some) b h' bs' where "kmalloc n h = Some (b + HDR, h')" "b \<in> set bs" "b \<notin> A"
      "blk_size h' b = kmalloc_need n" "\<forall>a \<in> A. blk_size h' a = blk_size h a"
      "kheap_inv h' bs' (insert b A)" "b + HDR \<noteq> 0"
proof (cases rule: first_fit [of bs "\<lambda>b. kmalloc_need n \<le> blk_size h b"])
  case 1
  have core: "heap_core h bs A" using inv by (simp add: kheap_inv_def)
  have small: "\<forall>b \<in> set bs. blk_size h b < kmalloc_need n" using 1 by (simp add: linorder_not_le)
  then have "alloc_from (kmalloc_need n) h = Some (0, h)"
    using alloc_walk_none [of h "[]" bs] heap_coreD(1) [OF core] by (simp add: alloc_from_def link_after_def)
  then show thesis using none small by (simp add: kmalloc_def)
next
  case (2 us b vs)
  have core: "heap_core h (us @ b # vs) A" and co: "coalesced h (us @ b # vs)" and cnt: "heap_count h A"
    using inv 2(1) by (simp_all add: kheap_inv_def)
  define h1 where "h1 = carve (link_after us) b (kmalloc_need n) h"
  obtain zs where zs: "heap_core h1 (us @ zs @ vs) (insert b A)" "coalesced h1 (us @ zs @ vs)"
    "blk_size h1 b = kmalloc_need n" "\<forall>a \<in> A. blk_size h1 a = blk_size h a" "heap_used h1 = heap_used h"
    using carve_ok [OF core co 2(3) need h1_def] by blast
  define h2 where "h2 = h1\<lparr>heap_used := heap_used h1 + kmalloc_need n\<rparr>"
  have bA: "b \<notin> A" using heap_core_disjoint [OF core] by auto
  have run: "alloc_from (kmalloc_need n) h = Some (b + HDR, h1)"
    using alloc_walk_found [of h "[]" us b vs] heap_coreD(1) [OF core] 2(2,3)
    by (simp add: alloc_from_def link_after_def h1_def linorder_not_le)
  have b0: "b + HDR \<noteq> 0"
  proof -
    have "blk_ok h b" using heap_coreD(3) [OF core] by simp
    then have "unat b + 16 < 2 ^ 64" using heap_coreD(5) [OF core] unfolding blk_ok_def blk_end_def by linarith
    then have "unat (b + HDR) = unat b + 16" by (simp add: unat_word_ariths HDR_def)
    then show ?thesis by (metis add_is_0 unat_0 zero_neq_numeral)
  qed
  have "heap_core h2 (us @ zs @ vs) (insert b A)" "coalesced h2 (us @ zs @ vs)"
    using zs(1,2)
    by (simp_all add: h2_def heap_core_def lchain_def blk_ok_def blk_end_def apart_def coalesced_def)
  moreover have "heap_count h2 (insert b A)"
  proof -
    have "(\<Sum>a \<in> insert b A. unat (blk_size h1 a)) = unat (heap_used h) + unat (kmalloc_need n)"
      using cnt bA zs(3,4) heap_coreD(6) [OF core] by (simp add: heap_count_def)
    moreover have "\<dots> < 2 ^ 64"
      using heap_core_total [OF zs(1)] heap_coreD(5) [OF zs(1)] calculation by linarith
    ultimately show ?thesis by (simp add: heap_count_def h2_def zs(5) unat_word_ariths)
  qed
  ultimately have "kheap_inv h2 (us @ zs @ vs) (insert b A)" by (simp add: kheap_inv_def)
  moreover have "kmalloc n h = Some (b + HDR, h2)" using run b0 by (simp add: kmalloc_def h2_def)
  ultimately show thesis using some [of b h2] 2(1) bA zs(3,4) b0 by (simp add: h2_def)
qed


section \<open>Properties of the heap\<close>

text \<open>
  \<^verbatim>\<open>kmalloc_init\<close>: when it obtains an arena, the whole arena is one free block and the heap
  invariant holds with nothing allocated; the frame allocator stays consistent.
\<close>

theorem kmalloc_init_establishes:
  assumes "pmm_inv s" "arena_size h = 0" "kmalloc_init s h = (s', h')" "arena_size h' \<noteq> 0"
  shows "kheap_inv h' [arena_start h'] {} \<and> pmm_inv s'
     \<and> blk_size h' (arena_start h') = arena_size h' \<and> kmem_used h' = 0"
proof -
  define want where
    "want = (if HEAP_PAGES > pmm_free_frames s then pmm_free_frames s div 2 else HEAP_PAGES)"
  have w0: "want \<noteq> 0"
    using assms(2-4) by (auto simp: kmalloc_init_def Let_def want_def [symmetric])
  obtain a s1 where r: "pmm_alloc_range want s = (a, s1)" by fastforce
  have a0: "a \<noteq> 0"
    using assms(2-4) r w0 by (auto simp: kmalloc_init_def Let_def want_def [symmetric])
  have eqs: "s' = s1" "h' = h\<lparr>arena_start := a, arena_size := ucast want * 4096, free_list := a,
      blk_size := (blk_size h)(a := ucast want * 4096), blk_next := (blk_next h)(a := 0), heap_used := 0\<rparr>"
    using assms(2,3) r w0 a0 by (simp_all add: kmalloc_init_def Let_def want_def [symmetric])
  obtain st where inv': "pmm_inv s1" and st: "st + unat want \<le> unat (nframes s)"
    "unat a = unat (base s) + 4096 * st"
    using pmm_alloc_range_start [OF assms(1) w0 r a0] by blast
  have al: "8 dvd unat a"
  proof -
    have "4096 dvd unat (base s)" using pmm_invD(3) [OF assms(1)] by (simp add: mod_eq_0_iff_dvd)
    then obtain q where "unat (base s) = 4096 * q" by (rule dvdE)
    then have "unat a = 8 * (512 * (q + st))" using st(2) by simp
    then show ?thesis by (metis dvd_triv_left)
  qed
  have bound: "unat a + 4096 * unat want \<le> 2 ^ 30" "0 < unat want"
    using pmm_invD(2) [OF assms(1)] st w0 by (simp_all add: unat_gt_0)
  have sz: "unat (ucast want * 4096 :: u64) = 4096 * unat want"
  proof -
    have "unat want < 2 ^ 64" using bound(1) by simp
    then have "unat (ucast want :: u64) = unat want"
      by (simp add: unsigned_ucast_eq take_bit_nat_eq_self_iff)
    then show ?thesis using bound(1) by (simp add: unat_word_ariths)
  qed
  have w24: "24 \<le> 4096 * unat want" using bound(2) by linarith
  have "heap_core h' [a] {}"
    using a0 al bound sz w24
    by (simp add: heap_core_def lchain_def blk_ok_def blk_end_def eqs unat_gt_0)
  then show ?thesis using inv' by (simp add: kheap_inv_def coalesced_def heap_count_def eqs kmem_used_def)
qed

definition kheap_zero :: kheap where
  "kheap_zero = \<lparr>arena_start = 0, arena_size = 0, heap_used = 0, free_list = 0,
     blk_size = (\<lambda>_. 0), blk_next = (\<lambda>_. 0)\<rparr>"

definition kheap_ex :: kheap where
  "kheap_ex = kheap_zero\<lparr>arena_start := 0x203000, arena_size := 0x2000, free_list := 0x203000,
     blk_size := (\<lambda>_. 0)(0x203000 := 0x2000), blk_next := (\<lambda>_. 0)(0x203000 := 0)\<rparr>"

lemma kheap_ex_init:
  "kmalloc_init pmm_ex kheap_zero = (pmm_ex\<lparr>bits := [29], free_frames := 2\<rparr>, kheap_ex)"
  by (simp add: kmalloc_init_def kheap_zero_def kheap_ex_def HEAP_PAGES_def pmm_free_frames_def
      pmm_alloc_range_def pmm_ex_def alloc_range_loop.simps bit_test_def bit_set_def
      frame_addr_def frame_index_def push_bit_eq_mult drop_bit_eq_div Let_def)

theorem kmalloc_init_establishes_witness:
  "kmalloc_init pmm_ex kheap_zero = (pmm_ex\<lparr>bits := [29], free_frames := 2\<rparr>, kheap_ex)
   \<and> kheap_inv kheap_ex [0x203000] {}"
  using kmalloc_init_establishes [OF pmm_ex_inv _ kheap_ex_init] kheap_ex_init
  by (simp add: kheap_ex_def kheap_zero_def)


lemma kheap_ex_inv: "kheap_inv kheap_ex [0x203000] {}"
  by (simp add: kheap_inv_def heap_core_def lchain_def blk_ok_def blk_end_def coalesced_def
      heap_count_def kheap_ex_def kheap_zero_def)


lemma kfree_ok:
  assumes "kheap_inv h bs A" "b \<in> A"
  shows "\<exists>h' bs'. kfree (b + HDR) h = Some h' \<and> kheap_inv h' bs' (A - {b})
           \<and> (\<forall>a \<in> A - {b}. blk_size h' a = blk_size h a)
           \<and> unat (heap_used h') + unat (blk_size h b) = unat (heap_used h)"
proof -
  have core: "heap_core h bs A" and co: "coalesced h bs" and cnt: "heap_count h A"
    using assms(1) by (simp_all add: kheap_inv_def)
  note D = heap_coreD [OF core]
  have okb: "blk_ok h b" using D(4) assms(2) .
  have eb: "unat (b + blk_size h b) = blk_end h b" using blk_end_word [OF core, of b] assms(2) by simp
  have lim: "unat b + 16 < 2 ^ 64" using okb D(5) unfolding blk_ok_def blk_end_def by linarith
  then have "unat (b + HDR) = unat b + 16" by (simp add: unat_word_ariths HDR_def)
  then have p0: "b + HDR \<noteq> 0" by (metis add_is_0 unat_0 zero_neq_numeral)
  have ia: "in_arena b h"
    using okb eb D(5) by (simp add: in_arena_def word_le_nat_alt blk_ok_def unat_word_ariths)
  have al: "blk_size h b AND 7 = 0"
  proof -
    have "unat (take_bit 3 (blk_size h b)) = unat (blk_size h b) mod 2 ^ 3"
      by (subst unsigned_take_bit_eq) (rule take_bit_eq_mod)
    also have "\<dots> = 0" using okb by (simp add: blk_ok_def)
    finally show ?thesis by (simp add: unat_eq_zero take_bit_eq_mask mask_eq_exp_minus_1)
  qed
  define h0 where "h0 = h\<lparr>heap_used := heap_used h - blk_size h b\<rparr>"
  have core0: "heap_core h0 bs A" and co0: "coalesced h0 bs"
    using core co
    by (simp_all add: h0_def heap_core_def lchain_def blk_ok_def blk_end_def apart_def coalesced_def)
  obtain h' bs' where R: "insert_keep_coalesced b h0 = Some h'" "heap_core h' bs' (A - {b})"
    "coalesced h' bs'" "\<forall>a \<in> A - {b}. blk_size h' a = blk_size h0 a" "heap_used h' = heap_used h0"
    using insert_keep_coalesced_ok [OF core0 co0 assms(2)] by blast
  have run: "kfree (b + HDR) h = Some h'"
    using p0 ia al R(1) by (simp add: kfree_def Let_def h0_def)
  have sum: "unat (heap_used h) = unat (blk_size h b) + (\<Sum>a \<in> A - {b}. unat (blk_size h a))"
    using cnt sum.remove [OF D(6) assms(2)] by (simp add: heap_count_def)
  have used: "unat (heap_used h') = (\<Sum>a \<in> A - {b}. unat (blk_size h a))"
    using sum by (simp add: R(5) h0_def unat_sub word_le_nat_alt)
  have "kheap_inv h' bs' (A - {b})" using R(2-4) used by (simp add: kheap_inv_def heap_count_def h0_def)
  then show ?thesis using run R(4) used sum by (auto simp: h0_def)
qed


definition kheap_ex2 :: kheap where
  "kheap_ex2 = kheap_ex\<lparr>heap_used := 120, free_list := 0x203078,
     blk_size := (\<lambda>_. 0)(0x203000 := 120, 0x203078 := 0x1F88)\<rparr>"

lemma kheap_ex2_inv: "kheap_inv kheap_ex2 [0x203078] {0x203000}"
  by (simp add: kheap_inv_def heap_core_def lchain_def blk_ok_def blk_end_def coalesced_def
      heap_count_def apart_def kheap_ex2_def kheap_ex_def kheap_zero_def)


text \<open>
  Two behaviours of the code outside the hypothesis of \<^verbatim>\<open>kmalloc\<close>'s specification or beside it.
  A request near \<open>2 ^ 64\<close> wraps around in \<^verbatim>\<open>align8\<close> or in the header addition and is served with a
  block far too small; and when the remainder is below \<^verbatim>\<open>MIN_BLOCK\<close> the block is still shrunk to
  \<^verbatim>\<open>need\<close>, so the remainder belongs to no block at all afterwards.
\<close>

lemma kmalloc_need_wraps: "kmalloc_need (- 1) = 24" "kmalloc_need (- 16) = 0"
  by (simp_all add: kmalloc_need_def align8_def HDR_def)

lemma carve_loses_slack:
  assumes "need \<le> blk_size h b" "blk_size h b - need < MIN_BLOCK"
  shows "blk_size (carve pp b need h) b = need"
  using assms by (simp add: carve_def Let_def linorder_not_le)

end
