(* ===== verification/Util.thy ===== *)
theory Util
  imports Prelude
begin

text \<open>
  The freestanding C library of \<^verbatim>\<open>kernel/util.cpp\<close>. Memory is one flat array of bytes
  \<open>mem = u64 \<Rightarrow> u8\<close> indexed by 64-bit addresses with wrap-around, so source and destination may
  alias in every way the code admits. The pointer returned by the copying functions is their first
  argument and is left out. Counted loops are primitive recursive in the count; loops that run to a
  terminating zero byte are partial functions, and they are proved to return on every string.
\<close>

type_synonym mem = "u64 \<Rightarrow> u8"

record intr =
  g_intr_pending :: bool

definition sys_intr_set :: "intr \<Rightarrow> intr" where "sys_intr_set s = s\<lparr>g_intr_pending := True\<rparr>"
definition sys_intr_clear :: "intr \<Rightarrow> intr" where "sys_intr_clear s = s\<lparr>g_intr_pending := False\<rparr>"
definition sys_intr_pending :: "intr \<Rightarrow> bool" where "sys_intr_pending s = g_intr_pending s"

text \<open>
  The serial input line is a queue of received bytes: \<^verbatim>\<open>serial_has_char\<close> tests it and
  \<^verbatim>\<open>serial_getc\<close> takes the first one.
\<close>

fun sys_intr_poll :: "bytes \<Rightarrow> intr \<Rightarrow> bytes \<times> intr" where
  "sys_intr_poll [] s = ([], s)"
| "sys_intr_poll (c # rx) s = (rx, if c = 0x03 then s\<lparr>g_intr_pending := True\<rparr> else s)"

primrec memset :: "u64 \<Rightarrow> u8 \<Rightarrow> nat \<Rightarrow> mem \<Rightarrow> mem" where
  "memset p v 0 m = m"
| "memset p v (Suc n) m = memset (p + 1) v n (m(p := v))"

text \<open>\<^verbatim>\<open>while (n--) *d++ = *s++;\<close>\<close>

primrec copy_up :: "u64 \<Rightarrow> u64 \<Rightarrow> nat \<Rightarrow> mem \<Rightarrow> mem" where
  "copy_up d s 0 m = m"
| "copy_up d s (Suc n) m = copy_up (d + 1) (s + 1) n (m(d := m s))"

text \<open>\<^verbatim>\<open>while (n >= 4 && ((uintptr_t)d & 3)) { *d++ = *s++; n--; }\<close>\<close>

fun copy_align :: "u64 \<Rightarrow> u64 \<Rightarrow> nat \<Rightarrow> mem \<Rightarrow> u64 \<times> u64 \<times> nat \<times> mem" where
  "copy_align d s 0 m = (d, s, 0, m)"
| "copy_align d s (Suc n) m =
     (if 4 \<le> Suc n \<and> d AND 3 \<noteq> 0 then copy_align (d + 1) (s + 1) n (m(d := m s)) else (d, s, Suc n, m))"

text \<open>A 32-bit load and store, as the little-endian bytes the processor moves.\<close>

definition load32 :: "mem \<Rightarrow> u64 \<Rightarrow> u8 list" where
  "load32 m s = [m s, m (s + 1), m (s + 2), m (s + 3)]"

definition store32 :: "u64 \<Rightarrow> u8 list \<Rightarrow> mem \<Rightarrow> mem" where
  "store32 d v m = m(d := v ! 0, d + 1 := v ! 1, d + 2 := v ! 2, d + 3 := v ! 3)"

fun copy_dwords :: "u64 \<Rightarrow> u64 \<Rightarrow> nat \<Rightarrow> mem \<Rightarrow> u64 \<times> u64 \<times> nat \<times> mem" where
  "copy_dwords d s n m =
     (if 4 \<le> n then copy_dwords (d + 4) (s + 4) (n - 4) (store32 d (load32 m s) m) else (d, s, n, m))"

declare copy_dwords.simps [simp del]

definition memcpy :: "u64 \<Rightarrow> u64 \<Rightarrow> nat \<Rightarrow> mem \<Rightarrow> mem" where
  "memcpy d s n m =
     (let (d, s, n, m) =
        (if 4 \<le> n \<and> d AND 3 = s AND 3
         then let (d, s, n, m) = copy_align d s n m in copy_dwords d s n m
         else (d, s, n, m))
      in copy_up d s n m)"

text \<open>\<^verbatim>\<open>while (n--) *--d = *--s;\<close> with both pointers one past the end.\<close>

primrec copy_down :: "u64 \<Rightarrow> u64 \<Rightarrow> nat \<Rightarrow> mem \<Rightarrow> mem" where
  "copy_down d s 0 m = m"
| "copy_down d s (Suc n) m = copy_down (d - 1) (s - 1) n (m(d - 1 := m (s - 1)))"

definition memmove :: "u64 \<Rightarrow> u64 \<Rightarrow> nat \<Rightarrow> mem \<Rightarrow> mem" where
  "memmove d s n m =
     (if d < s then copy_up d s n m
      else if s < d then copy_down (d + of_nat n) (s + of_nat n) n m
      else m)"

primrec memcmp :: "mem \<Rightarrow> u64 \<Rightarrow> u64 \<Rightarrow> nat \<Rightarrow> int" where
  "memcmp m a b 0 = 0"
| "memcmp m a b (Suc n) =
     (if m a \<noteq> m b then uint (m a) - uint (m b) else memcmp m (a + 1) (b + 1) n)"

partial_function (option) strlen_loop :: "mem \<Rightarrow> u64 \<Rightarrow> nat \<Rightarrow> nat option" where
  "strlen_loop m s n = (if m (s + of_nat n) \<noteq> 0 then strlen_loop m s (Suc n) else Some n)"

definition strlen :: "mem \<Rightarrow> u64 \<Rightarrow> nat option" where
  "strlen m s = strlen_loop m s 0"

partial_function (option) strcmp :: "mem \<Rightarrow> u64 \<Rightarrow> u64 \<Rightarrow> int option" where
  "strcmp m a b =
     (if m a \<noteq> 0 \<and> m a = m b then strcmp m (a + 1) (b + 1) else Some (uint (m a) - uint (m b)))"

fun strncmp :: "mem \<Rightarrow> u64 \<Rightarrow> u64 \<Rightarrow> nat \<Rightarrow> int" where
  "strncmp m a b 0 = 0"
| "strncmp m a b (Suc n) =
     (if n \<noteq> 0 \<and> m a \<noteq> 0 \<and> m a = m b then strncmp m (a + 1) (b + 1) n else uint (m a) - uint (m b))"

partial_function (option) strcpy :: "u64 \<Rightarrow> u64 \<Rightarrow> mem \<Rightarrow> mem option" where
  "strcpy d s m =
     (let c = m s; m' = m(d := c) in if c \<noteq> 0 then strcpy (d + 1) (s + 1) m' else Some m')"

fun strncpy :: "u64 \<Rightarrow> u64 \<Rightarrow> nat \<Rightarrow> mem \<Rightarrow> mem" where
  "strncpy d s 0 m = m"
| "strncpy d s (Suc n) m =
     (if m s \<noteq> 0 then strncpy (d + 1) (s + 1) n (m(d := m s)) else memset d 0 (Suc n) m)"

partial_function (option) strchr :: "mem \<Rightarrow> u64 \<Rightarrow> u8 \<Rightarrow> u64 option" where
  "strchr m s c =
     (if m s \<noteq> 0 then if m s = c then Some s else strchr m (s + 1) c
      else Some (if c = 0 then s else 0))"

partial_function (option) strrchr_loop :: "mem \<Rightarrow> u64 \<Rightarrow> u8 \<Rightarrow> u64 \<Rightarrow> u64 option" where
  "strrchr_loop m s c lst =
     (if m s \<noteq> 0 then strrchr_loop m (s + 1) c (if m s = c then s else lst)
      else Some (if c = 0 then s else lst))"

definition strrchr :: "mem \<Rightarrow> u64 \<Rightarrow> u8 \<Rightarrow> u64 option" where
  "strrchr m s c = strrchr_loop m s c 0"


section \<open>Copying\<close>

lemma copy_up_add: "copy_up d s (i + j) m = copy_up (d + of_nat i) (s + of_nat i) j (copy_up d s i m)"
  by (induction i arbitrary: d s m) (simp_all add: add.assoc)

lemma copy_align_copy_up:
  "copy_align d s n m = (d', s', n', m') \<Longrightarrow>
     n' \<le> n \<and> d' = d + of_nat (n - n') \<and> s' = s + of_nat (n - n') \<and> m' = copy_up d s (n - n') m"
proof (induction n arbitrary: d s m)
  case (Suc n)
  show ?case
  proof (cases "4 \<le> Suc n \<and> d AND 3 \<noteq> 0")
    case True
    with Suc.prems have "copy_align (d + 1) (s + 1) n (m(d := m s)) = (d', s', n', m')" by simp
    note * = Suc.IH [OF this]
    then have n: "Suc n - n' = Suc (n - n')" by (simp add: Suc_diff_le)
    with * show ?thesis unfolding n copy_up.simps of_nat_Suc add.assoc [symmetric] by (metis le_SucI)
  next
    case False
    with Suc.prems have "d' = d" "s' = s" "n' = Suc n" "m' = m" by auto
    then show ?thesis by simp
  qed
qed simp

lemma store_load_copy_up:
  assumes "d - s \<noteq> 1" "d - s \<noteq> 2" "d - s \<noteq> 3"
  shows "store32 d (load32 m s) m = copy_up d s 4 m"
proof -
  have ne: "s + 1 \<noteq> d" "s + 2 \<noteq> d" "s + 3 \<noteq> d" "s + 2 \<noteq> d + 1" "s + 3 \<noteq> d + 1" "s + 3 \<noteq> d + 2"
    using assms by (auto simp: algebra_simps diff_eq_eq)
  show ?thesis
    by (simp add: store32_def load32_def numeral_eq_Suc add.assoc ne fun_upd_def)
qed


lemma copy_dwords_copy_up:
  assumes "d - s \<noteq> 1" "d - s \<noteq> 2" "d - s \<noteq> 3" "copy_dwords d s n m = (d', s', n', m')"
  shows "n' \<le> n \<and> d' = d + of_nat (n - n') \<and> s' = s + of_nat (n - n') \<and> m' = copy_up d s (n - n') m"
  using assms
proof (induction n arbitrary: d s m rule: less_induct)
  case (less n)
  show ?case
  proof (cases "4 \<le> n")
    case False
    with less.prems(4) show ?thesis by (subst (asm) copy_dwords.simps) auto
  next
    case True
    have "copy_dwords (d + 4) (s + 4) (n - 4) (store32 d (load32 m s) m) = (d', s', n', m')"
      using less.prems(4) True by (subst (asm) copy_dwords.simps) simp
    with less.IH [of "n - 4" "d + 4" "s + 4"] less.prems True
    have *: "n' \<le> n - 4" "d' = (d + 4) + of_nat (n - 4 - n')" "s' = (s + 4) + of_nat (n - 4 - n')"
      "m' = copy_up (d + 4) (s + 4) (n - 4 - n') (store32 d (load32 m s) m)" by auto
    have n: "n - n' = 4 + (n - 4 - n')" using * True by simp
    have m: "m' = copy_up d s (4 + (n - 4 - n')) m"
      unfolding copy_up_add using *(4) store_load_copy_up [OF less.prems(1-3)] by simp
    have o: "of_nat (n - n') = (4 :: u64) + of_nat (n - 4 - n')"
      unfolding n of_nat_add by (simp only: of_nat_numeral)
    show ?thesis
    proof (intro conjI)
      show "n' \<le> n" using *(1) True by simp
      show "d' = d + of_nat (n - n')" "s' = s + of_nat (n - n')"
        unfolding o *(2,3) by (simp_all only: add.assoc)
      show "m' = copy_up d s (n - n') m" unfolding n by (rule m)
    qed
  qed
qed

text \<open>Aligned alike, source and destination are never one to three bytes apart.\<close>

lemma same_alignment:
  assumes "d AND 3 = (s :: u64) AND 3"
  shows "d - s \<noteq> 1" "d - s \<noteq> 2" "d - s \<noteq> 3"
proof -
  have *: "unat (w AND 3) = unat w mod 4" for w :: u64
  proof -
    have "unat (take_bit 2 w) = take_bit 2 (unat w)" by (rule unsigned_take_bit_eq)
    also have "\<dots> = unat w mod 4" by (simp add: take_bit_eq_mod)
    finally show ?thesis by (simp add: take_bit_eq_mask mask_eq_exp_minus_1)
  qed
  have mods: "unat d mod 4 = unat s mod 4" using assms * by metis
  have "unat (s + (d - s)) mod 4 = (unat s + unat (d - s)) mod 4"
    unfolding unat_word_ariths by (simp add: mod_mod_cancel)
  then have "(unat s + unat (d - s)) mod 4 = unat s mod 4" using mods by simp
  then have "unat (d - s) mod 4 = 0" by presburger
  then show "d - s \<noteq> 1" "d - s \<noteq> 2" "d - s \<noteq> 3" by auto
qed

lemma copy_up_spec:
  assumes "n \<le> 2 ^ 64" "d = s \<or> n \<le> unat (d - s)"
  shows "copy_up d s n m x = (if unat (x - d) < n then m (s + (x - d)) else m x)"
  using assms
proof (induction n arbitrary: d s m)
  case (Suc n)
  have off: "d + 1 - (s + 1) = d - s" by simp
  have "n \<le> 2 ^ 64" "d + 1 = s + 1 \<or> n \<le> unat (d + 1 - (s + 1))" using Suc.prems off by auto
  from Suc.IH [OF this, of "m(d := m s)"]
  have IH: "copy_up d s (Suc n) m x =
      (if unat (x - (d + 1)) < n then (m(d := m s)) (s + 1 + (x - (d + 1))) else (m(d := m s)) x)"
    unfolding copy_up.simps .
  show ?case
  proof (cases "x = d")
    case True
    have "unat (- 1 :: u64) = 2 ^ 64 - 1" by (simp add: unsigned_minus_1_eq_mask mask_eq_exp_minus_1)
    then have "\<not> unat (x - (d + 1)) < n" using True Suc.prems(1) by simp
    then show ?thesis using IH True by simp
  next
    case False
    then have "x - d \<noteq> 0" by simp
    then have u: "unat (x - (d + 1)) = unat (x - d) - 1" "0 < unat (x - d)"
      using unat_minus_one [of "x - d"] by (simp_all add: diff_diff_eq unat_gt_0)
    have "s + (x - d) \<noteq> d" if "unat (x - d) < Suc n"
    proof
      assume "s + (x - d) = d"
      then have "x - d = d - s" by (metis add_diff_cancel_left')
      with that Suc.prems(2) u False \<open>s + (x - d) = d\<close> show False by auto
    qed
    moreover have "s + 1 + (x - (d + 1)) = s + (x - d)" by simp
    ultimately show ?thesis using IH u False by auto
  qed
qed simp

lemma copy_down_spec:
  assumes "unat (d - s) + n \<le> 2 ^ 64" "n < 2 ^ 64"
  shows "copy_down (d + of_nat n) (s + of_nat n) n m x = (if unat (x - d) < n then m (s + (x - d)) else m x)"
  using assms
proof (induction n arbitrary: m)
  case (Suc n)
  have prev: "unat (d - s) + n \<le> 2 ^ 64" "n < 2 ^ 64" using Suc.prems by simp_all
  have "d + of_nat (Suc n) - 1 = d + of_nat n" "s + of_nat (Suc n) - 1 = s + of_nat n" by simp_all
  from this Suc.IH [OF prev, of "m(d + of_nat n := m (s + of_nat n))"]
  have IH: "copy_down (d + of_nat (Suc n)) (s + of_nat (Suc n)) (Suc n) m x =
      (if unat (x - d) < n then (m(d + of_nat n := m (s + of_nat n))) (s + (x - d))
       else (m(d + of_nat n := m (s + of_nat n))) x)"
    unfolding copy_down.simps by (simp only:)
  have un: "unat (of_nat n :: u64) = n" using Suc.prems by (simp add: unat_of_nat)
  have "s + (x - d) \<noteq> d + of_nat n" if "unat (x - d) < n"
  proof
    assume "s + (x - d) = d + of_nat n"
    then have eq: "x - d = (d - s) + of_nat n" by (simp add: algebra_simps)
    have "unat (x - d) = unat (d - s) + n"
      unfolding eq using unat_plus_small [of "d - s" "of_nat n"] un Suc.prems by simp
    with that show False by simp
  qed
  moreover have "x = d + of_nat n \<longleftrightarrow> unat (x - d) = n"
    using un by (metis add.commute diff_add_cancel diff_eq_eq word_unat_eq_iff)
  ultimately show ?case using IH by (auto simp: less_Suc_eq)
qed simp



section \<open>Strings\<close>

text \<open>\<open>cstr m s cs\<close>: the zero-terminated string at \<open>s\<close> has the bytes \<open>cs\<close>.\<close>

fun cstr :: "mem \<Rightarrow> u64 \<Rightarrow> u8 list \<Rightarrow> bool" where
  "cstr m s [] \<longleftrightarrow> m s = 0"
| "cstr m s (c # cs) \<longleftrightarrow> m s = c \<and> c \<noteq> 0 \<and> cstr m (s + 1) cs"

lemma strlen_loop_cstr: "cstr m (s + of_nat n) cs \<Longrightarrow> strlen_loop m s n = Some (n + length cs)"
proof (induction cs arbitrary: n)
  case Nil
  then show ?case by (subst strlen_loop.simps) simp
next
  case (Cons c cs)
  have "s + of_nat n + 1 = s + of_nat (Suc n)" by simp
  then have "strlen_loop m s (Suc n) = Some (Suc n + length cs)"
    using Cons.IH [of "Suc n"] Cons.prems by (metis cstr.simps(2))
  with Cons.prems show ?case by (subst strlen_loop.simps) simp
qed

lemma strlen_cstr: "cstr m s cs \<Longrightarrow> strlen m s = Some (length cs)"
  using strlen_loop_cstr [of m s 0 cs] by (simp add: strlen_def)

text \<open>The value \<^verbatim>\<open>strcmp\<close> computes, on the two byte strings.\<close>

fun str_diff :: "u8 list \<Rightarrow> u8 list \<Rightarrow> int" where
  "str_diff [] [] = 0"
| "str_diff (a # as) [] = uint a"
| "str_diff [] (b # bs) = - uint b"
| "str_diff (a # as) (b # bs) = (if a = b then str_diff as bs else uint a - uint b)"

lemma strcmp_cstr:
  "cstr m a as \<Longrightarrow> cstr m b bs \<Longrightarrow> strcmp m a b = Some (str_diff as bs)"
proof (induction as bs arbitrary: a b rule: str_diff.induct)
  case (4 x as y bs)
  then show ?case by (subst strcmp.simps) auto
qed (subst strcmp.simps, auto)+

lemma str_diff_eq_0:
  "0 \<notin> set as \<Longrightarrow> 0 \<notin> set bs \<Longrightarrow> str_diff as bs = 0 \<longleftrightarrow> as = bs"
proof (induction as bs rule: str_diff.induct)
  case (4 a as b bs)
  then show ?case by (auto simp: word_uint_eq_iff)
qed (auto simp: unsigned_eq_0_iff)

lemma str_diff_less_0:
  "0 \<notin> set as \<Longrightarrow> 0 \<notin> set bs \<Longrightarrow> str_diff as bs < 0 \<longleftrightarrow> ord_class.lexordp as bs"
proof (induction as bs rule: str_diff.induct)
  case (3 b bs)
  then have "uint b \<noteq> 0" by (simp add: unsigned_eq_0_iff)
  moreover have "0 \<le> uint b" by (rule unsigned_greater_eq)
  ultimately have "0 < uint b" by linarith
  then show ?case by simp
next
  case (4 a as b bs)
  then show ?case by (cases a b rule: linorder_cases) (auto simp: word_less_def)
qed auto

lemma cstr_nonzero: "cstr m s cs \<Longrightarrow> 0 \<notin> set cs"
  by (induction cs arbitrary: s) auto

lemma strncmp_cstr:
  "cstr m a as \<Longrightarrow> cstr m b bs \<Longrightarrow> strncmp m a b n = str_diff (take n as) (take n bs)"
proof (induction as bs arbitrary: a b n rule: str_diff.induct)
  case (4 x as y bs)
  show ?case
  proof (cases n)
    case (Suc k)
    with 4 show ?thesis by (cases "k = 0") auto
  qed simp
next
  case 1
  then show ?case by (cases n) auto
next
  case (2 x as)
  then show ?case by (cases n) auto
next
  case (3 y bs)
  then show ?case by (cases n) auto
qed

lemma strchr_cstr:
  "cstr m s cs \<Longrightarrow> c \<noteq> 0 \<Longrightarrow> strchr m s c =
     Some (case find_from (\<lambda>i. cs ! i = c) 0 (length cs) of None \<Rightarrow> 0 | Some i \<Rightarrow> s + of_nat i)"
proof (induction cs arbitrary: s)
  case Nil
  then show ?case by (subst strchr.simps) (simp add: find_from.simps)
next
  case (Cons a cs)
  show ?case
  proof (cases "a = c")
    case True
    then show ?thesis using Cons.prems by (subst strchr.simps) (simp add: find_from.simps [of _ 0])
  next
    case False
    have shift: "find_from (\<lambda>i. (a # cs) ! i = c) 0 (length (a # cs)) =
        map_option Suc (find_from (\<lambda>i. cs ! i = c) 0 (length cs))"
    proof (cases "find_from (\<lambda>i. cs ! i = c) 0 (length cs)")
      case None
      then have "find_from (\<lambda>i. (a # cs) ! i = c) 0 (length (a # cs)) = None"
        using False unfolding find_from_None by (auto simp: nth_Cons split: nat.splits)
      with None show ?thesis by simp
    next
      case (Some k)
      then have "k < length cs" "cs ! k = c" "\<forall>i < k. cs ! i \<noteq> c"
        using find_from_SomeD [OF Some] by auto
      then have "find_from (\<lambda>i. (a # cs) ! i = c) 0 (length (a # cs)) = Some (Suc k)"
        using False by (intro find_from_SomeI) (auto simp: nth_Cons split: nat.splits)
      with Some show ?thesis by simp
    qed
    have "strchr m s c = strchr m (s + 1) c" using Cons.prems False by (subst strchr.simps) auto
    with Cons.IH [of "s + 1"] Cons.prems shift show ?thesis
      by (simp add: add.assoc split: option.splits)
  qed
qed


section \<open>Properties of the string and memory functions\<close>

text \<open>
  C10. The word-at-a-time \<^verbatim>\<open>memcpy\<close> is the byte-by-byte forward copy, for every alignment and every
  overlap of the two regions: the fast path is taken only when source and destination are congruent
  modulo 4, and then a 32-bit move never reads a byte it has just written.
\<close>

theorem memcpy_bytewise: "memcpy d s n m = copy_up d s n m"
proof (cases "4 \<le> n \<and> d AND 3 = s AND 3")
  case True
  obtain d1 s1 n1 m1 where a: "copy_align d s n m = (d1, s1, n1, m1)" by (metis prod_cases4)
  obtain d2 s2 n2 m2 where b: "copy_dwords d1 s1 n1 m1 = (d2, s2, n2, m2)" by (metis prod_cases4)
  note A = copy_align_copy_up [OF a]
  have "d1 - s1 = d - s" using A by simp
  then have "d1 - s1 \<noteq> 1" "d1 - s1 \<noteq> 2" "d1 - s1 \<noteq> 3" using same_alignment True by simp_all
  note B = copy_dwords_copy_up [OF this b]
  have n: "n = (n - n1) + (n1 - n2) + n2" using A B by simp
  have mid: "m2 = copy_up d s ((n - n1) + (n1 - n2)) m" using A B by (simp only: copy_up_add)
  have ptr: "d2 = d + of_nat ((n - n1) + (n1 - n2))" "s2 = s + of_nat ((n - n1) + (n1 - n2))"
    using A B by (simp_all only: of_nat_add add.assoc)
  have "copy_up d2 s2 n2 m2 = copy_up d s ((n - n1) + (n1 - n2) + n2) m"
    using copy_up_add [of d s "(n - n1) + (n1 - n2)" n2 m] by (simp only: mid ptr)
  then have "copy_up d2 s2 n2 m2 = copy_up d s n m" using n by simp
  then show ?thesis using True a b by (simp add: memcpy_def)
next
  case False
  then show ?thesis by (auto simp: memcpy_def)
qed

text \<open>
  \<^verbatim>\<open>memmove\<close> is correct for overlapping regions: when neither region runs past the end of the
  address space, the destination afterwards holds the bytes the source held before the call, and no
  other byte changes.
\<close>

theorem memmove_correct:
  assumes "unat s + n \<le> 2 ^ 64" "unat d + n \<le> 2 ^ 64" "n < 2 ^ 64"
  shows "memmove d s n m x = (if unat (x - d) < n then m (s + (x - d)) else m x)"
proof -
  consider "d < s" | "s < d" | "d = s" by fastforce
  then show ?thesis
  proof cases
    case 1
    have "n \<le> unat (d - s)"
      using 1 assms(1) by (simp add: unat_sub_if' word_less_nat_alt)
    then show ?thesis using 1 assms(3) copy_up_spec [of n d s m x] by (simp add: memmove_def)
  next
    case 2
    have "unat (d - s) + n \<le> 2 ^ 64" using 2 assms(2) by (simp add: unat_sub word_less_nat_alt word_le_nat_alt)
    then show ?thesis using 2 assms(3) copy_down_spec [of d s n m x] by (auto simp: memmove_def)
  next
    case 3
    then show ?thesis by (simp add: memmove_def)
  qed
qed

theorem memmove_correct_witness:
  "memmove 0x11 0x10 3 (\<lambda>a. ucast a) 0x13 = 0x12 \<and> memmove 0x11 0x10 3 (\<lambda>a. ucast a) 0x14 = 0x14"
  using memmove_correct [of "0x10" 3 "0x11" "\<lambda>a. ucast a" "0x13"]
    memmove_correct [of "0x10" 3 "0x11" "\<lambda>a. ucast a" "0x14"] by simp

text \<open>
  \<^verbatim>\<open>strcmp\<close> returns on every pair of strings; the result is zero exactly for equal strings and
  negative exactly when the first is lexicographically smaller (bytes compared unsigned), and
  \<^verbatim>\<open>strncmp\<close> does the same on the first \<open>n\<close> bytes.
\<close>

theorem strcmp_correct:
  assumes "cstr m a as" "cstr m b bs"
  shows "\<exists>r. strcmp m a b = Some r \<and> (r = 0 \<longleftrightarrow> as = bs) \<and> (r < 0 \<longleftrightarrow> ord_class.lexordp as bs)
     \<and> (strncmp m a b n = 0 \<longleftrightarrow> take n as = take n bs)
     \<and> (strncmp m a b n < 0 \<longleftrightarrow> ord_class.lexordp (take n as) (take n bs))"
proof -
  have nz: "0 \<notin> set as" "0 \<notin> set bs" using assms cstr_nonzero by blast+
  then have nz': "0 \<notin> set (take n as)" "0 \<notin> set (take n bs)" by (meson in_set_takeD)+
  show ?thesis
    using strcmp_cstr [OF assms] strncmp_cstr [OF assms]
      str_diff_eq_0 [OF nz] str_diff_less_0 [OF nz] str_diff_eq_0 [OF nz'] str_diff_less_0 [OF nz'] by simp
qed

definition mem_ex :: mem where
  "mem_ex = (\<lambda>_. 0)(0x10 := 97, 0x11 := 98, 0x20 := 97, 0x21 := 99)"

theorem strcmp_correct_witness:
  "cstr mem_ex 0x10 [97, 98] \<and> cstr mem_ex 0x20 [97, 99] \<and>
   (\<exists>r. strcmp mem_ex 0x10 0x20 = Some r \<and> r < 0) \<and> strncmp mem_ex 0x10 0x20 1 = 0"
proof -
  have c: "cstr mem_ex 0x10 [97, 98]" "cstr mem_ex 0x20 [97, 99]" by (simp_all add: mem_ex_def)
  show ?thesis using strcmp_correct [OF c, of 1] c by auto
qed

end
