(* ===== verification/Proc.thy ===== *)
theory Proc
  imports Kheap Util
begin

text \<open>
  Processes and scheduling, \<^verbatim>\<open>kernel/sched.cpp\<close>: the process table, process numbers, the address
  spaces (page tables and frames taken from the physical memory manager), the initial contexts, the
  round-robin scheduler, and the operations \<^verbatim>\<open>sched_spawn\<close>, \<^verbatim>\<open>sched_kill\<close>, \<^verbatim>\<open>sched_wait\<close>. The state
  contains the states of \<open>Pmm\<close> and \<open>Kheap\<close>, the memory of \<open>Util\<close> (the kernel runs identity mapped), the
  clock of \<^verbatim>\<open>kernel/timer.cpp\<close> and the two registers the scheduler loads. \<^verbatim>\<open>cur\<close> and \<^verbatim>\<open>cur_idx\<close>, which the
  code always sets together, are one index. An operation that calls the kernel heap returns an
  option: \<open>None\<close> stands for a search of the heap that never ends, which the heap invariant excludes.
\<close>

section \<open>Clock\<close>

record clock =
  ticks :: u64
  seconds :: u32

definition timer_init :: clock where "timer_init = \<lparr>ticks = 0, seconds = 0\<rparr>"

definition timer_get_ticks :: "clock \<Rightarrow> u64" where "timer_get_ticks c = ticks c"
definition timer_get_seconds :: "clock \<Rightarrow> u64" where "timer_get_seconds c = ucast (seconds c)"

definition timer_irq :: "clock \<Rightarrow> clock" where
  "timer_irq c =
     (let c = c\<lparr>ticks := ticks c + 1\<rparr>
      in if ticks c mod 100 = 0 then c\<lparr>seconds := seconds c + 1\<rparr> else c)"


section \<open>State\<close>

datatype pstate = P_EMPTY | P_READY | P_RUNNING | P_SLEEPING | P_ZOMBIE

record process =
  pid :: u16
  pname :: bytes
  state :: pstate
  ctx :: u64
  kstack :: u64
  cr3 :: u64
  pml4 :: u64
  pdpt :: u64
  pd :: u64
  pt :: u64
  stk_pages :: "u64 list"
  user_code_pages :: nat
  code_frames :: "u64 list"
  waketick :: u64
  preempts :: u64
  exitcode :: u32
  start_tick :: u64

record sched =
  table :: "process list"
  cur :: "nat option"
  kernel_ctx :: u64
  kernel_ctx_valid :: bool
  sched_ready :: bool
  img_frames :: "u64 list"
  img_pages :: nat
  dev_pd :: u64
  frames :: pmm
  heap :: kheap
  memory :: mem
  clk :: clock
  tss_rsp0 :: u64
  hw_cr3 :: u64

definition MAX_PROC :: nat where "MAX_PROC = 32"
definition UCS :: u64 where "UCS = 0x2B"
definition UDS :: u64 where "UDS = 0x23"
definition KSTACK_SIZE :: u64 where "KSTACK_SIZE = 8192"
definition USER_IMG_BASE :: u64 where "USER_IMG_BASE = 0x40000000"
definition USER_WINDOW_END :: u64 where "USER_WINDOW_END = 0x40020000"
definition USER_STACK_TOP :: u64 where "USER_STACK_TOP = 0x4001F000"
definition USER_STACK_PAGES :: nat where "USER_STACK_PAGES = 4"
definition USER_CODE_MAX_PAGES :: nat where "USER_CODE_MAX_PAGES = 256"
definition BOOT_PML4 :: u64 where "BOOT_PML4 = 0x70000"
definition BOOT_PDPT :: u64 where "BOOT_PDPT = 0x71000"

lemmas sched_const_defs = MAX_PROC_def USER_IMG_BASE_def USER_WINDOW_END_def USER_STACK_TOP_def
  USER_STACK_PAGES_def USER_CODE_MAX_PAGES_def KSTACK_SIZE_def

text \<open>\<^verbatim>\<open>memset(&p, 0, sizeof(p))\<close>\<close>

definition zero_process :: process where
  "zero_process = \<lparr>pid = 0, pname = replicate 15 0, state = P_EMPTY, ctx = 0, kstack = 0, cr3 = 0, pml4 = 0, pdpt = 0,
     pd = 0, pt = 0, stk_pages = replicate 4 0, user_code_pages = 0, code_frames = replicate 256 0, waketick = 0,
     preempts = 0, exitcode = 0, start_tick = 0\<rparr>"

definition upd_proc :: "nat \<Rightarrow> (process \<Rightarrow> process) \<Rightarrow> sched \<Rightarrow> sched" where
  "upd_proc i f s = s\<lparr>table := (table s)[i := f (table s ! i)]\<rparr>"

text \<open>A 64-bit store, as the little-endian bytes the processor writes, and a 64-bit load.\<close>

definition store64 :: "u64 \<Rightarrow> u64 \<Rightarrow> mem \<Rightarrow> mem" where
  "store64 a v m = (\<lambda>x. if x - a < 8 then ucast (drop_bit (8 * unat (x - a)) v) else m x)"

definition load64 :: "mem \<Rightarrow> u64 \<Rightarrow> u64" where
  "load64 m a = word_rcat (map (\<lambda>k. m (a + of_nat k)) (rev [0..<8]))"


section \<open>Process numbers\<close>

definition pid_used :: "nat \<Rightarrow> sched \<Rightarrow> bool" where
  "pid_used p s \<longleftrightarrow> list_ex (\<lambda>q. state q \<noteq> P_EMPTY \<and> unat (pid q) = p) (table s)"

definition pid_alloc :: "sched \<Rightarrow> nat option" where
  "pid_alloc s = find_from (\<lambda>p. \<not> pid_used p s) 1 0x10000"

definition find_by_pid :: "u16 \<Rightarrow> sched \<Rightarrow> nat option" where
  "find_by_pid p s = find_from (\<lambda>i. state (table s ! i) \<noteq> P_EMPTY \<and> pid (table s ! i) = p) 0 MAX_PROC"


section \<open>Address spaces\<close>

definition alloc_zero_frame :: "sched \<Rightarrow> u64 \<times> sched" where
  "alloc_zero_frame s =
     (let (f, pm) = pmm_alloc_frame (frames s); s = s\<lparr>frames := pm\<rparr>
      in (f, if f \<noteq> 0 then s\<lparr>memory := memset f 0 4096 (memory s)\<rparr> else s))"

definition uaddr_ok :: "u64 \<Rightarrow> u64 \<Rightarrow> bool" where
  "uaddr_ok a n \<longleftrightarrow> a \<ge> USER_IMG_BASE \<and> n \<le> USER_WINDOW_END - USER_IMG_BASE \<and> a + n \<le> USER_WINDOW_END"

text \<open>\<^verbatim>\<open>copy_user_path\<close>: the bytes up to the terminating zero, from the user window \<open>um\<close>.\<close>

definition copy_user_path :: "mem \<Rightarrow> u64 \<Rightarrow> nat \<Rightarrow> bytes option" where
  "copy_user_path um src maxlen =
     (if \<not> uaddr_ok src (of_nat maxlen) then None
      else (case find_from (\<lambda>i. um (src + of_nat i) = 0) 0 maxlen of
              None \<Rightarrow> None
            | Some n \<Rightarrow> Some (map (\<lambda>i. um (src + of_nat i)) [0..<n])))"

text \<open>\<^verbatim>\<open>load_image\<close>: the embedded image lies at \<open>start\<close> and has \<open>sz\<close> bytes.\<close>

definition load_image :: "u64 \<Rightarrow> u64 \<Rightarrow> sched \<Rightarrow> sched" where
  "load_image start sz s =
     (if sz = 0 \<or> sz > 128 * 4096 then s\<lparr>img_pages := 0\<rparr>
      else
        let n = (sz + 4095) div 4096; (b, pm) = pmm_alloc_range (ucast n) (frames s); s = s\<lparr>frames := pm, img_pages := unat n\<rparr>
        in if b = 0 then s\<lparr>img_pages := 0\<rparr>
           else s\<lparr>img_frames := map (\<lambda>i. b + of_nat i * 4096) [0..<unat n] @ drop (unat n) (img_frames s),
                  memory := memcpy b start (unat sz) (memory s)\<rparr>)"

definition free_opt :: "u64 \<Rightarrow> sched \<Rightarrow> sched" where
  "free_opt f s = (if f \<noteq> 0 then s\<lparr>frames := pmm_free_frame f (frames s)\<rparr> else s)"

text \<open>The loops of \<^verbatim>\<open>vm_free\<close> over an array of frames: each is freed and its entry cleared.\<close>

primrec free_array :: "nat \<Rightarrow> u64 list \<times> sched \<Rightarrow> u64 list \<times> sched" where
  "free_array 0 x = x"
| "free_array (Suc i) x =
     (case free_array i x of (fs, s) \<Rightarrow> if fs ! i \<noteq> 0 then (fs[i := 0], free_opt (fs ! i) s) else (fs, s))"

definition vm_free :: "process \<Rightarrow> sched \<Rightarrow> process \<times> sched" where
  "vm_free p s =
     (let (cf, s) = (if user_code_pages p > 0 then free_array (user_code_pages p) (code_frames p, s) else (code_frames p, s));
          (sp, s) = free_array USER_STACK_PAGES (stk_pages p, s);
          s = free_opt (pt p) s; s = free_opt (pd p) s; s = free_opt (pdpt p) s; s = free_opt (pml4 p) s
      in (p\<lparr>code_frames := cf, stk_pages := sp, pt := 0, pd := 0, pdpt := 0, pml4 := 0, cr3 := 0\<rparr>, s))"

definition set_pte :: "u64 \<Rightarrow> nat \<Rightarrow> u64 \<Rightarrow> sched \<Rightarrow> sched" where
  "set_pte tbl i v s = s\<lparr>memory := store64 (tbl + 8 * of_nat i) v (memory s)\<rparr>"

primrec map_code :: "nat \<Rightarrow> u64 list \<Rightarrow> process \<times> sched \<Rightarrow> process \<times> sched" where
  "map_code 0 fs x = x"
| "map_code (Suc i) fs x =
     (case map_code i fs x of (p, s) \<Rightarrow>
        (p\<lparr>code_frames := (code_frames p)[i := fs ! i]\<rparr>, set_pte (pt p) i (fs ! i OR 0x5) s))"

primrec map_image :: "nat \<Rightarrow> u64 \<Rightarrow> sched \<Rightarrow> sched" where
  "map_image 0 t s = s"
| "map_image (Suc i) t s = (let s = map_image i t s in set_pte t i (img_frames s ! i OR 0x5) s)"

text \<open>The index of the page table entry of the \<open>k\<close>-th page of the stack.\<close>

definition stack_idx :: "nat \<Rightarrow> nat" where
  "stack_idx k = unat ((drop_bit 12 USER_STACK_TOP - 1 - of_nat k) AND 0x1FF)"

fun map_stack :: "nat list \<Rightarrow> process \<times> sched \<Rightarrow> process \<times> sched" where
  "map_stack [] x = x"
| "map_stack (k # ks) (p, s) =
     (case alloc_zero_frame s of (f, s) \<Rightarrow>
        if f = 0 then (p, s)
        else map_stack ks (p\<lparr>stk_pages := (stk_pages p)[k := f]\<rparr>, set_pte (pt p) (stack_idx k) (f OR 0x7) s))"

text \<open>The four frames of the page tables.\<close>

definition alloc_tables :: "process \<Rightarrow> sched \<Rightarrow> process \<times> sched" where
  "alloc_tables p s =
     (let (a, s) = alloc_zero_frame s; (b, s) = alloc_zero_frame s; (c, s) = alloc_zero_frame s; (d, s) = alloc_zero_frame s
      in (p\<lparr>pml4 := a, pdpt := b, pd := c, pt := d\<rparr>, s))"

definition no_tables :: "process \<Rightarrow> bool" where
  "no_tables p \<longleftrightarrow> pml4 p = 0 \<or> pdpt p = 0 \<or> pd p = 0 \<or> pt p = 0"

text \<open>The upper levels: the shared kernel directory, the device window and the path to the page table.\<close>

definition link_tables :: "process \<Rightarrow> sched \<Rightarrow> sched" where
  "link_tables p s =
     (let s = set_pte (pml4 p) 0 (pdpt p OR 0x7) s;
          s = set_pte (pdpt p) 0 (0x72000 OR 0x3) s;
          s = set_pte (pdpt p) 1 (pd p OR 0x7) s;
          s = (if dev_pd s \<noteq> 0 then set_pte (pdpt p) 3 (dev_pd s OR 0x3) s else s)
      in set_pte (pd p) 0 (pt p OR 0x7) s)"

text \<open>\<^verbatim>\<open>vm_build\<close>; \<open>None\<close> instead of the code frames is the null pointer.\<close>

definition vm_build :: "u64 list option \<Rightarrow> nat \<Rightarrow> process \<Rightarrow> sched \<Rightarrow> process \<times> sched" where
  "vm_build cf n_pages p s =
     (let (p, s) = alloc_tables p s
      in if no_tables p then vm_free p s
         else
           let s = link_tables p s;
               p = p\<lparr>user_code_pages := n_pages\<rparr>;
               (p, s) = (case cf of
                           Some fs \<Rightarrow> map_code (min n_pages USER_CODE_MAX_PAGES) fs (p, s)
                         | None \<Rightarrow> (p, map_image (img_pages s) (pt p) s));
               (p, s) = map_stack [0..<USER_STACK_PAGES] (p, s)
           in (p\<lparr>cr3 := pml4 p\<rparr>, s))"

definition vm_new :: "process \<Rightarrow> sched \<Rightarrow> process \<times> sched" where
  "vm_new p s = vm_build None 0 p s"

text \<open>
  A context is the frame that \<^verbatim>\<open>isr_common\<close> leaves: 22 words, register 15 at the lowest address,
  written downwards from the top of the kernel stack.
\<close>

definition push_words :: "u64 list \<Rightarrow> u64 \<Rightarrow> mem \<Rightarrow> u64 \<times> mem" where
  "push_words ws sp m = foldl (\<lambda>(sp, m) w. (sp - 8, store64 (sp - 8) w m)) (sp, m) ws"

definition build_initial_context2 :: "process \<Rightarrow> u64 \<Rightarrow> mem \<Rightarrow> u64 \<times> mem" where
  "build_initial_context2 p entry m =
     push_words ([UDS, USER_STACK_TOP, 0x202, UCS, entry, 0, 0] @ replicate 15 0) (kstack p + KSTACK_SIZE) m"

definition build_initial_context :: "process \<Rightarrow> mem \<Rightarrow> u64 \<times> mem" where
  "build_initial_context p m = build_initial_context2 p USER_IMG_BASE m"

text \<open>\<open>pr\<close> is the frame of the parent, a list of 22 words; word 14 is the register \<^verbatim>\<open>rax\<close>.\<close>

definition build_fork_context :: "process \<Rightarrow> u64 list \<Rightarrow> mem \<Rightarrow> u64 \<times> mem" where
  "build_fork_context c pr m =
     push_words ([pr ! 21, pr ! 20, pr ! 19, pr ! 18, pr ! 17, 0, 0] @ map (\<lambda>i. if i = 14 then 0 else pr ! i) (rev [0..<15]))
       (kstack c + KSTACK_SIZE) m"


section \<open>Operations\<close>

text \<open>\<^verbatim>\<open>vm_free(p); if (p.kstack) kfree((void*)p.kstack); p.state = P_EMPTY; p.pid = 0;\<close>\<close>

definition reap :: "nat \<Rightarrow> sched \<Rightarrow> sched option" where
  "reap i s =
     (let (p, s) = vm_free (table s ! i) s
      in case (if kstack p \<noteq> 0 then kfree (kstack p) (heap s) else Some (heap s)) of
           None \<Rightarrow> None
         | Some h \<Rightarrow> Some (s\<lparr>heap := h, table := (table s)[i := p\<lparr>pid := 0, state := P_EMPTY\<rparr>]\<rparr>))"

definition find_hole :: "sched \<Rightarrow> (nat option \<times> sched) option" where
  "find_hole s =
     (case find_from (\<lambda>i. state (table s ! i) = P_EMPTY) 0 MAX_PROC of
        Some i \<Rightarrow> Some (Some i, s)
      | None \<Rightarrow>
          (case find_from (\<lambda>i. state (table s ! i) = P_ZOMBIE) 0 MAX_PROC of
             None \<Rightarrow> Some (None, s)
           | Some i \<Rightarrow> (case reap i s of None \<Rightarrow> None | Some s \<Rightarrow> Some (Some i, s))))"

definition wake_sleepers :: "sched \<Rightarrow> sched" where
  "wake_sleepers s =
     s\<lparr>table := map (\<lambda>p. if state p = P_SLEEPING \<and> timer_get_ticks (clk s) \<ge> waketick p then p\<lparr>state := P_READY\<rparr> else p) (table s)\<rparr>"

text \<open>\<^verbatim>\<open>(cur_idx + k) % MAX_PROC\<close>, where \<^verbatim>\<open>cur_idx\<close> is \<open>- 1\<close> without a current process.\<close>

definition rr_idx :: "nat option \<Rightarrow> nat \<Rightarrow> nat" where
  "rr_idx c k = (case c of None \<Rightarrow> (k - 1) mod MAX_PROC | Some i \<Rightarrow> (i + k) mod MAX_PROC)"

definition pick_ready :: "nat option \<Rightarrow> sched \<Rightarrow> nat option" where
  "pick_ready skip s =
     (case find_from (\<lambda>k. state (table s ! rr_idx (cur s) k) = P_READY \<and> Some (rr_idx (cur s) k) \<noteq> skip) 1 (MAX_PROC + 1) of
        Some k \<Rightarrow> Some (rr_idx (cur s) k)
      | None \<Rightarrow> (case skip of Some i \<Rightarrow> if state (table s ! i) = P_READY then Some i else None | None \<Rightarrow> None))"

definition sched_init :: "u64 \<Rightarrow> u64 \<Rightarrow> sched \<Rightarrow> sched" where
  "sched_init start sz s =
     load_image start sz
       (s\<lparr>table := map (\<lambda>p. p\<lparr>state := P_EMPTY, pid := 0, cr3 := 0\<rparr>) (table s), cur := None, kernel_ctx := 0,
          kernel_ctx_valid := False, sched_ready := False\<rparr>)"

definition sched_go :: "sched \<Rightarrow> sched" where "sched_go s = s\<lparr>sched_ready := True\<rparr>"

text \<open>\<^verbatim>\<open>int nl = strlen(name); if (nl > 14) nl = 14; memcpy(p.name, name, nl); p.name[nl] = 0;\<close> into a zeroed field.\<close>

definition proc_name :: "bytes \<Rightarrow> bytes" where
  "proc_name name = take 14 name @ replicate (15 - length (take 14 name)) 0"

text \<open>
  The common prefix of \<^verbatim>\<open>sched_spawn\<close>, \<^verbatim>\<open>sched_exec_file\<close> and \<^verbatim>\<open>SYS_FORK\<close>: a slot, a kernel stack and a
  process number; \<open>Inl\<close> is the failing state. The entry is set up but not yet selectable.
\<close>

definition new_process :: "bytes \<Rightarrow> sched \<Rightarrow> (sched + nat \<times> process \<times> sched) option" where
  "new_process nm s =
     (case find_hole s of
        None \<Rightarrow> None
      | Some (None, s) \<Rightarrow> Some (Inl s)
      | Some (Some i, s) \<Rightarrow>
          (case kmalloc KSTACK_SIZE (heap s) of
             None \<Rightarrow> None
           | Some (k, h) \<Rightarrow>
               let s = s\<lparr>heap := h\<rparr>
               in if k = 0 then Some (Inl s)
                  else
                    (case pid_alloc s of
                       None \<Rightarrow> (case kfree k (heap s) of None \<Rightarrow> None | Some h \<Rightarrow> Some (Inl (s\<lparr>heap := h\<rparr>)))
                     | Some n \<Rightarrow>
                         Some (Inr (i, zero_process\<lparr>pid := of_nat n, kstack := k, pname := nm\<rparr>, s)))))"

text \<open>\<^verbatim>\<open>kfree(k); p.state = P_EMPTY; p.pid = 0; return -1;\<close>\<close>

definition abandon :: "nat \<Rightarrow> process \<Rightarrow> sched \<Rightarrow> (int \<times> sched) option" where
  "abandon i p s =
     (case kfree (kstack p) (heap s) of
        None \<Rightarrow> None
      | Some h \<Rightarrow> Some (- 1, s\<lparr>heap := h, table := (table s)[i := p\<lparr>state := P_EMPTY, pid := 0\<rparr>]\<rparr>))"

definition sched_spawn :: "bytes \<Rightarrow> sched \<Rightarrow> (int \<times> sched) option" where
  "sched_spawn name s =
     (case new_process (proc_name name) s of
        None \<Rightarrow> None
      | Some (Inl s) \<Rightarrow> Some (- 1, s)
      | Some (Inr (i, p, s)) \<Rightarrow>
          let (p, s) = vm_new p s
          in if cr3 p = 0 then abandon i p s
             else
               let p = p\<lparr>start_tick := timer_get_ticks (clk s)\<rparr>;
                   (sp, m) = build_initial_context p (memory s)
               in Some (int (unat (pid p)),
                        s\<lparr>memory := m, table := (table s)[i := p\<lparr>ctx := sp, state := P_READY\<rparr>]\<rparr>))"

text \<open>The switch to process \<open>i\<close>.\<close>

definition switch_to :: "nat \<Rightarrow> sched \<Rightarrow> sched" where
  "switch_to i s =
     (upd_proc i (\<lambda>p. p\<lparr>state := P_RUNNING\<rparr>) s)
       \<lparr>cur := Some i, tss_rsp0 := kstack (table s ! i) + KSTACK_SIZE, hw_cr3 := cr3 (table s ! i)\<rparr>"

definition sched_reschedule :: "u64 \<Rightarrow> sched \<Rightarrow> u64 \<times> sched" where
  "sched_reschedule c s =
     (let s = wake_sleepers s
      in case cur s of
           None \<Rightarrow>
             if \<not> sched_ready s then (c, s)
             else (case pick_ready None s of
                     None \<Rightarrow> (c, s)
                   | Some i \<Rightarrow>
                       let s = s\<lparr>kernel_ctx := c, kernel_ctx_valid := True\<rparr>;
                           s = upd_proc i (\<lambda>p. p\<lparr>preempts := preempts p + 1\<rparr>) (switch_to i s)
                       in (ctx (table s ! i), s))
         | Some self \<Rightarrow>
             let run_again = (state (table s ! self) = P_RUNNING);
                 s = (if run_again then upd_proc self (\<lambda>p. p\<lparr>state := P_READY\<rparr>) s else s);
                 s = upd_proc self (\<lambda>p. p\<lparr>preempts := preempts p + 1\<rparr>) s
             in case pick_ready (if run_again then Some self else None) s of
                  None \<Rightarrow>
                    let s = s\<lparr>cur := None, hw_cr3 := BOOT_PML4\<rparr>
                    in (if kernel_ctx_valid s then kernel_ctx s else c, s)
                | Some i \<Rightarrow>
                    let s = upd_proc self (\<lambda>p. p\<lparr>ctx := c\<rparr>) s; s = switch_to i s
                    in (ctx (table s ! i), s))"

definition sched_tick :: "u64 \<Rightarrow> sched \<Rightarrow> u64 \<times> sched" where
  "sched_tick c s = sched_reschedule c s"

definition sched_userpf_kill :: "u64 \<Rightarrow> sched \<Rightarrow> u64 \<times> sched" where
  "sched_userpf_kill c s =
     (case cur s of
        None \<Rightarrow> (c, s)
      | Some self \<Rightarrow> sched_reschedule c (upd_proc self (\<lambda>p. p\<lparr>exitcode := 128 + 14, state := P_ZOMBIE\<rparr>) s))"

text \<open>
  The system calls that give up the processor, parts of \<^verbatim>\<open>syscall_handle\<close>. \<^verbatim>\<open>r[OFF_RAX]\<close> is word 14 of the
  frame at \<open>c\<close>; without a current process every system call returns \<open>- 1\<close>.
\<close>

definition set_rax :: "u64 \<Rightarrow> u64 \<Rightarrow> sched \<Rightarrow> sched" where
  "set_rax c v s = s\<lparr>memory := store64 (c + 112) v (memory s)\<rparr>"

definition sys_exit :: "u64 \<Rightarrow> u64 \<Rightarrow> sched \<Rightarrow> u64 \<times> sched" where
  "sys_exit a0 c s =
     (case cur s of
        None \<Rightarrow> (c, set_rax c (- 1) s)
      | Some i \<Rightarrow>
          sched_reschedule c (set_rax c 0 (upd_proc i (\<lambda>p. p\<lparr>exitcode := ucast a0, state := P_ZOMBIE\<rparr>) s)))"

definition sys_sleep :: "u64 \<Rightarrow> u64 \<Rightarrow> sched \<Rightarrow> u64 \<times> sched" where
  "sys_sleep a0 c s =
     (case cur s of
        None \<Rightarrow> (c, set_rax c (- 1) s)
      | Some i \<Rightarrow>
          if a0 \<noteq> 0
          then sched_reschedule c (set_rax c 0
                 (upd_proc i (\<lambda>p. p\<lparr>state := P_SLEEPING, waketick := timer_get_ticks (clk s) + a0 div 10\<rparr>) s))
          else (c, set_rax c 0 s))"

definition sys_yield :: "u64 \<Rightarrow> sched \<Rightarrow> u64 \<times> sched" where
  "sys_yield c s =
     (case cur s of None \<Rightarrow> (c, set_rax c (- 1) s) | Some i \<Rightarrow> sched_reschedule c (set_rax c 0 s))"

definition sched_kill :: "u16 \<Rightarrow> sched \<Rightarrow> (int \<times> sched) option" where
  "sched_kill p s =
     (case find_by_pid p s of
        None \<Rightarrow> Some (- 1, s)
      | Some i \<Rightarrow>
          if cur s = Some i then Some (- 1, s)
          else (case reap i s of None \<Rightarrow> None | Some s \<Rightarrow> Some (0, s)))"

definition find_zombie :: "u16 \<Rightarrow> sched \<Rightarrow> nat option" where
  "find_zombie p s =
     find_from (\<lambda>i. state (table s ! i) = P_ZOMBIE \<and> (p = 0 \<or> pid (table s ! i) = p)) 0 MAX_PROC"

definition sched_wait :: "u16 \<Rightarrow> sched \<Rightarrow> (int \<times> sched) option" where
  "sched_wait p s =
     (case find_zombie p s of
        None \<Rightarrow> Some (- 1, s)
      | Some i \<Rightarrow> (case reap i s of None \<Rightarrow> None | Some s' \<Rightarrow> Some (sint (exitcode (table s ! i)), s')))"

definition sched_count :: "sched \<Rightarrow> nat" where
  "sched_count s = length (filter (\<lambda>p. state p \<noteq> P_EMPTY \<and> state p \<noteq> P_ZOMBIE) (table s))"

text \<open>\<^verbatim>\<open>mmio_map_device\<close>: the shared page directory of the device window.\<close>

primrec map_devices :: "nat \<Rightarrow> u64 \<Rightarrow> mem \<Rightarrow> mem" where
  "map_devices 0 t m = m"
| "map_devices (Suc i) t m =
     store64 (t + 8 * of_nat i) (ucast (0xC0000000 + push_bit 21 (of_nat i) :: u32) OR 0x83) (map_devices i t m)"

definition mmio_map_device :: "bool \<Rightarrow> sched \<Rightarrow> bool \<times> bool \<times> sched" where
  "mmio_map_device rdy s =
     (if rdy then (True, rdy, s)
      else
        let (f, pm) = pmm_alloc_frame (frames s); s = s\<lparr>frames := pm, dev_pd := f\<rparr>
        in if f = 0 then (False, rdy, s)
           else
             let m = memset f 0 4096 (memory s); m = map_devices 512 f m;
                 m = store64 (BOOT_PML4 + 24) (BOOT_PDPT OR 0x7) m; m = store64 (BOOT_PDPT + 24) (f OR 0x3) m
             in (True, True, s\<lparr>memory := m\<rparr>))"

end
