(* ===== verification/Net_Ip.thy ===== *)
theory Net_Ip
  imports Net_Wire Proc
begin

text \<open>
  The lower half of the network stack, \<^verbatim>\<open>kernel/net.cpp\<close>: Ethernet frames, the ARP cache, IPv4 output with
  fragmentation, ICMP, and the reassembly of fragments. The state of this part is the record \<open>net\<close>,
  which the records of the upper layers extend. Frames given to the driver are appended to
  \<open>nic_out\<close>. A wait for interrupts (\<^verbatim>\<open>while (...) cpu_hlt();\<close>) runs over the interrupts that arrive
  meanwhile, given as a list of state changes; \<open>None\<close> in its place is a caller with interrupts
  disabled, for whom the code never waits.
\<close>

section \<open>State\<close>

record arp_entry =
  ae_ip :: u32
  ae_mac :: bytes
  ae_valid :: bool
  ae_at :: u64

record icmp_ur =
  ur_pend :: bool
  ur_tcp :: bool
  ur_ip :: u32
  ur_sport :: u16
  ur_dport :: u16

record redir_entry =
  rd_used :: bool
  rd_dst :: u32
  rd_nexthop :: u32
  rd_until :: u64

record ip_frag =
  fr_used :: bool
  fr_src :: u32
  fr_id :: u16
  fr_proto :: u8
  fr_got :: u16
  fr_tot :: u16

record net =
  our_mac :: bytes
  our_ip :: u32
  our_mask :: u32
  gateway :: u32
  stat_rx :: u64
  stat_tx :: u64
  stat_rx_bytes :: u64
  arp_cache :: "arp_entry list"
  arp_waiting :: bool
  arp_done :: bool
  arp_want_ip :: u32
  arp_reply_mac :: bytes
  ping_active :: bool
  ping_done :: bool
  ping_ident :: u16
  ping_reply_src :: u32
  unreach :: icmp_ur
  redir :: redir_entry
  ethsnoop :: bool
  ethsnoop_n :: nat
  ethsnoop_len :: "u16 list"
  ethsnoop_frame :: "bytes list"
  eth_mute :: bool
  ip_id :: u16
  ipfrags :: "ip_frag list"
  ipf_buf :: "bytes list"
  ipf_expire :: u64
  ipf_armed :: bool
  nic_out :: "bytes list"
  ntime :: clock
  nintr :: intr

abbreviation now :: "'a net_scheme \<Rightarrow> u64" where
  "now s \<equiv> timer_get_ticks (ntime s)"

definition bcast_mac :: bytes where "bcast_mac = replicate 6 0xFF"
definition ARP_AGE :: u64 where "ARP_AGE = 600"
definition REDIR_TTL :: u64 where "REDIR_TTL = 600"
definition IP_MF :: u16 where "IP_MF = 0x2000"
definition IP_FRAG_MAX :: nat where "IP_FRAG_MAX = 1480"
definition BROADCAST :: u32 where "BROADCAST = 0xFFFFFFFF"


section \<open>Ethernet\<close>

definition eth_send :: "bytes \<Rightarrow> u16 \<Rightarrow> bytes \<Rightarrow> 'a net_scheme \<Rightarrow> 'a net_scheme" where
  "eth_send dmac type payload s =
     (let frame = take 6 dmac @ our_mac s @ [ucast (drop_bit 8 type), ucast (type AND 0xFF)] @ payload;
          n = ethsnoop_n s;
          s = (if ethsnoop s \<and> n < 4
               then s\<lparr>ethsnoop_len := (ethsnoop_len s)[n := of_nat (length payload + 14)],
                      ethsnoop_frame := (ethsnoop_frame s)[n := put_bytes (ethsnoop_frame s ! n) 0 (take 1500 frame)],
                      ethsnoop_n := n + 1\<rparr>
               else s);
          s = s\<lparr>stat_tx := stat_tx s + 1\<rparr>
      in if eth_mute s then s else s\<lparr>nic_out := nic_out s @ [frame]\<rparr>)"


section \<open>ARP\<close>

definition arp_find :: "u32 \<Rightarrow> 'a net_scheme \<Rightarrow> nat option" where
  "arp_find ip s = find_from (\<lambda>i. ae_valid (arp_cache s ! i) \<and> ae_ip (arp_cache s ! i) = ip) 0 8"

definition arp_hole :: "'a net_scheme \<Rightarrow> nat option" where
  "arp_hole s = find_from (\<lambda>i. \<not> ae_valid (arp_cache s ! i)) 0 8"

definition arp_put :: "nat \<Rightarrow> (arp_entry \<Rightarrow> arp_entry) \<Rightarrow> 'a net_scheme \<Rightarrow> 'a net_scheme" where
  "arp_put i f s = s\<lparr>arp_cache := (arp_cache s)[i := f (arp_cache s ! i)]\<rparr>"

definition arp_learn :: "u32 \<Rightarrow> bytes \<Rightarrow> 'a net_scheme \<Rightarrow> 'a net_scheme" where
  "arp_learn ip mac s =
     (if ip = BROADCAST then s
      else
        (case arp_find ip s of
           Some i \<Rightarrow> arp_put i (\<lambda>e. e\<lparr>ae_mac := take 6 mac, ae_at := now s\<rparr>) s
         | None \<Rightarrow>
             (case arp_hole s of
                Some i \<Rightarrow> arp_put i (\<lambda>e. e\<lparr>ae_valid := True, ae_ip := ip, ae_mac := take 6 mac, ae_at := now s\<rparr>) s
              | None \<Rightarrow> s)))"

definition arp_aging_poll :: "'a net_scheme \<Rightarrow> 'a net_scheme" where
  "arp_aging_poll s =
     s\<lparr>arp_cache := map (\<lambda>e. if ae_valid e \<and> now s - ae_at e \<ge> ARP_AGE then e\<lparr>ae_valid := False\<rparr> else e) (arp_cache s)\<rparr>"

definition arp_packet :: "u16 \<Rightarrow> u32 \<Rightarrow> bytes \<Rightarrow> 'a net_scheme \<Rightarrow> bytes" where
  "arp_packet oper tip dmac s =
     be16 1 @ be16 0x0800 @ [6, 4] @ be16 oper @ our_mac s @ be32 (our_ip s) @ take 6 dmac @ be32 tip"

definition arp_send :: "u16 \<Rightarrow> u32 \<Rightarrow> bytes \<Rightarrow> 'a net_scheme \<Rightarrow> 'a net_scheme" where
  "arp_send oper tip dmac s = eth_send dmac 0x0806 (arp_packet oper tip dmac s) s"

text \<open>\<^verbatim>\<open>while (!stop && !sys_intr_pending()) { sys_intr_poll(); cpu_hlt(); }\<close>\<close>

fun hlt_until :: "('a net_scheme \<Rightarrow> bool) \<Rightarrow> ('a net_scheme \<Rightarrow> 'a net_scheme) list \<Rightarrow> 'a net_scheme \<Rightarrow> 'a net_scheme" where
  "hlt_until stop [] s = s"
| "hlt_until stop (irq # irqs) s = (if stop s \<or> sys_intr_pending (nintr s) then s else hlt_until stop irqs (irq s))"

definition arp_resolve :: "('a net_scheme \<Rightarrow> 'a net_scheme) list option \<Rightarrow> u32 \<Rightarrow> 'a net_scheme \<Rightarrow> bytes option \<times> 'a net_scheme" where
  "arp_resolve irqs ip s =
     (if ip = BROADCAST then (Some bcast_mac, s)
      else
        (case arp_find ip s of
           Some i \<Rightarrow> (Some (ae_mac (arp_cache s ! i)), arp_put i (\<lambda>e. e\<lparr>ae_at := now s\<rparr>) s)
         | None \<Rightarrow>
             (case irqs of
                None \<Rightarrow> (None, s)
              | Some qs \<Rightarrow>
                  let s = arp_send 1 ip bcast_mac s;
                      s = s\<lparr>arp_want_ip := ip, arp_waiting := True, arp_done := False\<rparr>;
                      deadline = now s + 30;
                      s = hlt_until (\<lambda>s. arp_done s \<or> now s \<ge> deadline) qs s;
                      s = s\<lparr>arp_waiting := False\<rparr>
                  in if \<not> arp_done s then (None, s)
                     else
                       let mac = arp_reply_mac s
                       in (Some mac,
                           case arp_hole s of
                             Some i \<Rightarrow> arp_put i (\<lambda>e. e\<lparr>ae_valid := True, ae_ip := ip, ae_mac := mac\<rparr>) s
                           | None \<Rightarrow> s))))"

definition handle_arp :: "bytes \<Rightarrow> nat \<Rightarrow> 'a net_scheme \<Rightarrow> 'a net_scheme" where
  "handle_arp f len s =
     (if len < 42 then s
      else
        let p = drop 14 f
        in if rd16 p 0 \<noteq> 1 \<or> rd16 p 2 \<noteq> 0x0800 \<or> p ! 4 \<noteq> 6 \<or> p ! 5 \<noteq> 4 then s
           else
             let oper = rd16 p 6; sha = sub_bytes p 8 6; spa = rd32 p 14; tpa = rd32 p 24;
                 s = arp_learn spa sha s
             in if oper = 1 \<and> tpa = our_ip s then arp_send 2 spa sha s
                else if oper = 2 \<and> arp_waiting s \<and> spa = arp_want_ip s then s\<lparr>arp_reply_mac := sha, arp_done := True\<rparr>
                else s)"


section \<open>IPv4 output\<close>

text \<open>The header: \<^verbatim>\<open>buf[0] = 0x45 ... wr16(buf + 10, ip_checksum(buf, 20))\<close>\<close>

definition ip_header :: "u16 \<Rightarrow> u16 \<Rightarrow> u16 \<Rightarrow> u8 \<Rightarrow> u32 \<Rightarrow> u32 \<Rightarrow> bytes" where
  "ip_header tot ident frag proto src dst =
     (let buf = [0x45, 0] @ be16 tot @ be16 ident @ be16 frag @ [64, proto] @ be16 0 @ be32 src @ be32 dst
      in wr16 10 (ip_checksum buf) buf)"

text \<open>
  The loop over the fragments. The offset is a 16-bit variable in the code and the last addition
  brings it to the length, so it does not wrap.
\<close>

function send_fragments :: "nat \<Rightarrow> u32 \<Rightarrow> bytes \<Rightarrow> u8 \<Rightarrow> u16 \<Rightarrow> bytes \<Rightarrow> 'a net_scheme \<Rightarrow> 'a net_scheme" where
  "send_fragments off dst dmac proto ident payload s =
     (if off < length payload
      then
        let chunk = min (length payload - off) IP_FRAG_MAX;
            last = (length payload - off \<le> IP_FRAG_MAX);
            frag = (if last then 0 else IP_MF) OR of_nat (off div 8);
            s = eth_send dmac 0x0800 (ip_header (of_nat (20 + chunk)) ident frag proto (our_ip s) dst @ sub_bytes payload off chunk) s
        in send_fragments (off + chunk) dst dmac proto ident payload s
      else s)"
  by auto
termination
  by (relation "measure (\<lambda>(off, _, _, _, _, payload, _). length payload - off)") (auto simp: IP_FRAG_MAX_def)

declare send_fragments.simps [simp del]

text \<open>The next hop: the gateway, or the better one of an ICMP redirect, for other networks.\<close>

definition next_hop :: "u32 \<Rightarrow> 'a net_scheme \<Rightarrow> u32" where
  "next_hop dst s =
     (if (dst AND our_mask s) \<noteq> (our_ip s AND our_mask s)
      then if rd_used (redir s) \<and> rd_dst (redir s) = dst \<and> now s < rd_until (redir s) then rd_nexthop (redir s) else gateway s
      else dst)"

definition ip_output :: "u32 \<Rightarrow> bytes \<Rightarrow> u8 \<Rightarrow> bytes \<Rightarrow> 'a net_scheme \<Rightarrow> 'a net_scheme" where
  "ip_output dst dmac proto payload s =
     (let ident = ip_id s + 1; s = s\<lparr>ip_id := ident\<rparr>
      in if length payload > IP_FRAG_MAX then send_fragments 0 dst dmac proto ident payload s
         else eth_send dmac 0x0800 (ip_header (of_nat (20 + length payload)) ident 0 proto (our_ip s) dst @ payload) s)"

definition ip_send :: "('a net_scheme \<Rightarrow> 'a net_scheme) list option \<Rightarrow> u32 \<Rightarrow> bytes option \<Rightarrow> u8 \<Rightarrow> bytes \<Rightarrow> 'a net_scheme \<Rightarrow> 'a net_scheme" where
  "ip_send irqs dst dmac proto payload s =
     (case dmac of
        Some mac \<Rightarrow> ip_output dst mac proto payload s
      | None \<Rightarrow>
          (case arp_resolve irqs (next_hop dst s) s of
             (None, s) \<Rightarrow> s
           | (Some mac, s) \<Rightarrow> ip_output dst mac proto payload s))"


section \<open>ICMP\<close>

text \<open>\<open>ip\<close> is the packet with all that follows it in the buffer, \<open>len\<close> its length.\<close>

definition echo_reply :: "bytes \<Rightarrow> bytes" where
  "echo_reply icmp =
     (let resp = take 512 icmp; resp = put_bytes resp 0 [0, 0, 0, 0] in wr16 2 (ip_checksum resp) resp)"

definition icmp_unreach :: "bytes \<Rightarrow> nat \<Rightarrow> 'a net_scheme \<Rightarrow> 'a net_scheme" where
  "icmp_unreach icmp iclen s =
     (if iclen < 8 + 20 + 8 then s
      else
        let oip = drop 8 icmp; oihl = unat (oip ! 0 AND 0x0F) * 4
        in if oihl < 20 \<or> iclen < 8 + oihl + 8 then s
           else s\<lparr>unreach := \<lparr>ur_pend = True, ur_tcp = (oip ! 9 = 6), ur_ip = rd32 oip 12, ur_sport = rd16 oip oihl,
                     ur_dport = rd16 oip (oihl + 2)\<rparr>\<rparr>)"

definition on_link :: "u32 \<Rightarrow> 'a net_scheme \<Rightarrow> bool" where
  "on_link a s \<longleftrightarrow> our_mask s = 0 \<or> (a AND our_mask s) = (our_ip s AND our_mask s)"

definition icmp_redirect :: "u32 \<Rightarrow> bytes \<Rightarrow> nat \<Rightarrow> 'a net_scheme \<Rightarrow> 'a net_scheme" where
  "icmp_redirect src icmp iclen s =
     (if iclen < 8 + 20 + 8 then s
      else if \<not> on_link src s then s
      else
        let ngw = rd32 icmp 4
        in if ngw = 0 \<or> ngw = BROADCAST \<or> ngw = our_ip s then s
           else if \<not> on_link ngw s then s
           else
             let oip = drop 8 icmp; oihl = unat (oip ! 0 AND 0x0F) * 4
             in if oihl < 20 \<or> iclen < 8 + oihl then s
                else
                  let dst = rd32 oip 16
                  in if dst = 0 \<or> dst = BROADCAST \<or> dst = our_ip s then s
                     else s\<lparr>redir := \<lparr>rd_used = True, rd_dst = dst, rd_nexthop = ngw, rd_until = now s + REDIR_TTL\<rparr>\<rparr>)"

definition handle_icmp :: "bytes \<Rightarrow> nat \<Rightarrow> bytes option \<Rightarrow> 'a net_scheme \<Rightarrow> 'a net_scheme" where
  "handle_icmp ip len eth_src s =
     (let ihl = unat (ip ! 0 AND 0x0F) * 4
      in if ihl < 20 \<or> len < ihl + 8 then s
         else
           let icmp = drop ihl ip; iclen = len - ihl
           in if ip_checksum (take iclen icmp) \<noteq> 0 then s
              else if icmp ! 0 = 8 \<and> icmp ! 1 = 0 then ip_send None (rd32 ip 12) eth_src 1 (echo_reply (take iclen icmp)) s
              else if icmp ! 0 = 0 \<and> ping_active s
              then if rd16 icmp 4 = ping_ident s then s\<lparr>ping_reply_src := rd32 ip 12, ping_done := True\<rparr> else s
              else if icmp ! 0 = 3 then icmp_unreach icmp iclen s
              else if icmp ! 0 = 5 then icmp_redirect (rd32 ip 12) icmp iclen s
              else s)"

definition icmp_time_exceeded :: "u32 \<Rightarrow> bytes \<Rightarrow> 'a net_scheme \<Rightarrow> 'a net_scheme" where
  "icmp_time_exceeded src hdr s =
     (let m = [11, 1, 0, 0, 0, 0, 0, 0] @ take 28 hdr in ip_send None src None 1 (wr16 2 (ip_checksum m) m) s)"


section \<open>IPv4 input\<close>

text \<open>The walk over the options of the header; the number of options bounds the recursion.\<close>

function ip_opts_ok :: "bytes \<Rightarrow> nat \<Rightarrow> nat \<Rightarrow> bool" where
  "ip_opts_ok ip p ihl =
     (if p < ihl
      then
        if ip ! p = 0 then True
        else if ip ! p = 1 then ip_opts_ok ip (p + 1) ihl
        else if p + 1 \<ge> ihl \<or> ip ! (p + 1) < 2 \<or> p + unat (ip ! (p + 1)) > ihl then False
        else if ip ! p = 0x83 \<or> ip ! p = 0x89 then False
        else ip_opts_ok ip (p + unat (ip ! (p + 1))) ihl
      else True)"
  by auto
termination
proof (relation "measure (\<lambda>(_, p, ihl). ihl - p)", goal_cases)
  case (3 ip p ihl)
  then have "2 \<le> unat (ip ! (p + 1))" by (simp add: word_less_nat_alt)
  then show ?case using 3 by auto
qed auto

declare ip_opts_ok.simps [simp del]

definition ip_valid :: "bytes \<Rightarrow> nat \<Rightarrow> bool" where
  "ip_valid ip iplen \<longleftrightarrow>
     (let ihl = unat (ip ! 0 AND 0x0F) * 4
      in 20 \<le> iplen \<and> drop_bit 4 (ip ! 0) = 4 \<and> 20 \<le> ihl \<and> ihl \<le> iplen \<and> ip ! 8 \<noteq> 0 \<and> ip_checksum (take ihl ip) = 0
         \<and> (ihl > 20 \<longrightarrow> ip_opts_ok ip 20 ihl))"

definition ipf_clear :: "nat \<Rightarrow> 'a net_scheme \<Rightarrow> 'a net_scheme" where
  "ipf_clear i s = s\<lparr>ipfrags := (ipfrags s)[i := (ipfrags s ! i)\<lparr>fr_used := False, fr_got := 0, fr_tot := 0\<rparr>]\<rparr>"

definition ipf_slot :: "u32 \<Rightarrow> u16 \<Rightarrow> u8 \<Rightarrow> 'a net_scheme \<Rightarrow> nat option" where
  "ipf_slot src ident proto s =
     (case find_from (\<lambda>i. let F = ipfrags s ! i in fr_used F \<and> fr_src F = src \<and> fr_id F = ident \<and> fr_proto F = proto) 0 2 of
        Some i \<Rightarrow> Some i
      | None \<Rightarrow> find_from (\<lambda>i. \<not> fr_used (ipfrags s ! i)) 0 2)"

text \<open>The buffer of a complete datagram: its length and its checksum are put into the stored header.\<close>

definition ipf_finish :: "bytes \<Rightarrow> u16 \<Rightarrow> bytes" where
  "ipf_finish buf tot =
     (let buf = wr16 2 (20 + tot) buf; buf = wr16 6 0 buf; buf = wr16 10 0 buf in wr16 10 (ip_checksum (take 20 buf)) buf)"

text \<open>
  \<^verbatim>\<open>handle_ipv4\<close> up to the call of \<^verbatim>\<open>ip_dispatch\<close>: the packet to dispatch with its length, if there is one,
  and the slot to clear afterwards.
\<close>

definition ip_input :: "bytes \<Rightarrow> nat \<Rightarrow> 'a net_scheme \<Rightarrow> (bytes \<times> nat \<times> nat option) option \<times> 'a net_scheme" where
  "ip_input ip iplen s =
     (if \<not> ip_valid ip iplen then (None, s)
      else
        let ihl = unat (ip ! 0 AND 0x0F) * 4; frag = rd16 ip 6; mf = (frag AND 0x2000 \<noteq> 0); off = unat (frag AND 0x1FFF) * 8
        in if \<not> mf \<and> off = 0 then (Some (ip, iplen, None), s)
           else
             let pl = iplen - ihl
             in if off + pl > 65535 - 20 then (None, s)
                else
                  let src = rd32 ip 12; ident = rd16 ip 4
                  in case ipf_slot src ident (ip ! 9) s of
                       None \<Rightarrow> (None, s)
                     | Some i \<Rightarrow>
                         let F = ipfrags s ! i;
                             buf = put_bytes (ipf_buf s ! i) 0 (0x45 # sub_bytes ip 1 19);
                             F = (if off = 0 then \<lparr>fr_used = True, fr_src = src, fr_id = ident, fr_proto = ip ! 9, fr_got = 0, fr_tot = 0\<rparr> else F);
                             buf = put_bytes buf (20 + off) (sub_bytes ip ihl pl);
                             fin = off + pl;
                             F = (if fin > unat (fr_got F) then F\<lparr>fr_got := of_nat fin\<rparr> else F);
                             F = (if \<not> mf then F\<lparr>fr_tot := of_nat fin\<rparr> else F);
                             ready = (fr_tot F \<noteq> 0 \<and> fr_got F \<ge> fr_tot F);
                             buf = (if ready then ipf_finish buf (fr_tot F) else buf);
                             s = s\<lparr>ipfrags := (ipfrags s)[i := F], ipf_buf := (ipf_buf s)[i := buf], ipf_expire := now s + 200, ipf_armed := True\<rparr>
                         in (if ready then Some (buf, 20 + unat (fr_tot F), Some i) else None, s))"

definition frag_expiry_poll :: "'a net_scheme \<Rightarrow> 'a net_scheme" where
  "frag_expiry_poll s =
     (if \<not> ipf_armed s \<or> now s < ipf_expire s then s
      else
        let report = (\<lambda>i s. if fr_used (ipfrags s ! i) then icmp_time_exceeded (fr_src (ipfrags s ! i)) (ipf_buf s ! i) s else s);
            s = report 1 (report 0 s);
            s = ipf_clear 1 (ipf_clear 0 s)
        in s\<lparr>ipf_armed := False\<rparr>)"

end
