(* ===== verification/Net_Frag.thy ===== *)
theory Net_Frag
  imports Net_Ip
begin

text \<open>
  Theorems on IPv4: the header that is sent passes the checks of the receiver, and what \<^verbatim>\<open>ip_send\<close> cuts into
  fragments is put together again by \<^verbatim>\<open>handle_ipv4\<close>.
\<close>

section \<open>Headers\<close>

definition raw_header :: "u16 \<Rightarrow> u16 \<Rightarrow> u16 \<Rightarrow> u8 \<Rightarrow> u32 \<Rightarrow> u32 \<Rightarrow> bytes" where
  "raw_header tot ident frag proto src dst =
     [0x45, 0] @ be16 tot @ be16 ident @ be16 frag @ [64, proto] @ be16 0 @ be32 src @ be32 dst"

lemma ip_header_alt: "ip_header tot ident frag proto src dst = wr16 10 (ip_checksum (raw_header tot ident frag proto src dst)) (raw_header tot ident frag proto src dst)"
  by (simp add: ip_header_def raw_header_def Let_def)

lemma length_raw_header [simp]: "length (raw_header tot ident frag proto src dst) = 20"
  by (simp add: raw_header_def)

lemma length_ip_header [simp]: "length (ip_header tot ident frag proto src dst) = 20"
  by (simp add: ip_header_alt)

lemma ip_header_nth: "i < 20 \<Longrightarrow> i \<noteq> 10 \<Longrightarrow> i \<noteq> 11 \<Longrightarrow> ip_header tot ident frag proto src dst ! i = raw_header tot ident frag proto src dst ! i"
  by (auto simp: ip_header_alt wr16_def nth_put_bytes)

lemma rd_append: "p + 2 \<le> length h \<Longrightarrow> rd16 (h @ x) p = rd16 h p" "p + 4 \<le> length h \<Longrightarrow> rd32 (h @ x) p = rd32 h p"
  by (auto intro!: rd_cong simp: nth_append)

lemma ip_header_fields:
  assumes h_def: "h = ip_header tot ident frag proto src dst"
  shows "h ! 0 = 0x45" "h ! 8 = 64" "h ! 9 = proto" "rd16 h 2 = tot" "rd16 h 4 = ident" "rd16 h 6 = frag" "rd32 h 12 = src" "rd32 h 16 = dst"
proof -
  have n: "h ! i = raw_header tot ident frag proto src dst ! i" if "i < 20" "i \<noteq> 10" "i \<noteq> 11" for i using ip_header_nth that by (simp add: h_def)
  have r: "raw_header tot ident frag proto src dst = [0x45, 0] @ be16 tot @ be16 ident @ be16 frag @ [64, proto] @ be16 0 @ be32 src @ be32 dst" by (rule raw_header_def)
  have b: "be16 v = [be16 v ! 0, be16 v ! 1]" "be32 w = [be32 w ! 0, be32 w ! 1, be32 w ! 2, be32 w ! 3]" for v w by (simp_all add: be16_def be32_def)
  show "h ! 0 = 0x45" "h ! 8 = 64" "h ! 9 = proto" by (simp_all add: n r nth_append)
  have f16: "rd16 h p = v" if "h ! p = be16 v ! 0" "h ! (p + 1) = be16 v ! 1" for p v
    using rd_cong(1) [of h p "be16 v" 0] that rd16_be16 by simp
  have f32: "rd32 h p = v" if "h ! p = be32 v ! 0" "h ! (p + 1) = be32 v ! 1" "h ! (p + 2) = be32 v ! 2" "h ! (p + 3) = be32 v ! 3" for p v
    using rd_cong(2) [of h p "be32 v" 0] that rd32_be32 by (simp add: numeral_2_eq_2)
  show "rd16 h 2 = tot" "rd16 h 4 = ident" "rd16 h 6 = frag" by (rule f16; simp add: n r nth_append)+
  show "rd32 h 12 = src" "rd32 h 16 = dst" by (rule f32; simp add: n r nth_append)+
qed

lemma ip_header_checksum: "ip_checksum (ip_header tot ident frag proto src dst) = 0"
proof -
  have z: "wr16 10 0 (raw_header tot ident frag proto src dst) = raw_header tot ident frag proto src dst"
    by (simp add: raw_header_def wr16_def put_bytes_def be16_def be32_def)
  show ?thesis
    using checksum_field [of 10 "raw_header tot ident frag proto src dst" 0] unfolding ip_header_alt ip_checksum_def by (simp add: z)
qed

lemma header_nibbles: "unat ((0x45 :: u8) AND 0x0F) = 5" "drop_bit 4 (0x45 :: u8) = 4"
  by (simp_all add: drop_bit_eq_div)

lemma ip_header_valid:
  assumes "length x \<le> n" "iplen = 20 + n"
  shows "ip_valid (ip_header tot ident frag proto src dst @ x) iplen"
proof -
  have "(ip_header tot ident frag proto src dst @ x) ! i = ip_header tot ident frag proto src dst ! i" if "i < 20" for i
    using that by (simp add: nth_append)
  then show ?thesis
    using assms ip_header_checksum header_nibbles by (simp add: ip_valid_def Let_def ip_header_fields [OF refl])
qed


section \<open>Fragments\<close>

text \<open>The IP packets that \<^verbatim>\<open>ip_send\<close> makes of a payload from the offset \<open>off\<close> on.\<close>

function fragments :: "nat \<Rightarrow> u32 \<Rightarrow> u32 \<Rightarrow> u8 \<Rightarrow> u16 \<Rightarrow> bytes \<Rightarrow> bytes list" where
  "fragments off src dst proto ident payload =
     (if off < length payload
      then (let chunk = min (length payload - off) 1480
            in (ip_header (of_nat (20 + chunk)) ident ((if length payload - off \<le> 1480 then 0 else IP_MF) OR of_nat (off div 8)) proto src dst
                  @ sub_bytes payload off chunk) # fragments (off + chunk) src dst proto ident payload)
      else [])"
  by auto
termination
  by (relation "measure (\<lambda>(off, _, _, _, _, payload). length payload - off)") auto

declare fragments.simps [simp del]

lemma eth_send_fields [simp]:
  "our_mac (eth_send dmac t x s) = our_mac s" "our_ip (eth_send dmac t x s) = our_ip s" "eth_mute (eth_send dmac t x s) = eth_mute s"
  by (simp_all add: eth_send_def Let_def)

lemma nic_out_eth_send:
  "\<not> eth_mute s \<Longrightarrow> nic_out (eth_send dmac t x s) = nic_out s @ [take 6 dmac @ our_mac s @ [ucast (drop_bit 8 t), ucast (t AND 0xFF)] @ x]"
  by (simp add: eth_send_def Let_def)

lemma send_fragments_out:
  assumes "\<not> eth_mute s" "length dmac = 6" "length (our_mac s) = 6"
  shows "\<exists>frames. nic_out (send_fragments off dst dmac proto ident payload s) = nic_out s @ frames
     \<and> map (drop 14) frames = fragments off (our_ip s) dst proto ident payload"
  using assms
proof (induction off dst dmac proto ident payload s rule: send_fragments.induct)
  case (1 off dst dmac proto ident payload s)
  show ?case
  proof (cases "off < length payload")
    case False
    then show ?thesis by (simp add: send_fragments.simps fragments.simps)
  next
    case True
    define chunk where "chunk = min (length payload - off) 1480"
    define pkt where "pkt = ip_header (of_nat (20 + chunk)) ident ((if length payload - off \<le> 1480 then 0 else IP_MF) OR of_nat (off div 8)) proto (our_ip s) dst
        @ sub_bytes payload off chunk"
    define s1 where "s1 = eth_send dmac 0x0800 pkt s"
    have e: "send_fragments off dst dmac proto ident payload s = send_fragments (off + chunk) dst dmac proto ident payload s1"
      using True by (subst send_fragments.simps) (simp add: Let_def s1_def pkt_def chunk_def IP_FRAG_MAX_def)
    obtain frames where f: "nic_out (send_fragments (off + chunk) dst dmac proto ident payload s1) = nic_out s1 @ frames"
      "map (drop 14) frames = fragments (off + chunk) (our_ip s1) dst proto ident payload"
      using 1(1) [OF True refl refl refl refl] 1(2-4) unfolding IP_FRAG_MAX_def s1_def pkt_def chunk_def by auto
    define fr where "fr = take 6 dmac @ our_mac s @ [ucast (drop_bit 8 (0x0800 :: u16)), ucast ((0x0800 :: u16) AND 0xFF)] @ pkt"
    have o: "nic_out s1 = nic_out s @ [fr]" unfolding s1_def fr_def by (rule nic_out_eth_send [OF 1(2)])
    have d: "drop 14 fr = pkt" using 1(3,4) by (simp add: fr_def)
    have "fragments off (our_ip s) dst proto ident payload = pkt # fragments (off + chunk) (our_ip s) dst proto ident payload"
      using True by (subst fragments.simps) (simp add: Let_def pkt_def chunk_def)
    then have "map (drop 14) (fr # frames) = fragments off (our_ip s) dst proto ident payload" using f(2) d by (simp add: s1_def)
    moreover have "nic_out (send_fragments off dst dmac proto ident payload s) = nic_out s @ (fr # frames)" using e f(1) o by simp
    ultimately show ?thesis by blast
  qed
qed

text \<open>Fields of the fragment at \<open>off\<close>, a multiple of 1480 below \<open>2 ^ 16\<close>.\<close>

lemma frag_field:
  assumes "8 dvd off" "off \<le> 65515"
  shows "unat ((IP_MF OR of_nat (off div 8)) AND 0x1FFF) * 8 = off" "(IP_MF OR of_nat (off div 8)) AND 0x2000 \<noteq> 0"
    "unat ((0 OR of_nat (off div 8)) AND (0x1FFF :: u16)) * 8 = off" "(0 OR of_nat (off div 8)) AND 0x2000 = (0 :: u16)"
proof -
  define w where "w = (of_nat (off div 8) :: u16)"
  have lt: "off div 8 < 2 ^ 13" using assms(2) by (simp add: div_less_iff_less_mult)
  have uw: "unat w = off div 8" using lt by (simp add: w_def unat_of_nat)
  have tb: "take_bit 13 w = w" using lt uw by (simp add: word_unat_eq_iff unsigned_take_bit_eq take_bit_nat_eq_self)
  have m13: "(0x1FFF :: u16) = mask 13" by (simp add: mask_eq_exp_minus_1)
  have b13: "(0x2000 :: u16) = 2 ^ 13" by simp
  have nb: "\<not> bit w 13" using tb by (metis bit_take_bit_iff less_irrefl)
  have a: "w AND 0x1FFF = w" unfolding m13 using tb by (simp add: take_bit_eq_mask)
  have c: "IP_MF AND 0x1FFF = 0" "IP_MF AND 0x2000 = IP_MF" by (simp_all add: IP_MF_def)
  have d: "w AND 0x2000 = 0"
    unfolding b13 and_exp_eq_0_iff_not_bit by (rule nb)
  have "(IP_MF OR w) AND 0x1FFF = w" using a c(1) by (simp add: bit.conj_disj_distrib2)
  then show "unat ((IP_MF OR of_nat (off div 8)) AND 0x1FFF) * 8 = off" using uw assms(1) by (simp add: w_def [symmetric])
  have "(IP_MF OR w) AND 0x2000 = IP_MF" using c(2) d by (simp add: bit.conj_disj_distrib2)
  then show "(IP_MF OR of_nat (off div 8)) AND 0x2000 \<noteq> 0" by (simp add: w_def [symmetric] IP_MF_def)
  show "unat ((0 OR of_nat (off div 8)) AND (0x1FFF :: u16)) * 8 = off" using a uw assms(1) by (simp add: w_def [symmetric])
  show "(0 OR of_nat (off div 8)) AND 0x2000 = (0 :: u16)" using d by (simp add: w_def)
qed


section \<open>Reassembly\<close>

text \<open>The entry and the buffer of a slot after a fragment.\<close>

definition frag_entry :: "bool \<Rightarrow> nat \<Rightarrow> nat \<Rightarrow> u32 \<Rightarrow> u16 \<Rightarrow> u8 \<Rightarrow> ip_frag \<Rightarrow> ip_frag" where
  "frag_entry mf off n src ident proto F =
     (let F = (if off = 0 then \<lparr>fr_used = True, fr_src = src, fr_id = ident, fr_proto = proto, fr_got = 0, fr_tot = 0\<rparr> else F);
          F = (if off + n > unat (fr_got F) then F\<lparr>fr_got := of_nat (off + n)\<rparr> else F)
      in if \<not> mf then F\<lparr>fr_tot := of_nat (off + n)\<rparr> else F)"

definition frag_buffer :: "bytes \<Rightarrow> nat \<Rightarrow> bytes \<Rightarrow> bytes \<Rightarrow> bytes" where
  "frag_buffer h off x buf = put_bytes (put_bytes buf 0 (0x45 # sub_bytes h 1 19)) (20 + off) x"

lemma input_fragment:
  assumes h: "h = ip_header tot ident frag proto src dst" and off: "unat (frag AND 0x1FFF) * 8 = off" and mf: "mf = (frag AND 0x2000 \<noteq> 0)"
    and len: "off + length x \<le> 65515" "mf \<or> off \<noteq> 0" and slot: "ipf_slot src ident proto s = Some i"
  shows "ip_input (h @ x) (length (h @ x)) s =
     (let F = frag_entry mf off (length x) src ident proto (ipfrags s ! i);
          ready = (fr_tot F \<noteq> 0 \<and> fr_got F \<ge> fr_tot F);
          buf = frag_buffer h off x (ipf_buf s ! i);
          buf = (if ready then ipf_finish buf (fr_tot F) else buf)
      in (if ready then Some (buf, 20 + unat (fr_tot F), Some i) else None,
          s\<lparr>ipfrags := (ipfrags s)[i := F], ipf_buf := (ipf_buf s)[i := buf], ipf_expire := now s + 200, ipf_armed := True\<rparr>))"
proof -
  have lh: "length h = 20" by (simp add: h)
  have v: "ip_valid (h @ x) (length (h @ x))" unfolding h by (rule ip_header_valid [of x "length x"]) simp_all
  have n: "(h @ x) ! 0 = 0x45" "(h @ x) ! 9 = proto" using ip_header_fields [OF h] lh by (simp_all add: nth_append)
  have r: "rd16 (h @ x) 6 = frag" "rd16 (h @ x) 4 = ident" "rd32 (h @ x) 12 = src" using ip_header_fields [OF h] lh by (simp_all add: rd_append)
  have sb: "sub_bytes (h @ x) 1 19 = sub_bytes h 1 19" "sub_bytes (h @ x) 20 (length x) = x" using lh by (simp_all add: sub_bytes_def)
  have pl: "5 * 4 = (20 :: nat)" "length (h @ x) - 20 = length x" using lh by simp_all
  have g: "(\<not> ip_valid (h @ x) (length (h @ x))) = False" "(\<not> (frag AND 0x2000 \<noteq> 0) \<and> off = 0) = False" "(65535 - 20 < off + length x) = False"
    using v mf len by auto
  show ?thesis
    unfolding ip_input_def Let_def n r header_nibbles off pl g if_False slot option.case sb frag_entry_def frag_buffer_def mf ..
qed

lemma find2: "find_from P 0 2 = (if P 0 then Some 0 else if P 1 then Some 1 else None)"
  by (simp add: find_from.simps numeral_2_eq_2)

definition frag_match :: "u32 \<Rightarrow> u16 \<Rightarrow> u8 \<Rightarrow> ip_frag \<Rightarrow> bool" where
  "frag_match src ident proto F \<longleftrightarrow> fr_used F \<and> fr_src F = src \<and> fr_id F = ident \<and> fr_proto F = proto"

lemma ipf_slot_alt: "ipf_slot src ident proto s =
    (case find_from (\<lambda>i. frag_match src ident proto (ipfrags s ! i)) 0 2 of Some i \<Rightarrow> Some i | None \<Rightarrow> find_from (\<lambda>i. \<not> fr_used (ipfrags s ! i)) 0 2)"
  by (simp add: ipf_slot_def frag_match_def Let_def)

definition bufs_ok :: "'a net_scheme \<Rightarrow> bool" where
  "bufs_ok s \<longleftrightarrow> length (ipfrags s) = 2 \<and> length (ipf_buf s) = 2 \<and> (\<forall>i < 2. length (ipf_buf s ! i) = 65556)"

text \<open>Slot \<open>i\<close> has the payload up to \<open>off\<close>.\<close>

definition collecting :: "nat \<Rightarrow> nat \<Rightarrow> u32 \<Rightarrow> u16 \<Rightarrow> u8 \<Rightarrow> bytes \<Rightarrow> 'a net_scheme \<Rightarrow> bool" where
  "collecting i off src ident proto payload s \<longleftrightarrow> bufs_ok s \<and> i < 2 \<and> frag_match src ident proto (ipfrags s ! i)
     \<and> (\<forall>j < i. \<not> frag_match src ident proto (ipfrags s ! j))
     \<and> fr_got (ipfrags s ! i) = of_nat off \<and> fr_tot (ipfrags s ! i) = 0 \<and> sub_bytes (ipf_buf s ! i) 20 off = take off payload"

lemma collecting_slot: "collecting i off src ident proto payload s \<Longrightarrow> ipf_slot src ident proto s = Some i"
  by (auto simp: collecting_def ipf_slot_alt find2 less_2_cases_iff)

lemma length_frag_buffer: "length h = 20 \<Longrightarrow> length buf = 65556 \<Longrightarrow> off + length x \<le> 65515 \<Longrightarrow> length (frag_buffer h off x buf) = 65556"
  by (simp add: frag_buffer_def)

lemma frag_buffer_data:
  assumes "length h = 20" "length buf = 65556" "off + length x \<le> 65515" "sub_bytes buf 20 off = take off payload" "x = sub_bytes payload off (length x)"
    "off + length x \<le> length payload"
  shows "sub_bytes (frag_buffer h off x buf) 20 (off + length x) = take (off + length x) payload"
proof (rule nth_equalityI)
  show "length (sub_bytes (frag_buffer h off x buf) 20 (off + length x)) = length (take (off + length x) payload)"
    using assms length_frag_buffer [OF assms(1-3)] by simp
  fix j assume "j < length (sub_bytes (frag_buffer h off x buf) 20 (off + length x))"
  then have j: "j < off + length x" using assms length_frag_buffer [OF assms(1-3)] by simp
  have e: "sub_bytes (frag_buffer h off x buf) 20 (off + length x) ! j = (if off \<le> j then x ! (j - off) else buf ! (20 + j))"
    using j assms length_frag_buffer [OF assms(1-3)] by (auto simp: nth_sub_bytes frag_buffer_def nth_put_bytes)
  show "sub_bytes (frag_buffer h off x buf) 20 (off + length x) ! j = take (off + length x) payload ! j"
  proof (cases "off \<le> j")
    case True
    then have "x ! (j - off) = payload ! j" using assms(5,6) j by (metis add_diff_cancel_left' le_add_diff_inverse nat_add_left_cancel_less nth_sub_bytes)
    then show ?thesis using True j e by simp
  next
    case False
    then have "buf ! (20 + j) = sub_bytes buf 20 off ! j" using assms(2,3) by (simp add: nth_sub_bytes)
    then show ?thesis using False j e assms(4) by simp
  qed
qed

lemma finish_data:
  assumes "length buf = 65556"
  shows "length (ipf_finish buf tot) = 65556" "sub_bytes (ipf_finish buf tot) 20 n = sub_bytes buf 20 n"
proof -
  have l: "length (wr16 p v b) = 65556" if "length b = 65556" "p + 2 \<le> 20" for p v b using that by simp
  have d: "drop 20 (wr16 p v b) = drop 20 b" if "length b = 65556" "p + 2 \<le> 20" for p v b
    using that by (simp add: wr16_def put_bytes_def)
  show "length (ipf_finish buf tot) = 65556" using assms by (simp add: ipf_finish_def Let_def)
  show "sub_bytes (ipf_finish buf tot) 20 n = sub_bytes buf 20 n"
    using assms by (simp add: ipf_finish_def Let_def sub_bytes_def d l)
qed


fun feed :: "bytes list \<Rightarrow> 'a net_scheme \<Rightarrow> (bytes \<times> nat \<times> nat option) option list \<times> 'a net_scheme" where
  "feed [] s = ([], s)"
| "feed (p # ps) s = (case ip_input p (length p) s of (r, s1) \<Rightarrow> case feed ps s1 of (rs, s2) \<Rightarrow> (r # rs, s2))"

lemma of_nat16: "n \<le> 65515 \<Longrightarrow> unat (of_nat n :: u16) = n"
  by (simp add: unat_of_nat)

text \<open>The fragment at \<open>off\<close>, in a slot that has everything before it.\<close>

lemma fragment_step:
  assumes off: "8 dvd off" "off < length payload" "length payload \<le> 65515" "1480 < length payload"
    and pkt: "x = sub_bytes payload off (min (length payload - off) 1480)" "frag = (if length payload - off \<le> 1480 then 0 else IP_MF) OR of_nat (off div 8)"
      "h = ip_header tot ident frag proto src dst"
    and slot: "ipf_slot src ident proto s = Some i" "i < 2" "bufs_ok s" "\<forall>j < i. \<not> frag_match src ident proto (ipfrags s ! j)"
    and old: "off \<noteq> 0 \<Longrightarrow> frag_match src ident proto (ipfrags s ! i) \<and> fr_got (ipfrags s ! i) = of_nat off \<and> fr_tot (ipfrags s ! i) = 0"
      "sub_bytes (ipf_buf s ! i) 20 off = take off payload"
    and run: "ip_input (h @ x) (length (h @ x)) s = (r, s')"
  shows "if length payload - off \<le> 1480
     then \<exists>buf. r = Some (buf, 20 + length payload, Some i) \<and> sub_bytes buf 20 (length payload) = payload
     else r = None \<and> collecting i (off + 1480) src ident proto payload s'"
proof -
  define last where "last = (length payload - off \<le> 1480)"
  define n where "n = off + length x"
  have lx: "length x = min (length payload - off) 1480" "x = sub_bytes payload off (length x)" using pkt(1) by (simp_all add: sub_bytes_def)
  have n: "n \<le> length payload" "off < n" "n \<le> 65515" "last \<Longrightarrow> n = length payload" "\<not> last \<Longrightarrow> n = off + 1480"
    using lx off by (auto simp: n_def last_def)
  have lh: "length h = 20" by (simp add: pkt(3))
  have fld: "unat (frag AND 0x1FFF) * 8 = off" "(frag AND 0x2000 \<noteq> 0) = (\<not> last)"
    using frag_field [OF off(1)] off(2,3) by (auto simp: pkt(2) last_def)
  have one: "\<not> last \<or> off \<noteq> 0" using off(4) by (auto simp: last_def)
  define F where "F = frag_entry (\<not> last) off (length x) src ident proto (ipfrags s ! i)"
  have un: "unat (of_nat n :: u16) = n" "unat (of_nat off :: u16) = off" using n of_nat16 by simp_all
  have F: "frag_match src ident proto F" "fr_got F = of_nat n" "fr_tot F = (if last then of_nat n else 0)"
    using old(1) n un by (auto simp: F_def frag_entry_def Let_def frag_match_def n_def [symmetric])
  define buf where "buf = frag_buffer h off x (ipf_buf s ! i)"
  have lb: "length (ipf_buf s ! i) = 65556" using slot(2,3) by (simp add: bufs_ok_def)
  have lbuf: "length buf = 65556" unfolding buf_def by (rule length_frag_buffer [OF lh lb]) (use n in \<open>simp add: n_def\<close>)
  have data: "sub_bytes buf 20 n = take n payload"
    unfolding buf_def n_def by (rule frag_buffer_data [OF lh lb _ old(2) lx(2)]) (use n in \<open>simp_all add: n_def\<close>)
  have ready: "(fr_tot F \<noteq> 0 \<and> fr_got F \<ge> fr_tot F) = last" using F n un by (auto simp: unat_eq_zero [symmetric])
  have len: "off + length x \<le> 65515" using n by (simp add: n_def)
  have R: "(r, s') = (let buf = (if last then ipf_finish buf (fr_tot F) else buf)
      in (if last then Some (buf, 20 + unat (fr_tot F), Some i) else None,
          s\<lparr>ipfrags := (ipfrags s)[i := F], ipf_buf := (ipf_buf s)[i := buf], ipf_expire := now s + 200, ipf_armed := True\<rparr>))"
    using run input_fragment [OF pkt(3) fld(1) fld(2) [symmetric] len one slot(1)]
    unfolding F_def [symmetric] buf_def [symmetric] Let_def ready by simp
  show ?thesis
    unfolding last_def [symmetric]
  proof (cases last)
    case True
    then have "r = Some (ipf_finish buf (fr_tot F), 20 + length payload, Some i)" using R F(3) n(4) un by (simp add: Let_def)
    moreover have "sub_bytes (ipf_finish buf (fr_tot F)) 20 (length payload) = payload" using finish_data(2) [OF lbuf] data n(4) True by simp
    ultimately show "if last then \<exists>buf. r = Some (buf, 20 + length payload, Some i) \<and> sub_bytes buf 20 (length payload) = payload
       else r = None \<and> collecting i (off + 1480) src ident proto payload s'" using True by simp
  next
    case False
    have s': "r = None" "ipfrags s' = (ipfrags s)[i := F]" "ipf_buf s' = (ipf_buf s)[i := buf]" using R False by (simp_all add: Let_def)
    have "bufs_ok s'" using slot(2,3) lbuf s' by (auto simp: bufs_ok_def nth_list_update)
    then have "collecting i n src ident proto payload s'"
      unfolding collecting_def using s' slot(2,3,4) F False data by (simp add: bufs_ok_def)
    then show "if last then \<exists>buf. r = Some (buf, 20 + length payload, Some i) \<and> sub_bytes buf 20 (length payload) = payload
       else r = None \<and> collecting i (off + 1480) src ident proto payload s'" using False s'(1) n(5) by simp
  qed
qed

lemma feed_rest:
  assumes "8 dvd off" "off < length payload" "length payload \<le> 65515" "1480 < length payload" "off \<noteq> 0" "collecting i off src ident proto payload s"
    "feed (fragments off src dst proto ident payload) s = (rs, s')"
  shows "\<exists>buf. rs = replicate (length rs - 1) None @ [Some (buf, 20 + length payload, Some i)] \<and> sub_bytes buf 20 (length payload) = payload"
  using assms
proof (induction off src dst proto ident payload arbitrary: s rs rule: fragments.induct)
  case (1 off src dst proto ident payload)
  define x where "x = sub_bytes payload off (min (length payload - off) 1480)"
  define frag where "frag = (if length payload - off \<le> 1480 then 0 else IP_MF) OR (of_nat (off div 8) :: u16)"
  define h where "h = ip_header (of_nat (20 + min (length payload - off) 1480)) ident frag proto src dst"
  have fr: "fragments off src dst proto ident payload = (h @ x) # fragments (off + min (length payload - off) 1480) src dst proto ident payload"
    using "1.prems"(2) by (subst fragments.simps) (simp add: Let_def h_def frag_def x_def)
  obtain r s1 where i1: "ip_input (h @ x) (length (h @ x)) s = (r, s1)" by fastforce
  obtain rs1 where f1: "feed (fragments (off + min (length payload - off) 1480) src dst proto ident payload) s1 = (rs1, s')" "rs = r # rs1"
    using "1.prems"(7) i1 unfolding fr by (auto split: prod.splits)
  have c: "i < 2" "bufs_ok s" "\<forall>j < i. \<not> frag_match src ident proto (ipfrags s ! j)" "sub_bytes (ipf_buf s ! i) 20 off = take off payload"
    using "1.prems"(6) by (simp_all add: collecting_def)
  have old: "frag_match src ident proto (ipfrags s ! i) \<and> fr_got (ipfrags s ! i) = of_nat off \<and> fr_tot (ipfrags s ! i) = 0"
    using "1.prems"(6) by (simp add: collecting_def)
  note S = fragment_step [OF "1.prems"(1-4) x_def frag_def h_def collecting_slot [OF "1.prems"(6)] c(1-3) old c(4) i1]
  show ?case
  proof (cases "length payload - off \<le> 1480")
    case True
    then have "fragments (off + min (length payload - off) 1480) src dst proto ident payload = []"
      using "1.prems"(2) by (subst fragments.simps) simp
    then have "rs1 = []" using f1(1) by simp
    then show ?thesis using S True f1(2) by simp
  next
    case False
    have r: "r = None" "collecting i (off + 1480) src ident proto payload s1" using S False by simp_all
    have less: "off + 1480 < length payload" using False by linarith
    obtain buf where "rs1 = replicate (length rs1 - 1) None @ [Some (buf, 20 + length payload, Some i)]" "sub_bytes buf 20 (length payload) = payload"
      using "1.IH" [OF "1.prems"(2) refl, of s1 rs1] False r(2) f1(1) "1.prems"(1-4) less by (auto simp: min_def)
    then show ?thesis using f1(2) r(1) by (cases rs1) auto
  qed
qed

text \<open>
  C24. Fragmentation and reassembly: a payload of up to 65515 bytes that \<^verbatim>\<open>ip_send\<close> has to cut is sent in
  fragments which \<^verbatim>\<open>handle_ipv4\<close>, receiving them in order with a free slot, accepts and collects; nothing is
  dispatched before the last one, and then a datagram with exactly the payload.
\<close>

theorem fragments_reassembled:
  assumes "1480 < length payload" "length payload \<le> 65515" "\<not> eth_mute s" "length dmac = 6" "length (our_mac s) = 6"
    and rx: "bufs_ok r" "\<forall>i < 2. \<not> frag_match (our_ip s) (ip_id s + 1) proto (ipfrags r ! i)" "\<exists>i < 2. \<not> fr_used (ipfrags r ! i)"
  shows "\<exists>frames rs r' buf i. nic_out (ip_output dst dmac proto payload s) = nic_out s @ frames
     \<and> feed (map (drop 14) frames) r = (rs, r') \<and> rs = replicate (length rs - 1) None @ [Some (buf, 20 + length payload, Some i)]
     \<and> sub_bytes buf 20 (length payload) = payload"
proof -
  define ident where "ident = ip_id s + 1"
  define s1 where "s1 = s\<lparr>ip_id := ident\<rparr>"
  have o: "ip_output dst dmac proto payload s = send_fragments 0 dst dmac proto ident payload s1"
    using assms(1) by (simp add: ip_output_def Let_def ident_def s1_def IP_FRAG_MAX_def)
  obtain frames where f: "nic_out (send_fragments 0 dst dmac proto ident payload s1) = nic_out s1 @ frames"
    "map (drop 14) frames = fragments 0 (our_ip s) dst proto ident payload"
    using send_fragments_out [of s1 dmac 0 dst proto ident payload] assms(3-5) by (auto simp: s1_def)
  define h where "h = ip_header (of_nat (20 + min (length payload - 0) 1480)) ident ((if length payload - 0 \<le> 1480 then 0 else IP_MF) OR of_nat (0 div 8)) proto (our_ip s) dst"
  define x where "x = sub_bytes payload 0 (min (length payload - 0) 1480)"
  have fr: "fragments 0 (our_ip s) dst proto ident payload = (h @ x) # fragments 1480 (our_ip s) dst proto ident payload"
    using assms(1) by (subst fragments.simps) (auto simp: Let_def h_def x_def)
  obtain r1 t1 where i1: "ip_input (h @ x) (length (h @ x)) r = (r1, t1)" by fastforce
  obtain rs t2 where f2: "feed (fragments 1480 (our_ip s) dst proto ident payload) t1 = (rs, t2)" by fastforce
  have "\<exists>i < 2. ipf_slot (our_ip s) ident proto r = Some i"
    using rx(2,3) by (cases "fr_used (ipfrags r ! 0)") (auto simp: ipf_slot_alt find2 ident_def less_2_cases_iff)
  then obtain i where i: "ipf_slot (our_ip s) ident proto r = Some i" "i < 2" by blast
  have ne: "payload \<noteq> []" using assms(1) by auto
  have "r1 = None \<and> collecting i (0 + 1480) (our_ip s) ident proto payload t1"
    using fragment_step [OF _ _ assms(2,1) x_def refl h_def i rx(1) _ _ _ i1] assms(1) rx(2) i(2) ne by (auto simp: ident_def sub_bytes_def)
  then have r1: "r1 = None" "collecting i 1480 (our_ip s) ident proto payload t1" by simp_all
  obtain buf where b: "rs = replicate (length rs - 1) None @ [Some (buf, 20 + length payload, Some i)]" "sub_bytes buf 20 (length payload) = payload"
    using feed_rest [OF _ assms(1) assms(2,1) _ r1(2) f2] by auto
  have fd: "feed (map (drop 14) frames) r = (r1 # rs, t2)" unfolding f(2) fr using i1 f2 by simp
  have "r1 # rs = replicate (length (r1 # rs) - 1) None @ [Some (buf, 20 + length payload, Some i)]" using b(1) r1(1) by (cases rs) auto
  then show ?thesis using o f(1) fd b(2) by (auto simp: s1_def)
qed

definition no_frag :: ip_frag where
  "no_frag = \<lparr>fr_used = False, fr_src = 0, fr_id = 0, fr_proto = 0, fr_got = 0, fr_tot = 0\<rparr>"

definition net_ex :: net where
  "net_ex = \<lparr>our_mac = [2, 0, 0, 0, 0, 1], our_ip = 0x0A00020F, our_mask = 0xFFFFFF00, gateway = 0x0A000202, stat_rx = 0, stat_tx = 0, stat_rx_bytes = 0,
     arp_cache = replicate 8 \<lparr>ae_ip = 0, ae_mac = replicate 6 0, ae_valid = False, ae_at = 0\<rparr>, arp_waiting = False, arp_done = False, arp_want_ip = 0,
     arp_reply_mac = replicate 6 0, ping_active = False, ping_done = False, ping_ident = 0, ping_reply_src = 0,
     unreach = \<lparr>ur_pend = False, ur_tcp = False, ur_ip = 0, ur_sport = 0, ur_dport = 0\<rparr>,
     redir = \<lparr>rd_used = False, rd_dst = 0, rd_nexthop = 0, rd_until = 0\<rparr>,
     ethsnoop = False, ethsnoop_n = 0, ethsnoop_len = replicate 4 0, ethsnoop_frame = replicate 4 (replicate 1500 0), eth_mute = False, ip_id = 0x1000,
     ipfrags = replicate 2 no_frag, ipf_buf = replicate 2 (replicate 65556 0), ipf_expire = 0, ipf_armed = False, nic_out = [],
     ntime = timer_init, nintr = \<lparr>g_intr_pending = False\<rparr>\<rparr>"

theorem fragments_reassembled_witness:
  "\<exists>frames rs r' buf i. nic_out (ip_output 0x0A000202 bcast_mac 17 (replicate 1500 7) net_ex) = nic_out net_ex @ frames
     \<and> feed (map (drop 14) frames) net_ex = (rs, r') \<and> rs = replicate (length rs - 1) None @ [Some (buf, 1520, Some i)]
     \<and> sub_bytes buf 20 1500 = replicate 1500 7"
proof -
  have n: "\<not> eth_mute net_ex" "length (our_mac net_ex) = 6" "ipfrags net_ex = replicate 2 no_frag" "ipf_buf net_ex = replicate 2 (replicate 65556 0)"
    unfolding net_ex_def by simp_all
  have b: "bufs_ok net_ex" unfolding bufs_ok_def n by simp
  have f: "\<forall>i < 2. \<not> fr_used (ipfrags net_ex ! i)" unfolding n by (simp add: no_frag_def)
  then have m: "\<forall>i < 2. \<not> frag_match (our_ip net_ex) (ip_id net_ex + 1) 17 (ipfrags net_ex ! i)" by (simp add: frag_match_def)
  have ex: "\<exists>i < 2. \<not> fr_used (ipfrags net_ex ! i)" using f by (intro exI [of _ 0]) simp
  have l: "length (replicate 1500 (7 :: u8)) = 1500" "length bcast_mac = 6" by (simp_all add: bcast_mac_def)
  have "1480 < length (replicate 1500 (7 :: u8))" "length (replicate 1500 (7 :: u8)) \<le> 65515" unfolding l by simp_all
  from fragments_reassembled [OF this n(1) l(2) n(2) b m ex, where dst = "0x0A000202"] show ?thesis unfolding l by simp
qed

text \<open>
  The reassembly only compares the highest byte seen with the end of the last fragment: a last
  fragment that arrives first, in a slot that was never used, is dispatched at once, with whatever
  the buffer held in the place of the missing part.
\<close>

lemma last_fragment_first:
  assumes "h = ip_header tot ident (of_nat (off div 8)) proto src dst" "8 dvd off" "0 < off" "off + length x \<le> 65515"
    "ipf_slot src ident proto s = Some i" "fr_got (ipfrags s ! i) = 0"
  shows "\<exists>buf. fst (ip_input (h @ x) (length (h @ x)) s) = Some (buf, 20 + off + length x, Some i)"
proof -
  have fl: "unat (of_nat (off div 8) AND (0x1FFF :: u16)) * 8 = off" "of_nat (off div 8) AND 0x2000 = (0 :: u16)"
    using frag_field(3,4) [OF assms(2)] assms(4) by simp_all
  have un: "unat (of_nat (off + length x) :: u16) = off + length x" using assms(4) by (rule of_nat16)
  then have nz: "(of_nat (off + length x) :: u16) \<noteq> 0" using assms(3) by (metis add_is_0 less_irrefl unat_0)
  show ?thesis
    using input_fragment [OF assms(1) fl(1) refl assms(4) _ assms(5)] fl(2) assms(3,6) un nz
    by (simp add: frag_entry_def Let_def del: of_nat_add)
qed

end
