(* ===== verification/Net_Udp.thy ===== *)
theory Net_Udp
  imports Net_Frag
begin

text \<open>
  UDP and DHCP of \<^verbatim>\<open>kernel/net.cpp\<close>: datagrams and their checksum, the table of eight sockets with a
  queue of four datagrams each, the options of DHCP messages, and the client that asks for an
  address and keeps its lease. The queue of a socket is a bounded queue in the sense of the prelude.
\<close>

section \<open>State\<close>

definition UDP_SOCKS :: nat where "UDP_SOCKS = 8"
definition UDP_QLEN :: nat where "UDP_QLEN = 4"
definition UDP_DGRAM_MAX :: nat where "UDP_DGRAM_MAX = 1500"

record udp_dgram =
  dg_src_ip :: u32
  dg_src_port :: u16
  dg_len :: u16
  dg_data :: bytes

record udp_sock =
  us_used :: bool
  us_bound :: bool
  us_lport :: u16
  us_qr :: nat
  us_qw :: nat
  us_qn :: nat
  us_q :: "udp_dgram list"

record unet = net +
  dhcp_waiting :: bool
  dhcp_done :: bool
  dhcp_txid :: u32
  dhcp_phase :: nat
  dhcp_offer_ip :: u32
  dhcp_offer_mask :: u32
  dhcp_offer_router :: u32
  dhcp_offer_dns :: u32
  dhcp_offer_sid :: u32
  dns_server :: u32
  dhcp_lease :: u32
  dhcp_lease_until :: u64
  dhcp_nak :: bool
  dhcp_renew_pend :: bool
  dhcp_renew_at :: u64
  udp_socks :: "udp_sock list"
  nic_is_up :: bool


section \<open>Sending\<close>

definition udp_packet :: "u32 \<Rightarrow> u32 \<Rightarrow> u16 \<Rightarrow> u16 \<Rightarrow> bytes \<Rightarrow> bytes" where
  "udp_packet src dst dport sport data =
     (let u = be16 sport @ be16 dport @ be16 (of_nat (length data + 8)) @ be16 0 @ data
      in wr16 6 (udp_checksum src dst u) u)"

definition udp_send :: "('a net_scheme \<Rightarrow> 'a net_scheme) list option \<Rightarrow> u32 \<Rightarrow> u16 \<Rightarrow> u16 \<Rightarrow> bytes \<Rightarrow> 'a net_scheme \<Rightarrow> 'a net_scheme" where
  "udp_send irqs dst dport sport data s = ip_send irqs dst None 17 (udp_packet (our_ip s) dst dport sport data) s"


section \<open>DHCP messages\<close>

definition dhcp_apply_lease :: "u16 \<Rightarrow> 'a unet_scheme \<Rightarrow> 'a unet_scheme" where
  "dhcp_apply_lease lease_secs s =
     (let secs = (if lease_secs \<noteq> 0 then ucast lease_secs else 3600) :: u32;
          secs = (if secs < 20 then 20 else secs)
      in s\<lparr>dhcp_lease := secs, dhcp_lease_until := now s + ucast secs * 100, dhcp_renew_pend := False\<rparr>)"

definition COOKIE :: bytes where "COOKIE = [0x63, 0x82, 0x53, 0x63]"

definition dhcp_build :: "u8 \<Rightarrow> 'a unet_scheme \<Rightarrow> bytes" where
  "dhcp_build mtype s =
     (let b = replicate 240 0;
          b = put_bytes b 0 [1, 1, 6];
          b = wr32 4 (dhcp_txid s) b;
          b = wr16 10 0x8000 b;
          b = put_bytes b 28 (our_mac s);
          b = (if mtype = 3 \<and> our_ip s \<noteq> 0 then wr32 12 (our_ip s) b else b);
          b = put_bytes b 236 COOKIE;
          opts = [53, 1, mtype];
          opts = (if mtype = 3 then opts @ [50, 4] @ be32 (dhcp_offer_ip s) @ [54, 4] @ be32 (dhcp_offer_sid s) else opts)
      in b @ opts @ [255])"

text \<open>What the loop over the options collects.\<close>

record dhcp_opt =
  op_mtype :: u8
  op_mask :: u32
  op_router :: u32
  op_dns :: u32
  op_lease :: u32
  op_sid :: u32

definition no_opts :: dhcp_opt where
  "no_opts = \<lparr>op_mtype = 0, op_mask = 0, op_router = 0, op_dns = 0, op_lease = 0, op_sid = 0\<rparr>"

definition dhcp_option :: "u8 \<Rightarrow> u8 \<Rightarrow> bytes \<Rightarrow> dhcp_opt \<Rightarrow> dhcp_opt" where
  "dhcp_option c ln d r =
     (if c = 53 \<and> ln = 1 then r\<lparr>op_mtype := d ! 0\<rparr>
      else if c = 1 \<and> ln = 4 then r\<lparr>op_mask := rd32 d 0\<rparr>
      else if c = 3 \<and> ln \<ge> 4 then r\<lparr>op_router := rd32 d 0\<rparr>
      else if c = 6 \<and> ln \<ge> 4 then r\<lparr>op_dns := rd32 d 0\<rparr>
      else if c = 51 \<and> ln = 4 then r\<lparr>op_lease := rd32 d 0\<rparr>
      else if c = 54 \<and> ln = 4 then r\<lparr>op_sid := rd32 d 0\<rparr>
      else r)"

text \<open>\<open>p\<close> is the position of the pointer \<^verbatim>\<open>o\<close> in \<open>b\<close>, \<open>lim\<close> that of \<^verbatim>\<open>end\<close>.\<close>

function dhcp_options :: "bytes \<Rightarrow> nat \<Rightarrow> nat \<Rightarrow> dhcp_opt \<Rightarrow> dhcp_opt" where
  "dhcp_options b p lim r =
     (if p + 2 \<le> lim
      then
        if b ! p = 255 then r
        else if b ! p = 0 then dhcp_options b (p + 1) lim r
        else
          let c = b ! p; ln = b ! (p + 1)
          in if p + 2 + unat ln > lim then r
             else dhcp_options b (p + 2 + unat ln) lim (dhcp_option c ln (drop (p + 2) b) r)
      else r)"
  by auto
termination by (relation "measure (\<lambda>(_, p, lim, _). lim - p)") auto

declare dhcp_options.simps [simp del]

definition dhcp_ack :: "dhcp_opt \<Rightarrow> u32 \<Rightarrow> 'a unet_scheme \<Rightarrow> 'a unet_scheme" where
  "dhcp_ack r yiaddr s =
     (let s = s\<lparr>dhcp_offer_ip := yiaddr\<rparr>;
          s = (if op_mask r \<noteq> 0 then s\<lparr>dhcp_offer_mask := op_mask r\<rparr> else s);
          s = (if op_router r \<noteq> 0 then s\<lparr>dhcp_offer_router := op_router r\<rparr> else s);
          s = (if op_dns r \<noteq> 0 then s\<lparr>dhcp_offer_dns := op_dns r\<rparr> else s);
          s = dhcp_apply_lease (ucast (op_lease r)) s
      in s\<lparr>dhcp_nak := False, dhcp_done := True\<rparr>)"

definition handle_dhcp :: "bytes \<Rightarrow> nat \<Rightarrow> 'a unet_scheme \<Rightarrow> 'a unet_scheme" where
  "handle_dhcp b avail s =
     (if b ! 0 \<noteq> 2 \<or> b ! 1 \<noteq> 1 \<or> b ! 2 \<noteq> 6 then s
      else if rd32 b 4 \<noteq> dhcp_txid s then s
      else if rd32 b 236 \<noteq> 0x63825363 then s
      else
        let avail = (if avail > 300 then 300 else avail);
            r = dhcp_options b 240 (240 + avail) no_opts
        in if dhcp_phase s = 1 \<and> op_mtype r = 2
           then s\<lparr>dhcp_offer_ip := rd32 b 16, dhcp_offer_mask := op_mask r, dhcp_offer_router := op_router r,
                  dhcp_offer_dns := op_dns r, dhcp_offer_sid := op_sid r, dhcp_done := True\<rparr>
           else if dhcp_phase s = 3 \<and> op_mtype r = 5
           then dhcp_ack r (rd32 b 16) s
           else if dhcp_phase s = 3 \<and> op_mtype r = 6 then s\<lparr>dhcp_nak := True, dhcp_done := True\<rparr>
           else s)"


section \<open>Sockets\<close>

definition zero_dgram :: udp_dgram where
  "zero_dgram = \<lparr>dg_src_ip = 0, dg_src_port = 0, dg_len = 0, dg_data = replicate UDP_DGRAM_MAX 0\<rparr>"

definition zero_sock :: udp_sock where
  "zero_sock = \<lparr>us_used = False, us_bound = False, us_lport = 0, us_qr = 0, us_qw = 0, us_qn = 0, us_q = replicate UDP_QLEN zero_dgram\<rparr>"

definition upd_sock :: "nat \<Rightarrow> (udp_sock \<Rightarrow> udp_sock) \<Rightarrow> 'a unet_scheme \<Rightarrow> 'a unet_scheme" where
  "upd_sock i f s = s\<lparr>udp_socks := (udp_socks s)[i := f (udp_socks s ! i)]\<rparr>"

text \<open>A socket number of the code is an \<^verbatim>\<open>int\<close>; \<open>None\<close> is its \<open>-1\<close>.\<close>

definition udp_sock_alloc :: "'a unet_scheme \<Rightarrow> nat option \<times> 'a unet_scheme" where
  "udp_sock_alloc s =
     (case find_from (\<lambda>i. \<not> us_used (udp_socks s ! i)) 0 UDP_SOCKS of
        Some i \<Rightarrow> (Some i, upd_sock i (\<lambda>_. zero_sock\<lparr>us_used := True\<rparr>) s)
      | None \<Rightarrow> (None, s))"

definition udp_sock_bound :: "u16 \<Rightarrow> 'a unet_scheme \<Rightarrow> nat option" where
  "udp_sock_bound port s =
     find_from (\<lambda>i. us_used (udp_socks s ! i) \<and> us_bound (udp_socks s ! i) \<and> us_lport (udp_socks s ! i) = port) 0 UDP_SOCKS"

text \<open>
  \<^verbatim>\<open>udp_auto_port\<close>. Its callers run with interrupts disabled, so that all its tries see the same clock.
\<close>

fun auto_port_try :: "nat \<Rightarrow> 'a unet_scheme \<Rightarrow> u16" where
  "auto_port_try 0 s = 0xC000 + ucast (now s mod 0x3FFF)"
| "auto_port_try (Suc g) s =
     (let p = ucast (0xC000 OR (drop_bit 16 (now s * 2654435761) AND 0x3FFF))
      in if udp_sock_bound p s = None then p else auto_port_try g s)"

definition udp_auto_port :: "'a unet_scheme \<Rightarrow> u16" where
  "udp_auto_port s = auto_port_try 64 s"

text \<open>The end of \<^verbatim>\<open>handle_udp\<close> and that of \<^verbatim>\<open>net_udp_recv_from\<close>: the queue of the socket.\<close>

definition udp_push :: "udp_dgram \<Rightarrow> udp_sock \<Rightarrow> udp_sock" where
  "udp_push d u =
     (if us_qn u \<ge> UDP_QLEN then u
      else u\<lparr>us_q := (us_q u)[us_qw u := d], us_qw := (us_qw u + 1) mod UDP_QLEN, us_qn := us_qn u + 1\<rparr>)"

definition udp_pop :: "udp_sock \<Rightarrow> (udp_dgram \<times> udp_sock) option" where
  "udp_pop u =
     (if us_qn u = 0 then None
      else Some (us_q u ! us_qr u, u\<lparr>us_qr := (us_qr u + 1) mod UDP_QLEN, us_qn := us_qn u - 1\<rparr>))"

definition fill_dgram :: "u32 \<Rightarrow> u16 \<Rightarrow> bytes \<Rightarrow> udp_dgram \<Rightarrow> udp_dgram" where
  "fill_dgram src sport data d =
     (let n = (if length data > UDP_DGRAM_MAX then UDP_DGRAM_MAX else length data)
      in d\<lparr>dg_src_ip := src, dg_src_port := sport, dg_len := of_nat n, dg_data := put_bytes (dg_data d) 0 (take n data)\<rparr>)"

definition handle_udp :: "bytes \<Rightarrow> nat \<Rightarrow> bytes option \<Rightarrow> 'a unet_scheme \<Rightarrow> 'a unet_scheme" where
  "handle_udp ip len eth_src s =
     (let ihl = unat (ip ! 0 AND 0x0F) * 4
      in if len < ihl + 8 then s
         else
           let u = drop ihl ip; sport = rd16 u 0; dport = rd16 u 2; ulen = unat (rd16 u 4);
               ulen = (if ulen < 8 \<or> ulen > len - ihl then len - ihl else ulen)
           in if rd16 u 6 \<noteq> 0 \<and> udp_checksum (rd32 ip 12) (rd32 ip 16) (take ulen u) \<noteq> 0 then s
              else
                let s = (case eth_src of Some mac \<Rightarrow> arp_learn (rd32 ip 12) mac s | None \<Rightarrow> s)
                in if dport = 68 \<and> dhcp_waiting s \<and> ulen \<ge> 244 then handle_dhcp (drop 8 u) (ulen - 8) s
                   else
                     case udp_sock_bound dport s of
                       None \<Rightarrow> s
                     | Some k \<Rightarrow> upd_sock k (\<lambda>us. udp_push (fill_dgram (rd32 ip 12) sport (sub_bytes u 8 (ulen - 8)) (us_q us ! us_qw us)) us) s)"

text \<open>The guard of every socket call, and the calls.\<close>

definition sock_ok :: "int \<Rightarrow> 'a unet_scheme \<Rightarrow> bool" where
  "sock_ok i s \<longleftrightarrow> \<not> (i < 0 \<or> i \<ge> int UDP_SOCKS \<or> \<not> us_used (udp_socks s ! nat i))"

definition net_udp_socket :: "'a unet_scheme \<Rightarrow> nat option \<times> 'a unet_scheme" where
  "net_udp_socket s = (if \<not> nic_is_up s then (None, s) else udp_sock_alloc s)"

definition net_udp_bind :: "int \<Rightarrow> u16 \<Rightarrow> 'a unet_scheme \<Rightarrow> bool \<times> 'a unet_scheme" where
  "net_udp_bind i port s =
     (if \<not> sock_ok i s then (False, s)
      else if us_bound (udp_socks s ! nat i) then (False, s)
      else
        let port = (if port = 0 then udp_auto_port s else port)
        in if udp_sock_bound port s \<noteq> None then (False, s)
           else (True, upd_sock (nat i) (\<lambda>u. u\<lparr>us_bound := True, us_lport := port, us_qn := 0, us_qr := 0, us_qw := 0\<rparr>) s))"

definition net_udp_send_to :: "('a unet_scheme \<Rightarrow> 'a unet_scheme) list \<Rightarrow> int \<Rightarrow> u32 \<Rightarrow> u16 \<Rightarrow> bytes \<Rightarrow> 'a unet_scheme \<Rightarrow> int \<times> 'a unet_scheme" where
  "net_udp_send_to irqs i dst dport data s =
     (if \<not> sock_ok i s then (-1, s)
      else if \<not> nic_is_up s then (-1, s)
      else
        case (if us_bound (udp_socks s ! nat i) then (True, s) else net_udp_bind i 0 s) of
          (False, s) \<Rightarrow> (-1, s)
        | (True, s) \<Rightarrow>
            let n = (if length data > 1472 then 1472 else length data)
            in (int n, udp_send (Some irqs) dst dport (us_lport (udp_socks s ! nat i)) (take n data) s))"

definition net_udp_wait :: "('a unet_scheme \<Rightarrow> 'a unet_scheme) list \<Rightarrow> int \<Rightarrow> u32 \<Rightarrow> 'a unet_scheme \<Rightarrow> bool \<times> 'a unet_scheme" where
  "net_udp_wait irqs i dur s =
     (if \<not> sock_ok i s then (False, s)
      else
        let dd = now s + ucast dur;
            s = hlt_until (\<lambda>s. us_qn (udp_socks s ! nat i) \<noteq> 0 \<or> now s \<ge> dd) irqs s
        in (us_qn (udp_socks s ! nat i) > 0, s))"

text \<open>The result, what is stored through \<^verbatim>\<open>out\<close>, \<^verbatim>\<open>src_ip\<close> and \<^verbatim>\<open>src_port\<close> when a datagram is there, and the state.\<close>

definition net_udp_recv_from :: "int \<Rightarrow> u32 \<Rightarrow> 'a unet_scheme \<Rightarrow> int \<times> (bytes \<times> u32 \<times> u16) option \<times> 'a unet_scheme" where
  "net_udp_recv_from i cap s =
     (if \<not> sock_ok i s then (-1, None, s)
      else
        case udp_pop (udp_socks s ! nat i) of
          None \<Rightarrow> (0, None, s)
        | Some (d, u) \<Rightarrow>
            let n = (if cap < ucast (dg_len d) then ucast cap else dg_len d)
            in (int (unat n), Some (take (unat n) (dg_data d), dg_src_ip d, dg_src_port d), upd_sock (nat i) (\<lambda>_. u) s))"

definition net_udp_close :: "int \<Rightarrow> 'a unet_scheme \<Rightarrow> bool \<times> 'a unet_scheme" where
  "net_udp_close i s =
     (if \<not> sock_ok i s then (False, s)
      else (True, upd_sock (nat i) (\<lambda>u. u\<lparr>us_used := False, us_bound := False, us_qn := 0\<rparr>) s))"


section \<open>The DHCP client\<close>

text \<open>
  The two loops of \<^verbatim>\<open>net_dhcp\<close> send a message and wait for the answer in every round; the interrupts of
  the rounds are given one list per round. A round sends to the broadcast address with interrupts
  enabled, so that its address resolution may take interrupts too.
\<close>

type_synonym 'a round = "('a \<Rightarrow> 'a) list \<times> ('a \<Rightarrow> 'a) list"

definition dhcp_send :: "u8 \<Rightarrow> ('a unet_scheme \<Rightarrow> 'a unet_scheme) list option \<Rightarrow> 'a unet_scheme \<Rightarrow> 'a unet_scheme" where
  "dhcp_send mtype irqs s = udp_send irqs BROADCAST 67 68 (dhcp_build mtype s) s"

definition dhcp_wait :: "u64 \<Rightarrow> ('a unet_scheme \<Rightarrow> 'a unet_scheme) list \<Rightarrow> 'a unet_scheme \<Rightarrow> 'a unet_scheme" where
  "dhcp_wait dur irqs s = (let t = now s + dur in hlt_until (\<lambda>s. dhcp_done s \<or> now s \<ge> t) irqs s)"

fun dhcp_discover :: "u64 \<Rightarrow> 'a unet_scheme round list \<Rightarrow> 'a unet_scheme \<Rightarrow> bool \<times> 'a unet_scheme" where
  "dhcp_discover wall [] s = (False, s)"
| "dhcp_discover wall ((tx, rx) # rounds) s =
     (if now s < wall \<and> \<not> sys_intr_pending (nintr s)
      then
        let s = s\<lparr>dhcp_done := False\<rparr>;
            s = dhcp_send 1 (Some tx) s;
            s = dhcp_wait 30 rx s
        in if dhcp_done s \<and> \<not> dhcp_nak s then (True, s) else dhcp_discover wall rounds s
      else (False, s))"

fun dhcp_request :: "u64 \<Rightarrow> 'a unet_scheme round list \<Rightarrow> 'a unet_scheme \<Rightarrow> 'a unet_scheme" where
  "dhcp_request wall [] s = s"
| "dhcp_request wall ((tx, rx) # rounds) s =
     (if now s < wall \<and> \<not> dhcp_done s \<and> \<not> sys_intr_pending (nintr s)
      then
        let s = s\<lparr>dhcp_phase := 3, dhcp_done := False, dhcp_nak := False\<rparr>;
            s = dhcp_send 3 (Some tx) s;
            s = dhcp_wait 30 rx s
        in if dhcp_done s \<and> dhcp_nak s then s\<lparr>dhcp_phase := 1\<rparr> else dhcp_request wall rounds s
      else s)"

definition forget_neighbours :: "'a net_scheme \<Rightarrow> 'a net_scheme" where
  "forget_neighbours s = s\<lparr>arp_cache := map (\<lambda>e. e\<lparr>ae_valid := False\<rparr>) (arp_cache s)\<rparr>"

definition net_dhcp :: "'a unet_scheme round list \<Rightarrow> 'a unet_scheme round list \<Rightarrow> 'a unet_scheme \<Rightarrow> bool \<times> 'a unet_scheme" where
  "net_dhcp rounds1 rounds2 s =
     (let s = s\<lparr>dhcp_txid := ucast (now s * 2654435761) XOR 0xE17A11, dhcp_waiting := True, dhcp_phase := 1,
               dhcp_nak := False, dhcp_renew_pend := False\<rparr>;
          (got_offer, s) = dhcp_discover (now s + 300) rounds1 s
      in if \<not> got_offer then (False, s\<lparr>dhcp_waiting := False\<rparr>)
         else
           let s = dhcp_request (now s + 100) rounds2 s;
               s = s\<lparr>dhcp_waiting := False\<rparr>
           in if \<not> dhcp_done s \<or> dhcp_nak s then (False, s)
              else
                let s = s\<lparr>our_ip := dhcp_offer_ip s, our_mask := (if dhcp_offer_mask s \<noteq> 0 then dhcp_offer_mask s else 0xFFFFFF00),
                         gateway := dhcp_offer_router s, dns_server := dhcp_offer_dns s\<rparr>;
                    s = (if dhcp_lease_until s = 0 then dhcp_apply_lease (ucast (dhcp_lease s)) s else s)
                in (True, forget_neighbours s))"

definition net_dhcp_renew :: "'a unet_scheme round \<Rightarrow> 'a unet_scheme \<Rightarrow> bool \<times> 'a unet_scheme" where
  "net_dhcp_renew round s =
     (if \<not> nic_is_up s \<or> our_ip s = 0 then (False, s)
      else
        let s = s\<lparr>dhcp_txid := ucast ((now s * 2654435761) XOR 0xE17A11) + 0x77, dhcp_waiting := True, dhcp_phase := 3,
                  dhcp_done := False, dhcp_nak := False, dhcp_renew_pend := False\<rparr>;
            s = dhcp_send 3 (Some (fst round)) s;
            s = dhcp_wait 60 (snd round) s;
            s = s\<lparr>dhcp_waiting := False\<rparr>
        in if dhcp_done s \<and> \<not> dhcp_nak s
           then
             let s = s\<lparr>our_ip := dhcp_offer_ip s\<rparr>;
                 s = (if dhcp_offer_mask s \<noteq> 0 then s\<lparr>our_mask := dhcp_offer_mask s\<rparr> else s);
                 s = (if dhcp_offer_router s \<noteq> 0 then s\<lparr>gateway := dhcp_offer_router s\<rparr> else s);
                 s = (if dhcp_offer_dns s \<noteq> 0 then s\<lparr>dns_server := dhcp_offer_dns s\<rparr> else s)
             in (True, s)
           else (False, s))"

text \<open>The renewal from the timer interrupt; \<^verbatim>\<open>+ dhcp_renew_pend\<close> adds one, the flag being set by then.\<close>

definition dhcp_auto_poll :: "'a unet_scheme \<Rightarrow> 'a unet_scheme" where
  "dhcp_auto_poll s =
     (if dhcp_lease_until s = 0 \<or> dhcp_waiting s \<or> our_ip s = 0 then s
      else if now s \<ge> dhcp_lease_until s then s
      else if now s < dhcp_lease_until s - ucast (dhcp_lease s) * 50 then s
      else if dhcp_renew_pend s \<and> now s < dhcp_renew_at s then s
      else
        let s = s\<lparr>dhcp_renew_pend := True, dhcp_renew_at := now s + 100\<rparr>;
            s = s\<lparr>dhcp_txid := ucast ((now s * 2654435761) XOR 0xBEEF11) + 1, dhcp_phase := 3, dhcp_done := False\<rparr>
        in dhcp_send 3 None s)"


section \<open>The options of a DHCP message\<close>

definition enc_opts :: "(u8 \<times> bytes) list \<Rightarrow> bytes" where
  "enc_opts os = concat (map (\<lambda>(c, d). c # of_nat (length d) # d) os)"

definition opt_ok :: "u8 \<times> bytes \<Rightarrow> bool" where
  "opt_ok = (\<lambda>(c, d). c \<noteq> 0 \<and> c \<noteq> 255 \<and> length d < 256)"

definition opts_value :: "(u8 \<times> bytes) list \<Rightarrow> dhcp_opt \<Rightarrow> dhcp_opt" where
  "opts_value os r = fold (\<lambda>(c, d). dhcp_option c (of_nat (length d)) d) os r"

lemma dhcp_option_append:
  assumes "length d < 256"
  shows "dhcp_option c (of_nat (length d)) (d @ rest) r = dhcp_option c (of_nat (length d)) d r"
proof -
  have u: "unat (of_nat (length d) :: u8) = length d" using assms by (simp add: unat_of_nat_small)
  have "of_nat (length d) = (1 :: u8) \<Longrightarrow> 0 < length d" "(4 :: u8) \<le> of_nat (length d) \<Longrightarrow> 4 \<le> length d" "of_nat (length d) = (4 :: u8) \<Longrightarrow> 4 \<le> length d"
    using u by (auto simp: word_le_nat_alt word_unat_eq_iff)
  moreover have "4 \<le> length d \<Longrightarrow> rd32 (d @ rest) 0 = rd32 d 0" by (rule rd_append(2)) simp
  ultimately show ?thesis by (auto simp: dhcp_option_def nth_append)
qed

lemma dhcp_options_step:
  assumes "p + 2 \<le> lim" "b ! p \<noteq> 255" "b ! p \<noteq> 0" "p + 2 + unat (b ! (p + 1)) \<le> lim"
  shows "dhcp_options b p lim r =
    dhcp_options b (p + 2 + unat (b ! (p + 1))) lim (dhcp_option (b ! p) (b ! (p + 1)) (drop (p + 2) b) r)"
  using assms by (subst dhcp_options.simps) (simp add: Let_def)

lemma dhcp_options_enc:
  assumes "list_all opt_ok os" "b = pre @ enc_opts os @ 255 # rest" "length pre + length (enc_opts os) \<le> lim"
  shows "dhcp_options b (length pre) lim r = opts_value os r"
  using assms
proof (induction os arbitrary: pre r)
  case Nil
  then have "b ! length pre = 255" by (simp add: enc_opts_def nth_append)
  then show ?case by (subst dhcp_options.simps) (simp add: opts_value_def)
next
  case (Cons x os)
  obtain c d where x: "x = (c, d)" by fastforce
  have ok: "c \<noteq> 0" "c \<noteq> 255" "length d < 256" "list_all opt_ok os" using Cons.prems(1) by (auto simp: x opt_ok_def)
  define pre' where "pre' = pre @ c # of_nat (length d) # d"
  have b: "b = pre' @ enc_opts os @ 255 # rest" "b = pre @ c # of_nat (length d) # d @ enc_opts os @ 255 # rest"
    using Cons.prems(2) by (simp_all add: pre'_def enc_opts_def x)
  have l: "length pre' = length pre + 2 + length d" "length pre' + length (enc_opts os) \<le> lim"
    using Cons.prems(3) by (simp_all add: pre'_def enc_opts_def x)
  have u: "unat (of_nat (length d) :: u8) = length d" using ok(3) by (simp add: unat_of_nat_small)
  have n: "b ! length pre = c" "b ! (length pre + 1) = of_nat (length d)" "drop (length pre + 2) b = d @ enc_opts os @ 255 # rest"
    unfolding b(2) by (simp_all add: nth_append)
  have "dhcp_options b (length pre) lim r = dhcp_options b (length pre') lim (dhcp_option c (of_nat (length d)) d r)"
    using dhcp_options_step [of "length pre" lim b r] l ok unfolding n u l(1) by (simp add: dhcp_option_append)
  also have "\<dots> = opts_value os (dhcp_option c (of_nat (length d)) d r)" by (rule Cons.IH [OF ok(4) b(1) l(2)])
  finally show ?case by (simp add: opts_value_def x)
qed

definition lease_secs :: "u32 \<Rightarrow> u32" where
  "lease_secs n = (let secs = (if (ucast n :: u16) \<noteq> 0 then ucast (ucast n :: u16) else 3600) in if secs < 20 then 20 else secs)"

lemma dhcp_ack_alt:
  "dhcp_ack r yiaddr s =
     s\<lparr>dhcp_offer_ip := yiaddr, dhcp_offer_mask := (if op_mask r = 0 then dhcp_offer_mask s else op_mask r),
       dhcp_offer_router := (if op_router r = 0 then dhcp_offer_router s else op_router r),
       dhcp_offer_dns := (if op_dns r = 0 then dhcp_offer_dns s else op_dns r),
       dhcp_lease := lease_secs (op_lease r), dhcp_lease_until := now s + ucast (lease_secs (op_lease r)) * 100,
       dhcp_renew_pend := False, dhcp_nak := False, dhcp_done := True\<rparr>"
  unfolding dhcp_ack_def dhcp_apply_lease_def lease_secs_def Let_def
  by (cases "op_mask r = 0"; cases "op_router r = 0"; cases "op_dns r = 0") (simp_all cong: if_cong)

lemma lease_secs_bounds: "20 \<le> unat (lease_secs n)" "unat (lease_secs n) < 2 ^ 16"
proof -
  have "unat (ucast m :: u32) < 2 ^ 16" for m :: u16
    using unsigned_less [of m, where 'a = nat] by (simp add: unsigned_ucast_eq take_bit_nat_eq_self)
  from this [of "ucast n"]
  show "20 \<le> unat (lease_secs n)" "unat (lease_secs n) < 2 ^ 16" by (auto simp: lease_secs_def Let_def word_less_nat_alt)
qed

lemma lease_secs_exact:
  assumes "20 \<le> n" "n < 2 ^ 16"
  shows "lease_secs n = n"
proof -
  have u: "20 \<le> unat n" "unat n < 2 ^ 16" using assms by (simp_all add: word_le_nat_alt word_less_nat_alt)
  then have "unat (ucast n :: u16) = unat n" by (simp add: unsigned_ucast_eq take_bit_nat_eq_self)
  then have "ucast n \<noteq> (0 :: u16)" "ucast (ucast n :: u16) = n"
    using u by (auto simp: word_unat_eq_iff unsigned_ucast_eq [of "ucast n :: u16"] take_bit_nat_eq_self)
  then show ?thesis using assms by (auto simp: lease_secs_def Let_def not_less)
qed

text \<open>The part of a reply before its options: BOOTREPLY, Ethernet, the transaction, the offered address and the cookie.\<close>

definition dhcp_reply :: "bytes \<Rightarrow> u32 \<Rightarrow> u32 \<Rightarrow> bool" where
  "dhcp_reply h txid yiaddr \<longleftrightarrow>
     length h = 240 \<and> h ! 0 = 2 \<and> h ! 1 = 1 \<and> h ! 2 = 6 \<and> rd32 h 4 = txid \<and> rd32 h 16 = yiaddr \<and> rd32 h 236 = 0x63825363"


definition unet_ex :: unet where
  "unet_ex = net.extend net_ex (unet.fields True False 7 3 0 0xFFFFFF00 0 0 0 0 0 0 True False 0 (replicate 8 zero_sock) True)"

definition reply_ex :: bytes where
  "reply_ex = [2, 1, 6, 0] @ be32 7 @ replicate 8 0 @ be32 0x0A00020F @ replicate 216 0 @ COOKIE"


section \<open>The queue of a socket\<close>

definition sock_inv :: "udp_sock \<Rightarrow> bool" where
  "sock_inv u \<longleftrightarrow> length (us_q u) = 4 \<and> us_qr u < 4 \<and> us_qn u \<le> 4 \<and> us_qw u = (us_qr u + us_qn u) mod 4"

definition udp_queue :: "udp_sock \<Rightarrow> udp_dgram list" where
  "udp_queue u = map (\<lambda>k. us_q u ! ((us_qr u + k) mod 4)) [0..<us_qn u]"

lemma ring4_neq:
  assumes "k < n" "n < 4"
  shows "(r + n) mod 4 \<noteq> (r + k) mod (4 :: nat)"
proof
  assume "(r + n) mod 4 = (r + k) mod 4"
  then have "4 dvd n - k" using mod_eq_dvd_iff_nat [of "r + k" "r + n" 4] assms(1) by simp
  then show False using assms by (auto dest: dvd_imp_le)
qed

lemma udp_push_queue:
  assumes "sock_inv u"
  shows "udp_queue (udp_push d u) = (if length (udp_queue u) < 4 then udp_queue u @ [d] else udp_queue u)" "sock_inv (udp_push d u)"
proof -
  have i: "length (us_q u) = 4" "us_qr u < 4" "us_qn u \<le> 4" "us_qw u = (us_qr u + us_qn u) mod 4" using assms by (auto simp: sock_inv_def)
  show "sock_inv (udp_push d u)" using i by (auto simp: sock_inv_def udp_push_def UDP_QLEN_def mod_simps)
  have "(us_qr u + us_qn u) mod 4 < length (us_q u)" using i(1) by simp
  then show "udp_queue (udp_push d u) = (if length (udp_queue u) < 4 then udp_queue u @ [d] else udp_queue u)"
    using i by (auto simp: udp_queue_def udp_push_def UDP_QLEN_def ring4_neq)
qed

lemma udp_pop_queue:
  assumes "sock_inv u" "udp_pop u = Some (d, u')"
  shows "udp_queue u = d # udp_queue u' \<and> sock_inv u'"
proof -
  have i: "length (us_q u) = 4" "us_qr u < 4" "us_qn u \<le> 4" "us_qw u = (us_qr u + us_qn u) mod 4" using assms(1) by (auto simp: sock_inv_def)
  have n: "us_qn u \<noteq> 0" and d: "d = us_q u ! us_qr u" and u': "u' = u\<lparr>us_qr := (us_qr u + 1) mod 4, us_qn := us_qn u - 1\<rparr>"
    using assms(2) by (auto simp: udp_pop_def UDP_QLEN_def split: if_splits)
  then obtain m where m: "us_qn u = Suc m" by (metis not0_implies_Suc)
  have "[0..<Suc m] = 0 # map Suc [0..<m]" by (simp add: map_Suc_upt upt_conv_Cons del: upt_Suc)
  then have "udp_queue u = d # udp_queue u'" using i(2) by (simp add: udp_queue_def m d u' mod_simps del: upt_Suc)
  moreover have "sock_inv u'" using i m by (simp add: sock_inv_def u' mod_simps)
  ultimately show ?thesis by simp
qed

interpretation dgrams: bounded_fifo udp_queue 4 udp_push udp_pop sock_inv
proof unfold_locales
  fix s :: udp_sock and d :: udp_dgram and s' :: udp_sock
  assume inv: "sock_inv s"
  show "length (udp_queue s) \<le> 4" using inv by (simp add: sock_inv_def udp_queue_def)
  show "udp_queue (udp_push d s) = (if length (udp_queue s) < 4 then udp_queue s @ [d] else udp_queue s)" "sock_inv (udp_push d s)"
    by (rule udp_push_queue [OF inv])+
  show "udp_pop s = None \<longleftrightarrow> udp_queue s = []" by (simp add: udp_pop_def udp_queue_def)
  show "udp_queue s = d # udp_queue s' \<and> sock_inv s'" if "udp_pop s = Some (d, s')" by (rule udp_pop_queue [OF inv that])
qed


section \<open>Delivery\<close>

lemma rd_skip: "rd16 (xs @ ys) (length xs + p) = rd16 ys p" "rd32 (xs @ ys) (length xs + p) = rd32 ys p"
  by (auto intro!: rd_cong simp: nth_append)

lemma rd_be: "rd16 (be16 v @ x) 0 = v" "rd32 (be32 w @ x) 0 = w"
  using rd_append(1) [of 0 "be16 v" x] rd_append(2) [of 0 "be32 w" x] by (simp_all add: rd16_be16 rd32_be32)

lemma pseudo_sum_small:
  assumes "unat proto \<le> 255" "len \<le> 0xFFFF"
  shows "unat (pseudo_sum src dst proto len) \<le> 0x100000"
proof -
  have l: "unat (of_nat len :: u32) = len" using assms(2) by (simp add: unat_of_nat_small)
  have a: "unat (drop_bit 16 x) < 65536" "unat (x AND 0xFFFF) < 65536" for x :: u32
    using unsigned_less [of x, where 'a = nat] by (simp_all add: unat_halves div_less_iff_less_mult)
  have b: "unat (drop_bit 16 x + (x AND 0xFFFF)) \<le> 2 * 65535" for x :: u32
    using a [of x] by (subst unat_plus_small) simp_all
  have c: "unat (drop_bit 16 src + (src AND 0xFFFF) + (drop_bit 16 dst + (dst AND 0xFFFF))) \<le> 4 * 65535"
    using b [of src] b [of dst] by (subst unat_plus_small) simp_all
  have d: "unat (drop_bit 16 src + (src AND 0xFFFF) + (drop_bit 16 dst + (dst AND 0xFFFF)) + proto) \<le> 4 * 65535 + 255"
    using c assms(1) by (subst unat_plus_small) simp_all
  show ?thesis unfolding pseudo_sum_def using d assms(2) l by (subst unat_plus_small) simp_all
qed

lemma udp_packet_alt:
  obtains ck where "udp_packet src dst dport sport data = be16 sport @ be16 dport @ be16 (of_nat (length data + 8)) @ be16 ck @ data"
    and "length data + 8 \<le> 0xFFFF \<Longrightarrow> udp_checksum src dst (udp_packet src dst dport sport data) = 0"
proof -
  define u where "u = be16 sport @ be16 dport @ be16 (of_nat (length data + 8)) @ be16 0 @ data"
  have p: "udp_packet src dst dport sport data = wr16 6 (udp_checksum src dst u) u" by (simp add: udp_packet_def u_def Let_def)
  have w: "wr16 6 v u = be16 sport @ be16 dport @ be16 (of_nat (length data + 8)) @ be16 v @ data" for v
    by (simp add: u_def wr16_def put_bytes_def be16_def)
  then have z: "wr16 6 0 u = u" by (simp add: u_def)
  have l: "length u = length data + 8" "length (wr16 6 v u) = length u" for v by (simp_all add: u_def)
  have "udp_checksum src dst (udp_packet src dst dport sport data) = 0" if "length data + 8 \<le> 0xFFFF"
    using checksum_field [of 6 u "pseudo_sum src dst 17 (length u)"] pseudo_sum_small [of 17 "length u" src dst] that
    by (simp add: p udp_checksum_def l z)
  then show ?thesis using that [OF w [of "udp_checksum src dst u", folded p]] by blast
qed


definition dgram_view :: "udp_dgram \<Rightarrow> u32 \<times> u16 \<times> bytes" where
  "dgram_view d = (dg_src_ip d, dg_src_port d, take (unat (dg_len d)) (dg_data d))"

definition dgram_ok :: "udp_dgram \<Rightarrow> bool" where
  "dgram_ok d \<longleftrightarrow> length (dg_data d) = UDP_DGRAM_MAX"

lemma fill_dgram_view:
  assumes "length data \<le> UDP_DGRAM_MAX" "dgram_ok d"
  shows "dgram_view (fill_dgram src sport data d) = (src, sport, data)" "dgram_ok (fill_dgram src sport data d)"
proof -
  have "unat (of_nat (length data) :: u16) = length data" using assms(1) by (simp add: UDP_DGRAM_MAX_def unat_of_nat_small)
  then show "dgram_view (fill_dgram src sport data d) = (src, sport, data)" "dgram_ok (fill_dgram src sport data d)"
    using assms by (simp_all add: dgram_view_def dgram_ok_def fill_dgram_def Let_def put_bytes_def)
qed

lemma arp_learn_sockets [simp]:
  "udp_socks (arp_learn ip mac s) = udp_socks s" "dhcp_waiting (arp_learn ip mac s) = dhcp_waiting s"
  "udp_sock_bound port (arp_learn ip mac s) = udp_sock_bound port s"
  by (auto simp: arp_learn_def arp_put_def udp_sock_bound_def split: option.split)

lemma handle_udp_packet:
  assumes "length data + 8 \<le> 0xFFFF" "ip = ip_header tot ident frag 17 src dst @ udp_packet src dst dport sport data @ rest"
    and "\<not> (dport = 68 \<and> dhcp_waiting s)" "udp_sock_bound dport s = Some k"
  shows "handle_udp ip (28 + length data) eth_src s =
    upd_sock k (\<lambda>us. udp_push (fill_dgram src sport data (us_q us ! us_qw us)) us) (case eth_src of Some mac \<Rightarrow> arp_learn src mac s | None \<Rightarrow> s)"
proof -
  obtain ck where p: "udp_packet src dst dport sport data = be16 sport @ be16 dport @ be16 (of_nat (length data + 8)) @ be16 ck @ data"
    and ck: "udp_checksum src dst (udp_packet src dst dport sport data) = 0"
    using udp_packet_alt assms(1) by metis
  define u where "u = udp_packet src dst dport sport data @ rest"
  have lu: "unat (of_nat (length data + 8) :: u16) = length data + 8" using assms(1) by (intro unat_of_nat_small) simp
  have h: "ip ! 0 = 0x45" "rd32 ip 12 = src" "rd32 ip 16 = dst" "drop 20 ip = u"
    using ip_header_fields [OF refl, of tot ident frag 17 src dst] by (simp_all add: assms(2) nth_append rd_append u_def)
  have f: "rd16 u 0 = sport" "rd16 u 2 = dport" "rd16 u 4 = of_nat (length data + 8)"
    using rd_skip(1) [of "be16 sport" _ 0] rd_skip(1) [of "be16 sport @ be16 dport" _ 0] by (simp_all add: u_def p rd_be)
  have "length (udp_packet src dst dport sport data) = length data + 8" by (simp add: p)
  then have t: "take (length data + 8) u = udp_packet src dst dport sport data" "sub_bytes u 8 (length data) = data"
    by (simp add: u_def) (simp add: u_def p sub_bytes_def be16_def)
  let ?s = "case eth_src of Some mac \<Rightarrow> arp_learn src mac s | None \<Rightarrow> s"
  have s: "dhcp_waiting ?s = dhcp_waiting s" "udp_sock_bound dport ?s = Some k" using assms(4) by (auto split: option.split)
  have g: "(28 + length data < 20 + 8) = False" "28 + length data - 20 = length data + 8"
    "(length data + 8 < 8 \<or> length data + 8 > length data + 8) = False" "length data + 8 - 8 = length data"
    "(dport = 68 \<and> dhcp_waiting s \<and> length data + 8 \<ge> 244) = False"
    using assms(3) by auto
  have i: "unat ((0x45 :: u8) AND 0x0F) * 4 = 20" using header_nibbles(1) by simp
  show ?thesis
    unfolding handle_udp_def h(1) i Let_def h(2-4) f lu g(1-3) if_False t(1) ck s g(4,5) by (simp add: t(2))
qed

lemma recv_single:
  assumes "udp_queue u = [d]" "sock_inv u" "sock_ok (int k) s" "udp_socks s ! k = u" "dgram_view d = (src, sport, data)"
    and "unat (dg_len d) = length data" "length data \<le> UDP_DGRAM_MAX"
  shows "\<exists>r. net_udp_recv_from (int k) cap s = (int (min (unat cap) (length data)), Some (take (unat cap) data, src, sport), r)"
proof -
  obtain x v where p: "udp_pop u = Some (x, v)" using dgrams.pop_none [OF assms(2)] assms(1) by (cases "udp_pop u") auto
  then have x: "x = d" using udp_pop_queue [OF assms(2)] assms(1) by auto
  have t: "take (length data) (dg_data d) = data" "dg_src_ip d = src" "dg_src_port d = sport" using assms(5,6) by (simp_all add: dgram_view_def)
  define n where "n = (if cap < ucast (dg_len d) then ucast cap else dg_len d)"
  have ul: "unat (ucast (dg_len d) :: u32) = length data"
    using unsigned_less [of "dg_len d", where 'a = nat] assms(6) by (simp add: unsigned_ucast_eq take_bit_nat_eq_self)
  have n: "unat n = min (unat cap) (length data)"
  proof (cases "unat cap < length data")
    case True
    then have "unat cap < 2 ^ 16" using assms(7) by (simp add: UDP_DGRAM_MAX_def)
    then have "unat (ucast cap :: u16) = unat cap" by (simp add: unsigned_ucast_eq take_bit_nat_eq_self)
    then show ?thesis using True by (simp add: n_def word_less_nat_alt ul)
  qed (simp add: n_def word_less_nat_alt ul assms(6))
  have un: "uint n = int (min (unat cap) (length data))" using arg_cong [OF n, of int] by simp
  have "take (unat n) (dg_data d) = take (unat cap) data"
    using t(1) by (simp add: n) (metis min.commute take_take)
  then show ?thesis
    using p x n un t(2,3) assms(3,4) by (simp add: net_udp_recv_from_def Let_def n_def [symmetric])
qed

text \<open>
  C25. Delivery of datagrams. The packet that \<^verbatim>\<open>udp_send\<close> makes, with whatever follows it in the frame, is accepted
  by \<^verbatim>\<open>handle_udp\<close> of a host that has a socket bound to its port: it is queued behind what the
  queue holds, with the sender's address and port and exactly the payload, or dropped when four
  datagrams wait; no other socket changes. The next \<^verbatim>\<open>net_udp_recv_from\<close> on an empty queue returns it, cut
  to the caller's buffer.
\<close>

theorem udp_deliver:
  assumes "length data \<le> UDP_DGRAM_MAX" "ip = ip_header tot ident frag 17 src dst @ udp_packet src dst dport sport data @ rest"
    and "\<not> (dport = 68 \<and> dhcp_waiting s)" "udp_sock_bound dport s = Some k" "length (udp_socks s) = UDP_SOCKS"
    and "u = udp_socks s ! k" "sock_inv u" "list_all dgram_ok (us_q u)"
    and "s' = handle_udp ip (28 + length data) eth_src s" "u' = udp_socks s' ! k"
  shows "map dgram_view (udp_queue u') = (if length (udp_queue u) < 4 then map dgram_view (udp_queue u) @ [(src, sport, data)] else map dgram_view (udp_queue u))
     \<and> sock_inv u' \<and> list_all dgram_ok (us_q u') \<and> (\<forall>j. j \<noteq> k \<longrightarrow> udp_socks s' ! j = udp_socks s ! j)
     \<and> (udp_queue u = [] \<longrightarrow> (\<exists>r. net_udp_recv_from (int k) cap s' = (int (min (unat cap) (length data)), Some (take (unat cap) data, src, sport), r)))"
proof -
  define d where "d = fill_dgram src sport data (us_q u ! us_qw u)"
  have k: "k < 8" "us_used u" using find_from_SomeD [OF assms(4) [unfolded udp_sock_bound_def]] by (auto simp: UDP_SOCKS_def assms(6))
  have "length data + 8 \<le> 0xFFFF" using assms(1) by (simp add: UDP_DGRAM_MAX_def)
  note H = handle_udp_packet [OF this assms(2-4), of eth_src, folded assms(9)]
  have s': "udp_socks s' = (udp_socks s)[k := udp_push d u]"
    by (auto simp: H upd_sock_def d_def assms(6) split: option.split)
  have u': "u' = udp_push d u" using k assms(5) by (simp add: assms(10) s' UDP_SOCKS_def)
  have qw: "us_qw u < length (us_q u)" using assms(7) by (simp add: sock_inv_def)
  then have "dgram_ok (us_q u ! us_qw u)" using assms(8) by (simp add: list_all_length)
  then have d: "dgram_view d = (src, sport, data)" "dgram_ok d" using fill_dgram_view [OF assms(1)] by (simp_all add: d_def)
  have q: "udp_queue u' = (if length (udp_queue u) < 4 then udp_queue u @ [d] else udp_queue u)" "sock_inv u'"
    using udp_push_queue [OF assms(7)] by (simp_all add: u')
  have ok: "list_all dgram_ok (us_q u')"
    using assms(8) d(2) qw by (auto simp: u' udp_push_def list_all_length nth_list_update)
  have l: "unat (dg_len d) = length data" using assms(1) by (simp add: d_def fill_dgram_def Let_def UDP_DGRAM_MAX_def unat_of_nat_small)
  have "sock_ok (int k) s'" using k assms(5,10) by (simp add: sock_ok_def UDP_SOCKS_def u' assms(10) [symmetric] udp_push_def)
  then have "udp_queue u = [] \<longrightarrow> (\<exists>r. net_udp_recv_from (int k) cap s' = (int (min (unat cap) (length data)), Some (take (unat cap) data, src, sport), r))"
    using recv_single [OF _ q(2) _ assms(10) [symmetric] d(1) l assms(1), of cap] q(1) by simp
  then show ?thesis using q d ok k by (auto simp: s')
qed

definition sock_ex :: udp_sock where
  "sock_ex = zero_sock\<lparr>us_used := True, us_bound := True, us_lport := 7\<rparr>"

lemma sock_ex_ok: "sock_inv sock_ex" "udp_queue sock_ex = []" "list_all dgram_ok (us_q sock_ex)"
  by (simp_all add: sock_ex_def zero_sock_def sock_inv_def udp_queue_def UDP_QLEN_def dgram_ok_def zero_dgram_def list_all_length)

theorem udp_deliver_witness:
  "\<exists>r. net_udp_recv_from (int 0) 1500
     (handle_udp (ip_header 30 1 0 17 0x0A000202 0x0A00020F @ udp_packet 0x0A000202 0x0A00020F 7 9 [104, 105] @ [0, 0]) (28 + length [104 :: u8, 105]) None
        (unet_ex\<lparr>udp_socks := sock_ex # replicate 7 zero_sock\<rparr>)) = (int (min (unat (1500 :: u32)) 2), Some (take (unat (1500 :: u32)) [104, 105], 0x0A000202, 9), r)"
proof -
  let ?s = "unet_ex\<lparr>udp_socks := sock_ex # replicate 7 zero_sock\<rparr>"
  have b: "udp_sock_bound 7 ?s = Some 0"
    unfolding udp_sock_bound_def by (rule find_from_SomeI) (simp_all add: UDP_SOCKS_def sock_ex_def)
  have l: "length [104 :: u8, 105] \<le> UDP_DGRAM_MAX" "length (udp_socks ?s) = UDP_SOCKS" "sock_ex = udp_socks ?s ! 0" "\<not> ((7 :: u16) = 68 \<and> dhcp_waiting ?s)"
    by (simp_all add: UDP_DGRAM_MAX_def UDP_SOCKS_def)
  show ?thesis
    using udp_deliver [OF l(1) refl l(4) b l(2,3) sock_ex_ok(1,3) refl refl, of 30 1 0 "0x0A000202" "0x0A00020F" 9 "[0, 0]" None 1500] sock_ex_ok(2)
    by simp
qed

text \<open>
  The second loop of \<^verbatim>\<open>net_dhcp\<close> is entered with \<^verbatim>\<open>dhcp_done\<close> still set by the offer, so that its body never
  runs: no REQUEST is sent, and the offered address is used without the server's acknowledgement.
\<close>

lemma dhcp_discover_done: "dhcp_discover wall rounds s = (True, s') \<Longrightarrow> dhcp_done s'"
  by (induction wall rounds s rule: dhcp_discover.induct) (auto simp: Let_def split: if_splits)

lemma dhcp_request_skipped: "dhcp_done s \<Longrightarrow> dhcp_request wall rounds s = s"
  by (cases rounds) auto

lemma net_dhcp_no_request: "net_dhcp rounds1 rounds2 s = net_dhcp rounds1 [] s"
  by (auto simp: net_dhcp_def Let_def dhcp_request_skipped split: prod.split dest!: dhcp_discover_done)

end
