(* ===== verification/Net_Dns.thy ===== *)
theory Net_Dns
  imports Net_Udp
begin

text \<open>
  The DNS resolver of \<^verbatim>\<open>kernel/net.cpp\<close>: the encoding of queries, the two readers of (compressed) names, the
  parser of answers, the cache, and \<^verbatim>\<open>net_dns_resolve\<close>. A C string is the list of its characters without
  the terminating zero; a buffer that the code fills without terminating it is an array of bytes.
\<close>

section \<open>Messages\<close>

abbreviation DOT_CHAR :: u8 where "DOT_CHAR \<equiv> 46"

text \<open>The loop of \<^verbatim>\<open>dns_qname\<close>: what it writes from \<^verbatim>\<open>out[n]\<close> on.\<close>

function dns_labels :: "nat \<Rightarrow> bytes \<Rightarrow> bytes" where
  "dns_labels n name =
     (if name \<noteq> [] \<and> n < 250
      then
        let lab = takeWhile (\<lambda>c. c \<noteq> DOT_CHAR) name; rest = drop (length lab) name;
            enc = (if 0 < length lab \<and> length lab \<le> 63 then of_nat (length lab) # lab else [])
        in enc @ dns_labels (n + length enc) (if rest \<noteq> [] then tl rest else rest)
      else [])"
  by auto
termination
proof (relation "measure (\<lambda>(_, name). length name)", goal_cases)
  case (2 n name lab rest enc)
  then show ?case using length_takeWhile_le [of "\<lambda>c. c \<noteq> DOT_CHAR" name] by (cases "rest = []") auto
qed simp

declare dns_labels.simps [simp del]

definition dns_qname :: "bytes \<Rightarrow> bytes" where
  "dns_qname name = dns_labels 0 name @ [0]"

definition dns_query :: "u16 \<Rightarrow> bytes \<Rightarrow> bytes" where
  "dns_query qid name =
     be16 qid @ be16 0x0100 @ be16 1 @ be16 0 @ be16 0 @ be16 0 @ dns_qname name @ be16 1 @ be16 1"

text \<open>
  The position after a name, \<open>None\<close> for \<^verbatim>\<open>-1\<close>. The counter of jumps never passes one, since the function
  returns at the first pointer.
\<close>

function dns_skip_name :: "bytes \<Rightarrow> nat \<Rightarrow> nat \<Rightarrow> nat option" where
  "dns_skip_name d pos limit =
     (if pos \<ge> limit then None
      else if d ! pos AND 0xC0 \<noteq> 0 then Some (pos + 2)
      else if d ! pos = 0 then Some (pos + 1)
      else dns_skip_name d (pos + 1 + unat (d ! pos)) limit)"
  by auto
termination by (relation "measure (\<lambda>(_, pos, limit). limit - pos)") auto

declare dns_skip_name.simps [simp del]

text \<open>The copy of one label into the caller's buffer.\<close>

fun dns_copy :: "bytes \<Rightarrow> nat \<Rightarrow> nat \<Rightarrow> nat \<Rightarrow> nat \<Rightarrow> bytes \<Rightarrow> nat option \<times> bytes" where
  "dns_copy d src 0 n cap out = (Some n, out)"
| "dns_copy d src (Suc k) n cap out =
     (if n + 1 \<ge> cap then (None, out) else dns_copy d (src + 1) k (n + 1) cap (out[n := d ! src]))"

text \<open>
  The loop of \<^verbatim>\<open>dns_read_name\<close>. At most twelve pointers are followed and between two of them the
  position grows, so the loop ends on every packet.
\<close>

function dns_name_loop :: "bytes \<Rightarrow> nat \<Rightarrow> nat \<Rightarrow> nat \<Rightarrow> nat \<Rightarrow> bool \<Rightarrow> nat \<Rightarrow> nat \<Rightarrow> bytes \<Rightarrow> nat option \<times> bytes" where
  "dns_name_loop d limit cap cp after jumped jumps n out =
     (if cp + 1 > limit then (None, out)
      else
        let blen = d ! cp
        in if blen AND 0xC0 \<noteq> 0
           then
             if jumps + 1 > 12 then (None, out)
             else if cp + 1 \<ge> limit then (None, out)
             else dns_name_loop d limit cap (unat (blen AND 0x3F) * 256 + unat (d ! (cp + 1))) (if jumped then after else cp + 2) True (jumps + 1) n out
           else if blen = 0
           then (Some (if jumped then after else cp + 1), if n = 0 \<and> cap > 0 then out[0 := 0] else out)
           else if cp + 1 + unat blen > limit then (None, out)
           else
             case dns_copy d (cp + 1) (unat blen) n cap out of
               (None, out) \<Rightarrow> (None, out)
             | (Some n, out) \<Rightarrow>
                 if n + 1 \<ge> cap then (None, out)
                 else dns_name_loop d limit cap (cp + 1 + unat blen) after jumped jumps (n + 1) (out[n := DOT_CHAR]))"
  by pat_completeness auto
termination
  by (relation "measures [\<lambda>(_, _, _, _, _, _, jumps, _). 12 - jumps, \<lambda>(_, limit, _, cp, _). limit - cp]") auto

declare dns_name_loop.simps [simp del]

definition dns_read_name :: "bytes \<Rightarrow> nat \<Rightarrow> nat \<Rightarrow> bytes \<Rightarrow> nat \<Rightarrow> nat option \<times> bytes" where
  "dns_read_name d pos limit out cap = dns_name_loop d limit cap pos pos False 0 0 out"

fun dns_skip_questions :: "bytes \<Rightarrow> nat \<Rightarrow> nat \<Rightarrow> nat \<Rightarrow> nat option" where
  "dns_skip_questions d limit 0 pos = Some pos"
| "dns_skip_questions d limit (Suc q) pos =
     (case dns_skip_name d pos limit of None \<Rightarrow> None | Some pos \<Rightarrow> dns_skip_questions d limit q (pos + 4))"

text \<open>The results of the parser: an address with its time to live, the target of an alias, nothing.\<close>

datatype dns_ans = Dns_none | Dns_addr u32 u32 | Dns_cname

fun dns_answers :: "bytes \<Rightarrow> nat \<Rightarrow> nat \<Rightarrow> nat \<Rightarrow> nat \<Rightarrow> bool \<Rightarrow> bytes \<Rightarrow> dns_ans \<times> bytes" where
  "dns_answers d limit cap 0 pos got_cname cname = (if got_cname then Dns_cname else Dns_none, cname)"
| "dns_answers d limit cap (Suc an) pos got_cname cname =
     (case dns_skip_name d pos limit of
        None \<Rightarrow> (if got_cname then Dns_cname else Dns_none, cname)
      | Some pos \<Rightarrow>
          if pos + 10 > limit then (if got_cname then Dns_cname else Dns_none, cname)
          else
            let type = rd16 d pos; rdlen = unat (rd16 d (pos + 8)); ttl = rd32 d (pos + 4); pos = pos + 10
            in if type = 1 \<and> rdlen = 4 \<and> pos + 4 \<le> limit then (Dns_addr (rd32 d pos) ttl, cname)
               else if type = 5 \<and> rdlen \<le> limit - pos \<and> \<not> got_cname \<and> cap > 0
               then
                 case dns_read_name d pos limit cname cap of
                   (r, cname) \<Rightarrow> dns_answers d limit cap an (pos + rdlen) (r \<noteq> None) cname
               else dns_answers d limit cap an (pos + rdlen) got_cname cname)"

definition dns_parse_ans :: "bytes \<Rightarrow> nat \<Rightarrow> bytes \<Rightarrow> nat \<Rightarrow> dns_ans \<times> bytes" where
  "dns_parse_ans d len cname cap =
     (if len < 12 then (Dns_none, cname)
      else if rd16 d 2 AND 0x8000 = 0 then (Dns_none, cname)
      else
        case dns_skip_questions d len (unat (rd16 d 4)) 12 of
          None \<Rightarrow> (Dns_none, cname)
        | Some pos \<Rightarrow> dns_answers d len cap (unat (rd16 d 6)) pos False cname)"


section \<open>The cache\<close>

definition DNS_CACHE :: nat where "DNS_CACHE = 16"

record dns_entry =
  dc_valid :: bool
  dc_name :: bytes
  dc_ip :: u32
  dc_until :: u64

record dnet = unet +
  dns_cache :: "dns_entry list"
  dns_cache_hits :: u32

text \<open>The scan of the cache, which drops the expired entries it meets.\<close>

fun dns_cache_scan :: "u64 \<Rightarrow> bytes \<Rightarrow> dns_entry list \<Rightarrow> u32 option \<times> dns_entry list" where
  "dns_cache_scan t name [] = (None, [])"
| "dns_cache_scan t name (e # es) =
     (if \<not> dc_valid e then (case dns_cache_scan t name es of (r, es) \<Rightarrow> (r, e # es))
      else if t \<ge> dc_until e then (case dns_cache_scan t name es of (r, es) \<Rightarrow> (r, e\<lparr>dc_valid := False\<rparr> # es))
      else if dc_name e = name then (Some (dc_ip e), e # es)
      else (case dns_cache_scan t name es of (r, es) \<Rightarrow> (r, e # es)))"

definition dns_cache_lookup :: "bytes \<Rightarrow> 'a dnet_scheme \<Rightarrow> u32 option \<times> 'a dnet_scheme" where
  "dns_cache_lookup name s =
     (case dns_cache_scan (now s) name (dns_cache s) of
        (r, es) \<Rightarrow> (r, s\<lparr>dns_cache := es, dns_cache_hits := (if r = None then dns_cache_hits s else dns_cache_hits s + 1)\<rparr>))"

fun dns_oldest :: "nat \<Rightarrow> u64 \<Rightarrow> nat option \<Rightarrow> dns_entry list \<Rightarrow> nat option" where
  "dns_oldest i oldest slot [] = slot"
| "dns_oldest i oldest slot (e # es) =
     (if dc_until e < oldest then dns_oldest (i + 1) (dc_until e) (Some i) es else dns_oldest (i + 1) oldest slot es)"

definition dns_slot :: "'a dnet_scheme \<Rightarrow> nat option" where
  "dns_slot s =
     (case find_from (\<lambda>i. \<not> dc_valid (dns_cache s ! i) \<or> now s \<ge> dc_until (dns_cache s ! i)) 0 DNS_CACHE of
        Some i \<Rightarrow> Some i
      | None \<Rightarrow> dns_oldest 0 (- 1) None (dns_cache s))"

text \<open>
  No slot is found only when all entries have the largest possible expiry; the code would then
  write before the array, which the model leaves out.
\<close>

definition dns_cache_store :: "bytes \<Rightarrow> u32 \<Rightarrow> u32 \<Rightarrow> 'a dnet_scheme \<Rightarrow> 'a dnet_scheme" where
  "dns_cache_store name ip ttl s =
     (case dns_slot s of
        None \<Rightarrow> s
      | Some i \<Rightarrow> s\<lparr>dns_cache := (dns_cache s)[i := \<lparr>dc_valid = True, dc_name = take 63 name, dc_ip = ip, dc_until = now s + ucast ttl * 100\<rparr>]\<rparr>)"


section \<open>Resolution\<close>

text \<open>
  \<^verbatim>\<open>for (i = 0; i < 127 && src[i]; i++) qn[i] = src[i]; qn[127] = 0;\<close>, which does not terminate
  the copy, and the string that starts at a buffer.
\<close>

definition copy_name :: "bytes \<Rightarrow> bytes \<Rightarrow> bytes" where
  "copy_name src qn = (put_bytes qn 0 (take 127 src))[127 := 0]"

definition c_string :: "bytes \<Rightarrow> bytes" where
  "c_string b = takeWhile (\<lambda>c. c \<noteq> 0) b"

text \<open>The query as it is sent, padded to 32 bytes.\<close>

definition dns_question :: "u16 \<Rightarrow> bytes \<Rightarrow> bytes" where
  "dns_question qid qn = (let q = dns_query qid (c_string qn) in q @ replicate (32 - length q) 0)"

text \<open>
  The wait for an answer with the number \<open>qid\<close> until the time \<open>t\<close>; every pass of the loop ends with
  a halt, that is with the next interrupt.
\<close>

fun dns_await :: "u16 \<Rightarrow> u64 \<Rightarrow> nat \<Rightarrow> ('a dnet_scheme \<Rightarrow> 'a dnet_scheme) list \<Rightarrow> bytes \<Rightarrow> 'a dnet_scheme \<Rightarrow> dns_ans \<times> bytes \<times> 'a dnet_scheme" where
  "dns_await qid t k [] qn s = (Dns_none, qn, s)"
| "dns_await qid t k (irq # irqs) qn s =
     (if now s < t \<and> \<not> sys_intr_pending (nintr s)
      then
        case net_udp_recv_from (int k) 512 s of
          (got, Some (r, _, _), s) \<Rightarrow>
            if got \<ge> 12 \<and> rd16 r 0 = qid
            then
              case dns_parse_ans r (nat got) (replicate 128 0) 128 of
                (Dns_addr ip ttl, cname) \<Rightarrow> (Dns_addr ip ttl, qn, irq s)
              | (Dns_cname, cname) \<Rightarrow>
                  if cname ! 0 \<noteq> 0 then (Dns_cname, copy_name (c_string cname) qn, irq s) else dns_await qid t k irqs qn (irq s)
              | (Dns_none, cname) \<Rightarrow> dns_await qid t k irqs qn (irq s)
            else dns_await qid t k irqs qn (irq s)
        | (got, None, s) \<Rightarrow> dns_await qid t k irqs qn (irq s)
      else (Dns_none, qn, s))"

text \<open>
  Up to three attempts per name and up to eight names in a chain of aliases. The first list holds
  the interrupts while a query is sent, the second those of the wait for its answer.
\<close>

fun dns_attempts :: "nat \<Rightarrow> nat \<Rightarrow> nat \<Rightarrow> (nat \<Rightarrow> 'a dnet_scheme round) \<Rightarrow> u32 \<Rightarrow> bytes \<Rightarrow> 'a dnet_scheme \<Rightarrow> dns_ans \<times> bytes \<times> 'a dnet_scheme" where
  "dns_attempts 0 hop k rounds server qn s = (Dns_none, qn, s)"
| "dns_attempts (Suc m) hop k rounds server qn s =
     (let attempt = 3 - Suc m;
          qid = ucast ((now s + of_nat attempt + of_nat hop) * 0x9E37) OR 0x8000;
          s = snd (net_udp_send_to (fst (rounds attempt)) (int k) server 53 (dns_question qid qn) s)
      in case dns_await qid (now s + 100) k (snd (rounds attempt)) qn s of
           (Dns_none, qn, s) \<Rightarrow> dns_attempts m hop k rounds server qn s
         | r \<Rightarrow> r)"

fun dns_hops :: "nat \<Rightarrow> nat \<Rightarrow> (nat \<Rightarrow> nat \<Rightarrow> 'a dnet_scheme round) \<Rightarrow> u32 \<Rightarrow> bytes \<Rightarrow> 'a dnet_scheme \<Rightarrow> (u32 \<times> u32) option \<times> 'a dnet_scheme" where
  "dns_hops 0 k rounds server qn s = (None, s)"
| "dns_hops (Suc m) k rounds server qn s =
     (let hop = 8 - Suc m
      in case dns_attempts 3 hop k (rounds hop) server qn s of
           (Dns_addr ip ttl, qn, s) \<Rightarrow> (Some (ip, ttl), s)
         | (Dns_cname, qn, s) \<Rightarrow> dns_hops m k rounds server qn s
         | (Dns_none, qn, s) \<Rightarrow> (None, s))"

text \<open>\<open>stack\<close> is what the uninitialised buffer \<^verbatim>\<open>qn\<close> happens to hold.\<close>

definition net_dns_resolve :: "bytes \<Rightarrow> (nat \<Rightarrow> nat \<Rightarrow> 'a dnet_scheme round) \<Rightarrow> bytes \<Rightarrow> 'a dnet_scheme \<Rightarrow> u32 option \<times> 'a dnet_scheme" where
  "net_dns_resolve stack rounds name s =
     (if \<not> nic_is_up s then (None, s)
      else if name = [] then (None, s)
      else
        case dns_cache_lookup name s of
          (Some ip, s) \<Rightarrow> (Some ip, s)
        | (None, s) \<Rightarrow>
            let server = (if dns_server s \<noteq> 0 then dns_server s else 0x0A000203); qn = copy_name name stack
            in case net_udp_socket s of
                 (None, s) \<Rightarrow> (None, s)
               | (Some k, s) \<Rightarrow>
                   (case net_udp_bind (int k) 0 s of
                      (False, s) \<Rightarrow> (None, snd (net_udp_close (int k) s))
                    | (True, s) \<Rightarrow>
                        (case dns_hops 8 k rounds server qn s of
                           (None, s) \<Rightarrow> (None, snd (net_udp_close (int k) s))
                         | (Some (ip, ttl), s) \<Rightarrow>
                             let s = snd (net_udp_close (int k) s)
                             in (Some ip, if ip \<noteq> 0 then dns_cache_store name ip (if ttl = 0 then 60 else ttl) s else s))))"


section \<open>Names\<close>

definition good_label :: "bytes \<Rightarrow> bool" where
  "good_label l \<longleftrightarrow> 0 < length l \<and> length l \<le> 63 \<and> DOT_CHAR \<notin> set l"

fun dotted :: "bytes list \<Rightarrow> bytes" where
  "dotted [] = []"
| "dotted (l # ls) = l @ (if ls = [] then [] else DOT_CHAR # dotted ls)"

definition enc_labels :: "bytes list \<Rightarrow> bytes" where
  "enc_labels ls = concat (map (\<lambda>l. of_nat (length l) # l) ls)"

definition dot_labels :: "bytes list \<Rightarrow> bytes" where
  "dot_labels ls = concat (map (\<lambda>l. l @ [DOT_CHAR]) ls)"

lemma enc_labels_Cons: "enc_labels (l # ls) = of_nat (length l) # l @ enc_labels ls"
  by (simp add: enc_labels_def)

lemma dot_labels_dotted: "ls \<noteq> [] \<Longrightarrow> dot_labels ls = dotted ls @ [DOT_CHAR]"
  by (induction ls rule: dotted.induct) (auto simp: dot_labels_def)

lemma label_byte:
  assumes "good_label l"
  shows "of_nat (length l) AND (0xC0 :: u8) = 0" "of_nat (length l) \<noteq> (0 :: u8)" "unat (of_nat (length l) :: u8) = length l"
proof -
  have "list_all (\<lambda>n. of_nat n AND (0xC0 :: u8) = 0) [0..<64]" by code_simp
  then show "of_nat (length l) AND (0xC0 :: u8) = 0" using assms by (simp add: list_all_iff good_label_def)
  show u: "unat (of_nat (length l) :: u8) = length l" using assms by (simp add: good_label_def unat_of_nat_small)
  show "of_nat (length l) \<noteq> (0 :: u8)" using assms u by (auto simp: good_label_def)
qed

lemma takeWhile_label: "good_label l \<Longrightarrow> takeWhile (\<lambda>c. c \<noteq> DOT_CHAR) (l @ x) = l @ takeWhile (\<lambda>c. c \<noteq> DOT_CHAR) x"
  by (rule takeWhile_append2) (auto simp: good_label_def)

lemma dns_labels_dotted:
  "list_all good_label ls \<Longrightarrow> n + length (enc_labels ls) \<le> 250 \<Longrightarrow> dns_labels n (dotted ls) = enc_labels ls"
proof (induction ls arbitrary: n)
  case Nil
  then show ?case by (simp add: dns_labels.simps enc_labels_def)
next
  case (Cons l ls)
  have l: "good_label l" "list_all good_label ls" using Cons.prems(1) by simp_all
  then have l2: "l \<noteq> []" "length l \<le> 63" by (auto simp: good_label_def)
  have n: "n < 250" "n + Suc (length l) + length (enc_labels ls) \<le> 250" using Cons.prems(2) l2 by (auto simp: enc_labels_Cons)
  define name where "name = dotted (l # ls)"
  define rest where "rest = (if ls = [] then [] else DOT_CHAR # dotted ls)"
  have t: "takeWhile (\<lambda>c. c \<noteq> DOT_CHAR) name = l" "drop (length l) name = rest" "name \<noteq> []"
    using takeWhile_label [OF l(1)] l2(1) by (simp_all add: name_def rest_def)
  have e: "(name \<noteq> [] \<and> n < 250) = True" "(0 < length l \<and> length l \<le> 63) = True" using t(3) n(1) l2 by auto
  have r: "(if rest \<noteq> [] then tl rest else rest) = dotted ls" by (simp add: rest_def)
  have "dns_labels n name = (of_nat (length l) # l) @ dns_labels (n + length ((of_nat (length l) :: u8) # l)) (dotted ls)"
    unfolding dns_labels.simps [of n name] Let_def t(1,2) r e if_True ..
  also have "\<dots> = enc_labels (l # ls)" using Cons.IH [OF l(2) n(2)] by (simp add: enc_labels_Cons)
  finally show ?case by (simp add: name_def)
qed

lemma dns_skip_labels:
  "list_all good_label ls \<Longrightarrow> d = pre @ enc_labels ls @ 0 # post \<Longrightarrow> length pre + length (enc_labels ls) + 1 \<le> limit \<Longrightarrow>
     dns_skip_name d (length pre) limit = Some (length pre + length (enc_labels ls) + 1)"
proof (induction ls arbitrary: pre)
  case Nil
  then show ?case by (subst dns_skip_name.simps) (simp add: enc_labels_def)
next
  case (Cons l ls)
  have l: "good_label l" "list_all good_label ls" using Cons.prems(1) by auto
  define pre' where "pre' = pre @ of_nat (length l) # l"
  have d: "d = pre' @ enc_labels ls @ 0 # post" "d ! length pre = of_nat (length l)"
    using Cons.prems(2) by (simp_all add: pre'_def enc_labels_Cons)
  have len: "length pre' = length pre + 1 + length l" "length pre' + length (enc_labels ls) + 1 \<le> limit" "\<not> limit \<le> length pre"
    using Cons.prems(3) by (simp_all add: pre'_def enc_labels_Cons)
  have "dns_skip_name d (length pre) limit = dns_skip_name d (length pre') limit"
    using len(3) label_byte [OF l(1)] by (subst dns_skip_name.simps) (simp add: d(2) len(1))
  then show ?case using Cons.IH [OF l(2) d(1) len(2)] by (simp add: len(1) enc_labels_Cons)
qed

lemma dns_copy_label:
  "d = pre @ l @ post \<Longrightarrow> n + length l < cap \<Longrightarrow> length out = cap \<Longrightarrow>
     dns_copy d (length pre) (length l) n cap out = (Some (n + length l), put_bytes out n l)"
proof (induction l arbitrary: pre n out)
  case Nil
  then show ?case by (simp add: put_bytes_def)
next
  case (Cons c l)
  have d: "d = (pre @ [c]) @ l @ post" "d ! length pre = c" using Cons.prems(1) by simp_all
  have "dns_copy d (length pre) (length (c # l)) n cap out = dns_copy d (length (pre @ [c])) (length l) (n + 1) cap (out[n := c])"
    using Cons.prems(2) d(2) by simp
  also have "\<dots> = (Some (n + 1 + length l), put_bytes (out[n := c]) (n + 1) l)"
    using Cons.IH [OF d(1), of "n + 1" "out[n := c]"] Cons.prems(2,3) by simp
  also have "put_bytes (out[n := c]) (n + 1) l = put_bytes out n (c # l)"
    using Cons.prems(2,3) by (simp add: put_bytes_def take_Suc_conv_app_nth nth_list_update)
  finally show ?case by simp
qed

lemma put_bytes_append:
  assumes "n + length x + length y \<le> length out"
  shows "put_bytes (put_bytes out n x) (n + length x) y = put_bytes out n (x @ y)"
  using assms by (intro nth_equalityI) (auto simp: nth_put_bytes nth_append)

lemma put_bytes_single: "n < length out \<Longrightarrow> out[n := c] = put_bytes out n [c]"
  by (simp add: put_bytes_def upd_conv_take_nth_drop)

lemma dns_read_labels:
  "list_all good_label ls \<Longrightarrow> d = pre @ enc_labels ls @ 0 # post \<Longrightarrow> length pre + length (enc_labels ls) + 1 \<le> limit \<Longrightarrow>
     length out = cap \<Longrightarrow> n + length (dot_labels ls) < cap \<Longrightarrow> n > 0 \<or> ls \<noteq> [] \<Longrightarrow>
     dns_name_loop d limit cap (length pre) after False jumps n out = (Some (length pre + length (enc_labels ls) + 1), put_bytes out n (dot_labels ls))"
proof (induction ls arbitrary: pre n out)
  case Nil
  then show ?case by (subst dns_name_loop.simps) (simp add: enc_labels_def dot_labels_def put_bytes_def)
next
  case (Cons l ls)
  have l: "good_label l" "list_all good_label ls" using Cons.prems(1) by auto
  define pre' where "pre' = pre @ of_nat (length l) # l"
  have d: "d = pre' @ enc_labels ls @ 0 # post" "d ! length pre = of_nat (length l)" "d = (pre @ [of_nat (length l)]) @ l @ enc_labels ls @ 0 # post"
    using Cons.prems(2) by (simp_all add: pre'_def enc_labels_Cons)
  have len: "length pre' = length pre + 1 + length l" "length pre' + length (enc_labels ls) + 1 \<le> limit" "\<not> limit < length pre + 1" "\<not> limit < length pre + 1 + length l"
    using Cons.prems(3) by (simp_all add: pre'_def enc_labels_Cons)
  have n: "n + length l < cap" "\<not> cap \<le> n + length l + 1" "n + length l + 1 + length (dot_labels ls) < cap" using Cons.prems(5) by (simp_all add: dot_labels_def)
  have c: "dns_copy d (length pre + 1) (length l) n cap out = (Some (n + length l), put_bytes out n l)"
    using dns_copy_label [OF d(3) n(1) Cons.prems(4)] by simp
  define out' where "out' = (put_bytes out n l)[n + length l := DOT_CHAR]"
  have o: "out' = put_bytes out n (l @ [DOT_CHAR])" "length out' = cap"
    using n Cons.prems(4) by (simp_all add: out'_def put_bytes_single put_bytes_append)
  have "dns_name_loop d limit cap (length pre) after False jumps n out = dns_name_loop d limit cap (length pre') after False jumps (n + length l + 1) out'"
    using label_byte [OF l(1)] len(3,4) n(2) c by (subst dns_name_loop.simps) (simp add: d(2) Let_def len(1) out'_def)
  also have "\<dots> = (Some (length pre' + length (enc_labels ls) + 1), put_bytes out' (n + length l + 1) (dot_labels ls))"
    using Cons.IH [OF l(2) d(1) len(2) o(2) n(3)] by simp
  also have "put_bytes out' (n + length l + 1) (dot_labels ls) = put_bytes out n (dot_labels (l # ls))"
    using put_bytes_append [of n "l @ [DOT_CHAR]" "dot_labels ls" out] n(3) Cons.prems(4) by (simp add: o(1) dot_labels_def)
  finally show ?case by (simp add: len(1) enc_labels_Cons)
qed


section \<open>Questions and answers\<close>

text \<open>A reply of one record to the question for a name; the record names it by a pointer to the question.\<close>

definition dns_reply :: "u16 \<Rightarrow> bytes \<Rightarrow> bytes \<Rightarrow> bytes" where
  "dns_reply qid name rr =
     be16 qid @ be16 0x8180 @ be16 1 @ be16 1 @ be16 0 @ be16 0 @ dns_qname name @ be16 1 @ be16 1 @ [0xC0, 12] @ rr"

definition addr_record :: "u32 \<Rightarrow> u32 \<Rightarrow> bytes" where
  "addr_record ttl ip = be16 1 @ be16 1 @ be32 ttl @ be16 4 @ be32 ip"

definition cname_record :: "u32 \<Rightarrow> bytes list \<Rightarrow> bytes" where
  "cname_record ttl target = be16 5 @ be16 1 @ be32 ttl @ be16 (of_nat (length (enc_labels target) + 1)) @ enc_labels target @ [0]"

lemma dns_skip_pointer:
  assumes "d = pre @ [0xC0, b] @ rr" "length pre < limit"
  shows "dns_skip_name d (length pre) limit = Some (length pre + 2)"
  using assms by (subst dns_skip_name.simps) simp

lemma dns_reply_parse:
  assumes "list_all good_label ls" "length (enc_labels ls) \<le> 250"
    and "d = dns_reply qid (dotted ls) rr" "pre = be16 qid @ be16 0x8180 @ be16 1 @ be16 1 @ be16 0 @ be16 0 @ enc_labels ls @ [0] @ be16 1 @ be16 1"
  shows "dns_parse_ans d (length d) cname cap = dns_answers d (length d) cap 1 (length pre) False cname" "d = pre @ [0xC0, 12] @ rr"
proof -
  have q: "dns_qname (dotted ls) = enc_labels ls @ [0]" using dns_labels_dotted [of ls 0] assms(1,2) by (simp add: dns_qname_def)
  show dd: "d = pre @ [0xC0, 12] @ rr" by (simp add: assms(3,4) dns_reply_def q)
  define h where "h = be16 qid @ be16 0x8180 @ be16 1 @ be16 1 @ be16 0 @ be16 0"
  have dh: "d = h @ enc_labels ls @ 0 # (be16 1 @ be16 1 @ [0xC0, 12] @ rr)" "length h = 12" by (simp_all add: dd assms(4) h_def)
  have f: "rd16 d 2 = 0x8180" "rd16 d 4 = 1" "rd16 d 6 = 1"
    using rd_skip(1) [of "be16 qid" _ 0] rd_skip(1) [of "be16 qid @ be16 0x8180" _ 0] rd_skip(1) [of "be16 qid @ be16 0x8180 @ be16 1" _ 0]
    by (simp_all add: dd assms(4) rd_be)
  have len: "length h + length (enc_labels ls) + 1 \<le> length d" "12 \<le> length d" by (simp_all add: dh)
  have "dns_skip_name d 12 (length d) = Some (12 + length (enc_labels ls) + 1)"
    using dns_skip_labels [OF assms(1) dh(1) len(1)] by (simp add: dh(2))
  then have "dns_skip_questions d (length d) 1 12 = Some (length pre)" by (simp add: assms(4))
  then show "dns_parse_ans d (length d) cname cap = dns_answers d (length d) cap 1 (length pre) False cname"
    using len(2) f by (simp add: dns_parse_ans_def)
qed

lemma record_fields:
  assumes "rr = be16 t @ be16 c @ be32 ttl @ be16 n @ x" "d = p @ rr"
  shows "rd16 d (length p) = t" "rd32 d (length p + 4) = ttl" "rd16 d (length p + 8) = n" "\<And>i. rd32 d (length p + 10 + i) = rd32 x i"
    "length d = length p + 10 + length x"
  using rd_skip(1) [of p rr 0] rd_skip(2) [of "p @ be16 t @ be16 c" "be32 ttl @ be16 n @ x" 0] rd_skip(1) [of "p @ be16 t @ be16 c @ be32 ttl" "be16 n @ x" 0]
    rd_skip(2) [of "p @ be16 t @ be16 c @ be32 ttl @ be16 n" x]
  by (simp_all add: assms rd_be)

text \<open>
  C27. Names survive the wire. For every name of labels of 1 to 63 characters whose encoding has at
  most 250 bytes, the reader of names finds it in the query that \<^verbatim>\<open>dns_query\<close> makes and both readers
  agree on where it ends. From a reply that refers to the question by a compressed name, the parser
  takes exactly the address and the time to live of an address record, and exactly the target name,
  with a final dot, of an alias record.
\<close>

theorem dns_roundtrip:
  assumes "list_all good_label ls" "ls \<noteq> []" "length (enc_labels ls) \<le> 250" "length out = cap"
    and "list_all good_label target" "target \<noteq> []" "length (enc_labels target) \<le> 250" "length (dotted ls) + 1 < cap" "length (dotted target) + 1 < cap"
    and "q = dns_query qid (dotted ls)" "a = dns_reply qid (dotted ls) (addr_record ttl ip)" "b = dns_reply qid (dotted ls) (cname_record ttl target)"
  shows "dns_read_name q 12 (length q) out cap = (Some (length q - 4), put_bytes out 0 (dotted ls @ [DOT_CHAR]))
     \<and> dns_skip_name q 12 (length q) = Some (length q - 4)
     \<and> dns_parse_ans a (length a) out cap = (Dns_addr ip ttl, out)
     \<and> dns_parse_ans b (length b) out cap = (Dns_cname, put_bytes out 0 (dotted target @ [DOT_CHAR]))"
proof (intro conjI)
  define h where "h = be16 qid @ be16 0x0100 @ be16 1 @ be16 0 @ be16 0 @ be16 0"
  have q: "q = h @ enc_labels ls @ 0 # (be16 1 @ be16 1)" "length h = 12"
    using dns_labels_dotted [of ls 0] assms(1,3) by (simp_all add: assms(10) dns_query_def dns_qname_def h_def)
  have len: "length h + length (enc_labels ls) + 1 \<le> length q" "length q - 4 = length h + length (enc_labels ls) + 1" by (simp_all add: q)
  have c: "0 + length (dot_labels ls) < cap" "0 + length (dot_labels target) < cap" using assms(8,9) by (simp_all add: dot_labels_dotted assms(2,6))
  show "dns_read_name q 12 (length q) out cap = (Some (length q - 4), put_bytes out 0 (dotted ls @ [DOT_CHAR]))"
    using dns_read_labels [OF assms(1) q(1) len(1) assms(4) c(1), of 12 0] assms(2) by (simp only: dns_read_name_def q(2) len(2)) (simp add: dot_labels_dotted)
  show "dns_skip_name q 12 (length q) = Some (length q - 4)"
    using dns_skip_labels [OF assms(1) q(1) len(1)] by (simp only: q(2) len(2))
  define pre where "pre = be16 qid @ be16 0x8180 @ be16 1 @ be16 1 @ be16 0 @ be16 0 @ enc_labels ls @ [0] @ be16 1 @ be16 1"
  define p where "p = pre @ [0xC0, 12]"
  have p: "length p = length pre + 2" by (simp add: p_def)
  note A = dns_reply_parse [OF assms(1,3,11) pre_def]
  note FA = record_fields [OF addr_record_def, of a p]
  have a: "a = p @ addr_record ttl ip" using A(2) by (simp add: p_def)
  have "dns_skip_name a (length pre) (length a) = Some (length p)" using dns_skip_pointer [OF A(2)] by (simp add: p a)
  then show "dns_parse_ans a (length a) out cap = (Dns_addr ip ttl, out)"
    using FA(1-3,5) [OF a] FA(4) [OF a, of 0] unfolding A(1) One_nat_def dns_answers.simps by (simp add: Let_def rd32_be32)
  note B = dns_reply_parse [OF assms(1,3,12) pre_def]
  define n where "n = length (enc_labels target) + 1"
  note FB = record_fields [OF cname_record_def, of b p]
  have b: "b = p @ cname_record ttl target" using B(2) by (simp add: p_def)
  have n: "unat (of_nat n :: u16) = n" using assms(7) by (intro unat_of_nat_small) (simp add: n_def)
  have lb: "length b = length p + 10 + n" using FB(5) [OF b] by (simp add: n_def)
  have "dns_skip_name b (length pre) (length b) = Some (length p)" using dns_skip_pointer [OF B(2)] by (simp add: p b)
  moreover have "dns_read_name b (length p + 10) (length b) out cap = (Some (length p + 10 + n), put_bytes out 0 (dotted target @ [DOT_CHAR]))"
  proof -
    define p10 where "p10 = p @ be16 5 @ be16 1 @ be32 ttl @ be16 (of_nat n)"
    have "b = p10 @ enc_labels target @ 0 # []" "length p10 = length p + 10" by (simp_all add: b cname_record_def p10_def n_def)
    then show ?thesis
      using dns_read_labels [OF assms(5) _ _ assms(4) c(2), of b p10 "[]" "length b" "length p10" 0] assms(6)
      by (simp add: dns_read_name_def lb n_def dot_labels_dotted)
  qed
  ultimately show "dns_parse_ans b (length b) out cap = (Dns_cname, put_bytes out 0 (dotted target @ [DOT_CHAR]))"
    using FB(1-3) [OF b, folded n_def] n lb assms(9) unfolding B(1) One_nat_def dns_answers.simps by (simp add: Let_def)
qed

theorem dns_roundtrip_witness:
  "dns_parse_ans (dns_reply 7 (dotted [[97, 98], [99]]) (addr_record 300 0x01020304)) (length (dns_reply 7 (dotted [[97, 98], [99]]) (addr_record 300 0x01020304)))
     (replicate 128 0) 128 = (Dns_addr 0x01020304 300, replicate 128 0)"
proof -
  have l: "list_all good_label [[97, 98], [99]]" "length (enc_labels [[97, 98], [99]]) \<le> 250" "length (dotted [[97, 98], [99]]) + 1 < 128"
    "[[97, 98], [99 :: u8]] \<noteq> []" "length (replicate 128 (0 :: u8)) = 128"
    by (simp_all add: good_label_def enc_labels_def)
  from dns_roundtrip [OF l(1,4,2,5) l(1,4,2,3,3) refl refl refl, of 7 300 "0x01020304"] show ?thesis by blast
qed

text \<open>
  The copies of names in \<^verbatim>\<open>net_dns_resolve\<close> are not terminated: what the buffer held before, the stack of the
  caller or the end of a longer name, is sent as part of the question.
\<close>

lemma copy_name_stale: "c_string (copy_name [97] (replicate 128 98)) = 97 # replicate 126 98"
  by code_simp

lemma copy_name_clean: "0 \<notin> set src \<Longrightarrow> length src < 127 \<Longrightarrow> length qn = 128 \<Longrightarrow> qn ! length src = 0 \<Longrightarrow> c_string (copy_name src qn) = src"
proof -
  assume a: "0 \<notin> set src" "length src < 127" "length qn = 128" "qn ! length src = 0"
  then have "copy_name src qn = src @ 0 # drop (Suc (length src)) (copy_name src qn)"
    by (simp add: copy_name_def put_bytes_def list_update_append Cons_nth_drop_Suc [symmetric] nth_list_update drop_update_swap split: nat.split)
  then show ?thesis using a(1) unfolding c_string_def by (metis (mono_tags, lifting) takeWhile_append2 takeWhile.simps(2) append_Nil2)
qed

end
