(* ===== verification/Net_Tcp.thy ===== *)
theory Net_Tcp
  imports Net_Dns
begin

text \<open>
  TCP of \<^verbatim>\<open>kernel/net.cpp\<close>: the control block of a connection, segments and their options, the
  retransmission timer, congestion control, the receive ring with its out-of-order slices, and the
  state machine of \<^verbatim>\<open>handle_tcp\<close> and \<^verbatim>\<open>tcp_poll\<close>. The code works on references into the table
  \<^verbatim>\<open>conns\<close>; the model works on indices of the table, so that interrupts which arrive while a segment
  waits for an address change the same control block.

  A function that may send takes the interrupts of its address resolutions: one list per place
  where it sends, or \<open>None\<close> where interrupts are disabled.
\<close>

section \<open>State\<close>

definition FIN :: u16 where "FIN = 0x01"
definition SYN :: u16 where "SYN = 0x02"
definition RST :: u16 where "RST = 0x04"
definition PSH :: u16 where "PSH = 0x08"
definition ACK :: u16 where "ACK = 0x10"
definition TCP_MSS :: nat where "TCP_MSS = 1460"
definition TCP_RX_RING :: nat where "TCP_RX_RING = 8192"
definition TCP_OOO_MAX :: nat where "TCP_OOO_MAX = 4"
definition TCP_SOCKS :: nat where "TCP_SOCKS = 8"
definition TCP_TXQ :: nat where "TCP_TXQ = 8"
definition TCP_BACKLOG :: nat where "TCP_BACKLOG = 6"
definition TCP_RTO0 :: u32 where "TCP_RTO0 = 500"
definition TCP_RTO_MIN :: u32 where "TCP_RTO_MIN = 200"
definition TCP_RTO_MAX :: u32 where "TCP_RTO_MAX = 3000"
definition TCP_MAX_RETRANS :: u32 where "TCP_MAX_RETRANS = 12"
definition TCP_CWND_INIT :: u32 where "TCP_CWND_INIT = 4 * 1460"
definition TCP_SSTHRESH_INIT :: u32 where "TCP_SSTHRESH_INIT = 64 * 1460"
definition TCP_SACK_BLK_MAX :: nat where "TCP_SACK_BLK_MAX = 3"
definition TCP_KA_IDLE :: u64 where "TCP_KA_IDLE = 600"
definition TCP_KA_RATE :: u64 where "TCP_KA_RATE = 25"
definition TCP_KA_CNT :: u8 where "TCP_KA_CNT = 6"

text \<open>
  The data of slices and slots, and the Nagle buffer, are the parts of their arrays that are in use,
  so that \<^verbatim>\<open>nagle_len\<close> is the length of \<open>nagle_buf\<close>. States of a connection:
  0 closed, 1 SYN sent, 2 established, 3 and 4 FIN wait, 5 close wait, 6 last ACK, 7 time wait,
  8 listening, 9 SYN received.
\<close>

record ooo_slice =
  oo_used :: bool
  oo_seq :: u32
  oo_len :: nat
  oo_data :: bytes

record tx_slot =
  tx_pend :: bool
  tx_sacked :: bool
  tx_seq :: u32
  tx_len :: nat
  tx_sent_at :: u64
  tx_data :: bytes

record tcb =
  t_used :: bool
  poll_busy :: bool
  t_st :: nat
  t_lfd :: int
  t_ip :: u32
  t_sport :: u16
  t_dport :: u16
  t_iss :: u32
  created_at :: u64
  snd_una :: u32
  snd_nxt :: u32
  rcv_nxt :: u32
  snd_wnd :: u32
  st_v :: nat
  t_mss :: u16
  t_rto :: u32
  srtt :: u32
  rttvar :: u32
  cwnd :: u32
  ssthresh :: u32
  dupacks :: u32
  t_fr :: bool
  t_recover :: u32
  t_lt :: u8
  ws_peer :: u8
  ts_ok :: bool
  ts_recent :: u32
  ts_echo :: u32
  tx_head :: nat
  tx_tail :: nat
  txb :: "tx_slot list"
  nagle_buf :: bytes
  last_rx :: u64
  ka_at :: u64
  ka_probes :: u8
  fin_tx :: bool
  fin_rx :: bool
  fin_seq :: u32
  fin_pend :: bool
  fin_sent_at :: u64
  probe_at :: u64
  retries :: u32
  tw_at :: u64
  close_at :: u64
  t_ok :: bool
  t_done :: bool
  t_err :: bool
  win_update :: bool
  ack_want :: bool
  ack_inv :: u8
  ack_at :: u64
  last_ack :: u32
  rlen :: nat
  rxr_w :: nat
  rxr_fill :: nat
  rxr :: bytes
  ooo :: "ooo_slice list"

record tnet = dnet +
  conns :: "tcb list"

type_synonym 's irqs = "('s \<Rightarrow> 's) list option"

abbreviation conn :: "nat \<Rightarrow> 'a tnet_scheme \<Rightarrow> tcb" where
  "conn k s \<equiv> conns s ! k"

definition upd_conn :: "nat \<Rightarrow> (tcb \<Rightarrow> tcb) \<Rightarrow> 'a tnet_scheme \<Rightarrow> 'a tnet_scheme" where
  "upd_conn k f s = s\<lparr>conns := (conns s)[k := f (conns s ! k)]\<rparr>"


section \<open>Segments\<close>

text \<open>The out-of-order slices that an acknowledgement reports.\<close>

definition sack_slices :: "tcb \<Rightarrow> ooo_slice list" where
  "sack_slices t = filter (\<lambda>sl. oo_used sl \<and> oo_seq sl + of_nat (oo_len sl) > rcv_nxt t) (ooo t)"

definition tcp_options :: "u64 \<Rightarrow> tcb \<Rightarrow> bool \<Rightarrow> bool \<Rightarrow> bytes" where
  "tcp_options ticks_now t mss_opt sack =
     (if mss_opt then [2, 4] @ be16 (of_nat TCP_MSS) @ [3, 3, 0] else [])
     @ (if mss_opt \<or> ts_ok t then [8, 10] @ be32 (ucast ticks_now) @ be32 (ts_recent t) else [])
     @ (let blocks = take TCP_SACK_BLK_MAX (sack_slices t)
        in if sack \<and> \<not> mss_opt \<and> blocks \<noteq> []
           then [5, of_nat (2 + 8 * length blocks)] @ concat (map (\<lambda>sl. be32 (oo_seq sl) @ be32 (oo_seq sl + of_nat (oo_len sl))) blocks)
           else [])"

definition tcp_window :: "tcb \<Rightarrow> u16" where
  "tcp_window t = (let room = TCP_RX_RING - rxr_fill t in of_nat (if room > TCP_RX_RING div 2 then TCP_RX_RING div 2 else room))"

definition tcp_segment :: "u32 \<Rightarrow> u64 \<Rightarrow> tcb \<Rightarrow> u32 \<Rightarrow> u16 \<Rightarrow> bytes \<Rightarrow> bool \<Rightarrow> bool \<Rightarrow> bytes" where
  "tcp_segment src ticks_now t seq flags data mss_opt sack =
     (let opts = tcp_options ticks_now t mss_opt sack;
          hlen = (20 + length opts + 3) div 4 * 4;
          tt = be16 (t_sport t) @ be16 (t_dport t) @ be32 seq @ be32 (rcv_nxt t) @ [push_bit 4 (of_nat (hlen div 4)), ucast (flags AND 0x3F)]
               @ be16 (tcp_window t) @ be16 0 @ be16 0 @ opts @ replicate (hlen - (20 + length opts)) 1 @ data
      in wr16 16 (tcp_checksum src (t_ip t) tt) tt)"

definition tcp_emit :: "'a tnet_scheme irqs \<Rightarrow> nat \<Rightarrow> u32 \<Rightarrow> u16 \<Rightarrow> bytes \<Rightarrow> bool \<Rightarrow> bool \<Rightarrow> 'a tnet_scheme \<Rightarrow> 'a tnet_scheme" where
  "tcp_emit irqs k seq flags data mss_opt sack s =
     ip_send irqs (t_ip (conn k s)) None 6 (tcp_segment (our_ip s) (now s) (conn k s) seq flags data mss_opt sack) s"

definition tcp_ack_now :: "'a tnet_scheme irqs \<Rightarrow> nat \<Rightarrow> 'a tnet_scheme \<Rightarrow> 'a tnet_scheme" where
  "tcp_ack_now irqs k s =
     (let s = upd_conn k (\<lambda>t. t\<lparr>last_ack := rcv_nxt t, ack_want := False, ack_inv := 0, ack_at := 0\<rparr>) s;
          so = (sack_slices (conn k s) \<noteq> [])
      in tcp_emit irqs k (snd_nxt (conn k s)) ACK [] False so s)"

definition ack_delayed :: "'a tnet_scheme irqs \<Rightarrow> nat \<Rightarrow> 'a tnet_scheme \<Rightarrow> 'a tnet_scheme" where
  "ack_delayed irqs k s =
     (let s = upd_conn k (\<lambda>t. t\<lparr>ack_want := True, ack_inv := ack_inv t + 1\<rparr>) s; t = conn k s
      in if ack_inv t \<ge> 2 \<or> win_update t then tcp_ack_now irqs k s
         else if ack_at t = 0 then upd_conn k (\<lambda>t. t\<lparr>ack_at := now s + 2\<rparr>) s
         else s)"


section \<open>Timers and congestion control\<close>

definition mss_of :: "tcb \<Rightarrow> u32" where
  "mss_of t = (if t_mss t \<noteq> 0 then ucast (t_mss t) else of_nat TCP_MSS)"

definition rto_backoff :: "tcb \<Rightarrow> tcb" where
  "rto_backoff t =
     (let mss = mss_of t; h = cwnd t div 2 in t\<lparr>ssthresh := (if h > 2 * mss then h else 2 * mss), cwnd := mss\<rparr>)"

text \<open>The oldest slot that is not acknowledged, selectively or at all; else the oldest pending one.\<close>

definition ts_pick :: "tcb \<Rightarrow> nat option" where
  "ts_pick t =
     (let slot = (\<lambda>i. txb t ! ((tx_tail t + i) mod TCP_TXQ))
      in case find_from (\<lambda>i. tx_pend (slot i) \<and> \<not> tx_sacked (slot i)) 0 TCP_TXQ of
           Some i \<Rightarrow> Some ((tx_tail t + i) mod TCP_TXQ)
         | None \<Rightarrow> map_option (\<lambda>i. (tx_tail t + i) mod TCP_TXQ) (find_from (\<lambda>i. tx_pend (slot i)) 0 TCP_TXQ))"

definition tcp_abort :: "tcb \<Rightarrow> tcb" where
  "tcp_abort t = t\<lparr>t_err := True, t_done := True, t_ok := False, t_used := False, t_st := 0, st_v := 0\<rparr>"

definition icmp_apply :: "'a tnet_scheme \<Rightarrow> 'a tnet_scheme" where
  "icmp_apply s =
     (let u = unreach s
      in if \<not> ur_pend u then s
         else
           let s = (if ur_tcp u
                    then
                      case find_from (\<lambda>i. t_used (conn i s) \<and> t_st (conn i s) \<noteq> 8 \<and> t_sport (conn i s) = ur_sport u \<and>
                                          t_dport (conn i s) = ur_dport u \<and> t_ip (conn i s) = ur_ip u) 0 TCP_SOCKS of
                        Some i \<Rightarrow> upd_conn i tcp_abort s
                      | None \<Rightarrow> s
                    else s)
           in s\<lparr>unreach := u\<lparr>ur_pend := False\<rparr>\<rparr>)"

text \<open>\<^verbatim>\<open>(t.rto + 49) / 50\<close>, the timeout as the code counts it in ticks.\<close>

definition rto_ticks :: "tcb \<Rightarrow> u64" where
  "rto_ticks t = ucast ((t_rto t + 49) div 50)"

definition rto_double :: "tcb \<Rightarrow> tcb" where
  "rto_double t =
     (let t = (if t_rto t < TCP_RTO_MAX then t\<lparr>t_rto := t_rto t * 2\<rparr> else t)
      in if t_rto t > TCP_RTO_MAX then t\<lparr>t_rto := TCP_RTO_MAX\<rparr> else t)"

text \<open>
  The stages of \<^verbatim>\<open>tcp_poll\<close>. A stage that returns from the function does so by \<open>Inl\<close>.
\<close>

definition poll_probe :: "'a tnet_scheme irqs \<Rightarrow> nat \<Rightarrow> 'a tnet_scheme \<Rightarrow> 'a tnet_scheme" where
  "poll_probe irqs k s =
     (let t = conn k s
      in if snd_wnd t = 0 \<and> snd_una t \<noteq> snd_nxt t \<and> now s \<ge> probe_at t \<and> \<not> fin_pend t
         then
           let s = tcp_emit irqs k (snd_nxt t) (ACK OR PSH) [0xAA] False False s
           in upd_conn k (\<lambda>t. t\<lparr>probe_at := now s + rto_ticks t\<rparr>) s
         else s)"

definition poll_fin :: "'a tnet_scheme irqs \<Rightarrow> nat \<Rightarrow> 'a tnet_scheme \<Rightarrow> 'a tnet_scheme + 'a tnet_scheme" where
  "poll_fin irqs k s =
     (let t = conn k s
      in if fin_pend t \<and> now s - fin_sent_at t \<ge> rto_ticks t
         then
           let s = upd_conn k (\<lambda>t. t\<lparr>retries := retries t + 1\<rparr>) s
           in if retries (conn k s) > TCP_MAX_RETRANS then Inl (upd_conn k tcp_abort s)
              else
                let s = tcp_emit irqs k (fin_seq (conn k s)) (FIN OR ACK) [] False False s
                in Inr (upd_conn k (\<lambda>t. rto_double (t\<lparr>fin_sent_at := now s\<rparr>)) s)
         else Inr s)"

definition upd_slot :: "nat \<Rightarrow> (tx_slot \<Rightarrow> tx_slot) \<Rightarrow> tcb \<Rightarrow> tcb" where
  "upd_slot i f t = t\<lparr>txb := (txb t)[i := f (txb t ! i)]\<rparr>"

definition poll_retransmit :: "'a tnet_scheme irqs \<Rightarrow> nat \<Rightarrow> 'a tnet_scheme \<Rightarrow> 'a tnet_scheme + 'a tnet_scheme" where
  "poll_retransmit irqs k s =
     (let t = conn k s
      in case ts_pick t of
           None \<Rightarrow> Inr s
         | Some i \<Rightarrow>
             let sl = txb t ! i
             in if snd_una t = tx_seq sl \<and> now s - tx_sent_at sl \<ge> rto_ticks t
                then
                  let s = upd_conn k (\<lambda>t. t\<lparr>retries := retries t + 1\<rparr>) s
                  in if retries (conn k s) > TCP_MAX_RETRANS then Inl (upd_conn k tcp_abort s)
                     else
                       let s = tcp_emit irqs k (tx_seq sl) (ACK OR PSH) (tx_data sl) False False s;
                           s = upd_conn k (\<lambda>t. rto_backoff (rto_double (upd_slot i (\<lambda>sl. sl\<lparr>tx_sent_at := now s\<rparr>) t))) s
                       in Inr (upd_conn k (\<lambda>t. t\<lparr>t_fr := False, dupacks := 0, t_lt := 0\<rparr>) s)
                else Inr s)"

definition poll_keepalive :: "'a tnet_scheme irqs \<Rightarrow> nat \<Rightarrow> 'a tnet_scheme \<Rightarrow> 'a tnet_scheme" where
  "poll_keepalive irqs k s =
     (let t = conn k s; ticks_now = now s
      in if t_st t \<noteq> 2 then s
         else if ka_probes t \<noteq> 0
         then
           if snd_una t \<noteq> snd_nxt t then upd_conn k (\<lambda>t. t\<lparr>ka_probes := 0\<rparr>) s
           else if ticks_now - ka_at t \<ge> TCP_KA_RATE
           then
             let s = upd_conn k (\<lambda>t. t\<lparr>ka_probes := ka_probes t + 1\<rparr>) s
             in if ka_probes (conn k s) > TCP_KA_CNT then upd_conn k tcp_abort s
                else
                  let s = upd_conn k (\<lambda>t. t\<lparr>ka_at := ticks_now\<rparr>) s
                  in tcp_emit irqs k (snd_una (conn k s) - 1) ACK [] False False s
           else s
         else if snd_una t = snd_nxt t \<and> ticks_now - last_rx t \<ge> TCP_KA_IDLE
         then
           let s = upd_conn k (\<lambda>t. t\<lparr>ka_probes := 1, ka_at := ticks_now\<rparr>) s
           in tcp_emit irqs k (snd_una (conn k s) - 1) ACK [] False False s
         else s)"

definition tcp_poll :: "(nat \<Rightarrow> 'a tnet_scheme irqs) \<Rightarrow> nat \<Rightarrow> 'a tnet_scheme \<Rightarrow> 'a tnet_scheme" where
  "tcp_poll q k s =
     (if \<not> t_used (conn k s) \<or> t_st (conn k s) = 0 \<or> t_st (conn k s) = 1 then s
      else
        let s = icmp_apply s;
            s = (let t = conn k s in if ack_want t \<and> rcv_nxt t \<noteq> last_ack t \<and> now s \<ge> ack_at t then tcp_ack_now (q 0) k s else s)
        in if t_st (conn k s) = 7
           then
             if now s \<ge> tw_at (conn k s) then upd_conn k (\<lambda>t. t\<lparr>t_used := False, t_st := 0, t_ok := True, t_done := True\<rparr>) s else s
           else
             let s = poll_probe (q 1) k s
             in case poll_fin (q 2) k s of
                  Inl s \<Rightarrow> s
                | Inr s \<Rightarrow>
                    if t_st (conn k s) = 3 \<or> t_st (conn k s) = 4
                    then if now s \<ge> close_at (conn k s) then upd_conn k (\<lambda>t. t\<lparr>t_used := False, t_st := 0\<rparr>) s else s
                    else
                      case poll_retransmit (q 3) k s of
                        Inl s \<Rightarrow> s
                      | Inr s \<Rightarrow> poll_keepalive (q 4) k s)"

definition tcp_poll_guarded :: "(nat \<Rightarrow> 'a tnet_scheme irqs) \<Rightarrow> nat \<Rightarrow> 'a tnet_scheme \<Rightarrow> 'a tnet_scheme" where
  "tcp_poll_guarded q k s =
     (if \<not> t_used (conn k s) \<or> poll_busy (conn k s) then s
      else
        let s = upd_conn k (\<lambda>t. t\<lparr>poll_busy := True\<rparr>) s; s = tcp_poll q k s
        in upd_conn k (\<lambda>t. t\<lparr>poll_busy := False\<rparr>) s)"


section \<open>Options of a segment\<close>

function tcp_opts_parse :: "bytes \<Rightarrow> nat \<Rightarrow> nat \<Rightarrow> tcb \<Rightarrow> tcb" where
  "tcp_opts_parse tt p offhdr t =
     (if p + 2 \<le> offhdr
      then
        let kind = tt ! p
        in if kind = 0 then t
           else if kind = 1 then tcp_opts_parse tt (p + 1) offhdr t
           else
             let olen = tt ! (p + 1)
             in if olen < 2 \<or> p + unat olen > offhdr then t
                else
                  let t = (if kind = 2 \<and> olen = 4 then t\<lparr>t_mss := rd16 tt (p + 2)\<rparr>
                           else if kind = 3 \<and> olen = 3 then t\<lparr>ws_peer := (if tt ! (p + 2) > 14 then 0 else tt ! (p + 2))\<rparr>
                           else if kind = 8 \<and> olen = 10 then t\<lparr>ts_ok := True, ts_recent := rd32 tt (p + 2), ts_echo := rd32 tt (p + 6)\<rparr>
                           else t)
                  in tcp_opts_parse tt (p + unat olen) offhdr t
      else t)"
  by auto
termination
proof (relation "measure (\<lambda>(_, p, offhdr, _). offhdr - p)", goal_cases)
  case (3 tt p offhdr t kind olen)
  then have "2 \<le> unat olen" by (simp add: word_less_nat_alt)
  then show ?case using 3 by auto
qed auto

declare tcp_opts_parse.simps [simp del]

text \<open>The slots that a block of a selective acknowledgement touches.\<close>

definition sack_block :: "u32 \<Rightarrow> u32 \<Rightarrow> tx_slot list \<Rightarrow> tx_slot list" where
  "sack_block l r sls =
     (if l \<ge> r then sls
      else map (\<lambda>sl. if tx_pend sl \<and> l < tx_seq sl + of_nat (tx_len sl) \<and> r > tx_seq sl then sl\<lparr>tx_sacked := True\<rparr> else sl) sls)"

function sack_apply :: "bytes \<Rightarrow> nat \<Rightarrow> nat \<Rightarrow> tcb \<Rightarrow> tcb" where
  "sack_apply tt p offhdr t =
     (if p + 2 \<le> offhdr
      then
        let kind = tt ! p
        in if kind = 0 then t
           else if kind = 1 then sack_apply tt (p + 1) offhdr t
           else
             let olen = tt ! (p + 1)
             in if olen < 2 \<or> p + unat olen > offhdr then t
                else if kind = 5 \<and> olen \<ge> 10
                then t\<lparr>txb := fold (\<lambda>i. sack_block (rd32 tt (p + 2 + 8 * i)) (rd32 tt (p + 6 + 8 * i))) [0..<(unat olen - 2) div 8] (txb t)\<rparr>
                else sack_apply tt (p + unat olen) offhdr t
      else t)"
  by auto
termination
proof (relation "measure (\<lambda>(_, p, offhdr, _). offhdr - p)", goal_cases)
  case (3 tt p offhdr t kind olen)
  then have "2 \<le> unat olen" by (simp add: word_less_nat_alt)
  then show ?case using 3 by auto
qed auto

declare sack_apply.simps [simp del]


section \<open>Acknowledgements\<close>

definition rtt_apply_ms :: "u32 \<Rightarrow> tcb \<Rightarrow> tcb" where
  "rtt_apply_ms rtt_ms t =
     (let rtt_ms = (if rtt_ms = 0 then 1 else rtt_ms);
          t = (if srtt t = 0 then t\<lparr>srtt := rtt_ms, rttvar := rtt_ms div 2\<rparr>
               else
                 let dv = (if srtt t > rtt_ms then srtt t - rtt_ms else rtt_ms - srtt t)
                 in t\<lparr>rttvar := (3 * rttvar t + dv) div 4, srtt := (7 * srtt t + rtt_ms) div 8\<rparr>);
          v4 = rttvar t * 4;
          v4 = (if v4 < 50 then 50 else v4);
          rt = srtt t + v4;
          rt = (if rt < TCP_RTO_MIN then TCP_RTO_MIN else rt);
          rt = (if rt > TCP_RTO_MAX then TCP_RTO_MAX else rt)
      in t\<lparr>t_rto := rt\<rparr>)"

definition rtt_update :: "u64 \<Rightarrow> tcb \<Rightarrow> tcb" where
  "rtt_update ticks_now t =
     (let sl = txb t ! tx_tail t
      in if \<not> tx_pend sl then t else rtt_apply_ms (ucast ((ticks_now - tx_sent_at sl) * 10)) t)"

text \<open>The loop of \<^verbatim>\<open>ack_slots\<close> frees one slot of the ring of eight in every pass, so that eight passes are enough.\<close>

fun ack_slots_n :: "nat \<Rightarrow> u32 \<Rightarrow> tcb \<Rightarrow> tcb" where
  "ack_slots_n 0 ack t = t"
| "ack_slots_n (Suc n) ack t =
     (let sl = txb t ! tx_tail t
      in if tx_pend sl \<and> tx_seq sl + of_nat (tx_len sl) \<le> ack
         then ack_slots_n n ack ((upd_slot (tx_tail t) (\<lambda>sl. sl\<lparr>tx_pend := False\<rparr>) t)\<lparr>tx_tail := (tx_tail t + 1) mod TCP_TXQ\<rparr>)
         else t)"

definition ack_slots :: "u32 \<Rightarrow> tcb \<Rightarrow> tcb" where
  "ack_slots ack t = ack_slots_n TCP_TXQ ack t"

definition cwnd_ack :: "tcb \<Rightarrow> tcb" where
  "cwnd_ack t =
     (let mss = mss_of t
      in if cwnd t < ssthresh t then t\<lparr>cwnd := cwnd t + mss\<rparr>
         else t\<lparr>cwnd := cwnd t + mss * mss div (if cwnd t \<noteq> 0 then cwnd t else mss)\<rparr>)"

definition fast_recovery :: "'a tnet_scheme irqs \<Rightarrow> nat \<Rightarrow> 'a tnet_scheme \<Rightarrow> 'a tnet_scheme" where
  "fast_recovery irqs k s =
     (case ts_pick (conn k s) of
        None \<Rightarrow> s
      | Some i \<Rightarrow>
          let sl = txb (conn k s) ! i;
              s = tcp_emit irqs k (tx_seq sl) (ACK OR PSH) (tx_data sl) False False s;
              s = upd_conn k (upd_slot i (\<lambda>sl. sl\<lparr>tx_sent_at := now s\<rparr>)) s
          in upd_conn k (\<lambda>t. let mss = mss_of t; h = (snd_nxt t - snd_una t) div 2; ss = (if h > 2 * mss then h else 2 * mss)
                             in t\<lparr>ssthresh := ss, cwnd := ss + 3 * mss, t_recover := snd_nxt t, t_fr := True, retries := 0\<rparr>) s)"

text \<open>A new segment in the ring of unacknowledged segments.\<close>

definition queue_segment :: "u64 \<Rightarrow> bytes \<Rightarrow> tcb \<Rightarrow> tcb" where
  "queue_segment ticks_now data t =
     (let t = upd_slot (tx_head t) (\<lambda>sl. sl\<lparr>tx_seq := snd_nxt t, tx_len := length data, tx_sacked := False, tx_data := data, tx_sent_at := ticks_now, tx_pend := True\<rparr>) t
      in t\<lparr>snd_nxt := snd_nxt t + of_nat (length data), tx_head := (tx_head t + 1) mod TCP_TXQ\<rparr>)"

definition ring_full :: "tcb \<Rightarrow> bool" where
  "ring_full t \<longleftrightarrow> tx_head t = tx_tail t \<and> tx_pend (txb t ! tx_head t)"

definition nagle_flush :: "'a tnet_scheme irqs \<Rightarrow> nat \<Rightarrow> 'a tnet_scheme \<Rightarrow> 'a tnet_scheme" where
  "nagle_flush irqs k s =
     (let t = conn k s; data = nagle_buf t
      in if data = [] \<or> snd_wnd t = 0 then s
         else if \<not> length data \<ge> unat (t_mss t) \<and> snd_una t \<noteq> snd_nxt t then s
         else if ring_full t then s
         else
           let seq = snd_nxt t; s = upd_conn k (\<lambda>t. (queue_segment (now s) data t)\<lparr>nagle_buf := []\<rparr>) s
           in tcp_emit irqs k seq (ACK OR PSH) data False False s)"


section \<open>The receive ring\<close>

fun ring_write :: "bytes \<Rightarrow> nat \<Rightarrow> bytes \<Rightarrow> bytes \<times> nat" where
  "ring_write ring w [] = (ring, w)"
| "ring_write ring w (x # xs) = ring_write (ring[w := x]) ((w + 1) mod TCP_RX_RING) xs"

definition rxr_push :: "bytes \<Rightarrow> tcb \<Rightarrow> nat \<times> tcb" where
  "rxr_push p t =
     (let room = TCP_RX_RING - rxr_fill t; n = (if length p > room then room else length p);
          (ring, w) = ring_write (rxr t) (rxr_w t) (take n p)
      in (n, t\<lparr>rxr := ring, rxr_w := w, rxr_fill := rxr_fill t + n, rlen := rlen t + n\<rparr>))"

definition upd_slice :: "nat \<Rightarrow> (ooo_slice \<Rightarrow> ooo_slice) \<Rightarrow> tcb \<Rightarrow> tcb" where
  "upd_slice i f t = t\<lparr>ooo := (ooo t)[i := f (ooo t ! i)]\<rparr>"

definition ooo_store :: "u32 \<Rightarrow> bytes \<Rightarrow> tcb \<Rightarrow> tcb" where
  "ooo_store seq d t =
     (if find_from (\<lambda>i. oo_used (ooo t ! i) \<and> oo_seq (ooo t ! i) = seq \<and> oo_len (ooo t ! i) = length d) 0 TCP_OOO_MAX \<noteq> None then t
      else
        case find_from (\<lambda>i. \<not> oo_used (ooo t ! i)) 0 TCP_OOO_MAX of
          Some i \<Rightarrow> upd_slice i (\<lambda>_. \<lparr>oo_used = True, oo_seq = seq, oo_len = length d, oo_data = d\<rparr>) t
        | None \<Rightarrow> t)"

definition ooo_pick :: "tcb \<Rightarrow> nat option" where
  "ooo_pick t = find_from (\<lambda>i. oo_used (ooo t ! i) \<and> oo_seq (ooo t ! i) = rcv_nxt t) 0 TCP_OOO_MAX"

text \<open>The loop of \<^verbatim>\<open>ooo_drain\<close>: a pass that does not end it frees one of the four slices.\<close>

fun ooo_drain_n :: "nat \<Rightarrow> tcb \<Rightarrow> tcb" where
  "ooo_drain_n 0 t = t"
| "ooo_drain_n (Suc m) t =
     (case ooo_pick t of
        None \<Rightarrow> t
      | Some i \<Rightarrow>
          let sl = ooo t ! i; (n, t) = rxr_push (take (oo_len sl) (oo_data sl)) t; t = t\<lparr>rcv_nxt := rcv_nxt t + of_nat n\<rparr>
          in if n < oo_len sl
             then
               let t = (if n \<noteq> 0 then upd_slice i (\<lambda>sl. sl\<lparr>oo_data := drop n (oo_data sl), oo_len := oo_len sl - n, oo_seq := rcv_nxt t\<rparr>) t else t)
               in t\<lparr>win_update := True\<rparr>
             else
               let t = upd_slice i (\<lambda>sl. sl\<lparr>oo_used := False\<rparr>) t
               in if n = 0 then t else ooo_drain_n m t)"

definition ooo_drain :: "'a tnet_scheme irqs \<Rightarrow> nat \<Rightarrow> 'a tnet_scheme \<Rightarrow> 'a tnet_scheme" where
  "ooo_drain irqs k s = ack_delayed irqs k (upd_conn k (ooo_drain_n TCP_OOO_MAX) s)"


section \<open>Input\<close>

text \<open>The socket of a packet: the connection of its addresses and ports, else a listener of its port.\<close>

definition tcp_find :: "u32 \<Rightarrow> u16 \<Rightarrow> u16 \<Rightarrow> 'a tnet_scheme \<Rightarrow> nat option" where
  "tcp_find src_ip src_port dst_port s =
     (case find_from (\<lambda>i. t_used (conn i s) \<and> t_st (conn i s) \<noteq> 8 \<and> t_sport (conn i s) = dst_port \<and> t_ip (conn i s) = src_ip \<and> t_dport (conn i s) = src_port) 0 TCP_SOCKS of
        Some i \<Rightarrow> Some i
      | None \<Rightarrow> find_from (\<lambda>i. t_used (conn i s) \<and> t_st (conn i s) = 8 \<and> t_sport (conn i s) = dst_port) 0 TCP_SOCKS)"

definition peer_window :: "bytes \<Rightarrow> tcb \<Rightarrow> u32" where
  "peer_window tt t = push_bit (unat (ws_peer t)) (ucast (rd16 tt 14))"

definition clamp_mss :: "tcb \<Rightarrow> tcb" where
  "clamp_mss t = (if t_mss t = 0 \<or> t_mss t > of_nat TCP_MSS then t\<lparr>t_mss := of_nat TCP_MSS\<rparr> else t)"

definition tcp_syn_sent :: "bytes \<Rightarrow> nat \<Rightarrow> u32 \<Rightarrow> u32 \<Rightarrow> u16 \<Rightarrow> tcb \<Rightarrow> tcb" where
  "tcp_syn_sent tt off seq ack flags t =
     (if flags AND (SYN OR ACK) = (SYN OR ACK) \<and> ack = snd_nxt t
      then
        let t = clamp_mss (tcp_opts_parse tt 20 off (t\<lparr>rcv_nxt := seq + 1, snd_una := ack, t_mss := of_nat TCP_MSS\<rparr>))
        in t\<lparr>snd_wnd := peer_window tt t, t_st := 2, st_v := 2, t_done := True, t_ok := True\<rparr>
      else t)"

text \<open>The oldest connection in time wait, which gives way to a new one.\<close>

fun oldest_tw :: "nat \<Rightarrow> u64 \<Rightarrow> nat option \<Rightarrow> tcb list \<Rightarrow> nat option" where
  "oldest_tw i best c [] = c"
| "oldest_tw i best c (t # ts) =
     (if t_used t \<and> t_st t = 7 \<and> tw_at t < best then oldest_tw (i + 1) (tw_at t) (Some i) ts else oldest_tw (i + 1) best c ts)"

definition free_conn :: "'a tnet_scheme \<Rightarrow> nat option" where
  "free_conn s =
     (case find_from (\<lambda>i. \<not> t_used (conn i s)) 0 TCP_SOCKS of
        Some i \<Rightarrow> Some i
      | None \<Rightarrow> oldest_tw 0 (- 1) None (conns s))"

text \<open>The new connection of a listener; \<open>iss\<close> is its initial sequence number. What the code does not set keeps its value.\<close>

definition tcp_child :: "nat \<Rightarrow> u32 \<Rightarrow> u16 \<Rightarrow> u16 \<Rightarrow> u32 \<Rightarrow> u32 \<Rightarrow> u64 \<Rightarrow> tcb \<Rightarrow> tcb" where
  "tcp_child listener src_ip src_port dst_port iss seq ticks_now t =
     t\<lparr>t_used := True, t_lfd := int listener, t_ip := src_ip, t_sport := dst_port, t_dport := src_port, t_iss := iss, created_at := ticks_now,
       snd_una := iss + 1, snd_nxt := iss + 1, rcv_nxt := seq + 1, snd_wnd := 65535, t_mss := of_nat TCP_MSS,
       t_rto := TCP_RTO0, srtt := 0, rttvar := 0, dupacks := 0, t_fr := False, t_recover := 0, t_lt := 0,
       ws_peer := 0, ts_ok := False, ts_recent := 0, ts_echo := 0, cwnd := TCP_CWND_INIT, ssthresh := TCP_SSTHRESH_INIT,
       tx_head := 0, tx_tail := 0, nagle_buf := [], last_rx := ticks_now, ka_at := 0, ka_probes := 0,
       t_ok := False, t_done := False, t_err := False, fin_tx := False, fin_rx := False, fin_pend := False, fin_sent_at := 0,
       probe_at := 0, retries := 0, close_at := 0, win_update := False, ack_want := False, ack_inv := 0, ack_at := 0, last_ack := 0,
       rxr_w := 0, rxr_fill := 0, rlen := 0\<rparr>"

definition child_iss :: "u32 \<Rightarrow> u64 \<Rightarrow> u32" where
  "child_iss ptr ticks_now = ucast (push_bit 12 ticks_now) XOR ptr XOR 0x4D2BC3A1"

definition tcp_listen_syn :: "'a tnet_scheme irqs \<Rightarrow> u32 \<Rightarrow> nat \<Rightarrow> u32 \<Rightarrow> u16 \<Rightarrow> u16 \<Rightarrow> bytes \<Rightarrow> nat \<Rightarrow> u32 \<Rightarrow> u16 \<Rightarrow> 'a tnet_scheme \<Rightarrow> 'a tnet_scheme" where
  "tcp_listen_syn irqs ptr k src_ip src_port dst_port tt off seq flags s =
     (if flags AND SYN \<noteq> 0 \<and> flags AND ACK = 0
      then
        if length (filter (\<lambda>t. t_used t \<and> t_lfd t = int k \<and> t_st t = 9) (conns s)) \<ge> TCP_BACKLOG then s
        else
          case free_conn s of
            None \<Rightarrow> s
          | Some c \<Rightarrow>
              let s = upd_conn c (\<lambda>t. (clamp_mss (tcp_opts_parse tt 20 off
                        (tcp_child k src_ip src_port dst_port (child_iss ptr (now s)) seq (now s) t)))\<lparr>t_st := 9, st_v := 9\<rparr>) s
              in tcp_emit irqs c (t_iss (conn c s)) (SYN OR ACK) [] True False s
      else s)"

definition tcp_syn_recv :: "bytes \<Rightarrow> u32 \<Rightarrow> u32 \<Rightarrow> u16 \<Rightarrow> tcb \<Rightarrow> tcb" where
  "tcp_syn_recv tt seq ack flags t =
     (if flags AND ACK \<noteq> 0 \<and> seq = rcv_nxt t - 1 + 1
      then t\<lparr>snd_una := ack, snd_wnd := peer_window tt t, t_st := 2, st_v := 2, t_done := True, t_ok := True\<rparr>
      else t)"

text \<open>A new acknowledgement, up to the flush of the Nagle buffer.\<close>

definition ack_recovery :: "u32 \<Rightarrow> tcb \<Rightarrow> tcb" where
  "ack_recovery ack t =
     (if t_fr t then (let t = t\<lparr>cwnd := ssthresh t\<rparr> in if ack \<ge> t_recover t then t\<lparr>t_fr := False\<rparr> else t) else cwnd_ack t)"

definition ack_closing :: "u64 \<Rightarrow> u32 \<Rightarrow> tcb \<Rightarrow> tcb" where
  "ack_closing ticks_now ack t =
     (if t_st t = 3 \<and> fin_tx t \<and> ack \<ge> fin_seq t + 1 then t\<lparr>t_st := 4, close_at := ticks_now + 200, fin_pend := False\<rparr>
      else if t_st t = 6 \<and> fin_tx t \<and> ack \<ge> fin_seq t + 1 then t\<lparr>fin_pend := False, t_used := False, t_st := 0, st_v := 0\<rparr>
      else t)"

definition ack_advance :: "u64 \<Rightarrow> u32 \<Rightarrow> tcb \<Rightarrow> tcb" where
  "ack_advance ticks_now ack t =
     (let t = t\<lparr>ka_probes := 0\<rparr>;
          t = (if ts_ok t \<and> ts_echo t \<noteq> 0 \<and> ticks_now \<ge> ucast (ts_echo t)
               then rtt_apply_ms (ucast ((ticks_now - ucast (ts_echo t)) * 10)) t
               else rtt_update ticks_now t);
          t = ack_slots ack t;
          t = t\<lparr>snd_una := ack, dupacks := 0, retries := 0, t_lt := 0\<rparr>;
          t = ack_recovery ack t
      in ack_closing ticks_now ack t)"

definition tcp_ack_in :: "'a tnet_scheme irqs \<Rightarrow> nat \<Rightarrow> bytes \<Rightarrow> nat \<Rightarrow> u32 \<Rightarrow> 'a tnet_scheme \<Rightarrow> 'a tnet_scheme" where
  "tcp_ack_in irqs k tt off ack s =
     (let s = upd_conn k (\<lambda>t. sack_apply tt 20 off (tcp_opts_parse tt 20 off (t\<lparr>snd_wnd := peer_window tt t\<rparr>))) s; t = conn k s
      in if ack > snd_una t \<and> ack \<le> snd_nxt t then nagle_flush irqs k (upd_conn k (ack_advance (now s) ack) s)
         else if ack = snd_una t
         then
           if ka_probes t \<noteq> 0 then upd_conn k (\<lambda>t. t\<lparr>ka_probes := 0\<rparr>) s
           else
             let s = upd_conn k (\<lambda>t. t\<lparr>dupacks := dupacks t + 1\<rparr>) s; t = conn k s
             in if dupacks t = 3 then fast_recovery irqs k s
                else if dupacks t > 3 \<and> t_fr t then upd_conn k (\<lambda>t. t\<lparr>cwnd := cwnd t + mss_of t\<rparr>) s
                else upd_conn k (\<lambda>t. t\<lparr>t_lt := 2\<rparr>) s
         else s)"

text \<open>
  The data of a segment. \<open>rx_data\<close> is what happens to the control block; the second component says
  whether out-of-order slices are drained (which acknowledges) or the segment is acknowledged as it is.
\<close>

datatype rx_next = Drain | Delay | Quiet

definition rx_accept :: "u32 \<Rightarrow> bytes \<Rightarrow> tcb \<Rightarrow> tcb \<times> rx_next" where
  "rx_accept seq d t =
     (let (stored, t) = rxr_push d t; t = t\<lparr>rcv_nxt := seq + of_nat stored\<rparr>;
          t = (if stored < length d then t\<lparr>win_update := True\<rparr> else t)
      in (t, if stored \<noteq> 0 then Drain else Quiet))"

definition rx_data :: "u32 \<Rightarrow> bytes \<Rightarrow> tcb \<Rightarrow> tcb \<times> rx_next" where
  "rx_data seq d t =
     (let fin = seq + of_nat (length d)
      in if fin \<le> rcv_nxt t then (t, Delay)
         else if seq \<ge> rcv_nxt t
         then if seq > rcv_nxt t then (ooo_store seq d t, Delay) else rx_accept seq d t
         else
           let skip = rcv_nxt t - seq
           in rx_accept (seq + skip) (sub_bytes d (unat skip) (unat (fin - rcv_nxt t))) t)"

definition tcp_data_in :: "'a tnet_scheme irqs \<Rightarrow> nat \<Rightarrow> u32 \<Rightarrow> bytes \<Rightarrow> 'a tnet_scheme \<Rightarrow> 'a tnet_scheme" where
  "tcp_data_in irqs k seq d s =
     (case rx_data seq d (conn k s) of
        (t, nx) \<Rightarrow>
          let s = upd_conn k (\<lambda>_. t) s
          in case nx of Drain \<Rightarrow> ooo_drain irqs k s | Delay \<Rightarrow> ack_delayed irqs k s | Quiet \<Rightarrow> s)"

definition tcp_fin_in :: "'a tnet_scheme irqs \<Rightarrow> nat \<Rightarrow> u32 \<Rightarrow> nat \<Rightarrow> 'a tnet_scheme \<Rightarrow> 'a tnet_scheme" where
  "tcp_fin_in irqs k seq dlen s =
     (if seq + of_nat dlen \<le> rcv_nxt (conn k s)
      then
        let s = upd_conn k (\<lambda>t. t\<lparr>rcv_nxt := rcv_nxt t + 1, fin_rx := True\<rparr>) s;
            s = tcp_ack_now irqs k s
        in upd_conn k (\<lambda>t.
             (if t_st t = 2 then t\<lparr>t_st := 5\<rparr>
              else if t_st t = 4 then t\<lparr>t_st := 7, tw_at := now s + 300\<rparr>
              else if t_st t = 3 then t\<lparr>t_st := 4\<rparr>
              else t)\<lparr>t_done := True\<rparr>) s
      else s)"

text \<open>The part of \<^verbatim>\<open>handle_tcp\<close> for established and closing connections.\<close>

definition tcp_established :: "(nat \<Rightarrow> 'a tnet_scheme irqs) \<Rightarrow> nat \<Rightarrow> bytes \<Rightarrow> nat \<Rightarrow> u32 \<Rightarrow> u32 \<Rightarrow> u16 \<Rightarrow> bytes \<Rightarrow> 'a tnet_scheme \<Rightarrow> 'a tnet_scheme" where
  "tcp_established q k tt off seq ack flags d s =
     (let s = (if flags AND ACK \<noteq> 0 then tcp_ack_in (q 0) k tt off ack s else s);
          fin_now = (flags AND FIN \<noteq> 0);
          s = (if d \<noteq> [] then tcp_data_in (q 1) k seq d s
               else if fin_now \<and> seq \<le> rcv_nxt (conn k s) then tcp_ack_now (q 1) k s
               else s)
      in if fin_now then tcp_fin_in (q 2) k seq (length d) s
         else if d \<noteq> [] then ack_delayed (q 2) k s
         else s)"

definition handle_tcp :: "(nat \<Rightarrow> 'a tnet_scheme irqs) \<Rightarrow> u32 \<Rightarrow> bytes \<Rightarrow> nat \<Rightarrow> bytes option \<Rightarrow> 'a tnet_scheme \<Rightarrow> 'a tnet_scheme" where
  "handle_tcp q ptr ip iplen eth_src s =
     (let ihl = unat (ip ! 0 AND 0x0F) * 4
      in if iplen < ihl + 20 then s
         else
           let tt = drop ihl ip; src_ip = rd32 ip 12; src_port = rd16 tt 0; dst_port = rd16 tt 2; tlen = iplen - ihl
           in if tcp_checksum src_ip (rd32 ip 16) (take tlen tt) \<noteq> 0 then s
              else
                case tcp_find src_ip src_port dst_port s of
                  None \<Rightarrow> s
                | Some k \<Rightarrow>
                    let s = (case eth_src of Some mac \<Rightarrow> arp_learn src_ip mac s | None \<Rightarrow> s);
                        s = upd_conn k (\<lambda>t. t\<lparr>last_rx := now s\<rparr>) s;
                        seq = rd32 tt 4; ack = rd32 tt 8; off = unat (drop_bit 2 (tt ! 12 AND 0xF0))
                    in if off < 20 \<or> off > tlen then s
                       else
                         let flags = ucast (tt ! 13 AND 0x3F); d = sub_bytes tt off (tlen - off); t = conn k s
                         in if flags AND RST \<noteq> 0 then (if t_st t \<noteq> 8 \<and> t_st t \<noteq> 9 then upd_conn k tcp_abort s else s)
                            else if t_st t = 1 then upd_conn k (tcp_syn_sent tt off seq ack flags) s
                            else if t_st t = 8 then tcp_listen_syn (q 0) ptr k src_ip src_port dst_port tt off seq flags s
                            else if t_st t = 9 then upd_conn k (tcp_syn_recv tt seq ack flags) s
                            else tcp_established q k tt off seq ack flags d s)"

end
