(* ===== verification/Net_Ip6.thy ===== *)
theory Net_Ip6
  imports Net_Tcp
begin

text \<open>
  IPv6 of \<^verbatim>\<open>kernel/net.cpp\<close>: interface addresses, the neighbour cache and neighbour discovery, packets,
  ICMPv6 with router advertisements, echo requests, and the periodic work of the network stack. An
  address is the list of its 16 bytes.
\<close>

section \<open>State\<close>

record nd6_entry =
  n6_ip :: bytes
  n6_mac :: bytes
  n6_valid :: bool
  n6_at :: u64

record net6 = tnet +
  ip6_ll :: bytes
  ip6_ll_ok :: bool
  ip6_global :: bytes
  ip6_global_ok :: bool
  ip6_prefix :: bytes
  ip6_prefix_len :: u32
  gateway6 :: bytes
  gateway6_ok :: bool
  nd6_cache :: "nd6_entry list"
  ndp_waiting :: bool
  ndp_done :: bool
  ndp_want :: bytes
  ndp_reply_mac :: bytes
  ping6_active :: bool
  ping6_done :: bool
  ping6_ident :: u16
  ping6_reply_src :: bytes
  ping6_want :: bytes
  rs_pend_on :: bool
  rs_tries :: nat
  rs_at :: u64

definition NDP_AGE :: u64 where "NDP_AGE = 600"


section \<open>Addresses\<close>

definition ip6_eq :: "bytes \<Rightarrow> bytes \<Rightarrow> bool" where
  "ip6_eq a b \<longleftrightarrow> take 16 a = take 16 b"

definition ip6_is_ll :: "bytes \<Rightarrow> bool" where
  "ip6_is_ll a \<longleftrightarrow> a ! 0 = 0xFE \<and> a ! 1 AND 0xC0 = 0x80"

definition ip6_is_mcast :: "bytes \<Rightarrow> bool" where
  "ip6_is_mcast a \<longleftrightarrow> a ! 0 = 0xFF"

definition ip6_from_eui64 :: "bytes \<Rightarrow> bytes \<Rightarrow> bytes" where
  "ip6_from_eui64 pre8 mac =
     take 8 pre8 @ [mac ! 0 XOR 0x02, mac ! 1, mac ! 2, 0xFF, 0xFE, mac ! 3, mac ! 4, mac ! 5]"

definition ip6_compute_ll :: "'a net6_scheme \<Rightarrow> 'a net6_scheme" where
  "ip6_compute_ll s = s\<lparr>ip6_ll := ip6_from_eui64 [0xFE, 0x80, 0, 0, 0, 0, 0, 0] (our_mac s), ip6_ll_ok := True\<rparr>"

definition ip6_solicited :: "bytes \<Rightarrow> bytes" where
  "ip6_solicited tgt = [0xFF, 0x02, 0, 0, 0, 0, 0, 0, 0, 0, 0, 1, 0xFF, tgt ! 13, tgt ! 14, tgt ! 15]"

definition ip6_mcast_mac :: "bytes \<Rightarrow> bytes" where
  "ip6_mcast_mac a6 = [0x33, 0x33, a6 ! 12, a6 ! 13, a6 ! 14, a6 ! 15]"

definition icmp6_checksum :: "bytes \<Rightarrow> bytes \<Rightarrow> bytes \<Rightarrow> u16" where
  "icmp6_checksum src6 dst6 d =
     inet_checksum (sum16 (take 16 dst6) (sum16 (take 16 src6) 0) + of_nat (length d) + 58) d"

definition ip6_mine :: "bytes \<Rightarrow> 'a net6_scheme \<Rightarrow> bool" where
  "ip6_mine a s \<longleftrightarrow> ip6_eq a (ip6_ll s) \<or> ip6_global_ok s \<and> ip6_eq a (ip6_global s)"


section \<open>Neighbours\<close>

definition nd6_find :: "bytes \<Rightarrow> 'a net6_scheme \<Rightarrow> nat option" where
  "nd6_find ip s = find_from (\<lambda>i. n6_valid (nd6_cache s ! i) \<and> ip6_eq (n6_ip (nd6_cache s ! i)) ip) 0 8"

definition nd6_put :: "nat \<Rightarrow> (nd6_entry \<Rightarrow> nd6_entry) \<Rightarrow> 'a net6_scheme \<Rightarrow> 'a net6_scheme" where
  "nd6_put i f s = s\<lparr>nd6_cache := (nd6_cache s)[i := f (nd6_cache s ! i)]\<rparr>"

definition nd6_learn :: "bytes \<Rightarrow> bytes \<Rightarrow> 'a net6_scheme \<Rightarrow> 'a net6_scheme" where
  "nd6_learn ip mac s =
     (if ip6_is_mcast ip then s
      else
        (case nd6_find ip s of
           Some i \<Rightarrow> nd6_put i (\<lambda>e. e\<lparr>n6_mac := take 6 mac, n6_at := now s\<rparr>) s
         | None \<Rightarrow>
             (case find_from (\<lambda>i. \<not> n6_valid (nd6_cache s ! i)) 0 8 of
                Some i \<Rightarrow> nd6_put i (\<lambda>e. e\<lparr>n6_valid := True, n6_ip := take 16 ip, n6_mac := take 6 mac, n6_at := now s\<rparr>) s
              | None \<Rightarrow> s)))"

definition nd6_aging_poll :: "'a net6_scheme \<Rightarrow> 'a net6_scheme" where
  "nd6_aging_poll s =
     s\<lparr>nd6_cache := map (\<lambda>e. if n6_valid e \<and> now s - n6_at e \<ge> NDP_AGE then e\<lparr>n6_valid := False\<rparr> else e) (nd6_cache s)\<rparr>"

definition nd6_lookup :: "bytes \<Rightarrow> 'a net6_scheme \<Rightarrow> bytes option \<times> 'a net6_scheme" where
  "nd6_lookup ip s =
     (if ip6_is_mcast ip then (Some (ip6_mcast_mac ip), s)
      else
        (case nd6_find ip s of
           Some i \<Rightarrow> (Some (n6_mac (nd6_cache s ! i)), nd6_put i (\<lambda>e. e\<lparr>n6_at := now s\<rparr>) s)
         | None \<Rightarrow> (None, s)))"


section \<open>Output\<close>

text \<open>\<^verbatim>\<open>ipv6_send\<close> once the Ethernet address is known.\<close>

definition ipv6_output :: "bytes \<Rightarrow> bytes \<Rightarrow> u8 \<Rightarrow> bytes \<Rightarrow> bytes \<Rightarrow> 'a net6_scheme \<Rightarrow> 'a net6_scheme" where
  "ipv6_output src6 dst6 nh payload dmac s =
     eth_send dmac 0x86DD ([0x60, 0, 0, 0] @ be16 (of_nat (length payload)) @ [nh, 64] @ take 16 src6 @ take 16 dst6 @ payload) s"

definition ndp_solicit :: "bytes \<Rightarrow> bytes \<Rightarrow> 'a net6_scheme \<Rightarrow> bytes" where
  "ndp_solicit src6 tgt s =
     (let ns = [135, 0, 0, 0, 0, 0, 0, 0] @ take 16 tgt @ [1, 1] @ our_mac s
      in wr16 2 (icmp6_checksum src6 (ip6_solicited tgt) ns) ns)"

text \<open>
  The attempts of \<^verbatim>\<open>nd6_resolve\<close>, with the interrupts of each. The solicitation goes to a multicast address,
  whose Ethernet address needs no resolution. The flag \<^verbatim>\<open>ndp_done\<close> is tested before the first attempt
  clears it.
\<close>

fun nd6_attempts :: "nat \<Rightarrow> (nat \<Rightarrow> ('a net6_scheme \<Rightarrow> 'a net6_scheme) list) \<Rightarrow> bytes \<Rightarrow> bytes \<Rightarrow> 'a net6_scheme \<Rightarrow> 'a net6_scheme" where
  "nd6_attempts 0 irqs src6 tgt s = s"
| "nd6_attempts (Suc m) irqs src6 tgt s =
     (if ndp_done s then s
      else
        let sn = ip6_solicited tgt;
            s = ipv6_output src6 sn 58 (ndp_solicit src6 tgt s) (ip6_mcast_mac sn) s;
            s = s\<lparr>ndp_want := take 16 tgt, ndp_waiting := True, ndp_done := False\<rparr>;
            deadline = now s + 30;
            s = hlt_until (\<lambda>s. ndp_done s \<or> now s \<ge> deadline) (irqs m) s
        in nd6_attempts m irqs src6 tgt s)"

definition nd6_resolve :: "(nat \<Rightarrow> ('a net6_scheme \<Rightarrow> 'a net6_scheme) list) option \<Rightarrow> bytes \<Rightarrow> bytes \<Rightarrow> 'a net6_scheme \<Rightarrow> bytes option \<times> 'a net6_scheme" where
  "nd6_resolve irqs src6 tgt s =
     (case nd6_lookup tgt s of
        (Some mac, s) \<Rightarrow> (Some mac, s)
      | (None, s) \<Rightarrow>
          (case irqs of
             None \<Rightarrow> (None, s)
           | Some q \<Rightarrow>
               let s = nd6_attempts 3 q src6 tgt s; s = s\<lparr>ndp_waiting := False\<rparr>
               in if \<not> ndp_done s then (None, s) else (Some (ndp_reply_mac s), nd6_learn tgt (ndp_reply_mac s) s)))"

definition ip6_next_hop :: "bytes \<Rightarrow> 'a net6_scheme \<Rightarrow> bytes" where
  "ip6_next_hop dst6 s =
     (let offlink = \<not> ip6_is_ll dst6 \<and> ip6_prefix_len s = 64 \<and> take 8 dst6 \<noteq> take 8 (ip6_prefix s)
      in if offlink \<and> gateway6_ok s then gateway6 s else dst6)"

definition ipv6_send :: "(nat \<Rightarrow> ('a net6_scheme \<Rightarrow> 'a net6_scheme) list) option \<Rightarrow> bytes \<Rightarrow> bytes \<Rightarrow> u8 \<Rightarrow> bytes \<Rightarrow> bytes option \<Rightarrow> 'a net6_scheme \<Rightarrow> 'a net6_scheme" where
  "ipv6_send irqs src6 dst6 nh payload dmac s =
     (case dmac of
        Some mac \<Rightarrow> ipv6_output src6 dst6 nh payload mac s
      | None \<Rightarrow>
          if ip6_is_mcast dst6 then ipv6_output src6 dst6 nh payload (ip6_mcast_mac dst6) s
          else
            (case nd6_resolve irqs src6 (ip6_next_hop dst6 s) s of
               (None, s) \<Rightarrow> s
             | (Some mac, s) \<Rightarrow> ipv6_output src6 dst6 nh payload mac s))"

definition ALL_ROUTERS :: bytes where
  "ALL_ROUTERS = [0xFF, 0x02, 0, 0, 0, 0, 0, 0, 0, 0, 0, 0, 0, 0, 0, 2]"

definition ndp_send_ready :: "'a net6_scheme \<Rightarrow> 'a net6_scheme" where
  "ndp_send_ready s =
     (let p = [133, 0, 0, 0, 0, 0, 0, 0, 1, 1] @ our_mac s @ replicate 8 0;
          p = wr16 2 (icmp6_checksum (ip6_ll s) ALL_ROUTERS p) p
      in ipv6_send None (ip6_ll s) ALL_ROUTERS 58 p None s)"

definition ip6_slaac_poll :: "'a net6_scheme \<Rightarrow> 'a net6_scheme" where
  "ip6_slaac_poll s =
     (if \<not> gateway6_ok s
      then
        if \<not> rs_pend_on s then s
        else if rs_tries s \<ge> 3 then s\<lparr>rs_pend_on := False\<rparr>
        else if now s < rs_at s then s
        else (let s = ndp_send_ready s in s\<lparr>rs_tries := rs_tries s + 1, rs_at := now s + 50\<rparr>)
      else s\<lparr>rs_pend_on := False\<rparr>)"


section \<open>Input\<close>

text \<open>The walk over the options of a neighbour discovery message, with what is done for each option.\<close>

function nd_options :: "(bytes \<Rightarrow> nat \<Rightarrow> 's \<Rightarrow> 's) \<Rightarrow> bytes \<Rightarrow> nat \<Rightarrow> nat \<Rightarrow> 's \<Rightarrow> 's" where
  "nd_options f icmp p lim s =
     (if p + 8 \<le> lim \<and> icmp ! (p + 1) \<noteq> 0
      then
        let olen = unat (icmp ! (p + 1)) * 8
        in if olen < 8 \<or> p + olen > lim then s
           else nd_options f icmp (p + olen) lim (f (drop p icmp) olen s)
      else s)"
  by auto
termination by (relation "measure (\<lambda>(_, _, p, lim, _). lim - p)") auto

declare nd_options.simps [simp del]

definition echo6_reply :: "bytes \<Rightarrow> bytes \<Rightarrow> bytes \<Rightarrow> bytes" where
  "echo6_reply rtot src6 icmp =
     (let resp = take 1500 icmp; resp = put_bytes resp 0 [129, 0, 0, 0] in wr16 2 (icmp6_checksum rtot src6 resp) resp)"

definition ndp_advert :: "bytes \<Rightarrow> bytes \<Rightarrow> 'a net6_scheme \<Rightarrow> bytes" where
  "ndp_advert tgt src6 s =
     (let na = [136, 0, 0, 0, 0x60, 0, 0, 0] @ tgt @ [2, 1] @ our_mac s in wr16 2 (icmp6_checksum tgt src6 na) na)"

definition ra_option :: "bytes \<Rightarrow> nat \<Rightarrow> 'a net6_scheme \<Rightarrow> 'a net6_scheme" where
  "ra_option opt olen s =
     (if opt ! 0 = 3 \<and> olen \<ge> 32 \<and> opt ! 2 = 64 \<and> opt ! 3 AND 0x40 \<noteq> 0 \<and> \<not> ip6_global_ok s
      then
        let pre = sub_bytes opt 16 8
        in s\<lparr>ip6_global := ip6_from_eui64 pre (our_mac s), ip6_prefix := pre, ip6_prefix_len := 64, ip6_global_ok := True\<rparr>
      else s)"

text \<open>The message with all that follows it in the frame; the reply to the sender's Ethernet address needs no resolution.\<close>

definition handle_icmp6 :: "bytes \<Rightarrow> nat \<Rightarrow> bytes \<Rightarrow> bytes \<Rightarrow> bytes \<Rightarrow> 'a net6_scheme \<Rightarrow> 'a net6_scheme" where
  "handle_icmp6 icmp iclen eth_src src6 dst6 s =
     (if iclen < 4 then s
      else if icmp6_checksum src6 dst6 (take iclen icmp) \<noteq> 0 then s
      else if icmp ! 0 = 128
      then (let rtot = (if ip6_mine dst6 s then dst6 else ip6_ll s)
            in ipv6_send None rtot src6 58 (echo6_reply rtot src6 (take iclen icmp)) (Some eth_src) s)
      else if icmp ! 0 = 129 \<and> ping6_active s
      then (if rd16 icmp 4 = ping6_ident s \<and> ip6_eq src6 (ping6_want s)
            then s\<lparr>ping6_reply_src := take 16 src6, ping6_done := True\<rparr> else s)
      else if icmp ! 0 = 135 \<and> iclen \<ge> 32
      then
        (let tgt = sub_bytes icmp 8 16
         in if \<not> ip6_mine tgt s then s
            else
              let s = nd_options (\<lambda>opt _ s. if opt ! 0 = 1 then nd6_learn src6 (drop 2 opt) s else s) icmp 24 iclen s
              in ipv6_send None tgt src6 58 (ndp_advert tgt src6 s) (Some eth_src) s)
      else if icmp ! 0 = 136 \<and> iclen \<ge> 24
      then
        (let tgt = sub_bytes icmp 8 16
         in nd_options (\<lambda>opt _ s.
              if opt ! 0 = 2
              then
                let s = nd6_learn tgt (drop 2 opt) s
                in if ndp_waiting s \<and> ip6_eq tgt (ndp_want s) then s\<lparr>ndp_reply_mac := sub_bytes opt 2 6, ndp_done := True\<rparr> else s
              else s) icmp 24 iclen s)
      else if icmp ! 0 = 134
      then nd_options ra_option icmp 8 iclen (s\<lparr>gateway6_ok := True, gateway6 := take 16 src6\<rparr>)
      else s)"

definition handle_ipv6 :: "bytes \<Rightarrow> nat \<Rightarrow> bytes \<Rightarrow> 'a net6_scheme \<Rightarrow> 'a net6_scheme" where
  "handle_ipv6 ip6 iplen6 eth_src s =
     (if iplen6 < 40 then s
      else if drop_bit 4 (ip6 ! 0) \<noteq> 6 then s
      else if ip6 ! 7 = 0 then s
      else
        let dst6 = drop 24 ip6
        in if \<not> ip6_mine dst6 s \<and> \<not> (dst6 ! 0 = 0xFF \<and> dst6 ! 1 = 0x02) then s
           else if ip6 ! 6 = 58 then handle_icmp6 (drop 40 ip6) (iplen6 - 40) eth_src (sub_bytes ip6 8 16) (take 16 dst6) s
           else s)"

definition ping6_packet :: "u16 \<Rightarrow> u16 \<Rightarrow> bytes" where
  "ping6_packet ident hop = [128, 0, 0, 0] @ be16 ident @ be16 hop @ [67, 79, 70, 69, 85, 79, 83, 54]"

definition net_ping6 :: "(nat \<Rightarrow> ('a net6_scheme \<Rightarrow> 'a net6_scheme) list) \<Rightarrow> ('a net6_scheme \<Rightarrow> 'a net6_scheme) list \<Rightarrow> bytes \<Rightarrow> u32 \<Rightarrow> 'a net6_scheme \<Rightarrow> bool \<times> 'a net6_scheme" where
  "net_ping6 tx rx ip6 hop s =
     (if \<not> ip6_ll_ok s then (False, s)
      else
        let src = (if ip6_is_ll ip6 then ip6_ll s else if ip6_global_ok s then ip6_global s else ip6_ll s);
            s = s\<lparr>ping6_ident := ping6_ident s + 1\<rparr>;
            pkt = ping6_packet (ping6_ident s) (ucast hop);
            s = s\<lparr>ping6_want := take 16 ip6, ping6_active := True, ping6_done := False\<rparr>;
            s = ipv6_send (Some tx) src ip6 58 pkt None s;
            deadline = now s + 100;
            s = hlt_until (\<lambda>s. ping6_done s \<or> now s \<ge> deadline) rx s;
            s = s\<lparr>ping6_active := False\<rparr>
        in (ping6_done s \<and> ip6_eq (ping6_reply_src s) ip6, s))"


section \<open>Findings\<close>

text \<open>
  The echo request of \<^verbatim>\<open>net_ping6\<close> carries no checksum: it is zero, and a receiver that checks it, as
  \<^verbatim>\<open>handle_icmp6\<close> does, drops the request between almost all addresses.
\<close>

lemma ping6_dropped:
  "handle_icmp6 (ping6_packet 1 1) 16 eth ([0xFE, 0x80] @ replicate 14 0) ([0xFE, 0x80] @ replicate 13 0 @ [1]) s = s"
proof -
  have "icmp6_checksum ([0xFE, 0x80] @ replicate 14 0) ([0xFE, 0x80] @ replicate 13 0 @ [1]) (take 16 (ping6_packet 1 1)) \<noteq> 0" by code_simp
  then show ?thesis by (simp add: handle_icmp6_def)
qed

text \<open>
  A resolution that finds \<^verbatim>\<open>ndp_done\<close> still set by the previous one asks nobody and takes the previous
  answer.
\<close>

lemma nd6_resolve_stale:
  assumes "nd6_lookup tgt s = (None, s)" "ndp_done s"
  shows "fst (nd6_resolve (Some q) src6 tgt s) = Some (ndp_reply_mac s)"
  using assms by (simp add: nd6_resolve_def numeral_3_eq_3 Let_def)

end
