(* ===== verification/Net_Stream.thy ===== *)
theory Net_Stream
  imports Net_Tcp
begin

text \<open>
  Theorems on TCP: the receive ring is a byte queue, the bytes a connection delivers are the bytes of
  the sender's stream, and the control blocks stay well formed under every packet and every timer
  tick. They are about code that runs with interrupts disabled, as the network interrupt does.
\<close>

section \<open>What sending changes\<close>

lemma conns_eth_send [simp]: "conns (eth_send dmac ty x s) = conns s"
  by (simp add: eth_send_def Let_def)

lemma conns_send_fragments [simp]: "conns (send_fragments off dst dmac proto ident payload s) = conns s"
  by (induction off dst dmac proto ident payload s rule: send_fragments.induct) (subst send_fragments.simps, simp add: Let_def)

lemma conns_ip_output [simp]: "conns (ip_output dst dmac proto payload s) = conns s"
  by (simp add: ip_output_def Let_def)

lemma conns_ip_send [simp]: "conns (ip_send None dst dmac proto payload s) = conns s"
  by (auto simp: ip_send_def arp_resolve_def arp_put_def split: option.splits prod.splits if_splits)

lemma conns_tcp_emit [simp]: "conns (tcp_emit None k seq flags data m sk s) = conns s"
  by (simp add: tcp_emit_def)

lemma conns_arp_learn [simp]: "conns (arp_learn ip mac s) = conns s"
  by (auto simp: arp_learn_def arp_put_def split: option.split)

lemma conns_upd [simp]: "conns (upd_conn k f s) = (conns s)[k := f (conns s ! k)]"
  by (simp add: upd_conn_def)


section \<open>The receive ring as a queue\<close>

definition ring_bytes :: "bytes \<Rightarrow> nat \<Rightarrow> nat \<Rightarrow> bytes" where
  "ring_bytes ring w n = map (\<lambda>i. ring ! ((w + 8192 - n + i) mod 8192)) [0..<n]"

abbreviation rx_bytes :: "tcb \<Rightarrow> bytes" where
  "rx_bytes t \<equiv> ring_bytes (rxr t) (rxr_w t) (rxr_fill t)"

definition ring_inv :: "tcb \<Rightarrow> bool" where
  "ring_inv t \<longleftrightarrow> length (rxr t) = 8192 \<and> rxr_w t < 8192 \<and> rxr_fill t \<le> 8192 \<and> rlen t = rxr_fill t"

lemma length_ring_bytes [simp]: "length (ring_bytes ring w n) = n"
  by (simp add: ring_bytes_def)

lemma ring_step: "w < 8192 \<Longrightarrow> n < 8192 \<Longrightarrow> ((w + 1) mod 8192 + 8192 - (n + 1) + i) mod 8192 = (w + 8192 - n + i) mod (8192 :: nat)"
proof (cases "w = 8191")
  case True
  assume "w < 8192" "n < 8192"
  then have "w + 8192 - n + i = (8192 - (n + 1) + i) + 8192" using True by simp
  then show ?thesis using True by (simp only: mod_add_self2) simp
qed (simp add: ac_simps)

lemma ring_last: "w < 8192 \<Longrightarrow> (w + 8192 - n + n) mod 8192 = (w :: nat)" if "n \<le> 8192"
  using that by simp

lemma ring_neq: "i < n \<Longrightarrow> n < 8192 \<Longrightarrow> w < 8192 \<Longrightarrow> (w + 8192 - n + i) mod 8192 \<noteq> (w :: nat)"
proof
  assume a: "i < n" "n < 8192" "w < 8192" "(w + 8192 - n + i) mod 8192 = w"
  then have "(w + 8192 - n + i) mod 8192 = (w + 8192) mod 8192" by simp
  then have "8192 dvd (w + 8192) - (w + 8192 - n + i)"
    using mod_eq_dvd_iff_nat [of "w + 8192 - n + i" "w + 8192" 8192] a(1,2) by simp
  moreover have "(w + 8192) - (w + 8192 - n + i) = n - i" using a by simp
  ultimately have "8192 dvd n - i" by metis
  then show False using a(1,2) by (auto dest: dvd_imp_le)
qed

lemma ring_bytes_push:
  assumes "length ring = 8192" "w < 8192" "n < 8192"
  shows "ring_bytes (ring[w := x]) ((w + 1) mod 8192) (n + 1) = ring_bytes ring w n @ [x]"
proof -
  have "ring_bytes (ring[w := x]) ((w + 1) mod 8192) (n + 1) = map (\<lambda>i. ring[w := x] ! ((w + 8192 - n + i) mod 8192)) [0..<n + 1]"
    using ring_step [OF assms(2,3)] by (simp add: ring_bytes_def)
  also have "\<dots> = ring_bytes ring w n @ [x]"
    using ring_neq [of _ n w, THEN not_sym] ring_last [of n w] assms by (auto simp: ring_bytes_def)
  finally show ?thesis .
qed

lemma ring_write_bytes:
  assumes "length ring = 8192" "w < 8192" "n + length xs \<le> 8192"
  shows "case ring_write ring w xs of (ring', w') \<Rightarrow> length ring' = 8192 \<and> w' < 8192 \<and> ring_bytes ring' w' (n + length xs) = ring_bytes ring w n @ xs"
  using assms
proof (induction xs arbitrary: ring w n)
  case (Cons x xs)
  have "case ring_write (ring[w := x]) ((w + 1) mod 8192) xs of (ring', w') \<Rightarrow>
      length ring' = 8192 \<and> w' < 8192 \<and> ring_bytes ring' w' (n + 1 + length xs) = ring_bytes (ring[w := x]) ((w + 1) mod 8192) (n + 1) @ xs"
    using Cons.prems by (intro Cons.IH) simp_all
  then show ?case using ring_bytes_push [OF Cons.prems(1,2), of n x] Cons.prems(3) by (simp add: TCP_RX_RING_def)
qed simp

lemma rxr_push_bytes:
  assumes "ring_inv t" "rxr_push p t = (n, t')"
  shows "n = min (length p) (8192 - rxr_fill t)" "ring_inv t'" "rx_bytes t' = rx_bytes t @ take n p"
    "\<exists>ring w f r. t' = t\<lparr>rxr := ring, rxr_w := w, rxr_fill := f, rlen := r\<rparr>"
proof -
  have i: "length (rxr t) = 8192" "rxr_w t < 8192" "rxr_fill t \<le> 8192" "rlen t = rxr_fill t" using assms(1) by (auto simp: ring_inv_def)
  obtain ring w where rw: "ring_write (rxr t) (rxr_w t) (take n p) = (ring, w)" by fastforce
  show n: "n = min (length p) (8192 - rxr_fill t)" using assms(2) by (auto simp: rxr_push_def Let_def TCP_RX_RING_def split: prod.splits)
  then have t': "t' = t\<lparr>rxr := ring, rxr_w := w, rxr_fill := rxr_fill t + n, rlen := rlen t + n\<rparr>"
    using assms(2) rw by (auto simp: rxr_push_def Let_def TCP_RX_RING_def min_def split: if_splits)
  have l: "length (take n p) = n" using n by simp
  have "case ring_write (rxr t) (rxr_w t) (take n p) of (ring', w') \<Rightarrow>
      length ring' = 8192 \<and> w' < 8192 \<and> ring_bytes ring' w' (rxr_fill t + length (take n p)) = rx_bytes t @ take n p"
    using i n by (intro ring_write_bytes) auto
  then show "ring_inv t'" "rx_bytes t' = rx_bytes t @ take n p"
    using i n unfolding rw l by (auto simp: t' ring_inv_def)
  show "\<exists>ring w f r. t' = t\<lparr>rxr := ring, rxr_w := w, rxr_fill := f, rlen := r\<rparr>" using t' by blast
qed


section \<open>The stream\<close>

text \<open>
  \<open>st\<close> is the sender's stream: the byte at every sequence number. A connection is in step with it when
  the bytes in the ring are those before \<open>rcv_nxt\<close> and every waiting slice holds the bytes from its
  sequence number on.
\<close>

definition of_stream :: "(u32 \<Rightarrow> u8) \<Rightarrow> u32 \<Rightarrow> bytes \<Rightarrow> bool" where
  "of_stream st seq d \<longleftrightarrow> (\<forall>i < length d. d ! i = st (seq + of_nat i))"

definition slice_ok :: "(u32 \<Rightarrow> u8) \<Rightarrow> ooo_slice \<Rightarrow> bool" where
  "slice_ok st sl \<longleftrightarrow> (oo_used sl \<longrightarrow> oo_len sl = length (oo_data sl) \<and> of_stream st (oo_seq sl) (oo_data sl))"

definition stream_ok :: "(u32 \<Rightarrow> u8) \<Rightarrow> tcb \<Rightarrow> bool" where
  "stream_ok st t \<longleftrightarrow>
     ring_inv t \<and> length (ooo t) = 4 \<and> list_all (slice_ok st) (ooo t) \<and> of_stream st (rcv_nxt t - of_nat (rxr_fill t)) (rx_bytes t)"

lemma of_stream_append:
  "of_stream st seq (x @ y) \<longleftrightarrow> of_stream st seq x \<and> of_stream st (seq + of_nat (length x)) y"
proof
  assume a: "of_stream st seq (x @ y)"
  have "y ! i = st (seq + of_nat (length x) + of_nat i)" if "i < length y" for i
    using a [unfolded of_stream_def, rule_format, of "length x + i"] that by (simp add: add.assoc)
  moreover have "x ! i = st (seq + of_nat i)" if "i < length x" for i
    using a [unfolded of_stream_def, rule_format, of i] that by (simp add: nth_append)
  ultimately show "of_stream st seq x \<and> of_stream st (seq + of_nat (length x)) y" by (simp add: of_stream_def)
next
  assume a: "of_stream st seq x \<and> of_stream st (seq + of_nat (length x)) y"
  show "of_stream st seq (x @ y)" unfolding of_stream_def
  proof (intro allI impI)
    fix i assume i: "i < length (x @ y)"
    show "(x @ y) ! i = st (seq + of_nat i)"
    proof (cases "i < length x")
      case False
      then have "of_nat i = (of_nat (length x) + of_nat (i - length x) :: u32)" by (simp add: of_nat_add [symmetric] del: of_nat_add)
      then show ?thesis using a False i by (simp add: of_stream_def nth_append add.assoc)
    qed (use a in \<open>simp add: of_stream_def nth_append\<close>)
  qed
qed

lemma of_stream_take: "of_stream st seq d \<Longrightarrow> of_stream st seq (take n d)"
  by (simp add: of_stream_def)

lemma of_stream_drop: "of_stream st seq d \<Longrightarrow> of_stream st (seq + of_nat n) (drop n d)"
  using of_stream_append [of st seq "take n d" "drop n d"] by (cases "n \<le> length d") (simp_all add: of_stream_def)

text \<open>The bytes before \<open>rcv_nxt\<close> grow by bytes of the stream.\<close>

lemma push_stream:
  assumes "stream_ok st t" "of_stream st (rcv_nxt t) p" "rxr_push p t = (n, t')" "t2 = t'\<lparr>rcv_nxt := rcv_nxt t + of_nat n\<rparr>"
  shows "stream_ok st t2" "rx_bytes t2 = rx_bytes t @ take n p" "n = min (length p) (8192 - rxr_fill t)" "rxr_fill t2 = rxr_fill t + n"
    "ooo t2 = ooo t" "rcv_nxt t2 = rcv_nxt t + of_nat n" "ring_inv t2"
proof -
  have inv: "ring_inv t" using assms(1) by (simp add: stream_ok_def)
  note P = rxr_push_bytes [OF inv assms(3)]
  obtain ring w f r where t': "t' = t\<lparr>rxr := ring, rxr_w := w, rxr_fill := f, rlen := r\<rparr>" using P(4) by blast
  show b: "rx_bytes t2 = rx_bytes t @ take n p" using P(3) by (simp add: assms(4))
  show n: "n = min (length p) (8192 - rxr_fill t)" by (rule P(1))
  show f: "rxr_fill t2 = rxr_fill t + n" using arg_cong [OF b, of length] n by simp
  show o: "ooo t2 = ooo t" and rn: "rcv_nxt t2 = rcv_nxt t + of_nat n" by (simp_all add: assms(4) t')
  show ri: "ring_inv t2" using P(2) by (simp add: assms(4) ring_inv_def)
  have "rcv_nxt t2 - of_nat (rxr_fill t2) = rcv_nxt t - of_nat (rxr_fill t)" by (simp add: rn f)
  then have "of_stream st (rcv_nxt t2 - of_nat (rxr_fill t2)) (rx_bytes t2)"
    using assms(1) of_stream_take [OF assms(2), of n] unfolding b by (simp add: of_stream_append stream_ok_def)
  then show "stream_ok st t2" using assms(1) ri o by (simp add: stream_ok_def)
qed

text \<open>The facts every receive step promises.\<close>

definition rx_grows :: "(u32 \<Rightarrow> u8) \<Rightarrow> tcb \<Rightarrow> tcb \<Rightarrow> bool" where
  "rx_grows st t t' \<longleftrightarrow> stream_ok st t' \<and> (\<exists>x. rx_bytes t' = rx_bytes t @ x \<and> rcv_nxt t' = rcv_nxt t + of_nat (length x))"

lemma rx_grows_refl: "stream_ok st t \<Longrightarrow> rx_grows st t t"
  by (simp add: rx_grows_def)

lemma rx_grows_trans: "rx_grows st t u \<Longrightarrow> rx_grows st u v \<Longrightarrow> rx_grows st t v"
  unfolding rx_grows_def by (fastforce simp: add.assoc)

lemma stream_ok_slices:
  assumes "stream_ok st t" "slice_ok st (f (ooo t ! i))"
  shows "stream_ok st (upd_slice i f t)"
  using assms set_update_subset_insert [of "ooo t" i "f (ooo t ! i)"] by (auto simp: stream_ok_def upd_slice_def ring_inv_def list_all_iff)

lemma stream_ok_win [simp]: "stream_ok st (t\<lparr>win_update := b\<rparr>) = stream_ok st t"
  by (simp add: stream_ok_def ring_inv_def)

lemma rx_grows_win [simp]: "rx_grows st t (t'\<lparr>win_update := b\<rparr>) = rx_grows st t t'"
  by (simp add: rx_grows_def)

lemma rx_grows_slices: "rx_grows st t u \<Longrightarrow> slice_ok st (f (ooo u ! i)) \<Longrightarrow> rx_grows st t (upd_slice i f u)"
  using stream_ok_slices [of st u f i] by (auto simp: rx_grows_def upd_slice_def)

lemma ooo_drain_grows: "stream_ok st t \<Longrightarrow> rx_grows st t (ooo_drain_n m t)"
proof (induction m arbitrary: t)
  case 0
  then show ?case by (simp add: rx_grows_refl)
next
  case (Suc m)
  show ?case
  proof (cases "ooo_pick t")
    case None
    then show ?thesis using Suc.prems by (simp add: rx_grows_refl)
  next
    case (Some i)
    then have i: "i < 4" "oo_used (ooo t ! i)" "oo_seq (ooo t ! i) = rcv_nxt t"
      by (auto simp: ooo_pick_def TCP_OOO_MAX_def dest!: find_from_SomeD)
    define sl where "sl = ooo t ! i"
    have sl: "oo_len sl = length (oo_data sl)" "of_stream st (rcv_nxt t) (oo_data sl)"
      using Suc.prems i by (auto simp: stream_ok_def slice_ok_def list_all_length sl_def)
    obtain n t' where p: "rxr_push (take (oo_len sl) (oo_data sl)) t = (n, t')" by fastforce
    define t2 where "t2 = t'\<lparr>rcv_nxt := rcv_nxt t + of_nat n\<rparr>"
    have rn': "rcv_nxt t' = rcv_nxt t" using rxr_push_bytes(4) [OF _ p] Suc.prems by (auto simp: stream_ok_def)
    have "of_stream st (rcv_nxt t) (take (oo_len sl) (oo_data sl))" using sl by simp
    note P = push_stream [OF Suc.prems this p t2_def]
    have nl: "n \<le> oo_len sl" using P(3) by simp
    have g: "rx_grows st t t2" using P(1,2,6) nl sl(1) by (auto simp: rx_grows_def)
    have sl2: "ooo t2 ! i = sl" using P(5) by (simp add: sl_def)
    show ?thesis
    proof (cases "n < oo_len sl")
      case True
      have "slice_ok st (sl\<lparr>oo_data := drop n (oo_data sl), oo_len := oo_len sl - n, oo_seq := rcv_nxt t2\<rparr>)"
        using sl of_stream_drop [OF sl(2), of n] by (simp add: slice_ok_def P(6))
      then have "rx_grows st t (upd_slice i (\<lambda>sl. sl\<lparr>oo_data := drop n (oo_data sl), oo_len := oo_len sl - n, oo_seq := rcv_nxt t2\<rparr>) t2)"
        using rx_grows_slices [OF g] sl2 by simp
      moreover have "n = 0 \<Longrightarrow> rx_grows st t (t'\<lparr>rcv_nxt := rcv_nxt t\<rparr>)" using g by (simp add: t2_def)
      ultimately show ?thesis using Some True by (simp add: p sl_def [symmetric] Let_def rn' t2_def [symmetric])
    next
      case False
      define t3 where "t3 = upd_slice i (\<lambda>sl. sl\<lparr>oo_used := False\<rparr>) t2"
      have g3: "rx_grows st t t3" unfolding t3_def by (rule rx_grows_slices [OF g]) (simp add: slice_ok_def)
      then have "rx_grows st t3 (ooo_drain_n m t3)" by (intro Suc.IH) (simp add: rx_grows_def)
      then have "rx_grows st t (ooo_drain_n m t3)" by (rule rx_grows_trans [OF g3])
      moreover have "n = 0 \<Longrightarrow> rx_grows st t (upd_slice i (oo_used_update (\<lambda>_. False)) (t'\<lparr>rcv_nxt := rcv_nxt t\<rparr>))"
        using g3 by (simp add: t3_def t2_def)
      ultimately show ?thesis using Some False by (simp add: p sl_def [symmetric] Let_def rn' t2_def [symmetric] t3_def [symmetric])
    qed
  qed
qed


lemma ooo_store_grows:
  assumes "stream_ok st t" "of_stream st seq d"
  shows "rx_grows st t (ooo_store seq d t)"
  using assms rx_grows_refl [OF assms(1)] by (auto simp: ooo_store_def slice_ok_def intro!: rx_grows_slices split: option.split)

lemma rx_accept_grows:
  assumes "stream_ok st t" "of_stream st (rcv_nxt t) d" "rx_accept (rcv_nxt t) d t = (t', nx)"
  shows "rx_grows st t t'" "nx \<noteq> Delay" "length d \<le> 8192 - rxr_fill t \<Longrightarrow> rx_bytes t' = rx_bytes t @ d"
proof -
  obtain n u where p: "rxr_push d t = (n, u)" by fastforce
  define t2 where "t2 = u\<lparr>rcv_nxt := rcv_nxt t + of_nat n\<rparr>"
  note P = push_stream [OF assms(1,2) p t2_def]
  have g: "rx_grows st t t2" using P(1-3,6) by (auto simp: rx_grows_def)
  have t': "t' = (if n < length d then t2\<lparr>win_update := True\<rparr> else t2)" "nx = (if n \<noteq> 0 then Drain else Quiet)"
    using assms(3) by (auto simp: rx_accept_def p Let_def t2_def)
  show "rx_grows st t t'" "nx \<noteq> Delay" using g by (auto simp: t')
  show "rx_bytes t' = rx_bytes t @ d" if "length d \<le> 8192 - rxr_fill t" using P(2,3) that by (simp add: t')
qed

lemma rx_data_grows:
  assumes "stream_ok st t" "of_stream st seq d" "length d < 2 ^ 16" "rx_data seq d t = (t', nx)"
  shows "rx_grows st t t'" "seq = rcv_nxt t \<Longrightarrow> d \<noteq> [] \<Longrightarrow> unat seq + length d < 2 ^ 32 \<Longrightarrow> length d \<le> 8192 - rxr_fill t \<Longrightarrow> rx_bytes t' = rx_bytes t @ d"
proof -
  define fin where "fin = seq + of_nat (length d)"
  have l: "unat (of_nat (length d) :: u32) = length d" using assms(3) by (simp add: unat_of_nat_small)
  consider (old) "fin \<le> rcv_nxt t" | (ahead) "\<not> fin \<le> rcv_nxt t" "seq > rcv_nxt t" | (exact) "\<not> fin \<le> rcv_nxt t" "seq = rcv_nxt t"
    | (part) "\<not> fin \<le> rcv_nxt t" "seq < rcv_nxt t" by fastforce
  then have "rx_grows st t t' \<and> (seq = rcv_nxt t \<and> \<not> fin \<le> rcv_nxt t \<and> length d \<le> 8192 - rxr_fill t \<longrightarrow> rx_bytes t' = rx_bytes t @ d)"
  proof cases
    case old
    then show ?thesis using assms(1,4) by (simp add: rx_data_def fin_def [symmetric] rx_grows_refl)
  next
    case ahead
    then have "t' = ooo_store seq d t" using assms(4) by (simp add: rx_data_def fin_def [symmetric] Let_def less_imp_le)
    then show ?thesis using ooo_store_grows [OF assms(1,2)] ahead(2) by auto
  next
    case exact
    have "rx_accept seq d t = (t', nx)"
      using assms(4) exact(1) unfolding rx_data_def fin_def [symmetric] exact(2) [symmetric] by simp
    then have a: "rx_accept (rcv_nxt t) d t = (t', nx)" by (simp add: exact(2))
    show ?thesis using rx_accept_grows [OF assms(1) _ a] assms(2) exact(2) by simp
  next
    case part
    define skip where "skip = rcv_nxt t - seq"
    have np: "\<not> rcv_nxt t \<le> seq" using part(2) by (simp add: not_le)
    have sk: "seq + skip = rcv_nxt t" by (simp add: skip_def)
    have st: "of_stream st (rcv_nxt t) (sub_bytes d (unat skip) m)" for m
      using of_stream_take [OF of_stream_drop [OF assms(2), of "unat skip"], of m] sk by (simp add: sub_bytes_def)
    have "rx_accept (rcv_nxt t) (sub_bytes d (unat skip) (unat (fin - rcv_nxt t))) t = (t', nx)"
      using assms(4) part(1) np by (simp add: rx_data_def fin_def [symmetric] Let_def skip_def [symmetric] sk)
    from rx_accept_grows(1) [OF assms(1) st this] show ?thesis using part(2) by auto
  qed
  moreover have "\<not> fin \<le> rcv_nxt t" if "seq = rcv_nxt t" "d \<noteq> []" "unat seq + length d < 2 ^ 32"
  proof -
    have "unat fin = unat seq + length d" unfolding fin_def using that(3) l by (subst unat_plus_small) simp_all
    then show ?thesis using that(1,2) by (simp add: word_le_nat_alt)
  qed
  ultimately show "rx_grows st t t'" "seq = rcv_nxt t \<Longrightarrow> d \<noteq> [] \<Longrightarrow> unat seq + length d < 2 ^ 32 \<Longrightarrow> length d \<le> 8192 - rxr_fill t \<Longrightarrow> rx_bytes t' = rx_bytes t @ d"
    by blast+
qed

text \<open>The fields that acknowledging changes.\<close>

definition same_rx :: "tcb \<Rightarrow> tcb \<Rightarrow> bool" where
  "same_rx t u \<longleftrightarrow> rxr u = rxr t \<and> rxr_w u = rxr_w t \<and> rxr_fill u = rxr_fill t \<and> rlen u = rlen t \<and> rcv_nxt u = rcv_nxt t \<and> ooo u = ooo t"

lemma same_rx_keeps: "same_rx u v \<Longrightarrow> rx_grows st t u \<Longrightarrow> rx_grows st t v"
  by (simp add: same_rx_def rx_grows_def stream_ok_def ring_inv_def)

lemma conns_tcp_ack_now: "conns (tcp_ack_now None k s) = (conns s)[k := (conn k s)\<lparr>last_ack := rcv_nxt (conn k s), ack_want := False, ack_inv := 0, ack_at := 0\<rparr>]"
  by (simp add: tcp_ack_now_def Let_def)

lemma ack_delayed_conns:
  assumes "k < length (conns s)"
  shows "\<exists>u. conns (ack_delayed None k s) = (conns s)[k := u] \<and> same_rx (conn k s) u"
  using assms by (auto simp: ack_delayed_def Let_def conns_tcp_ack_now same_rx_def intro!: exI)


definition tcb_ex :: tcb where
  "tcb_ex = \<lparr>t_used = True, poll_busy = False, t_st = 2, t_lfd = -1, t_ip = 0x0A000202, t_sport = 5000, t_dport = 80, t_iss = 1, created_at = 0,
     snd_una = 2, snd_nxt = 2, rcv_nxt = 100, snd_wnd = 1000, st_v = 2, t_mss = 1460, t_rto = 500, srtt = 0, rttvar = 0, cwnd = 5840, ssthresh = 93440,
     dupacks = 0, t_fr = False, t_recover = 0, t_lt = 0, ws_peer = 0, ts_ok = False, ts_recent = 0, ts_echo = 0, tx_head = 0, tx_tail = 0,
     txb = replicate 8 \<lparr>tx_pend = False, tx_sacked = False, tx_seq = 0, tx_len = 0, tx_sent_at = 0, tx_data = []\<rparr>, nagle_buf = [],
     last_rx = 0, ka_at = 0, ka_probes = 0, fin_tx = False, fin_rx = False, fin_seq = 0, fin_pend = False, fin_sent_at = 0, probe_at = 0, retries = 0,
     tw_at = 0, close_at = 0, t_ok = True, t_done = False, t_err = False, win_update = False, ack_want = False, ack_inv = 0, ack_at = 0, last_ack = 0,
     rlen = 0, rxr_w = 0, rxr_fill = 0, rxr = replicate 8192 0, ooo = replicate 4 \<lparr>oo_used = False, oo_seq = 0, oo_len = 0, oo_data = []\<rparr>\<rparr>"

definition tnet_ex :: tnet where
  "tnet_ex = dnet.extend (unet.extend unet_ex (dnet.fields [] 0)) (tnet.fields [tcb_ex])"

lemma conns_ex [simp]: "conns tnet_ex = [tcb_ex]"
  by (simp add: tnet_ex_def dnet.defs tnet.defs unet.defs)



section \<open>Well-formed control blocks\<close>

definition tcb_inv :: "tcb \<Rightarrow> bool" where
  "tcb_inv t \<longleftrightarrow>
     ring_inv t \<and> length (ooo t) = 4 \<and> length (txb t) = 8 \<and> tx_head t < 8 \<and> tx_tail t < 8 \<and> t_st t \<le> 9
     \<and> (t_used t \<longrightarrow> TCP_RTO_MIN \<le> t_rto t \<and> t_rto t \<le> TCP_RTO_MAX)"

lemmas tcb_defs = tcb_inv_def ring_inv_def

lemma inv_fields [simp]:
  "tcb_inv (t\<lparr>poll_busy := x0\<rparr>) = tcb_inv t" "tcb_inv (t\<lparr>t_lfd := x1\<rparr>) = tcb_inv t"
  "tcb_inv (t\<lparr>t_ip := x2\<rparr>) = tcb_inv t" "tcb_inv (t\<lparr>t_sport := x3\<rparr>) = tcb_inv t"
  "tcb_inv (t\<lparr>t_dport := x4\<rparr>) = tcb_inv t" "tcb_inv (t\<lparr>t_iss := x5\<rparr>) = tcb_inv t"
  "tcb_inv (t\<lparr>created_at := x6\<rparr>) = tcb_inv t" "tcb_inv (t\<lparr>snd_una := x7\<rparr>) = tcb_inv t"
  "tcb_inv (t\<lparr>snd_nxt := x8\<rparr>) = tcb_inv t" "tcb_inv (t\<lparr>rcv_nxt := x9\<rparr>) = tcb_inv t"
  "tcb_inv (t\<lparr>snd_wnd := x10\<rparr>) = tcb_inv t" "tcb_inv (t\<lparr>st_v := x11\<rparr>) = tcb_inv t"
  "tcb_inv (t\<lparr>t_mss := x12\<rparr>) = tcb_inv t" "tcb_inv (t\<lparr>srtt := x13\<rparr>) = tcb_inv t"
  "tcb_inv (t\<lparr>rttvar := x14\<rparr>) = tcb_inv t" "tcb_inv (t\<lparr>cwnd := x15\<rparr>) = tcb_inv t"
  "tcb_inv (t\<lparr>ssthresh := x16\<rparr>) = tcb_inv t" "tcb_inv (t\<lparr>dupacks := x17\<rparr>) = tcb_inv t"
  "tcb_inv (t\<lparr>t_fr := x18\<rparr>) = tcb_inv t" "tcb_inv (t\<lparr>t_recover := x19\<rparr>) = tcb_inv t"
  "tcb_inv (t\<lparr>t_lt := x20\<rparr>) = tcb_inv t" "tcb_inv (t\<lparr>ws_peer := x21\<rparr>) = tcb_inv t"
  "tcb_inv (t\<lparr>ts_ok := x22\<rparr>) = tcb_inv t" "tcb_inv (t\<lparr>ts_recent := x23\<rparr>) = tcb_inv t"
  "tcb_inv (t\<lparr>ts_echo := x24\<rparr>) = tcb_inv t" "tcb_inv (t\<lparr>nagle_buf := x25\<rparr>) = tcb_inv t"
  "tcb_inv (t\<lparr>last_rx := x26\<rparr>) = tcb_inv t" "tcb_inv (t\<lparr>ka_at := x27\<rparr>) = tcb_inv t"
  "tcb_inv (t\<lparr>ka_probes := x28\<rparr>) = tcb_inv t" "tcb_inv (t\<lparr>fin_tx := x29\<rparr>) = tcb_inv t"
  "tcb_inv (t\<lparr>fin_rx := x30\<rparr>) = tcb_inv t" "tcb_inv (t\<lparr>fin_seq := x31\<rparr>) = tcb_inv t"
  "tcb_inv (t\<lparr>fin_pend := x32\<rparr>) = tcb_inv t" "tcb_inv (t\<lparr>fin_sent_at := x33\<rparr>) = tcb_inv t"
  "tcb_inv (t\<lparr>probe_at := x34\<rparr>) = tcb_inv t" "tcb_inv (t\<lparr>retries := x35\<rparr>) = tcb_inv t"
  "tcb_inv (t\<lparr>tw_at := x36\<rparr>) = tcb_inv t" "tcb_inv (t\<lparr>close_at := x37\<rparr>) = tcb_inv t"
  "tcb_inv (t\<lparr>t_ok := x38\<rparr>) = tcb_inv t" "tcb_inv (t\<lparr>t_done := x39\<rparr>) = tcb_inv t"
  "tcb_inv (t\<lparr>t_err := x40\<rparr>) = tcb_inv t" "tcb_inv (t\<lparr>win_update := x41\<rparr>) = tcb_inv t"
  "tcb_inv (t\<lparr>ack_want := x42\<rparr>) = tcb_inv t" "tcb_inv (t\<lparr>ack_inv := x43\<rparr>) = tcb_inv t"
  "tcb_inv (t\<lparr>ack_at := x44\<rparr>) = tcb_inv t" "tcb_inv (t\<lparr>last_ack := x45\<rparr>) = tcb_inv t"
  by (simp_all add: tcb_defs)

lemma inv_st [simp, intro]: "tcb_inv t \<Longrightarrow> n \<le> 9 \<Longrightarrow> tcb_inv (t\<lparr>t_st := n\<rparr>)" "tcb_inv t \<Longrightarrow> tcb_inv (t\<lparr>t_used := False\<rparr>)"
  by (simp_all add: tcb_defs)

lemma inv_rto_double [simp, intro]: "tcb_inv t \<Longrightarrow> tcb_inv (rto_double t)"
proof -
  assume i: "tcb_inv t"
  have "TCP_RTO_MIN \<le> t_rto t * 2 \<or> t_rto t * 2 > TCP_RTO_MAX" if "TCP_RTO_MIN \<le> t_rto t" "t_rto t < TCP_RTO_MAX"
  proof -
    have "unat (t_rto t) < 3000" "200 \<le> unat (t_rto t)" using that by (simp_all add: TCP_RTO_MIN_def TCP_RTO_MAX_def word_less_nat_alt word_le_nat_alt)
    then have "unat (t_rto t * 2) = unat (t_rto t) * 2" by (simp add: unat_word_ariths)
    then show ?thesis using \<open>200 \<le> _\<close> by (simp add: TCP_RTO_MIN_def TCP_RTO_MAX_def word_less_nat_alt word_le_nat_alt)
  qed
  then show ?thesis using i by (auto simp: rto_double_def Let_def tcb_defs not_less TCP_RTO_MIN_def TCP_RTO_MAX_def)
qed

lemma inv_simple [simp, intro]:
  "tcb_inv t \<Longrightarrow> tcb_inv (rto_backoff t)" "tcb_inv t \<Longrightarrow> tcb_inv (tcp_abort t)" "tcb_inv t \<Longrightarrow> tcb_inv (cwnd_ack t)"
  "tcb_inv t \<Longrightarrow> tcb_inv (upd_slot i f t)" "tcb_inv t \<Longrightarrow> tcb_inv (upd_slice i g t)" "tcb_inv t \<Longrightarrow> tcb_inv (clamp_mss t)"
  "tcb_inv t \<Longrightarrow> tcb_inv (ack_recovery ack t)" "tcb_inv t \<Longrightarrow> tcb_inv (ack_closing n ack t)" "tcb_inv t \<Longrightarrow> tcb_inv (tcp_syn_recv tt seq ack flags t)"
  by (auto simp: tcb_defs rto_backoff_def tcp_abort_def cwnd_ack_def upd_slot_def upd_slice_def clamp_mss_def ack_recovery_def ack_closing_def tcp_syn_recv_def Let_def)

lemma inv_rtt [simp, intro]: "tcb_inv t \<Longrightarrow> tcb_inv (rtt_apply_ms ms t)" "tcb_inv t \<Longrightarrow> tcb_inv (rtt_update n t)"
proof -
  have *: "tcb_inv (rtt_apply_ms ms t)" if "tcb_inv t" for ms
    using that by (auto simp: rtt_apply_ms_def Let_def tcb_defs TCP_RTO_MIN_def TCP_RTO_MAX_def not_less)
  then show "tcb_inv t \<Longrightarrow> tcb_inv (rtt_apply_ms ms t)" "tcb_inv t \<Longrightarrow> tcb_inv (rtt_update n t)" by (auto simp: rtt_update_def Let_def)
qed

lemma inv_tx_tail: "tcb_inv t \<Longrightarrow> tcb_inv (t\<lparr>tx_tail := n mod TCP_TXQ\<rparr>)"
  by (simp add: tcb_defs TCP_TXQ_def)

lemma inv_ack_slots [simp, intro]: "tcb_inv t \<Longrightarrow> tcb_inv (ack_slots ack t)"
proof -
  have "tcb_inv t \<Longrightarrow> tcb_inv (ack_slots_n n ack t)" for n
    by (induction n ack t rule: ack_slots_n.induct) (auto simp: Let_def intro!: inv_tx_tail)
  then show "tcb_inv t \<Longrightarrow> tcb_inv (ack_slots ack t)" by (simp add: ack_slots_def)
qed

lemma inv_queue_segment [simp, intro]: "tcb_inv t \<Longrightarrow> tcb_inv (queue_segment n d t)"
  by (auto simp: queue_segment_def upd_slot_def tcb_defs TCP_TXQ_def Let_def)

lemma inv_opts [simp, intro]: "tcb_inv t \<Longrightarrow> tcb_inv (tcp_opts_parse tt p offhdr t)"
proof (induction tt p offhdr t rule: tcp_opts_parse.induct)
  case (1 tt p offhdr t)
  have u: "tcb_inv (t\<lparr>t_mss := a\<rparr>)" "tcb_inv (t\<lparr>ws_peer := b\<rparr>)" "tcb_inv (t\<lparr>ts_ok := c, ts_recent := d, ts_echo := e\<rparr>)" for a b c d e
    using 1(3) by (simp_all add: tcb_defs)
  show ?case using 1 u by (subst tcp_opts_parse.simps) (auto simp: Let_def)
qed

lemma inv_txb: "tcb_inv t \<Longrightarrow> length l = 8 \<Longrightarrow> tcb_inv (t\<lparr>txb := l\<rparr>)"
  by (simp add: tcb_defs)

lemma length_sack_blocks: "length (fold (\<lambda>i. sack_block (l i) (r i)) is sls) = length sls"
  by (induction "is" arbitrary: sls) (auto simp: sack_block_def)

lemma inv_sack [simp, intro]: "tcb_inv t \<Longrightarrow> tcb_inv (sack_apply tt p offhdr t)"
proof (induction tt p offhdr t rule: sack_apply.induct)
  case (1 tt p offhdr t)
  have l: "length (txb t) = 8" using 1(3) by (simp add: tcb_inv_def)
  show ?case using 1 l by (subst sack_apply.simps) (auto simp: Let_def length_sack_blocks intro!: inv_txb)
qed

lemma inv_syn_sent [simp, intro]: "tcb_inv t \<Longrightarrow> tcb_inv (tcp_syn_sent tt off seq ack flags t)"
proof -
  assume i: "tcb_inv t"
  then have "tcb_inv (clamp_mss (tcp_opts_parse tt 20 off (t\<lparr>rcv_nxt := seq + 1, snd_una := ack, t_mss := of_nat TCP_MSS\<rparr>)))" by (intro inv_simple inv_opts) simp
  then show ?thesis using i by (auto simp: tcp_syn_sent_def Let_def)
qed

lemma inv_child [simp, intro]: "tcb_inv t \<Longrightarrow> tcb_inv (tcp_child k a b c iss seq n t)"
  by (simp add: tcp_child_def tcb_defs TCP_RTO0_def TCP_RTO_MIN_def TCP_RTO_MAX_def)


lemma inv_rxr_push [simp]: "tcb_inv t \<Longrightarrow> tcb_inv (snd (rxr_push p t))"
  using rxr_push_bytes(2,4) [of t p "fst (rxr_push p t)" "snd (rxr_push p t)"] by (auto simp: tcb_inv_def)

lemma inv_ooo_store [simp, intro]: "tcb_inv t \<Longrightarrow> tcb_inv (ooo_store seq d t)"
  by (auto simp: ooo_store_def split: option.split)

lemma inv_ooo_drain [simp, intro]: "tcb_inv t \<Longrightarrow> tcb_inv (ooo_drain_n m t)"
proof (induction m arbitrary: t)
  case (Suc m)
  show ?case
    using Suc.prems by (simp add: Let_def case_prod_unfold Suc.IH split: option.split)
qed simp

lemma inv_rx_accept: "tcb_inv t \<Longrightarrow> rx_accept seq d t = (t', nx) \<Longrightarrow> tcb_inv t'"
  by (auto simp: rx_accept_def Let_def case_prod_unfold)

lemma inv_rx_data: "tcb_inv t \<Longrightarrow> rx_data seq d t = (t', nx) \<Longrightarrow> tcb_inv t'"
  by (auto simp: rx_data_def Let_def split: if_splits dest: inv_rx_accept)

lemma inv_ack_advance [simp, intro]: "tcb_inv t \<Longrightarrow> tcb_inv (ack_advance n ack t)"
  by (simp add: ack_advance_def Let_def)

definition tcp_inv :: "'a tnet_scheme \<Rightarrow> bool" where
  "tcp_inv s \<longleftrightarrow> list_all tcb_inv (conns s)"

lemma tcp_inv_frame [simp]:
  "tcp_inv (tcp_emit None k seq flags data m sk s) = tcp_inv s" "tcp_inv (s\<lparr>unreach := u\<rparr>) = tcp_inv s" "tcp_inv (arp_learn ip mac s) = tcp_inv s"
  by (simp_all add: tcp_inv_def)

lemma tcp_inv_upd: "tcp_inv s \<Longrightarrow> (k < length (conns s) \<Longrightarrow> tcb_inv (conn k s) \<Longrightarrow> tcb_inv (f (conn k s))) \<Longrightarrow> tcp_inv (upd_conn k f s)"
  by (cases "k < length (conns s)") (auto simp: tcp_inv_def list_all_length nth_list_update)

lemma inv_ack_now [simp, intro]: "tcp_inv s \<Longrightarrow> tcp_inv (tcp_ack_now None k s)"
  by (auto simp: tcp_ack_now_def Let_def intro!: tcp_inv_upd)

lemma inv_ack_delayed [simp, intro]: "tcp_inv s \<Longrightarrow> tcp_inv (ack_delayed None k s)"
  by (auto simp: ack_delayed_def Let_def intro!: tcp_inv_upd inv_ack_now)

lemma inv_icmp_apply [simp, intro]: "tcp_inv s \<Longrightarrow> tcp_inv (icmp_apply s)"
  by (auto simp: icmp_apply_def Let_def intro!: tcp_inv_upd split: option.split)

lemma inv_poll_probe [simp, intro]: "tcp_inv s \<Longrightarrow> tcp_inv (poll_probe None k s)"
  by (auto simp: poll_probe_def Let_def intro!: tcp_inv_upd)

lemma inv_poll_fin: "tcp_inv s \<Longrightarrow> poll_fin None k s = Inl s' \<or> poll_fin None k s = Inr s' \<Longrightarrow> tcp_inv s'"
  by (auto simp: poll_fin_def Let_def intro!: tcp_inv_upd split: if_splits)

lemma inv_poll_retransmit: "tcp_inv s \<Longrightarrow> poll_retransmit None k s = Inl s' \<or> poll_retransmit None k s = Inr s' \<Longrightarrow> tcp_inv s'"
  by (auto simp: poll_retransmit_def Let_def intro!: tcp_inv_upd split: if_splits option.splits)

lemma inv_poll_keepalive [simp, intro]: "tcp_inv s \<Longrightarrow> tcp_inv (poll_keepalive None k s)"
  by (auto simp: poll_keepalive_def Let_def intro!: tcp_inv_upd)

lemma inv_tcp_poll [simp, intro]:
  assumes "tcp_inv s"
  shows "tcp_inv (tcp_poll (\<lambda>_. None) k s)"
proof -
  define s1 where "s1 = icmp_apply s"
  define s2 where "s2 = (if ack_want (conn k s1) \<and> rcv_nxt (conn k s1) \<noteq> last_ack (conn k s1) \<and> now s1 \<ge> ack_at (conn k s1) then tcp_ack_now None k s1 else s1)"
  have s2: "tcp_inv s2" using assms by (auto simp: s2_def s1_def)
  have "tcp_inv (case poll_fin None k (poll_probe None k s2) of Inl s \<Rightarrow> s | Inr s \<Rightarrow>
      if t_st (conn k s) = 3 \<or> t_st (conn k s) = 4
      then if now s \<ge> close_at (conn k s) then upd_conn k (\<lambda>t. t\<lparr>t_used := False, t_st := 0\<rparr>) s else s
      else case poll_retransmit None k s of Inl s \<Rightarrow> s | Inr s \<Rightarrow> poll_keepalive None k s)"
    using inv_poll_fin [OF inv_poll_probe [OF s2], of k k] inv_poll_retransmit
    by (auto split: sum.split intro!: tcp_inv_upd inv_poll_keepalive)
  moreover have "tcp_inv (upd_conn k (\<lambda>t. t\<lparr>t_used := False, t_st := 0, t_ok := True, t_done := True\<rparr>) s2)" using s2 by (auto intro!: tcp_inv_upd)
  ultimately show ?thesis using assms s2 by (simp add: tcp_poll_def Let_def s1_def [symmetric] s2_def [symmetric])
qed

lemma inv_poll_guarded [simp, intro]: "tcp_inv s \<Longrightarrow> tcp_inv (tcp_poll_guarded (\<lambda>_. None) k s)"
  by (auto simp: tcp_poll_guarded_def Let_def intro!: tcp_inv_upd inv_tcp_poll)

lemma inv_fast_recovery [simp, intro]: "tcp_inv s \<Longrightarrow> tcp_inv (fast_recovery None k s)"
  by (auto simp: fast_recovery_def Let_def intro!: tcp_inv_upd split: option.split)

lemma inv_nagle_flush [simp, intro]: "tcp_inv s \<Longrightarrow> tcp_inv (nagle_flush None k s)"
  by (auto simp: nagle_flush_def Let_def intro!: tcp_inv_upd)

lemma inv_ack_in [simp, intro]: "tcp_inv s \<Longrightarrow> tcp_inv (tcp_ack_in None k tt off ack s)"
  by (auto simp: tcp_ack_in_def Let_def intro!: tcp_inv_upd inv_nagle_flush inv_fast_recovery)

lemma inv_data_in [simp, intro]: "tcp_inv s \<Longrightarrow> tcp_inv (tcp_data_in None k seq d s)"
  by (auto simp: tcp_data_in_def ooo_drain_def Let_def intro!: tcp_inv_upd inv_ack_delayed split: prod.split rx_next.split dest: inv_rx_data)

lemma inv_fin_in [simp, intro]: "tcp_inv s \<Longrightarrow> tcp_inv (tcp_fin_in None k seq n s)"
  by (auto simp: tcp_fin_in_def Let_def intro!: tcp_inv_upd inv_ack_now)

lemma inv_established [simp, intro]: "tcp_inv s \<Longrightarrow> tcp_inv (tcp_established (\<lambda>_. None) k tt off seq ack flags d s)"
  by (auto simp: tcp_established_def Let_def intro!: inv_fin_in inv_ack_delayed)

lemma inv_listen_syn [simp, intro]: "tcp_inv s \<Longrightarrow> tcp_inv (tcp_listen_syn None ptr k a b c tt off seq flags s)"
  by (auto simp: tcp_listen_syn_def Let_def intro!: tcp_inv_upd split: option.split)

lemma inv_handle_tcp: "tcp_inv s \<Longrightarrow> tcp_inv (handle_tcp (\<lambda>_. None) ptr ip iplen eth_src s)"
  unfolding handle_tcp_def Let_def
  by (auto intro!: tcp_inv_upd inv_established inv_listen_syn split: option.split)





section \<open>The loops end\<close>

lemma filter_update_less:
  "i < length xs \<Longrightarrow> P (xs ! i) \<Longrightarrow> \<not> P y \<Longrightarrow> Suc (length (filter P (xs[i := y]))) = length (filter P xs)"
proof (induction xs arbitrary: i)
  case (Cons x xs)
  then show ?case by (cases i) auto
qed simp

lemma filter_none: "length (filter P xs) = 0 \<Longrightarrow> i < length xs \<Longrightarrow> \<not> P (xs ! i)"
  by (auto simp: filter_empty_conv)

lemma ack_slots_enough:
  "tcb_inv t \<Longrightarrow> length (filter tx_pend (txb t)) \<le> n \<Longrightarrow> n \<le> m \<Longrightarrow> ack_slots_n m ack t = ack_slots_n n ack t"
proof (induction n arbitrary: m t)
  case 0
  then have "\<not> tx_pend (txb t ! tx_tail t)" using filter_none [of tx_pend "txb t" "tx_tail t"] by (simp add: tcb_inv_def)
  then show ?case by (cases m) simp_all
next
  case (Suc n)
  then obtain m' where m: "m = Suc m'" "n \<le> m'" by (cases m) auto
  define u where "u = (upd_slot (tx_tail t) (\<lambda>sl. sl\<lparr>tx_pend := False\<rparr>) t)\<lparr>tx_tail := (tx_tail t + 1) mod TCP_TXQ\<rparr>"
  have "tcb_inv u" unfolding u_def using Suc.prems(1) by (intro inv_tx_tail) simp
  moreover have "length (filter tx_pend (txb u)) \<le> n" if "tx_pend (txb t ! tx_tail t)"
    using filter_update_less [of "tx_tail t" "txb t" tx_pend "(txb t ! tx_tail t)\<lparr>tx_pend := False\<rparr>"] that Suc.prems(1,2)
    by (simp add: u_def upd_slot_def tcb_inv_def)
  ultimately show ?case using Suc.IH [OF _ _ m(2), of u] by (auto simp: m(1) Let_def u_def)
qed

lemma ooo_drain_enough:
  "tcb_inv t \<Longrightarrow> length (filter oo_used (ooo t)) \<le> n \<Longrightarrow> n \<le> m \<Longrightarrow> ooo_drain_n m t = ooo_drain_n n t"
proof (induction n arbitrary: m t)
  case 0
  have "ooo_pick t = None"
    unfolding ooo_pick_def find_from_None TCP_OOO_MAX_def using filter_none [of oo_used "ooo t"] 0(1,2) by (simp add: tcb_inv_def)
  then show ?case by (cases m) simp_all
next
  case (Suc n)
  then obtain m' where m: "m = Suc m'" "n \<le> m'" by (cases m) auto
  show ?case
  proof (cases "ooo_pick t")
    case None
    then show ?thesis by (simp add: m(1))
  next
    case (Some i)
    then have i: "i < 4" "oo_used (ooo t ! i)" by (auto simp: ooo_pick_def TCP_OOO_MAX_def dest!: find_from_SomeD)
    define p where "p = rxr_push (take (oo_len (ooo t ! i)) (oo_data (ooo t ! i))) t"
    define u where "u = upd_slice i (\<lambda>sl. sl\<lparr>oo_used := False\<rparr>) ((snd p)\<lparr>rcv_nxt := rcv_nxt (snd p) + of_nat (fst p)\<rparr>)"
    have o: "ooo (snd p) = ooo t" by (simp add: p_def rxr_push_def Let_def case_prod_unfold)
    have "tcb_inv u" using Suc.prems(1) by (simp add: u_def p_def)
    moreover have "length (filter oo_used (ooo u)) \<le> n"
      using filter_update_less [of i "ooo t" oo_used "(ooo t ! i)\<lparr>oo_used := False\<rparr>"] i Suc.prems(1,2)
      by (simp add: u_def upd_slice_def o tcb_inv_def)
    ultimately have e: "ooo_drain_n m' u = ooo_drain_n n u" using m(2) by (rule Suc.IH)
    show ?thesis
      unfolding m(1) ooo_drain_n.simps Some option.case Let_def case_prod_unfold p_def [symmetric] u_def [symmetric] e ..
  qed
qed



end
