(* ===== verification/Net_Sock.thy ===== *)
theory Net_Sock
  imports Net_Ip6 Net_Stream
begin

text \<open>
  The top of the network stack of \<^verbatim>\<open>kernel/net.cpp\<close>: the dispatch of received frames, the periodic work of the
  timer, and the TCP sockets of the system calls. A call that waits polls its connection and halts
  until the next interrupt; its waits are given as lists of steps, each with the interrupts of the
  poll's own sends and the interrupt that ends the halt.
\<close>

section \<open>Received frames\<close>

definition ip_dispatch :: "(nat \<Rightarrow> 'a tnet_scheme irqs) \<Rightarrow> u32 \<Rightarrow> bytes \<Rightarrow> nat \<Rightarrow> bytes option \<Rightarrow> 'a tnet_scheme \<Rightarrow> 'a tnet_scheme" where
  "ip_dispatch q ptr ip iplen eth_src s =
     (if ip ! 9 = 1 then handle_icmp ip iplen eth_src s
      else if ip ! 9 = 17 then handle_udp ip iplen eth_src s
      else if ip ! 9 = 6 then handle_tcp q ptr ip iplen eth_src s
      else s)"

definition handle_ipv4 :: "(nat \<Rightarrow> 'a tnet_scheme irqs) \<Rightarrow> u32 \<Rightarrow> bytes \<Rightarrow> nat \<Rightarrow> bytes option \<Rightarrow> 'a tnet_scheme \<Rightarrow> 'a tnet_scheme" where
  "handle_ipv4 q ptr ip iplen eth_src s =
     (case ip_input ip iplen s of
        (None, s) \<Rightarrow> s
      | (Some (pkt, len, slot), s) \<Rightarrow>
          let s = ip_dispatch q ptr pkt len eth_src s
          in case slot of None \<Rightarrow> s | Some i \<Rightarrow> ipf_clear i s)"

definition net_handle_eth :: "(nat \<Rightarrow> 'a net6_scheme irqs) \<Rightarrow> u32 \<Rightarrow> bytes \<Rightarrow> 'a net6_scheme \<Rightarrow> 'a net6_scheme" where
  "net_handle_eth q ptr frame s =
     (let len = length frame;
          s = s\<lparr>stat_rx := stat_rx s + 1, stat_rx_bytes := stat_rx_bytes s + of_nat len\<rparr>
      in if len < 14 then s
         else
           let type = rd16 frame 12
           in if type = 0x0806 then handle_arp frame len s
              else if type = 0x0800
              then
                if len < 34 then s
                else
                  let ip = drop 14 frame; dst = rd32 ip 16; bc = our_ip s OR NOT (our_mask s)
                  in if \<not> dhcp_waiting s \<and> dst \<noteq> our_ip s \<and> dst \<noteq> bc \<and> dst \<noteq> BROADCAST then s
                     else handle_ipv4 q ptr ip (min (unat (rd16 ip 2)) (len - 14)) (Some (sub_bytes frame 6 6)) s
              else if type = 0x86DD
              then
                if len < 54 then s
                else
                  let ip6 = drop 14 frame
                  in handle_ipv6 ip6 (40 + min (unat (rd16 ip6 4)) (len - 14 - 40)) (sub_bytes frame 6 6) s
              else s)"


section \<open>Configuration and periodic work\<close>

definition net_init :: "bytes \<Rightarrow> u32 \<Rightarrow> u32 \<Rightarrow> u32 \<Rightarrow> 'a net6_scheme \<Rightarrow> 'a net6_scheme" where
  "net_init mac ip msk gw s =
     (let s = s\<lparr>our_mac := take 6 mac, our_ip := ip, our_mask := msk, gateway := gw\<rparr>;
          s = forget_neighbours s;
          s = s\<lparr>nd6_cache := map (\<lambda>e. e\<lparr>n6_valid := False\<rparr>) (nd6_cache s)\<rparr>;
          s = s\<lparr>ip6_global_ok := False, gateway6_ok := False, ip6_prefix_len := 0, ping6_active := False, ping6_done := False,
                ndp_waiting := False, ndp_done := False, rs_pend_on := True, rs_tries := 0\<rparr>;
          s = ip6_compute_ll s
      in s\<lparr>stat_rx := 0, stat_tx := 0, stat_rx_bytes := 0\<rparr>)"

definition redir_poll :: "'a net_scheme \<Rightarrow> 'a net_scheme" where
  "redir_poll s =
     (if rd_used (redir s) \<and> now s \<ge> rd_until (redir s)
      then s\<lparr>redir := (redir s)\<lparr>rd_used := False, rd_dst := 0, rd_nexthop := 0\<rparr>\<rparr> else s)"

definition net_aux_tick :: "'a net6_scheme \<Rightarrow> 'a net6_scheme" where
  "net_aux_tick s = dhcp_auto_poll (frag_expiry_poll (redir_poll (ip6_slaac_poll (nd6_aging_poll (arp_aging_poll s)))))"

definition net_tcp_poll_all :: "(nat \<Rightarrow> nat \<Rightarrow> 'a net6_scheme irqs) \<Rightarrow> 'a net6_scheme \<Rightarrow> 'a net6_scheme" where
  "net_tcp_poll_all q s =
     net_aux_tick (fold (\<lambda>i s. if t_used (conn i s) then tcp_poll_guarded (q i) i s else s) [0..<TCP_SOCKS] s)"

definition ping_packet :: "u16 \<Rightarrow> bytes" where
  "ping_packet ident =
     (let pkt = [8, 0, 0, 0] @ be16 ident @ be16 1 @ [67, 79, 70, 69, 85, 79, 83, 0] in wr16 2 (ip_checksum pkt) pkt)"

definition net_ping :: "('a net_scheme \<Rightarrow> 'a net_scheme) list \<Rightarrow> ('a net_scheme \<Rightarrow> 'a net_scheme) list \<Rightarrow> u32 \<Rightarrow> 'a net_scheme \<Rightarrow> bool \<times> 'a net_scheme" where
  "net_ping tx rx ip s =
     (case arp_resolve (Some tx) ip s of
        (None, s) \<Rightarrow> (False, s)
      | (Some dmac, s) \<Rightarrow>
          let s = s\<lparr>ping_ident := ping_ident s + 1\<rparr>;
              pkt = ping_packet (ping_ident s);
              s = s\<lparr>ping_active := True, ping_done := False\<rparr>;
              s = ip_send None ip (Some dmac) 1 pkt s;
              deadline = now s + 100;
              s = hlt_until (\<lambda>s. ping_done s \<or> now s \<ge> deadline) rx s;
              s = s\<lparr>ping_active := False\<rparr>
          in (if \<not> ping_done s then False else if ping_reply_src s \<noteq> ip then ping_reply_src s \<noteq> 0 else True, s))"

definition net_dhcp_lease :: "'a unet_scheme \<Rightarrow> u32" where
  "net_dhcp_lease s =
     (if dhcp_lease_until s = 0 then 0
      else if now s \<ge> dhcp_lease_until s then 0
      else ucast ((dhcp_lease_until s - now s) div 100))"


section \<open>TCP sockets\<close>

definition sock_reset :: "nat \<Rightarrow> 'a tnet_scheme \<Rightarrow> 'a tnet_scheme" where
  "sock_reset k s =
     upd_conn k (\<lambda>t. t\<lparr>t_used := True, t_st := 0, st_v := 0, poll_busy := False, t_lfd := -1, t_ok := False, t_done := False, t_err := False,
       fin_tx := False, fin_rx := False, snd_una := 0, snd_nxt := 0, rcv_nxt := 0, fin_pend := False, fin_sent_at := 0, probe_at := 0, retries := 0,
       snd_wnd := of_nat TCP_MSS, t_mss := of_nat TCP_MSS, t_rto := TCP_RTO0, srtt := 0, rttvar := 0, dupacks := 0, t_fr := False, t_recover := 0, t_lt := 0,
       ws_peer := 0, ts_ok := False, ts_recent := 0, ts_echo := 0, nagle_buf := [], last_rx := now s, ka_at := 0, ka_probes := 0,
       cwnd := TCP_CWND_INIT, ssthresh := TCP_SSTHRESH_INIT, tx_head := 0, tx_tail := 0, win_update := False, created_at := 0, tw_at := 0, close_at := 0,
       ack_want := False, ack_inv := 0, ack_at := 0, last_ack := 0, rxr_w := 0, rxr_fill := 0, rlen := 0\<rparr>) s"

definition net_socket :: "'a tnet_scheme \<Rightarrow> nat option \<times> 'a tnet_scheme" where
  "net_socket s =
     (if \<not> nic_is_up s then (None, s)
      else case free_conn s of Some i \<Rightarrow> (Some i, sock_reset i s) | None \<Rightarrow> (None, s))"

definition fd_ok :: "int \<Rightarrow> bool" where
  "fd_ok fd \<longleftrightarrow> \<not> (fd < 0 \<or> fd \<ge> int TCP_SOCKS)"

type_synonym 's wait_step = "(nat \<Rightarrow> 's irqs) \<times> ('s \<Rightarrow> 's)"

text \<open>\<^verbatim>\<open>while (...) { sys_intr_poll(); tcp_poll_guarded(t); cpu_hlt(); }\<close>\<close>

fun tcp_wait :: "('a tnet_scheme \<Rightarrow> bool) \<Rightarrow> nat \<Rightarrow> 'a tnet_scheme wait_step list \<Rightarrow> 'a tnet_scheme \<Rightarrow> 'a tnet_scheme" where
  "tcp_wait stop k [] s = s"
| "tcp_wait stop k ((q, irq) # steps) s =
     (if stop s \<or> sys_intr_pending (nintr s) then s else tcp_wait stop k steps (irq (tcp_poll_guarded q k s)))"

definition net_tcp_wait :: "'a tnet_scheme wait_step list \<Rightarrow> int \<Rightarrow> u32 \<Rightarrow> 'a tnet_scheme \<Rightarrow> 'a tnet_scheme" where
  "net_tcp_wait steps fd dur s =
     (if \<not> fd_ok fd \<or> \<not> t_used (conn (nat fd) s) then s
      else
        let k = nat fd; dd = now s + ucast dur
        in tcp_wait (\<lambda>s. now s \<ge> dd \<or> t_done (conn k s) \<or> t_err (conn k s)) k steps s)"

fun syn_rounds :: "nat \<Rightarrow> ('a tnet_scheme irqs \<times> 'a tnet_scheme wait_step list) list \<Rightarrow> 'a tnet_scheme \<Rightarrow> 'a tnet_scheme" where
  "syn_rounds k [] s = s"
| "syn_rounds k ((tx, steps) # rounds) s =
     (if t_done (conn k s) then s
      else
        let s = tcp_emit tx k (t_iss (conn k s)) SYN [] True False s;
            dd = now s + 50;
            s = tcp_wait (\<lambda>s. t_done (conn k s) \<or> now s \<ge> dd) k steps s
        in syn_rounds k rounds s)"

text \<open>Up to five rounds of a SYN and a wait of half a second.\<close>

definition net_tcp_connect :: "('a tnet_scheme irqs \<times> 'a tnet_scheme wait_step list) list \<Rightarrow> int \<Rightarrow> u32 \<Rightarrow> u16 \<Rightarrow> 'a tnet_scheme \<Rightarrow> bool \<times> 'a tnet_scheme" where
  "net_tcp_connect rounds fd ip port s =
     (if \<not> fd_ok fd \<or> \<not> t_used (conn (nat fd) s) then (False, s)
      else
        let k = nat fd;
            iss = ucast (push_bit 12 (now s) XOR (now s * 2654435761) XOR 0x0D1D2E3F);
            s = upd_conn k (\<lambda>t. t\<lparr>t_ip := ip, t_dport := port, t_sport := ucast (0xC000 OR (drop_bit 16 (now s * 2654435761) AND 0x3FFF)),
                  t_iss := iss, snd_nxt := iss + 1, snd_una := iss + 1, t_st := 1, st_v := 1\<rparr>) s;
            s = syn_rounds k (take 5 rounds) s
        in if \<not> t_ok (conn k s) then (False, upd_conn k (\<lambda>t. t\<lparr>t_used := False, t_st := 0, st_v := 0\<rparr>) s)
           else (True, upd_conn k (\<lambda>t. t\<lparr>t_done := False, t_err := False\<rparr>) s))"

text \<open>
  \<^verbatim>\<open>net_tcp_send\<close>. \<open>send_window\<close> is the condition that ends its wait for the window, \<open>send_wait\<close> the wait, one
  tick at a time; \<open>None\<close> is its failure. What remains of the data is sent as one segment, so that the
  loop passes at most twice, first through the Nagle buffer.
\<close>

definition send_window :: "nat \<Rightarrow> tcb \<Rightarrow> bool" where
  "send_window rem t \<longleftrightarrow>
     (let i2 = snd_nxt t - snd_una t; win = (if cwnd t < snd_wnd t then cwnd t else snd_wnd t)
      in \<not> ring_full t \<and> (i2 + of_nat rem \<le> win \<or> t_lt t > 0 \<and> i2 + of_nat rem \<le> snd_wnd t))"

fun send_wait :: "u64 \<Rightarrow> nat \<Rightarrow> nat \<Rightarrow> 'a tnet_scheme wait_step list list \<Rightarrow> 'a tnet_scheme \<Rightarrow> 'a tnet_scheme option \<times> 'a tnet_scheme" where
  "send_wait wdd rem k [] s = (if send_window rem (conn k s) then Some s else None, s)"
| "send_wait wdd rem k (steps # rest) s =
     (if send_window rem (conn k s) then (Some s, s)
      else if t_err (conn k s) \<or> t_done (conn k s) \<or> sys_intr_pending (nintr s) \<or> now s \<ge> wdd then (None, s)
      else send_wait wdd rem k rest (net_tcp_wait steps (int k) 1 s))"

definition send_segment :: "'a tnet_scheme irqs \<Rightarrow> 'a tnet_scheme wait_step list list \<Rightarrow> nat \<Rightarrow> u32 \<Rightarrow> bytes \<Rightarrow> 'a tnet_scheme \<Rightarrow> bool \<times> 'a tnet_scheme" where
  "send_segment irqs waits k inflight data s =
     (if length data < unat (t_mss (conn k s)) \<and> inflight \<noteq> 0 then (True, upd_conn k (\<lambda>t. t\<lparr>nagle_buf := data\<rparr>) s)
      else
        case send_wait (now s + 2000) (length data) k waits s of
          (None, s) \<Rightarrow> (False, s)
        | (Some _, s) \<Rightarrow>
            let seq = snd_nxt (conn k s);
                s = upd_conn k (queue_segment (now s) data) s;
                s = tcp_emit irqs k seq (ACK OR PSH) data False False s
            in (True, upd_conn k (\<lambda>t. if t_lt t \<noteq> 0 then t\<lparr>t_lt := t_lt t - 1\<rparr> else t) s))"

definition nagle_append :: "bytes \<Rightarrow> tcb \<Rightarrow> bytes \<times> tcb" where
  "nagle_append data t =
     (let add = min (length data) (TCP_MSS - length (nagle_buf t)) in (drop add data, t\<lparr>nagle_buf := nagle_buf t @ take add data\<rparr>))"

definition net_tcp_send :: "(nat \<Rightarrow> 'a tnet_scheme irqs) \<Rightarrow> 'a tnet_scheme wait_step list list \<Rightarrow> int \<Rightarrow> bytes \<Rightarrow> 'a tnet_scheme \<Rightarrow> bool \<times> 'a tnet_scheme" where
  "net_tcp_send q waits fd data s =
     (if \<not> fd_ok fd then (False, s)
      else
        let k = nat fd; t = conn k s
        in if \<not> t_used t \<or> t_st t \<noteq> 2 \<and> t_st t \<noteq> 3 \<and> t_st t \<noteq> 5 then (False, s)
           else
             let data = take (unat (t_mss t)) (take TCP_MSS data)
             in if data = [] then (False, s)
                else
                  let inflight = snd_nxt t - snd_una t
                  in if nagle_buf t \<noteq> []
                     then
                       let (rest, t) = nagle_append data t;
                           s = nagle_flush (q 0) k (upd_conn k (\<lambda>_. t) s)
                       in if nagle_buf (conn k s) \<noteq> [] then (True, s)
                          else if rest = [] then (True, s)
                          else send_segment (q 1) waits k inflight rest s
                     else send_segment (q 1) waits k inflight data s)"

definition net_tcp_active :: "int \<Rightarrow> 'a tnet_scheme \<Rightarrow> bool" where
  "net_tcp_active fd s \<longleftrightarrow> fd_ok fd \<and> t_used (conn (nat fd) s) \<and> (t_st (conn (nat fd) s) = 2 \<or> t_st (conn (nat fd) s) = 5)"

definition net_tcp_done :: "int \<Rightarrow> 'a tnet_scheme \<Rightarrow> bool" where
  "net_tcp_done fd s \<longleftrightarrow> fd_ok fd \<and> t_done (conn (nat fd) s)"

definition net_tcp_err :: "int \<Rightarrow> 'a tnet_scheme \<Rightarrow> bool" where
  "net_tcp_err fd s \<longleftrightarrow> fd_ok fd \<and> t_err (conn (nat fd) s)"

definition net_tcp_poll :: "(nat \<Rightarrow> 'a tnet_scheme irqs) \<Rightarrow> int \<Rightarrow> 'a tnet_scheme \<Rightarrow> 'a tnet_scheme" where
  "net_tcp_poll q fd s = (if \<not> fd_ok fd then s else if t_used (conn (nat fd) s) then tcp_poll_guarded q (nat fd) s else s)"

definition net_tcp_pending :: "int \<Rightarrow> 'a tnet_scheme \<Rightarrow> nat" where
  "net_tcp_pending fd s = (if \<not> fd_ok fd then 0 else rlen (conn (nat fd) s))"

definition net_tcp_listen :: "int \<Rightarrow> u16 \<Rightarrow> 'a tnet_scheme \<Rightarrow> bool \<times> 'a tnet_scheme" where
  "net_tcp_listen fd port s =
     (if \<not> fd_ok fd \<or> \<not> t_used (conn (nat fd) s) then (False, s)
      else if \<not> nic_is_up s then (False, s)
      else (True, upd_conn (nat fd) (\<lambda>t. t\<lparr>t_st := 8, st_v := 8, t_dport := 0, t_sport := port, t_ip := our_ip s, t_ok := False, t_done := False, t_err := False\<rparr>) s))"

text \<open>The established child of a listener that came first.\<close>

fun first_child :: "nat \<Rightarrow> nat \<Rightarrow> u64 \<Rightarrow> nat option \<Rightarrow> tcb list \<Rightarrow> nat option" where
  "first_child k i bt best [] = best"
| "first_child k i bt best (t # ts) =
     (if i \<noteq> k \<and> t_used t \<and> t_lfd t = int k \<and> t_st t = 2 \<and> created_at t < bt then first_child k (i + 1) (created_at t) (Some i) ts
      else first_child k (i + 1) bt best ts)"

definition net_tcp_accept_nb :: "int \<Rightarrow> 'a tnet_scheme \<Rightarrow> nat option \<times> 'a tnet_scheme" where
  "net_tcp_accept_nb fd s =
     (if \<not> fd_ok fd \<or> \<not> t_used (conn (nat fd) s) then (None, s)
      else
        case first_child (nat fd) 0 (- 1) None (conns s) of
          Some i \<Rightarrow> (Some i, upd_conn i (\<lambda>t. t\<lparr>t_done := False, t_err := False\<rparr>) s)
        | None \<Rightarrow> (None, s))"

text \<open>The blocking accept; a round is the poll of all sockets and a wait of 200 milliseconds.\<close>

fun accept_rounds :: "nat \<Rightarrow> u64 \<Rightarrow> ((nat \<Rightarrow> nat \<Rightarrow> 'a net6_scheme irqs) \<times> ('a net6_scheme \<Rightarrow> 'a net6_scheme) list) list \<Rightarrow> 'a net6_scheme \<Rightarrow> nat option \<times> 'a net6_scheme" where
  "accept_rounds k dead [] s = (None, s)"
| "accept_rounds k dead ((q, rx) # rounds) s =
     (case first_child k 0 (- 1) None (conns s) of
        Some i \<Rightarrow> (Some i, upd_conn i (\<lambda>t. t\<lparr>t_done := False, t_err := False\<rparr>) s)
      | None \<Rightarrow>
          if dead \<noteq> 0 \<and> now s \<ge> dead then (None, s)
          else if sys_intr_pending (nintr s) then (None, s)
          else
            let s = net_tcp_poll_all q s; dd = now s + 20
            in accept_rounds k dead rounds (hlt_until (\<lambda>s. now s \<ge> dd) rx s))"

definition net_tcp_accept :: "((nat \<Rightarrow> nat \<Rightarrow> 'a net6_scheme irqs) \<times> ('a net6_scheme \<Rightarrow> 'a net6_scheme) list) list \<Rightarrow> int \<Rightarrow> u32 \<Rightarrow> 'a net6_scheme \<Rightarrow> nat option \<times> 'a net6_scheme" where
  "net_tcp_accept rounds fd dur s =
     (if \<not> fd_ok fd \<or> \<not> t_used (conn (nat fd) s) then (None, s)
      else accept_rounds (nat fd) (if dur \<noteq> 0 then now s + ucast dur else 0) rounds s)"

text \<open>Reading the ring: the bytes copied and the control block afterwards.\<close>

fun ring_read :: "nat \<Rightarrow> nat \<Rightarrow> tcb \<Rightarrow> bytes \<times> tcb" where
  "ring_read 0 r t = ([], t)"
| "ring_read (Suc n) r t =
     (if rxr_fill t = 0 then ([], t)
      else
        case ring_read n ((r + 1) mod TCP_RX_RING) (t\<lparr>rxr_fill := rxr_fill t - 1, rlen := rlen t - 1\<rparr>) of
          (bs, t') \<Rightarrow> (rxr t ! r # bs, t'))"

definition net_tcp_recv :: "'a tnet_scheme irqs \<Rightarrow> int \<Rightarrow> u32 \<Rightarrow> 'a tnet_scheme \<Rightarrow> bytes \<times> 'a tnet_scheme" where
  "net_tcp_recv irqs fd cap s =
     (if \<not> fd_ok fd then ([], s)
      else
        let k = nat fd; t = conn k s;
            (bs, t) = ring_read (unat cap) ((rxr_w t + TCP_RX_RING - rxr_fill t) mod TCP_RX_RING) t;
            s = upd_conn k (\<lambda>_. t) s
        in if bs \<noteq> [] \<and> win_update t \<and> rxr_fill t < TCP_RX_RING div 2
           then (bs, tcp_ack_now irqs k (upd_conn k (\<lambda>t. t\<lparr>win_update := False\<rparr>) s))
           else (bs, s))"

definition net_tcp_recv_some :: "'a tnet_scheme wait_step list \<Rightarrow> 'a tnet_scheme irqs \<Rightarrow> int \<Rightarrow> u32 \<Rightarrow> u32 \<Rightarrow> 'a tnet_scheme \<Rightarrow> bytes \<times> 'a tnet_scheme" where
  "net_tcp_recv_some steps irqs fd cap dur s =
     (if \<not> fd_ok fd then ([], s)
      else
        let k = nat fd; dd = now s + ucast dur;
            s = tcp_wait (\<lambda>s. now s \<ge> dd \<or> rlen (conn k s) \<noteq> 0 \<or> t_err (conn k s) \<or> t_done (conn k s)) k steps s
        in net_tcp_recv irqs fd cap s)"

definition send_fin :: "nat \<Rightarrow> u64 \<Rightarrow> tcb \<Rightarrow> tcb" where
  "send_fin st ticks_now t =
     t\<lparr>fin_tx := True, fin_seq := snd_nxt t, snd_nxt := snd_nxt t + 1, t_st := st, fin_pend := True, fin_sent_at := ticks_now\<rparr>"

definition net_tcp_close :: "'a tnet_scheme irqs \<Rightarrow> 'a tnet_scheme wait_step list \<Rightarrow> int \<Rightarrow> 'a tnet_scheme \<Rightarrow> 'a tnet_scheme" where
  "net_tcp_close irqs steps fd s =
     (if \<not> fd_ok fd then s
      else
        let k = nat fd
        in if \<not> t_used (conn k s) then s
           else
             let s = (if t_st (conn k s) = 2
                      then
                        let s = upd_conn k (\<lambda>t. (send_fin 3 (now s) t)\<lparr>close_at := now s + 200\<rparr>) s;
                            s = tcp_emit irqs k (fin_seq (conn k s)) (FIN OR ACK) [] False False s
                        in net_tcp_wait steps fd 120 s
                      else if t_st (conn k s) = 5
                      then
                        let s = upd_conn k (send_fin 6 (now s)) s;
                            s = tcp_emit irqs k (fin_seq (conn k s)) (FIN OR ACK) [] False False s
                        in net_tcp_wait steps fd 60 s
                      else s);
                 t = conn k s
             in if t_st t = 7 \<or> t_st t = 3 \<or> t_st t = 4 then s
                else if t_ok t \<or> fin_rx t \<or> t_err t then upd_conn k (\<lambda>t. t\<lparr>t_used := False, t_st := 0, st_v := 0\<rparr>) s
                else s)"


section \<open>Reading from a socket\<close>

lemma tcb_self: "\<exists>a b. t = t\<lparr>rxr_fill := a, rlen := b\<rparr>" for t :: tcb
  by (rule exI [of _ "rxr_fill t"], rule exI [of _ "rlen t"]) simp

lemma ring_read_correct:
  assumes "ring_inv t" "r = (rxr_w t + TCP_RX_RING - rxr_fill t) mod TCP_RX_RING" "ring_read n r t = (bs, t')"
  shows "bs = take n (rx_bytes t) \<and> rx_bytes t' = drop n (rx_bytes t) \<and> ring_inv t' \<and> (\<exists>a b. t' = t\<lparr>rxr_fill := a, rlen := b\<rparr>)"
  using assms
proof (induction n arbitrary: r t bs)
  case (Suc n)
  show ?case
  proof (cases "rxr_fill t = 0")
    case True
    then have "bs = []" "t' = t" using Suc.prems(3) by simp_all
    then show ?thesis using Suc.prems(1) True tcb_self by (simp add: ring_bytes_def)
  next
    case False
    define t1 where "t1 = t\<lparr>rxr_fill := rxr_fill t - 1, rlen := rlen t - 1\<rparr>"
    have i1: "ring_inv t1" using Suc.prems(1) by (auto simp: ring_inv_def t1_def)
    have f: "rxr_fill t \<le> 8192" "rxr_w t < 8192" "rxr_fill t1 = rxr_fill t - 1" using Suc.prems(1) by (auto simp: ring_inv_def t1_def)
    have r1: "(r + 1) mod TCP_RX_RING = (rxr_w t1 + TCP_RX_RING - rxr_fill t1) mod TCP_RX_RING"
      unfolding Suc.prems(2) mod_add_left_eq using f False by (intro arg_cong [where f = "\<lambda>x. x mod TCP_RX_RING"]) (simp add: t1_def TCP_RX_RING_def)
    obtain bs1 where b: "ring_read n ((r + 1) mod TCP_RX_RING) t1 = (bs1, t')" "bs = rxr t ! r # bs1"
      using Suc.prems(3) False by (auto simp: t1_def split: prod.splits)
    note IH = Suc.IH [OF i1 r1 b(1)]
    have "rx_bytes t = rxr t ! r # rx_bytes t1"
    proof -
      have "[0..<rxr_fill t] = 0 # map Suc [0..<rxr_fill t1]" using False f(3) by (simp add: upt_conv_Cons [of 0] map_Suc_upt)
      moreover have "rxr_w t + 8192 - rxr_fill t + Suc i = rxr_w t1 + 8192 - rxr_fill t1 + i" for i using False f by (simp add: t1_def)
      ultimately have "rx_bytes t = rxr t ! ((rxr_w t + 8192 - rxr_fill t) mod 8192) # ring_bytes (rxr t) (rxr_w t1) (rxr_fill t1)"
        by (simp only: ring_bytes_def list.map map_map comp_def add_0_right)
      then show ?thesis by (simp add: Suc.prems(2) TCP_RX_RING_def) (simp add: t1_def)
    qed
    then show ?thesis using IH b(2) by (auto simp: t1_def)
  qed
next
  case 0
  then show ?case using tcb_self by simp
qed

text \<open>
  A read returns exactly the oldest bytes that wait in the receive queue of the connection, as many as there are
  up to the capacity of the buffer, and leaves the rest in order; the control blocks stay well formed.
\<close>

theorem net_tcp_recv_correct:
  assumes "tcp_inv s" "fd_ok fd" "nat fd < length (conns s)" "net_tcp_recv None fd cap s = (bs, s')"
  shows "bs = take (unat cap) (rx_bytes (conn (nat fd) s)) \<and> rx_bytes (conn (nat fd) s') = drop (unat cap) (rx_bytes (conn (nat fd) s)) \<and> tcp_inv s'"
proof -
  define t where "t = conn (nat fd) s"
  obtain ds t1 where r: "ring_read (unat cap) ((rxr_w t + TCP_RX_RING - rxr_fill t) mod TCP_RX_RING) t = (ds, t1)" by fastforce
  have inv: "tcb_inv t" using assms(1,3) by (simp add: tcp_inv_def list_all_length t_def)
  then have R: "ds = take (unat cap) (rx_bytes t)" "rx_bytes t1 = drop (unat cap) (rx_bytes t)" "ring_inv t1" "\<exists>a b. t1 = t\<lparr>rxr_fill := a, rlen := b\<rparr>"
    using ring_read_correct [OF _ refl r] by (auto simp: tcb_inv_def)
  have t1: "tcb_inv t1" using R(3,4) inv by (auto simp: tcb_inv_def)
  then have "tcp_inv (upd_conn (nat fd) (\<lambda>_. t1) s)" using assms(1) by (auto intro: tcp_inv_upd)
  then have "tcp_inv (upd_conn (nat fd) (\<lambda>t. t\<lparr>last_ack := rcv_nxt t, ack_want := False, ack_inv := 0, ack_at := 0\<rparr>)
      (upd_conn (nat fd) (win_update_update (\<lambda>_. False)) (upd_conn (nat fd) (\<lambda>_. t1) s)))"
    by (intro tcp_inv_upd) (simp_all add: assms(1) t1)
  then show ?thesis using assms(2-4) R(1,2) \<open>tcp_inv (upd_conn _ (\<lambda>_. t1) s)\<close> unfolding net_tcp_recv_def
    by (auto simp: Let_def r [unfolded t_def] t_def tcp_ack_now_def split: if_splits)
qed

theorem net_tcp_recv_correct_witness:
  "\<exists>s'. net_tcp_recv None 0 2 (upd_conn 0 (\<lambda>t. t\<lparr>rxr := (rxr t)[8191 := 7, 0 := 8, 1 := 9], rxr_w := 2, rxr_fill := 3, rlen := 3\<rparr>) tnet_ex) = ([7, 8], s')
     \<and> rx_bytes (conn 0 s') = [9]"
proof -
  define s where "s = upd_conn 0 (\<lambda>t. t\<lparr>rxr := (rxr t)[8191 := 7, 0 := 8, 1 := 9], rxr_w := 2, rxr_fill := 3, rlen := 3\<rparr>) tnet_ex"
  obtain bs s' where r: "net_tcp_recv None 0 2 s = (bs, s')" by fastforce
  have t: "tcb_inv tcb_ex" "length (rxr tcb_ex) = 8192" by (simp_all add: tcb_ex_def tcb_defs TCP_RTO_MIN_def TCP_RTO_MAX_def)
  then have i: "tcp_inv s" by (simp add: s_def tcp_inv_def tcb_inv_def ring_inv_def)
  have b: "rx_bytes (conn 0 s) = [7, 8, 9]" using t(2) by (simp add: s_def ring_bytes_def upt_rec nth_list_update)
  show ?thesis using net_tcp_recv_correct [OF i _ _ r] r b by (simp add: fd_ok_def TCP_SOCKS_def s_def [symmetric]) (simp add: s_def)
qed

text \<open>
  A new connection inherits the segments of the last one in its slot: when the first slot of the queue was not
  acknowledged, the queue of the new connection counts as full from the start.
\<close>

lemma sock_reset_full:
  "k < length (conns s) \<Longrightarrow> tx_pend (txb (conn k s) ! 0) \<Longrightarrow> ring_full (conn k (sock_reset k s))"
  by (simp add: sock_reset_def ring_full_def)

end
