(* ===== verification/Fs_Disk.thy ===== *)
theory Fs_Disk
  imports Bytes
begin

text \<open>
  The lower half of the file system, \<^verbatim>\<open>kernel/cofeufs.cpp\<close>: the on-disk records and their byte
  layout, the state of the file system (superblock, block bit map, the shared sector buffer
  \<^verbatim>\<open>sec\<close>, the disk), sector I/O, the inode table, the block bit map and the mapping from the logical
  blocks of an inode to data blocks. The disk is \<^verbatim>\<open>kernel/ata.cpp\<close> at the level of whole sectors: a
  read that fails leaves the buffer as it was (the callers ignore the result), a write to an absent
  disk is lost. The programming of the ATA task file is not modelled.

  The three on-disk records share the contract \<open>record_codec\<close>; the block bit map is the second
  implementation of \<open>index_allocator\<close>.
\<close>

section \<open>Layout constants\<close>

definition SB_LBA :: u32 where "SB_LBA = 2048"
definition BM_LBA :: u32 where "BM_LBA = 2050"
definition BM_BLOCKS :: nat where "BM_BLOCKS = 16"
definition INO_LBA :: u32 where "INO_LBA = 2066"
definition INO_BLOCKS :: nat where "INO_BLOCKS = 64"
definition DATA_LBA :: u32 where "DATA_LBA = 2130"
definition DISK_BLOCKS :: u32 where "DISK_BLOCKS = 67584"
definition DATA_COUNT :: u32 where "DATA_COUNT = DISK_BLOCKS - DATA_LBA"
definition FT_FREE :: u16 where "FT_FREE = 0"
definition FT_FILE :: u16 where "FT_FILE = 1"
definition FT_DIR :: u16 where "FT_DIR = 2"
definition INO_PER_BLK :: nat where "INO_PER_BLK = 4"
definition INO_COUNT :: u32 where "INO_COUNT = 256"
definition MAX_DIRECT :: nat where "MAX_DIRECT = 20"
definition IND_PTRS :: nat where "IND_PTRS = 128"
definition MAX_INDIRECT :: nat where "MAX_INDIRECT = 2"
definition MAX_BLOCKS :: nat where "MAX_BLOCKS = MAX_DIRECT + MAX_INDIRECT"
definition MAX_FILE :: nat where "MAX_FILE = (MAX_DIRECT + MAX_INDIRECT * IND_PTRS) * 512"
definition DE_PER_BLK :: nat where "DE_PER_BLK = 12"
definition NOBLK :: u32 where "NOBLK = 0xFFFFFFFF"

lemmas fs_const_defs = SB_LBA_def BM_LBA_def BM_BLOCKS_def INO_LBA_def INO_BLOCKS_def DATA_LBA_def
  DISK_BLOCKS_def DATA_COUNT_def INO_PER_BLK_def INO_COUNT_def MAX_DIRECT_def IND_PTRS_def
  MAX_INDIRECT_def MAX_BLOCKS_def MAX_FILE_def DE_PER_BLK_def NOBLK_def


section \<open>On-disk records\<close>

locale record_codec =
  fixes enc :: "'a \<Rightarrow> bytes" and dec :: "bytes \<Rightarrow> 'a" and wf :: "'a \<Rightarrow> bool" and size :: nat
  assumes enc_length: "wf x \<Longrightarrow> length (enc x) = size"
    and dec_enc: "wf x \<Longrightarrow> dec (enc x) = x"
    and dec_wf: "length bs = size \<Longrightarrow> wf (dec bs)"
begin

lemma slot_same:
  "wf x \<Longrightarrow> off + size \<le> length bs \<Longrightarrow> dec (sub_bytes (put_bytes bs off (enc x)) off size) = x"
  by (simp add: wire_simps enc_length dec_enc)

lemma slot_other:
  assumes "wf x" "k * size + size \<le> length bs" "j * size + size \<le> length bs" "j \<noteq> k"
  shows "sub_bytes (put_bytes bs (k * size) (enc x)) (j * size) size = sub_bytes bs (j * size) size"
proof -
  have "j * size + size \<le> k * size \<or> k * size + size \<le> j * size"
  proof (cases "j < k")
    case True
    then have "Suc j * size \<le> k * size" by (intro mult_le_mono1) simp
    then show ?thesis by simp
  next
    case False
    with assms(4) have "Suc k * size \<le> j * size" by (intro mult_le_mono1) simp
    then show ?thesis by simp
  qed
  with assms show ?thesis by (intro sub_put_other) (simp_all add: enc_length)
qed

lemma slot_length: "wf x \<Longrightarrow> off + size \<le> length bs \<Longrightarrow> length (put_bytes bs off (enc x)) = length bs"
  by (simp add: enc_length)

end

record superblock =
  magic :: bytes
  fs_start :: u32
  fs_blocks :: u32
  bm_lba :: u32
  bm_blocks :: u32
  ino_lba :: u32
  ino_blocks :: u32
  data_lba :: u32
  data_blocks :: u32
  ino_per_blk :: u32
  ino_count :: u32
  root_ino :: u32
  sb_pad :: "u32 list"

record inode =
  i_name :: bytes
  i_type :: u16
  i_rsv :: u16
  i_size :: u32
  i_blocks :: "u32 list"

record dirent =
  d_ino :: u32
  d_name :: bytes
  d_type :: u8
  d_pad :: bytes

definition enc_super :: "superblock \<Rightarrow> bytes" where
  "enc_super b =
     magic b @ enc_u32s ([fs_start b, fs_blocks b, bm_lba b, bm_blocks b, ino_lba b, ino_blocks b,
       data_lba b, data_blocks b, ino_per_blk b, ino_count b, root_ino b] @ sb_pad b)"

definition dec_super :: "bytes \<Rightarrow> superblock" where
  "dec_super bs =
     (let w = u32_at (sub_bytes bs 8 56)
      in \<lparr>magic = sub_bytes bs 0 8, fs_start = w 0, fs_blocks = w 1, bm_lba = w 2, bm_blocks = w 3,
          ino_lba = w 4, ino_blocks = w 5, data_lba = w 6, data_blocks = w 7, ino_per_blk = w 8,
          ino_count = w 9, root_ino = w 10, sb_pad = [w 11, w 12, w 13]\<rparr>)"

definition wf_super :: "superblock \<Rightarrow> bool" where
  "wf_super b \<longleftrightarrow> length (magic b) = 8 \<and> length (sb_pad b) = 3"

definition enc_inode :: "inode \<Rightarrow> bytes" where
  "enc_inode i = i_name i @ le16 (i_type i) @ le16 (i_rsv i) @ le32 (i_size i) @ enc_u32s (i_blocks i)"

definition dec_inode :: "bytes \<Rightarrow> inode" where
  "dec_inode bs =
     \<lparr>i_name = sub_bytes bs 0 32, i_type = un16 (sub_bytes bs 32 2), i_rsv = un16 (sub_bytes bs 34 2),
      i_size = un32 (sub_bytes bs 36 4), i_blocks = dec_u32s 22 (sub_bytes bs 40 88)\<rparr>"

definition wf_inode :: "inode \<Rightarrow> bool" where
  "wf_inode i \<longleftrightarrow> length (i_name i) = 32 \<and> length (i_blocks i) = 22"

definition enc_dirent :: "dirent \<Rightarrow> bytes" where
  "enc_dirent e = le32 (d_ino e) @ d_name e @ [d_type e] @ d_pad e"

definition dec_dirent :: "bytes \<Rightarrow> dirent" where
  "dec_dirent bs =
     \<lparr>d_ino = un32 (sub_bytes bs 0 4), d_name = sub_bytes bs 4 32, d_type = bs ! 36, d_pad = sub_bytes bs 37 3\<rparr>"

definition wf_dirent :: "dirent \<Rightarrow> bool" where
  "wf_dirent e \<longleftrightarrow> length (d_name e) = 32 \<and> length (d_pad e) = 3"

lemma length_dec_u32s [simp]: "length (dec_u32s n bs) = n"
  by (simp add: dec_u32s_def)

lemma sub_bytes_take: "sub_bytes (take m bs) off n = take (min n (m - off)) (drop off bs)"
  by (simp add: sub_bytes_def drop_take)

interpretation super_codec: record_codec enc_super dec_super wf_super 64
proof unfold_locales
  fix x :: superblock and bs :: bytes
  show "length (enc_super x) = 64" if "wf_super x"
    using that by (simp add: wf_super_def enc_super_def)
  show "wf_super (dec_super bs)" if "length bs = 64"
    using that by (simp add: wf_super_def dec_super_def Let_def)
  show "dec_super (enc_super x) = x" if wf: "wf_super x"
  proof -
    obtain p q r where pad: "sb_pad x = [p, q, r]" and m: "length (magic x) = 8"
      using wf by (auto simp: wf_super_def numeral_eq_Suc length_Suc_conv)
    define ws where "ws = [fs_start x, fs_blocks x, bm_lba x, bm_blocks x, ino_lba x, ino_blocks x,
       data_lba x, data_blocks x, ino_per_blk x, ino_count x, root_ino x, p, q, r]"
    have e: "enc_super x = magic x @ enc_u32s ws" by (simp add: enc_super_def ws_def pad)
    have "sub_bytes (enc_super x) 8 56 = enc_u32s ws" "sub_bytes (enc_super x) 0 8 = magic x"
      using m by (simp_all add: e sub_bytes_append ws_def)
    then show ?thesis
      by (intro superblock.equality) (simp_all add: dec_super_def u32_at_enc ws_def pad Let_def)
  qed
qed

interpretation inode_codec: record_codec enc_inode dec_inode wf_inode 128
proof unfold_locales
  fix x :: inode and bs :: bytes
  show "length (enc_inode x) = 128" if "wf_inode x" using that by (simp add: wf_inode_def enc_inode_def)
  show "wf_inode (dec_inode bs)" if "length bs = 128" using that by (simp add: wf_inode_def dec_inode_def)
  show "dec_inode (enc_inode x) = x" if "wf_inode x"
    using that
    by (simp add: wf_inode_def enc_inode_def dec_inode_def sub_bytes_append wire_simps)
qed

interpretation dirent_codec: record_codec enc_dirent dec_dirent wf_dirent 40
proof unfold_locales
  fix x :: dirent and bs :: bytes
  show "length (enc_dirent x) = 40" if "wf_dirent x" using that by (simp add: wf_dirent_def enc_dirent_def)
  show "wf_dirent (dec_dirent bs)" if "length bs = 40" using that by (simp add: wf_dirent_def dec_dirent_def)
  show "dec_dirent (enc_dirent x) = x" if "wf_dirent x"
    using that
    by (simp add: wf_dirent_def enc_dirent_def dec_dirent_def sub_bytes_append nth_append wire_simps)
qed



section \<open>State and sector I/O\<close>

record cofeufs =
  ata_present :: bool
  bad_sector :: "u32 \<Rightarrow> bool"
  sectors :: "u32 \<Rightarrow> bytes"
  super :: superblock
  bm :: bytes
  sec :: bytes
  mounted :: bool

definition ata_read_sector :: "u32 \<Rightarrow> cofeufs \<Rightarrow> bytes option" where
  "ata_read_sector lba s =
     (let a = lba AND 0x0FFFFFFF
      in if \<not> ata_present s \<or> bad_sector s a then None else Some (sectors s a))"

definition ata_write_sector :: "u32 \<Rightarrow> bytes \<Rightarrow> cofeufs \<Rightarrow> cofeufs" where
  "ata_write_sector lba buf s =
     (if \<not> ata_present s then s else s\<lparr>sectors := (sectors s)(lba AND 0x0FFFFFFF := buf)\<rparr>)"

definition disk_read :: "u32 \<Rightarrow> cofeufs \<Rightarrow> cofeufs" where
  "disk_read lba s = (case ata_read_sector lba s of None \<Rightarrow> s | Some b \<Rightarrow> s\<lparr>sec := b\<rparr>)"

definition disk_write :: "u32 \<Rightarrow> cofeufs \<Rightarrow> cofeufs" where
  "disk_write lba s = ata_write_sector lba (sec s) s"

definition MAGIC :: bytes where
  "MAGIC = [67, 79, 70, 69, 85, 70, 83, 49]"

definition read_super :: "cofeufs \<Rightarrow> bool \<times> cofeufs" where
  "read_super s =
     (let s = disk_read SB_LBA s; s = s\<lparr>super := dec_super (sub_bytes (sec s) 0 64)\<rparr>
      in (magic (super s) = MAGIC, s))"

definition write_super :: "cofeufs \<Rightarrow> cofeufs" where
  "write_super s =
     (let s = s\<lparr>sec := replicate 512 0\<rparr>; s = s\<lparr>sec := put_bytes (sec s) 0 (enc_super (super s))\<rparr>
      in disk_write SB_LBA s)"

definition inode_read :: "u32 \<Rightarrow> cofeufs \<Rightarrow> inode \<times> cofeufs" where
  "inode_read n s =
     (let blk = INO_LBA + n div 4; s = disk_read blk s
      in (dec_inode (sub_bytes (sec s) (unat (n mod 4) * 128) 128), s))"

definition inode_write :: "u32 \<Rightarrow> inode \<Rightarrow> cofeufs \<Rightarrow> cofeufs" where
  "inode_write n i s =
     (let blk = INO_LBA + n div 4; off = unat (n mod 4) * 128; s = disk_read blk s;
          s = s\<lparr>sec := put_bytes (sec s) off (enc_inode i)\<rparr>
      in disk_write blk s)"

text \<open>\<^verbatim>\<open>bm_read\<close> and \<^verbatim>\<open>bm_flush\<close>: the loops over the 16 sectors of the bit map.\<close>

primrec bm_read_n :: "nat \<Rightarrow> cofeufs \<Rightarrow> cofeufs" where
  "bm_read_n 0 s = s"
| "bm_read_n (Suc i) s =
     (let s = bm_read_n i s
      in case ata_read_sector (BM_LBA + of_nat i) s of
           None \<Rightarrow> s | Some b \<Rightarrow> s\<lparr>bm := put_bytes (bm s) (i * 512) b\<rparr>)"

definition bm_read :: "cofeufs \<Rightarrow> cofeufs" where "bm_read s = bm_read_n BM_BLOCKS s"

primrec bm_flush_n :: "nat \<Rightarrow> cofeufs \<Rightarrow> cofeufs" where
  "bm_flush_n 0 s = s"
| "bm_flush_n (Suc i) s =
     (let s = bm_flush_n i s
      in ata_write_sector (BM_LBA + of_nat i) (sub_bytes (bm s) (i * 512) 512) s)"

definition bm_flush :: "cofeufs \<Rightarrow> cofeufs" where "bm_flush s = bm_flush_n BM_BLOCKS s"

definition block_alloc :: "cofeufs \<Rightarrow> u32 option \<times> cofeufs" where
  "block_alloc s =
     (case find_from (\<lambda>i. \<not> bit_test (bm s) i) 0 (unat DATA_COUNT) of
        None \<Rightarrow> (None, s)
      | Some i \<Rightarrow> (Some (of_nat i), s\<lparr>bm := bit_set (bm s) i\<rparr>))"

definition block_free :: "u32 \<Rightarrow> cofeufs \<Rightarrow> cofeufs" where
  "block_free n s = (if DATA_COUNT \<le> n then s else s\<lparr>bm := bit_clear (bm s) (unat n)\<rparr>)"


section \<open>Logical blocks of an inode\<close>

definition set_block :: "nat \<Rightarrow> u32 \<Rightarrow> inode \<Rightarrow> inode" where
  "set_block k v i = i\<lparr>i_blocks := (i_blocks i)[k := v]\<rparr>"

text \<open>The two loops of \<^verbatim>\<open>inode_free_blocks\<close>: direct blocks, then the indirect tables with their entries.\<close>

primrec free_direct :: "nat \<Rightarrow> inode \<times> cofeufs \<Rightarrow> inode \<times> cofeufs" where
  "free_direct 0 x = x"
| "free_direct (Suc k) x =
     (case free_direct k x of (i, s) \<Rightarrow>
        let b = i_blocks i ! k
        in if b \<noteq> NOBLK \<and> b < DATA_COUNT then (set_block k NOBLK i, block_free b s) else (i, s))"

primrec free_ptrs :: "nat \<Rightarrow> cofeufs \<Rightarrow> cofeufs" where
  "free_ptrs 0 s = s"
| "free_ptrs (Suc j) s =
     (let s = free_ptrs j s; p = u32_at (sec s) j
      in if p \<noteq> NOBLK \<and> p < DATA_COUNT then block_free p s else s)"

primrec free_indirect :: "nat \<Rightarrow> inode \<times> cofeufs \<Rightarrow> inode \<times> cofeufs" where
  "free_indirect 0 x = x"
| "free_indirect (Suc t) x =
     (case free_indirect t x of (i, s) \<Rightarrow>
        let tbl = i_blocks i ! (MAX_DIRECT + t)
        in if tbl = NOBLK \<or> DATA_COUNT \<le> tbl then (i, s)
           else
             let s = disk_read (DATA_LBA + tbl) s; s = free_ptrs IND_PTRS s; s = block_free tbl s
             in (set_block (MAX_DIRECT + t) NOBLK i, s))"

definition inode_free_blocks :: "inode \<Rightarrow> cofeufs \<Rightarrow> inode \<times> cofeufs" where
  "inode_free_blocks i s = free_indirect MAX_INDIRECT (free_direct MAX_DIRECT (i, s))"

definition inode_reset :: "inode \<Rightarrow> inode" where
  "inode_reset i = i\<lparr>i_blocks := replicate MAX_BLOCKS NOBLK\<rparr>"

definition inode_block_at :: "inode \<Rightarrow> nat \<Rightarrow> cofeufs \<Rightarrow> u32 option \<times> cofeufs" where
  "inode_block_at i bi s =
     (if bi < MAX_DIRECT
      then (if i_blocks i ! bi = NOBLK then None else Some (i_blocks i ! bi), s)
      else
        let bi = bi - MAX_DIRECT; t = bi div IND_PTRS; j = bi mod IND_PTRS
        in if MAX_INDIRECT \<le> t then (None, s)
           else
             let tbl = i_blocks i ! (MAX_DIRECT + t)
             in if tbl = NOBLK \<or> DATA_COUNT \<le> tbl then (None, s)
                else
                  let s = disk_read (DATA_LBA + tbl) s; idx = u32_at (sec s) j
                  in if idx = NOBLK \<or> DATA_COUNT \<le> idx then (None, s) else (Some idx, s))"

text \<open>
  \<^verbatim>\<open>inode_map_next\<close>: the loop over the indirect tables. \<open>indirect_table\<close> finds or creates table \<open>t\<close>;
  \<open>map_indirect\<close> is the body of the loop, whose outer \<open>None\<close> stands for going on to the next table.
\<close>

definition indirect_table :: "nat \<Rightarrow> inode \<Rightarrow> cofeufs \<Rightarrow> u32 option \<times> inode \<times> cofeufs" where
  "indirect_table t i s =
     (let tbl = i_blocks i ! (MAX_DIRECT + t)
      in if tbl = NOBLK
         then (case block_alloc s of
                 (None, s) \<Rightarrow> (None, i, s)
               | (Some tbl, s) \<Rightarrow>
                   let i = set_block (MAX_DIRECT + t) tbl i;
                       s = s\<lparr>sec := enc_u32s (replicate IND_PTRS NOBLK)\<rparr>;
                       s = disk_write (DATA_LBA + tbl) s
                   in (Some tbl, i, s))
         else (Some tbl, i, s))"

definition map_indirect :: "nat \<Rightarrow> inode \<Rightarrow> cofeufs \<Rightarrow> u32 option option \<times> inode \<times> cofeufs" where
  "map_indirect t i s =
     (case indirect_table t i s of
        (None, i, s) \<Rightarrow> (Some None, i, s)
      | (Some tbl, i, s) \<Rightarrow>
          if DATA_COUNT \<le> tbl then (Some None, i, s)
          else
            let s = disk_read (DATA_LBA + tbl) s
            in case find_from (\<lambda>j. u32_at (sec s) j = NOBLK) 0 IND_PTRS of
                 None \<Rightarrow> (None, i, s)
               | Some j \<Rightarrow>
                   (case block_alloc s of
                      (None, s) \<Rightarrow> (Some None, i, s)
                    | (Some idx, s) \<Rightarrow>
                        let s = s\<lparr>sec := put_u32 (sec s) j idx\<rparr>; s = disk_write (DATA_LBA + tbl) s
                        in (Some (Some idx), i, s)))"

definition inode_map_next :: "inode \<Rightarrow> cofeufs \<Rightarrow> u32 option \<times> inode \<times> cofeufs" where
  "inode_map_next i s =
     (case find_from (\<lambda>k. i_blocks i ! k = NOBLK) 0 MAX_DIRECT of
        Some k \<Rightarrow>
          (case block_alloc s of
             (None, s) \<Rightarrow> (None, i, s)
           | (Some idx, s) \<Rightarrow> (Some idx, set_block k idx i, s))
      | None \<Rightarrow>
          (case map_indirect 0 i s of
             (Some r, i, s) \<Rightarrow> (r, i, s)
           | (None, i, s) \<Rightarrow>
               (case map_indirect 1 i s of
                  (Some r, i, s) \<Rightarrow> (r, i, s)
                | (None, i, s) \<Rightarrow> (None, i, s))))"

end
