(* ===== verification/Fs_File.thy ===== *)
theory Fs_File
  imports Fs_Disk
begin

text \<open>
  File contents in \<^verbatim>\<open>kernel/cofeufs.cpp\<close>: the parts of \<^verbatim>\<open>write_file\<close>, \<^verbatim>\<open>append_file\<close> and \<^verbatim>\<open>read_file\<close>
  that come after the path has been resolved to an inode number. Blocks are mapped one at a time
  (twenty direct ones, then two indirect tables), then the data is written through the mapping, then
  the inode and the bit map are stored. The main lemmas show that what was written is read back
  through any combination of direct and indirect blocks, and that no block in use by anything else
  is touched.
\<close>

fun map_blocks :: "nat \<Rightarrow> inode \<Rightarrow> cofeufs \<Rightarrow> bool \<times> inode \<times> cofeufs" where
  "map_blocks 0 i s = (True, i, s)"
| "map_blocks (Suc n) i s =
     (case inode_map_next i s of
        (None, i, s) \<Rightarrow> (False, i, s)
      | (Some idx, i, s) \<Rightarrow> map_blocks n i s)"

definition chunk_len :: "nat \<Rightarrow> nat \<Rightarrow> nat \<Rightarrow> nat" where
  "chunk_len last_idx len k = (if k = last_idx then len - k * 512 else 512)"

fun write_chunks :: "nat list \<Rightarrow> nat \<Rightarrow> inode \<Rightarrow> bytes \<Rightarrow> cofeufs \<Rightarrow> bool \<times> cofeufs" where
  "write_chunks [] need i data s = (True, s)"
| "write_chunks (k # ks) need i data s =
     (case inode_block_at i k s of
        (None, s) \<Rightarrow> (False, s)
      | (Some lba, s) \<Rightarrow>
          let s = s\<lparr>sec := replicate 512 0\<rparr>;
              chunk = chunk_len (need - 1) (length data) k;
              s = s\<lparr>sec := put_bytes (sec s) 0 (sub_bytes data (k * 512) chunk)\<rparr>;
              s = disk_write (DATA_LBA + lba) s
          in write_chunks ks need i data s)"

definition write_file_abort :: "inode \<Rightarrow> u32 \<Rightarrow> cofeufs \<Rightarrow> bool \<times> cofeufs" where
  "write_file_abort i ino s =
     (let (i, s) = inode_free_blocks i s; i = i\<lparr>i_size := 0\<rparr>; s = inode_write ino i s; s = bm_flush s
      in (False, s))"

definition write_inode :: "u32 \<Rightarrow> bytes \<Rightarrow> cofeufs \<Rightarrow> bool \<times> cofeufs" where
  "write_inode ino data s =
     (let (i, s) = inode_read ino s
      in if i_type i \<noteq> FT_FILE then (False, s)
         else if MAX_FILE < length data then (False, s)
         else
           let (i, s) = inode_free_blocks i s;
               i = inode_reset i;
               i = i\<lparr>i_size := of_nat (length data)\<rparr>;
               need = (length data + 511) div 512
           in case map_blocks need i s of
                (False, i, s) \<Rightarrow> write_file_abort i ino s
              | (True, i, s) \<Rightarrow>
                  (case write_chunks [0..<need] need i data s of
                     (False, s) \<Rightarrow> write_file_abort i ino s
                   | (True, s) \<Rightarrow> (True, bm_flush (inode_write ino i s))))"

text \<open>
  The copying loop of \<^verbatim>\<open>read_file\<close> and \<^verbatim>\<open>append_file\<close>: \<open>len\<close> bytes from the start of the file, \<open>None\<close>
  when a block is missing.
\<close>

fun read_chunks :: "nat list \<Rightarrow> nat \<Rightarrow> inode \<Rightarrow> cofeufs \<Rightarrow> bytes option \<times> cofeufs" where
  "read_chunks [] len i s = (Some [], s)"
| "read_chunks (k # ks) len i s =
     (case inode_block_at i k s of
        (None, s) \<Rightarrow> (None, s)
      | (Some lba, s) \<Rightarrow>
          let s = disk_read (DATA_LBA + lba) s;
              part = sub_bytes (sec s) 0 (chunk_len ((len - 1) div 512) len k)
          in case read_chunks ks len i s of
               (None, s) \<Rightarrow> (None, s) | (Some rest, s) \<Rightarrow> (Some (part @ rest), s))"

definition read_inode :: "u32 \<Rightarrow> nat \<Rightarrow> cofeufs \<Rightarrow> bytes option \<times> cofeufs" where
  "read_inode ino maxlen s =
     (let (i, s) = inode_read ino s
      in if i_type i \<noteq> FT_FILE then (None, s)
         else
           let to_read = (if unat (i_size i) < maxlen then unat (i_size i) else maxlen)
           in read_chunks [0..<(to_read + 511) div 512] to_read i s)"


section \<open>A working disk\<close>

text \<open>
  \<open>disk_ok\<close>: the disk is present and answers, and the buffers have their sizes. It is kept by every
  operation.
\<close>

definition disk_ok :: "cofeufs \<Rightarrow> bool" where
  "disk_ok s \<longleftrightarrow> ata_present s \<and> (\<forall>a. \<not> bad_sector s a) \<and> (\<forall>a. length (sectors s a) = 512)
     \<and> length (bm s) = 8192 \<and> length (sec s) = 512"

lemma disk_read_ok [simp]: "disk_ok s \<Longrightarrow> disk_read lba s = s\<lparr>sec := sectors s (lba AND 0x0FFFFFFF)\<rparr>"
  by (simp add: disk_ok_def disk_read_def ata_read_sector_def Let_def)

lemma disk_write_ok [simp]:
  "disk_ok s \<Longrightarrow> disk_write lba s = s\<lparr>sectors := (sectors s)(lba AND 0x0FFFFFFF := sec s)\<rparr>"
  by (simp add: disk_ok_def disk_write_def ata_write_sector_def)

lemma disk_ok_sec [simp]: "disk_ok s \<Longrightarrow> length b = 512 \<Longrightarrow> disk_ok (s\<lparr>sec := b\<rparr>)"
  by (simp add: disk_ok_def)

lemma disk_ok_sectors [simp]: "disk_ok s \<Longrightarrow> length b = 512 \<Longrightarrow> disk_ok (s\<lparr>sectors := (sectors s)(a := b)\<rparr>)"
  by (simp add: disk_ok_def)

lemma disk_ok_bm [simp]: "disk_ok s \<Longrightarrow> length b = 8192 \<Longrightarrow> disk_ok (s\<lparr>bm := b\<rparr>)"
  by (simp add: disk_ok_def)

lemma disk_ok_lengths [simp]:
  "disk_ok s \<Longrightarrow> length (sectors s a) = 512" "disk_ok s \<Longrightarrow> length (bm s) = 8192"
  "disk_ok s \<Longrightarrow> length (sec s) = 512"
  by (simp_all add: disk_ok_def)

text \<open>The address of a data block.\<close>

definition data_addr :: "u32 \<Rightarrow> u32" where
  "data_addr b = (DATA_LBA + b) AND 0x0FFFFFFF"

lemma and_mask28: "unat w < 2 ^ 28 \<Longrightarrow> w AND 0x0FFFFFFF = (w :: u32)"
proof -
  assume "unat w < 2 ^ 28"
  then have "take_bit 28 w = w" by (simp add: word_unat_eq_iff unsigned_take_bit_eq take_bit_nat_eq_self_iff)
  then show ?thesis by (simp add: take_bit_eq_mask mask_eq_exp_minus_1)
qed

lemma data_addr_small:
  assumes "b < DATA_COUNT"
  shows "data_addr b = DATA_LBA + b" "unat (data_addr b) = 2130 + unat b"
proof -
  have b: "unat b < 65454" using assms by (simp add: fs_const_defs word_less_nat_alt)
  then have u: "unat (DATA_LBA + b) = 2130 + unat b" by (subst unat_plus_small) (simp_all add: DATA_LBA_def)
  then show "data_addr b = DATA_LBA + b" using b by (simp add: data_addr_def and_mask28)
  then show "unat (data_addr b) = 2130 + unat b" using u by simp
qed

lemma data_addr_inj: "b < DATA_COUNT \<Longrightarrow> c < DATA_COUNT \<Longrightarrow> data_addr b = data_addr c \<longleftrightarrow> b = c"
  by (auto simp: data_addr_small)

lemma inode_addr:
  assumes "n < INO_COUNT"
  shows "(INO_LBA + n div 4) AND 0x0FFFFFFF = INO_LBA + n div 4" "unat (INO_LBA + n div 4) = 2066 + unat n div 4"
proof -
  have n: "unat n < 256" using assms by (simp add: INO_COUNT_def word_less_nat_alt)
  have "unat (n div 4) = unat n div 4" by (simp add: unat_div)
  then show u: "unat (INO_LBA + n div 4) = 2066 + unat n div 4"
    using n by (subst unat_plus_small) (simp_all add: INO_LBA_def)
  show "(INO_LBA + n div 4) AND 0x0FFFFFFF = INO_LBA + n div 4" using u n by (simp add: and_mask28)
qed

lemma data_addr_not_inode: "b < DATA_COUNT \<Longrightarrow> n < INO_COUNT \<Longrightarrow> data_addr b \<noteq> INO_LBA + n div 4"
proof
  assume a: "b < DATA_COUNT" "n < INO_COUNT" "data_addr b = INO_LBA + n div 4"
  have "unat n < 256" using a(2) by (simp add: INO_COUNT_def word_less_nat_alt)
  with data_addr_small(2) [OF a(1)] inode_addr(2) [OF a(2)] a(3) show False by auto
qed



section \<open>The block allocator\<close>

definition fs_used :: "cofeufs \<Rightarrow> nat set" where
  "fs_used s = used_below (bm s) (unat DATA_COUNT)"

lemma fs_used_frame [simp]:
  "fs_used (s\<lparr>sec := b\<rparr>) = fs_used s" "fs_used (s\<lparr>sectors := d\<rparr>) = fs_used s"
  by (simp_all add: fs_used_def)

lemma unat_DATA_COUNT: "unat DATA_COUNT = 65454"
  by (simp add: fs_const_defs)

lemma block_alloc_cases:
  assumes "disk_ok s"
  obtains (full) "block_alloc s = (None, s)" "{..<65454} \<subseteq> fs_used s"
  | (found) idx where "block_alloc s = (Some idx, s\<lparr>bm := bit_set (bm s) (unat idx)\<rparr>)"
      "idx < DATA_COUNT" "unat idx \<notin> fs_used s"
      "fs_used (s\<lparr>bm := bit_set (bm s) (unat idx)\<rparr>) = insert (unat idx) (fs_used s)"
proof (cases "find_from (\<lambda>i. \<not> bit_test (bm s) i) 0 65454")
  case None
  then have "block_alloc s = (None, s)" by (simp add: block_alloc_def unat_DATA_COUNT)
  moreover have "{..<65454} \<subseteq> fs_used s"
    using None by (auto simp: find_from_None fs_used_def used_below_def unat_DATA_COUNT)
  ultimately show thesis by (rule full)
next
  case (Some k)
  from find_from_SomeD [OF Some] have k: "k < 65454" "\<not> bit_test (bm s) k" by auto
  have u: "unat (of_nat k :: u32) = k" using k(1) by (simp add: unat_of_nat)
  show thesis
  proof (rule found [of "of_nat k"])
    show "block_alloc s = (Some (of_nat k), s\<lparr>bm := bit_set (bm s) (unat (of_nat k :: u32))\<rparr>)"
      using Some u by (simp add: block_alloc_def unat_DATA_COUNT)
    show "of_nat k < DATA_COUNT" using k(1) u by (simp add: word_less_nat_alt unat_DATA_COUNT)
    show "unat (of_nat k :: u32) \<notin> fs_used s" using k(2) u by (simp add: fs_used_def used_below_def)
    show "fs_used (s\<lparr>bm := bit_set (bm s) (unat (of_nat k :: u32))\<rparr>) = insert (unat (of_nat k :: u32)) (fs_used s)"
      using k(1) u assms by (simp add: fs_used_def used_below_set unat_DATA_COUNT)
  qed
qed

definition fs_alloc_index :: "cofeufs \<Rightarrow> (nat \<times> cofeufs) option" where
  "fs_alloc_index s = (case block_alloc s of (None, _) \<Rightarrow> None | (Some b, s') \<Rightarrow> Some (unat b, s'))"

definition fs_free_index :: "nat \<Rightarrow> cofeufs \<Rightarrow> cofeufs" where
  "fs_free_index n s = block_free (of_nat n) s"

lemma block_free_used:
  assumes "disk_ok s" "b < DATA_COUNT"
  shows "fs_used (block_free b s) = fs_used s - {unat b}" "disk_ok (block_free b s)"
proof -
  have "unat b < 65454" using assms(2) by (simp add: word_less_nat_alt unat_DATA_COUNT)
  then show "fs_used (block_free b s) = fs_used s - {unat b}"
    using assms by (simp add: block_free_def fs_used_def used_below_clear linorder_not_le)
  show "disk_ok (block_free b s)" using assms by (simp add: block_free_def)
qed

interpretation blocks: index_allocator fs_alloc_index fs_free_index fs_used "\<lambda>_. 65454" disk_ok
proof unfold_locales
  fix s s' :: cofeufs and i :: nat
  assume ok: "disk_ok s"
  show "fs_used s \<subseteq> {..<65454}" by (auto simp: fs_used_def used_below_def unat_DATA_COUNT)
  show "fs_alloc_index s = None \<longleftrightarrow> {..<65454} \<subseteq> fs_used s"
    using ok
  proof (cases s rule: block_alloc_cases)
    case (found idx)
    then have "unat idx < 65454" by (simp add: word_less_nat_alt unat_DATA_COUNT)
    with found show ?thesis by (auto simp: fs_alloc_index_def)
  qed (simp add: fs_alloc_index_def)
  assume a: "fs_alloc_index s = Some (i, s')"
  from ok have "i < 65454 \<and> i \<notin> fs_used s \<and> fs_used s' = insert i (fs_used s) \<and> disk_ok s'"
  proof (cases s rule: block_alloc_cases)
    case (found idx)
    moreover have "unat idx < 65454" using found(2) by (simp add: word_less_nat_alt unat_DATA_COUNT)
    ultimately show ?thesis using a ok by (auto simp: fs_alloc_index_def)
  qed (use a in \<open>simp add: fs_alloc_index_def\<close>)
  then show "i < 65454 \<and> i \<notin> fs_used s" "fs_used s' = insert i (fs_used s)" "disk_ok s' \<and> (65454 :: nat) = 65454"
    by auto
next
  fix s :: cofeufs and i :: nat
  assume ok: "disk_ok s" and i: "i \<in> fs_used s"
  then have "i < 65454" by (simp add: fs_used_def used_below_def unat_DATA_COUNT)
  then have u: "unat (of_nat i :: u32) = i" "(of_nat i :: u32) < DATA_COUNT"
    by (simp_all add: unat_of_nat word_less_nat_alt unat_DATA_COUNT)
  show "fs_used (fs_free_index i s) = fs_used s - {i}" "disk_ok (fs_free_index i s) \<and> (65454 :: nat) = 65454"
    using block_free_used [OF ok u(2)] u(1) by (simp_all add: fs_free_index_def)
qed



section \<open>Mapping blocks\<close>

text \<open>
  \<open>keeps B s s'\<close>: only data blocks outside \<open>B\<close> may have been written between \<open>s\<close> and \<open>s'\<close>.
\<close>

definition keeps :: "nat set \<Rightarrow> cofeufs \<Rightarrow> cofeufs \<Rightarrow> bool" where
  "keeps B s s' \<longleftrightarrow> disk_ok s' \<and> super s' = super s \<and> mounted s' = mounted s \<and>
     (\<forall>a. (\<forall>b < DATA_COUNT. unat b \<notin> B \<longrightarrow> a \<noteq> data_addr b) \<longrightarrow> sectors s' a = sectors s a)"

lemma keeps_refl: "disk_ok s \<Longrightarrow> keeps B s s"
  by (simp add: keeps_def)

lemma keeps_trans: "keeps B s s' \<Longrightarrow> keeps B s' s'' \<Longrightarrow> keeps B s s''"
  by (simp add: keeps_def)

lemma keeps_mono: "keeps B s s' \<Longrightarrow> C \<subseteq> B \<Longrightarrow> keeps C s s'"
  unfolding keeps_def by blast

lemma keeps_ok: "keeps B s s' \<Longrightarrow> disk_ok s'"
  by (simp add: keeps_def)

lemma keeps_sec: "keeps B s s' \<Longrightarrow> length b = 512 \<Longrightarrow> keeps B s (s'\<lparr>sec := b\<rparr>)"
  by (simp add: keeps_def)

lemma keeps_bm: "keeps B s s' \<Longrightarrow> length b = 8192 \<Longrightarrow> keeps B s (s'\<lparr>bm := b\<rparr>)"
  by (simp add: keeps_def)

lemma keeps_write:
  "keeps B s s' \<Longrightarrow> b < DATA_COUNT \<Longrightarrow> unat b \<notin> B \<Longrightarrow> length v = 512 \<Longrightarrow>
     keeps B s (s'\<lparr>sectors := (sectors s')(data_addr b := v)\<rparr>)"
  by (auto simp: keeps_def)

lemma keeps_block: "keeps B s s' \<Longrightarrow> unat b \<in> B \<Longrightarrow> b < DATA_COUNT \<Longrightarrow> sectors s' (data_addr b) = sectors s (data_addr b)"
  unfolding keeps_def using data_addr_inj by metis

text \<open>
  \<open>mapped i s bs ts\<close>: the logical blocks of \<open>i\<close> are the data blocks \<open>bs\<close>, in order, and its indirect
  tables are \<open>ts\<close>. A table exists as soon as it is needed, and possibly one block earlier.
\<close>

definition mapped :: "inode \<Rightarrow> cofeufs \<Rightarrow> u32 list \<Rightarrow> u32 list \<Rightarrow> bool" where
  "mapped i s bs ts \<longleftrightarrow>
     length (i_blocks i) = 22 \<and> length ts \<le> 2 \<and> length bs \<le> 20 + 128 * length ts
     \<and> (ts \<noteq> [] \<longrightarrow> 20 + 128 * (length ts - 1) \<le> length bs)
     \<and> (\<forall>k < 20. i_blocks i ! k = (if k < length bs then bs ! k else NOBLK))
     \<and> (\<forall>t < 2. i_blocks i ! (20 + t) = (if t < length ts then ts ! t else NOBLK))
     \<and> (\<forall>t < length ts. \<forall>j < 128. u32_at (sectors s (data_addr (ts ! t))) j =
          (if 20 + 128 * t + j < length bs then bs ! (20 + 128 * t + j) else NOBLK))
     \<and> distinct (bs @ ts) \<and> (\<forall>b \<in> set bs \<union> set ts. b < DATA_COUNT)"

lemma mappedD:
  assumes "mapped i s bs ts"
  shows "length (i_blocks i) = 22" "length ts \<le> 2" "length bs \<le> 20 + 128 * length ts"
    "ts \<noteq> [] \<Longrightarrow> 20 + 128 * (length ts - 1) \<le> length bs"
    "\<And>k. k < 20 \<Longrightarrow> i_blocks i ! k = (if k < length bs then bs ! k else NOBLK)"
    "\<And>t. t < 2 \<Longrightarrow> i_blocks i ! (20 + t) = (if t < length ts then ts ! t else NOBLK)"
    "\<And>t j. t < length ts \<Longrightarrow> j < 128 \<Longrightarrow> u32_at (sectors s (data_addr (ts ! t))) j =
          (if 20 + 128 * t + j < length bs then bs ! (20 + 128 * t + j) else NOBLK)"
    "distinct bs" "distinct ts" "set bs \<inter> set ts = {}"
    "\<And>b. b \<in> set bs \<Longrightarrow> b < DATA_COUNT" "\<And>b. b \<in> set ts \<Longrightarrow> b < DATA_COUNT"
  using assms unfolding mapped_def by auto

lemma data_not_NOBLK: "b < DATA_COUNT \<Longrightarrow> b \<noteq> NOBLK"
  by (auto simp: fs_const_defs)

lemma mapped_sec [simp]: "mapped i (s\<lparr>sec := b\<rparr>) bs ts = mapped i s bs ts"
  "mapped i (s\<lparr>bm := b\<rparr>) bs ts = mapped i s bs ts"
  by (simp_all add: mapped_def)

lemma mapped_frame:
  assumes "mapped i s bs ts" "\<forall>t \<in> set ts. sectors s' (data_addr t) = sectors s (data_addr t)"
  shows "mapped i s' bs ts"
  using assms unfolding mapped_def by auto

lemma mapped_empty: "length (i_blocks i) = 22 \<Longrightarrow> mapped (inode_reset i) s [] []"
  by (auto simp: mapped_def inode_reset_def fs_const_defs)

text \<open>The result of a step that maps one more block.\<close>

definition map_step :: "inode \<Rightarrow> cofeufs \<Rightarrow> u32 list \<Rightarrow> u32 list \<Rightarrow> u32 option \<Rightarrow> inode \<Rightarrow> cofeufs \<Rightarrow> bool" where
  "map_step i s bs ts r i' s' \<longleftrightarrow>
     (\<exists>ts'. mapped i' s' (bs @ (case r of None \<Rightarrow> [] | Some b \<Rightarrow> [b])) ts'
        \<and> i' = i\<lparr>i_blocks := i_blocks i'\<rparr> \<and> keeps (fs_used s - unat ` set ts) s s'
        \<and> fs_used s' = fs_used s \<union> unat ` (set_option r \<union> set ts')
        \<and> unat ` (set_option r \<union> (set ts' - set ts)) \<inter> fs_used s = {} \<and> set ts \<subseteq> set ts')"

lemma map_direct:
  assumes ok: "disk_ok s" and m: "mapped i s bs ts" and u: "unat ` (set bs \<union> set ts) \<subseteq> fs_used s"
    and n: "length bs < 20" and r: "inode_map_next i s = (r, i', s')"
  shows "map_step i s bs ts r i' s' \<and> (r = None \<longrightarrow> {..<65454} \<subseteq> fs_used s')"
proof -
  note D = mappedD [OF m]
  have ts: "ts = []" using D(4) n by (cases ts) auto
  have f: "find_from (\<lambda>k. i_blocks i ! k = NOBLK) 0 20 = Some (length bs)"
    using n D(5,11) data_not_NOBLK by (intro find_from_SomeI) auto
  from ok show ?thesis
  proof (cases s rule: block_alloc_cases)
    case full
    then have "r = None" "i' = i" "s' = s" using r f by (simp_all add: inode_map_next_def MAX_DIRECT_def)
    then show ?thesis using m u ok full(2) by (auto simp: map_step_def keeps_refl intro: exI [of _ ts])
  next
    case (found idx)
    then have res: "r = Some idx" "i' = set_block (length bs) idx i" "s' = s\<lparr>bm := bit_set (bm s) (unat idx)\<rparr>"
      using r f by (simp_all add: inode_map_next_def MAX_DIRECT_def)
    have new: "idx \<notin> set bs" using found(3) u by auto
    have "mapped i' s (bs @ [idx]) []"
      using m n new found(2) D(5,6) unfolding mapped_def ts res(2) set_block_def
      by (auto simp: nth_list_update nth_append less_Suc_eq)
    then show ?thesis
      using ok u found res ts
      by (auto simp: map_step_def set_block_def keeps_refl intro!: exI [of _ "[]"] keeps_bm)
  qed
qed


text \<open>Finding or creating the indirect table that takes the next block.\<close>

lemma u32_at_replicate: "j < n \<Longrightarrow> u32_at (enc_u32s (replicate n v)) j = v"
  by (simp add: u32_at_enc)

lemma indirect_table_ready:
  assumes ok: "disk_ok s" and m: "mapped i s bs ts" and u: "unat ` (set bs \<union> set ts) \<subseteq> fs_used s"
    and t: "t < 2" "20 + 128 * t \<le> length bs" "length bs < 20 + 128 * (t + 1)"
    and r: "indirect_table t i s = (r, i', s')"
  shows "map_step i s bs ts None i' s' \<and>
     (case r of None \<Rightarrow> {..<65454} \<subseteq> fs_used s' | Some tbl \<Rightarrow> \<exists>ts'. mapped i' s' bs ts' \<and> length ts' = t + 1 \<and> ts' ! t = tbl
        \<and> set ts' \<subseteq> insert tbl (set ts) \<and> set ts \<subseteq> set ts' \<and> (tbl \<in> set ts \<or> unat tbl \<notin> fs_used s)
        \<and> fs_used s' = insert (unat tbl) (fs_used s))"
proof (cases "t < length ts")
  case True
  note D = mappedD [OF m]
  have lt: "length ts = t + 1"
  proof (rule ccontr)
    assume "length ts \<noteq> t + 1"
    then have "t + 1 \<le> length ts - 1" "ts \<noteq> []" using True by auto
    then have "128 * (t + 1) \<le> 128 * (length ts - 1)" by (intro mult_le_mono2)
    with D(4) \<open>ts \<noteq> []\<close> t(3) show False by linarith
  qed
  have mem: "ts ! t \<in> set ts" using True by simp
  then have "ts ! t \<noteq> NOBLK" using D(12) data_not_NOBLK by blast
  then have "r = Some (ts ! t)" "i' = i" "s' = s"
    using r D(6) [OF t(1)] True by (simp_all add: indirect_table_def MAX_DIRECT_def)
  then show ?thesis
    using m u ok lt mem by (auto simp: map_step_def keeps_refl intro!: exI [of _ ts])
next
  case False
  note D = mappedD [OF m]
  have lt: "length ts = t" "length bs = 20 + 128 * t"
    using False D(3) t by auto
  have no: "i_blocks i ! (20 + t) = NOBLK" using D(6) [OF t(1)] False by simp
  from ok show ?thesis
  proof (cases s rule: block_alloc_cases)
    case full
    then have "r = None" "i' = i" "s' = s" using r no by (simp_all add: indirect_table_def MAX_DIRECT_def)
    then show ?thesis using m u ok full(2) by (auto simp: map_step_def keeps_refl intro!: exI [of _ ts])
  next
    case (found tbl)
    define z where "z = enc_u32s (replicate 128 NOBLK)"
    have lz: "length z = 512" by (simp add: z_def)
    define s1 where "s1 = s\<lparr>bm := bit_set (bm s) (unat tbl), sec := z\<rparr>"
    have ok1: "disk_ok s1" using ok lz by (simp add: s1_def)
    have res: "r = Some tbl" "i' = set_block (20 + t) tbl i"
      "s' = s1\<lparr>sectors := (sectors s1)(data_addr tbl := z)\<rparr>"
      using r no found(1) ok1
      by (simp_all add: indirect_table_def MAX_DIRECT_def IND_PTRS_def z_def [symmetric] s1_def [symmetric]
          data_addr_def [symmetric]) (simp_all add: s1_def)
    have new: "tbl \<notin> set bs" "tbl \<notin> set ts" using found(3) u by auto
    have addr: "data_addr b \<noteq> data_addr tbl" if "b \<in> set ts" for b
      using that D(12) found(2) new by (metis data_addr_inj)
    have m': "mapped i' s' bs (ts @ [tbl])"
      unfolding mapped_def
    proof (intro conjI allI impI)
      fix t' j assume t': "t' < length (ts @ [tbl])" and j: "j < (128 :: nat)"
      show "u32_at (sectors s' (data_addr ((ts @ [tbl]) ! t'))) j =
          (if 20 + 128 * t' + j < length bs then bs ! (20 + 128 * t' + j) else NOBLK)"
      proof (cases "t' < length ts")
        case True
        then have "data_addr (ts ! t') \<noteq> data_addr tbl" using addr by simp
        then show ?thesis using D(7) [OF True j] True by (simp add: res(3) s1_def nth_append)
      next
        case False
        then have "t' = t" using t' lt by simp
        then show ?thesis using lt j by (simp add: res(3) z_def u32_at_replicate nth_append)
      qed
    qed (use m new found(2) lt t D(1,5,6) D(6) [of 1] in \<open>auto simp: mapped_def res set_block_def nth_list_update nth_append less_Suc_eq numeral_2_eq_2\<close>)
    have fu: "fs_used s' = insert (unat tbl) (fs_used s)" using found(4) by (simp add: res(3) s1_def fs_used_def)
    have "keeps (fs_used s - unat ` set ts) s s1"
      unfolding s1_def using ok lz by (intro keeps_sec keeps_bm keeps_refl) simp_all
    then have k: "keeps (fs_used s - unat ` set ts) s s'"
      unfolding res(3) using found(2,3) lz by (intro keeps_write) auto
    have st: "map_step i s bs ts None i' s'"
      unfolding map_step_def using m' k fu u new found(3)
      by (intro exI [of _ "ts @ [tbl]"]) (auto simp: res(2) set_block_def)
    show ?thesis
      using st m' lt new found(3) fu res(1) by (auto simp: nth_append intro!: exI [of _ "ts @ [tbl]"])
  qed
qed


lemma map_indirect_full:
  assumes ok: "disk_ok s" and m: "mapped i s bs ts" and t: "t < 2" "20 + 128 * (t + 1) \<le> length bs"
  shows "\<exists>b. map_indirect t i s = (None, i, s\<lparr>sec := b\<rparr>) \<and> length b = 512"
proof -
  note D = mappedD [OF m]
  have lt: "t < length ts" using D(3) t by simp
  have mem: "ts ! t \<in> set ts" using lt by simp
  then have tb: "ts ! t \<noteq> NOBLK" "ts ! t < DATA_COUNT" using D(12) data_not_NOBLK by blast+
  have tab: "indirect_table t i s = (Some (ts ! t), i, s)"
    using D(6) [OF t(1)] lt tb by (simp add: indirect_table_def MAX_DIRECT_def)
  have "u32_at (sectors s (data_addr (ts ! t))) j \<noteq> NOBLK" if "j < 128" for j
  proof -
    have "20 + 128 * t + j < length bs" using t that by simp
    then show ?thesis using D(7) [OF lt that] D(11) data_not_NOBLK by (metis nth_mem)
  qed
  then have "find_from (\<lambda>j. u32_at (sectors s (data_addr (ts ! t))) j = NOBLK) 0 128 = None"
    by (simp add: find_from_None)
  then show ?thesis
    using ok tb(2) tab
    by (auto simp: map_indirect_def IND_PTRS_def Let_def linorder_not_le data_addr_def)
qed

lemma mapped_entry:
  assumes ok: "disk_ok s" and m: "mapped i s bs ts" and t: "length ts = t + 1" "20 + 128 * t + j = length bs" "j < 128"
    and idx: "idx < DATA_COUNT" "idx \<notin> set bs" "idx \<notin> set ts"
  shows "mapped i (s\<lparr>sectors := (sectors s)(data_addr (ts ! t) := put_u32 (sectors s (data_addr (ts ! t))) j idx)\<rparr>)
           (bs @ [idx]) ts"
proof -
  note D = mappedD [OF m]
  let ?s' = "s\<lparr>sectors := (sectors s)(data_addr (ts ! t) := put_u32 (sectors s (data_addr (ts ! t))) j idx)\<rparr>"
  have tab: "u32_at (sectors ?s' (data_addr (ts ! t'))) j' =
      (if 20 + 128 * t' + j' < length (bs @ [idx]) then (bs @ [idx]) ! (20 + 128 * t' + j') else NOBLK)"
    if t': "t' < length ts" and j': "j' < 128" for t' j'
  proof (cases "t' = t")
    case True
    then have "u32_at (sectors ?s' (data_addr (ts ! t'))) j' = (if j' = j then idx else u32_at (sectors s (data_addr (ts ! t))) j')"
      using ok t(3) j' by (simp add: u32_at_put)
    then show ?thesis using D(7) [OF t' j'] True t by (auto simp: nth_append)
  next
    case False
    then have "ts ! t' \<noteq> ts ! t" using D(9) t' t(1) by (simp add: nth_eq_iff_index_eq)
    then have "data_addr (ts ! t') \<noteq> data_addr (ts ! t)" using D(12) t' t(1) by (simp add: data_addr_inj)
    moreover have "20 + 128 * t' + j' < length bs" using False t' t j' by auto
    ultimately show ?thesis using D(7) [OF t' j'] by (simp add: nth_append)
  qed
  show ?thesis
    unfolding mapped_def
  proof (intro conjI allI impI)
    show "\<And>t' j'. t' < length ts \<Longrightarrow> j' < 128 \<Longrightarrow> u32_at (sectors ?s' (data_addr (ts ! t'))) j' =
      (if 20 + 128 * t' + j' < length (bs @ [idx]) then (bs @ [idx]) ! (20 + 128 * t' + j') else NOBLK)"
      by (rule tab)
    show "\<And>k. k < 20 \<Longrightarrow> i_blocks i ! k = (if k < length (bs @ [idx]) then (bs @ [idx]) ! k else NOBLK)"
      using D(5) t by (auto simp: nth_append)
    show "\<And>t'. t' < 2 \<Longrightarrow> i_blocks i ! (20 + t') = (if t' < length ts then ts ! t' else NOBLK)" using D(6) by simp
  qed (use D idx t in auto)
qed

lemma map_indirect_next:
  assumes ok: "disk_ok s" and m: "mapped i s bs ts" and u: "unat ` (set bs \<union> set ts) \<subseteq> fs_used s"
    and t: "t < 2" "20 + 128 * t \<le> length bs" "length bs < 20 + 128 * (t + 1)"
    and r: "map_indirect t i s = (ro, i', s')"
  shows "\<exists>r. ro = Some r \<and> map_step i s bs ts r i' s' \<and> (r = None \<longrightarrow> {..<65454} \<subseteq> fs_used s')"
proof -
  obtain rt i1 s1 where tab: "indirect_table t i s = (rt, i1, s1)" by (metis prod_cases3)
  note R = indirect_table_ready [OF ok m u t tab]
  show ?thesis
  proof (cases rt)
    case None
    then have "ro = Some None" "i' = i1" "s' = s1" using r tab by (simp_all add: map_indirect_def)
    then show ?thesis using R None by auto
  next
    case (Some tbl)
    then obtain ts1 where T: "mapped i1 s1 bs ts1" "length ts1 = t + 1" "ts1 ! t = tbl"
      "set ts1 \<subseteq> insert tbl (set ts)" "set ts \<subseteq> set ts1" "tbl \<in> set ts \<or> unat tbl \<notin> fs_used s" "fs_used s1 = insert (unat tbl) (fs_used s)"
      using R by auto
    from R have st: "map_step i s bs ts None i1 s1" by simp
    then have k1: "keeps (fs_used s - unat ` set ts) s s1" and i1: "i1 = i\<lparr>i_blocks := i_blocks i1\<rparr>"
      and u1: "fs_used s \<subseteq> fs_used s1" unfolding map_step_def by auto
    have ok1: "disk_ok s1" by (rule keeps_ok [OF k1])
    note D = mappedD [OF T(1)]
    have tm: "tbl \<in> set ts1" using T(2,3) by (metis lessI Suc_eq_plus1 nth_mem)
    have tb: "tbl < DATA_COUNT" using D(12) tm by blast
    define v where "v = sectors s1 (data_addr tbl)"
    have lv: "length v = 512" using ok1 by (simp add: v_def)
    define j where "j = length bs - (20 + 128 * t)"
    have j: "j < 128" "20 + 128 * t + j = length bs" using t by (simp_all add: j_def)
    have vj: "u32_at v k = (if 20 + 128 * t + k < length bs then bs ! (20 + 128 * t + k) else NOBLK)" if "k < 128" for k
      using D(7) [of t k] that T(2,3) by (simp add: v_def)
    have ff: "find_from (\<lambda>k. u32_at v k = NOBLK) 0 128 = Some j"
    proof (rule find_from_SomeI)
      show "u32_at v j = NOBLK" using vj [OF j(1)] j(2) by simp
      fix k assume "k < j"
      then have "20 + 128 * t + k < length bs" "k < 128" using j by simp_all
      then show "u32_at v k \<noteq> NOBLK" using vj D(11) data_not_NOBLK by (metis nth_mem)
    qed (use j in simp_all)
    define s2 where "s2 = s1\<lparr>sec := v\<rparr>"
    have ok2: "disk_ok s2" using ok1 lv by (simp add: s2_def)
    have dr: "disk_read (DATA_LBA + tbl) s1 = s2" using ok1 by (simp add: s2_def v_def data_addr_def)
    have "\<not> DATA_COUNT \<le> tbl" "sec s2 = v" using tb by (simp_all add: linorder_not_le s2_def)
    then have body: "map_indirect t i s =
        (case block_alloc s2 of (None, s) \<Rightarrow> (Some None, i1, s)
         | (Some idx, s) \<Rightarrow> (Some (Some idx), i1, disk_write (DATA_LBA + tbl) (s\<lparr>sec := put_u32 (sec s) j idx\<rparr>)))"
      using tab Some dr ff
      by (simp add: map_indirect_def Let_def IND_PTRS_def split: option.splits prod.splits)
    from ok2 show ?thesis
    proof (cases s2 rule: block_alloc_cases)
      case full
      then have "ro = Some None" "i' = i1" "s' = s2" using r body by simp_all
      moreover have "{..<65454} \<subseteq> fs_used s2" by (rule full(2))
      moreover have "map_step i s bs ts None i1 s2"
        using st lv unfolding map_step_def s2_def by (auto intro!: keeps_sec)
      ultimately show ?thesis by blast
    next
      case (found idx)
      define v' where "v' = put_u32 v j idx"
      have lv': "length v' = 512" using lv j(1) by (simp add: v'_def)
      define s3 where "s3 = s1\<lparr>bm := bit_set (bm s1) (unat idx), sec := v'\<rparr>"
      have ok3: "disk_ok s3" using ok1 lv' by (simp add: s3_def)
      have res: "ro = Some (Some idx)" "i' = i1" "s' = s3\<lparr>sectors := (sectors s3)(data_addr tbl := v')\<rparr>"
        using r body found(1) ok3 by (simp_all add: s2_def s3_def v'_def data_addr_def)
      have ub: "unat ` (set bs \<union> set ts \<union> set ts1) \<subseteq> fs_used s1" using u u1 T(4,7) by auto
      have fresh: "unat idx \<notin> fs_used s1" using found(3) by (simp add: s2_def)
      then have new: "idx \<notin> set bs" "idx \<notin> set ts1" using ub by auto
      have "mapped i1 (s1\<lparr>sectors := (sectors s1)(data_addr tbl := v')\<rparr>) (bs @ [idx]) ts1"
        using mapped_entry [OF ok1 T(1,2) j(2,1) found(2) new] T(3) by (simp add: v'_def v_def)
      then have m': "mapped i1 s' (bs @ [idx]) ts1" unfolding res(3) s3_def mapped_def by simp
      have k: "keeps (fs_used s - unat ` set ts) s s'"
        unfolding res(3) s3_def using k1 tb lv' T(6) ok1
        by (intro keeps_write keeps_sec keeps_bm) auto
      have fu: "fs_used s' = insert (unat idx) (fs_used s1)"
        using found(4) by (simp add: res(3) s3_def s2_def fs_used_def)
      have "map_step i s bs ts (Some idx) i1 s'"
        unfolding map_step_def using m' i1 k fu ub u1 fresh T(4-7) tm
        by (intro exI [of _ ts1]) auto
      then show ?thesis using res by auto
    qed
  qed
qed

lemma map_next_step:
  assumes ok: "disk_ok s" and m: "mapped i s bs ts" and u: "unat ` (set bs \<union> set ts) \<subseteq> fs_used s"
    and n: "length bs < 276" and r: "inode_map_next i s = (r, i', s')"
  shows "map_step i s bs ts r i' s' \<and> (r = None \<longrightarrow> {..<65454} \<subseteq> fs_used s')"
proof (cases "length bs < 20")
  case True
  show ?thesis by (rule map_direct [OF ok m u True r])
next
  case False
  note D = mappedD [OF m]
  have none: "find_from (\<lambda>k. i_blocks i ! k = NOBLK) 0 20 = None"
    using False D(5,11) data_not_NOBLK by (auto simp: find_from_None)
  show ?thesis
  proof (cases "length bs < 148")
    case True
    obtain ro i1 s1 where a: "map_indirect 0 i s = (ro, i1, s1)" by (metis prod_cases3)
    then show ?thesis
      using map_indirect_next [OF ok m u _ _ _ a] False True r none
      by (auto simp: inode_map_next_def MAX_DIRECT_def)
  next
    case big: False
    obtain b where a: "map_indirect 0 i s = (None, i, s\<lparr>sec := b\<rparr>)" "length b = 512"
      using map_indirect_full [OF ok m, of 0] big by auto
    define s0 where "s0 = s\<lparr>sec := b\<rparr>"
    obtain ro i1 s1 where c: "map_indirect 1 i s0 = (ro, i1, s1)" by (metis prod_cases3)
    have ok0: "disk_ok s0" and m0: "mapped i s0 bs ts" and u0: "unat ` (set bs \<union> set ts) \<subseteq> fs_used s0"
      using ok m u a(2) by (simp_all add: s0_def)
    obtain r1 where "ro = Some r1" "map_step i s0 bs ts r1 i1 s1" "r1 = None \<longrightarrow> {..<65454} \<subseteq> fs_used s1"
      using map_indirect_next [OF ok0 m0 u0 _ _ _ c] big n by auto
    moreover have "r = r1" "i' = i1" "s' = s1"
      using r none a c calculation(1) by (simp_all add: inode_map_next_def MAX_DIRECT_def s0_def)
    ultimately show ?thesis by (simp add: map_step_def keeps_def s0_def)
  qed
qed

lemma map_blocks_ok:
  "disk_ok s \<Longrightarrow> mapped i s bs ts \<Longrightarrow> unat ` (set bs \<union> set ts) \<subseteq> fs_used s \<Longrightarrow> length bs + n \<le> 276 \<Longrightarrow>
   unat ` (set bs \<union> set ts) \<inter> P = {} \<Longrightarrow> P \<subseteq> fs_used s \<Longrightarrow>
   map_blocks n i s = (True, i', s') \<Longrightarrow>
     \<exists>bs' ts'. mapped i' s' bs' ts' \<and> length bs' = length bs + n \<and> i' = i\<lparr>i_blocks := i_blocks i'\<rparr>
       \<and> keeps P s s' \<and> P \<subseteq> fs_used s' \<and> unat ` (set bs' \<union> set ts') \<inter> P = {}"
proof (induction n arbitrary: i s bs ts)
  case 0
  then show ?case by (auto intro: keeps_refl)
next
  case (Suc n)
  obtain r i1 s1 where a: "inode_map_next i s = (r, i1, s1)" by (metis prod_cases3)
  then obtain b where r: "r = Some b" "map_blocks n i1 s1 = (True, i', s')"
    using Suc.prems(7) by (cases r) auto
  have ms: "map_step i s bs ts (Some b) i1 s1"
    using map_next_step [OF Suc.prems(1-3) _ a] Suc.prems(4) r(1) by simp
  obtain ts1 where M: "mapped i1 s1 (bs @ [b]) ts1" "i1 = i\<lparr>i_blocks := i_blocks i1\<rparr>"
    "keeps (fs_used s - unat ` set ts) s s1" "fs_used s1 = fs_used s \<union> unat ` ({b} \<union> set ts1)"
    "unat ` ({b} \<union> (set ts1 - set ts)) \<inter> fs_used s = {}"
    using ms unfolding map_step_def by auto
  have "P \<subseteq> fs_used s - unat ` set ts" using Suc.prems(5,6) by blast
  then have k: "keeps P s s1" by (rule keeps_mono [OF M(3)])
  have "unat ` (set (bs @ [b]) \<union> set ts1) \<inter> P = {}" using M(5) Suc.prems(5,6) by fastforce
  moreover have "unat ` (set (bs @ [b]) \<union> set ts1) \<subseteq> fs_used s1" using M(4) Suc.prems(3) by auto
  moreover have "length (bs @ [b]) + n \<le> 276" "P \<subseteq> fs_used s1" using Suc.prems(4,6) M(4) by auto
  ultimately obtain bs' ts' where "mapped i' s' bs' ts'" "length bs' = length (bs @ [b]) + n"
    "i' = i1\<lparr>i_blocks := i_blocks i'\<rparr>" "keeps P s1 s'" "P \<subseteq> fs_used s'" "unat ` (set bs' \<union> set ts') \<inter> P = {}"
    using Suc.IH [OF keeps_ok [OF k] M(1) _ _ _ _ r(2)] by blast
  moreover from this(3) M(2) have "i' = i\<lparr>i_blocks := i_blocks i'\<rparr>" by (metis inode.surjective inode.update_convs(5))
  ultimately show ?case using keeps_trans [OF k] by auto
qed



section \<open>Reading and writing through the mapping\<close>

lemma mapped_block_at:
  assumes ok: "disk_ok s" and m: "mapped i s bs ts" and k: "k < length bs"
  shows "\<exists>b. length b = 512 \<and> inode_block_at i k s = (Some (bs ! k), s\<lparr>sec := b\<rparr>)"
proof -
  note D = mappedD [OF m]
  have bk: "bs ! k < DATA_COUNT" "bs ! k \<noteq> NOBLK" using D(11) k data_not_NOBLK by (meson nth_mem)+
  show ?thesis
  proof (cases "k < 20")
    case True
    then have "inode_block_at i k s = (Some (bs ! k), s\<lparr>sec := sec s\<rparr>)"
      using D(5) [OF True] k bk by (simp add: inode_block_at_def MAX_DIRECT_def)
    then show ?thesis using disk_ok_lengths(3) [OF ok] by blast
  next
    case False
    define t where "t = (k - 20) div 128"
    define j where "j = (k - 20) mod 128"
    have kt: "k = 20 + 128 * t + j" "j < 128" using False by (simp_all add: t_def j_def)
    have t: "t < length ts" using D(3) k kt by simp
    have t2: "t < 2" using t D(2) by simp
    have tb: "ts ! t < DATA_COUNT" "ts ! t \<noteq> NOBLK" using D(12) t data_not_NOBLK by (meson nth_mem)+
    have e: "u32_at (sectors s (data_addr (ts ! t))) j = bs ! k" using D(7) [OF t kt(2)] kt k by simp
    have "inode_block_at i k s = (Some (bs ! k), s\<lparr>sec := sectors s (data_addr (ts ! t))\<rparr>)"
      using False D(6) [OF t2] t t2 tb bk e ok
      by (simp add: inode_block_at_def MAX_DIRECT_def IND_PTRS_def MAX_INDIRECT_def Let_def
          t_def [symmetric] j_def [symmetric] linorder_not_le data_addr_def)
    then show ?thesis using disk_ok_lengths(1) [OF ok] by blast
  qed
qed

definition file_block :: "nat \<Rightarrow> bytes \<Rightarrow> nat \<Rightarrow> bytes" where
  "file_block need data k =
     put_bytes (replicate 512 0) 0 (sub_bytes data (k * 512) (chunk_len (need - 1) (length data) k))"

lemma write_chunks_ok:
  assumes "disk_ok s" "mapped i s bs ts" "set ks \<subseteq> {..<length bs}" "distinct ks"
    "\<forall>k \<in> set ks. length (sub_bytes data (k * 512) (chunk_len (need - 1) (length data) k)) \<le> 512"
    "unat ` set bs \<inter> P = {}"
  shows "\<exists>s'. write_chunks ks need i data s = (True, s') \<and> mapped i s' bs ts \<and> keeps P s s' \<and> bm s' = bm s
     \<and> (\<forall>k < length bs. sectors s' (data_addr (bs ! k)) =
          (if k \<in> set ks then file_block need data k else sectors s (data_addr (bs ! k))))"
  using assms
proof (induction ks arbitrary: s)
  case Nil
  then show ?case by (auto intro: keeps_refl)
next
  case (Cons k ks)
  note ok = Cons.prems(1) and m = Cons.prems(2)
  note D = mappedD [OF m]
  have k: "k < length bs" using Cons.prems(3) by simp
  obtain b where b: "length b = 512" "inode_block_at i k s = (Some (bs ! k), s\<lparr>sec := b\<rparr>)"
    using mapped_block_at [OF ok m k] by blast
  define v where "v = file_block need data k"
  have lv: "length v = 512" using Cons.prems(5) by (simp add: v_def file_block_def)
  define s1 where "s1 = s\<lparr>sec := v, sectors := (sectors s)(data_addr (bs ! k) := v)\<rparr>"
  have bk: "bs ! k < DATA_COUNT" using D(11) k by (meson nth_mem)
  have step: "write_chunks (k # ks) need i data s = write_chunks ks need i data s1"
    using ok b lv by (simp add: Let_def s1_def v_def file_block_def data_addr_def)
  have nP: "unat (bs ! k) \<notin> P" using Cons.prems(6) k nth_mem by blast
  have ks1: "keeps P s s1"
    unfolding s1_def
    using keeps_write [OF keeps_sec [OF keeps_refl [OF ok, of P] lv] bk _ lv] nP by simp
  have addr: "data_addr t \<noteq> data_addr (bs ! k)" if "t \<in> set ts" for t
    using that D(10,12) bk k data_addr_inj by (metis IntI empty_iff nth_mem)
  have m1: "mapped i s1 bs ts"
    by (rule mapped_frame [OF m]) (use addr in \<open>simp add: s1_def\<close>)
  have "\<exists>s'. write_chunks ks need i data s1 = (True, s') \<and> mapped i s' bs ts \<and> keeps P s1 s' \<and> bm s' = bm s1
     \<and> (\<forall>k < length bs. sectors s' (data_addr (bs ! k)) =
          (if k \<in> set ks then file_block need data k else sectors s1 (data_addr (bs ! k))))"
    using Cons.prems m1 keeps_ok [OF ks1] by (intro Cons.IH) auto
  then obtain s' where s': "write_chunks ks need i data s1 = (True, s')" "mapped i s' bs ts" "keeps P s1 s'"
    "bm s' = bm s1" "\<forall>k < length bs. sectors s' (data_addr (bs ! k)) =
          (if k \<in> set ks then file_block need data k else sectors s1 (data_addr (bs ! k)))" by blast
  have "sectors s1 (data_addr (bs ! j)) = (if j = k then v else sectors s (data_addr (bs ! j)))" if "j < length bs" for j
    using that k D(8,11) data_addr_inj by (auto simp: s1_def nth_eq_iff_index_eq)
  then show ?case
    using s' step keeps_trans [OF ks1 s'(3)] Cons.prems(4) by (auto simp: s1_def v_def)
qed

lemma read_chunks_ok:
  assumes "disk_ok s" "mapped i s bs ts" "set ks \<subseteq> {..<length bs}"
  shows "\<exists>b. read_chunks ks len i s =
      (Some (concat (map (\<lambda>k. sub_bytes (sectors s (data_addr (bs ! k))) 0 (chunk_len ((len - 1) div 512) len k)) ks)),
       s\<lparr>sec := b\<rparr>) \<and> length b = 512"
  using assms
proof (induction ks arbitrary: s)
  case Nil
  then show ?case by (auto intro: exI [of _ "sec s"])
next
  case (Cons k ks)
  obtain b where b: "length b = 512" "inode_block_at i k s = (Some (bs ! k), s\<lparr>sec := b\<rparr>)"
    using mapped_block_at [OF Cons.prems(1,2)] Cons.prems(3) by auto
  define s1 where "s1 = s\<lparr>sec := sectors s (data_addr (bs ! k))\<rparr>"
  have "disk_ok s1" "mapped i s1 bs ts" using Cons.prems by (simp_all add: s1_def)
  with Cons.IH [of s1] Cons.prems(3) obtain c where c: "length c = 512" "read_chunks ks len i s1 =
      (Some (concat (map (\<lambda>k. sub_bytes (sectors s1 (data_addr (bs ! k))) 0 (chunk_len ((len - 1) div 512) len k)) ks)),
       s1\<lparr>sec := c\<rparr>)" by auto
  show ?case
    using Cons.prems(1) b c by (auto simp: Let_def s1_def data_addr_def intro!: exI [of _ c])
qed

lemma concat_chunks: "concat (map (\<lambda>k. sub_bytes data (k * 512) 512) [0..<m]) = take (m * 512) data"
proof (induction m)
  case (Suc m)
  have "take (Suc m * 512) data = take (m * 512) data @ take 512 (drop (m * 512) data)"
    by (metis add.commute mult_Suc take_add)
  with Suc show ?case by (simp add: sub_bytes_def)
qed simp

lemma chunks_take:
  "concat (map (\<lambda>k. sub_bytes data (k * 512) (chunk_len ((r - 1) div 512) r k)) [0..<(r + 511) div 512]) = take r data"
proof (cases "r = 0")
  case False
  define q where "q = (r - 1) div 512"
  have n: "(r + 511) div 512 = Suc q" using False by (simp add: q_def)
  have q: "q * 512 < r" "r \<le> q * 512 + 512" using False unfolding q_def by auto
  have "map (\<lambda>k. sub_bytes data (k * 512) (chunk_len q r k)) [0..<q] = map (\<lambda>k. sub_bytes data (k * 512) 512) [0..<q]"
    by (simp add: chunk_len_def)
  then have "concat (map (\<lambda>k. sub_bytes data (k * 512) (chunk_len q r k)) [0..<Suc q])
      = take (q * 512) data @ sub_bytes data (q * 512) (chunk_len q r q)"
    using concat_chunks [of data q] by (simp only: upt_Suc_append map_append concat_append) simp
  also have "\<dots> = take (q * 512) data @ take (r - q * 512) (drop (q * 512) data)"
    by (simp add: chunk_len_def sub_bytes_def)
  also have "\<dots> = take r data" using q(1) take_add [of "q * 512" "r - q * 512" data] by simp
  finally show ?thesis by (simp only: n q_def)
qed simp



section \<open>Releasing the blocks of an inode\<close>

definition valid_blocks :: "u32 list \<Rightarrow> nat set" where
  "valid_blocks bs = unat ` {b \<in> set bs. b < DATA_COUNT}"

definition table_ptrs :: "cofeufs \<Rightarrow> u32 \<Rightarrow> u32 list" where
  "table_ptrs s tbl = map (u32_at (sectors s (data_addr tbl))) [0..<128]"

text \<open>The blocks an inode refers to: direct blocks, tables and the entries of the tables.\<close>

definition inode_owns :: "inode \<Rightarrow> cofeufs \<Rightarrow> nat set" where
  "inode_owns i s = valid_blocks (take 20 (i_blocks i)) \<union>
     (\<Union>tbl \<in> {t \<in> set (take 2 (drop 20 (i_blocks i))). t < DATA_COUNT}. insert (unat tbl) (valid_blocks (table_ptrs s tbl)))"

lemma inode_owns_sec [simp]: "inode_owns i (s\<lparr>sec := b\<rparr>) = inode_owns i s"
  by (simp add: inode_owns_def table_ptrs_def)

text \<open>\<open>freed U s s'\<close>: only the bit map and the buffer changed, and the blocks \<open>U\<close> were released.\<close>

definition freed :: "nat set \<Rightarrow> cofeufs \<Rightarrow> cofeufs \<Rightarrow> bool" where
  "freed U s s' \<longleftrightarrow> disk_ok s' \<and> sectors s' = sectors s \<and> super s' = super s \<and> mounted s' = mounted s
     \<and> fs_used s' = fs_used s - U"

lemma freed_refl: "disk_ok s \<Longrightarrow> freed {} s s"
  by (simp add: freed_def)

lemma freed_trans: "freed U s s' \<Longrightarrow> freed V s' s'' \<Longrightarrow> freed (U \<union> V) s s''"
  by (auto simp: freed_def)

lemma freed_block: "disk_ok s \<Longrightarrow> b < DATA_COUNT \<Longrightarrow> freed {unat b} s (block_free b s)"
  using block_free_used [of s b] by (simp add: freed_def) (simp add: block_free_def)

lemma valid_blocks_snoc:
  "valid_blocks (bs @ [b]) = valid_blocks bs \<union> (if b < DATA_COUNT then {unat b} else {})"
  by (auto simp: valid_blocks_def)

lemma free_direct_ok:
  assumes "disk_ok s" "length (i_blocks i) = 22" "k \<le> 20" "free_direct k (i, s) = (i', s')"
  shows "freed (valid_blocks (take k (i_blocks i))) s s' \<and> sec s' = sec s \<and> length (i_blocks i') = 22
     \<and> i' = i\<lparr>i_blocks := i_blocks i'\<rparr> \<and> (\<forall>j \<ge> k. i_blocks i' ! j = i_blocks i ! j)"
  using assms
proof (induction k arbitrary: i' s')
  case 0
  then show ?case by (simp add: freed_refl valid_blocks_def)
next
  case (Suc k)
  obtain i1 s1 where a: "free_direct k (i, s) = (i1, s1)" by fastforce
  with Suc have IH: "freed (valid_blocks (take k (i_blocks i))) s s1" "sec s1 = sec s" "length (i_blocks i1) = 22"
    "i1 = i\<lparr>i_blocks := i_blocks i1\<rparr>" "\<forall>j \<ge> k. i_blocks i1 ! j = i_blocks i ! j" by auto
  define b where "b = i_blocks i ! k"
  have tk: "take (Suc k) (i_blocks i) = take k (i_blocks i) @ [b]"
    using Suc.prems(2,3) by (simp add: b_def take_Suc_conv_app_nth)
  have ok1: "disk_ok s1" using IH(1) by (simp add: freed_def)
  show ?case
  proof (cases "b < DATA_COUNT")
    case True
    then have r: "i' = set_block k NOBLK i1" "s' = block_free b s1"
      using Suc.prems(4) a IH(5) data_not_NOBLK [OF True] by (simp_all add: b_def Let_def)
    have "freed (valid_blocks (take k (i_blocks i)) \<union> {unat b}) s s'"
      unfolding r by (rule freed_trans [OF IH(1) freed_block [OF ok1 True]])
    moreover have "sec s' = sec s" using IH(2) by (simp add: r block_free_def)
    moreover have "i' = i\<lparr>i_blocks := i_blocks i'\<rparr>" unfolding r set_block_def by (subst IH(4)) simp
    ultimately show ?thesis using True IH(3,5) tk by (simp add: valid_blocks_snoc r(1) set_block_def)
  next
    case False
    then have r: "i' = i1" "s' = s1" using Suc.prems(4) a IH(5) by (simp_all add: b_def Let_def)
    show ?thesis using IH False tk by (simp add: r valid_blocks_snoc)
  qed
qed

lemma free_ptrs_ok:
  assumes "disk_ok s" "k \<le> 128"
  shows "freed (valid_blocks (map (u32_at (sec s)) [0..<k])) s (free_ptrs k s) \<and> sec (free_ptrs k s) = sec s"
  using assms(2)
proof (induction k)
  case 0
  then show ?case using assms(1) by (simp add: freed_refl valid_blocks_def)
next
  case (Suc k)
  then have IH: "freed (valid_blocks (map (u32_at (sec s)) [0..<k])) s (free_ptrs k s)" "sec (free_ptrs k s) = sec s"
    by auto
  define p where "p = u32_at (sec s) k"
  have ok1: "disk_ok (free_ptrs k s)" using IH(1) by (simp add: freed_def)
  show ?case
  proof (cases "p < DATA_COUNT")
    case True
    have "free_ptrs (Suc k) s = block_free p (free_ptrs k s)"
      using True data_not_NOBLK [OF True] IH(2) by (simp add: p_def Let_def)
    then show ?thesis
      using freed_trans [OF IH(1) freed_block [OF ok1 True]] True IH(2)
      by (simp add: valid_blocks_snoc p_def [symmetric]) (simp add: block_free_def)
  next
    case False
    then have "free_ptrs (Suc k) s = free_ptrs k s" using IH(2) by (simp add: p_def Let_def)
    then show ?thesis using IH False by (simp add: valid_blocks_snoc p_def)
  qed
qed

lemma free_indirect_ok:
  assumes "disk_ok s" "length (i_blocks i) = 22" "k \<le> 2" "free_indirect k (i, s) = (i', s')"
  shows "freed (\<Union>tbl \<in> {t \<in> set (take k (drop 20 (i_blocks i))). t < DATA_COUNT}.
           insert (unat tbl) (valid_blocks (table_ptrs s tbl))) s s'
     \<and> length (i_blocks i') = 22 \<and> i' = i\<lparr>i_blocks := i_blocks i'\<rparr> \<and> (\<forall>j \<ge> 20 + k. i_blocks i' ! j = i_blocks i ! j)"
  using assms
proof (induction k arbitrary: i' s')
  case 0
  then show ?case by (simp add: freed_refl)
next
  case (Suc k)
  let ?U = "\<lambda>k. \<Union>tbl \<in> {t \<in> set (take k (drop 20 (i_blocks i))). t < DATA_COUNT}.
           insert (unat tbl) (valid_blocks (table_ptrs s tbl))"
  obtain i1 s1 where a: "free_indirect k (i, s) = (i1, s1)" by fastforce
  with Suc have IH: "freed (?U k) s s1" "length (i_blocks i1) = 22"
    "i1 = i\<lparr>i_blocks := i_blocks i1\<rparr>" "\<forall>j \<ge> 20 + k. i_blocks i1 ! j = i_blocks i ! j" by auto
  define b where "b = i_blocks i ! (20 + k)"
  have tk: "take (Suc k) (drop 20 (i_blocks i)) = take k (drop 20 (i_blocks i)) @ [b]"
    using Suc.prems(2,3) by (simp add: b_def take_Suc_conv_app_nth)
  have ok1: "disk_ok s1" and sec1: "sectors s1 = sectors s" using IH(1) by (simp_all add: freed_def)
  have b1: "i_blocks i1 ! (MAX_DIRECT + k) = b" using IH(4) by (simp add: b_def MAX_DIRECT_def)
  show ?case
  proof (cases "b < DATA_COUNT")
    case True
    define s2 where "s2 = s1\<lparr>sec := sectors s (data_addr b)\<rparr>"
    have ok2: "disk_ok s2"
      using disk_ok_sec [OF ok1] disk_ok_lengths(1) [OF ok1, of "data_addr b"] by (simp add: s2_def sec1)
    have r: "i' = set_block (20 + k) NOBLK i1" "s' = block_free b (free_ptrs 128 s2)"
      using Suc.prems(4) a b1 linorder_not_le [THEN iffD2, OF True] data_not_NOBLK [OF True] ok1 sec1
      by (simp_all add: Let_def IND_PTRS_def MAX_DIRECT_def s2_def data_addr_def)
    have f2: "freed {} s1 s2" using ok2 by (simp add: freed_def s2_def)
    have tp: "map (u32_at (sec s2)) [0..<128] = table_ptrs s b" by (simp add: table_ptrs_def s2_def)
    have f3: "freed (valid_blocks (table_ptrs s b)) s2 (free_ptrs 128 s2)"
      using free_ptrs_ok [OF ok2, of 128] tp by simp
    have ok3: "disk_ok (free_ptrs 128 s2)" using f3 by (simp add: freed_def)
    have "freed (?U k \<union> {} \<union> valid_blocks (table_ptrs s b) \<union> {unat b}) s s'"
      unfolding r(2) by (rule freed_trans [OF freed_trans [OF freed_trans [OF IH(1) f2] f3] freed_block [OF ok3 True]])
    moreover have "?U (Suc k) = ?U k \<union> {} \<union> valid_blocks (table_ptrs s b) \<union> {unat b}"
      using True by (auto simp: tk)
    moreover have "i' = i\<lparr>i_blocks := i_blocks i'\<rparr>" unfolding r set_block_def by (subst IH(3)) simp
    ultimately show ?thesis using IH(2,4) by (simp add: r(1) set_block_def)
  next
    case False
    then have r: "i' = i1" "s' = s1" using Suc.prems(4) a b1 linorder_not_less [THEN iffD1, OF False] by (simp_all add: Let_def)
    have "?U (Suc k) = ?U k" using False by (auto simp: tk)
    then show ?thesis using IH by (simp add: r)
  qed
qed

lemma inode_free_blocks_ok:
  assumes "disk_ok s" "length (i_blocks i) = 22" "inode_free_blocks i s = (i', s')"
  shows "freed (inode_owns i s) s s'" "length (i_blocks i') = 22" "i' = i\<lparr>i_blocks := i_blocks i'\<rparr>"
proof -
  obtain i1 s1 where a: "free_direct 20 (i, s) = (i1, s1)" by fastforce
  have b: "free_indirect 2 (i1, s1) = (i', s')"
    using assms(3) a by (simp add: inode_free_blocks_def MAX_DIRECT_def MAX_INDIRECT_def)
  note A = free_direct_ok [OF assms(1,2) _ a, simplified]
  have ok1: "disk_ok s1" and l1: "length (i_blocks i1) = 22" and sec1: "sectors s1 = sectors s"
    using A by (simp_all add: freed_def)
  note B = free_indirect_ok [OF ok1 l1 _ b, simplified]
  have d: "drop 20 (i_blocks i1) = drop 20 (i_blocks i)"
    using A l1 assms(2) by (intro nth_equalityI) auto
  have tp: "table_ptrs s1 = table_ptrs s" by (simp add: table_ptrs_def sec1 fun_eq_iff)
  show "freed (inode_owns i s) s s'"
    unfolding inode_owns_def using freed_trans [of _ s s1 _ s'] A B by (simp add: d tp)
  show "length (i_blocks i') = 22" using B by simp
  show "i' = i\<lparr>i_blocks := i_blocks i'\<rparr>" using A B by (metis inode.surjective inode.update_convs(5))
qed



section \<open>The inode table and the stored bit map\<close>

definition inode_at :: "u32 \<Rightarrow> cofeufs \<Rightarrow> inode" where
  "inode_at n s = dec_inode (sub_bytes (sectors s (INO_LBA + n div 4)) (unat (n mod 4) * 128) 128)"

lemma ino_slot: "unat (n mod 4 :: u32) * 128 + 128 \<le> 512"
proof -
  have "unat (n mod 4) = unat n mod 4" using unat_mod_distrib [of n 4] by simp
  then show ?thesis by simp
qed

lemma inode_read_ok:
  assumes "disk_ok s" "n < INO_COUNT"
  shows "inode_read n s = (inode_at n s, s\<lparr>sec := sectors s (INO_LBA + n div 4)\<rparr>)"
  using assms inode_addr(1) [OF assms(2)] by (simp add: inode_read_def inode_at_def Let_def)

lemma inode_at_wf: "disk_ok s \<Longrightarrow> wf_inode (inode_at n s)"
  unfolding inode_at_def using ino_slot [of n] by (intro inode_codec.dec_wf) simp

lemma inode_at_frame: "sectors s' (INO_LBA + n div 4) = sectors s (INO_LBA + n div 4) \<Longrightarrow> inode_at n s' = inode_at n s"
  by (simp add: inode_at_def)

lemma inode_write_ok:
  assumes "disk_ok s" "n < INO_COUNT" "wf_inode i" "s' = inode_write n i s"
  shows "disk_ok s'" "\<And>m. m < INO_COUNT \<Longrightarrow> inode_at m s' = (if m = n then i else inode_at m s)"
    "\<And>a. a \<noteq> INO_LBA + n div 4 \<Longrightarrow> sectors s' a = sectors s a"
    "bm s' = bm s" "super s' = super s" "mounted s' = mounted s"
proof -
  define v where "v = put_bytes (sectors s (INO_LBA + n div 4)) (unat (n mod 4) * 128) (enc_inode i)"
  have lv: "length v = 512" using ino_slot [of n] assms(1,3) inode_codec.enc_length by (simp add: v_def)
  have s': "s' = s\<lparr>sec := v, sectors := (sectors s)(INO_LBA + n div 4 := v)\<rparr>"
    using assms inode_addr(1) [OF assms(2)] lv by (simp add: inode_write_def Let_def v_def)
  show "disk_ok s'" using disk_ok_sectors [OF disk_ok_sec [OF assms(1) lv] lv, of "INO_LBA + n div 4"] by (simp add: s')
  show "\<And>a. a \<noteq> INO_LBA + n div 4 \<Longrightarrow> sectors s' a = sectors s a" "bm s' = bm s" "super s' = super s"
    "mounted s' = mounted s" by (simp_all add: s')
  show "inode_at m s' = (if m = n then i else inode_at m s)" if "m < INO_COUNT" for m
  proof (cases "m div 4 = n div 4")
    case False
    then have "INO_LBA + m div 4 \<noteq> INO_LBA + n div 4" by simp
    with False show ?thesis by (auto simp: inode_at_def s')
  next
    case True
    have e: "inode_at m s' = dec_inode (sub_bytes v (unat (m mod 4) * 128) 128)"
      by (simp add: inode_at_def s' True)
    show ?thesis
    proof (cases "m = n")
      case True
      then show ?thesis
        using e inode_codec.slot_same [OF assms(3)] ino_slot [of n] assms(1) by (simp add: v_def)
    next
      case False
      have "m mod 4 \<noteq> n mod 4"
      proof
        assume "m mod 4 = n mod 4"
        then have "m div 4 * 4 + m mod 4 = n div 4 * 4 + n mod 4" using True by simp
        then have "m = n" by (simp only: word_mod_div_equality)
        with False show False ..
      qed
      then have ne: "unat (m mod 4) \<noteq> unat (n mod 4)" by (metis word_unat_eq_iff)
      then have "sub_bytes v (unat (m mod 4) * 128) 128 =
          sub_bytes (sectors s (INO_LBA + n div 4)) (unat (m mod 4) * 128) 128"
        unfolding v_def using ino_slot [of n] ino_slot [of m] assms(1,3)
        by (intro inode_codec.slot_other) simp_all
      then show ?thesis using e False True by (simp add: inode_at_def)
    qed
  qed
qed

lemma bm_flush_n_ok:
  "disk_ok s \<Longrightarrow> k \<le> 16 \<Longrightarrow> disk_ok (bm_flush_n k s) \<and> bm (bm_flush_n k s) = bm s \<and> super (bm_flush_n k s) = super s
     \<and> mounted (bm_flush_n k s) = mounted s \<and> (\<forall>a. (unat a < 2050 \<or> 2066 \<le> unat a) \<longrightarrow> sectors (bm_flush_n k s) a = sectors s a)"
proof (induction k)
  case (Suc k)
  define s1 where "s1 = bm_flush_n k s"
  have IH: "disk_ok s1" "bm s1 = bm s" "super s1 = super s" "mounted s1 = mounted s"
    "\<forall>a. (unat a < 2050 \<or> 2066 \<le> unat a) \<longrightarrow> sectors s1 a = sectors s a"
    using Suc by (simp_all add: s1_def)
  have pr: "ata_present s1" using IH(1) unfolding disk_ok_def by blast
  have u: "unat (BM_LBA + of_nat k) = 2050 + k"
    using Suc.prems(2) by (subst unat_plus_small) (simp_all add: BM_LBA_def unat_of_nat)
  then have a: "(BM_LBA + of_nat k) AND 0x0FFFFFFF = BM_LBA + of_nat k" using Suc.prems(2) by (intro and_mask28) simp
  have l: "length (sub_bytes (bm s1) (k * 512) 512) = 512" using IH(1) Suc.prems(2) by simp
  have "bm_flush_n (Suc k) s = s1\<lparr>sectors := (sectors s1)(BM_LBA + of_nat k := sub_bytes (bm s1) (k * 512) 512)\<rparr>"
    using pr a by (simp add: s1_def [symmetric] Let_def ata_write_sector_def)
  then show ?case using IH u l Suc.prems(2) disk_ok_sectors [OF IH(1) l] by auto
qed simp

lemma bm_flush_ok:
  assumes "disk_ok s"
  shows "disk_ok (bm_flush s)" "bm (bm_flush s) = bm s" "super (bm_flush s) = super s" "mounted (bm_flush s) = mounted s"
    "\<And>b. b < DATA_COUNT \<Longrightarrow> sectors (bm_flush s) (data_addr b) = sectors s (data_addr b)"
    "\<And>n. n < INO_COUNT \<Longrightarrow> inode_at n (bm_flush s) = inode_at n s"
proof -
  note F = bm_flush_n_ok [OF assms, of 16, simplified]
  show "disk_ok (bm_flush s)" "bm (bm_flush s) = bm s" "super (bm_flush s) = super s" "mounted (bm_flush s) = mounted s"
    using F by (simp_all add: bm_flush_def BM_BLOCKS_def)
  show "sectors (bm_flush s) (data_addr b) = sectors s (data_addr b)" if "b < DATA_COUNT" for b
    using F data_addr_small(2) [OF that] by (simp add: bm_flush_def BM_BLOCKS_def)
  show "inode_at n (bm_flush s) = inode_at n s" if "n < INO_COUNT" for n
    using F inode_addr(2) [OF that] by (intro inode_at_frame) (simp add: bm_flush_def BM_BLOCKS_def)
qed



section \<open>Properties of file contents\<close>

lemma file_block_window:
  assumes len: "k < (len + 511) div 512" "len = length data" and r: "r \<le> len" "k < (r + 511) div 512"
  shows "sub_bytes (file_block ((len + 511) div 512) data k) 0 (chunk_len ((r - 1) div 512) r k)
     = sub_bytes data (k * 512) (chunk_len ((r - 1) div 512) r k)"
    and "length (sub_bytes data (k * 512) (chunk_len ((len + 511) div 512 - 1) (length data) k)) \<le> 512"
proof -
  define q where "q = (len + 511) div 512 - 1"
  define c where "c = chunk_len q len k"
  define d where "d = chunk_len ((r - 1) div 512) r k"
  have q: "q * 512 < len" "len \<le> q * 512 + 512" "k \<le> q" using len unfolding q_def by auto
  have c: "c \<le> 512" "k * 512 + c \<le> len"
  proof -
    have "k < q \<Longrightarrow> k * 512 + 512 \<le> q * 512" by simp
    then show "c \<le> 512" "k * 512 + c \<le> len" using q by (auto simp: c_def chunk_len_def)
  qed
  have d: "d \<le> c"
  proof (cases "k = (r - 1) div 512")
    case True
    then have "d = r - k * 512" by (simp add: d_def chunk_len_def)
    moreover have "r - k * 512 \<le> 512" using True by auto
    ultimately show ?thesis using r by (auto simp: c_def chunk_len_def)
  next
    case False
    then have kr: "k < (r - 1) div 512" using r by auto
    then have "k * 512 + 512 < r" by auto
    then have "k \<noteq> q" using r(1) q by auto
    then show ?thesis using False by (simp add: c_def d_def chunk_len_def)
  qed
  have lc: "length (sub_bytes data (k * 512) c) = c" using c(2) len(2) by simp
  then show "length (sub_bytes data (k * 512) (chunk_len ((len + 511) div 512 - 1) (length data) k)) \<le> 512"
    using c(1) len(2) by (simp add: c_def q_def)
  have "sub_bytes (put_bytes (replicate 512 0) 0 (sub_bytes data (k * 512) c)) 0 d = take d (sub_bytes data (k * 512) c)"
    using lc c(1) d by (simp add: sub_bytes_def put_bytes_def)
  also have "\<dots> = sub_bytes data (k * 512) d" using d by (simp add: sub_bytes_def min_def)
  finally show "sub_bytes (file_block ((len + 511) div 512) data k) 0 (chunk_len ((r - 1) div 512) r k)
     = sub_bytes data (k * 512) (chunk_len ((r - 1) div 512) r k)"
    using len(2) by (simp add: file_block_def c_def d_def q_def)
qed

text \<open>
  A run of \<open>write_inode\<close> in three parts: up to the mapping of the blocks, the mapping, and what
  follows a successful mapping. \<open>P\<close> is the set of blocks in use by anything else.
\<close>

lemma write_inode_start:
  assumes ok: "disk_ok s" and ino: "ino < INO_COUNT" and ty: "i_type (inode_at ino s) = FT_FILE"
    and sz: "length data \<le> MAX_FILE" and P: "P = fs_used s - inode_owns (inode_at ino s) s"
    and need: "need = (length data + 511) div 512"
  obtains i s1 where
    "write_inode ino data s =
       (case map_blocks need i s1 of (False, i, s) \<Rightarrow> write_file_abort i ino s
        | (True, i, s) \<Rightarrow> (case write_chunks [0..<need] need i data s of
            (False, s) \<Rightarrow> write_file_abort i ino s | (True, s) \<Rightarrow> (True, bm_flush (inode_write ino i s))))"
    "disk_ok s1" "sectors s1 = sectors s" "super s1 = super s" "mounted s1 = mounted s" "fs_used s1 = P"
    "mapped i s1 [] []" "length (i_name i) = 32" "i_type i = FT_FILE" "i_size i = of_nat (length data)"
proof -
  define i0 where "i0 = inode_at ino s"
  define s0 where "s0 = s\<lparr>sec := sectors s (INO_LBA + ino div 4)\<rparr>"
  have ok0: "disk_ok s0" using ok by (simp add: s0_def)
  have wf0: "wf_inode i0" unfolding i0_def by (rule inode_at_wf [OF ok])
  have rd: "inode_read ino s = (i0, s0)" using inode_read_ok [OF ok ino] by (simp add: i0_def s0_def)
  obtain i1 s1 where fr: "inode_free_blocks i0 s0 = (i1, s1)" by fastforce
  define i2 where "i2 = (inode_reset i1)\<lparr>i_size := of_nat (length data)\<rparr>"
  have l0: "length (i_blocks i0) = 22" using wf0 by (simp add: wf_inode_def)
  note F = inode_free_blocks_ok [OF ok0 l0 fr]
  have i1f: "i_name i1 = i_name i0" "i_type i1 = i_type i0" by (subst F(3); simp)+
  show thesis
  proof (rule that [of i2 s1])
    show "write_inode ino data s =
       (case map_blocks need i2 s1 of (False, i, s) \<Rightarrow> write_file_abort i ino s
        | (True, i, s) \<Rightarrow> (case write_chunks [0..<need] need i data s of
            (False, s) \<Rightarrow> write_file_abort i ino s | (True, s) \<Rightarrow> (True, bm_flush (inode_write ino i s))))"
      unfolding need using ty sz by (simp add: write_inode_def rd fr i2_def Let_def i0_def [symmetric])
    show "disk_ok s1" "sectors s1 = sectors s" "super s1 = super s" "mounted s1 = mounted s" "fs_used s1 = P"
      using F(1) by (simp_all add: freed_def s0_def P i0_def)
    show "mapped i2 s1 [] []" using mapped_empty [OF F(2), of s1] by (simp add: i2_def mapped_def)
    show "length (i_name i2) = 32" "i_type i2 = FT_FILE" "i_size i2 = of_nat (length data)"
      using i1f wf0 ty by (simp_all add: i2_def inode_reset_def wf_inode_def i0_def)
  qed
qed

lemma write_inode_finish:
  assumes ok: "disk_ok s" and ino: "ino < INO_COUNT" and wf: "wf_inode i" and m: "mapped i s bs ts"
    and len: "length bs = (length data + 511) div 512" and P: "unat ` (set bs \<union> set ts) \<inter> P = {}" "P \<subseteq> fs_used s"
  shows "\<exists>s4 s'. write_chunks [0..<length bs] (length bs) i data s = (True, s4) \<and> s' = bm_flush (inode_write ino i s4)
     \<and> inode_at ino s' = i \<and> mapped i s' bs ts \<and> disk_ok s' \<and> P \<subseteq> fs_used s'
     \<and> (\<forall>k < length bs. sectors s' (data_addr (bs ! k)) = file_block (length bs) data k)
     \<and> (\<forall>b < DATA_COUNT. unat b \<in> P \<longrightarrow> sectors s' (data_addr b) = sectors s (data_addr b))
     \<and> (\<forall>n < INO_COUNT. n \<noteq> ino \<longrightarrow> inode_at n s' = inode_at n s)
     \<and> super s' = super s \<and> mounted s' = mounted s"
proof -
  have cl: "\<forall>k \<in> set [0..<length bs]. length (sub_bytes data (k * 512) (chunk_len (length bs - 1) (length data) k)) \<le> 512"
    using file_block_window(2) [of _ "length data" data "length data"] by (simp add: len)
  have bsP: "unat ` set bs \<inter> P = {}" using P by blast
  obtain s4 where W: "write_chunks [0..<length bs] (length bs) i data s = (True, s4)" "mapped i s4 bs ts"
    "keeps P s s4" "bm s4 = bm s" "\<forall>k < length bs. sectors s4 (data_addr (bs ! k)) = file_block (length bs) data k"
    using write_chunks_ok [OF ok m _ _ cl bsP] by (auto simp: subset_eq)
  define s5 where "s5 = inode_write ino i s4"
  define s' where "s' = bm_flush s5"
  have ok4: "disk_ok s4" by (rule keeps_ok [OF W(3)])
  note I = inode_write_ok [OF ok4 ino wf s5_def]
  note B = bm_flush_ok [OF I(1), folded s'_def]
  have data5: "sectors s' (data_addr b) = sectors s4 (data_addr b)" if "b < DATA_COUNT" for b
    using B(5) [OF that] I(3) [OF data_addr_not_inode [OF that ino]] by simp
  have other: "inode_at n s' = inode_at n s" if n: "n < INO_COUNT" "n \<noteq> ino" for n
  proof -
    have "sectors s4 (INO_LBA + n div 4) = sectors s (INO_LBA + n div 4)"
      using W(3) data_addr_not_inode [OF _ n(1)] unfolding keeps_def by metis
    then have "inode_at n s4 = inode_at n s" by (rule inode_at_frame)
    then show ?thesis using B(6) [OF n(1)] I(2) [OF n(1)] n(2) by simp
  qed
  have "mapped i s' bs ts"
    by (rule mapped_frame [OF W(2)]) (use data5 mappedD(12) [OF W(2)] in auto)
  moreover have "\<forall>k < length bs. sectors s' (data_addr (bs ! k)) = file_block (length bs) data k"
    using W(5) data5 mappedD(11) [OF W(2)] by auto
  moreover have "P \<subseteq> fs_used s'" using P(2) B(2) I(4) W(4) by (simp add: fs_used_def)
  moreover have "\<forall>b < DATA_COUNT. unat b \<in> P \<longrightarrow> sectors s' (data_addr b) = sectors s (data_addr b)"
    using data5 keeps_block [OF W(3)] by auto
  moreover have "super s' = super s" "mounted s' = mounted s" using B(3,4) I(5,6) W(3) by (simp_all add: keeps_def)
  moreover have "inode_at ino s' = i" using B(6) [OF ino] I(2) [OF ino] by simp
  ultimately show ?thesis using W(1) B(1) other unfolding s'_def s5_def by blast
qed

lemma write_inode_state:
  assumes ok: "disk_ok s" and ino: "ino < INO_COUNT" and w: "write_inode ino data s = (True, s')"
    and P: "P = fs_used s - inode_owns (inode_at ino s) s"
  shows "\<exists>i bs ts. inode_at ino s' = i \<and> i_type i = FT_FILE \<and> unat (i_size i) = length data
     \<and> mapped i s' bs ts \<and> length bs = (length data + 511) div 512
     \<and> (\<forall>k < length bs. sectors s' (data_addr (bs ! k)) = file_block (length bs) data k)
     \<and> disk_ok s' \<and> P \<subseteq> fs_used s' \<and> length data \<le> MAX_FILE
     \<and> (\<forall>b < DATA_COUNT. unat b \<in> P \<longrightarrow> sectors s' (data_addr b) = sectors s (data_addr b))
     \<and> (\<forall>n < INO_COUNT. n \<noteq> ino \<longrightarrow> inode_at n s' = inode_at n s)
     \<and> super s' = super s \<and> mounted s' = mounted s"
proof -
  have ty: "i_type (inode_at ino s) = FT_FILE" and sz: "length data \<le> MAX_FILE"
    using w inode_read_ok [OF ok ino] by (auto simp: write_inode_def split: if_splits)
  obtain i1 s1 where S: "write_inode ino data s =
       (case map_blocks ((length data + 511) div 512) i1 s1 of (False, i, s) \<Rightarrow> write_file_abort i ino s
        | (True, i, s) \<Rightarrow> (case write_chunks [0..<(length data + 511) div 512] ((length data + 511) div 512) i data s of
            (False, s) \<Rightarrow> write_file_abort i ino s | (True, s) \<Rightarrow> (True, bm_flush (inode_write ino i s))))"
    "disk_ok s1" "sectors s1 = sectors s" "super s1 = super s" "mounted s1 = mounted s" "fs_used s1 = P"
    "mapped i1 s1 [] []" "length (i_name i1) = 32" "i_type i1 = FT_FILE" "i_size i1 = of_nat (length data)"
    by (rule write_inode_start [OF ok ino ty sz P refl])
  obtain okm i3 s3 where mb: "map_blocks ((length data + 511) div 512) i1 s1 = (okm, i3, s3)" by (metis prod_cases3)
  have ab: "fst (write_file_abort i ino s) = False" for i s
    by (simp add: write_file_abort_def Let_def split: prod.splits)
  have okm: okm using S(1) mb w ab by (cases okm) (auto, metis fst_conv)
  have n276: "(length data + 511) div 512 \<le> 276" using sz by (simp add: fs_const_defs)
  obtain bs ts where M: "mapped i3 s3 bs ts" "length bs = (length data + 511) div 512" "i3 = i1\<lparr>i_blocks := i_blocks i3\<rparr>"
    "keeps P s1 s3" "P \<subseteq> fs_used s3" "unat ` (set bs \<union> set ts) \<inter> P = {}"
    using map_blocks_ok [OF S(2,7) _ _ _ _ mb [unfolded okm [THEN eqTrueI]], of P] n276 S(6) okm by auto
  have i3f: "i_name i3 = i_name i1" "i_type i3 = i_type i1" "i_size i3 = i_size i1" by (subst M(3); simp)+
  have wf3: "wf_inode i3" using i3f S(8) mappedD(1) [OF M(1)] by (simp add: wf_inode_def)
  obtain s4 s5 where W: "write_chunks [0..<length bs] (length bs) i3 data s3 = (True, s4)"
    "s5 = bm_flush (inode_write ino i3 s4)" and rest:
    "inode_at ino s5 = i3" "mapped i3 s5 bs ts" "disk_ok s5" "P \<subseteq> fs_used s5"
    "\<forall>k < length bs. sectors s5 (data_addr (bs ! k)) = file_block (length bs) data k"
    "\<forall>b < DATA_COUNT. unat b \<in> P \<longrightarrow> sectors s5 (data_addr b) = sectors s3 (data_addr b)"
    "\<forall>n < INO_COUNT. n \<noteq> ino \<longrightarrow> inode_at n s5 = inode_at n s3" "super s5 = super s3" "mounted s5 = mounted s3"
    using write_inode_finish [OF keeps_ok [OF M(4)] ino wf3 M(1,2,6,5)] by blast
  have s': "s' = s5" using S(1) w mb okm W M(2) by simp
  have "inode_at n s3 = inode_at n s" if "n < INO_COUNT" for n
    using M(4) data_addr_not_inode [OF _ that] S(3) unfolding keeps_def by (intro inode_at_frame) metis
  moreover have "unat (i_size i3) = length data"
    using sz i3f(3) S(10) by (simp add: unat_of_nat_small fs_const_defs)
  moreover have "\<forall>b < DATA_COUNT. unat b \<in> P \<longrightarrow> sectors s3 (data_addr b) = sectors s (data_addr b)"
    using keeps_block [OF M(4)] S(3) by auto
  moreover have "super s3 = super s" "mounted s3 = mounted s" using M(4) S(4,5) by (simp_all add: keeps_def)
  ultimately show ?thesis using rest M(2) sz i3f(2) S(9) unfolding s' by auto
qed

text \<open>Mapping fails only when the disk is full.\<close>

lemma map_blocks_full:
  "disk_ok s \<Longrightarrow> mapped i s bs ts \<Longrightarrow> fs_used s = P \<union> unat ` (set bs \<union> set ts) \<Longrightarrow> length bs + n \<le> 276 \<Longrightarrow>
   finite P \<Longrightarrow> card P + length bs + n + 2 \<le> 65454 \<Longrightarrow> fst (map_blocks n i s)"
proof (induction n arbitrary: i s bs ts)
  case (Suc n)
  obtain r i1 s1 where a: "inode_map_next i s = (r, i1, s1)" by (metis prod_cases3)
  have M: "map_step i s bs ts r i1 s1" "r = None \<longrightarrow> {..<65454} \<subseteq> fs_used s1"
    using map_next_step [OF Suc.prems(1,2) _ _ a] Suc.prems(3,4) by auto
  then obtain ts1 where S: "mapped i1 s1 (bs @ (case r of None \<Rightarrow> [] | Some b \<Rightarrow> [b])) ts1"
    "keeps (fs_used s - unat ` set ts) s s1" "fs_used s1 = fs_used s \<union> unat ` (set_option r \<union> set ts1)" "set ts \<subseteq> set ts1"
    unfolding map_step_def by auto
  have t2: "length ts1 \<le> 2" by (rule mappedD(2) [OF S(1)])
  show ?case
  proof (cases r)
    case None
    have used: "fs_used s1 = P \<union> unat ` (set bs \<union> set ts1)" using S(3,4) Suc.prems(3) None by auto
    have "65454 \<le> card (fs_used s1)"
      using M(2) None card_mono [of "fs_used s1" "{..<65454 :: nat}"] by (simp add: fs_used_def)
    also have "\<dots> \<le> card P + card (unat ` (set bs \<union> set ts1))" unfolding used by (rule card_Un_le)
    also have "card (unat ` (set bs \<union> set ts1)) \<le> length bs + 2"
      using card_image_le [of "set (bs @ ts1)" unat] card_length [of "bs @ ts1"] t2 by simp
    finally show ?thesis using Suc.prems(6) by simp
  next
    case (Some b)
    have "fst (map_blocks n i1 s1)"
    proof (rule Suc.IH)
      show "mapped i1 s1 (bs @ [b]) ts1" using S(1) Some by simp
      show "fs_used s1 = P \<union> unat ` (set (bs @ [b]) \<union> set ts1)" using S(3,4) Suc.prems(3) Some by auto
    qed (use Suc.prems keeps_ok [OF S(2)] in auto)
    then show ?thesis using a Some by simp
  qed
qed simp

lemma write_inode_succeeds:
  assumes "disk_ok s" "ino < INO_COUNT" "i_type (inode_at ino s) = FT_FILE" "length data \<le> MAX_FILE"
    and P: "P = fs_used s - inode_owns (inode_at ino s) s"
    and room: "card P + (length data + 511) div 512 + 2 \<le> 65454"
  shows "\<exists>s'. write_inode ino data s = (True, s')"
proof -
  define need where "need = (length data + 511) div 512"
  obtain i1 s1 where S: "write_inode ino data s =
       (case map_blocks need i1 s1 of (False, i, s) \<Rightarrow> write_file_abort i ino s
        | (True, i, s) \<Rightarrow> (case write_chunks [0..<need] need i data s of
            (False, s) \<Rightarrow> write_file_abort i ino s | (True, s) \<Rightarrow> (True, bm_flush (inode_write ino i s))))"
    "disk_ok s1" "fs_used s1 = P" "mapped i1 s1 [] []" "length (i_name i1) = 32"
    by (rule write_inode_start [OF assms(1-5) need_def]) (rule that)
  have n276: "need \<le> 276" using assms(4) by (simp add: need_def fs_const_defs)
  have "finite P" using S(3) by (auto simp: fs_used_def)
  then have "fst (map_blocks need i1 s1)"
    using map_blocks_full [OF S(2,4), of P need] S(3) n276 room by (simp add: need_def)
  then obtain i3 s3 where mb: "map_blocks need i1 s1 = (True, i3, s3)" by (metis eq_fst_iff)
  obtain bs ts where M: "mapped i3 s3 bs ts" "length bs = need" "i3 = i1\<lparr>i_blocks := i_blocks i3\<rparr>"
    "keeps P s1 s3" "P \<subseteq> fs_used s3" "unat ` (set bs \<union> set ts) \<inter> P = {}"
    using map_blocks_ok [OF S(2,4) _ _ _ _ mb, of P] n276 S(3) by auto
  have "i_name i3 = i_name i1" by (subst M(3)) simp
  then have wf3: "wf_inode i3" using S(5) mappedD(1) [OF M(1)] by (simp add: wf_inode_def)
  obtain s4 where "write_chunks [0..<need] need i3 data s3 = (True, s4)"
    using write_inode_finish [OF keeps_ok [OF M(4)] assms(2) wf3 M(1) M(2) [unfolded need_def] M(6,5)] M(2) by auto
  then show ?thesis using S(1) mb by simp
qed

lemma write_inode_roundtrip:
  assumes "disk_ok s" "ino < INO_COUNT" "write_inode ino data s = (True, s')"
  shows "fst (read_inode ino maxlen s') = Some (take maxlen data) \<and> disk_ok s' \<and> length data \<le> MAX_FILE"
proof -
  obtain i bs ts where S: "inode_at ino s' = i" "i_type i = FT_FILE" "unat (i_size i) = length data"
    "mapped i s' bs ts" "length bs = (length data + 511) div 512"
    "\<forall>k < length bs. sectors s' (data_addr (bs ! k)) = file_block (length bs) data k" "disk_ok s'"
    "length data \<le> MAX_FILE"
    using write_inode_state [OF assms refl] by blast
  define r where "r = min (length data) maxlen"
  define s0 where "s0 = s'\<lparr>sec := sectors s' (INO_LBA + ino div 4)\<rparr>"
  have ok0: "disk_ok s0" and m0: "mapped i s0 bs ts" using S(4,7) by (simp_all add: s0_def)
  have rd: "inode_read ino s' = (i, s0)" using inode_read_ok [OF S(7) assms(2)] S(1) by (simp add: s0_def)
  have sub: "set [0..<(r + 511) div 512] \<subseteq> {..<length bs}"
    using div_le_mono [of "r + 511" "length data + 511" 512] by (auto simp: S(5) r_def)
  have "fst (read_inode ino maxlen s') = fst (read_chunks [0..<(r + 511) div 512] r i s0)"
    using S(2,3) by (auto simp: read_inode_def rd Let_def r_def min_def)
  also have "\<dots> = Some (concat (map (\<lambda>k. sub_bytes (sectors s0 (data_addr (bs ! k))) 0
      (chunk_len ((r - 1) div 512) r k)) [0..<(r + 511) div 512]))"
    using read_chunks_ok [OF ok0 m0 sub, of r] by auto
  also have "map (\<lambda>k. sub_bytes (sectors s0 (data_addr (bs ! k))) 0 (chunk_len ((r - 1) div 512) r k)) [0..<(r + 511) div 512]
      = map (\<lambda>k. sub_bytes data (k * 512) (chunk_len ((r - 1) div 512) r k)) [0..<(r + 511) div 512]"
    using sub S(5,6) file_block_window(1) [OF _ refl] by (auto simp: s0_def r_def)
  also have "concat \<dots> = take r data" by (rule chunks_take)
  finally show ?thesis using S(7,8) by (simp add: r_def min_def)
qed

lemmas write_inode_readback = write_inode_roundtrip [THEN conjunct1]

text \<open>
  What is written is read back: after a successful write of at most 141312 bytes to a file's
  inode, reading any number of bytes from the start of that file returns exactly the beginning of
  the data, whether it is spread over direct blocks only or over one or two indirect tables.
\<close>

theorem file_write_read:
  assumes "disk_ok s" "ino < INO_COUNT" "write_inode ino data s = (True, s')"
  shows "fst (read_inode ino maxlen s') = Some (take maxlen data) \<and> disk_ok s' \<and> length data \<le> MAX_FILE"
  by (rule write_inode_roundtrip [OF assms])

definition fs_ex :: cofeufs where
  "fs_ex = \<lparr>ata_present = True, bad_sector = (\<lambda>_. False),
     sectors = (\<lambda>a. if a = INO_LBA then replicate 32 0 @ [1] @ replicate 479 0 else replicate 512 0),
     super = dec_super (replicate 64 0), bm = replicate 8192 0, sec = replicate 512 0, mounted = True\<rparr>"

lemma fs_ex_ok: "disk_ok fs_ex"
  by (simp add: disk_ok_def fs_ex_def)

lemma fs_ex_used: "fs_used fs_ex = {}"
  by (auto simp: fs_used_def used_below_def fs_ex_def unat_DATA_COUNT)

lemma fs_ex_type: "i_type (inode_at 0 fs_ex) = FT_FILE"
  by (simp add: inode_at_def dec_inode_def fs_ex_def sub_bytes_def un16_def FT_FILE_def)

lemma fs_ex_write: "length data \<le> MAX_FILE \<Longrightarrow> \<exists>s'. write_inode 0 data fs_ex = (True, s')"
  by (rule write_inode_succeeds [OF fs_ex_ok _ fs_ex_type _ refl])
    (auto simp: fs_ex_used fs_const_defs)

theorem file_write_read_witness:
  "disk_ok fs_ex \<and> (\<exists>s'. write_inode 0 (replicate 100000 7) fs_ex = (True, s')
      \<and> fst (read_inode 0 3 s') = Some [7, 7, 7])"
proof -
  obtain s' where w: "write_inode 0 (replicate 100000 7) fs_ex = (True, s')"
    using fs_ex_write [of "replicate 100000 7"] by (auto simp: fs_const_defs)
  have "take 3 (replicate 100000 (7 :: u8)) = replicate 3 7" by simp
  moreover have "replicate 3 (7 :: u8) = [7, 7, 7]" by (simp add: numeral_eq_Suc)
  ultimately have t3: "take 3 (replicate 100000 (7 :: u8)) = [7, 7, 7]" by simp
  show ?thesis
    using file_write_read [OF fs_ex_ok _ w, of 3] fs_ex_ok w t3 by (auto simp: INO_COUNT_def)
qed


text \<open>
  C5. A write fails only for a reason: to a file, of at most 141312 bytes, with enough free blocks
  (counting the file's own, which are released first) for its data and two tables, \<^verbatim>\<open>write_file\<close>
  succeeds; and it touches nothing it does not own: every data block in use by anything else keeps
  its contents and stays allocated, and every other inode is unchanged.
\<close>

theorem file_write_isolated:
  assumes "disk_ok s" "ino < INO_COUNT" "i_type (inode_at ino s) = FT_FILE" "length data \<le> MAX_FILE"
    and P: "P = fs_used s - inode_owns (inode_at ino s) s"
    and room: "card P + (length data + 511) div 512 + 2 \<le> 65454"
  shows "\<exists>s'. write_inode ino data s = (True, s') \<and> P \<subseteq> fs_used s'
     \<and> (\<forall>b < DATA_COUNT. unat b \<in> P \<longrightarrow> sectors s' (data_addr b) = sectors s (data_addr b))
     \<and> (\<forall>n < INO_COUNT. n \<noteq> ino \<longrightarrow> inode_at n s' = inode_at n s)"
  using write_inode_succeeds [OF assms] write_inode_state [OF assms(1,2) _ P] by blast



theorem file_write_isolated_witness:
  "disk_ok fs_ex \<and> fs_used fs_ex = {} \<and> (\<exists>s'. write_inode 0 [1, 2, 3] fs_ex = (True, s') \<and> inode_at 5 s' = inode_at 5 fs_ex)"
  using file_write_isolated [OF fs_ex_ok _ fs_ex_type _ refl, of "[1, 2, 3]"] fs_ex_ok fs_ex_used
  by (auto simp: fs_const_defs)

end
