(* ===== verification/Fs.thy ===== *)
theory Fs
  imports Fs_File
begin

text \<open>
  The upper half of the file system, \<^verbatim>\<open>kernel/cofeufs.cpp\<close>: directories (12 entries of 40 bytes per
  block), path resolution, formatting and mounting, and the operations of the interface in
  \<^verbatim>\<open>include/kernel.h\<close>: create, mkdir, write, append, read, stat, list, remove. A path is a byte string
  without zero bytes; a null path behaves like the empty one. Names inside directory entries are
  read up to their terminating zero. Recursive removal follows the tree on disk with a fuel
  argument that bounds the depth of the recursion (\<open>None\<close>: the depth was exceeded).
\<close>

definition cname :: "bytes \<Rightarrow> bytes" where
  "cname bs = takeWhile (\<lambda>c. c \<noteq> 0) bs"

text \<open>\<^verbatim>\<open>strncpy(e.name, name, 31); e.name[31] = 0;\<close>\<close>

definition name_field :: "bytes \<Rightarrow> bytes" where
  "name_field name = take 31 (name @ replicate 31 0) @ [0]"

definition DOT :: bytes where "DOT = [46]"
definition DOTDOT :: bytes where "DOTDOT = [46, 46]"

definition dir_used :: "inode \<Rightarrow> nat" where
  "dir_used d = unat (i_size d div 40)"

definition dir_slot_read :: "inode \<Rightarrow> nat \<Rightarrow> cofeufs \<Rightarrow> dirent option \<times> cofeufs" where
  "dir_slot_read d slot s =
     (let blk = slot div DE_PER_BLK; off = (slot mod DE_PER_BLK) * 40
      in if MAX_BLOCKS \<le> blk \<or> i_blocks d ! blk = NOBLK then (None, s)
         else
           let s = disk_read (DATA_LBA + i_blocks d ! blk) s
           in (Some (dec_dirent (sub_bytes (sec s) off 40)), s))"

definition dir_slot_write :: "inode \<Rightarrow> nat \<Rightarrow> dirent \<Rightarrow> cofeufs \<Rightarrow> bool \<times> cofeufs" where
  "dir_slot_write d slot e s =
     (let blk = slot div DE_PER_BLK; off = (slot mod DE_PER_BLK) * 40
      in if MAX_BLOCKS \<le> blk \<or> i_blocks d ! blk = NOBLK then (False, s)
         else
           let s = disk_read (DATA_LBA + i_blocks d ! blk) s;
               s = s\<lparr>sec := put_bytes (sec s) off (enc_dirent e)\<rparr>
           in (True, disk_write (DATA_LBA + i_blocks d ! blk) s))"

fun dir_find_from :: "nat list \<Rightarrow> inode \<Rightarrow> bytes \<Rightarrow> cofeufs \<Rightarrow> (dirent \<times> nat) option \<times> cofeufs" where
  "dir_find_from [] d name s = (None, s)"
| "dir_find_from (i # is) d name s =
     (case dir_slot_read d i s of
        (None, s) \<Rightarrow> (None, s)
      | (Some e, s) \<Rightarrow>
          if d_ino e \<noteq> 0 \<and> cname (d_name e) = name then (Some (e, i), s)
          else if name = DOTDOT \<and> cname (d_name e) = DOTDOT then (Some (e, i), s)
          else dir_find_from is d name s)"

definition dir_find :: "inode \<Rightarrow> bytes \<Rightarrow> cofeufs \<Rightarrow> (dirent \<times> nat) option \<times> cofeufs" where
  "dir_find d name s = dir_find_from [0..<dir_used d] d name s"

text \<open>The search of \<^verbatim>\<open>dir_add\<close> for a slot to reuse.\<close>

fun dir_free_slot :: "nat list \<Rightarrow> inode \<Rightarrow> cofeufs \<Rightarrow> (dirent \<times> nat) option \<times> cofeufs" where
  "dir_free_slot [] d s = (None, s)"
| "dir_free_slot (i # is) d s =
     (case dir_slot_read d i s of
        (None, s) \<Rightarrow> (None, s)
      | (Some e, s) \<Rightarrow>
          if d_ino e = 0 \<and> d_name e ! 0 = 0 then (Some (e, i), s) else dir_free_slot is d s)"

text \<open>The block of \<^verbatim>\<open>dir_add\<close> for the next entry: the last one, or a new one.\<close>

definition next_block :: "nat \<Rightarrow> inode \<Rightarrow> cofeufs \<Rightarrow> bool \<times> inode \<times> cofeufs" where
  "next_block blk d s =
     (if i_blocks d ! blk = NOBLK
      then (case block_alloc s of
              (None, s) \<Rightarrow> (False, d, s)
            | (Some idx, s) \<Rightarrow>
                let d = set_block blk idx d; s = s\<lparr>sec := replicate 512 0\<rparr>
                in (True, d, disk_write (DATA_LBA + idx) s))
      else (True, d, s))"

definition dir_add :: "u32 \<Rightarrow> bytes \<Rightarrow> u32 \<Rightarrow> u16 \<Rightarrow> cofeufs \<Rightarrow> bool \<times> cofeufs" where
  "dir_add dirino name newino type s =
     (let (d, s) = inode_read dirino s
      in if i_type d \<noteq> FT_DIR then (False, s)
         else
           let n = dir_used d
           in case dir_free_slot [0..<n] d s of
                (Some (e, i), s) \<Rightarrow>
                  dir_slot_write d i (e\<lparr>d_ino := newino, d_type := ucast type, d_name := name_field name\<rparr>) s
              | (None, s) \<Rightarrow>
                  let blk = n div DE_PER_BLK; off = (n mod DE_PER_BLK) * 40
                  in if MAX_BLOCKS \<le> blk then (False, s)
                     else
                       let (okb, d, s) = next_block blk d s
                       in if \<not> okb then (False, s)
                          else
                            let e = \<lparr>d_ino = newino, d_name = name_field name, d_type = ucast type,
                                     d_pad = [0, 0, 0]\<rparr>;
                                s = disk_read (DATA_LBA + i_blocks d ! blk) s;
                                s = s\<lparr>sec := put_bytes (sec s) off (enc_dirent e)\<rparr>;
                                s = disk_write (DATA_LBA + i_blocks d ! blk) s;
                                d = d\<lparr>i_size := i_size d + 40\<rparr>;
                                s = inode_write dirino d s
                            in (True, bm_flush s))"

definition zero_dirent :: dirent where
  "zero_dirent = \<lparr>d_ino = 0, d_name = replicate 32 0, d_type = 0, d_pad = [0, 0, 0]\<rparr>"

definition zero_inode :: inode where
  "zero_inode = \<lparr>i_name = replicate 32 0, i_type = 0, i_rsv = 0, i_size = 0, i_blocks = replicate 22 0\<rparr>"

definition dir_remove :: "u32 \<Rightarrow> bytes \<Rightarrow> cofeufs \<Rightarrow> bool \<times> cofeufs" where
  "dir_remove dirino name s =
     (let (d, s) = inode_read dirino s
      in if i_type d \<noteq> FT_DIR then (False, s)
         else
           (case dir_find d name s of
              (None, s) \<Rightarrow> (False, s)
            | (Some (e, slot), s) \<Rightarrow> dir_slot_write d slot zero_dirent s))"


section \<open>Paths\<close>

definition path_comp :: "bytes \<Rightarrow> bytes" where
  "path_comp p = take 31 (takeWhile (\<lambda>c. c \<noteq> 47) p)"

definition path_rest :: "bytes \<Rightarrow> bytes" where
  "path_rest p = dropWhile (\<lambda>c. c = 47) (drop (length (path_comp p)) p)"

lemma path_rest_shorter: "p \<noteq> [] \<Longrightarrow> length (path_rest p) < length p"
proof -
  assume "p \<noteq> []"
  then obtain c cs where p: "p = c # cs" by (cases p) auto
  show ?thesis
  proof (cases "c = 47")
    case True
    then have "path_rest p = dropWhile (\<lambda>c. c = 47) cs" by (simp add: path_rest_def path_comp_def p)
    then show ?thesis using length_dropWhile_le [of "\<lambda>c. c = 47" cs] by (simp add: p)
  next
    case False
    then have pos: "0 < length (path_comp p)" by (simp add: path_comp_def p)
    have "length (path_rest p) \<le> length p - length (path_comp p)"
      using length_dropWhile_le [of "\<lambda>c. c = 47" "drop (length (path_comp p)) p"] by (simp only: path_rest_def length_drop)
    also have "\<dots> < length p" using pos \<open>p \<noteq> []\<close> by (intro diff_less) simp_all
    finally show ?thesis .
  qed
qed

function resolve_loop :: "u32 \<Rightarrow> bytes \<Rightarrow> cofeufs \<Rightarrow> u32 option \<times> cofeufs" where
  "resolve_loop cur p s =
     (if p = [] then (Some cur, s)
      else
        let comp = path_comp p; q = path_rest p
        in if comp = [] then if q = [] then (Some cur, s) else resolve_loop cur q s
           else if comp = DOT then resolve_loop cur q s
           else
             (case inode_read cur s of (d, s) \<Rightarrow>
                if i_type d \<noteq> FT_DIR then (None, s)
                else
                  (case dir_find d comp s of
                     (None, s) \<Rightarrow> (None, s)
                   | (Some (e, slot), s) \<Rightarrow> resolve_loop (d_ino e) q s)))"
  by pat_completeness auto
termination
  by (relation "measure (\<lambda>(cur, p, s). length p)") (auto intro: path_rest_shorter)

declare resolve_loop.simps [simp del]

definition resolve_from :: "u32 \<Rightarrow> bytes \<Rightarrow> cofeufs \<Rightarrow> u32 option \<times> cofeufs" where
  "resolve_from base path s =
     (if path \<noteq> [] \<and> hd path = 47 then resolve_loop (root_ino (super s)) (tl path) s
      else resolve_loop base path s)"

text \<open>The position of the last slash.\<close>

fun last_slash :: "bytes \<Rightarrow> nat option" where
  "last_slash [] = None"
| "last_slash (c # cs) =
     (case last_slash cs of Some k \<Rightarrow> Some (Suc k) | None \<Rightarrow> if c = 47 then Some 0 else None)"

definition split_last :: "u32 \<Rightarrow> bytes \<Rightarrow> cofeufs \<Rightarrow> (u32 \<times> bytes) option \<times> cofeufs" where
  "split_last base path s =
     (if path = [] then (None, s)
      else
        (case last_slash path of
           Some dl \<Rightarrow>
             let aft = drop (dl + 1) path
             in if aft = [] then (None, s)
                else if 95 \<le> dl then (None, s)
                else
                  let dirpart = take dl path;
                      (po, s) = (if hd path = 47 \<and> dl = 0 then (Some (root_ino (super s)), s)
                                 else resolve_from base dirpart s)
                  in (case po of
                        None \<Rightarrow> (None, s)
                      | Some parent \<Rightarrow> if 31 < length aft then (None, s) else (Some (parent, aft), s))
         | None \<Rightarrow> if 31 < length path then (None, s) else (Some (base, path), s)))"


section \<open>Formatting and creation\<close>

primrec zero_inodes :: "nat \<Rightarrow> cofeufs \<Rightarrow> cofeufs" where
  "zero_inodes 0 s = s"
| "zero_inodes (Suc i) s = disk_write (INO_LBA + of_nat i) (zero_inodes i s)"

definition fresh_super :: superblock where
  "fresh_super =
     \<lparr>magic = MAGIC, fs_start = SB_LBA, fs_blocks = DISK_BLOCKS - SB_LBA, bm_lba = BM_LBA,
      bm_blocks = of_nat BM_BLOCKS, ino_lba = INO_LBA, ino_blocks = of_nat INO_BLOCKS, data_lba = DATA_LBA,
      data_blocks = DATA_COUNT, ino_per_blk = of_nat INO_PER_BLK, ino_count = INO_COUNT, root_ino = 0,
      sb_pad = [0, 0, 0]\<rparr>"

text \<open>The block of a new directory: its entries \<^verbatim>\<open>.\<close> and \<^verbatim>\<open>..\<close>.\<close>

definition dots_block :: "u32 \<Rightarrow> u32 \<Rightarrow> bytes" where
  "dots_block self parent =
     (let dot = \<lparr>d_ino = self, d_name = DOT @ replicate 31 0, d_type = ucast FT_DIR, d_pad = [0, 0, 0]\<rparr>;
          ddot = \<lparr>d_ino = parent, d_name = DOTDOT @ replicate 30 0, d_type = ucast FT_DIR, d_pad = [0, 0, 0]\<rparr>
      in put_bytes (put_bytes (replicate 512 0) 0 (enc_dirent dot)) 40 (enc_dirent ddot))"

definition format :: "cofeufs \<Rightarrow> cofeufs" where
  "format s =
     (let s = s\<lparr>bm := replicate 8192 0, super := fresh_super\<rparr>;
          s = s\<lparr>sec := replicate 512 0\<rparr>;
          s = zero_inodes INO_BLOCKS s;
          root = zero_inode\<lparr>i_name := [47] @ replicate 31 0, i_type := FT_DIR, i_size := 80\<rparr>;
          root = set_block 0 0 (inode_reset root);
          s = s\<lparr>bm := bit_set (bm s) 0\<rparr>;
          s = inode_write 0 root s;
          s = s\<lparr>sec := dots_block 0 0\<rparr>;
          s = disk_write DATA_LBA s;
          s = write_super s
      in bm_flush s)"

text \<open>The search of \<^verbatim>\<open>create_inode\<close> for a free inode.\<close>

fun find_free_inode :: "nat list \<Rightarrow> cofeufs \<Rightarrow> u32 option \<times> cofeufs" where
  "find_free_inode [] s = (None, s)"
| "find_free_inode (i # is) s =
     (case inode_read (of_nat i) s of (t, s) \<Rightarrow>
        if i_type t = FT_FREE then (Some (of_nat i), s) else find_free_inode is s)"

definition create_inode :: "u32 \<Rightarrow> bytes \<Rightarrow> bool \<Rightarrow> cofeufs \<Rightarrow> bool \<times> cofeufs" where
  "create_inode base path is_dir s =
     (if \<not> mounted s then (False, s)
      else
        (case split_last base path s of
           (None, s) \<Rightarrow> (False, s)
         | (Some (parent, name), s) \<Rightarrow>
             (case resolve_from base path s of
                (Some existing, s) \<Rightarrow> (False, s)
              | (None, s) \<Rightarrow>
                  (case find_free_inode [unat (root_ino (super s))..<unat (ino_count (super s))] s of
                     (None, s) \<Rightarrow> (False, s)
                   | (Some ino, s) \<Rightarrow>
                       let ni = zero_inode\<lparr>i_name := name_field name, i_type := (if is_dir then FT_DIR else FT_FILE)\<rparr>;
                           ni = inode_reset ni;
                           (okb, ni, s) =
                             (if is_dir
                              then (case block_alloc s of
                                      (None, s) \<Rightarrow> (False, ni, s)
                                    | (Some idx, s) \<Rightarrow>
                                        let ni = (set_block 0 idx ni)\<lparr>i_size := 80\<rparr>;
                                            s = s\<lparr>sec := dots_block ino parent\<rparr>
                                        in (True, ni, disk_write (DATA_LBA + idx) s))
                              else (True, ni, s))
                       in if \<not> okb then (False, s)
                          else
                            let s = inode_write ino ni s
                            in (case dir_add parent name ino (i_type ni) s of
                                  (True, s) \<Rightarrow> (True, s)
                                | (False, s) \<Rightarrow>
                                    let (ni, s) = inode_free_blocks ni s
                                    in (False, inode_write ino zero_inode s))))))"

definition create_file :: "u32 \<Rightarrow> bytes \<Rightarrow> cofeufs \<Rightarrow> bool \<times> cofeufs" where
  "create_file base path s = create_inode base path False s"

definition mkdir :: "u32 \<Rightarrow> bytes \<Rightarrow> cofeufs \<Rightarrow> bool \<times> cofeufs" where
  "mkdir base path s = create_inode base path True s"

definition resolve :: "u32 \<Rightarrow> bytes \<Rightarrow> cofeufs \<Rightarrow> u32 option \<times> cofeufs" where
  "resolve base path s = (if \<not> mounted s then (None, s) else resolve_from base path s)"

definition system_dirs :: "bytes list" where
  "system_dirs = [[116, 101, 109, 112], [115, 121, 115], [117, 115, 112, 99]]"

fun ensure_dirs :: "bytes list \<Rightarrow> cofeufs \<Rightarrow> bool \<times> cofeufs" where
  "ensure_dirs [] s = (True, s)"
| "ensure_dirs (d # ds) s =
     (case resolve 0 d s of
        (Some ino, s) \<Rightarrow> ensure_dirs ds s
      | (None, s) \<Rightarrow> (case mkdir 0 d s of (False, s) \<Rightarrow> (False, s) | (True, s) \<Rightarrow> ensure_dirs ds s))"

definition ensure_system_dirs :: "cofeufs \<Rightarrow> bool \<times> cofeufs" where
  "ensure_system_dirs s = ensure_dirs system_dirs s"

definition mount :: "cofeufs \<Rightarrow> bool \<times> cofeufs" where
  "mount s =
     (let (okf, s) =
        (case read_super s of (True, s) \<Rightarrow> (True, s) | (False, s) \<Rightarrow> read_super (format s))
      in if \<not> okf then (False, s)
         else
           let s = bm_read s; s = s\<lparr>mounted := True\<rparr>; (r, s) = ensure_system_dirs s
           in (True, s))"


section \<open>The file interface\<close>

definition write_file :: "u32 \<Rightarrow> bytes \<Rightarrow> bytes \<Rightarrow> cofeufs \<Rightarrow> bool \<times> cofeufs" where
  "write_file base path data s =
     (if \<not> mounted s then (False, s)
      else
        (case resolve_from base path s of
           (Some ino, s) \<Rightarrow> write_inode ino data s
         | (None, s) \<Rightarrow>
             (case create_file base path s of
                (False, s) \<Rightarrow> (False, s)
              | (True, s) \<Rightarrow>
                  (case resolve_from base path s of
                     (None, s) \<Rightarrow> (False, s)
                   | (Some ino, s) \<Rightarrow> write_inode ino data s))))"

definition read_file :: "u32 \<Rightarrow> bytes \<Rightarrow> nat \<Rightarrow> cofeufs \<Rightarrow> bytes option \<times> cofeufs" where
  "read_file base path maxlen s =
     (if \<not> mounted s then (None, s)
      else (case resolve_from base path s of (None, s) \<Rightarrow> (None, s) | (Some ino, s) \<Rightarrow> read_inode ino maxlen s))"

text \<open>
  \<^verbatim>\<open>append_file\<close> tests \<^verbatim>\<open>in.size + len > MAX_FILE\<close> and rounds the size up in 32-bit arithmetic; when the
  sum wraps around, the last copy runs over the end of its static buffer: the result is then \<open>None\<close>.
\<close>

definition append_file :: "u32 \<Rightarrow> bytes \<Rightarrow> bytes \<Rightarrow> cofeufs \<Rightarrow> bool option \<times> cofeufs" where
  "append_file base path data s =
     (if \<not> mounted s then (Some False, s)
      else
        (case resolve_from base path s of
           (None, s) \<Rightarrow> (case write_file base path data s of (r, s) \<Rightarrow> (Some r, s))
         | (Some ino, s) \<Rightarrow>
             (case inode_read ino s of (i, s) \<Rightarrow>
                if i_type i \<noteq> FT_FILE then (Some False, s)
                else if MAX_FILE < unat (i_size i + of_nat (length data)) then (Some False, s)
                else
                  let cur = unat (i_size i)
                  in (case read_chunks [0..<unat ((i_size i + 511) div 512)] cur i s of
                        (None, s) \<Rightarrow> (Some False, s)
                      | (Some old, s) \<Rightarrow>
                          if MAX_FILE < cur + length data then (None, s)
                          else (case write_file base path (old @ data) s of (r, s) \<Rightarrow> (Some r, s))))))"

record entry_info =
  ei_name :: bytes
  ei_type :: u8
  ei_size :: u32

definition fs_stat :: "u32 \<Rightarrow> bytes \<Rightarrow> cofeufs \<Rightarrow> entry_info option \<times> cofeufs" where
  "fs_stat base path s =
     (if \<not> mounted s then (None, s)
      else
        (case resolve_from base path s of
           (None, s) \<Rightarrow> (None, s)
         | (Some ino, s) \<Rightarrow>
             (case inode_read ino s of (i, s) \<Rightarrow>
                (Some \<lparr>ei_name = name_field (cname (i_name i)), ei_type = ucast (i_type i), ei_size = i_size i\<rparr>, s))))"

text \<open>\<^verbatim>\<open>list\<close>: the sequence of calls of its callback.\<close>

fun list_from :: "nat list \<Rightarrow> inode \<Rightarrow> cofeufs \<Rightarrow> entry_info list \<times> cofeufs" where
  "list_from [] d s = ([], s)"
| "list_from (i # is) d s =
     (case dir_slot_read d i s of
        (None, s) \<Rightarrow> ([], s)
      | (Some e, s) \<Rightarrow>
          if d_ino e = 0 then list_from is d s
          else
            (case inode_read (d_ino e) s of (ci, s) \<Rightarrow>
             case list_from is d s of (es, s) \<Rightarrow>
               (\<lparr>ei_name = name_field (cname (d_name e)), ei_type = d_type e, ei_size = i_size ci\<rparr> # es, s)))"

definition fs_list :: "u32 \<Rightarrow> bytes \<Rightarrow> cofeufs \<Rightarrow> entry_info list \<times> cofeufs" where
  "fs_list base path s =
     (if \<not> mounted s then ([], s)
      else
        (case resolve_from base path s of
           (None, s) \<Rightarrow> ([], s)
         | (Some ino, s) \<Rightarrow>
             (case inode_read ino s of (d, s) \<Rightarrow>
                if i_type d \<noteq> FT_DIR then ([], s) else list_from [0..<dir_used d] d s)))"


section \<open>Removal\<close>

fun remove_inode_by_ino :: "nat \<Rightarrow> u32 \<Rightarrow> cofeufs \<Rightarrow> cofeufs option"
  and remove_children :: "nat \<Rightarrow> nat list \<Rightarrow> inode \<Rightarrow> cofeufs \<Rightarrow> cofeufs option" where
  "remove_inode_by_ino 0 ino s = None"
| "remove_inode_by_ino (Suc n) ino s =
     (if \<not> mounted s then Some s
      else
        (case inode_read ino s of (child, s) \<Rightarrow>
           (case (if i_type child = FT_DIR then remove_children n [0..<dir_used child] child s else Some s) of
              None \<Rightarrow> None
            | Some s \<Rightarrow>
                (case inode_free_blocks child s of (child, s) \<Rightarrow> Some (inode_write ino zero_inode s)))))"
| "remove_children n [] child s = Some s"
| "remove_children n (i # is) child s =
     (case dir_slot_read child i s of
        (None, s) \<Rightarrow> Some s
      | (Some ce, s) \<Rightarrow>
          if d_ino ce = 0 \<or> cname (d_name ce) = DOT \<or> cname (d_name ce) = DOTDOT
          then remove_children n is child s
          else (case remove_inode_by_ino n (d_ino ce) s of
                  None \<Rightarrow> None | Some s \<Rightarrow> remove_children n is child s))"

definition remove_inode_recursive :: "nat \<Rightarrow> u32 \<Rightarrow> bytes \<Rightarrow> bool \<Rightarrow> cofeufs \<Rightarrow> (bool \<times> cofeufs) option" where
  "remove_inode_recursive n dirino name recursive s =
     (case inode_read dirino s of (d, s) \<Rightarrow>
        if i_type d \<noteq> FT_DIR then Some (False, s)
        else
          (case dir_find d name s of
             (None, s) \<Rightarrow> Some (False, s)
           | (Some (e, slot), s) \<Rightarrow>
               if d_type e = ucast FT_DIR \<and> \<not> recursive then Some (False, s)
               else
                 (case inode_read (d_ino e) s of (child, s) \<Rightarrow>
                    (case (if i_type child = FT_DIR then remove_children n [0..<dir_used child] child s else Some s) of
                       None \<Rightarrow> None
                     | Some s \<Rightarrow>
                         (case inode_free_blocks child s of (child, s) \<Rightarrow>
                            let s = inode_write (d_ino e) zero_inode s;
                                (r, s) = dir_remove dirino name s
                            in Some (True, bm_flush s))))))"

definition remove_file :: "nat \<Rightarrow> u32 \<Rightarrow> bytes \<Rightarrow> bool \<Rightarrow> cofeufs \<Rightarrow> (bool \<times> cofeufs) option" where
  "remove_file n base path recursive s =
     (if \<not> mounted s then Some (False, s)
      else
        (case split_last base path s of
           (None, s) \<Rightarrow> Some (False, s)
         | (Some (parent, name), s) \<Rightarrow>
             if name = DOT \<or> name = DOTDOT then Some (False, s)
             else remove_inode_recursive n parent name recursive s))"

end
