(* ===== verification/Fs_Dir.thy ===== *)
theory Fs_Dir
  imports Fs
begin

text \<open>
  Directories as maps from names to inode numbers. \<open>dir_wf\<close> is the invariant of a directory on disk:
  its blocks are allocated, distinct and just enough for its entries, and no name occurs twice. Under
  it the operations of \<^verbatim>\<open>kernel/cofeufs.cpp\<close> on directories are the operations of a map, path
  resolution is the walk along the components of the path, and a write to a file leaves resolution
  as it was.
\<close>

section \<open>Entries\<close>

definition entry_at :: "inode \<Rightarrow> cofeufs \<Rightarrow> nat \<Rightarrow> dirent" where
  "entry_at d s slot = dec_dirent (sub_bytes (sectors s (data_addr (i_blocks d ! (slot div 12)))) ((slot mod 12) * 40) 40)"

definition matches :: "bytes \<Rightarrow> dirent \<Rightarrow> bool" where
  "matches name e \<longleftrightarrow> d_ino e \<noteq> 0 \<and> cname (d_name e) = name \<or> name = DOTDOT \<and> cname (d_name e) = DOTDOT"

definition free_entry :: "dirent \<Rightarrow> bool" where
  "free_entry e \<longleftrightarrow> d_ino e = 0 \<and> d_name e ! 0 = 0"

definition slot_ok :: "inode \<Rightarrow> nat \<Rightarrow> bool" where
  "slot_ok d slot \<longleftrightarrow> slot div 12 < 22 \<and> i_blocks d ! (slot div 12) < DATA_COUNT"

definition dir_lookup :: "inode \<Rightarrow> cofeufs \<Rightarrow> bytes \<Rightarrow> (dirent \<times> nat) option" where
  "dir_lookup d s name =
     map_option (\<lambda>i. (entry_at d s i, i)) (find (\<lambda>i. matches name (entry_at d s i)) [0..<dir_used d])"

text \<open>Only the sector buffer differs.\<close>

definition same_disk :: "cofeufs \<Rightarrow> cofeufs \<Rightarrow> bool" where
  "same_disk s s' \<longleftrightarrow> (\<exists>b. length b = 512 \<and> s' = s\<lparr>sec := b\<rparr>)"

lemma same_disk_refl: "disk_ok s \<Longrightarrow> same_disk s s"
  unfolding same_disk_def by (rule exI [of _ "sec s"]) simp

lemma same_disk_trans: "same_disk s s' \<Longrightarrow> same_disk s' s'' \<Longrightarrow> same_disk s s''"
  by (auto simp: same_disk_def)

lemma same_diskD:
  assumes "same_disk s s'"
  shows "disk_ok s \<Longrightarrow> disk_ok s'" "sectors s' = sectors s" "super s' = super s" "bm s' = bm s"
    "mounted s' = mounted s" "fs_used s' = fs_used s" "inode_at n s' = inode_at n s"
    "entry_at d s' k = entry_at d s k" "dir_lookup d s' name = dir_lookup d s name"
  using assms by (auto simp: same_disk_def inode_at_def entry_at_def dir_lookup_def)

lemma entry_at_sec [simp]: "entry_at d (s\<lparr>sec := b\<rparr>) k = entry_at d s k"
  by (simp add: entry_at_def)

lemma mod12_fits: "(slot mod 12) * 40 + 40 \<le> (512 :: nat)"
proof -
  have "slot mod 12 \<le> 11" using mod_less_divisor [of 12 slot] by linarith
  then show ?thesis by linarith
qed

lemma slot_NOBLK: "slot_ok d slot \<Longrightarrow> i_blocks d ! (slot div 12) \<noteq> NOBLK"
  by (auto simp: slot_ok_def data_not_NOBLK)

lemma dir_slot_read_ok:
  assumes "disk_ok s" "slot_ok d slot"
  shows "dir_slot_read d slot s = (Some (entry_at d s slot), s\<lparr>sec := sectors s (data_addr (i_blocks d ! (slot div 12)))\<rparr>)"
  using assms slot_NOBLK [OF assms(2)]
  by (simp add: dir_slot_read_def entry_at_def slot_ok_def data_addr_def Let_def DE_PER_BLK_def MAX_BLOCKS_def
      MAX_DIRECT_def MAX_INDIRECT_def)

lemma dir_slot_read_same:
  assumes "disk_ok s" "slot_ok d slot"
  obtains s' where "dir_slot_read d slot s = (Some (entry_at d s slot), s')" "same_disk s s'"
proof (rule that [OF dir_slot_read_ok [OF assms]])
  show "same_disk s (s\<lparr>sec := sectors s (data_addr (i_blocks d ! (slot div 12)))\<rparr>)"
    unfolding same_disk_def using disk_ok_lengths(1) [OF assms(1)] by blast
qed

lemma dir_find_from_ok:
  "disk_ok s \<Longrightarrow> \<forall>i \<in> set is. slot_ok d i \<Longrightarrow>
     \<exists>s'. dir_find_from is d name s
        = (map_option (\<lambda>i. (entry_at d s i, i)) (find (\<lambda>i. matches name (entry_at d s i)) is), s') \<and> same_disk s s'"
proof (induction "is" arbitrary: s)
  case Nil
  then show ?case by (simp add: same_disk_refl)
next
  case (Cons i "is")
  obtain s1 where r: "dir_slot_read d i s = (Some (entry_at d s i), s1)" "same_disk s s1"
    by (rule dir_slot_read_same [of s d i]) (use Cons.prems in auto)
  obtain s2 where q: "dir_find_from is d name s1
      = (map_option (\<lambda>i. (entry_at d s1 i, i)) (find (\<lambda>i. matches name (entry_at d s1 i)) is), s2)" "same_disk s1 s2"
    using Cons.IH [of s1] Cons.prems same_diskD(1) [OF r(2)] by auto
  have "same_disk s s2" by (rule same_disk_trans [OF r(2) q(2)])
  then show ?case using r q same_diskD(8) [OF r(2)] by (auto simp: matches_def)
qed

lemma dir_find_ok:
  assumes "disk_ok s" "\<forall>i < dir_used d. slot_ok d i"
  shows "\<exists>s'. dir_find d name s = (dir_lookup d s name, s') \<and> same_disk s s'"
  unfolding dir_find_def dir_lookup_def using dir_find_from_ok [OF assms(1), of "[0..<dir_used d]" d name] assms(2) by simp

lemma dir_free_slot_ok:
  "disk_ok s \<Longrightarrow> \<forall>i \<in> set is. slot_ok d i \<Longrightarrow>
     \<exists>s'. dir_free_slot is d s
        = (map_option (\<lambda>i. (entry_at d s i, i)) (find (\<lambda>i. free_entry (entry_at d s i)) is), s') \<and> same_disk s s'"
proof (induction "is" arbitrary: s)
  case Nil
  then show ?case by (simp add: same_disk_refl)
next
  case (Cons i "is")
  obtain s1 where r: "dir_slot_read d i s = (Some (entry_at d s i), s1)" "same_disk s s1"
    by (rule dir_slot_read_same [of s d i]) (use Cons.prems in auto)
  obtain s2 where q: "dir_free_slot is d s1
      = (map_option (\<lambda>i. (entry_at d s1 i, i)) (find (\<lambda>i. free_entry (entry_at d s1 i)) is), s2)" "same_disk s1 s2"
    using Cons.IH [of s1] Cons.prems same_diskD(1) [OF r(2)] by auto
  have "same_disk s s2" by (rule same_disk_trans [OF r(2) q(2)])
  then show ?case using r q same_diskD(8) [OF r(2)] by (auto simp: free_entry_def)
qed


section \<open>The map of a table of entries\<close>

definition lookup_fn :: "(nat \<Rightarrow> dirent) \<Rightarrow> nat \<Rightarrow> bytes \<Rightarrow> u32 option" where
  "lookup_fn f n name = map_option (\<lambda>i. d_ino (f i)) (find (\<lambda>i. matches name (f i)) [0..<n])"

definition unique_names :: "(nat \<Rightarrow> dirent) \<Rightarrow> nat \<Rightarrow> bool" where
  "unique_names f n \<longleftrightarrow> (\<forall>i < n. \<forall>j < n. \<forall>name. matches name (f i) \<and> matches name (f j) \<longrightarrow> i = j)"

lemma matches_inj: "matches a e \<Longrightarrow> matches b e \<Longrightarrow> a = b"
  by (auto simp: matches_def)

lemma lookup_fn_None: "lookup_fn f n name = None \<longleftrightarrow> (\<forall>i < n. \<not> matches name (f i))"
  by (auto simp: lookup_fn_def find_None_iff)

lemma unique_names_cong: "\<forall>i < n. f i = g i \<Longrightarrow> unique_names f n = unique_names g n"
  by (simp add: unique_names_def)

lemma lookup_fn_unique:
  assumes "unique_names f n" "i < n" "matches name (f i)"
  shows "lookup_fn f n name = Some (d_ino (f i))"
proof (cases "find (\<lambda>i. matches name (f i)) [0..<n]")
  case None
  then show ?thesis using assms by (auto simp: find_None_iff)
next
  case (Some j)
  then have "j < n" "matches name (f j)" by (auto simp: find_Some_iff)
  then have "j = i" using assms unfolding unique_names_def by blast
  then show ?thesis using Some by (simp add: lookup_fn_def)
qed

lemma lookup_fn_other:
  assumes "\<forall>i < n. matches name (f i) = matches name (g i)" "\<forall>i < n. matches name (f i) \<longrightarrow> f i = g i"
  shows "lookup_fn f n name = lookup_fn g n name"
proof -
  have eq: "find (\<lambda>i. matches name (f i)) [0..<n] = find (\<lambda>i. matches name (g i)) [0..<n]"
    using assms(1) by (intro find_cong) auto
  show ?thesis
  proof (cases "find (\<lambda>i. matches name (g i)) [0..<n]")
    case (Some j)
    then have "j < n" "matches name (g j)" by (auto simp: find_Some_iff)
    then have "f j = g j" using assms by blast
    then show ?thesis by (simp add: lookup_fn_def eq Some)
  qed (simp add: lookup_fn_def eq)
qed

lemma lookup_fn_cong: "\<forall>i < n. f i = g i \<Longrightarrow> lookup_fn f n = lookup_fn g n"
  by (intro ext lookup_fn_other) auto

lemma find_snoc: "find P (xs @ [y]) = (case find P xs of Some x \<Rightarrow> Some x | None \<Rightarrow> if P y then Some y else None)"
  by (induction xs) auto

text \<open>Filling a slot that matched no name adds the name of the new entry.\<close>

lemma unique_names_fill:
  assumes "unique_names f n" "\<forall>nm. matches nm e \<longleftrightarrow> nm = name" "lookup_fn f n name = None"
  shows "unique_names (f(i := e)) n"
  using assms by (auto simp: unique_names_def lookup_fn_None)

lemma lookup_fn_fill:
  assumes u: "unique_names f n" and i: "i < n" "\<forall>nm. \<not> matches nm (f i)"
    and e: "\<forall>nm. matches nm e \<longleftrightarrow> nm = name" and none: "lookup_fn f n name = None"
  shows "lookup_fn (f(i := e)) n = (lookup_fn f n)(name \<mapsto> d_ino e)"
proof
  fix nm
  show "lookup_fn (f(i := e)) n nm = ((lookup_fn f n)(name \<mapsto> d_ino e)) nm"
  proof (cases "nm = name")
    case True
    then show ?thesis using lookup_fn_unique [OF unique_names_fill [OF u e none, of i] i(1), of name] e by simp
  next
    case False
    then show ?thesis using i e by (simp, intro lookup_fn_other) auto
  qed
qed

lemma unique_names_append:
  assumes "unique_names f n" "\<forall>nm. matches nm e \<longleftrightarrow> nm = name" "lookup_fn f n name = None"
  shows "unique_names (f(n := e)) (Suc n)"
  using assms by (auto simp: unique_names_def lookup_fn_None less_Suc_eq)

lemma lookup_fn_append:
  assumes u: "unique_names f n" and e: "\<forall>nm. matches nm e \<longleftrightarrow> nm = name" and none: "lookup_fn f n name = None"
  shows "lookup_fn (f(n := e)) (Suc n) = (lookup_fn f n)(name \<mapsto> d_ino e)"
proof
  fix nm
  show "lookup_fn (f(n := e)) (Suc n) nm = ((lookup_fn f n)(name \<mapsto> d_ino e)) nm"
  proof (cases "nm = name")
    case True
    then show ?thesis using lookup_fn_unique [OF unique_names_append [OF u e none], of n name] e by simp
  next
    case False
    have "lookup_fn (f(n := e)) (Suc n) nm = lookup_fn (f(n := e)) n nm"
      using False e by (simp add: lookup_fn_def find_snoc split: option.splits)
    also have "\<dots> = lookup_fn f n nm" by (intro lookup_fn_other) auto
    finally show ?thesis using False by simp
  qed
qed

text \<open>Clearing the slot of a name removes it.\<close>

lemma unique_names_clear: "unique_names f n \<Longrightarrow> \<forall>nm. \<not> matches nm e \<Longrightarrow> unique_names (f(i := e)) n"
  by (auto simp: unique_names_def)

lemma lookup_fn_clear:
  assumes u: "unique_names f n" and i: "i < n" "matches name (f i)" and e: "\<forall>nm. \<not> matches nm e"
  shows "lookup_fn (f(i := e)) n = (lookup_fn f n)(name := None)"
proof
  fix nm
  show "lookup_fn (f(i := e)) n nm = ((lookup_fn f n)(name := None)) nm"
  proof (cases "nm = name")
    case True
    have "\<not> matches name ((f(i := e)) j)" if "j < n" for j
      using u i e that unfolding unique_names_def by auto
    then show ?thesis using True by (simp add: lookup_fn_None)
  next
    case False
    then have "\<not> matches nm (f i)" using i(2) matches_inj by blast
    then show ?thesis using False i e by (simp, intro lookup_fn_other) auto
  qed
qed

definition dir_names :: "inode \<Rightarrow> cofeufs \<Rightarrow> bytes \<Rightarrow> u32 option" where
  "dir_names d s = lookup_fn (entry_at d s) (dir_used d)"

lemma dir_names_lookup: "dir_names d s name = map_option (\<lambda>(e, i). d_ino e) (dir_lookup d s name)"
  by (simp add: dir_names_def lookup_fn_def dir_lookup_def option.map_comp comp_def)

lemma dir_lookup_SomeD:
  "dir_lookup d s name = Some (e, i) \<Longrightarrow> i < dir_used d \<and> e = entry_at d s i \<and> matches name e"
  by (auto simp: dir_lookup_def find_Some_iff)


section \<open>The invariant of a directory\<close>

definition dir_wf :: "inode \<Rightarrow> cofeufs \<Rightarrow> bool" where
  "dir_wf d s \<longleftrightarrow> wf_inode d \<and> i_type d = FT_DIR \<and> unat (i_size d) = 40 * dir_used d \<and> dir_used d \<le> 264
     \<and> (\<forall>k < 22. if k * 12 < dir_used d then i_blocks d ! k < DATA_COUNT \<and> unat (i_blocks d ! k) \<in> fs_used s
                 else i_blocks d ! k = NOBLK)
     \<and> (\<forall>j < 22. \<forall>k < 22. j * 12 < dir_used d \<and> k * 12 < dir_used d \<and> i_blocks d ! j = i_blocks d ! k \<longrightarrow> j = k)
     \<and> unique_names (entry_at d s) (dir_used d)"

lemma dir_wf_slot:
  assumes "dir_wf d s" "i < dir_used d"
  shows "slot_ok d i" "i div 12 < 22" "i div 12 * 12 < dir_used d" "unat (i_blocks d ! (i div 12)) \<in> fs_used s"
proof -
  have le: "dir_used d \<le> 264" using assms(1) by (simp add: dir_wf_def)
  have k: "i div 12 < 22" using assms(2) le by (intro less_mult_imp_div_less) simp
  have m: "i div 12 * 12 < dir_used d" using assms(2) div_times_less_eq_dividend [of i 12] by linarith
  show "slot_ok d i" "i div 12 < 22" "i div 12 * 12 < dir_used d" "unat (i_blocks d ! (i div 12)) \<in> fs_used s"
    using assms(1) k m unfolding dir_wf_def slot_ok_def by auto
qed

lemma dir_wf_same_disk: "same_disk s s' \<Longrightarrow> dir_wf d s' = dir_wf d s"
proof -
  assume sd: "same_disk s s'"
  then have "entry_at d s' = entry_at d s" by (simp add: same_diskD ext)
  then show "dir_wf d s' = dir_wf d s" using sd by (simp add: dir_wf_def same_diskD(6))
qed

lemma dir_wf_find:
  assumes "disk_ok s" "dir_wf d s"
  shows "\<exists>s'. dir_find d name s = (dir_lookup d s name, s') \<and> same_disk s s'"
  using assms dir_wf_slot(1) by (intro dir_find_ok) auto

lemma dirent_at_wf: "disk_ok s \<Longrightarrow> wf_dirent (entry_at d s k)"
  unfolding entry_at_def using mod12_fits [of k] by (intro dirent_codec.dec_wf) simp

text \<open>Writing a slot changes that entry and no other.\<close>

lemma dir_slot_write_ok:
  assumes ok: "disk_ok s" and sl: "slot_ok d slot" and e: "wf_dirent e"
  obtains s' where "dir_slot_write d slot e s = (True, s')" "disk_ok s'" "bm s' = bm s" "super s' = super s"
    "mounted s' = mounted s" "\<And>n. n < INO_COUNT \<Longrightarrow> inode_at n s' = inode_at n s"
    "\<And>b. b < DATA_COUNT \<Longrightarrow> b \<noteq> i_blocks d ! (slot div 12) \<Longrightarrow> sectors s' (data_addr b) = sectors s (data_addr b)"
    "\<And>j. slot_ok d j \<Longrightarrow> (i_blocks d ! (j div 12) = i_blocks d ! (slot div 12) \<longrightarrow> j div 12 = slot div 12) \<Longrightarrow>
        entry_at d s' j = (if j = slot then e else entry_at d s j)"
proof -
  define b where "b = i_blocks d ! (slot div 12)"
  have b: "b < DATA_COUNT" "slot div 12 < 22" using sl by (simp_all add: slot_ok_def b_def)
  define v where "v = put_bytes (sectors s (data_addr b)) ((slot mod 12) * 40) (enc_dirent e)"
  define s' where "s' = s\<lparr>sec := v, sectors := (sectors s)(data_addr b := v)\<rparr>"
  have lv: "length v = 512" using mod12_fits [of slot] ok e dirent_codec.enc_length by (simp add: v_def)
  have w: "dir_slot_write d slot e s = (True, s')"
    using ok b slot_NOBLK [OF sl] lv
    by (simp add: dir_slot_write_def Let_def DE_PER_BLK_def MAX_BLOCKS_def MAX_DIRECT_def MAX_INDIRECT_def s'_def
        b_def [symmetric] v_def [symmetric] data_addr_def [symmetric])
  have ok': "disk_ok s'" using disk_ok_sectors [OF disk_ok_sec [OF ok lv] lv, of "data_addr b"] by (simp add: s'_def)
  have other: "sectors s' (data_addr c) = sectors s (data_addr c)" if "c < DATA_COUNT" "c \<noteq> b" for c
    using that b data_addr_inj [of c b] by (simp add: s'_def)
  have ino: "inode_at n s' = inode_at n s" if "n < INO_COUNT" for n
    using data_addr_not_inode [OF b(1) that] by (intro inode_at_frame) (simp add: s'_def)
  have ent: "entry_at d s' j = (if j = slot then e else entry_at d s j)"
    if j: "slot_ok d j" "i_blocks d ! (j div 12) = i_blocks d ! (slot div 12) \<longrightarrow> j div 12 = slot div 12" for j
  proof (cases "j div 12 = slot div 12")
    case False
    then have "i_blocks d ! (j div 12) \<noteq> b" using j(2) by (auto simp: b_def)
    then show ?thesis using other [of "i_blocks d ! (j div 12)"] j(1) False by (auto simp: entry_at_def slot_ok_def)
  next
    case True
    have ej: "entry_at d s' j = dec_dirent (sub_bytes v ((j mod 12) * 40) 40)"
      by (simp add: entry_at_def True b_def [symmetric] s'_def)
    show ?thesis
    proof (cases "j = slot")
      case True
      then show ?thesis using ej dirent_codec.slot_same [OF e] mod12_fits [of slot] ok by (simp add: v_def)
    next
      case False
      then have "j mod 12 \<noteq> slot mod 12" using True by (metis div_mult_mod_eq)
      then have "sub_bytes v ((j mod 12) * 40) 40 = sub_bytes (sectors s (data_addr b)) ((j mod 12) * 40) 40"
        unfolding v_def using mod12_fits [of slot] mod12_fits [of j] ok e
        by (intro dirent_codec.slot_other) simp_all
      then show ?thesis using ej False True by (simp add: entry_at_def b_def)
    qed
  qed
  show thesis
    by (rule that [OF w ok' _ _ _ ino _ ent]) (use other in \<open>auto simp: s'_def b_def\<close>)
qed


section \<open>Adding and removing a name\<close>

definition valid_name :: "bytes \<Rightarrow> bool" where
  "valid_name name \<longleftrightarrow> name \<noteq> [] \<and> length name \<le> 31 \<and> 0 \<notin> set name"

lemma length_name_field [simp]: "length (name_field name) = 32"
  by (simp add: name_field_def)

lemma cname_name_field: "valid_name name \<Longrightarrow> cname (name_field name) = name"
proof -
  assume "valid_name name"
  then have v: "length name \<le> 31" "\<forall>c \<in> set name. c \<noteq> 0" by (auto simp: valid_name_def)
  then have "name_field name = name @ 0 # replicate (31 - length name) 0"
    by (simp add: name_field_def min_def replicate_append_same)
  then show ?thesis using v(2) by (simp add: cname_def takeWhile_append2)
qed

lemma free_entry_no_match:
  assumes "free_entry e" "wf_dirent e"
  shows "\<not> matches name e"
proof -
  have "d_name e \<noteq> []" using assms(2) by (auto simp: wf_dirent_def)
  then have "cname (d_name e) = []" using assms(1) by (cases "d_name e") (auto simp: cname_def free_entry_def)
  then show ?thesis using assms(1) by (auto simp: matches_def free_entry_def DOTDOT_def)
qed

lemma matches_new:
  assumes "valid_name name" "d_ino e \<noteq> 0" "d_name e = name_field name"
  shows "matches nm e \<longleftrightarrow> nm = name"
  using assms cname_name_field [OF assms(1)] by (auto simp: matches_def)

text \<open>What an operation on the directory \<open>dirino\<close> leaves alone.\<close>

definition dir_frame :: "u32 \<Rightarrow> cofeufs \<Rightarrow> cofeufs \<Rightarrow> bool" where
  "dir_frame dirino s s' \<longleftrightarrow> disk_ok s' \<and> super s' = super s \<and> mounted s' = mounted s \<and> fs_used s \<subseteq> fs_used s'
     \<and> (\<exists>b. fs_used s' \<subseteq> insert b (fs_used s)) \<and> (\<forall>n < INO_COUNT. n \<noteq> dirino \<longrightarrow> inode_at n s' = inode_at n s)
     \<and> (\<forall>b < DATA_COUNT. unat b \<in> fs_used s \<and> b \<notin> set (i_blocks (inode_at dirino s))
           \<longrightarrow> sectors s' (data_addr b) = sectors s (data_addr b))"

lemma dir_wf_distinct:
  assumes "dir_wf d s" "i < dir_used d" "j < dir_used d" "i_blocks d ! (i div 12) = i_blocks d ! (j div 12)"
  shows "i div 12 = j div 12"
  using assms dir_wf_slot(2,3) [OF assms(1,2)] dir_wf_slot(2,3) [OF assms(1,3)] unfolding dir_wf_def by blast

lemma dir_wf_block_mem: "dir_wf d s \<Longrightarrow> i < dir_used d \<Longrightarrow> i_blocks d ! (i div 12) \<in> set (i_blocks d)"
  using dir_wf_slot(2) [of d s i] by (simp add: dir_wf_def wf_inode_def)

text \<open>Overwriting one of the entries of a directory.\<close>

lemma dir_overwrite:
  assumes ok: "disk_ok s" and ino: "dirino < INO_COUNT" and d: "d = inode_at dirino s" and wf: "dir_wf d s"
    and i: "i < dir_used d" and e: "wf_dirent e" and u: "unique_names ((entry_at d s)(i := e)) (dir_used d)"
  obtains s' where "dir_slot_write d i e s = (True, s')" "inode_at dirino s' = d" "dir_wf d s'" "dir_frame dirino s s'"
    "dir_names d s' = lookup_fn ((entry_at d s)(i := e)) (dir_used d)" "bm s' = bm s"
proof -
  obtain s' where w: "dir_slot_write d i e s = (True, s')" "disk_ok s'" "bm s' = bm s" "super s' = super s"
    "mounted s' = mounted s" "\<And>n. n < INO_COUNT \<Longrightarrow> inode_at n s' = inode_at n s"
    "\<And>b. b < DATA_COUNT \<Longrightarrow> b \<noteq> i_blocks d ! (i div 12) \<Longrightarrow> sectors s' (data_addr b) = sectors s (data_addr b)"
    "\<And>j. slot_ok d j \<Longrightarrow> (i_blocks d ! (j div 12) = i_blocks d ! (i div 12) \<longrightarrow> j div 12 = i div 12) \<Longrightarrow>
        entry_at d s' j = (if j = i then e else entry_at d s j)"
    by (rule dir_slot_write_ok [OF ok dir_wf_slot(1) [OF wf i] e]) (rule that)
  have ent: "\<forall>j < dir_used d. entry_at d s' j = ((entry_at d s)(i := e)) j"
    using w(8) dir_wf_slot(1) [OF wf] dir_wf_distinct [OF wf _ i] by (simp add: fun_upd_apply)
  have used: "fs_used s' = fs_used s" by (simp add: fs_used_def w(3))
  have "unique_names (entry_at d s') (dir_used d)" using u unique_names_cong [OF ent] by blast
  then have "dir_wf d s'" using wf unfolding dir_wf_def used by blast
  moreover have "dir_frame dirino s s'"
    unfolding dir_frame_def using w used dir_wf_block_mem [OF wf i] d by auto
  moreover have "dir_names d s' = lookup_fn ((entry_at d s)(i := e)) (dir_used d)"
    unfolding dir_names_def by (rule lookup_fn_cong [OF ent])
  ultimately show thesis using that w(1,3,6) ino d by auto
qed

lemma next_block_ok:
  assumes ok: "disk_ok s" and wf: "dir_wf d s" and n: "dir_used d < 264"
  obtains (full) "next_block (dir_used d div 12) d s = (False, d, s)" "{..<65454} \<subseteq> fs_used s"
  | (ready) d1 s1 where "next_block (dir_used d div 12) d s = (True, d1, s1)" "disk_ok s1" "super s1 = super s"
      "mounted s1 = mounted s" "fs_used s \<subseteq> fs_used s1" "d1 = d\<lparr>i_blocks := i_blocks d1\<rparr>" "length (i_blocks d1) = 22"
      "i_blocks d1 ! (dir_used d div 12) < DATA_COUNT" "unat (i_blocks d1 ! (dir_used d div 12)) \<in> fs_used s1"
      "\<forall>k < 22. k \<noteq> dir_used d div 12 \<longrightarrow> i_blocks d1 ! k = i_blocks d ! k"
      "\<forall>k < 22. k * 12 < dir_used d \<longrightarrow> i_blocks d1 ! k = i_blocks d ! k"
      "\<forall>k < 22. k * 12 < dir_used d \<and> i_blocks d1 ! k = i_blocks d1 ! (dir_used d div 12) \<longrightarrow> k = dir_used d div 12"
      "\<forall>b < DATA_COUNT. unat b \<in> fs_used s \<longrightarrow> sectors s1 (data_addr b) = sectors s (data_addr b)"
      "\<forall>n < INO_COUNT. inode_at n s1 = inode_at n s"
      "unat (i_blocks d1 ! (dir_used d div 12)) \<in> fs_used s \<longrightarrow> i_blocks d1 = i_blocks d"
      "fs_used s1 \<subseteq> insert (unat (i_blocks d1 ! (dir_used d div 12))) (fs_used s)"
proof -
  define k where "k = dir_used d div 12"
  have k: "k < 22" unfolding k_def using n by (intro less_mult_imp_div_less) simp
  have len: "length (i_blocks d) = 22" using wf by (simp add: dir_wf_def wf_inode_def)
  have wfk: "if k * 12 < dir_used d then i_blocks d ! k < DATA_COUNT \<and> unat (i_blocks d ! k) \<in> fs_used s
             else i_blocks d ! k = NOBLK" using wf k by (simp add: dir_wf_def)
  show thesis
  proof (cases "k * 12 < dir_used d")
    case True
    then have b: "i_blocks d ! k < DATA_COUNT" "unat (i_blocks d ! k) \<in> fs_used s" using wfk by auto
    have nb: "next_block k d s = (True, d, s)" using data_not_NOBLK [OF b(1)] by (simp add: next_block_def)
    have inj: "\<forall>j < 22. j * 12 < dir_used d \<and> i_blocks d ! j = i_blocks d ! k \<longrightarrow> j = k"
      using wf k True unfolding dir_wf_def by blast
    show thesis by (rule ready [of d s]) (use nb b ok len inj in \<open>simp_all add: k_def subset_insertI\<close>)
  next
    case False
    then have nb: "i_blocks d ! k = NOBLK" using wfk by simp
    from ok show thesis
    proof (cases s rule: block_alloc_cases)
      case full
      then show thesis using that(1) nb by (simp add: next_block_def k_def)
    next
      case (found idx)
      define s1 where "s1 = s\<lparr>bm := bit_set (bm s) (unat idx), sec := replicate 512 0,
        sectors := (sectors s)(data_addr idx := replicate 512 0)\<rparr>"
      have ok1: "disk_ok (s\<lparr>bm := bit_set (bm s) (unat idx), sec := replicate 512 0\<rparr>)" using ok by simp
      then have ok1': "disk_ok s1"
        using disk_ok_sectors [OF ok1, of "replicate 512 0" "data_addr idx"] by (simp add: s1_def)
      have e: "next_block k d s = (True, set_block k idx d, s1)"
        using nb found(1) ok1 by (simp add: next_block_def s1_def data_addr_def)
      have used: "fs_used s1 = insert (unat idx) (fs_used s)" using found(4) by (simp add: s1_def fs_used_def)
      have kn: "j \<noteq> k" if "j * 12 < dir_used d" for j using that False by auto
      have fresh: "i_blocks d ! j \<noteq> idx" if "j < 22" "j * 12 < dir_used d" for j
        using wf that found(3) unfolding dir_wf_def by metis
      have data: "sectors s1 (data_addr b) = sectors s (data_addr b)" if "b < DATA_COUNT" "unat b \<in> fs_used s" for b
        using that found(2,3) data_addr_inj [of b idx] by (auto simp: s1_def)
      have inod: "inode_at m s1 = inode_at m s" if "m < INO_COUNT" for m
        using data_addr_not_inode [OF found(2) that] by (intro inode_at_frame) (simp add: s1_def)
      show thesis
        by (rule ready [of "set_block k idx d" s1])
          (use e ok1' used found len k kn fresh data inod in \<open>auto simp: s1_def set_block_def k_def [symmetric] nth_list_update\<close>)
    qed
  qed
qed

lemma dir_used_nat: "dir_used d = unat (i_size d) div 40"
  by (simp add: dir_used_def unat_div_distrib)

lemma dir_used_grow:
  assumes "dir_wf d s" "dir_used d < 264" "i_size d2 = i_size d + 40"
  shows "dir_used d2 = Suc (dir_used d)" "unat (i_size d2) = 40 * Suc (dir_used d)"
proof -
  have sz: "unat (i_size d) = 40 * dir_used d" using assms(1) by (simp add: dir_wf_def)
  have "unat (i_size d + 40) = unat (i_size d) + unat (40 :: u32)"
    using assms(2) sz by (intro unat_plus_small) simp
  then show e: "unat (i_size d2) = 40 * Suc (dir_used d)" using sz assms(3) by simp
  show "dir_used d2 = Suc (dir_used d)" using e by (simp only: dir_used_nat [of d2]) simp
qed

lemma entry_at_blocks: "i_blocks d = i_blocks d' \<Longrightarrow> entry_at d s = entry_at d' s"
  by (simp add: entry_at_def fun_eq_iff)

lemma blocks_below: "k * 12 < Suc n \<Longrightarrow> k * 12 < n \<or> k = n div (12 :: nat)"
  by (cases "k * 12 = n") auto

lemma dir_append_ok:
  assumes ok: "disk_ok s" and ino: "dirino < INO_COUNT" and d: "d = inode_at dirino s" and wf: "dir_wf d s"
    and n: "dir_used d < 264" and e: "wf_dirent e" "\<forall>nm. matches nm e \<longleftrightarrow> nm = name"
    and none: "dir_names d s name = None" and nb: "next_block (dir_used d div 12) d s = (True, d1, s1)"
    and d2: "d2 = d1\<lparr>i_size := i_size d1 + 40\<rparr>" and s': "s' = bm_flush (inode_write dirino d2 (snd (dir_slot_write d1 (dir_used d) e s1)))"
  shows "inode_at dirino s' = d2" "dir_wf d2 s'" "dir_names d2 s' = (dir_names d s)(name \<mapsto> d_ino e)" "dir_frame dirino s s'"
proof -
  define m where "m = dir_used d"
  have N: "disk_ok s1" "super s1 = super s" "mounted s1 = mounted s" "fs_used s \<subseteq> fs_used s1"
      "d1 = d\<lparr>i_blocks := i_blocks d1\<rparr>" "length (i_blocks d1) = 22" "i_blocks d1 ! (m div 12) < DATA_COUNT"
      "unat (i_blocks d1 ! (m div 12)) \<in> fs_used s1" "\<forall>k < 22. k \<noteq> m div 12 \<longrightarrow> i_blocks d1 ! k = i_blocks d ! k"
      "\<forall>k < 22. k * 12 < m \<longrightarrow> i_blocks d1 ! k = i_blocks d ! k"
      "\<forall>k < 22. k * 12 < m \<and> i_blocks d1 ! k = i_blocks d1 ! (m div 12) \<longrightarrow> k = m div 12"
      "\<forall>b < DATA_COUNT. unat b \<in> fs_used s \<longrightarrow> sectors s1 (data_addr b) = sectors s (data_addr b)"
      "\<forall>n < INO_COUNT. inode_at n s1 = inode_at n s"
      "unat (i_blocks d1 ! (m div 12)) \<in> fs_used s \<longrightarrow> i_blocks d1 = i_blocks d"
      "fs_used s1 \<subseteq> insert (unat (i_blocks d1 ! (m div 12))) (fs_used s)"
    by (rule next_block_ok [OF ok wf n]; use nb in \<open>auto simp: m_def\<close>)+
  have k22: "m div 12 < 22" unfolding m_def using n by (intro less_mult_imp_div_less) simp
  have fld: "i_size d1 = i_size d" "i_type d1 = i_type d" "i_name d1 = i_name d" by (subst N(5), simp)+
  have slot: "slot_ok d1 m" using N(7) k22 by (simp add: slot_ok_def)
  obtain s2 where w: "dir_slot_write d1 m e s1 = (True, s2)" "disk_ok s2" "bm s2 = bm s1" "super s2 = super s1"
    "mounted s2 = mounted s1" "\<And>n. n < INO_COUNT \<Longrightarrow> inode_at n s2 = inode_at n s1"
    "\<And>b. b < DATA_COUNT \<Longrightarrow> b \<noteq> i_blocks d1 ! (m div 12) \<Longrightarrow> sectors s2 (data_addr b) = sectors s1 (data_addr b)"
    "\<And>j. slot_ok d1 j \<Longrightarrow> (i_blocks d1 ! (j div 12) = i_blocks d1 ! (m div 12) \<longrightarrow> j div 12 = m div 12) \<Longrightarrow>
        entry_at d1 s2 j = (if j = m then e else entry_at d1 s1 j)"
    by (rule dir_slot_write_ok [OF N(1) slot e(1)]) (rule that)
  have wf2: "wf_inode d2" using wf N(6) fld by (simp add: d2 wf_inode_def dir_wf_def)
  define s3 where "s3 = inode_write dirino d2 s2"
  note I = inode_write_ok [OF w(2) ino wf2 s3_def]
  have s'3: "s' = bm_flush s3" by (simp add: s' s3_def m_def [symmetric] w(1))
  note F = bm_flush_ok [OF I(1)]
  have data3: "sectors s' (data_addr b) = sectors s2 (data_addr b)" if "b < DATA_COUNT" for b
    using F(5) [OF that] I(3) data_addr_not_inode [OF that ino] by (simp add: s'3)
  have used: "fs_used s' = fs_used s1" by (simp add: fs_used_def s'3 F(2) I(4) w(3))
  have at': "inode_at k s' = (if k = dirino then d2 else inode_at k s)" if "k < INO_COUNT" for k
    using that F(6) [OF that] I(2) [OF that] w(6) [OF that] N(13) by (simp add: s'3)
  show "inode_at dirino s' = d2" using at' [OF ino] by simp
  have grow: "dir_used d2 = Suc m" "unat (i_size d2) = 40 * Suc m"
    using dir_used_grow [OF wf n, of d2] fld(1) by (simp_all add: m_def d2)
  have ent: "entry_at d2 s' j = ((entry_at d s)(m := e)) j" if j: "j < Suc m" for j
  proof -
    have jd: "j div 12 < 22" using j n by (intro less_mult_imp_div_less) (simp add: m_def)
    have jm: "j div 12 * 12 < Suc m" using j div_times_less_eq_dividend [of j 12] by linarith
    have below: "j div 12 * 12 < m" "slot_ok d j" "unat (i_blocks d ! (j div 12)) \<in> fs_used s" if "j \<noteq> m"
      using that j dir_wf_slot [OF wf, of j] by (simp_all add: m_def)
    have so: "slot_ok d1 j" using slot below(1,2) N(10) jd by (cases "j = m") (auto simp: slot_ok_def)
    have dst: "i_blocks d1 ! (j div 12) = i_blocks d1 ! (m div 12) \<longrightarrow> j div 12 = m div 12"
      using blocks_below [OF jm] N(11) jd by auto
    have "entry_at d2 s' j = entry_at d1 s2 j" using data3 so by (simp add: entry_at_def slot_ok_def d2)
    also have "\<dots> = (if j = m then e else entry_at d1 s1 j)" by (rule w(8) [OF so dst])
    also have "\<dots> = ((entry_at d s)(m := e)) j"
      using below N(10,12) jd by (auto simp: entry_at_def slot_ok_def)
    finally show ?thesis .
  qed
  have none': "lookup_fn (entry_at d s) m name = None" using none by (simp add: dir_names_def m_def)
  have uq: "unique_names (entry_at d s) m" using wf by (simp add: dir_wf_def m_def)
  have "dir_names d2 s' = lookup_fn ((entry_at d s)(m := e)) (Suc m)"
    unfolding dir_names_def grow by (rule lookup_fn_cong) (use ent in auto)
  then show "dir_names d2 s' = (dir_names d s)(name \<mapsto> d_ino e)"
    using lookup_fn_append [OF uq e(2) none'] by (simp add: dir_names_def m_def)
  have uq2: "unique_names (entry_at d2 s') (dir_used d2)"
    using unique_names_append [OF uq e(2) none'] unique_names_cong [of "Suc m" "entry_at d2 s'" "(entry_at d s)(m := e)"] ent
    unfolding grow by blast
  have blk: "if k * 12 < dir_used d2 then i_blocks d2 ! k < DATA_COUNT \<and> unat (i_blocks d2 ! k) \<in> fs_used s'
                 else i_blocks d2 ! k = NOBLK" if k: "k < 22" for k
  proof (cases "k * 12 < Suc m")
    case True
    have wfk: "k * 12 < m \<Longrightarrow> i_blocks d ! k < DATA_COUNT \<and> unat (i_blocks d ! k) \<in> fs_used s"
      using wf k by (simp add: dir_wf_def m_def)
    show ?thesis using blocks_below [OF True] True wfk N(4,7,8,10) k unfolding used grow by (auto simp: d2)
  next
    case False
    then have "k \<noteq> m div 12" using div_times_less_eq_dividend [of m 12] by auto
    then show ?thesis using False N(9) k wf unfolding used grow by (auto simp: d2 dir_wf_def m_def)
  qed
  have inj: "j = k" if "j < 22" "k < 22" "j * 12 < dir_used d2" "k * 12 < dir_used d2" "i_blocks d2 ! j = i_blocks d2 ! k" for j k
  proof -
    have "j * 12 < m \<or> j = m div 12" "k * 12 < m \<or> k = m div 12" using blocks_below that(3,4) unfolding grow by blast+
    moreover have "j * 12 < m \<and> k * 12 < m \<longrightarrow> j = k"
      using wf N(10) that(1,2,5) unfolding dir_wf_def m_def by (auto simp: d2)
    ultimately show ?thesis using N(11) that by (auto simp: d2)
  qed
  have "i_type d2 = FT_DIR" using wf fld(2) by (simp add: d2 dir_wf_def)
  moreover have "unat (i_size d2) = 40 * dir_used d2" "dir_used d2 \<le> 264" using grow n by (simp_all add: m_def)
  ultimately show "dir_wf d2 s'" unfolding dir_wf_def using wf2 uq2 blk inj by blast
  show "dir_frame dirino s s'"
    unfolding dir_frame_def
  proof (intro conjI allI impI)
    show "disk_ok s'" "super s' = super s" "mounted s' = mounted s" "fs_used s \<subseteq> fs_used s'"
      using F I w N(2,3,4) used by (simp_all add: s'3)
    show "\<exists>b. fs_used s' \<subseteq> insert b (fs_used s)" using N(15) used by blast
    show "inode_at k s' = inode_at k s" if "k < INO_COUNT" "k \<noteq> dirino" for k using at' that by simp
    fix b assume b: "b < DATA_COUNT" "unat b \<in> fs_used s \<and> b \<notin> set (i_blocks (inode_at dirino s))"
    have "b \<noteq> i_blocks d1 ! (m div 12)"
      using b(2) N(14) k22 d wf nth_mem [of "m div 12" "i_blocks d"] by (auto simp: dir_wf_def wf_inode_def)
    then show "sectors s' (data_addr b) = sectors s (data_addr b)" using data3 [OF b(1)] w(7) [OF b(1)] N(12) b by simp
  qed
qed

lemma dir_add_unfold:
  assumes ok: "disk_ok s" and ino: "dirino < INO_COUNT" and d: "d = inode_at dirino s" and wf: "dir_wf d s"
  obtains s0 where "same_disk s s0"
    "dir_add dirino name newino type s =
       (case find (\<lambda>i. free_entry (entry_at d s i)) [0..<dir_used d] of
          Some i \<Rightarrow> dir_slot_write d i ((entry_at d s i)\<lparr>d_ino := newino, d_type := ucast type, d_name := name_field name\<rparr>) s0
        | None \<Rightarrow>
            if 22 \<le> dir_used d div 12 then (False, s0)
            else (case next_block (dir_used d div 12) d s0 of
                    (False, d1, s1) \<Rightarrow> (False, s1)
                  | (True, d1, s1) \<Rightarrow>
                      (True, bm_flush (inode_write dirino (d1\<lparr>i_size := i_size d1 + 40\<rparr>)
                         (let b = DATA_LBA + i_blocks d1 ! (dir_used d div 12); s = disk_read b s1
                          in disk_write b (s\<lparr>sec := put_bytes (sec s) ((dir_used d mod 12) * 40)
                               (enc_dirent \<lparr>d_ino = newino, d_name = name_field name, d_type = ucast type, d_pad = [0, 0, 0]\<rparr>)\<rparr>))))))"
proof -
  define s1 where "s1 = s\<lparr>sec := sectors s (INO_LBA + dirino div 4)\<rparr>"
  have r: "inode_read dirino s = (d, s1)" using inode_read_ok [OF ok ino] d by (simp add: s1_def)
  have sd: "same_disk s s1" unfolding same_disk_def s1_def using disk_ok_lengths(1) [OF ok] by blast
  have ty: "i_type d = FT_DIR" using wf by (simp add: dir_wf_def)
  obtain s0 where f: "dir_free_slot [0..<dir_used d] d s1
      = (map_option (\<lambda>i. (entry_at d s i, i)) (find (\<lambda>i. free_entry (entry_at d s i)) [0..<dir_used d]), s0)" "same_disk s1 s0"
    using dir_free_slot_ok [OF same_diskD(1) [OF sd ok], of "[0..<dir_used d]" d] dir_wf_slot(1) [OF wf]
    by (auto simp: same_diskD(8) [OF sd])
  show thesis
  proof (rule that [of s0])
    show "same_disk s s0" by (rule same_disk_trans [OF sd f(2)])
  qed (simp add: dir_add_def r ty f(1) Let_def DE_PER_BLK_def MAX_BLOCKS_def MAX_DIRECT_def MAX_INDIRECT_def
      split: option.splits prod.splits bool.splits)
qed

lemma dir_add_ok:
  assumes ok: "disk_ok s" and ino: "dirino < INO_COUNT" and d: "d = inode_at dirino s" and wf: "dir_wf d s"
    and name: "valid_name name" and new: "newino \<noteq> 0" and none: "dir_names d s name = None"
  shows "(\<exists>s'. dir_add dirino name newino type s = (True, s') \<and> dir_wf (inode_at dirino s') s'
            \<and> dir_names (inode_at dirino s') s' = (dir_names d s)(name \<mapsto> newino) \<and> dir_frame dirino s s')
       \<or> (\<exists>s'. dir_add dirino name newino type s = (False, s') \<and> same_disk s s'
            \<and> (\<forall>i < dir_used d. \<not> free_entry (entry_at d s i)) \<and> (dir_used d = 264 \<or> {..<65454} \<subseteq> fs_used s))"
proof -
  obtain s0 where sd: "same_disk s s0" and A: "dir_add dirino name newino type s =
       (case find (\<lambda>i. free_entry (entry_at d s i)) [0..<dir_used d] of
          Some i \<Rightarrow> dir_slot_write d i ((entry_at d s i)\<lparr>d_ino := newino, d_type := ucast type, d_name := name_field name\<rparr>) s0
        | None \<Rightarrow>
            if 22 \<le> dir_used d div 12 then (False, s0)
            else (case next_block (dir_used d div 12) d s0 of
                    (False, d1, s1) \<Rightarrow> (False, s1)
                  | (True, d1, s1) \<Rightarrow>
                      (True, bm_flush (inode_write dirino (d1\<lparr>i_size := i_size d1 + 40\<rparr>)
                         (let b = DATA_LBA + i_blocks d1 ! (dir_used d div 12); s = disk_read b s1
                          in disk_write b (s\<lparr>sec := put_bytes (sec s) ((dir_used d mod 12) * 40)
                               (enc_dirent \<lparr>d_ino = newino, d_name = name_field name, d_type = ucast type, d_pad = [0, 0, 0]\<rparr>)\<rparr>))))))"
    by (rule dir_add_unfold [OF ok ino d wf]) (rule that)
  note S = same_diskD [OF sd]
  have ok0: "disk_ok s0" and d0: "d = inode_at dirino s0" and wf0: "dir_wf d s0"
    using S(1) [OF ok] d wf dir_wf_same_disk [OF sd] by (simp_all add: S(7))
  have ent0: "entry_at d s0 = entry_at d s" by (simp add: fun_eq_iff S(8))
  have frame: "dir_frame dirino s s'" if "dir_frame dirino s0 s'" for s'
    using that by (simp add: dir_frame_def S)
  have names0: "dir_names d s0 = dir_names d s" by (simp add: dir_names_def ent0)
  show ?thesis
  proof (cases "find (\<lambda>i. free_entry (entry_at d s i)) [0..<dir_used d]")
    case (Some i)
    then have i: "i < dir_used d" "free_entry (entry_at d s i)" by (auto simp: find_Some_iff)
    define e where "e = (entry_at d s i)\<lparr>d_ino := newino, d_type := ucast type, d_name := name_field name\<rparr>"
    have we: "wf_dirent e" using dirent_at_wf [OF ok, of d i] by (simp add: e_def wf_dirent_def)
    have me: "\<forall>nm. matches nm e \<longleftrightarrow> nm = name" using matches_new [OF name] new by (simp add: e_def)
    have nm: "\<forall>nm. \<not> matches nm (entry_at d s i)" using free_entry_no_match [OF i(2)] dirent_at_wf [OF ok] by blast
    have uq: "unique_names (entry_at d s) (dir_used d)" using wf by (simp add: dir_wf_def)
    note none' = none [unfolded dir_names_def]
    have u0: "unique_names ((entry_at d s0)(i := e)) (dir_used d)" unfolding ent0 by (rule unique_names_fill [OF uq me none'])
    obtain s' where "dir_slot_write d i e s0 = (True, s')" "inode_at dirino s' = d" "dir_wf d s'" "dir_frame dirino s0 s'"
      "dir_names d s' = lookup_fn ((entry_at d s0)(i := e)) (dir_used d)"
      by (rule dir_overwrite [OF ok0 ino d0 wf0 i(1) we u0]) (rule that)
    moreover have "d_ino e = newino" by (simp add: e_def)
    ultimately show ?thesis
      using A Some frame lookup_fn_fill [OF uq i(1) nm me none'] by (simp add: e_def [symmetric] ent0 dir_names_def)
  next
    case None
    then have nofree: "\<forall>i < dir_used d. \<not> free_entry (entry_at d s i)" by (simp add: find_None_iff)
    have le: "dir_used d \<le> 264" using wf by (simp add: dir_wf_def)
    show ?thesis
    proof (cases "dir_used d = 264")
      case True
      then show ?thesis using A None nofree sd by simp
    next
      case False
      then have n: "dir_used d < 264" using le by simp
      then have k: "dir_used d div 12 < 22" by (intro less_mult_imp_div_less) simp
      define e where "e = \<lparr>d_ino = newino, d_name = name_field name, d_type = ucast type, d_pad = [0, 0, 0]\<rparr>"
      have we: "wf_dirent e" by (simp add: e_def wf_dirent_def)
      have me: "\<forall>nm. matches nm e \<longleftrightarrow> nm = name" using matches_new [OF name] new by (simp add: e_def)
      show ?thesis
      proof (rule next_block_ok [OF ok0 wf0 n])
        assume nb: "next_block (dir_used d div 12) d s0 = (False, d, s0)" "{..<65454} \<subseteq> fs_used s0"
        then show ?thesis using A None k nofree sd S(6) by simp
      next
        fix d1 s1
        assume nb: "next_block (dir_used d div 12) d s0 = (True, d1, s1)" and lt: "i_blocks d1 ! (dir_used d div 12) < DATA_COUNT"
        have "(let b = DATA_LBA + i_blocks d1 ! (dir_used d div 12); s = disk_read b s1
               in disk_write b (s\<lparr>sec := put_bytes (sec s) ((dir_used d mod 12) * 40) (enc_dirent e)\<rparr>))
            = snd (dir_slot_write d1 (dir_used d) e s1)"
          using k data_not_NOBLK [OF lt]
          by (simp add: dir_slot_write_def Let_def DE_PER_BLK_def MAX_BLOCKS_def MAX_DIRECT_def MAX_INDIRECT_def)
        then have "dir_add dirino name newino type s = (True, bm_flush (inode_write dirino (d1\<lparr>i_size := i_size d1 + 40\<rparr>)
             (snd (dir_slot_write d1 (dir_used d) e s1))))"
          using A None k nb by (simp add: e_def [symmetric])
        moreover have "d_ino e = newino" by (simp add: e_def)
        ultimately show ?thesis
          using dir_append_ok [OF ok0 ino d0 wf0 n we me _ nb refl refl] none frame names0 by auto
      qed
    qed
  qed
qed

text \<open>
  \<^verbatim>\<open>dir_remove\<close> is the deletion from that map: it succeeds exactly when
  the name is bound, unbinds it, keeps every other binding and the well-formedness of the directory.
\<close>

theorem dir_remove_correct:
  assumes ok: "disk_ok s" and ino: "dirino < INO_COUNT" and d: "d = inode_at dirino s" and wf: "dir_wf d s"
  shows "\<exists>s'. dir_remove dirino name s = (dir_names d s name \<noteq> None, s') \<and> inode_at dirino s' = d \<and> dir_wf d s'
     \<and> dir_names d s' = (dir_names d s)(name := None) \<and> dir_frame dirino s s'"
proof -
  define s1 where "s1 = s\<lparr>sec := sectors s (INO_LBA + dirino div 4)\<rparr>"
  have r: "inode_read dirino s = (d, s1)" using inode_read_ok [OF ok ino] d by (simp add: s1_def)
  have sd: "same_disk s s1" unfolding same_disk_def s1_def using disk_ok_lengths(1) [OF ok] by blast
  have ty: "i_type d = FT_DIR" using wf by (simp add: dir_wf_def)
  obtain s0 where f: "dir_find d name s1 = (dir_lookup d s name, s0)" "same_disk s1 s0"
    using dir_wf_find [OF same_diskD(1) [OF sd ok]] wf same_diskD(9) [OF sd] dir_wf_same_disk [OF sd] by metis
  note S = same_diskD [OF same_disk_trans [OF sd f(2)]]
  have wf0: "dir_wf d s0" using dir_wf_same_disk [OF same_disk_trans [OF sd f(2)]] wf by simp
  have ent0: "entry_at d s0 = entry_at d s" by (simp add: fun_eq_iff S(8))
  have uq: "unique_names (entry_at d s) (dir_used d)" using wf by (simp add: dir_wf_def)
  have nz: "\<forall>nm. \<not> matches nm zero_dirent" by (simp add: matches_def zero_dirent_def cname_def DOTDOT_def)
  show ?thesis
  proof (cases "dir_lookup d s name")
    case None
    then have "dir_names d s name = None" by (simp add: dir_names_lookup)
    moreover have "dir_frame dirino s s0" using S ok by (auto simp: dir_frame_def)
    moreover have "dir_names d s0 = dir_names d s" by (simp add: dir_names_def ent0)
    moreover have "dir_remove dirino name s = (False, s0)" using None by (simp add: dir_remove_def r ty f(1))
    moreover have "inode_at dirino s0 = d" by (simp add: S(7) d)
    ultimately show ?thesis using wf0 by auto
  next
    case (Some ei)
    then obtain e i where ei: "dir_lookup d s name = Some (e, i)" by (cases ei) auto
    then have i: "i < dir_used d" "matches name (entry_at d s i)" using dir_lookup_SomeD by blast+
    have u0: "unique_names ((entry_at d s0)(i := zero_dirent)) (dir_used d)" unfolding ent0 by (rule unique_names_clear [OF uq nz])
    have d0: "d = inode_at dirino s0" by (simp add: S(7) d)
    have wz: "wf_dirent zero_dirent" by (simp add: wf_dirent_def zero_dirent_def)
    obtain s' where w: "dir_slot_write d i zero_dirent s0 = (True, s')" "inode_at dirino s' = d" "dir_wf d s'" "dir_frame dirino s0 s'"
      "dir_names d s' = lookup_fn ((entry_at d s0)(i := zero_dirent)) (dir_used d)"
      by (rule dir_overwrite [OF S(1) [OF ok] ino d0 wf0 i(1) wz u0]) (rule that)
    have "dir_remove dirino name s = (True, s')" using w(1) by (simp add: dir_remove_def r ty f(1) ei)
    moreover have "dir_frame dirino s s'" using w(4) by (simp add: dir_frame_def S)
    moreover have "dir_names d s name \<noteq> None" by (simp add: dir_names_lookup ei)
    moreover have "dir_names d s' = (dir_names d s)(name := None)"
      using w(5) lookup_fn_clear [OF uq i nz] by (simp add: ent0 dir_names_def)
    ultimately show ?thesis using w(2,3) by auto
  qed
qed

end
