(* ===== verification/Fs_Path.thy ===== *)
theory Fs_Path
  imports Fs_Dir
begin

text \<open>
  Path resolution and the operations of \<^verbatim>\<open>kernel/cofeufs.cpp\<close> that take a path. \<open>walk\<close> is the
  specification of resolution: it follows the components of the path through the maps of the
  directories. \<open>tree_ok\<close> is the invariant of the tree of directories.
\<close>

section \<open>Components of a path\<close>

fun split_slash :: "bytes \<Rightarrow> bytes list" where
  "split_slash [] = [[]]"
| "split_slash (c # cs) = (if c = 47 then [] # split_slash cs else (c # hd (split_slash cs)) # tl (split_slash cs))"

definition path_names :: "bytes \<Rightarrow> bytes list" where
  "path_names p = filter (\<lambda>c. c \<noteq> [] \<and> c \<noteq> DOT) (split_slash p)"

definition short_components :: "bytes \<Rightarrow> bool" where
  "short_components p \<longleftrightarrow> (\<forall>c \<in> set (split_slash p). length c \<le> 31)"

lemma split_slash_step:
  "split_slash p = takeWhile (\<lambda>c. c \<noteq> 47) p # (case dropWhile (\<lambda>c. c \<noteq> 47) p of [] \<Rightarrow> [] | c # r \<Rightarrow> split_slash r)"
  by (induction p) (auto split: list.splits)

lemma path_names_Nil [simp]: "path_names [] = []"
  by (simp add: path_names_def)

lemma path_names_slash [simp]: "path_names (47 # p) = path_names p"
  by (simp add: path_names_def)

lemma path_names_skip: "path_names (dropWhile (\<lambda>c. c = 47) p) = path_names p"
  by (induction p) auto

lemma short_components_slash: "short_components (47 # p) = short_components p"
  by (simp add: short_components_def)

lemma short_components_skip: "short_components p \<Longrightarrow> short_components (dropWhile (\<lambda>c. c = 47) p)"
  by (induction p) (auto simp: short_components_slash)

lemma path_step:
  assumes "short_components p"
  shows "path_comp p = takeWhile (\<lambda>c. c \<noteq> 47) p" "short_components (path_rest p)"
    "path_names p = (if path_comp p = [] \<or> path_comp p = DOT then [] else [path_comp p]) @ path_names (path_rest p)"
proof -
  define t d where "t = takeWhile (\<lambda>c. c \<noteq> 47) p" and "d = dropWhile (\<lambda>c. c \<noteq> 47) p"
  have sp: "split_slash p = t # (case d of [] \<Rightarrow> [] | c # r \<Rightarrow> split_slash r)"
    unfolding t_def d_def by (rule split_slash_step)
  have "length t \<le> 31" using assms sp by (simp add: short_components_def)
  then show comp: "path_comp p = takeWhile (\<lambda>c. c \<noteq> 47) p" by (simp add: path_comp_def t_def)
  have rest: "path_rest p = dropWhile (\<lambda>c. c = 47) d"
    by (simp add: path_rest_def comp dropWhile_eq_drop [symmetric] d_def)
  consider (fin) "d = []" | (slash) r where "d = 47 # r"
    using hd_dropWhile [of "\<lambda>c. c \<noteq> 47" p] unfolding d_def [symmetric] by (cases d) auto
  then have "short_components d \<and> path_names p = (if t = [] \<or> t = DOT then [] else [t]) @ path_names d"
  proof cases
    case fin
    then show ?thesis using sp by (simp add: path_names_def short_components_def)
  next
    case slash
    then show ?thesis using sp assms by (simp add: path_names_def short_components_def)
  qed
  then show "short_components (path_rest p)"
    "path_names p = (if path_comp p = [] \<or> path_comp p = DOT then [] else [path_comp p]) @ path_names (path_rest p)"
    using short_components_skip by (auto simp: rest comp t_def path_names_skip)
qed

text \<open>A component of more than 31 characters is resolved piecewise: after 31 characters as if a slash followed.\<close>

lemma path_component_split:
  assumes "length u = 31" "47 \<notin> set (u @ v)" "v \<noteq> []"
  shows "path_comp (u @ v) = u" "path_rest (u @ v) = v" "split_slash (u @ v) = [u @ v]"
proof -
  have tw: "takeWhile (\<lambda>c. c \<noteq> 47) (u @ v) = u @ v" using assms(2) by (auto simp: takeWhile_eq_all_conv)
  then show c: "path_comp (u @ v) = u" using assms(1) by (simp add: path_comp_def)
  have "path_rest (u @ v) = dropWhile (\<lambda>c. c = 47) v" by (simp add: path_rest_def c)
  then show "path_rest (u @ v) = v" using assms(2,3) by (cases v) auto
  have "dropWhile (\<lambda>c. c \<noteq> 47) (u @ v) = []" using assms(2) by (auto simp: dropWhile_eq_Nil_conv)
  then show "split_slash (u @ v) = [u @ v]" by (subst split_slash_step) (simp only: tw list.case)
qed


section \<open>Resolution\<close>

definition is_dir :: "u32 \<Rightarrow> cofeufs \<Rightarrow> bool" where
  "is_dir n s \<longleftrightarrow> i_type (inode_at n s) = FT_DIR"

fun walk :: "cofeufs \<Rightarrow> u32 \<Rightarrow> bytes list \<Rightarrow> u32 option" where
  "walk s cur [] = Some cur"
| "walk s cur (n # ns) =
     (if is_dir cur s
      then (case dir_names (inode_at cur s) s n of None \<Rightarrow> None | Some ino \<Rightarrow> walk s ino ns)
      else None)"

definition tree_ok :: "cofeufs \<Rightarrow> bool" where
  "tree_ok s \<longleftrightarrow> disk_ok s \<and> root_ino (super s) < INO_COUNT \<and>
     (\<forall>n < INO_COUNT. is_dir n s \<longrightarrow> dir_wf (inode_at n s) s
        \<and> (\<forall>name ino. dir_names (inode_at n s) s name = Some ino \<longrightarrow> ino < INO_COUNT))"

lemma tree_okD:
  assumes "tree_ok s"
  shows "disk_ok s" "root_ino (super s) < INO_COUNT"
    "n < INO_COUNT \<Longrightarrow> is_dir n s \<Longrightarrow> dir_wf (inode_at n s) s"
    "n < INO_COUNT \<Longrightarrow> is_dir n s \<Longrightarrow> dir_names (inode_at n s) s name = Some ino \<Longrightarrow> ino < INO_COUNT"
  using assms unfolding tree_ok_def by blast+

lemma same_disk_names: "same_disk s s' \<Longrightarrow> dir_names d s' = dir_names d s"
  unfolding dir_names_def by (rule lookup_fn_cong) (simp add: same_diskD)

lemma same_disk_is_dir: "same_disk s s' \<Longrightarrow> is_dir n s' = is_dir n s"
  by (simp add: is_dir_def same_diskD)

lemma same_disk_tree: "same_disk s s' \<Longrightarrow> tree_ok s \<Longrightarrow> tree_ok s'"
  by (simp add: tree_ok_def same_disk_is_dir same_disk_names same_diskD(1,3,7) dir_wf_same_disk)

lemma same_disk_walk: "same_disk s s' \<Longrightarrow> walk s' cur ns = walk s cur ns"
  by (induction ns arbitrary: cur) (auto simp: same_disk_is_dir same_disk_names same_diskD split: option.splits)

lemma walk_bound: "tree_ok s \<Longrightarrow> cur < INO_COUNT \<Longrightarrow> walk s cur ns = Some ino \<Longrightarrow> ino < INO_COUNT"
  by (induction ns arbitrary: cur) (auto dest: tree_okD(4) split: if_splits option.splits)

lemma inode_read_same:
  assumes "disk_ok s" "n < INO_COUNT"
  obtains s' where "inode_read n s = (inode_at n s, s')" "same_disk s s'"
  by (rule that [OF inode_read_ok [OF assms]]) (use disk_ok_lengths(1) [OF assms(1)] in \<open>auto simp: same_disk_def\<close>)

lemma resolve_loop_walk:
  "tree_ok s \<Longrightarrow> cur < INO_COUNT \<Longrightarrow> short_components p \<Longrightarrow>
     \<exists>s'. resolve_loop cur p s = (walk s cur (path_names p), s') \<and> same_disk s s'"
proof (induction "length p" arbitrary: cur p s rule: less_induct)
  case less
  note ok = tree_okD(1) [OF less.prems(1)]
  show ?case
  proof (cases "p = []")
    case True
    then show ?thesis using same_disk_refl [OF ok] by (simp add: resolve_loop.simps)
  next
    case False
    note st = path_step [OF less.prems(3)]
    note IH = less.hyps [OF path_rest_shorter [OF False]]
    show ?thesis
    proof (cases "path_comp p = [] \<or> path_comp p = DOT")
      case True
      then have "resolve_loop cur p s = resolve_loop cur (path_rest p) s"
        using False by (subst resolve_loop.simps) (auto simp: Let_def resolve_loop.simps [of _ "[]"])
      then show ?thesis using IH [OF less.prems(1,2) st(2)] st(3) True by simp
    next
      case nd: False
      obtain s1 where r: "inode_read cur s = (inode_at cur s, s1)" "same_disk s s1"
        by (rule inode_read_same [OF ok less.prems(2)])
      have names: "path_names p = path_comp p # path_names (path_rest p)" using st(3) nd by simp
      show ?thesis
      proof (cases "is_dir cur s")
        case notdir: False
        then have "resolve_loop cur p s = (None, s1)"
          using False nd r(1) by (subst resolve_loop.simps) (auto simp: Let_def is_dir_def)
        then show ?thesis using r(2) names notdir by simp
      next
        case dir: True
        note wf = tree_okD(3) [OF less.prems(1,2) dir]
        obtain s2 where f: "dir_find (inode_at cur s) (path_comp p) s1 = (dir_lookup (inode_at cur s) s (path_comp p), s2)" "same_disk s1 s2"
          using dir_wf_find [OF same_diskD(1) [OF r(2) ok]] wf same_diskD(9) [OF r(2)] dir_wf_same_disk [OF r(2)] by metis
        note sd = same_disk_trans [OF r(2) f(2)]
        have e: "resolve_loop cur p s = (case dir_lookup (inode_at cur s) s (path_comp p) of
             None \<Rightarrow> (None, s2) | Some (e, slot) \<Rightarrow> resolve_loop (d_ino e) (path_rest p) s2)"
          using False nd r(1) f(1) dir by (subst resolve_loop.simps) (auto simp: Let_def is_dir_def split: option.splits)
        show ?thesis
        proof (cases "dir_lookup (inode_at cur s) s (path_comp p)")
          case None
          then show ?thesis using e sd names dir by (simp add: dir_names_lookup)
        next
          case (Some x)
          then obtain d_e slot where x: "dir_lookup (inode_at cur s) s (path_comp p) = Some (d_e, slot)" by (cases x) auto
          then have nm: "dir_names (inode_at cur s) s (path_comp p) = Some (d_ino d_e)" by (simp add: dir_names_lookup)
          obtain s3 where "resolve_loop (d_ino d_e) (path_rest p) s2 = (walk s2 (d_ino d_e) (path_names (path_rest p)), s3)"
            "same_disk s2 s3"
            using IH [OF same_disk_tree [OF sd less.prems(1)] tree_okD(4) [OF less.prems(1,2) dir nm] st(2)] by blast
          then show ?thesis
            using e x nm names dir same_disk_walk [OF sd] same_disk_trans [OF sd] by simp
        qed
      qed
    qed
  qed
qed

definition path_start :: "u32 \<Rightarrow> bytes \<Rightarrow> cofeufs \<Rightarrow> u32" where
  "path_start base path s = (if path \<noteq> [] \<and> hd path = 47 then root_ino (super s) else base)"

lemma resolve_from_walk:
  assumes "tree_ok s" "base < INO_COUNT" "short_components path"
  shows "\<exists>s'. resolve_from base path s = (walk s (path_start base path s) (path_names path), s') \<and> same_disk s s'"
proof (cases "path \<noteq> [] \<and> hd path = 47")
  case True
  then obtain q where q: "path = 47 # q" by (cases path) auto
  have "short_components q" using assms(3) by (simp add: q short_components_slash)
  from resolve_loop_walk [OF assms(1) tree_okD(2) [OF assms(1)] this]
  show ?thesis by (simp add: resolve_from_def path_start_def q)
next
  case False
  then show ?thesis using resolve_loop_walk [OF assms] by (auto simp: resolve_from_def path_start_def)
qed


section \<open>Formatting\<close>

definition root_inode :: inode where
  "root_inode = \<lparr>i_name = 47 # replicate 31 0, i_type = FT_DIR, i_rsv = 0, i_size = 80, i_blocks = 0 # replicate 21 NOBLK\<rparr>"

lemma zero_inodes_ok:
  "disk_ok s \<Longrightarrow> sec s = replicate 512 0 \<Longrightarrow> k \<le> 64 \<Longrightarrow>
     zero_inodes k s = s\<lparr>sectors := \<lambda>a. if 2066 \<le> unat a \<and> unat a < 2066 + k then replicate 512 0 else sectors s a\<rparr>
     \<and> disk_ok (zero_inodes k s)"
proof (induction k)
  case (Suc k)
  have u: "unat (INO_LBA + of_nat k) = 2066 + k"
    using Suc.prems(3) by (subst unat_plus_small) (simp_all add: INO_LBA_def unat_of_nat)
  then have a: "(INO_LBA + of_nat k) AND 0x0FFFFFFF = INO_LBA + of_nat k" using Suc.prems(3) by (intro and_mask28) simp
  have IH: "disk_ok (zero_inodes k s)" "zero_inodes k s =
      s\<lparr>sectors := \<lambda>a. if 2066 \<le> unat a \<and> unat a < 2066 + k then replicate 512 0 else sectors s a\<rparr>" using Suc by auto
  have eq: "(b = INO_LBA + of_nat k) = (unat b = 2066 + k)" for b by (metis u word_unat_eq_iff)
  have w: "zero_inodes (Suc k) s = (zero_inodes k s)\<lparr>sectors := (sectors (zero_inodes k s))(INO_LBA + of_nat k := replicate 512 0)\<rparr>"
    using IH a Suc.prems(2) by simp
  have "disk_ok (zero_inodes (Suc k) s)" unfolding w by (rule disk_ok_sectors [OF IH(1)]) simp
  moreover have "zero_inodes (Suc k) s =
      s\<lparr>sectors := \<lambda>a. if 2066 \<le> unat a \<and> unat a < 2066 + Suc k then replicate 512 0 else sectors s a\<rparr>"
    unfolding w IH(2) by (auto simp: fun_eq_iff eq)
  ultimately show ?case by blast
next
  case 0
  have "(\<lambda>a. if 2066 \<le> unat a \<and> unat a < 2066 + 0 then replicate 512 0 else sectors s a) = sectors s" by (intro ext) auto
  with 0 show ?case by simp
qed

lemma dec_inode_zero: "dec_inode (replicate 128 0) = zero_inode"
proof -
  have "un16 [0, 0] = 0" "un32 [0, 0, 0, 0] = 0" by (simp_all add: un16_def un32_def)
  moreover have "replicate 2 (0 :: u8) = [0, 0]" "replicate 4 (0 :: u8) = [0, 0, 0, 0]" by (simp_all add: numeral_eq_Suc)
  moreover have "dec_u32s 22 (replicate 88 0) = replicate 22 0"
    using calculation by (intro nth_equalityI) (auto simp: dec_u32s_def u32_at_def sub_bytes_replicate)
  ultimately show ?thesis by (simp add: dec_inode_def zero_inode_def sub_bytes_replicate)
qed

lemma inode_at_zero: "sectors s (INO_LBA + n div 4) = replicate 512 0 \<Longrightarrow> inode_at n s = zero_inode"
proof -
  assume "sectors s (INO_LBA + n div 4) = replicate 512 0"
  then have "inode_at n s = dec_inode (replicate 128 0)"
    using ino_slot [of n] by (simp add: inode_at_def sub_bytes_replicate)
  also have "\<dots> = zero_inode" by (rule dec_inode_zero)
  finally show ?thesis .
qed

lemma format_ok:
  assumes ok: "disk_ok s"
  defines "s' \<equiv> format s"
  shows "disk_ok s'" "super s' = fresh_super" "mounted s' = mounted s" "inode_at 0 s' = root_inode"
    "n < INO_COUNT \<Longrightarrow> n \<noteq> 0 \<Longrightarrow> inode_at n s' = zero_inode" "sectors s' (data_addr 0) = dots_block 0 0"
    "fs_used s' = {0}" "sectors s' SB_LBA = put_bytes (replicate 512 0) 0 (enc_super fresh_super)"
    "\<exists>s7. s' = bm_flush s7 \<and> disk_ok s7"
proof -
  define s1 where "s1 = s\<lparr>bm := replicate 8192 0, super := fresh_super, sec := replicate 512 0\<rparr>"
  have ok1: "disk_ok s1" using ok unfolding disk_ok_def s1_def by simp
  have sec1: "sec s1 = replicate 512 0" by (simp add: s1_def)
  define s2 where "s2 = zero_inodes 64 s1"
  have Z: "disk_ok s2" "s2 = s1\<lparr>sectors := \<lambda>a. if 2066 \<le> unat a \<and> unat a < 2066 + 64 then replicate 512 0 else sectors s1 a\<rparr>"
    using zero_inodes_ok [OF ok1 sec1 order_refl] unfolding s2_def by blast+
  define s3 where "s3 = s2\<lparr>bm := bit_set (bm s2) 0\<rparr>"
  have ok3: "disk_ok s3" unfolding s3_def using Z(1) by (intro disk_ok_bm) simp_all
  define s4 where "s4 = inode_write 0 root_inode s3"
  have wf: "wf_inode root_inode" by (simp add: root_inode_def wf_inode_def)
  have i0: "(0 :: u32) < INO_COUNT" by (simp add: INO_COUNT_def)
  note W = inode_write_ok [OF ok3 i0 wf s4_def]
  define s5 where "s5 = s4\<lparr>sec := dots_block 0 0\<rparr>"
  have ld: "length (dots_block 0 0) = 512"
    by (simp add: dots_block_def Let_def dirent_codec.enc_length wf_dirent_def DOT_def DOTDOT_def)
  have ok5: "disk_ok s5" unfolding s5_def by (rule disk_ok_sec [OF W(1) ld])
  define s6 where "s6 = s5\<lparr>sectors := (sectors s5)(data_addr 0 := dots_block 0 0)\<rparr>"
  have ok6: "disk_ok s6" unfolding s6_def by (rule disk_ok_sectors [OF ok5 ld])
  have w6: "disk_write DATA_LBA s5 = s6" using ok5 by (simp add: s6_def s5_def data_addr_def)
  define sb where "sb = put_bytes (replicate 512 0) 0 (enc_super fresh_super)"
  have lsb: "length sb = 512"
    by (simp add: sb_def super_codec.enc_length wf_super_def fresh_super_def MAGIC_def)
  have sup6: "super s6 = fresh_super" using W(5) by (simp add: s6_def s5_def s3_def Z(2) s1_def)
  define s7 where "s7 = s6\<lparr>sec := sb, sectors := (sectors s6)(SB_LBA := sb)\<rparr>"
  have ok7: "disk_ok s7" using disk_ok_sectors [OF disk_ok_sec [OF ok6 lsb] lsb, of SB_LBA] by (simp add: s7_def)
  have w7: "write_super s6 = s7"
    using ok6 lsb by (simp add: write_super_def s7_def sup6 sb_def [symmetric] Let_def SB_LBA_def)
  have root: "set_block 0 0 (inode_reset (zero_inode\<lparr>i_name := [47] @ replicate 31 0, i_type := FT_DIR, i_size := 80\<rparr>)) = root_inode"
    by (simp add: root_inode_def set_block_def inode_reset_def zero_inode_def fs_const_defs numeral_eq_Suc)
  have f: "s' = bm_flush s7"
    using w6 w7 unfolding s'_def format_def Let_def INO_BLOCKS_def root
    by (simp add: s1_def [symmetric] s2_def [symmetric] s3_def [symmetric] s4_def [symmetric] s5_def [symmetric])
  show "\<exists>s7. s' = bm_flush s7 \<and> disk_ok s7" using f ok7 by blast
  note F = bm_flush_ok [OF ok7]
  have d0: "(0 :: u32) < DATA_COUNT" by (simp add: fs_const_defs)
  have at7: "inode_at m s7 = (if m = 0 then root_inode else zero_inode)" if "m < INO_COUNT" for m
  proof -
    have um: "unat (INO_LBA + m div 4) = 2066 + unat m div 4" "unat m < 256"
      using that inode_addr [OF that] by (auto simp: INO_COUNT_def word_less_nat_alt INO_LBA_def)
    have "INO_LBA + m div 4 \<noteq> SB_LBA"
    proof
      assume "INO_LBA + m div 4 = SB_LBA"
      then show False using um(1) by (simp add: SB_LBA_def)
    qed
    then have "inode_at m s7 = inode_at m s4"
      using data_addr_not_inode [OF d0 that] by (intro inode_at_frame) (simp add: s7_def s6_def s5_def)
    moreover have "unat m div 4 < 64" using um(2) by (intro less_mult_imp_div_less) simp
    then have "inode_at m s3 = zero_inode"
      using um by (intro inode_at_zero) (simp add: s3_def Z(2))
    ultimately show ?thesis using W(2) [OF that] by simp
  qed
  show "disk_ok s'" "super s' = fresh_super" "mounted s' = mounted s"
    using F W sup6 by (simp_all add: f s7_def s6_def s5_def s3_def Z(2) s1_def)
  show "inode_at 0 s' = root_inode" "n < INO_COUNT \<Longrightarrow> n \<noteq> 0 \<Longrightarrow> inode_at n s' = zero_inode"
    using F(6) at7 i0 by (simp_all add: f)
  show "sectors s' (data_addr 0) = dots_block 0 0"
    using F(5) [OF d0] by (simp add: f s7_def s6_def data_addr_def fs_const_defs)
  have "fs_used s' = used_below (bit_set (replicate 8192 0) 0) 65454"
    unfolding fs_used_def unat_DATA_COUNT f F(2) using W(4) by (simp add: s7_def s6_def s5_def s3_def Z(2) s1_def)
  also have "\<dots> = {0}" by (subst used_below_set) (auto simp: used_below_def)
  finally show "fs_used s' = {0}" .
  show "sectors s' SB_LBA = put_bytes (replicate 512 0) 0 (enc_super fresh_super)"
    using bm_flush_n_ok [OF ok7, of 16] by (simp add: f bm_flush_def BM_BLOCKS_def SB_LBA_def s7_def sb_def)
qed


definition dot_entry :: "u32 \<Rightarrow> dirent" where
  "dot_entry self = \<lparr>d_ino = self, d_name = DOT @ replicate 31 0, d_type = ucast FT_DIR, d_pad = [0, 0, 0]\<rparr>"

definition dotdot_entry :: "u32 \<Rightarrow> dirent" where
  "dotdot_entry parent = \<lparr>d_ino = parent, d_name = DOTDOT @ replicate 30 0, d_type = ucast FT_DIR, d_pad = [0, 0, 0]\<rparr>"

lemma dots_block_entries:
  "length (dots_block self parent) = 512"
  "dec_dirent (sub_bytes (dots_block self parent) 0 40) = dot_entry self"
  "dec_dirent (sub_bytes (dots_block self parent) 40 40) = dotdot_entry parent"
proof -
  have wf: "wf_dirent (dot_entry self)" "wf_dirent (dotdot_entry parent)"
    by (simp_all add: wf_dirent_def dot_entry_def dotdot_entry_def DOT_def DOTDOT_def)
  have e: "dots_block self parent = put_bytes (put_bytes (replicate 512 0) 0 (enc_dirent (dot_entry self))) 40 (enc_dirent (dotdot_entry parent))"
    by (simp add: dots_block_def dot_entry_def dotdot_entry_def Let_def)
  note l = dirent_codec.enc_length [OF wf(1)] dirent_codec.enc_length [OF wf(2)]
  show "length (dots_block self parent) = 512" by (simp add: e l)
  show "dec_dirent (sub_bytes (dots_block self parent) 40 40) = dotdot_entry parent"
    unfolding e by (rule dirent_codec.slot_same [OF wf(2)]) (simp add: l)
  have "sub_bytes (dots_block self parent) 0 40 = sub_bytes (put_bytes (replicate 512 0) 0 (enc_dirent (dot_entry self))) 0 40"
    unfolding e by (rule sub_put_other) (simp_all add: l)
  then show "dec_dirent (sub_bytes (dots_block self parent) 0 40) = dot_entry self"
    using dirent_codec.slot_same [OF wf(1), of 0 "replicate 512 0"] by simp
qed

lemma matches_dots:
  "matches name (dot_entry self) \<longleftrightarrow> self \<noteq> 0 \<and> name = DOT" "matches name (dotdot_entry parent) \<longleftrightarrow> name = DOTDOT"
  by (auto simp: matches_def dot_entry_def dotdot_entry_def cname_def DOT_def DOTDOT_def)

text \<open>A directory of one block that holds its entries \<^verbatim>\<open>.\<close> and \<^verbatim>\<open>..\<close> only.\<close>

lemma new_dir:
  assumes ok: "disk_ok s" and d: "wf_inode d" "i_type d = FT_DIR" "i_size d = 80" "i_blocks d = b # replicate 21 NOBLK"
    and b: "b < DATA_COUNT" "unat b \<in> fs_used s" "sectors s (data_addr b) = dots_block self parent"
  shows "dir_wf d s" "dir_names d s name = (if name = DOTDOT then Some parent else if self \<noteq> 0 \<and> name = DOT then Some self else None)"
proof -
  have u: "dir_used d = 2" by (simp add: dir_used_def d(3))
  have e: "entry_at d s 0 = dot_entry self" "entry_at d s 1 = dotdot_entry parent"
    by (simp_all add: entry_at_def d(4) b(3) dots_block_entries)
  have blk: "i_blocks d ! k = NOBLK" if "k < 22" "k \<noteq> 0" for k using that by (cases k) (simp_all add: d(4))
  have b0: "i_blocks d ! 0 = b" by (simp add: d(4))
  have ne: "DOT \<noteq> DOTDOT" by (simp add: DOT_def DOTDOT_def)
  have uq: "unique_names (entry_at d s) 2"
    unfolding unique_names_def using e matches_dots ne by (auto simp: less_2_cases_iff)
  have "unat (i_size d) = 40 * dir_used d" by (simp add: u d(3))
  then show "dir_wf d s"
    unfolding dir_wf_def u using d(1,2) uq b(1,2) b0 blk by (auto simp: not_less)
  show "dir_names d s name = (if name = DOTDOT then Some parent else if self \<noteq> 0 \<and> name = DOT then Some self else None)"
    unfolding dir_names_def lookup_fn_def u
    using e matches_dots ne by (simp add: upt_rec numeral_2_eq_2 dot_entry_def dotdot_entry_def)
qed

lemma read_super_format:
  assumes "disk_ok s" "sectors s SB_LBA = put_bytes (replicate 512 0) 0 (enc_super fresh_super)"
  shows "\<exists>s'. read_super s = (True, s'\<lparr>super := fresh_super\<rparr>) \<and> same_disk s s'"
proof -
  have wf: "wf_super fresh_super" by (simp add: wf_super_def fresh_super_def MAGIC_def)
  have "dec_super (sub_bytes (sectors s SB_LBA) 0 64) = fresh_super"
    unfolding assms(2) by (rule super_codec.slot_same [OF wf]) simp
  moreover have "SB_LBA AND 0x0FFFFFFF = SB_LBA" by (simp add: SB_LBA_def)
  ultimately have "read_super s = (True, s\<lparr>sec := sectors s SB_LBA, super := fresh_super\<rparr>)"
    using assms(1) by (simp add: read_super_def Let_def) (simp add: fresh_super_def)
  moreover have "same_disk s (s\<lparr>sec := sectors s SB_LBA\<rparr>)"
    unfolding same_disk_def using disk_ok_lengths(1) [OF assms(1)] by blast
  ultimately show ?thesis by (metis)
qed

lemma format_tree:
  assumes "disk_ok s"
  shows "tree_ok (format s)" "is_dir 0 (format s)"
    "dir_names (inode_at 0 (format s)) (format s) = [DOTDOT \<mapsto> 0]"
    "n < INO_COUNT \<Longrightarrow> is_dir n (format s) \<Longrightarrow> n = 0"
proof -
  note F = format_ok [OF assms]
  have wf: "wf_inode root_inode" by (simp add: wf_inode_def root_inode_def)
  have d0: "(0 :: u32) < DATA_COUNT" by (simp add: fs_const_defs)
  have N: "dir_wf root_inode (format s)"
    "dir_names root_inode (format s) name = (if name = DOTDOT then Some 0 else None)" for name
    using new_dir [OF F(1) wf _ _ _ d0 _ F(6)] F(7) by (auto simp: root_inode_def)
  show only: "n = 0" if "n < INO_COUNT" "is_dir n (format s)" for n
    using that(2) F(5) [OF that(1)] by (cases "n = 0") (simp_all add: is_dir_def zero_inode_def FT_DIR_def)
  show "is_dir 0 (format s)" by (simp add: is_dir_def F(4) root_inode_def)
  show "dir_names (inode_at 0 (format s)) (format s) = [DOTDOT \<mapsto> 0]" by (auto simp: F(4) N(2))
  have "root_ino (super (format s)) < INO_COUNT" by (simp add: F(2) fresh_super_def INO_COUNT_def)
  then show "tree_ok (format s)"
    unfolding tree_ok_def
  proof (intro conjI allI impI)
    fix n assume n: "n < INO_COUNT" "is_dir n (format s)"
    have n0: "n = 0" by (rule only [OF n])
    show "dir_wf (inode_at n (format s)) (format s)" using N(1) by (simp add: n0 F(4))
    show "ino < INO_COUNT" if "dir_names (inode_at n (format s)) (format s) name = Some ino" for name ino
      using that by (auto simp: n0 F(4) N(2) INO_COUNT_def split: if_splits)
  qed (rule F(1))
qed


section \<open>Writing and reading a path\<close>

lemma walk_frame:
  assumes "tree_ok s" "\<forall>n < INO_COUNT. is_dir n s' = is_dir n s"
    "\<forall>n < INO_COUNT. is_dir n s \<longrightarrow> dir_names (inode_at n s') s' = dir_names (inode_at n s) s"
  shows "cur < INO_COUNT \<Longrightarrow> walk s' cur ns = walk s cur ns"
proof (induction ns arbitrary: cur)
  case (Cons n ns)
  show ?case
  proof (cases "is_dir cur s")
    case True
    then show ?thesis using Cons assms tree_okD(4) [OF assms(1) Cons.prems True] by (auto split: option.splits)
  qed (use Cons.prems assms(2) in simp)
qed simp

text \<open>The blocks of a directory, and the frame of its contents.\<close>

definition dir_blocks :: "inode \<Rightarrow> nat set" where
  "dir_blocks d = {unat (i_blocks d ! k) | k. k < 22 \<and> k * 12 < dir_used d}"

lemma dir_contents_frame:
  assumes wf: "dir_wf d s" and same: "\<forall>b < DATA_COUNT. unat b \<in> dir_blocks d \<longrightarrow> sectors s' (data_addr b) = sectors s (data_addr b)"
    and used: "dir_blocks d \<subseteq> fs_used s'"
  shows "dir_names d s' = dir_names d s" "dir_wf d s'"
proof -
  have e: "entry_at d s' i = entry_at d s i" if i: "i < dir_used d" for i
    using dir_wf_slot [OF wf i] same by (auto simp: entry_at_def slot_ok_def dir_blocks_def)
  then show "dir_names d s' = dir_names d s" unfolding dir_names_def by (intro lookup_fn_cong) auto
  have "unique_names (entry_at d s') (dir_used d)"
    using wf unique_names_cong [of "dir_used d" "entry_at d s'" "entry_at d s"] e by (auto simp: dir_wf_def)
  moreover have "unat (i_blocks d ! k) \<in> fs_used s'" if "k < 22" "k * 12 < dir_used d" for k
    using used that unfolding dir_blocks_def by blast
  ultimately show "dir_wf d s'" using wf unfolding dir_wf_def by (auto split: if_splits)
qed

text \<open>No directory shares a block with the file \<open>ino\<close>.\<close>

definition file_separate :: "u32 \<Rightarrow> cofeufs \<Rightarrow> bool" where
  "file_separate ino s \<longleftrightarrow>
     (\<forall>n < INO_COUNT. is_dir n s \<longrightarrow> dir_blocks (inode_at n s) \<inter> inode_owns (inode_at ino s) s = {})"

lemma write_inode_tree:
  assumes tree: "tree_ok s" and ino: "ino < INO_COUNT" and sep: "file_separate ino s"
    and w: "write_inode ino data s = (True, s')"
  shows "tree_ok s'" "cur < INO_COUNT \<Longrightarrow> walk s' cur ns = walk s cur ns" "super s' = super s" "mounted s' = mounted s"
proof -
  note ok = tree_okD(1) [OF tree]
  define P where "P = fs_used s - inode_owns (inode_at ino s) s"
  have S: "disk_ok s'" "P \<subseteq> fs_used s'" "i_type (inode_at ino s') = FT_FILE" "super s' = super s" "mounted s' = mounted s"
    "\<forall>b < DATA_COUNT. unat b \<in> P \<longrightarrow> sectors s' (data_addr b) = sectors s (data_addr b)"
    "\<forall>n < INO_COUNT. n \<noteq> ino \<longrightarrow> inode_at n s' = inode_at n s"
    using write_inode_state [OF ok ino w P_def] by auto
  show "super s' = super s" "mounted s' = mounted s" by (rule S(4), rule S(5))
  have ty: "i_type (inode_at ino s) = FT_FILE"
    using w inode_read_ok [OF ok ino] by (auto simp: write_inode_def split: if_splits)
  have dir: "is_dir n s' = is_dir n s" if "n < INO_COUNT" for n
    using S(3,7) ty that by (cases "n = ino") (auto simp: is_dir_def FT_FILE_def FT_DIR_def)
  have at: "inode_at n s' = inode_at n s" if "n < INO_COUNT" "is_dir n s" for n
    using S(7) that ty by (cases "n = ino") (auto simp: is_dir_def FT_FILE_def FT_DIR_def)
  have sub: "dir_blocks (inode_at n s) \<subseteq> P" if n: "n < INO_COUNT" "is_dir n s" for n
  proof -
    have "dir_blocks (inode_at n s) \<subseteq> fs_used s"
      using tree_okD(3) [OF tree n] unfolding dir_wf_def dir_blocks_def by auto
    then show ?thesis using sep n by (auto simp: file_separate_def P_def)
  qed
  have C: "dir_names (inode_at n s) s' = dir_names (inode_at n s) s" "dir_wf (inode_at n s) s'" if n: "n < INO_COUNT" "is_dir n s" for n
    by (rule dir_contents_frame [OF tree_okD(3) [OF tree n]]; use S(2,6) sub [OF n] in blast)+
  show "tree_ok s'"
    unfolding tree_ok_def using S(1,4) tree_okD(2,4) [OF tree] dir at C by auto
  show "cur < INO_COUNT \<Longrightarrow> walk s' cur ns = walk s cur ns"
    by (rule walk_frame [OF tree]) (use dir at C in auto)
qed

lemma read_inode_same:
  assumes "disk_ok s" "ino < INO_COUNT" "same_disk s s'"
  shows "fst (read_inode ino maxlen s') = fst (read_inode ino maxlen s)"
  using inode_read_ok [OF assms(1,2)] inode_read_ok [OF same_diskD(1) [OF assms(3,1)] assms(2)] assms(3)
  by (auto simp: read_inode_def same_disk_def inode_at_def)

lemma write_file_existing:
  assumes tree: "tree_ok s" and m: "mounted s" and base: "base < INO_COUNT" and short: "short_components path"
    and ino: "walk s (path_start base path s) (path_names path) = Some ino"
  obtains s1 where "same_disk s s1" "write_file base path data s = write_inode ino data s1" "ino < INO_COUNT"
proof -
  obtain s1 where r: "resolve_from base path s = (Some ino, s1)" "same_disk s s1"
    using resolve_from_walk [OF tree base short] ino by auto
  have "path_start base path s < INO_COUNT" using tree_okD(2) [OF tree] base by (simp add: path_start_def)
  then show thesis using that [of s1] r m walk_bound [OF tree _ ino] by (simp add: write_file_def)
qed

lemma same_disk_separate: "same_disk s s' \<Longrightarrow> file_separate ino s' = file_separate ino s"
proof -
  assume sd: "same_disk s s'"
  then have "inode_owns i s' = inode_owns i s" for i by (auto simp: same_disk_def)
  then show ?thesis by (simp add: file_separate_def same_disk_is_dir [OF sd] same_diskD(7) [OF sd])
qed

lemma write_file_effect:
  assumes tree: "tree_ok s" and m: "mounted s" and base: "base < INO_COUNT" and short: "short_components path"
    and ino: "walk s (path_start base path s) (path_names path) = Some ino" and sep: "file_separate ino s"
    and w: "write_file base path data s = (True, s')"
  shows "tree_ok s'" "mounted s'" "super s' = super s" "\<And>cur ns. cur < INO_COUNT \<Longrightarrow> walk s' cur ns = walk s cur ns"
    "fst (read_inode ino maxlen s') = Some (take maxlen data)"
proof -
  obtain s1 where sd: "same_disk s s1" and w1: "write_inode ino data s1 = (True, s')" and lt: "ino < INO_COUNT"
    using w by (auto intro: write_file_existing [OF tree m base short ino, of data])
  have t1: "tree_ok s1" by (rule same_disk_tree [OF sd tree])
  have sep1: "file_separate ino s1" using sep same_disk_separate [OF sd] by simp
  note T = write_inode_tree [OF t1 lt sep1 w1]
  show "tree_ok s'" by (rule T(1))
  show "mounted s'" "super s' = super s" using T(3,4) m by (simp_all add: same_diskD [OF sd])
  show "walk s' cur ns = walk s cur ns" if "cur < INO_COUNT" for cur ns
    using T(2) [OF that] same_disk_walk [OF sd] by simp
  show "fst (read_inode ino maxlen s') = Some (take maxlen data)"
    by (rule write_inode_readback [OF tree_okD(1) [OF t1] lt w1])
qed

text \<open>
  C7. Path resolution is the walk through the directories: for a path whose components have at most 31
  characters, \<^verbatim>\<open>resolve_from\<close> finds exactly the inode reached from the start (the root for an absolute
  path) by looking up the components other than the empty one and \<^verbatim>\<open>.\<close> one after the other, fails
  exactly when the walk does, and changes nothing but the sector buffer.
\<close>

theorem resolve_from_correct:
  assumes "tree_ok s" "base < INO_COUNT" "short_components path"
  shows "\<exists>s'. resolve_from base path s = (walk s (path_start base path s) (path_names path), s') \<and> same_disk s s'"
  by (rule resolve_from_walk [OF assms])

theorem resolve_from_correct_witness:
  "\<exists>s'. resolve_from 0 [47, 46, 46, 47, 47, 46] (format fs_ex) = (Some 0, s')"
proof -
  note T = format_tree [OF fs_ex_ok]
  have "path_names [47, 46, 46, 47, 47, 46] = [DOTDOT]" by (simp add: path_names_def DOT_def DOTDOT_def)
  moreover have "path_start 0 [47, 46, 46, 47, 47, 46] (format fs_ex) = 0" by (simp add: path_start_def format_ok(2) [OF fs_ex_ok] fresh_super_def)
  moreover have "short_components [47, 46, 46, 47, 47, 46]" by (simp add: short_components_def)
  ultimately show ?thesis
    using resolve_from_correct [OF T(1), of 0 "[47, 46, 46, 47, 47, 46]"] T(2,3) by (auto simp: INO_COUNT_def)
qed

lemma write_then_read:
  assumes "tree_ok s" "mounted s" "base < INO_COUNT" "short_components path"
    "walk s (path_start base path s) (path_names path) = Some ino" "file_separate ino s"
    "write_file base path data s = (True, s')"
  shows "fst (read_file base path maxlen s') = Some (take maxlen data) \<and> tree_ok s'
     \<and> (\<forall>q. short_components q \<longrightarrow> fst (resolve_from base q s') = fst (resolve_from base q s))"
proof -
  note E = write_file_effect [OF assms]
  have start: "path_start base q s' = path_start base q s" "path_start base q s < INO_COUNT" for q
    using E(3) tree_okD(2) [OF assms(1)] assms(3) by (simp_all add: path_start_def)
  have "fst (resolve_from base q s') = fst (resolve_from base q s)" if q: "short_components q" for q
    using resolve_from_walk [OF E(1) assms(3) q] resolve_from_walk [OF assms(1,3) q] E(4) start by auto
  moreover have "fst (read_file base path maxlen s') = Some (take maxlen data)"
  proof -
    obtain s2 where r: "resolve_from base path s' = (Some ino, s2)" "same_disk s' s2"
      using resolve_from_walk [OF E(1) assms(3,4)] E(4) start assms(5) by auto
    have "fst (read_inode ino maxlen s2) = fst (read_inode ino maxlen s')"
      by (rule read_inode_same [OF tree_okD(1) [OF E(1)] _ r(2)]) (rule walk_bound [OF assms(1) start(2) assms(5)])
    then show ?thesis using r(1) E(2,5) by (simp add: read_file_def)
  qed
  ultimately show ?thesis using E(1) by blast
qed

text \<open>The example: a formatted disk with one empty file \<^verbatim>\<open>/a\<close>.\<close>

definition empty_file :: inode where
  "empty_file = inode_reset (zero_inode\<lparr>i_type := FT_FILE\<rparr>)"

lemma example_tree:
  obtains s where "tree_ok s" "mounted s" "dir_names (inode_at 0 s) s = [DOTDOT \<mapsto> 0, [97] \<mapsto> 1]" "is_dir 0 s"
    "inode_at 1 s = empty_file" "root_ino (super s) = 0" "card (fs_used s) \<le> 2" "file_separate 1 s"
proof -
  note F = format_ok [OF fs_ex_ok] and T = format_tree [OF fs_ex_ok]
  define s1 where "s1 = inode_write 1 empty_file (format fs_ex)"
  have wf: "wf_inode empty_file" by (simp add: empty_file_def inode_reset_def zero_inode_def wf_inode_def fs_const_defs)
  have one: "(1 :: u32) < INO_COUNT" "(0 :: u32) < INO_COUNT" by (simp_all add: INO_COUNT_def)
  note W = inode_write_ok [OF F(1) one(1) wf s1_def]
  have used1: "fs_used s1 = {0}" using F(7) by (simp add: fs_used_def W(4))
  have at0: "inode_at 0 s1 = root_inode" using W(2) [OF one(2)] F(4) by simp
  have data: "sectors s1 (data_addr b) = sectors (format fs_ex) (data_addr b)" if "b < DATA_COUNT" for b
    by (rule W(3) [OF data_addr_not_inode [OF that one(1)]])
  have wf0: "dir_wf root_inode (format fs_ex)" using tree_okD(3) [OF T(1) one(2) T(2)] F(4) by simp
  have bl: "dir_blocks root_inode \<subseteq> fs_used s1"
    using wf0 F(7) used1 unfolding dir_wf_def dir_blocks_def by auto
  have C: "dir_names root_inode s1 = [DOTDOT \<mapsto> 0]" "dir_wf root_inode s1"
    using dir_contents_frame [OF wf0 _ bl] data T(3) F(4) by auto
  have v: "valid_name [97]" "[97] \<noteq> DOTDOT" by (simp_all add: valid_name_def DOTDOT_def)
  have nf: "\<not> {..<65454} \<subseteq> fs_used s1" "dir_used root_inode \<noteq> 264"
    using subsetD [of "{..<65454 :: nat}" "{0}" 1] by (auto simp: used1 dir_used_def root_inode_def)
  obtain s where A: "dir_wf (inode_at 0 s) s" "dir_names (inode_at 0 s) s = [DOTDOT \<mapsto> 0, [97] \<mapsto> 1]" "dir_frame 0 s1 s"
    using dir_add_ok [OF W(1) one(2) at0 [symmetric] C(2) v(1), of 1] v(2) C(1) nf by auto
  have at: "inode_at n s = (if n = 1 then empty_file else zero_inode)" if "n < INO_COUNT" "n \<noteq> 0" for n
    using A(3) W(2) [OF that(1)] F(5) [OF that] that by (simp add: dir_frame_def)
  have only: "n = 0" if "n < INO_COUNT" "is_dir n s" for n
    using that(2) at [OF that(1)]
    by (cases "n = 0") (auto simp: is_dir_def empty_file_def zero_inode_def inode_reset_def FT_DIR_def FT_FILE_def split: if_splits)
  have at1: "inode_at 1 s = empty_file" using at [OF one(1)] by simp
  have sup: "root_ino (super s) = 0" "mounted s" "disk_ok s"
    using A(3) W(5,6) F(2,3) by (simp_all add: dir_frame_def fresh_super_def fs_ex_def)
  obtain b where "fs_used s \<subseteq> insert b {0}" using A(3) used1 by (auto simp: dir_frame_def)
  then have "card (fs_used s) \<le> card (insert b {0 :: nat})" by (intro card_mono) auto
  also have "\<dots> \<le> 2" using card_insert_le_m1 [of 2 "{0}" b] by simp
  finally have card: "card (fs_used s) \<le> 2" .
  have "inode_owns empty_file s = {}"
    by (auto simp: inode_owns_def valid_blocks_def empty_file_def inode_reset_def fs_const_defs dest: in_set_takeD in_set_dropD)
  then have sep: "file_separate 1 s" by (simp add: file_separate_def at1)
  have "i_type (inode_at 0 s) = FT_DIR" using A(1) by (simp add: dir_wf_def)
  then have d0: "is_dir 0 s" by (simp add: is_dir_def)
  have "tree_ok s"
    unfolding tree_ok_def
  proof (intro conjI allI impI)
    fix n assume n: "n < INO_COUNT" "is_dir n s"
    have n0: "n = 0" by (rule only [OF n])
    show "dir_wf (inode_at n s) s" using A(1) by (simp add: n0)
    show "ino < INO_COUNT" if "dir_names (inode_at n s) s name = Some ino" for name ino
      using that one by (auto simp: n0 A(2) split: if_splits)
  qed (use sup one in simp_all)
  then show thesis using that A(2) sup at1 card sep d0 by blast
qed

lemma example_file:
  assumes "length data \<le> 512"
  obtains s s' where "tree_ok s" "mounted s" "walk s (path_start 0 [47, 97] s) (path_names [47, 97]) = Some 1" "file_separate 1 s"
    "short_components [47, 97]" "write_file 0 [47, 97] data s = (True, s')"
proof -
  obtain s where s: "tree_ok s" "mounted s" "dir_names (inode_at 0 s) s = [DOTDOT \<mapsto> 0, [97] \<mapsto> 1]" "is_dir 0 s"
    "inode_at 1 s = empty_file" "root_ino (super s) = 0" "card (fs_used s) \<le> 2" "file_separate 1 s"
    by (rule example_tree)
  have one: "(1 :: u32) < INO_COUNT" "(0 :: u32) < INO_COUNT" by (simp_all add: INO_COUNT_def)
  have p: "short_components [47, 97]" "path_names [47, 97] = [[97]]" "path_start 0 [47, 97] s = 0"
    by (simp_all add: short_components_def path_names_def path_start_def s(6) DOT_def)
  have wk: "walk s (path_start 0 [47, 97] s) (path_names [47, 97]) = Some 1" unfolding p using s(3,4) by simp
  obtain s1 where w: "same_disk s s1" "write_file 0 [47, 97] data s = write_inode 1 data s1"
    by (rule write_file_existing [OF s(1,2) one(2) p(1) wk])
  have ty: "i_type (inode_at 1 s1) = FT_FILE" by (simp add: same_diskD(7) [OF w(1)] s(5) empty_file_def inode_reset_def)
  have fin: "finite (fs_used s1)" by (simp add: fs_used_def)
  have "card (fs_used s1 - inode_owns (inode_at 1 s1) s1) \<le> 2"
    using card_mono [OF fin Diff_subset] s(7) same_diskD(6) [OF w(1)] le_trans by metis
  then obtain s' where "write_inode 1 data s1 = (True, s')"
    using write_inode_succeeds [OF same_diskD(1) [OF w(1) tree_okD(1) [OF s(1)]] one(1) ty _ refl, of data] assms
      div_le_mono [of "length data + 511" 1023 512]
    by (fastforce simp: fs_const_defs)
  then show ?thesis using that [OF s(1,2) wk s(8) p(1)] w(2) by simp
qed

text \<open>
  C6. The file system as its users see it: after \<^verbatim>\<open>write_file\<close> succeeds on the path of an existing file,
  \<^verbatim>\<open>read_file\<close> of the same path returns the data that was written, up to the size of the buffer; every
  other path still resolves as before, and the tree of directories stays well-formed.
\<close>

theorem write_file_read_file:
  assumes "tree_ok s" "mounted s" "base < INO_COUNT" "short_components path"
    "walk s (path_start base path s) (path_names path) = Some ino" "file_separate ino s"
    "write_file base path data s = (True, s')"
  shows "fst (read_file base path maxlen s') = Some (take maxlen data) \<and> tree_ok s'
     \<and> (\<forall>q. short_components q \<longrightarrow> fst (resolve_from base q s') = fst (resolve_from base q s))"
  by (rule write_then_read [OF assms])

theorem write_file_read_file_witness:
  "\<exists>s s'. write_file 0 [47, 97] [1, 2, 3] s = (True, s') \<and> fst (read_file 0 [47, 97] 2 s') = Some [1, 2]"
proof -
  obtain s s' where s: "tree_ok s" "mounted s" "walk s (path_start 0 [47, 97] s) (path_names [47, 97]) = Some 1" "file_separate 1 s"
    "short_components [47, 97]" "write_file 0 [47, 97] [1, 2, 3] s = (True, s')"
    by (rule example_file [of "[1, 2, 3]"]) simp
  have "(0 :: u32) < INO_COUNT" by (simp add: INO_COUNT_def)
  then show ?thesis using write_file_read_file [OF s(1,2) _ s(5,3,4,6), of 2] s(6) by auto
qed

text \<open>
  C8. A directory is a map from names to inode numbers, and \<^verbatim>\<open>dir_add\<close> is its update: adding a valid
  new name to a well-formed directory either binds the name to the new inode, keeps every other
  binding and the well-formedness of the directory, and touches no other inode and no allocated block
  of another owner; or it fails, and then the directory has no free slot left and either holds the
  maximum of 264 entries or needs a block while the disk is full, and nothing on the disk changed.
\<close>

theorem dir_add_correct:
  assumes ok: "disk_ok s" and ino: "dirino < INO_COUNT" and d: "d = inode_at dirino s" and wf: "dir_wf d s"
    and name: "valid_name name" and new: "newino \<noteq> 0" and none: "dir_names d s name = None"
  shows "(\<exists>s'. dir_add dirino name newino type s = (True, s') \<and> dir_wf (inode_at dirino s') s'
            \<and> dir_names (inode_at dirino s') s' = (dir_names d s)(name \<mapsto> newino) \<and> dir_frame dirino s s')
       \<or> (\<exists>s'. dir_add dirino name newino type s = (False, s') \<and> same_disk s s'
            \<and> (\<forall>i < dir_used d. \<not> free_entry (entry_at d s i)) \<and> (dir_used d = 264 \<or> {..<65454} \<subseteq> fs_used s))"
  by (rule dir_add_ok [OF assms])

theorem dir_add_correct_witness:
  "\<exists>s'. dir_add 0 [97] 1 FT_FILE (format fs_ex) = (True, s') \<and> dir_names (inode_at 0 s') s' = [DOTDOT \<mapsto> 0, [97] \<mapsto> 1]"
proof -
  note F = format_ok [OF fs_ex_ok] and T = format_tree [OF fs_ex_ok]
  have z: "(0 :: u32) < INO_COUNT" by (simp add: INO_COUNT_def)
  have v: "valid_name [97]" "[97] \<noteq> DOTDOT" by (simp_all add: valid_name_def DOTDOT_def)
  have nf: "\<not> {..<65454} \<subseteq> fs_used (format fs_ex)" "dir_used (inode_at 0 (format fs_ex)) \<noteq> 264"
    using subsetD [of "{..<65454 :: nat}" "{0}" 1] by (auto simp: F(4,7) dir_used_def root_inode_def)
  show ?thesis
    using dir_add_correct [OF F(1) z refl tree_okD(3) [OF T(1) z T(2)] v(1), of 1 FT_FILE] v(2) T(3) nf by auto
qed

theorem dir_remove_correct_witness:
  "\<exists>s s'. dir_remove 0 [97] s = (True, s') \<and> dir_names (inode_at 0 s') s' = [DOTDOT \<mapsto> 0]"
proof -
  obtain s where s: "tree_ok s" "dir_names (inode_at 0 s) s = [DOTDOT \<mapsto> 0, [97] \<mapsto> 1]" "is_dir 0 s"
    by (rule example_tree)
  have z: "(0 :: u32) < INO_COUNT" by (simp add: INO_COUNT_def)
  have "[97] \<noteq> DOTDOT" by (simp add: DOTDOT_def)
  then have "[DOTDOT \<mapsto> 0, [97] \<mapsto> 1 :: u32]([97] := None) = [DOTDOT \<mapsto> 0]" by (auto simp: fun_eq_iff)
  then obtain s' where "dir_remove 0 [97] s = (True, s')" "dir_names (inode_at 0 s') s' = [DOTDOT \<mapsto> 0]"
    using dir_remove_correct [OF tree_okD(1) [OF s(1)] z refl tree_okD(3) [OF s(1) z s(3)], of "[97]"] s(2) by auto
  then show ?thesis by blast
qed

text \<open>The bit map survives being written to the disk and read back.\<close>

lemma bm_flush_n_sectors:
  "disk_ok s \<Longrightarrow> k \<le> 16 \<Longrightarrow> i < k \<Longrightarrow> sectors (bm_flush_n k s) (BM_LBA + of_nat i) = sub_bytes (bm s) (i * 512) 512"
proof (induction k)
  case (Suc k)
  note B = bm_flush_n_ok [OF Suc.prems(1), of k]
  have pr: "ata_present (bm_flush_n k s)" using B Suc.prems(2) unfolding disk_ok_def by auto
  have u: "unat (BM_LBA + of_nat j) = 2050 + j" if "j < 16" for j
    using that by (subst unat_plus_small) (simp_all add: BM_LBA_def unat_of_nat)
  have a: "(BM_LBA + of_nat k) AND 0x0FFFFFFF = BM_LBA + of_nat k" using u [of k] Suc.prems(2) by (intro and_mask28) simp
  have ne: "BM_LBA + of_nat i \<noteq> BM_LBA + of_nat k" if "i < k"
  proof
    assume "BM_LBA + of_nat i = (BM_LBA + of_nat k :: u32)"
    then have "2050 + i = 2050 + k" using u [of i] u [of k] that Suc.prems(2) by simp
    then show False using that by simp
  qed
  have e: "sectors (bm_flush_n (Suc k) s) = (sectors (bm_flush_n k s))(BM_LBA + of_nat k := sub_bytes (bm s) (k * 512) 512)"
    using pr a B Suc.prems(2) by (simp add: Let_def ata_write_sector_def)
  show ?case
    unfolding e using ne Suc by (cases "i = k") auto
qed simp

lemma bm_read_n_ok:
  assumes ok: "disk_ok s" and st: "\<forall>i < 16. sectors s (BM_LBA + of_nat i) = sub_bytes m (i * 512) 512" and m: "length m = 8192"
  shows "k \<le> 16 \<Longrightarrow> bm_read_n k s = s\<lparr>bm := take (k * 512) m @ drop (k * 512) (bm s)\<rparr>"
proof (induction k)
  case (Suc k)
  have u: "unat (BM_LBA + of_nat k) = 2050 + k"
    using Suc.prems by (subst unat_plus_small) (simp_all add: BM_LBA_def unat_of_nat)
  then have a: "(BM_LBA + of_nat k) AND 0x0FFFFFFF = BM_LBA + of_nat k" using Suc.prems by (intro and_mask28) simp
  have pr: "ata_present s" "\<not> bad_sector s x" for x using ok unfolding disk_ok_def by auto
  have r: "ata_read_sector (BM_LBA + of_nat k) (bm_read_n k s) = Some (sub_bytes m (k * 512) 512)"
    using Suc pr a st by (simp add: ata_read_sector_def)
  have l: "length (sub_bytes m (k * 512) 512) = 512" using m Suc.prems by simp
  have "put_bytes (take (k * 512) m @ drop (k * 512) (bm s)) (k * 512) (sub_bytes m (k * 512) 512)
      = take (Suc k * 512) m @ drop (Suc k * 512) (bm s)"
    unfolding put_bytes_def l mult_Suc add.commute [of 512] take_add using m Suc.prems ok
    by (simp add: sub_bytes_def min_def add.commute [of 512])
  then show ?case using Suc r by simp
qed simp

lemma bm_flush_read:
  assumes ok: "disk_ok s" and same: "sectors s' = sectors (bm_flush s)" and s': "disk_ok s'"
  shows "bm_read s' = s'\<lparr>bm := bm s\<rparr>"
  using bm_read_n_ok [OF s', of "bm s" 16] bm_flush_n_sectors [OF ok, of 16] ok s' same
  by (simp add: bm_read_def BM_BLOCKS_def bm_flush_def)

text \<open>
  C9. \<^verbatim>\<open>format\<close> makes a valid empty file system of any working disk: the superblock it wrote is
  accepted by \<^verbatim>\<open>read_super\<close>, the bit map read back from the disk has exactly block 0 in use, inode 0 is
  the root directory, whose only name is \<^verbatim>\<open>..\<close>, bound to itself, every other inode is free, and the tree
  of directories satisfies its invariant.
\<close>

theorem format_correct:
  assumes "disk_ok s"
  shows "tree_ok (format s) \<and> dir_names (inode_at 0 (format s)) (format s) = [DOTDOT \<mapsto> 0]
     \<and> (\<forall>n < INO_COUNT. n \<noteq> 0 \<longrightarrow> i_type (inode_at n (format s)) = FT_FREE)
     \<and> (\<exists>s2. read_super (format s) = (True, s2) \<and> super s2 = fresh_super \<and> fs_used (bm_read (s2\<lparr>bm := replicate 8192 v\<rparr>)) = {0})"
proof -
  note F = format_ok [OF assms] and T = format_tree [OF assms]
  obtain s' where r: "read_super (format s) = (True, s'\<lparr>super := fresh_super\<rparr>)" "same_disk (format s) s'"
    using read_super_format [OF F(1) F(8)] by blast
  define s2 where "s2 = s'\<lparr>super := fresh_super, bm := replicate 8192 v\<rparr>"
  obtain s7 where f: "format s = bm_flush s7" "disk_ok s7" using F(9) by blast
  have ok2: "disk_ok s2" using same_diskD(1) [OF r(2) F(1)] unfolding disk_ok_def s2_def by simp
  have "sectors s2 = sectors (bm_flush s7)" using same_diskD(2) [OF r(2)] by (simp add: s2_def f(1))
  then have "bm_read s2 = s2\<lparr>bm := bm s7\<rparr>" by (rule bm_flush_read [OF f(2) _ ok2])
  moreover have "bm s7 = bm (format s)" using bm_flush_ok(2) [OF f(2)] by (simp add: f(1))
  ultimately have "fs_used (bm_read s2) = {0}" using F(7) by (simp add: fs_used_def)
  moreover have "(s'\<lparr>super := fresh_super\<rparr>)\<lparr>bm := replicate 8192 v\<rparr> = s2" by (simp add: s2_def)
  ultimately show ?thesis
    using T(1,3) r(1) F(5) by (auto simp: zero_inode_def FT_FREE_def)
qed

theorem format_correct_witness:
  "tree_ok (format fs_ex) \<and> dir_names (inode_at 0 (format fs_ex)) (format fs_ex) = [DOTDOT \<mapsto> 0]"
  using format_correct [OF fs_ex_ok] by blast

end
