(* ===== verification/Sched.thy ===== *)
theory Sched
  imports Proc "HOL-Library.Multiset"
begin

text \<open>
  Theorems on processes and scheduling. The invariant \<open>sched_inv\<close> of the process table says that the
  running process is the current one, that live processes have distinct non-zero numbers, that every
  frame a process holds is allocated and held by no other process, and that the kernel stacks are
  distinct allocated blocks of the kernel heap.
\<close>

section \<open>Allocated frames\<close>

definition alloced :: "pmm \<Rightarrow> u64 set" where
  "alloced pm = frame_addr (base pm) ` pmm_used pm"

lemma frame_addr_inj:
  "pmm_inv pm \<Longrightarrow> i < unat (nframes pm) \<Longrightarrow> j < unat (nframes pm) \<Longrightarrow>
     frame_addr (base pm) i = frame_addr (base pm) j \<longleftrightarrow> i = j"
  by (metis pmm_frame_index less_imp_le)

lemma used_lt: "i \<in> pmm_used pm \<Longrightarrow> i < unat (nframes pm)"
  using pmm_used_bound [of pm] by auto

lemma alloced_nonzero: "pmm_inv pm \<Longrightarrow> 0 \<notin> alloced pm"
  using pmm_frame_nonzero used_lt by (metis alloced_def imageE)

lemma pmm_alloc_frame_alloced:
  assumes "pmm_inv pm" "pmm_alloc_frame pm = (f, pm')"
  shows "pmm_inv pm'" "f \<noteq> 0 \<Longrightarrow> f \<notin> alloced pm" "alloced pm' = (if f = 0 then alloced pm else insert f (alloced pm))"
proof -
  have "pmm_inv pm' \<and> (f \<noteq> 0 \<longrightarrow> f \<notin> alloced pm) \<and> alloced pm' = (if f = 0 then alloced pm else insert f (alloced pm))"
    using assms(1)
  proof (cases rule: pmm_alloc_frame_cases)
    case full
    then show ?thesis using assms by simp
  next
    case (found i)
    note S = pmm_set_frame [OF assms(1) found(1,2)]
    have f: "f = frame_addr (base pm) i" "pm' = pm\<lparr>bits := bit_set (bits pm) i, free_frames := free_frames pm - 1\<rparr>"
      using assms(2) found(4) by simp_all
    have "f \<noteq> 0" using pmm_frame_nonzero [OF assms(1) found(1)] f by simp
    moreover have "f \<notin> alloced pm"
    proof
      assume "f \<in> alloced pm"
      then obtain j where "j \<in> pmm_used pm" "frame_addr (base pm) j = frame_addr (base pm) i" by (auto simp: alloced_def f(1))
      then show False using frame_addr_inj [OF assms(1) used_lt found(1)] found(2) by auto
    qed
    ultimately show ?thesis using S(1,2) by (simp add: alloced_def f)
  qed
  then show "pmm_inv pm'" "f \<noteq> 0 \<Longrightarrow> f \<notin> alloced pm" "alloced pm' = (if f = 0 then alloced pm else insert f (alloced pm))"
    by blast+
qed

lemma pmm_free_frame_alloced:
  assumes "pmm_inv pm" "f \<in> alloced pm"
  shows "pmm_inv (pmm_free_frame f pm)" "alloced (pmm_free_frame f pm) = alloced pm - {f}"
proof -
  obtain i where i: "i \<in> pmm_used pm" "f = frame_addr (base pm) i" using assms(2) by (auto simp: alloced_def)
  note C = pmm_clear_frame [OF assms(1) i(1)]
  show "pmm_inv (pmm_free_frame f pm)" using C(2) by (simp add: i(2))
  have "alloced (pmm_free_frame f pm) = frame_addr (base pm) ` (pmm_used pm - {i})" using C(1) by (simp add: alloced_def i(2))
  also have "\<dots> = alloced pm - {f}"
    using frame_addr_inj [OF assms(1) used_lt used_lt] i by (auto simp: alloced_def)
  finally show "alloced (pmm_free_frame f pm) = alloced pm - {f}" .
qed


section \<open>Frames of a process\<close>

abbreviation nz :: "u64 list \<Rightarrow> u64 list" where
  "nz fs \<equiv> filter (\<lambda>f. f \<noteq> 0) fs"

definition own :: "process \<Rightarrow> u64 list" where
  "own p = nz ([pml4 p, pdpt p, pd p, pt p] @ stk_pages p @ code_frames p)"

definition proc_wf :: "process \<Rightarrow> bool" where
  "proc_wf p \<longleftrightarrow> length (stk_pages p) = 4 \<and> length (code_frames p) = 256 \<and> user_code_pages p \<le> 256
     \<and> (\<forall>i. user_code_pages p \<le> i \<and> i < 256 \<longrightarrow> code_frames p ! i = 0)"

lemma own_update [simp]:
  "own (p\<lparr>pid := a\<rparr>) = own p" "own (p\<lparr>state := b\<rparr>) = own p" "own (p\<lparr>ctx := c\<rparr>) = own p" "own (p\<lparr>cr3 := c\<rparr>) = own p"
  "own (p\<lparr>waketick := c\<rparr>) = own p" "own (p\<lparr>preempts := c\<rparr>) = own p" "own (p\<lparr>exitcode := e\<rparr>) = own p" "own (p\<lparr>start_tick := c\<rparr>) = own p"
  by (simp_all add: own_def)

lemma proc_wf_update [simp]:
  "proc_wf (p\<lparr>pid := a\<rparr>) = proc_wf p" "proc_wf (p\<lparr>state := b\<rparr>) = proc_wf p" "proc_wf (p\<lparr>ctx := c\<rparr>) = proc_wf p" "proc_wf (p\<lparr>cr3 := c\<rparr>) = proc_wf p"
  "proc_wf (p\<lparr>waketick := c\<rparr>) = proc_wf p" "proc_wf (p\<lparr>preempts := c\<rparr>) = proc_wf p" "proc_wf (p\<lparr>exitcode := e\<rparr>) = proc_wf p"
  "proc_wf (p\<lparr>start_tick := c\<rparr>) = proc_wf p"
  by (simp_all add: proc_wf_def)

text \<open>Everything but the frames and the memory is the same.\<close>

definition same_table :: "sched \<Rightarrow> sched \<Rightarrow> bool" where
  "same_table s s' \<longleftrightarrow> (\<exists>a b. s' = s\<lparr>frames := a, memory := b\<rparr>)"

lemma same_tableI: "s' = s\<lparr>frames := a, memory := b\<rparr> \<Longrightarrow> same_table s s'"
  unfolding same_table_def by blast

lemma same_table_refl [simp]: "same_table s s"
  by (rule same_tableI [where a = "frames s" and b = "memory s"]) simp

lemma same_table_frames [simp]: "same_table s (s\<lparr>frames := a\<rparr>)"
  by (rule same_tableI [where a = a and b = "memory s"]) simp

lemma same_table_memory [simp]: "same_table s (s\<lparr>memory := b\<rparr>)"
  by (rule same_tableI [where a = "frames s" and b = b]) simp

lemma same_table_trans: "same_table s s' \<Longrightarrow> same_table s' s'' \<Longrightarrow> same_table s s''"
proof -
  assume "same_table s s'" "same_table s' s''"
  then obtain a b c d where "s' = s\<lparr>frames := a, memory := b\<rparr>" "s'' = s'\<lparr>frames := c, memory := d\<rparr>"
    unfolding same_table_def by blast
  then have "s'' = s\<lparr>frames := c, memory := d\<rparr>" by simp
  then show ?thesis by (rule same_tableI)
qed

lemma same_tableD:
  assumes "same_table s s'"
  shows "table s' = table s" "cur s' = cur s" "heap s' = heap s" "img_frames s' = img_frames s" "img_pages s' = img_pages s"
    "clk s' = clk s" "kernel_ctx s' = kernel_ctx s" "sched_ready s' = sched_ready s" "kernel_ctx_valid s' = kernel_ctx_valid s"
    "dev_pd s' = dev_pd s"
  using assms by (auto simp: same_table_def)

lemma alloc_zero_frame_ok:
  assumes "pmm_inv (frames s)" "alloc_zero_frame s = (f, s')"
  shows "pmm_inv (frames s')" "f \<noteq> 0 \<Longrightarrow> f \<notin> alloced (frames s)"
    "alloced (frames s') = (if f = 0 then alloced (frames s) else insert f (alloced (frames s)))" "same_table s s'"
proof -
  obtain f1 pm where a: "pmm_alloc_frame (frames s) = (f1, pm)" by fastforce
  note P = pmm_alloc_frame_alloced [OF assms(1) a]
  have f: "f = f1" "s' = (if f \<noteq> 0 then s\<lparr>frames := pm, memory := memset f 0 4096 (memory s)\<rparr> else s\<lparr>frames := pm\<rparr>)"
    using assms(2) a by (auto simp: alloc_zero_frame_def Let_def)
  show "pmm_inv (frames s')" "f \<noteq> 0 \<Longrightarrow> f \<notin> alloced (frames s)"
    "alloced (frames s') = (if f = 0 then alloced (frames s) else insert f (alloced (frames s)))"
    using P f by auto
  show "same_table s s'" using f(2) same_table_trans [OF same_table_frames same_table_memory] by (cases "f = 0") auto
qed

lemma free_opt_ok:
  assumes "pmm_inv (frames s)" "f \<noteq> 0 \<Longrightarrow> f \<in> alloced (frames s)"
  shows "pmm_inv (frames (free_opt f s))" "alloced (frames (free_opt f s)) = alloced (frames s) - {f}" "same_table s (free_opt f s)"
proof -
  have "0 \<notin> alloced (frames s)" by (rule alloced_nonzero [OF assms(1)])
  then show "pmm_inv (frames (free_opt f s))" "alloced (frames (free_opt f s)) = alloced (frames s) - {f}"
    using assms pmm_free_frame_alloced [OF assms(1), of f] by (auto simp: free_opt_def)
  show "same_table s (free_opt f s)" by (simp add: free_opt_def)
qed

lemma free_array_ok:
  assumes "pmm_inv (frames s)" "set (nz (take n fs)) \<subseteq> alloced (frames s)" "distinct (nz (take n fs))"
    "n \<le> length fs" "free_array n (fs, s) = (fs', s')"
  shows "fs' = replicate n 0 @ drop n fs \<and> pmm_inv (frames s') \<and> same_table s s'
     \<and> alloced (frames s') = alloced (frames s) - set (nz (take n fs))"
  using assms
proof (induction n arbitrary: fs' s')
  case (Suc n)
  obtain fs1 s1 where r: "free_array n (fs, s) = (fs1, s1)" by fastforce
  have tk: "take (Suc n) fs = take n fs @ [fs ! n]" using Suc.prems(4) by (simp add: take_Suc_conv_app_nth)
  have IH: "fs1 = replicate n 0 @ drop n fs" "pmm_inv (frames s1)" "same_table s s1"
    "alloced (frames s1) = alloced (frames s) - set (nz (take n fs))"
    using Suc.IH [OF Suc.prems(1) _ _ _ r] Suc.prems(2,3,4) unfolding tk by auto
  have nth: "fs1 ! n = fs ! n" using IH(1) Suc.prems(4) by (simp add: nth_append)
  have upd: "fs1[n := 0] = replicate (Suc n) 0 @ drop (Suc n) fs"
    using IH(1) Suc.prems(4) by (simp add: list_update_append replicate_append_same Cons_nth_drop_Suc [symmetric])
  show ?case
  proof (cases "fs ! n = 0")
    case True
    then have "fs1[n := 0] = fs1" using nth by (metis list_update_id)
    then show ?thesis using Suc.prems(5) r True nth IH upd by (simp add: tk)
  next
    case False
    have mem: "fs ! n \<in> alloced (frames s1)" using False Suc.prems(2,3) IH(4) unfolding tk by auto
    note F = free_opt_ok [OF IH(2), of "fs ! n"]
    have e: "fs' = fs1[n := 0]" "s' = free_opt (fs ! n) s1" using Suc.prems(5) r False nth by auto
    show ?thesis
      unfolding e using F mem upd IH False same_table_trans [OF IH(3)] by (auto simp: tk)
  qed
qed simp

lemma filter_code:
  assumes "proc_wf p"
  shows "nz (take (user_code_pages p) (code_frames p)) = nz (code_frames p)"
proof -
  have "nz (drop (user_code_pages p) (code_frames p)) = []"
    using assms by (auto simp: proc_wf_def filter_empty_conv in_set_conv_nth)
  then show ?thesis by (metis append_Nil2 append_take_drop_id filter_append)
qed

lemma vm_free_ok:
  assumes inv: "pmm_inv (frames s)" and wf: "proc_wf p" and dist: "distinct (own p)" and sub: "set (own p) \<subseteq> alloced (frames s)"
    and v: "vm_free p s = (p', s')"
  shows "own p' = []" "proc_wf p'" "cr3 p' = 0" "pid p' = pid p" "state p' = state p" "kstack p' = kstack p"
    "alloced (frames s') = alloced (frames s) - set (own p)" "pmm_inv (frames s')" "same_table s s'"
proof -
  define n where "n = user_code_pages p"
  have W: "length (stk_pages p) = 4" "length (code_frames p) = 256" "n \<le> 256" "\<forall>i. n \<le> i \<and> i < 256 \<longrightarrow> code_frames p ! i = 0"
    using wf by (simp_all add: proc_wf_def n_def)
  have o: "own p = nz [pml4 p, pdpt p, pd p, pt p] @ nz (stk_pages p) @ nz (code_frames p)" by (simp add: own_def)
  obtain cf s1 where c: "free_array n (code_frames p, s) = (cf, s1)" by fastforce
  obtain sp s2 where k: "free_array 4 (stk_pages p, s1) = (sp, s2)" by fastforce
  have fc: "nz (take n (code_frames p)) = nz (code_frames p)" using filter_code [OF wf] by (simp add: n_def)
  have dc: "distinct (nz (code_frames p))" "distinct (nz (stk_pages p))" "distinct (nz [pml4 p, pdpt p, pd p, pt p])"
    "set (nz (stk_pages p)) \<inter> set (nz (code_frames p)) = {}"
    "set (nz [pml4 p, pdpt p, pd p, pt p]) \<inter> (set (nz (stk_pages p)) \<union> set (nz (code_frames p))) = {}"
    using dist unfolding o distinct_append set_append by blast+
  have sb: "set (nz (code_frames p)) \<subseteq> alloced (frames s)" "set (nz (stk_pages p)) \<subseteq> alloced (frames s)"
    "set (nz [pml4 p, pdpt p, pd p, pt p]) \<subseteq> alloced (frames s)"
    using sub unfolding o set_append by blast+
  have C: "cf = replicate n 0 @ drop n (code_frames p)" "pmm_inv (frames s1)" "same_table s s1"
    "alloced (frames s1) = alloced (frames s) - set (nz (code_frames p))"
    using free_array_ok [OF inv _ _ _ c] W(2,3) dc(1) sb(1) unfolding fc by auto
  have t4: "take 4 (stk_pages p) = stk_pages p" using W(1) by simp
  have K: "sp = replicate 4 0 @ drop 4 (stk_pages p)" "pmm_inv (frames s2)" "same_table s1 s2"
    "alloced (frames s2) = alloced (frames s1) - set (nz (stk_pages p))"
    using free_array_ok [OF C(2) _ _ _ k] W(1) dc(2,4) sb(2) unfolding t4 C(4) by auto
  have A2: "alloced (frames s2) = alloced (frames s) - (set (nz (stk_pages p)) \<union> set (nz (code_frames p)))" using K(4) C(4) by blast
  have in2: "f \<in> alloced (frames s2)" if "f \<in> set (nz [pml4 p, pdpt p, pd p, pt p])" for f using that sb(3) dc(5) A2 by blast
  define s3 where "s3 = free_opt (pt p) s2"
  define s4 where "s4 = free_opt (pd p) s3"
  define s5 where "s5 = free_opt (pdpt p) s4"
  define s6 where "s6 = free_opt (pml4 p) s5"
  have F3: "pmm_inv (frames s3)" "alloced (frames s3) = alloced (frames s2) - {pt p}" "same_table s2 s3"
    unfolding s3_def by (rule free_opt_ok [OF K(2)], simp add: in2)+
  have F4: "pmm_inv (frames s4)" "alloced (frames s4) = alloced (frames s3) - {pd p}" "same_table s3 s4"
    unfolding s4_def by (rule free_opt_ok [OF F3(1)]; use in2 dc(3) F3(2) in \<open>auto split: if_splits\<close>)+
  have F5: "pmm_inv (frames s5)" "alloced (frames s5) = alloced (frames s4) - {pdpt p}" "same_table s4 s5"
    unfolding s5_def by (rule free_opt_ok [OF F4(1)]; use in2 dc(3) F3(2) F4(2) in \<open>auto split: if_splits\<close>)+
  have F6: "pmm_inv (frames s6)" "alloced (frames s6) = alloced (frames s5) - {pml4 p}" "same_table s5 s6"
    unfolding s6_def by (rule free_opt_ok [OF F5(1)]; use in2 dc(3) F3(2) F4(2) F5(2) in \<open>auto split: if_splits\<close>)+
  have n0: "free_array n (code_frames p, s) = (code_frames p, s)" if "\<not> n > 0" using that by simp
  have e: "p' = p\<lparr>code_frames := cf, stk_pages := sp, pt := 0, pd := 0, pdpt := 0, pml4 := 0, cr3 := 0\<rparr>" "s' = s6"
    using v c k n0 by (auto simp: vm_free_def Let_def n_def s3_def s4_def s5_def s6_def USER_STACK_PAGES_def split: if_splits)
  have z: "nz cf = []" "nz sp = []" using C(1) K(1) W by (auto simp: filter_empty_conv in_set_conv_nth)
  show "own p' = []" using z by (simp add: e own_def)
  show "proc_wf p'" using W C(1) K(1) by (auto simp: e proc_wf_def n_def nth_append)
  show "cr3 p' = 0" "pid p' = pid p" "state p' = state p" "kstack p' = kstack p" by (simp_all add: e)
  show "pmm_inv (frames s')" using F6(1) by (simp add: e)
  show "same_table s s'" unfolding e(2) using C(3) K(3) F3(3) F4(3) F5(3) F6(3) same_table_trans by blast
  show "alloced (frames s') = alloced (frames s) - set (own p)"
    using F6(2) F5(2) F4(2) F3(2) A2 alloced_nonzero [OF inv] by (auto simp: e o)
qed


section \<open>Building an address space\<close>

text \<open>
  \<open>grows p s p' s'\<close>: the process got fresh frames \<open>N\<close> in addition to frames it had, and nothing was
  released; frames it held may have been dropped without being freed.
\<close>

definition grows :: "u64 set \<Rightarrow> sched \<Rightarrow> process \<Rightarrow> sched \<Rightarrow> bool" where
  "grows F s p' s' \<longleftrightarrow> pmm_inv (frames s') \<and> same_table s s' \<and> distinct (own p') \<and>
     (\<exists>N. set (own p') = F \<union> N \<and> N \<inter> alloced (frames s) = {} \<and> alloced (frames s') = alloced (frames s) \<union> N)"

lemma grows_refl: "pmm_inv (frames s) \<Longrightarrow> distinct (own p) \<Longrightarrow> grows (set (own p)) s p s"
  by (auto simp: grows_def)

lemma grows_trans:
  assumes "grows F s p1 s1" "grows (set (own p1)) s1 p2 s2"
  shows "grows F s p2 s2"
proof -
  obtain N where N: "set (own p1) = F \<union> N" "N \<inter> alloced (frames s) = {}" "alloced (frames s1) = alloced (frames s) \<union> N"
    "same_table s s1" using assms(1) by (auto simp: grows_def)
  obtain M where M: "set (own p2) = set (own p1) \<union> M" "M \<inter> alloced (frames s1) = {}" "alloced (frames s2) = alloced (frames s1) \<union> M"
    "same_table s1 s2" "pmm_inv (frames s2)" "distinct (own p2)" using assms(2) by (auto simp: grows_def)
  have "set (own p2) = F \<union> (N \<union> M)" "(N \<union> M) \<inter> alloced (frames s) = {}" "alloced (frames s2) = alloced (frames s) \<union> (N \<union> M)"
    using N M by auto
  then show ?thesis using M(5,6) same_table_trans [OF N(4) M(4)] unfolding grows_def by blast
qed

lemma grows_subset: "grows F s p' s' \<Longrightarrow> F \<subseteq> alloced (frames s) \<Longrightarrow> set (own p') \<subseteq> alloced (frames s')"
  by (auto simp: grows_def)

lemma grows_memory:
  assumes "grows F s p s1"
  shows "grows F s p (s1\<lparr>memory := m\<rparr>)"
proof -
  have "same_table s (s1\<lparr>memory := m\<rparr>)"
    using assms same_table_trans [OF _ same_table_memory] by (auto simp: grows_def)
  then show ?thesis using assms by (simp add: grows_def)
qed

lemma set_pte_grows: "grows F s p s1 \<Longrightarrow> grows F s p (set_pte t i v s1)"
  by (simp add: set_pte_def grows_memory)

lemma grows_own: "own p' = own p \<Longrightarrow> grows F s p s' \<Longrightarrow> grows F s p' s'"
  by (simp add: grows_def)

lemma mset_nz_update:
  assumes "k < length xs" "xs ! k = 0" "f \<noteq> 0"
  shows "mset (nz (xs[k := f])) = add_mset f (mset (nz xs))"
proof -
  have "mset (xs[k := f]) = add_mset f (mset xs - {#0#})" using mset_update [OF assms(1), of f] assms(2) by simp
  moreover have "filter_mset (\<lambda>f. f \<noteq> 0) (mset xs - {#0#}) = filter_mset (\<lambda>f. f \<noteq> 0) (mset xs)"
    by (rule multiset_eqI) auto
  ultimately show ?thesis using assms(3) by simp
qed

lemma own_add:
  assumes "mset (own p') = add_mset f (mset (own p))" "f \<notin> set (own p)" "distinct (own p)"
  shows "distinct (own p')" "set (own p') = insert f (set (own p))"
proof -
  have m: "mset (own p') = mset (f # own p)" using assms(1) by simp
  show "set (own p') = insert f (set (own p))" using mset_eq_setD [OF m] by simp
  show "distinct (own p')" using mset_eq_imp_distinct_iff [OF m] assms(2,3) by simp
qed

lemma alloc_grows:
  assumes inv: "pmm_inv (frames s)" and dist: "distinct (own p)" and sub: "set (own p) \<subseteq> alloced (frames s)"
    and a: "alloc_zero_frame s = (f, s')" "f \<noteq> 0" and m: "mset (own p') = add_mset f (mset (own p))"
  shows "grows (set (own p)) s p' s'"
proof -
  note Z = alloc_zero_frame_ok [OF inv a(1)]
  have nf: "f \<notin> set (own p)" using Z(2) [OF a(2)] sub by blast
  note O = own_add [OF m nf dist]
  have "set (own p') = set (own p) \<union> {f} \<and> {f} \<inter> alloced (frames s) = {} \<and> alloced (frames s') = alloced (frames s) \<union> {f}"
    using O(2) Z(2) [OF a(2)] Z(3) a(2) by auto
  then show ?thesis unfolding grows_def using Z(1,4) O(1) by blast
qed

lemma map_stack_ok:
  assumes "pmm_inv (frames s)" "proc_wf p" "distinct (own p)" "set (own p) \<subseteq> alloced (frames s)"
    "distinct ks" "set ks \<subseteq> {..<4}" "\<forall>k \<in> set ks. stk_pages p ! k = 0" "map_stack ks (p, s) = (p', s')"
  shows "grows (set (own p)) s p' s' \<and> proc_wf p' \<and> p' = p\<lparr>stk_pages := stk_pages p'\<rparr>"
  using assms
proof (induction ks arbitrary: p s)
  case Nil
  then show ?case by (simp add: grows_refl)
next
  case (Cons k ks)
  obtain f s1 where a: "alloc_zero_frame s = (f, s1)" by fastforce
  note Z = alloc_zero_frame_ok [OF Cons.prems(1) a]
  show ?case
  proof (cases "f = 0")
    case True
    then have "p' = p" "s' = s1" using Cons.prems(8) a by auto
    then show ?thesis using Z True Cons.prems by (auto simp: grows_def)
  next
    case False
    define p1 where "p1 = p\<lparr>stk_pages := (stk_pages p)[k := f]\<rparr>"
    define s2 where "s2 = set_pte (pt p) (stack_idx k) (f OR 0x7) s1"
    have k: "k < length (stk_pages p)" "stk_pages p ! k = 0" using Cons.prems(2,6,7) by (auto simp: proc_wf_def)
    have "mset (own p1) = add_mset f (mset (own p))"
      using mset_nz_update [OF k False] by (simp add: own_def p1_def)
    then have g1: "grows (set (own p)) s p1 s1" by (rule alloc_grows [OF Cons.prems(1,3,4) a False])
    then have g: "grows (set (own p)) s p1 s2" unfolding s2_def by (rule set_pte_grows)
    have wf1: "proc_wf p1" using Cons.prems(2) by (simp add: proc_wf_def p1_def)
    have st: "\<forall>j \<in> set ks. stk_pages p1 ! j = 0" using Cons.prems(5,7) by (auto simp: p1_def) (metis nth_list_update_neq)
    have "map_stack ks (p1, s2) = (p', s')" using Cons.prems(8) a False by (simp add: p1_def s2_def)
    then have IH: "grows (set (own p1)) s2 p' s'" "proc_wf p'" "p' = p1\<lparr>stk_pages := stk_pages p'\<rparr>"
      using Cons.IH [of s2 p1] g wf1 st Cons.prems(5,6) grows_subset [OF g Cons.prems(4)] by (auto simp: grows_def)
    have "p' = p\<lparr>stk_pages := stk_pages p'\<rparr>" by (subst IH(3)) (simp add: p1_def)
    then show ?thesis using grows_trans [OF g IH(1)] IH(2) by blast
  qed
qed

lemma alloc_tables_ok:
  assumes inv: "pmm_inv (frames s)" and wf: "proc_wf p" and dist: "distinct (nz (stk_pages p @ code_frames p))"
    and sub: "set (nz (stk_pages p @ code_frames p)) \<subseteq> alloced (frames s)" and a: "alloc_tables p s = (p', s')"
  shows "grows (set (nz (stk_pages p @ code_frames p))) s p' s'" "proc_wf p'"
    "p' = p\<lparr>pml4 := pml4 p', pdpt := pdpt p', pd := pd p', pt := pt p'\<rparr>"
proof -
  obtain f1 s1 where a1: "alloc_zero_frame s = (f1, s1)" by fastforce
  obtain f2 s2 where a2: "alloc_zero_frame s1 = (f2, s2)" by fastforce
  obtain f3 s3 where a3: "alloc_zero_frame s2 = (f3, s3)" by fastforce
  obtain f4 s4 where a4: "alloc_zero_frame s3 = (f4, s4)" by fastforce
  have e: "p' = p\<lparr>pml4 := f1, pdpt := f2, pd := f3, pt := f4\<rparr>" "s' = s4"
    using a a1 a2 a3 a4 by (auto simp: alloc_tables_def Let_def)
  define q0 where "q0 = p\<lparr>pml4 := 0, pdpt := 0, pd := 0, pt := 0\<rparr>"
  define q1 where "q1 = q0\<lparr>pml4 := f1\<rparr>"
  define q2 where "q2 = q1\<lparr>pdpt := f2\<rparr>"
  define q3 where "q3 = q2\<lparr>pd := f3\<rparr>"
  have o0: "own q0 = nz (stk_pages p @ code_frames p)" by (simp add: own_def q0_def)
  have step: "grows (set (own q)) t q' t'"
    if "pmm_inv (frames t)" "distinct (own q)" "set (own q) \<subseteq> alloced (frames t)" "alloc_zero_frame t = (f, t')"
       "f = 0 \<Longrightarrow> own q' = own q" "f \<noteq> 0 \<Longrightarrow> mset (own q') = add_mset f (mset (own q))" for t q f t' q'
  proof (cases "f = 0")
    case True
    then show ?thesis using alloc_zero_frame_ok [OF that(1,4)] that(2,5) by (auto simp: grows_def)
  qed (use alloc_grows that in blast)
  have g1: "grows (set (own q0)) s q1 s1" by (rule step [OF inv _ _ a1]) (use dist sub in \<open>auto simp: o0 own_def q1_def q0_def\<close>)
  note i1 = grows_subset [OF g1] and d1 = g1 [unfolded grows_def]
  have g2: "grows (set (own q1)) s1 q2 s2"
    by (rule step [OF _ _ _ a2]) (use d1 i1 sub in \<open>auto simp: o0\<close>, auto simp: own_def q2_def q1_def q0_def)
  note i2 = grows_subset [OF g2] and d2 = g2 [unfolded grows_def]
  have g3: "grows (set (own q2)) s2 q3 s3"
    by (rule step [OF _ _ _ a3]) (use d2 i2 i1 sub in \<open>auto simp: o0\<close>, auto simp: own_def q3_def q2_def q1_def q0_def)
  note i3 = grows_subset [OF g3] and d3 = g3 [unfolded grows_def]
  have g4: "grows (set (own q3)) s3 p' s4"
    by (rule step [OF _ _ _ a4]) (use d3 i3 i2 i1 sub in \<open>auto simp: o0\<close>, auto simp: e own_def q3_def q2_def q1_def q0_def)
  show "grows (set (nz (stk_pages p @ code_frames p))) s p' s'"
    using grows_trans [OF grows_trans [OF grows_trans [OF g1 g2] g3] g4] by (simp add: o0 e(2))
  show "proc_wf p'" using wf by (simp add: e proc_wf_def)
  show "p' = p\<lparr>pml4 := pml4 p', pdpt := pdpt p', pd := pd p', pt := pt p'\<rparr>" by (simp add: e(1))
qed

lemma map_code_own:
  assumes "i \<le> length (code_frames p)"
  shows "fst (map_code i (code_frames p) (p, s)) = p \<and> (\<exists>m. snd (map_code i (code_frames p) (p, s)) = s\<lparr>memory := m\<rparr>)"
  using assms
proof (induction i)
  case 0
  show ?case by (auto intro: exI [of _ "memory s"])
next
  case (Suc i)
  then obtain m where "map_code i (code_frames p) (p, s) = (p, s\<lparr>memory := m\<rparr>)" by (metis Suc_leD prod.collapse)
  then show ?case by (auto simp: set_pte_def)
qed

lemma map_image_memory: "\<exists>m. map_image i t s = s\<lparr>memory := m\<rparr>"
proof (induction i)
  case 0
  show ?case by (auto intro: exI [of _ "memory s"])
next
  case (Suc i)
  then show ?case by (auto simp: set_pte_def)
qed

definition code_source :: "u64 list option \<Rightarrow> nat \<Rightarrow> process \<Rightarrow> bool" where
  "code_source cf n p \<longleftrightarrow> n = user_code_pages p \<and> (cf = None \<or> cf = Some (code_frames p))"

lemma vm_build_ok:
  assumes inv: "pmm_inv (frames s)" and wf: "proc_wf p" and st: "stk_pages p = replicate 4 0" and dist: "distinct (nz (code_frames p))"
    and sub: "set (nz (code_frames p)) \<subseteq> alloced (frames s)" and src: "code_source cf n p" and b: "vm_build cf n p s = (p', s')"
  shows "proc_wf p'" "pid p' = pid p" "state p' = state p" "kstack p' = kstack p" "pname p' = pname p"
    "if cr3 p' = 0 then own p' = [] \<and> pmm_inv (frames s') \<and> same_table s s' \<and> alloced (frames s') = alloced (frames s) - set (nz (code_frames p))
     else grows (set (nz (code_frames p))) s p' s' \<and> cr3 p' = pml4 p' \<and> pml4 p' \<in> set (own p')"
proof -
  obtain p1 s1 where a: "alloc_tables p s = (p1, s1)" by fastforce
  have nzs: "nz (stk_pages p @ code_frames p) = nz (code_frames p)" by (simp add: st)
  have A: "grows (set (nz (code_frames p))) s p1 s1" "proc_wf p1"
    "p1 = p\<lparr>pml4 := pml4 p1, pdpt := pdpt p1, pd := pd p1, pt := pt p1\<rparr>"
    using alloc_tables_ok [OF inv wf _ _ a] dist sub unfolding nzs by auto
  have f1: "pid p1 = pid p" "state p1 = state p" "kstack p1 = kstack p" "pname p1 = pname p" "stk_pages p1 = stk_pages p"
    "code_frames p1 = code_frames p" "user_code_pages p1 = user_code_pages p" by (subst A(3), simp)+
  obtain N where N: "set (own p1) = set (nz (code_frames p)) \<union> N" "N \<inter> alloced (frames s) = {}"
    "alloced (frames s1) = alloced (frames s) \<union> N" "pmm_inv (frames s1)" "same_table s s1" "distinct (own p1)"
    using A(1) by (auto simp: grows_def)
  have "proc_wf p' \<and> pid p' = pid p \<and> state p' = state p \<and> kstack p' = kstack p \<and> pname p' = pname p \<and>
    (if cr3 p' = 0 then own p' = [] \<and> pmm_inv (frames s') \<and> same_table s s' \<and> alloced (frames s') = alloced (frames s) - set (nz (code_frames p))
     else grows (set (nz (code_frames p))) s p' s' \<and> cr3 p' = pml4 p' \<and> pml4 p' \<in> set (own p'))"
  proof (cases "no_tables p1")
    case True
    then have v: "vm_free p1 s1 = (p', s')" using b a by (simp add: vm_build_def)
    note V = vm_free_ok [OF N(4) A(2) N(6) _ v]
    have "set (own p1) \<subseteq> alloced (frames s1)" using N(1,3) sub by auto
    moreover have "pname p' = pname p1" using v by (auto simp: vm_free_def Let_def split: if_splits prod.splits)
    ultimately show ?thesis using V f1 N(1,2,3) sub same_table_trans [OF N(5)] by auto
  next
    case False
    define p2 where "p2 = p1\<lparr>user_code_pages := n\<rparr>"
    have p21: "p2 = p1" using src f1(7) by (simp add: p2_def code_source_def)
    define s2 where "s2 = link_tables p1 s1"
    have g2: "grows (set (nz (code_frames p))) s p1 s2"
      unfolding s2_def link_tables_def Let_def using A(1) by (auto intro!: set_pte_grows)
    obtain p3 s3 where c: "(case cf of Some fs \<Rightarrow> map_code (min n USER_CODE_MAX_PAGES) fs (p2, s2)
        | None \<Rightarrow> (p2, map_image (img_pages s2) (pt p2) s2)) = (p3, s3)" by fastforce
    have p3: "p3 = p1" "grows (set (nz (code_frames p))) s p1 s3"
    proof -
      have "p3 = p1 \<and> (\<exists>m. s3 = s2\<lparr>memory := m\<rparr>)"
      proof (cases cf)
        case None
        then show ?thesis using c map_image_memory [of "img_pages s2" "pt p1" s2] by (auto simp: p21)
      next
        case (Some fs)
        then have fs: "fs = code_frames p1" using src f1(6) by (simp add: code_source_def)
        have "min n USER_CODE_MAX_PAGES \<le> length (code_frames p1)" using A(2) by (simp add: proc_wf_def USER_CODE_MAX_PAGES_def)
        from map_code_own [OF this, of s2] show ?thesis using c Some by (auto simp: p21 fs)
      qed
      then show "p3 = p1" "grows (set (nz (code_frames p))) s p1 s3" using grows_memory [OF g2] by auto
    qed
    have "vm_build cf n p s = (case map_stack [0..<4] (p3, s3) of (p, s) \<Rightarrow> (p\<lparr>cr3 := pml4 p\<rparr>, s))"
      using a False by (simp add: vm_build_def Let_def USER_STACK_PAGES_def c [unfolded p2_def s2_def])
    then obtain p4 where m: "map_stack [0..<4] (p1, s3) = (p4, s')" "p' = p4\<lparr>cr3 := pml4 p4\<rparr>"
      using b p3(1) by (auto split: prod.splits)
    have sub3: "set (own p1) \<subseteq> alloced (frames s3)" by (rule grows_subset [OF p3(2) sub])
    have st0: "\<forall>k \<in> set [0..<4]. stk_pages p1 ! k = 0" by (simp add: f1(5) st)
    have ivd: "pmm_inv (frames s3)" "distinct (own p1)" using p3(2) by (auto simp: grows_def)
    have r4: "set [0..<4] \<subseteq> {..<4 :: nat}" by auto
    have M: "grows (set (own p1)) s3 p4 s'" "proc_wf p4" "p4 = p1\<lparr>stk_pages := stk_pages p4\<rparr>"
      using map_stack_ok [OF ivd(1) A(2) ivd(2) sub3 _ r4 st0 m(1)] by auto
    have f4: "pid p4 = pid p1" "state p4 = state p1" "kstack p4 = kstack p1" "pname p4 = pname p1" "pml4 p4 = pml4 p1" by (subst M(3), simp)+
    have "own p' = own p4" by (simp add: m(2) own_def)
    then have "grows (set (nz (code_frames p))) s p' s'" using grows_own grows_trans [OF p3(2) M(1)] by metis
    moreover have "pml4 p' \<noteq> 0" using False f4(5) by (simp add: m(2) no_tables_def)
    moreover have "pml4 p' \<in> set (own p')" using calculation(2) by (simp add: own_def)
    ultimately show ?thesis using M(2) f4 f1 by (simp add: m(2) proc_wf_def)
  qed
  then show "proc_wf p'" "pid p' = pid p" "state p' = state p" "kstack p' = kstack p" "pname p' = pname p"
    "if cr3 p' = 0 then own p' = [] \<and> pmm_inv (frames s') \<and> same_table s s' \<and> alloced (frames s') = alloced (frames s) - set (nz (code_frames p))
     else grows (set (nz (code_frames p))) s p' s' \<and> cr3 p' = pml4 p' \<and> pml4 p' \<in> set (own p')"
    by blast+
qed


text \<open>
  \<open>fresh_space s p s1\<close>: since the state \<open>s\<close> only frames were taken, and those that \<open>p\<close> holds are among
  them. Frames that nobody holds may be among them too.
\<close>

definition fresh_space :: "sched \<Rightarrow> process \<Rightarrow> sched \<Rightarrow> bool" where
  "fresh_space s p s1 \<longleftrightarrow> same_table s s1 \<and> pmm_inv (frames s1) \<and> proc_wf p \<and> distinct (own p) \<and> set (own p) \<subseteq> alloced (frames s1)
     \<and> set (own p) \<inter> alloced (frames s) = {} \<and> alloced (frames s) \<subseteq> alloced (frames s1)"

lemma fresh_start: "pmm_inv (frames s) \<Longrightarrow> proc_wf p \<Longrightarrow> own p = [] \<Longrightarrow> fresh_space s p s"
  by (simp add: fresh_space_def)

lemma fresh_grows:
  assumes "fresh_space s p s1" "grows F s1 p2 s2" "F \<subseteq> set (own p)" "proc_wf p2"
  shows "fresh_space s p2 s2"
proof -
  obtain N where N: "set (own p2) = F \<union> N" "N \<inter> alloced (frames s1) = {}" "alloced (frames s2) = alloced (frames s1) \<union> N"
    "same_table s1 s2" "pmm_inv (frames s2)" "distinct (own p2)" using assms(2) by (auto simp: grows_def)
  have "same_table s s2" using assms(1) same_table_trans [OF _ N(4)] by (auto simp: fresh_space_def)
  then show ?thesis using assms(1,3,4) N by (auto simp: fresh_space_def)
qed

lemma fresh_memory: "fresh_space s p s1 \<Longrightarrow> fresh_space s p (s1\<lparr>memory := m\<rparr>)"
  using same_table_trans [OF _ same_table_memory] by (auto simp: fresh_space_def)

lemma fresh_free:
  assumes f: "fresh_space s p s1" and v: "vm_free p s1 = (p2, s2)"
  shows "fresh_space s p2 s2" "own p2 = []" "cr3 p2 = 0" "pid p2 = pid p" "state p2 = state p" "kstack p2 = kstack p"
proof -
  have F: "same_table s s1" "pmm_inv (frames s1)" "proc_wf p" "distinct (own p)" "set (own p) \<subseteq> alloced (frames s1)"
    "set (own p) \<inter> alloced (frames s) = {}" "alloced (frames s) \<subseteq> alloced (frames s1)" using f by (auto simp: fresh_space_def)
  note V = vm_free_ok [OF F(2-5) v]
  show "own p2 = []" "cr3 p2 = 0" "pid p2 = pid p" "state p2 = state p" "kstack p2 = kstack p" by (rule V)+
  show "fresh_space s p2 s2" unfolding fresh_space_def using V F(6,7) same_table_trans [OF F(1)] by auto
qed

lemma fresh_build:
  assumes f: "fresh_space s p s1" and st: "stk_pages p = replicate 4 0" and src: "code_source cf n p" and b: "vm_build cf n p s1 = (p2, s2)"
  shows "fresh_space s p2 s2" "pid p2 = pid p" "state p2 = state p" "kstack p2 = kstack p" "pname p2 = pname p"
    "cr3 p2 = 0 \<Longrightarrow> own p2 = []" "cr3 p2 \<noteq> 0 \<Longrightarrow> cr3 p2 = pml4 p2 \<and> pml4 p2 \<in> set (own p2)"
proof -
  have F: "same_table s s1" "pmm_inv (frames s1)" "proc_wf p" "distinct (own p)" "set (own p) \<subseteq> alloced (frames s1)"
    "set (own p) \<inter> alloced (frames s) = {}" "alloced (frames s) \<subseteq> alloced (frames s1)" using f by (auto simp: fresh_space_def)
  have c: "distinct (nz (code_frames p))" "set (nz (code_frames p)) \<subseteq> set (own p)" using F(4) by (auto simp: own_def split: if_splits)
  then have sub: "set (nz (code_frames p)) \<subseteq> alloced (frames s1)" using F(5) by blast
  note B = vm_build_ok [OF F(2,3) st c(1) sub src b]
  show "pid p2 = pid p" "state p2 = state p" "kstack p2 = kstack p" "pname p2 = pname p" by (rule B)+
  show "cr3 p2 = 0 \<Longrightarrow> own p2 = []" "cr3 p2 \<noteq> 0 \<Longrightarrow> cr3 p2 = pml4 p2 \<and> pml4 p2 \<in> set (own p2)" using B(6) by simp_all
  show "fresh_space s p2 s2"
  proof (cases "cr3 p2 = 0")
    case True
    then have B6: "own p2 = []" "pmm_inv (frames s2)" "same_table s1 s2" "alloced (frames s2) = alloced (frames s1) - set (nz (code_frames p))"
      using B(6) by simp_all
    have "alloced (frames s) \<subseteq> alloced (frames s2)" using B6(4) F(6,7) c(2) by blast
    then show ?thesis unfolding fresh_space_def using B6 B(1) same_table_trans [OF F(1)] by auto
  next
    case False
    then show ?thesis using fresh_grows [OF f _ c(2) B(1)] B(6) by simp
  qed
qed


section \<open>The invariant of the process table\<close>

definition live :: "process \<Rightarrow> bool" where
  "live p \<longleftrightarrow> state p \<noteq> P_EMPTY"

definition stacks :: "process list \<Rightarrow> u64 set" where
  "stacks t = {kstack (t ! i) | i. i < length t \<and> live (t ! i)}"

text \<open>The kernel heap is well formed and the pointers \<open>K\<close> are payloads of allocated blocks.\<close>

definition heap_ok :: "kheap \<Rightarrow> u64 set \<Rightarrow> bool" where
  "heap_ok h K \<longleftrightarrow> (\<exists>bs A. kheap_inv h bs A \<and> K \<subseteq> (\<lambda>b. b + HDR) ` A)"

lemma kmalloc_stack:
  assumes "heap_ok h K"
  obtains (none) "kmalloc KSTACK_SIZE h = Some (0, h)"
  | (some) k h' where "kmalloc KSTACK_SIZE h = Some (k, h')" "k \<noteq> 0" "k \<notin> K" "heap_ok h' (insert k K)"
proof -
  obtain bs A where h: "kheap_inv h bs A" "K \<subseteq> (\<lambda>b. b + HDR) ` A" using assms by (auto simp: heap_ok_def)
  have need: "8 dvd unat (kmalloc_need KSTACK_SIZE)" "24 \<le> unat (kmalloc_need KSTACK_SIZE)"
    using max_round_up [of 1 "unat KSTACK_SIZE"] unat_kmalloc_need [of KSTACK_SIZE] by (auto simp: KSTACK_SIZE_def)
  from h(1) need show thesis
  proof (cases rule: kmalloc_cases)
    case none
    then show thesis using that(1) by simp
  next
    case (some b h' bs')
    have "b + HDR \<notin> K" using h(2) some(3) by auto
    moreover have "heap_ok h' (insert (b + HDR) K)" unfolding heap_ok_def using some(6) h(2) by blast
    ultimately show thesis using that(2) some(1,7) by blast
  qed
qed

lemma kfree_stack:
  assumes "heap_ok h K" "k \<in> K"
  obtains h' where "kfree k h = Some h'" "heap_ok h' (K - {k})"
proof -
  obtain bs A where h: "kheap_inv h bs A" "K \<subseteq> (\<lambda>b. b + HDR) ` A" using assms(1) by (auto simp: heap_ok_def)
  obtain b where b: "b \<in> A" "k = b + HDR" using h(2) assms(2) by auto
  obtain h' bs' where f: "kfree k h = Some h'" "kheap_inv h' bs' (A - {b})" using kfree_ok [OF h(1) b(1)] b(2) by auto
  have "K - {k} \<subseteq> (\<lambda>b. b + HDR) ` (A - {b})" using h(2) b(2) by auto
  then show thesis using that f unfolding heap_ok_def by blast
qed

lemma heap_ok_mono: "heap_ok h K \<Longrightarrow> K' \<subseteq> K \<Longrightarrow> heap_ok h K'"
  unfolding heap_ok_def by blast

definition res_inv :: "process list \<Rightarrow> pmm \<Rightarrow> kheap \<Rightarrow> bool" where
  "res_inv t pm h \<longleftrightarrow> length t = 32 \<and> pmm_inv pm \<and> heap_ok h (stacks t)
     \<and> (\<forall>i < 32. proc_wf (t ! i) \<and> distinct (own (t ! i)) \<and> set (own (t ! i)) \<subseteq> alloced pm)
     \<and> (\<forall>i < 32. \<forall>j < 32. i \<noteq> j \<longrightarrow> set (own (t ! i)) \<inter> set (own (t ! j)) = {})
     \<and> (\<forall>i < 32. if live (t ! i) then pid (t ! i) \<noteq> 0 \<and> kstack (t ! i) \<noteq> 0 else own (t ! i) = [])
     \<and> (\<forall>i < 32. \<forall>j < 32. i \<noteq> j \<and> live (t ! i) \<and> live (t ! j) \<longrightarrow> pid (t ! i) \<noteq> pid (t ! j) \<and> kstack (t ! i) \<noteq> kstack (t ! j))"

definition run_inv :: "sched \<Rightarrow> bool" where
  "run_inv s \<longleftrightarrow> (\<forall>i. cur s = Some i \<longrightarrow> i < 32) \<and> (\<forall>i < 32. state (table s ! i) = P_RUNNING \<longleftrightarrow> cur s = Some i)"

definition sched_inv :: "sched \<Rightarrow> bool" where
  "sched_inv s \<longleftrightarrow> res_inv (table s) (frames s) (heap s) \<and> run_inv s"

lemma res_invD:
  assumes "res_inv t pm h"
  shows "length t = 32" "pmm_inv pm" "heap_ok h (stacks t)" "i < 32 \<Longrightarrow> proc_wf (t ! i)" "i < 32 \<Longrightarrow> distinct (own (t ! i))"
    "i < 32 \<Longrightarrow> set (own (t ! i)) \<subseteq> alloced pm" "i < 32 \<Longrightarrow> j < 32 \<Longrightarrow> i \<noteq> j \<Longrightarrow> set (own (t ! i)) \<inter> set (own (t ! j)) = {}"
    "i < 32 \<Longrightarrow> live (t ! i) \<Longrightarrow> pid (t ! i) \<noteq> 0 \<and> kstack (t ! i) \<noteq> 0" "i < 32 \<Longrightarrow> \<not> live (t ! i) \<Longrightarrow> own (t ! i) = []"
    "i < 32 \<Longrightarrow> j < 32 \<Longrightarrow> i \<noteq> j \<Longrightarrow> live (t ! i) \<Longrightarrow> live (t ! j) \<Longrightarrow> pid (t ! i) \<noteq> pid (t ! j) \<and> kstack (t ! i) \<noteq> kstack (t ! j)"
  using assms unfolding res_inv_def by (auto split: if_splits)

definition same_res :: "process \<Rightarrow> process \<Rightarrow> bool" where
  "same_res p q \<longleftrightarrow> own p = own q \<and> proc_wf p = proc_wf q \<and> pid p = pid q \<and> kstack p = kstack q \<and> live p = live q"

lemma res_inv_cong:
  assumes inv: "res_inv t pm h" and len: "length t' = length t" and eq: "\<forall>i < 32. same_res (t' ! i) (t ! i)"
  shows "res_inv t' pm h"
proof -
  have l: "length t = 32" "length t' = 32" using res_invD(1) [OF inv] len by auto
  have e: "i < 32 \<Longrightarrow> own (t' ! i) = own (t ! i) \<and> proc_wf (t' ! i) = proc_wf (t ! i) \<and> pid (t' ! i) = pid (t ! i)
     \<and> kstack (t' ! i) = kstack (t ! i) \<and> live (t' ! i) = live (t ! i)" for i using eq by (auto simp: same_res_def)
  have "stacks t' = stacks t" unfolding stacks_def using e l by (intro Collect_cong) (metis)
  then show ?thesis using inv l e unfolding res_inv_def by simp
qed

lemma stacks_update:
  assumes "i < length t"
  shows "stacks (t[i := p]) \<subseteq> (if live p then {kstack p} else {}) \<union> {kstack (t ! j) | j. j < length t \<and> j \<noteq> i \<and> live (t ! j)}"
  using assms by (auto simp: stacks_def nth_list_update)

lemma stacks_others: "{kstack (t ! j) | j. j < length t \<and> j \<noteq> i \<and> live (t ! j)} \<subseteq> stacks t"
  by (auto simp: stacks_def)

text \<open>Filling an empty slot.\<close>

lemma res_inv_fill:
  assumes inv: "res_inv t pm h" and i: "i < 32" "\<not> live (t ! i)" and p: "live p" "proc_wf p" "distinct (own p)" "pid p \<noteq> 0" "kstack p \<noteq> 0"
    and pm: "pmm_inv pm'" "alloced pm \<subseteq> alloced pm'" "set (own p) \<subseteq> alloced pm'" "set (own p) \<inter> alloced pm = {}"
    and h: "heap_ok h' (insert (kstack p) (stacks t))" "kstack p \<notin> stacks t" and fresh: "\<forall>j < 32. live (t ! j) \<longrightarrow> pid (t ! j) \<noteq> pid p"
  shows "res_inv (t[i := p]) pm' h'"
proof -
  note D = res_invD [OF inv]
  have st: "heap_ok h' (stacks (t[i := p]))"
    using stacks_update [of i t p] stacks_others [of t i] D(1) i p(1) by (intro heap_ok_mono [OF h(1)]) auto
  have ks: "kstack (t ! j) \<noteq> kstack p" if "j < 32" "live (t ! j)" for j
    using h(2) that D(1) unfolding stacks_def by auto
  have dj: "set (own (t ! j)) \<inter> set (own p) = {}" "set (own (t ! j)) \<subseteq> alloced pm'" if "j < 32" for j
    using D(6) [OF that] pm(2,4) by blast+
  show ?thesis
    unfolding res_inv_def
  proof (intro conjI allI impI)
    fix j k :: nat assume jk: "j < 32" "k < 32" "j \<noteq> k"
    then show "set (own (t[i := p] ! j)) \<inter> set (own (t[i := p] ! k)) = {}"
      using dj(1) [of j] dj(1) [of k] D(7) [of j k] i(1) by (cases "j = i"; cases "k = i") (simp_all add: D(1) Int_commute)
  next
    fix j k :: nat assume jk: "j < 32" "k < 32" "j \<noteq> k \<and> live (t[i := p] ! j) \<and> live (t[i := p] ! k)"
    have "pid (t[i := p] ! j) \<noteq> pid (t[i := p] ! k) \<and> kstack (t[i := p] ! j) \<noteq> kstack (t[i := p] ! k)"
      using jk D(10) [of j k] fresh ks [of j] ks [of k] i(1) by (cases "j = i"; cases "k = i") (auto simp: D(1))
    then show "pid (t[i := p] ! j) \<noteq> pid (t[i := p] ! k)" "kstack (t[i := p] ! j) \<noteq> kstack (t[i := p] ! k)" by auto
  qed (use D(1,4,5,8,9) dj(2) p pm(1,3) st i in \<open>auto simp: nth_list_update\<close>)
qed

text \<open>Emptying a slot whose frames and stack were released.\<close>

lemma res_inv_clear:
  assumes inv: "res_inv t pm h" and i: "i < 32" and p: "\<not> live p" "proc_wf p" "own p = []"
    and pm: "pmm_inv pm'" "alloced pm' = alloced pm - set (own (t ! i))"
    and h: "heap_ok h' (stacks t - {kstack (t ! i)})" and lv: "live (t ! i)"
  shows "res_inv (t[i := p]) pm' h'"
proof -
  note D = res_invD [OF inv]
  have "{kstack (t ! j) | j. j < length t \<and> j \<noteq> i \<and> live (t ! j)} \<subseteq> stacks t - {kstack (t ! i)}"
    using D(10) [OF _ i] D(1) lv unfolding stacks_def by auto
  then have st: "heap_ok h' (stacks (t[i := p]))"
    using stacks_update [of i t p] D(1) i p(1) by (intro heap_ok_mono [OF h]) auto
  have sub: "set (own (t ! j)) \<subseteq> alloced pm'" if "j < 32" "j \<noteq> i" for j using D(6,7) that i pm(2) by blast
  show ?thesis
    unfolding res_inv_def
  proof (intro conjI allI impI)
    fix j k :: nat assume jk: "j < 32" "k < 32" "j \<noteq> k"
    then show "set (own (t[i := p] ! j)) \<inter> set (own (t[i := p] ! k)) = {}"
      using D(7) [of j k] p(3) i(1) by (cases "j = i"; cases "k = i") (simp_all add: D(1))
  next
    fix j k :: nat assume jk: "j < 32" "k < 32" "j \<noteq> k \<and> live (t[i := p] ! j) \<and> live (t[i := p] ! k)"
    have "pid (t[i := p] ! j) \<noteq> pid (t[i := p] ! k) \<and> kstack (t[i := p] ! j) \<noteq> kstack (t[i := p] ! k)"
      using jk D(10) p(1) by (cases "j = i"; cases "k = i") (auto simp: D(1))
    then show "pid (t[i := p] ! j) \<noteq> pid (t[i := p] ! k)" "kstack (t[i := p] ! j) \<noteq> kstack (t[i := p] ! k)" by auto
  qed (use D p pm st i sub in \<open>auto simp: nth_list_update\<close>)
qed


section \<open>Operations\<close>

lemma reap_ok:
  assumes inv: "res_inv (table s) (frames s) (heap s)" and i: "i < 32" "live (table s ! i)"
  obtains s' where "reap i s = Some s'" "res_inv (table s') (frames s') (heap s')" "\<not> live (table s' ! i)" "cur s' = cur s"
    "\<And>j. j \<noteq> i \<Longrightarrow> table s' ! j = table s ! j" "alloced (frames s') = alloced (frames s) - set (own (table s ! i))"
    "state (table s' ! i) = P_EMPTY" "clk s' = clk s" "sched_ready s' = sched_ready s"
proof -
  note D = res_invD [OF inv]
  obtain p s1 where v: "vm_free (table s ! i) s = (p, s1)" by fastforce
  note V = vm_free_ok [OF D(2) D(4) [OF i(1)] D(5) [OF i(1)] D(6) [OF i(1)] v]
  note T = same_tableD [OF V(9)]
  have k: "kstack p \<noteq> 0" "kstack p = kstack (table s ! i)" using D(8) [OF i] V(6) by auto
  have "kstack (table s ! i) \<in> stacks (table s)" using i D(1) unfolding stacks_def by auto
  then obtain h' where f: "kfree (kstack p) (heap s) = Some h'" "heap_ok h' (stacks (table s) - {kstack (table s ! i)})"
    using kfree_stack [OF D(3)] k(2) by metis
  define q where "q = p\<lparr>pid := 0, state := P_EMPTY\<rparr>"
  define s' where "s' = s1\<lparr>heap := h', table := (table s)[i := q]\<rparr>"
  have r: "reap i s = Some s'" using v k(1) f(1) T(1,3) by (simp add: reap_def s'_def q_def)
  have q: "\<not> live q" "proc_wf q" "own q = []" using V(1,2) by (simp_all add: q_def live_def proc_wf_def own_def)
  have "res_inv ((table s)[i := q]) (frames s1) h'" by (rule res_inv_clear [OF inv i(1) q V(8,7) f(2) i(2)])
  moreover have "table s' ! i = q" using i(1) D(1) by (simp add: s'_def)
  ultimately show thesis using that [OF r] q V(7) T by (simp add: s'_def q_def)
qed

lemma hole_same: "find_hole s = Some (Some i, s') \<Longrightarrow> \<not> live (table s ! i) \<Longrightarrow> s' = s"
  by (auto simp: find_hole_def live_def find_from_None dest!: find_from_SomeD split: option.splits)

lemma find_hole_ok:
  assumes inv: "sched_inv s"
  obtains (full) "find_hole s = Some (None, s)" "\<forall>i < 32. state (table s ! i) \<noteq> P_EMPTY \<and> state (table s ! i) \<noteq> P_ZOMBIE"
  | (hole) i s' where "find_hole s = Some (Some i, s')" "i < 32" "\<not> live (table s' ! i)" "sched_inv s'" "cur s' = cur s"
      "\<And>j. j \<noteq> i \<Longrightarrow> table s' ! j = table s ! j" "alloced (frames s') \<subseteq> alloced (frames s)" "clk s' = clk s"
      "\<not> live (table s ! i) \<or> state (table s ! i) = P_ZOMBIE"
proof (cases "find_from (\<lambda>i. state (table s ! i) = P_EMPTY) 0 MAX_PROC")
  case (Some i)
  then have "i < 32" "state (table s ! i) = P_EMPTY" using find_from_SomeD [OF Some] by (auto simp: MAX_PROC_def)
  then show thesis using hole [of i s] Some inv by (simp add: find_hole_def live_def)
next
  case none: None
  show thesis
  proof (cases "find_from (\<lambda>i. state (table s ! i) = P_ZOMBIE) 0 MAX_PROC")
    case None
    have "find_hole s = Some (None, s)" by (simp add: find_hole_def none None)
    then show thesis using full none None by (auto simp: find_from_None MAX_PROC_def)
  next
    case (Some i)
    then have i: "i < 32" "state (table s ! i) = P_ZOMBIE" using find_from_SomeD [OF Some] by (auto simp: MAX_PROC_def)
    have res: "res_inv (table s) (frames s) (heap s)" and run: "run_inv s" using inv by (auto simp: sched_inv_def)
    have lv: "live (table s ! i)" using i(2) by (simp add: live_def)
    obtain s' where r: "reap i s = Some s'" "res_inv (table s') (frames s') (heap s')" "\<not> live (table s' ! i)" "cur s' = cur s"
      "\<And>j. j \<noteq> i \<Longrightarrow> table s' ! j = table s ! j" "alloced (frames s') = alloced (frames s) - set (own (table s ! i))"
      "state (table s' ! i) = P_EMPTY" "clk s' = clk s"
      by (rule reap_ok [OF res i(1) lv]) (rule that)
    have nr: "cur s \<noteq> Some i" using run i unfolding run_inv_def by force
    have "run_inv s'"
      unfolding run_inv_def
    proof (intro conjI allI impI)
      fix j assume "j < (32 :: nat)"
      then show "state (table s' ! j) = P_RUNNING \<longleftrightarrow> cur s' = Some j"
        using run r(4,5,7) nr by (cases "j = i") (auto simp: run_inv_def)
    qed (use run r(4) in \<open>auto simp: run_inv_def\<close>)
    then have "sched_inv s'" using r(2) by (simp add: sched_inv_def)
    then show thesis using hole [of i s'] r i none Some by (simp add: find_hole_def)
  qed
qed

text \<open>A process number is always found: there are more numbers than slots.\<close>

lemma pid_alloc_ok:
  assumes "length (table s) = 32"
  obtains n where "pid_alloc s = Some n" "1 \<le> n" "n \<le> 0xFFFF" "\<not> pid_used n s" "\<forall>m. 1 \<le> m \<and> m < n \<longrightarrow> pid_used m s"
proof (cases "pid_alloc s")
  case None
  then have all: "\<forall>p. 1 \<le> p \<and> p < 0x10000 \<longrightarrow> pid_used p s" by (simp add: pid_alloc_def find_from_None)
  have "{1..<0x10000} \<subseteq> (\<lambda>q. unat (pid q)) ` set (table s)" using all by (auto simp: pid_used_def list_ex_iff)
  then have "card {1..<0x10000 :: nat} \<le> card ((\<lambda>q. unat (pid q)) ` set (table s))" by (intro card_mono) auto
  also have "\<dots> \<le> length (table s)" using card_image_le [of "set (table s)" "\<lambda>q. unat (pid q)"] card_length [of "table s"] by simp
  finally show thesis using assms by simp
next
  case (Some n)
  then have "1 \<le> n \<and> n < 0x10000 \<and> \<not> pid_used n s \<and> (\<forall>m. 1 \<le> m \<and> m < n \<longrightarrow> \<not> \<not> pid_used m s)"
    unfolding pid_alloc_def by (rule find_from_SomeD)
  then show thesis using that [OF Some] by auto
qed

lemma pid_used_live: "pid_used n s \<longleftrightarrow> (\<exists>i < length (table s). live (table s ! i) \<and> unat (pid (table s ! i)) = n)"
  unfolding pid_used_def list_ex_iff live_def by (metis in_set_conv_nth)

lemma stacks_empty_slot: "\<not> live p \<Longrightarrow> i < length t \<Longrightarrow> \<not> live (t ! i) \<Longrightarrow> stacks (t[i := p]) = stacks t"
  unfolding stacks_def by (auto simp: nth_list_update)

lemma new_process_ok:
  assumes inv: "sched_inv s"
  obtains (fail) s' where "new_process nm s = Some (Inl s')" "sched_inv s'" "cur s' = cur s"
      "\<forall>j < 32. table s' ! j = table s ! j \<or> state (table s ! j) = P_ZOMBIE \<and> state (table s' ! j) = P_EMPTY"
  | (new) i p s' where "new_process nm s = Some (Inr (i, p, s'))" "i < 32" "\<not> live (table s' ! i)" "run_inv s'" "cur s' = cur s"
      "res_inv (table s') (frames s') (heap s')" "heap_ok (heap s') (insert (kstack p) (stacks (table s')))" "kstack p \<notin> stacks (table s')" "kstack p \<noteq> 0"
      "p = zero_process\<lparr>pid := pid p, kstack := kstack p, pname := nm\<rparr>" "pid p \<noteq> 0" "\<not> pid_used (unat (pid p)) s'"
      "\<forall>m. 1 \<le> m \<and> m < unat (pid p) \<longrightarrow> pid_used m s'" "\<And>j. j \<noteq> i \<Longrightarrow> table s' ! j = table s ! j" "alloced (frames s') \<subseteq> alloced (frames s)"
      "\<not> live (table s ! i) \<or> state (table s ! i) = P_ZOMBIE" "clk s' = clk s"
  using inv
proof (cases s rule: find_hole_ok)
  case full
  then show thesis using fail [of s] inv by (simp add: new_process_def)
next
  case (hole i s1)
  have res: "res_inv (table s1) (frames s1) (heap s1)" and run: "run_inv s1" using hole(4) by (auto simp: sched_inv_def)
  note D = res_invD [OF res]
  have other: "\<forall>j < 32. table s1 ! j = table s ! j \<or> state (table s ! j) = P_ZOMBIE \<and> state (table s1 ! j) = P_EMPTY"
  proof (intro allI impI)
    fix j :: nat assume "j < 32"
    show "table s1 ! j = table s ! j \<or> state (table s ! j) = P_ZOMBIE \<and> state (table s1 ! j) = P_EMPTY"
    proof (cases "j = i")
      case True
      show ?thesis using hole(1,3,9) True inv hole_same [OF hole(1)] by (auto simp: live_def)
    qed (use hole(6) in simp)
  qed
  from D(3) show thesis
  proof (cases "heap s1" "stacks (table s1)" rule: kmalloc_stack)
    case none
    have "new_process nm s = Some (Inl s1)" by (simp add: new_process_def hole(1) none)
    then show thesis using fail [of s1] hole(4,5) other by blast
  next
    case (some k h')
    define s2 where "s2 = s1\<lparr>heap := h'\<rparr>"
    have l2: "length (table s2) = 32" using D(1) by (simp add: s2_def)
    obtain n where n: "pid_alloc s2 = Some n" "1 \<le> n" "n \<le> 0xFFFF" "\<not> pid_used n s2" "\<forall>m. 1 \<le> m \<and> m < n \<longrightarrow> pid_used m s2"
      by (rule pid_alloc_ok [OF l2]) (rule that)
    have un: "unat (of_nat n :: u16) = n" using n(3) by (simp add: unat_of_nat)
    then have n0: "(of_nat n :: u16) \<noteq> 0" using n(2) by (metis not_one_le_zero unat_0)
    define p where "p = zero_process\<lparr>pid := of_nat n, kstack := k, pname := nm\<rparr>"
    have e: "new_process nm s = Some (Inr (i, p, s2))"
      by (simp add: new_process_def hole(1) some(1,2) Let_def s2_def [symmetric] n(1) p_def)
    have h2: "heap_ok h' (stacks (table s2))" by (rule heap_ok_mono [OF some(4)]) (auto simp: s2_def)
    have r2: "res_inv (table s2) (frames s2) (heap s2)" using res h2 by (simp add: res_inv_def s2_def)
    have run2: "run_inv s2" using run by (simp add: run_inv_def s2_def)
    show thesis
      by (rule new [of i p s2]) (use e hole run2 r2 some un n0 n in \<open>simp_all add: s2_def p_def zero_process_def\<close>)
  qed
qed

text \<open>Completing or abandoning the process that \<open>new_process\<close> prepared.\<close>

lemma finish_process:
  assumes i: "i < 32" "\<not> live (table s ! i)" and run: "run_inv s" and res: "res_inv (table s) (frames s) (heap s)"
    and h: "heap_ok (heap s) (insert (kstack p) (stacks (table s)))" "kstack p \<notin> stacks (table s)" "kstack p \<noteq> 0"
    and pd: "pid p \<noteq> 0" "\<not> pid_used (unat (pid p)) s" and g: "fresh_space s p s1"
  shows "sched_inv (s1\<lparr>memory := m, table := (table s1)[i := p\<lparr>start_tick := tk, ctx := c, state := P_READY\<rparr>]\<rparr>)"
proof -
  define q where "q = p\<lparr>start_tick := tk, ctx := c, state := P_READY\<rparr>"
  have oq: "own q = own p" by (simp add: q_def own_def)
  have N: "same_table s s1" "pmm_inv (frames s1)" "proc_wf p" "distinct (own p)" "set (own p) \<subseteq> alloced (frames s1)"
    "set (own p) \<inter> alloced (frames s) = {}" "alloced (frames s) \<subseteq> alloced (frames s1)" using g by (auto simp: fresh_space_def)
  note T = same_tableD [OF N(1)]
  have fr: "\<forall>j < 32. live (table s ! j) \<longrightarrow> pid (table s ! j) \<noteq> pid q"
    using pd(2) res_invD(1) [OF res] by (auto simp: pid_used_live q_def)
  have "res_inv ((table s)[i := q]) (frames s1) (heap s)"
    by (rule res_inv_fill [OF res i]) (use N h pd fr in \<open>auto simp: live_def q_def\<close>)
  moreover have "run_inv (s1\<lparr>memory := m, table := (table s1)[i := q]\<rparr>)"
    unfolding run_inv_def
  proof (intro conjI allI impI)
    fix j :: nat assume j: "j < 32"
    have "cur s \<noteq> Some i" using run i unfolding run_inv_def live_def by force
    then show "state (table (s1\<lparr>memory := m, table := (table s1)[i := q]\<rparr>) ! j) = P_RUNNING \<longleftrightarrow>
        cur (s1\<lparr>memory := m, table := (table s1)[i := q]\<rparr>) = Some j"
      using run j i res_invD(1) [OF res] by (cases "j = i") (auto simp: T run_inv_def q_def)
  qed (use run T in \<open>auto simp: run_inv_def\<close>)
  ultimately show ?thesis by (simp add: sched_inv_def T q_def)
qed

lemma empty_slot_inv:
  assumes inv: "res_inv t pm h" and i: "i < 32" "\<not> live (t ! i)" and q: "\<not> live q" "proc_wf q" "own q = []"
    and pm: "pmm_inv pm'" "alloced pm \<subseteq> alloced pm'" and h: "heap_ok h' (stacks t)"
  shows "res_inv (t[i := q]) pm' h'"
proof -
  note D = res_invD [OF inv]
  have st: "stacks (t[i := q]) = stacks t" using stacks_empty_slot [OF q(1)] i D(1) by simp
  have own: "own (t[i := q] ! j) = own (t ! j)" if "j < 32" for j
    using that i q(3) D(1,9) by (cases "j = i") auto
  have lv: "live (t[i := q] ! j) = (live (t ! j))" "j \<noteq> i \<Longrightarrow> t[i := q] ! j = t ! j" if "j < 32" for j
    using that i q(1) D(1) by (cases "j = i"; auto)+
  show ?thesis
    unfolding res_inv_def st
  proof (intro conjI allI impI)
    fix j k :: nat assume jk: "j < 32" "k < 32" "j \<noteq> k"
    then show "set (own (t[i := q] ! j)) \<inter> set (own (t[i := q] ! k)) = {}" using D(7) by (simp add: own)
  next
    fix j k :: nat assume jk: "j < 32" "k < 32" "j \<noteq> k \<and> live (t[i := q] ! j) \<and> live (t[i := q] ! k)"
    then have "j \<noteq> i" "k \<noteq> i" using q(1) D(1) i by auto
    then show "pid (t[i := q] ! j) \<noteq> pid (t[i := q] ! k)" "kstack (t[i := q] ! j) \<noteq> kstack (t[i := q] ! k)"
      using D(10) jk lv by auto
  next
    fix j :: nat assume j: "j < 32"
    show "proc_wf (t[i := q] ! j)" using D(1,4) j q(2) i by (cases "j = i") auto
    show "distinct (own (t[i := q] ! j))" "set (own (t[i := q] ! j)) \<subseteq> alloced pm'" using D(5,6) [OF j] pm(2) by (auto simp: own [OF j])
    show "if live (t[i := q] ! j) then pid (t[i := q] ! j) \<noteq> 0 \<and> kstack (t[i := q] ! j) \<noteq> 0 else own (t[i := q] ! j) = []"
      using D(8,9) [OF j] j i q D(1) by (cases "j = i") auto
  qed (use D(1) pm(1) h in auto)
qed

lemma abandon_ok:
  assumes i: "i < 32" "\<not> live (table s ! i)" and run: "run_inv s" and res: "res_inv (table s) (frames s) (heap s)"
    and h: "heap_ok (heap s) (insert (kstack p) (stacks (table s)))" "kstack p \<notin> stacks (table s)"
    and p: "own p = []" and f: "fresh_space s p s1"
  obtains s' where "abandon i p s1 = Some (- 1, s')" "sched_inv s'" "cur s' = cur s" "state (table s' ! i) = P_EMPTY" "\<And>j. j \<noteq> i \<Longrightarrow> table s' ! j = table s ! j"
proof -
  have s1: "same_table s s1" "pmm_inv (frames s1)" "alloced (frames s) \<subseteq> alloced (frames s1)" "proc_wf p" using f by (auto simp: fresh_space_def)
  note T = same_tableD [OF s1(1)]
  obtain h' where f: "kfree (kstack p) (heap s) = Some h'" "heap_ok h' (insert (kstack p) (stacks (table s)) - {kstack p})"
    by (rule kfree_stack [OF h(1)]) (auto intro: that)
  have h': "heap_ok h' (stacks (table s))" using f(2) h(2) by (auto intro: heap_ok_mono)
  define q where "q = p\<lparr>state := P_EMPTY, pid := 0\<rparr>"
  define s' where "s' = s1\<lparr>heap := h', table := (table s)[i := q]\<rparr>"
  have q: "\<not> live q" "proc_wf q" "own q = []" using p s1(4) by (simp_all add: q_def live_def)
  have "res_inv (table s') (frames s') (heap s')"
    using empty_slot_inv [OF res i q s1(2,3) h'] by (simp add: s'_def)
  moreover have "run_inv s'"
    unfolding run_inv_def
  proof (intro conjI allI impI)
    fix j :: nat assume j: "j < 32"
    have "cur s \<noteq> Some i" using run i unfolding run_inv_def live_def by force
    then show "state (table s' ! j) = P_RUNNING \<longleftrightarrow> cur s' = Some j"
      using run j i res_invD(1) [OF res] by (cases "j = i") (auto simp: T run_inv_def q_def s'_def)
  qed (use run T in \<open>auto simp: run_inv_def s'_def\<close>)
  ultimately have "sched_inv s'" by (simp add: sched_inv_def)
  moreover have "abandon i p s1 = Some (- 1, s')" using f(1) T(1,3) by (simp add: abandon_def s'_def q_def)
  moreover have "state (table s' ! i) = P_EMPTY" using i(1) res_invD(1) [OF res] by (simp add: s'_def q_def)
  ultimately show thesis using that [of s'] T by (simp add: s'_def)
qed

lemma zero_process_wf: "p = zero_process\<lparr>pid := a, kstack := b, pname := c\<rparr> \<Longrightarrow> proc_wf p \<and> own p = [] \<and> stk_pages p = replicate 4 0
    \<and> nz (code_frames p) = [] \<and> code_source None 0 p"
  by (simp add: proc_wf_def own_def zero_process_def code_source_def)


section \<open>The scheduler\<close>

definition run_pre :: "sched \<Rightarrow> bool" where
  "run_pre s \<longleftrightarrow> (\<forall>i. cur s = Some i \<longrightarrow> i < 32 \<and> live (table s ! i)) \<and> (\<forall>i < 32. state (table s ! i) = P_RUNNING \<longrightarrow> cur s = Some i)"

lemma run_inv_pre: "run_inv s \<Longrightarrow> run_pre s"
  by (auto simp: run_inv_def run_pre_def live_def)

lemma rr_idx_lt: "rr_idx c k < 32"
  by (simp add: rr_idx_def MAX_PROC_def split: option.split)

lemma mod_shift:
  assumes "j < (32 :: nat)" "i < 32"
  shows "\<exists>k. 1 \<le> k \<and> k \<le> 32 \<and> (i + k) mod 32 = j"
proof (cases "i < j")
  case True
  then show ?thesis using assms by (intro exI [of _ "j - i"]) auto
next
  case False
  have "(i + (32 + j - i)) mod 32 = j" using False assms by simp
  then show ?thesis using False assms by (intro exI [of _ "32 + j - i"]) auto
qed

lemma rr_idx_surj:
  assumes "j < 32" "\<forall>i. c = Some i \<longrightarrow> i < 32"
  obtains k where "1 \<le> k" "k \<le> 32" "rr_idx c k = j"
proof (cases c)
  case None
  show thesis by (rule that [of "Suc j"]) (use assms(1) None in \<open>simp_all add: rr_idx_def MAX_PROC_def\<close>)
next
  case (Some i)
  then show thesis using mod_shift [OF assms(1), of i] assms(2) that by (auto simp: rr_idx_def MAX_PROC_def)
qed

text \<open>The choice of \<^verbatim>\<open>pick_ready\<close>: the first ready process after the current one, and \<open>skip\<close> only as a last resort.\<close>

lemma pick_ready_cases:
  assumes "\<forall>i. cur s = Some i \<longrightarrow> i < 32" "\<forall>i. skip = Some i \<longrightarrow> i < 32"
  obtains (pick) k where "1 \<le> k" "k \<le> 32" "pick_ready skip s = Some (rr_idx (cur s) k)" "state (table s ! rr_idx (cur s) k) = P_READY"
      "Some (rr_idx (cur s) k) \<noteq> skip"
      "\<forall>l. 1 \<le> l \<and> l < k \<longrightarrow> state (table s ! rr_idx (cur s) l) \<noteq> P_READY \<or> Some (rr_idx (cur s) l) = skip"
  | (again) i where "skip = Some i" "pick_ready skip s = Some i" "state (table s ! i) = P_READY"
      "\<forall>j < 32. j \<noteq> i \<longrightarrow> state (table s ! j) \<noteq> P_READY"
  | (idle) "pick_ready skip s = None" "\<forall>j < 32. state (table s ! j) \<noteq> P_READY"
proof (cases "find_from (\<lambda>k. state (table s ! rr_idx (cur s) k) = P_READY \<and> Some (rr_idx (cur s) k) \<noteq> skip) 1 (MAX_PROC + 1)")
  case (Some k)
  have "pick_ready skip s = Some (rr_idx (cur s) k)" unfolding pick_ready_def Some by simp
  then show thesis using find_from_SomeD [OF Some] by (intro pick [of k]) (auto simp: MAX_PROC_def)
next
  case None
  have none: "state (table s ! j) \<noteq> P_READY \<or> Some j = skip" if "j < 32" for j
  proof -
    obtain k where "1 \<le> k" "k \<le> 32" "rr_idx (cur s) k = j" using rr_idx_surj [OF \<open>j < 32\<close> assms(1)] by blast
    then show ?thesis using None by (auto simp: find_from_None MAX_PROC_def)
  qed
  show thesis
  proof (cases "\<exists>i. skip = Some i \<and> state (table s ! i) = P_READY")
    case True
    then obtain i where i: "skip = Some i" "state (table s ! i) = P_READY" by blast
    have "pick_ready skip s = Some i" unfolding pick_ready_def None using i by simp
    then show thesis using again i none by blast
  next
    case False
    then have "pick_ready skip s = None" unfolding pick_ready_def None by (auto split: option.splits)
    then show thesis using idle none False by metis
  qed
qed

lemma wake_sleepers_fields [simp]:
  "length (table (wake_sleepers s)) = length (table s)" "cur (wake_sleepers s) = cur s" "frames (wake_sleepers s) = frames s"
  "heap (wake_sleepers s) = heap s" "sched_ready (wake_sleepers s) = sched_ready s" "clk (wake_sleepers s) = clk s"
  by (simp_all add: wake_sleepers_def)

lemma wake_sleepers_nth:
  "i < length (table s) \<Longrightarrow> table (wake_sleepers s) ! i =
     (if state (table s ! i) = P_SLEEPING \<and> waketick (table s ! i) \<le> ticks (clk s) then (table s ! i)\<lparr>state := P_READY\<rparr> else table s ! i)"
  by (simp add: wake_sleepers_def timer_get_ticks_def)

lemma wake_sleepers_res: "i < length (table s) \<Longrightarrow> same_res (table (wake_sleepers s) ! i) (table s ! i)"
  by (simp add: wake_sleepers_nth same_res_def live_def)

lemma upd_proc_fields [simp]:
  "length (table (upd_proc i f s)) = length (table s)" "cur (upd_proc i f s) = cur s" "frames (upd_proc i f s) = frames s"
  "heap (upd_proc i f s) = heap s" "sched_ready (upd_proc i f s) = sched_ready s" "clk (upd_proc i f s) = clk s"
  by (simp_all add: upd_proc_def)

lemma upd_proc_nth: "i < length (table s) \<Longrightarrow> table (upd_proc i f s) ! j = (if j = i then f (table s ! i) else table s ! j)"
  by (simp add: upd_proc_def nth_list_update)

text \<open>A change of the table that keeps resources.\<close>

definition keeps_res :: "sched \<Rightarrow> sched \<Rightarrow> bool" where
  "keeps_res s s' \<longleftrightarrow> length (table s') = length (table s) \<and> frames s' = frames s \<and> heap s' = heap s
     \<and> (\<forall>i < length (table s). same_res (table s' ! i) (table s ! i))"

lemma keeps_res_trans: "keeps_res s s' \<Longrightarrow> keeps_res s' s'' \<Longrightarrow> keeps_res s s''"
  by (auto simp: keeps_res_def same_res_def)

lemma keeps_res_inv: "keeps_res s s' \<Longrightarrow> res_inv (table s) (frames s) (heap s) \<Longrightarrow> res_inv (table s') (frames s') (heap s')"
  using res_inv_cong [of "table s" "frames s" "heap s" "table s'"] res_invD(1) by (auto simp: keeps_res_def)

lemma keeps_res_wake: "keeps_res s (wake_sleepers s)"
  by (simp add: keeps_res_def wake_sleepers_res)

lemma keeps_res_upd:
  "i < length (table s) \<Longrightarrow> same_res (f (table s ! i)) (table s ! i) \<Longrightarrow> keeps_res s (upd_proc i f s)"
  by (auto simp: keeps_res_def upd_proc_nth same_res_def)

lemma keeps_res_switch: "i < length (table s) \<Longrightarrow> live (table s ! i) \<Longrightarrow> keeps_res s (switch_to i s)"
  using keeps_res_upd [of i s "\<lambda>p. p\<lparr>state := P_RUNNING\<rparr>"] by (simp add: keeps_res_def switch_to_def same_res_def live_def)

lemma keeps_res_fields: "keeps_res s s1 \<Longrightarrow> table s2 = table s1 \<Longrightarrow> frames s2 = frames s1 \<Longrightarrow> heap s2 = heap s1 \<Longrightarrow> keeps_res s s2"
  by (simp add: keeps_res_def)

lemma switch_to_fields [simp]:
  "length (table (switch_to i s)) = length (table s)" "cur (switch_to i s) = Some i" "sched_ready (switch_to i s) = sched_ready s"
  "clk (switch_to i s) = clk s"
  by (simp_all add: switch_to_def upd_proc_def)

lemma switch_to_nth: "i < length (table s) \<Longrightarrow> table (switch_to i s) ! j = (if j = i then (table s ! i)\<lparr>state := P_RUNNING\<rparr> else table s ! j)"
  by (simp add: switch_to_def upd_proc_def nth_list_update)

text \<open>After a switch the running process is the current one, provided nobody was running before.\<close>

lemma switch_run_inv:
  assumes "length (table s) = 32" "i < 32" "\<forall>j < 32. state (table s ! j) \<noteq> P_RUNNING"
  shows "run_inv (switch_to i s)"
  using assms by (auto simp: run_inv_def switch_to_nth)

definition ready_now :: "sched \<Rightarrow> nat \<Rightarrow> bool" where
  "ready_now s j \<longleftrightarrow> state (table s ! j) = P_READY"

text \<open>The whole effect of \<^verbatim>\<open>sched_reschedule\<close>.\<close>

definition resched_spec :: "sched \<Rightarrow> sched \<Rightarrow> bool" where
  "resched_spec s s' \<longleftrightarrow> keeps_res s s' \<and> run_inv s' \<and> sched_ready s' = sched_ready s \<and> clk s' = clk s
     \<and> (\<forall>j < 32. ready_now s j \<and> cur s \<noteq> Some j \<longrightarrow> cur s' = Some j \<or> table s' ! j = table s ! j)
     \<and> (\<forall>j k. j < 32 \<and> ready_now s j \<and> cur s \<noteq> Some j \<and> (cur s = None \<longrightarrow> sched_ready s) \<and> 1 \<le> k \<and> k \<le> 32 \<and> rr_idx (cur s) k = j
           \<longrightarrow> (\<exists>k'. 1 \<le> k' \<and> k' \<le> k \<and> cur s' = Some (rr_idx (cur s) k')))"

lemma resched_kernel:
  assumes res: "res_inv (table s) (frames s) (heap s)" and pre: "run_pre s" and c: "cur s = None"
  shows "resched_spec s (snd (sched_reschedule ctx0 s))"
proof -
  note D = res_invD [OF res]
  define s1 where "s1 = wake_sleepers s"
  have l1: "length (table s1) = 32" "cur s1 = None" "sched_ready s1 = sched_ready s" using D(1) c by (simp_all add: s1_def)
  have nr: "\<forall>j < 32. state (table s1 ! j) \<noteq> P_RUNNING" using pre c D(1) by (auto simp: s1_def wake_sleepers_nth run_pre_def)
  have kr: "keeps_res s s1" by (simp add: s1_def keeps_res_wake)
  have rd: "table s1 ! j = table s ! j" if "j < 32" "ready_now s j" for j
    using that D(1) by (simp add: s1_def wake_sleepers_nth ready_now_def)
  have idle: "resched_spec s s1" if "\<not> (\<exists>j < 32. ready_now s j) \<or> \<not> sched_ready s"
    unfolding resched_spec_def using kr nr l1 rd that c by (auto simp: run_inv_def s1_def)
  show ?thesis
  proof (cases "sched_ready s")
    case False
    then have "snd (sched_reschedule ctx0 s) = s1" using c by (simp add: sched_reschedule_def s1_def Let_def)
    then show ?thesis using idle False by simp
  next
    case True
    have cc: "\<forall>i. cur s1 = Some i \<longrightarrow> i < 32" "\<forall>i. None = Some i \<longrightarrow> i < (32 :: nat)" using l1(2) by auto
    from cc show ?thesis
    proof (cases rule: pick_ready_cases)
      case (pick k)
      define i where "i = rr_idx None k"
      define s2 where "s2 = s1\<lparr>kernel_ctx := ctx0, kernel_ctx_valid := True\<rparr>"
      define s3 where "s3 = upd_proc i (\<lambda>p. p\<lparr>preempts := preempts p + 1\<rparr>) (switch_to i s2)"
      have i: "i < 32" "state (table s1 ! i) = P_READY" using pick(4) l1(2) rr_idx_lt by (simp_all add: i_def)
      have e: "snd (sched_reschedule ctx0 s) = s3"
        using c True pick(3) l1 by (simp add: sched_reschedule_def Let_def s1_def [symmetric] s2_def s3_def i_def)
      have k2: "keeps_res s s2" by (rule keeps_res_fields [OF kr]) (simp_all add: s2_def)
      have t2: "table s2 = table s1" by (simp add: s2_def)
      have k3: "keeps_res s2 (switch_to i s2)" using i l1 by (intro keeps_res_switch) (simp_all add: t2 live_def)
      have k4: "keeps_res (switch_to i s2) s3"
        unfolding s3_def using i l1 by (intro keeps_res_upd) (simp_all add: t2 same_res_def live_def)
      have ri: "run_inv (switch_to i s2)" by (rule switch_run_inv) (use l1 i nr in \<open>simp_all add: t2\<close>)
      have "run_inv s3" using ri l1 i by (auto simp: run_inv_def s3_def upd_proc_nth t2)
      moreover have "keeps_res s s3" using k2 k3 k4 keeps_res_trans by blast
      moreover have "cur s3 = Some i" "sched_ready s3 = sched_ready s" "clk s3 = clk s" by (simp_all add: s3_def s2_def s1_def)
      moreover have "table s3 ! j = table s ! j" if "j < 32" "ready_now s j" "j \<noteq> i" for j
        using rd [OF that(1,2)] that(3) l1 i by (simp add: s3_def upd_proc_nth switch_to_nth t2)
      moreover have "k \<le> l" if "rr_idx None l < 32" "ready_now s (rr_idx None l)" "1 \<le> l" for l
        using pick(6) that rd [of "rr_idx None l"] l1(2) by (force simp: ready_now_def not_le [symmetric])
      ultimately show ?thesis
        unfolding e resched_spec_def using pick(1) c i_def by (auto simp: rr_idx_lt)
    next
      case (again i)
      then show ?thesis by simp
    next
      case idl: idle
      have "snd (sched_reschedule ctx0 s) = s1"
        using c True idl(1) l1 by (simp add: sched_reschedule_def Let_def s1_def [symmetric])
      moreover have "\<not> (\<exists>j < 32. ready_now s j)" using idl(2) rd by (metis ready_now_def)
      ultimately show ?thesis using idle by simp
    qed
  qed
qed

lemma resched_user:
  assumes res: "res_inv (table s) (frames s) (heap s)" and pre: "run_pre s" and c: "cur s = Some self"
  shows "resched_spec s (snd (sched_reschedule ctx0 s))"
proof -
  note D = res_invD [OF res]
  have self: "self < 32" "live (table s ! self)" using pre c by (auto simp: run_pre_def)
  define s1 where "s1 = wake_sleepers s"
  have c1: "cur s1 = Some self" using c by (simp add: s1_def)
  define ra where "ra = (state (table s1 ! self) = P_RUNNING)"
  define s2 where "s2 = upd_proc self (\<lambda>p. p\<lparr>preempts := preempts p + 1\<rparr>) (if ra then upd_proc self (\<lambda>p. p\<lparr>state := P_READY\<rparr>) s1 else s1)"
  have l1: "length (table s1) = 32" using D(1) by (simp add: s1_def)
  have l2: "length (table s2) = 32" "cur s2 = Some self" "sched_ready s2 = sched_ready s" "clk s2 = clk s"
    using l1 c by (simp_all add: s2_def s1_def)
  have nth2: "table s2 ! j = (if j = self then ((if ra then (table s1 ! self)\<lparr>state := P_READY\<rparr> else table s1 ! self)
      \<lparr>preempts := preempts (table s1 ! self) + 1\<rparr>) else table s1 ! j)" for j
    using l1 self by (simp add: s2_def upd_proc_nth)
  have lv1: "live (table s1 ! self)" using self D(1) by (simp add: s1_def wake_sleepers_nth live_def)
  have kr: "keeps_res s s2"
  proof -
    have "keeps_res s1 (if ra then upd_proc self (\<lambda>p. p\<lparr>state := P_READY\<rparr>) s1 else s1)"
      using l1 self lv1 keeps_res_upd [of self s1 "\<lambda>p. p\<lparr>state := P_READY\<rparr>"] by (auto simp: keeps_res_def same_res_def live_def)
    moreover have "keeps_res (if ra then upd_proc self (\<lambda>p. p\<lparr>state := P_READY\<rparr>) s1 else s1) s2"
      unfolding s2_def using l1 self by (intro keeps_res_upd) (auto simp: same_res_def live_def)
    ultimately show ?thesis using keeps_res_wake [of s] keeps_res_trans unfolding s1_def by blast
  qed
  have nr: "\<forall>j < 32. state (table s2 ! j) \<noteq> P_RUNNING"
  proof (intro allI impI)
    fix j :: nat assume j: "j < 32"
    show "state (table s2 ! j) \<noteq> P_RUNNING"
    proof (cases "j = self")
      case False
      then have "state (table s ! j) \<noteq> P_RUNNING" using pre c j by (auto simp: run_pre_def)
      then show ?thesis using False j D(1) by (simp add: nth2 s1_def wake_sleepers_nth)
    qed (auto simp: nth2 ra_def)
  qed
  have rd: "table s2 ! j = table s ! j" if "j < 32" "ready_now s j" "j \<noteq> self" for j
    using that D(1) by (simp add: nth2 s1_def wake_sleepers_nth ready_now_def)
  define skip where "skip = (if ra then Some self else None)"
  have body: "snd (sched_reschedule ctx0 s) =
      (case pick_ready skip s2 of None \<Rightarrow> s2\<lparr>cur := None, hw_cr3 := BOOT_PML4\<rparr>
       | Some i \<Rightarrow> switch_to i (upd_proc self (\<lambda>p. p\<lparr>ctx := ctx0\<rparr>) s2))"
    unfolding sched_reschedule_def Let_def s1_def [symmetric] c1 option.case ra_def [symmetric] s2_def [symmetric] skip_def [symmetric]
    by (cases "pick_ready skip s2") simp_all
  have sw: "resched_spec s (switch_to i (upd_proc self (\<lambda>p. p\<lparr>ctx := ctx0\<rparr>) s2))"
    if i: "i < 32" "state (table s2 ! i) = P_READY"
      "\<And>j k. j < 32 \<Longrightarrow> ready_now s j \<Longrightarrow> j \<noteq> self \<Longrightarrow> 1 \<le> k \<Longrightarrow> k \<le> 32 \<Longrightarrow> rr_idx (Some self) k = j \<Longrightarrow>
         \<exists>k'. 1 \<le> k' \<and> k' \<le> k \<and> i = rr_idx (Some self) k'" for i
  proof -
    define s3 where "s3 = upd_proc self (\<lambda>p. p\<lparr>ctx := ctx0\<rparr>) s2"
    have l3: "length (table s3) = 32" using l2 by (simp add: s3_def)
    have n3: "table s3 ! j = (if j = self then (table s2 ! self)\<lparr>ctx := ctx0\<rparr> else table s2 ! j)" for j
      using l2 self by (simp add: s3_def upd_proc_nth)
    have k3: "keeps_res s2 s3" unfolding s3_def using l2 self by (intro keeps_res_upd) (auto simp: same_res_def live_def)
    have "live (table s3 ! i)" using i(2) by (auto simp: n3 live_def)
    then have k4: "keeps_res s3 (switch_to i s3)" using i(1) l3 by (intro keeps_res_switch) simp_all
    have "run_inv (switch_to i s3)" by (rule switch_run_inv [OF l3 i(1)]) (use nr in \<open>simp add: n3\<close>)
    moreover have "keeps_res s (switch_to i s3)" using kr k3 k4 keeps_res_trans by blast
    moreover have "sched_ready (switch_to i s3) = sched_ready s" "clk (switch_to i s3) = clk s" "cur (switch_to i s3) = Some i"
      using l2 by (simp_all add: s3_def)
    moreover have "table (switch_to i s3) ! j = table s ! j" if "j < 32" "ready_now s j" "j \<noteq> self" "j \<noteq> i" for j
      using rd [OF that(1,2,3)] that(3,4) i(1) l3 by (simp add: switch_to_nth n3)
    ultimately show ?thesis unfolding resched_spec_def s3_def [symmetric] using i(3) c by auto
  qed
  have cc: "\<forall>i. cur s2 = Some i \<longrightarrow> i < 32" "\<forall>i. skip = Some i \<longrightarrow> i < 32" using l2 self by (auto simp: skip_def)
  from cc show ?thesis
  proof (cases rule: pick_ready_cases)
    case (pick k)
    have low: "k \<le> l" if "ready_now s (rr_idx (Some self) l)" "rr_idx (Some self) l \<noteq> self" "1 \<le> l" for l
    proof (rule ccontr)
      assume "\<not> k \<le> l"
      then have "state (table s2 ! rr_idx (Some self) l) \<noteq> P_READY \<or> Some (rr_idx (Some self) l) = skip"
        using pick(6) that(3) l2(2) by auto
      then show False using rd [OF rr_idx_lt that(1,2)] that(1,2) by (auto simp: ready_now_def skip_def split: if_splits)
    qed
    show ?thesis
      unfolding body pick(3) option.case using pick(1,2,4) l2(2) low by (intro sw) (auto simp: rr_idx_lt)
  next
    case (again i)
    then have "i = self" by (auto simp: skip_def split: if_splits)
    show ?thesis
      unfolding body again(2) option.case
    proof (rule sw)
      show "i < 32" using \<open>i = self\<close> self by simp
      show "state (table s2 ! i) = P_READY" by (rule again(3))
      fix j k assume "j < 32" "ready_now s j" "j \<noteq> self"
      then have "state (table s2 ! j) = P_READY" using rd [of j] by (simp add: ready_now_def)
      then show "\<exists>k'. 1 \<le> k' \<and> k' \<le> k \<and> i = rr_idx (Some self) k'"
        using again(4) \<open>j < 32\<close> \<open>j \<noteq> self\<close> \<open>i = self\<close> by auto
    qed
  next
    case idle
    have no: "\<not> ready_now s j" if "j < 32" "j \<noteq> self" for j
      using idle(2) rd [of j] that by (auto simp: ready_now_def)
    have "run_inv (s2\<lparr>cur := None, hw_cr3 := BOOT_PML4\<rparr>)" using nr by (simp add: run_inv_def)
    moreover have "keeps_res s (s2\<lparr>cur := None, hw_cr3 := BOOT_PML4\<rparr>)" by (rule keeps_res_fields [OF kr]) simp_all
    ultimately show ?thesis unfolding body idle(1) option.case resched_spec_def using no l2 c by auto
  qed
qed

lemma reschedule_ok:
  assumes "res_inv (table s) (frames s) (heap s)" "run_pre s"
  shows "resched_spec s (snd (sched_reschedule c s))"
  using resched_kernel [OF assms] resched_user [OF assms] by (cases "cur s") auto

lemma reschedule_inv:
  "res_inv (table s) (frames s) (heap s) \<Longrightarrow> run_pre s \<Longrightarrow> sched_inv (snd (sched_reschedule c s))"
  using reschedule_ok [of s c] keeps_res_inv by (auto simp: resched_spec_def sched_inv_def)

text \<open>The events that end in a scheduling decision.\<close>

datatype sched_event = Ev_Tick | Ev_Yield | Ev_Sleep u64 | Ev_Exit u64 | Ev_Fault

fun sched_event_step :: "sched_event \<Rightarrow> u64 \<Rightarrow> sched \<Rightarrow> u64 \<times> sched" where
  "sched_event_step Ev_Tick c s = sched_tick c (s\<lparr>clk := timer_irq (clk s)\<rparr>)"
| "sched_event_step Ev_Yield c s = sys_yield c s"
| "sched_event_step (Ev_Sleep n) c s = sys_sleep n c s"
| "sched_event_step (Ev_Exit e) c s = sys_exit e c s"
| "sched_event_step Ev_Fault c s = sched_userpf_kill c s"

text \<open>An event of the current process needs one, and a sleep of no time is not a scheduling decision.\<close>

fun event_ok :: "sched_event \<Rightarrow> sched \<Rightarrow> bool" where
  "event_ok Ev_Tick s = True"
| "event_ok (Ev_Sleep n) s = (cur s \<noteq> None \<and> n \<noteq> 0)"
| "event_ok _ s = (cur s \<noteq> None)"

lemma set_rax_fields [simp]:
  "table (set_rax c v s) = table s" "cur (set_rax c v s) = cur s" "frames (set_rax c v s) = frames s" "heap (set_rax c v s) = heap s"
  "sched_ready (set_rax c v s) = sched_ready s" "clk (set_rax c v s) = clk s"
  by (simp_all add: set_rax_def)

lemma run_pre_set_rax [simp]: "run_pre (set_rax c v s) = run_pre s"
  by (simp add: run_pre_def)

lemma run_pre_clk [simp]: "run_pre (s\<lparr>clk := k\<rparr>) = run_pre s"
  by (simp add: run_pre_def)

lemma event_reschedule:
  assumes inv: "sched_inv s" and ev: "event_ok e s"
  obtains s1 where "sched_event_step e c s = sched_reschedule c s1" "res_inv (table s1) (frames s1) (heap s1)" "run_pre s1"
    "cur s1 = cur s" "sched_ready s1 = sched_ready s" "\<And>j. cur s \<noteq> Some j \<Longrightarrow> table s1 ! j = table s ! j"
proof -
  note goal = that
  have res: "res_inv (table s) (frames s) (heap s)" and run: "run_inv s" using inv by (auto simp: sched_inv_def)
  note D = res_invD [OF res]
  have upd: "thesis" if e: "sched_event_step e c s = sched_reschedule c (set_rax c v (upd_proc i f s)) \<or>
       sched_event_step e c s = sched_reschedule c (upd_proc i f s)" and i: "cur s = Some i"
       and f: "\<And>p. live p \<Longrightarrow> same_res (f p) p" for v i f
  proof -
    have il: "i < 32" "live (table s ! i)" using run i by (auto simp: run_inv_def live_def)
    have k: "keeps_res s (upd_proc i f s)" using il D(1) f by (intro keeps_res_upd) auto
    have r: "res_inv (table (upd_proc i f s)) (frames s) (heap s)" using keeps_res_inv [OF k res] by simp
    have lv: "live (f (table s ! i))" using f [OF il(2)] il(2) by (simp add: same_res_def)
    have pre: "run_pre (upd_proc i f s)"
      using run i il D(1) lv by (auto simp: run_pre_def run_inv_def upd_proc_nth)
    have oth: "table (upd_proc i f s) ! j = table s ! j" if "cur s \<noteq> Some j" for j
      using that i il D(1) by (cases "j = i") (simp_all add: upd_proc_nth)
    from e show thesis
    proof
      assume "sched_event_step e c s = sched_reschedule c (upd_proc i f s)"
      then show thesis by (rule goal) (use r pre oth in simp_all)
    next
      assume "sched_event_step e c s = sched_reschedule c (set_rax c v (upd_proc i f s))"
      then show thesis by (rule goal) (use r pre oth in simp_all)
    qed
  qed
  show thesis
  proof (cases e)
    case Ev_Tick
    then have "sched_event_step e c s = sched_reschedule c (s\<lparr>clk := timer_irq (clk s)\<rparr>)" by (simp add: sched_tick_def)
    then show thesis by (rule goal) (use res run_inv_pre [OF run] in simp_all)
  next
    case Ev_Yield
    then obtain i where i: "cur s = Some i" using ev by auto
    have "upd_proc i (\<lambda>p. p) s = s" by (simp add: upd_proc_def)
    then show thesis using upd [of 0 i "\<lambda>p. p"] Ev_Yield i by (simp add: sys_yield_def same_res_def)
  next
    case (Ev_Sleep n)
    then obtain i where "cur s = Some i" "n \<noteq> 0" using ev by auto
    then show thesis
      using upd [of 0 i "\<lambda>p. p\<lparr>state := P_SLEEPING, waketick := timer_get_ticks (clk s) + n div 10\<rparr>"] Ev_Sleep
      by (simp add: sys_sleep_def same_res_def live_def)
  next
    case (Ev_Exit n)
    then obtain i where "cur s = Some i" using ev by auto
    then show thesis
      using upd [of 0 i "\<lambda>p. p\<lparr>exitcode := ucast n, state := P_ZOMBIE\<rparr>"] Ev_Exit by (simp add: sys_exit_def same_res_def live_def)
  next
    case Ev_Fault
    then obtain i where "cur s = Some i" using ev by auto
    then show thesis
      using upd [of 0 i "\<lambda>p. p\<lparr>exitcode := 128 + 14, state := P_ZOMBIE\<rparr>"] Ev_Fault by (simp add: sched_userpf_kill_def same_res_def live_def)
  qed
qed

lemma event_inv: "sched_inv s \<Longrightarrow> event_ok e s \<Longrightarrow> sched_inv (snd (sched_event_step e c s))"
  by (rule event_reschedule [of s e c]) (auto intro: reschedule_inv)

text \<open>How many slots after the current one the slot \<open>j\<close> comes.\<close>

definition rr_dist :: "nat option \<Rightarrow> nat \<Rightarrow> nat" where
  "rr_dist c j = (case c of None \<Rightarrow> Suc j | Some i \<Rightarrow> if i < j then j - i else 32 + j - i)"

lemma rr_dist_idx:
  assumes "j < 32" "\<forall>i. c = Some i \<longrightarrow> i < 32"
  shows "1 \<le> rr_dist c j" "rr_dist c j \<le> 32" "rr_idx c (rr_dist c j) = j"
proof -
  show "1 \<le> rr_dist c j" "rr_dist c j \<le> 32" using assms by (auto simp: rr_dist_def split: option.splits)
  show "rr_idx c (rr_dist c j) = j"
  proof (cases c)
    case (Some i)
    then show ?thesis using assms by (cases "i < j") (auto simp: rr_idx_def rr_dist_def MAX_PROC_def)
  qed (use assms in \<open>simp add: rr_idx_def rr_dist_def MAX_PROC_def\<close>)
qed

lemma mod32: "x < 64 \<Longrightarrow> x mod 32 = (if x < 32 then x else x - (32 :: nat))"
  by (simp add: le_mod_geq)

lemma rr_dist_less:
  assumes "j < 32" "\<forall>i. c = Some i \<longrightarrow> i < 32" "1 \<le> k" "k \<le> rr_dist c j" "rr_idx c k \<noteq> j"
  shows "rr_dist (Some (rr_idx c k)) j < rr_dist c j"
proof -
  have lt: "k < rr_dist c j" using assms rr_dist_idx(3) [OF assms(1,2)] by (metis le_neq_implies_less)
  show ?thesis
  proof (cases c)
    case None
    then have "rr_idx c k = k - 1" using lt assms(1,3) by (simp add: rr_idx_def rr_dist_def MAX_PROC_def)
    then show ?thesis using None lt assms(1,3) by (auto simp: rr_dist_def)
  next
    case (Some i)
    then have i: "i < 32" using assms(2) by simp
    have "rr_idx c k = (if i + k < 32 then i + k else i + k - 32)"
      using Some i lt assms(1) mod32 [of "i + k"] by (auto simp: rr_idx_def rr_dist_def MAX_PROC_def split: if_splits)
    then show ?thesis using Some i lt assms(1,3) by (auto simp: rr_dist_def split: if_splits)
  qed
qed

text \<open>The states after each of a sequence of events with their contexts.\<close>

fun run_events :: "(sched_event \<times> u64) list \<Rightarrow> sched \<Rightarrow> sched list" where
  "run_events [] s = [s]"
| "run_events ((e, c) # es) s = s # run_events es (snd (sched_event_step e c s))"

fun events_ok :: "(sched_event \<times> u64) list \<Rightarrow> sched \<Rightarrow> bool" where
  "events_ok [] s = True"
| "events_ok ((e, c) # es) s = (event_ok e s \<and> events_ok es (snd (sched_event_step e c s)))"

lemma fair_ind:
  "sched_inv s \<Longrightarrow> events_ok es s \<Longrightarrow> rr_dist (cur s) j \<le> length es \<Longrightarrow> j < 32 \<Longrightarrow> ready_now s j \<Longrightarrow> sched_ready s \<Longrightarrow>
     \<exists>n \<le> rr_dist (cur s) j. cur (run_events es s ! n) = Some j"
proof (induction es arbitrary: s)
  case Nil
  have "1 \<le> rr_dist (cur s) j" using Nil.prems by (intro rr_dist_idx) (auto simp: sched_inv_def run_inv_def)
  then show ?case using Nil by simp
next
  case (Cons ec es)
  obtain e c where ec: "ec = (e, c)" by fastforce
  have run: "run_inv s" using Cons.prems(1) by (simp add: sched_inv_def)
  have cl: "\<forall>i. cur s = Some i \<longrightarrow> i < 32" using run by (simp add: run_inv_def)
  have nj: "cur s \<noteq> Some j" using run Cons.prems(4,5) by (auto simp: run_inv_def ready_now_def)
  obtain s1 where s1: "sched_event_step e c s = sched_reschedule c s1" "res_inv (table s1) (frames s1) (heap s1)" "run_pre s1"
    "cur s1 = cur s" "sched_ready s1 = sched_ready s" "\<And>j. cur s \<noteq> Some j \<Longrightarrow> table s1 ! j = table s ! j"
    by (rule event_reschedule [OF Cons.prems(1), of e c]) (use Cons.prems(2) ec that in auto)
  define s2 where "s2 = snd (sched_event_step e c s)"
  have sp: "resched_spec s1 s2" using reschedule_ok [OF s1(2,3)] by (simp add: s2_def s1(1))
  have r1: "ready_now s1 j" using s1(6) [OF nj] Cons.prems(5) by (simp add: ready_now_def)
  note R = rr_dist_idx [OF Cons.prems(4) cl]
  obtain k where k: "1 \<le> k" "k \<le> rr_dist (cur s) j" "cur s2 = Some (rr_idx (cur s) k)"
    using sp r1 nj R Cons.prems(4,6) s1(4,5) unfolding resched_spec_def by metis
  have nth: "run_events (ec # es) s ! Suc n = run_events es s2 ! n" for n by (simp add: ec s2_def)
  have hd: "run_events es s2 ! 0 = s2" by (cases es) auto
  show ?case
  proof (cases "rr_idx (cur s) k = j")
    case True
    then have "cur (run_events (ec # es) s ! 1) = Some j" using k(3) nth [of 0] hd by simp
    then show ?thesis using R(1) by blast
  next
    case False
    have less: "rr_dist (cur s2) j < rr_dist (cur s) j" using rr_dist_less [OF Cons.prems(4) cl k(1,2) False] k(3) by simp
    have inv2: "sched_inv s2" using event_inv [OF Cons.prems(1)] Cons.prems(2) by (simp add: ec s2_def)
    have rd2: "ready_now s2 j" "sched_ready s2"
      using sp r1 nj Cons.prems(4,6) False k(3) s1(4,5) unfolding resched_spec_def ready_now_def by auto
    obtain n where n: "n \<le> rr_dist (cur s2) j" "cur (run_events es s2 ! n) = Some j"
      using Cons.IH [OF inv2 _ _ Cons.prems(4) rd2] Cons.prems(2,3) less by (auto simp: ec s2_def)
    then have "Suc n \<le> rr_dist (cur s) j" "cur (run_events (ec # es) s ! Suc n) = Some j" using less nth by simp_all
    then show ?thesis by blast
  qed
qed

text \<open>
  C15. The scheduler is fair: once processes may run, a ready process is given the processor after at
  most 32 scheduling events, whatever these events are (timer ticks, and yields, sleeps, exits and
  page faults of the processes that run meanwhile).
\<close>

theorem round_robin_fair:
  assumes "sched_inv s" "sched_ready s" "j < 32" "state (table s ! j) = P_READY" "events_ok es s" "length es = 32"
  shows "\<exists>n \<le> 32. cur (run_events es s ! n) = Some j"
proof -
  have "rr_dist (cur s) j \<le> 32" using assms(1,3) by (intro rr_dist_idx) (auto simp: sched_inv_def run_inv_def)
  moreover obtain n where "n \<le> rr_dist (cur s) j" "cur (run_events es s ! n) = Some j"
    using fair_ind [of s es j] assms calculation by (auto simp: ready_now_def)
  ultimately show ?thesis by (intro exI [of _ n]) simp
qed


text \<open>A state in which the slot 3 holds a ready process and every other slot is empty.\<close>

definition proc_ex :: process where
  "proc_ex = zero_process\<lparr>pid := 1, kstack := 0x203010, state := P_READY\<rparr>"

definition sched_ex :: sched where
  "sched_ex = \<lparr>table = (replicate 32 zero_process)[3 := proc_ex], cur = None, kernel_ctx = 0, kernel_ctx_valid = False, sched_ready = True,
     img_frames = [], img_pages = 0, dev_pd = 0, frames = pmm_ex, heap = kheap_ex2, memory = (\<lambda>_. 0), clk = timer_init, tss_rsp0 = 0, hw_cr3 = BOOT_PML4\<rparr>"

lemma sched_ex_nth: "j < 32 \<Longrightarrow> table sched_ex ! j = (if j = 3 then proc_ex else zero_process)"
  by (simp add: sched_ex_def nth_list_update)

lemma sched_ex_inv: "sched_inv sched_ex"
proof -
  have z: "own zero_process = []" "proc_wf zero_process" "state zero_process = P_EMPTY" by (simp_all add: own_def zero_process_def proc_wf_def)
  have p: "own proc_ex = []" "proc_wf proc_ex" "state proc_ex = P_READY" "pid proc_ex = 1" "kstack proc_ex = 0x203010"
    using z by (simp_all add: proc_ex_def own_def zero_process_def proc_wf_def)
  have len: "length (table sched_ex) = 32" by (simp add: sched_ex_def)
  have "stacks (table sched_ex) \<subseteq> {0x203010}"
    using p z by (auto simp: stacks_def len sched_ex_nth live_def split: if_splits)
  then have "heap_ok kheap_ex2 (stacks (table sched_ex))"
    unfolding heap_ok_def using kheap_ex2_inv by (intro exI [of _ "[0x203078]"] exI [of _ "{0x203000}"]) (auto simp: HDR_def)
  then have "heap_ok (heap sched_ex) (stacks (table sched_ex))" by (simp add: sched_ex_def)
  moreover have "pmm_inv (frames sched_ex)" using pmm_ex_inv by (simp add: sched_ex_def)
  ultimately have "res_inv (table sched_ex) (frames sched_ex) (heap sched_ex)"
    unfolding res_inv_def using p z len by (simp add: sched_ex_nth live_def)
  moreover have "cur sched_ex = None" by (simp add: sched_ex_def)
  then have "run_inv sched_ex" unfolding run_inv_def using p z by (simp add: sched_ex_nth)
  ultimately show ?thesis by (simp add: sched_inv_def)
qed

lemma ticks_ok: "events_ok (map (Pair Ev_Tick) cs) s"
  by (induction cs arbitrary: s) simp_all

theorem round_robin_fair_witness:
  "sched_inv sched_ex \<and> (\<exists>n \<le> 32. cur (run_events (map (Pair Ev_Tick) (replicate 32 0)) sched_ex ! n) = Some 3)"
  by (intro conjI sched_ex_inv round_robin_fair [OF sched_ex_inv] ticks_ok) (simp_all add: sched_ex_def proc_ex_def)

end
