(* ===== verification/Elf.thy ===== *)
theory Elf
  imports Fs_Path Sched
begin

text \<open>
  Programs, \<^verbatim>\<open>kernel/sched.cpp\<close>: the ELF loader and the two ways to start a program from a file,
  \<^verbatim>\<open>sched_exec_file\<close> and \<^verbatim>\<open>sched_exec_self\<close>, and \<^verbatim>\<open>SYS_FORK\<close>. The file is read into the static buffer
  \<^verbatim>\<open>elf_buf\<close> of 16384 bytes by the file system of \<open>Fs\<close>; a failed read leaves the buffer as it was. The
  program headers are read at an offset taken from the file without a check: a read outside the
  buffer is the outcome \<open>Elf_Wild\<close>.
\<close>

section \<open>Headers\<close>

record elf =
  elf_buf :: bytes
  elf_len :: nat
  elf_entry :: u64

definition ELF_BUF :: nat where "ELF_BUF = 16384"

definition un64 :: "bytes \<Rightarrow> u64" where
  "un64 bs = ucast (un32 (sub_bytes bs 0 4)) OR push_bit 32 (ucast (un32 (sub_bytes bs 4 4)))"

record ehdr =
  e_entry :: u64
  e_phoff :: u64
  e_phentsize :: u16
  e_phnum :: u16

definition dec_ehdr :: "bytes \<Rightarrow> ehdr" where
  "dec_ehdr bs = \<lparr>e_entry = un64 (sub_bytes bs 24 8), e_phoff = un64 (sub_bytes bs 32 8), e_phentsize = un16 (sub_bytes bs 54 2),
     e_phnum = un16 (sub_bytes bs 56 2)\<rparr>"

record phdr =
  p_type :: u32
  p_offset :: u64
  p_vaddr :: u64
  p_filesz :: u64
  p_memsz :: u64

definition dec_phdr :: "bytes \<Rightarrow> phdr" where
  "dec_phdr bs = \<lparr>p_type = un32 (sub_bytes bs 0 4), p_offset = un64 (sub_bytes bs 8 8), p_vaddr = un64 (sub_bytes bs 16 8),
     p_filesz = un64 (sub_bytes bs 32 8), p_memsz = un64 (sub_bytes bs 40 8)\<rparr>"

definition elf_is_valid :: "bytes \<Rightarrow> bool" where
  "elf_is_valid buf \<longleftrightarrow> buf ! 0 = 0x7F \<and> buf ! 1 = 69 \<and> buf ! 2 = 76 \<and> buf ! 3 = 70"

text \<open>The note \<^verbatim>\<open>COFEUOS\<close> that marks the programs of this system, anywhere in the file.\<close>

definition COFEU_NOTE :: bytes where
  "COFEU_NOTE = [8, 0, 0, 0, 8, 0, 0, 0, 0xFE, 0xC0, 0, 0, 67, 79, 70, 69, 85, 79, 83, 0, 67, 79, 70, 69]"

definition elf_has_cofeu_note :: "elf \<Rightarrow> bool" where
  "elf_has_cofeu_note e \<longleftrightarrow>
     24 \<le> elf_len e \<and> find_from (\<lambda>off. sub_bytes (elf_buf e) off 24 = COFEU_NOTE) 0 (elf_len e - 23) \<noteq> None"

text \<open>\<^verbatim>\<open>phbase + pi * eh->phentsize\<close>\<close>

definition read_phdr :: "elf \<Rightarrow> ehdr \<Rightarrow> nat \<Rightarrow> phdr option" where
  "read_phdr e eh pi =
     (let off = e_phoff eh + of_nat pi * ucast (e_phentsize eh)
      in if ELF_BUF < unat off + 56 then None else Some (dec_phdr (sub_bytes (elf_buf e) (unat off) 56)))"

definition PT_LOAD :: u32 where "PT_LOAD = 1"

datatype 'a elf_result = Elf_Wild | Elf_Fail | Elf_Ok 'a

text \<open>A segment that is loaded: the guards shared by the two loops of \<^verbatim>\<open>elf_parse_and_load\<close>.\<close>

definition seg_skipped :: "phdr \<Rightarrow> bool" where
  "seg_skipped ph \<longleftrightarrow> p_type ph \<noteq> PT_LOAD \<or> p_memsz ph = 0 \<or> p_vaddr ph + p_memsz ph \<le> USER_IMG_BASE \<or> p_vaddr ph \<ge> USER_WINDOW_END"

definition seg_vp_end :: "phdr \<Rightarrow> u32" where
  "seg_vp_end ph = ucast (drop_bit 12 (p_vaddr ph + p_memsz ph - 1 - USER_IMG_BASE) + 1)"

text \<open>The first loop: the number of the last page, \<open>- 1\<close> without a segment.\<close>

fun scan_phdrs :: "nat list \<Rightarrow> elf \<Rightarrow> ehdr \<Rightarrow> int \<Rightarrow> int elf_result" where
  "scan_phdrs [] e eh highest = Elf_Ok highest"
| "scan_phdrs (pi # pis) e eh highest =
     (case read_phdr e eh pi of
        None \<Rightarrow> Elf_Wild
      | Some ph \<Rightarrow>
          if seg_skipped ph then scan_phdrs pis e eh highest
          else if p_vaddr ph < USER_IMG_BASE \<or> p_vaddr ph + p_memsz ph > USER_WINDOW_END then Elf_Fail
          else if seg_vp_end ph > of_nat USER_CODE_MAX_PAGES then Elf_Fail
          else scan_phdrs pis e eh (max highest (int (unat (seg_vp_end ph)))))"

text \<open>The pages: one more than the last page number needs.\<close>

fun alloc_pages :: "nat list \<Rightarrow> u64 list \<Rightarrow> sched \<Rightarrow> nat option \<times> u64 list \<times> sched" where
  "alloc_pages [] fs s = (None, fs, s)"
| "alloc_pages (i # is) fs s =
     (case alloc_zero_frame s of (f, s) \<Rightarrow>
        if f = 0 then (Some i, fs, s) else alloc_pages is (fs[i := f]) s)"

text \<open>The bytes of one page; the loop ends at the first offset outside the segment.\<close>

fun load_page :: "nat list \<Rightarrow> u64 \<Rightarrow> u64 \<Rightarrow> u64 \<Rightarrow> elf \<Rightarrow> phdr \<Rightarrow> mem \<Rightarrow> mem" where
  "load_page [] page page_voff voff0 e ph m = m"
| "load_page (off # offs) page page_voff voff0 e ph m =
     (let abs_off = page_voff + of_nat off - voff0
      in if abs_off \<ge> p_memsz ph then m
         else
           let file_off = p_offset ph + abs_off;
               m = (if abs_off < p_filesz ph \<and> file_off < of_nat (elf_len e)
                    then m(page + of_nat off := elf_buf e ! unat file_off) else m)
           in load_page offs page page_voff voff0 e ph m)"

fun load_pages :: "nat list \<Rightarrow> u64 list \<Rightarrow> u64 \<Rightarrow> elf \<Rightarrow> phdr \<Rightarrow> mem \<Rightarrow> mem" where
  "load_pages [] fs voff0 e ph m = m"
| "load_pages (vp # vps) fs voff0 e ph m =
     (let page = fs ! vp; m = memset page 0 4096 m;
          m = load_page [0..<4096] page (of_nat vp * 4096) voff0 e ph m
      in load_pages vps fs voff0 e ph m)"

definition load_segment :: "u64 list \<Rightarrow> elf \<Rightarrow> phdr \<Rightarrow> mem \<Rightarrow> mem" where
  "load_segment fs e ph m =
     (if seg_skipped ph then m
      else
        let voff0 = p_vaddr ph - USER_IMG_BASE;
            vp_start = (ucast (drop_bit 12 voff0) :: u32);
            vp_end = (ucast (drop_bit 12 (voff0 + p_memsz ph - 1) + 1) :: u32)
        in load_pages [unat vp_start..<unat vp_end] fs voff0 e ph m)"

fun load_segments :: "nat list \<Rightarrow> u64 list \<Rightarrow> elf \<Rightarrow> ehdr \<Rightarrow> mem \<Rightarrow> mem elf_result" where
  "load_segments [] fs e eh m = Elf_Ok m"
| "load_segments (pi # pis) fs e eh m =
     (case read_phdr e eh pi of
        None \<Rightarrow> Elf_Wild
      | Some ph \<Rightarrow> load_segments pis fs e eh (load_segment fs e ph m))"

text \<open>The result is the success flag; the process gets its code frames and their number.\<close>

definition elf_parse_and_load :: "elf \<Rightarrow> process \<Rightarrow> sched \<Rightarrow> (bool \<times> elf \<times> process \<times> sched) elf_result" where
  "elf_parse_and_load e p s =
     (let eh = dec_ehdr (elf_buf e)
      in if elf_len e < 60 \<or> \<not> elf_is_valid (elf_buf e) \<or> e_phentsize eh < 56 \<or> e_phnum eh = 0 then Elf_Ok (False, e, p, s)
         else
           let e = e\<lparr>elf_entry := e_entry eh\<rparr>; pis = [0..<unat (e_phnum eh)]
           in case scan_phdrs pis e eh (- 1) of
                Elf_Wild \<Rightarrow> Elf_Wild
              | Elf_Fail \<Rightarrow> Elf_Ok (False, e, p, s)
              | Elf_Ok highest \<Rightarrow>
                  if highest < 0 then Elf_Ok (False, e, p, s)
                  else
                    (case alloc_pages [0..<nat highest + 1] (code_frames p) s of
                       (Some i, fs, s) \<Rightarrow> Elf_Ok (False, e, p\<lparr>code_frames := fs, user_code_pages := i\<rparr>, s)
                     | (None, fs, s) \<Rightarrow>
                         let p = p\<lparr>code_frames := fs, user_code_pages := nat highest + 1\<rparr>
                         in case load_segments pis fs e eh (memory s) of
                              Elf_Ok m \<Rightarrow> Elf_Ok (True, e, p, s\<lparr>memory := m\<rparr>)
                            | _ \<Rightarrow> Elf_Wild))"


section \<open>Starting a program\<close>

text \<open>The file and its checks, the common beginning of the two functions; \<open>None\<close> is a refusal.\<close>

definition elf_fetch :: "bytes \<Rightarrow> cofeufs \<Rightarrow> elf \<Rightarrow> bool \<times> elf \<times> cofeufs" where
  "elf_fetch path d e =
     (let e = e\<lparr>elf_len := 0\<rparr>
      in case read_file 0 path ELF_BUF d of
           (None, d) \<Rightarrow> (False, e, d)
         | (Some bs, d) \<Rightarrow>
             let e = e\<lparr>elf_len := length bs, elf_buf := bs @ drop (length bs) (elf_buf e)\<rparr>
             in (60 \<le> elf_len e \<and> elf_is_valid (elf_buf e) \<and> elf_has_cofeu_note e, e, d))"

text \<open>The part of a path after its last slash.\<close>

definition base_name :: "bytes \<Rightarrow> bytes" where
  "base_name path = (case last_slash path of None \<Rightarrow> path | Some k \<Rightarrow> drop (k + 1) path)"

text \<open>
  \<^verbatim>\<open>sched_exec_file\<close>. The outer option is the heap search of \<open>new_process\<close>, \<open>Elf_Wild\<close> the read outside
  the buffer.
\<close>

definition sched_exec_file :: "bytes \<Rightarrow> cofeufs \<Rightarrow> elf \<Rightarrow> sched \<Rightarrow> (int \<times> sched) elf_result option" where
  "sched_exec_file path d e s =
     (if \<not> sched_ready s \<and> cur s \<noteq> None then Some (Elf_Ok (- 1, s))
      else
        (case elf_fetch path d e of
           (False, e, d) \<Rightarrow> Some (Elf_Ok (- 1, s))
         | (True, e, d) \<Rightarrow>
             (case new_process (proc_name (base_name path)) s of
                None \<Rightarrow> None
              | Some (Inl s) \<Rightarrow> Some (Elf_Ok (- 1, s))
              | Some (Inr (i, p, s)) \<Rightarrow>
                  let (p, s) = alloc_tables p s
                  in if no_tables p
                     then let (p, s) = vm_free p s in map_option Elf_Ok (abandon i p s)
                     else
                       (case elf_parse_and_load e p s of
                          Elf_Ok (False, e, p, s) \<Rightarrow> let (p, s) = vm_free p s in map_option Elf_Ok (abandon i p s)
                        | Elf_Ok (True, e, p, s) \<Rightarrow>
                            let (p, s) = vm_build (Some (code_frames p)) (user_code_pages p) p s
                            in if cr3 p = 0 then map_option Elf_Ok (abandon i p s)
                               else
                                 let p = p\<lparr>start_tick := timer_get_ticks (clk s)\<rparr>;
                                     (sp, m) = build_initial_context2 p (elf_entry e) (memory s)
                                 in Some (Elf_Ok (int (unat (pid p)),
                                      s\<lparr>memory := m, table := (table s)[i := p\<lparr>ctx := sp, state := P_READY\<rparr>]\<rparr>))
                        | _ \<Rightarrow> Some Elf_Wild))))"

text \<open>\<^verbatim>\<open>sched_exec_self\<close>: the new image replaces the address space of the current process.\<close>

definition take_space :: "process \<Rightarrow> process \<Rightarrow> process" where
  "take_space np p = p\<lparr>pml4 := pml4 np, pdpt := pdpt np, pd := pd np, pt := pt np, cr3 := cr3 np,
     user_code_pages := user_code_pages np, code_frames := code_frames np, stk_pages := stk_pages np\<rparr>"

definition sched_exec_self :: "u64 \<Rightarrow> bytes \<Rightarrow> cofeufs \<Rightarrow> elf \<Rightarrow> sched \<Rightarrow> (u64 \<times> sched) elf_result" where
  "sched_exec_self c path d e s =
     (case cur s of
        None \<Rightarrow> Elf_Ok (c, s)
      | Some self \<Rightarrow>
          (case elf_fetch path d e of
             (False, e, d) \<Rightarrow> Elf_Ok (c, s)
           | (True, e, d) \<Rightarrow>
               let (np, s) = alloc_tables zero_process s
               in if no_tables np then let (np, s) = vm_free np s in Elf_Ok (c, s)
                  else
                    (case elf_parse_and_load e np s of
                       Elf_Ok (False, e, np, s) \<Rightarrow> let (np, s) = vm_free np s in Elf_Ok (c, s)
                     | Elf_Ok (True, e, np, s) \<Rightarrow>
                         let (np, s) = vm_build (Some (code_frames np)) (user_code_pages np) np s
                         in if cr3 np = 0 then let (np, s) = vm_free np s in Elf_Ok (c, s)
                            else
                              let (p, s) = vm_free (table s ! self) s; p = take_space np p;
                                  (sp, m) = build_initial_context2 p (elf_entry e) (memory s)
                              in Elf_Ok (sp, s\<lparr>memory := m, table := (table s)[self := p\<lparr>ctx := sp\<rparr>]\<rparr>)
                     | _ \<Rightarrow> Elf_Wild)))"

text \<open>
  \<^verbatim>\<open>SYS_FORK\<close>: a new address space with the shared image and a copy of the pages of the stack. When the
  address space cannot be built, the register \<^verbatim>\<open>rax\<close> keeps the number of the call.
\<close>

primrec copy_stack :: "nat \<Rightarrow> u64 list \<Rightarrow> u64 list \<Rightarrow> mem \<Rightarrow> mem" where
  "copy_stack 0 a b m = m"
| "copy_stack (Suc k) a b m =
     (let m = copy_stack k a b m in if a ! k \<noteq> 0 \<and> b ! k \<noteq> 0 then memcpy (b ! k) (a ! k) 4096 m else m)"

definition sys_fork :: "u64 \<Rightarrow> sched \<Rightarrow> (u64 \<times> sched) option" where
  "sys_fork c s =
     (case cur s of
        None \<Rightarrow> Some (c, set_rax c (- 1) s)
      | Some self \<Rightarrow>
          if cr3 (table s ! self) = 0 \<or> img_pages s = 0 then Some (c, set_rax c (- 1) s)
          else
            (case new_process (pname (table s ! self)) s of
               None \<Rightarrow> None
             | Some (Inl s) \<Rightarrow> Some (c, set_rax c (- 1) s)
             | Some (Inr (i, p, s)) \<Rightarrow>
                 let (p, s) = vm_new p s
                 in if cr3 p = 0 then map_option (\<lambda>(r, s). (c, s)) (abandon i p s)
                    else
                      let s = s\<lparr>memory := copy_stack USER_STACK_PAGES (stk_pages (table s ! self)) (stk_pages p) (memory s)\<rparr>;
                          r = map (\<lambda>k. load64 (memory s) (c + 8 * of_nat k)) [0..<22];
                          (sp, m) = build_fork_context p r (memory s);
                          s = s\<lparr>memory := m, table := (table s)[i := p\<lparr>ctx := sp, state := P_READY\<rparr>]\<rparr>
                      in Some (c, set_rax c (ucast (pid p)) s)))"

end
