(* ===== verification/Exec.thy ===== *)
theory Exec
  imports Elf
begin

text \<open>
  Theorems on programs: loading and starting them, \<^verbatim>\<open>fork\<close> and \<^verbatim>\<open>exec\<close>, and the invariant of the process
  table over every sequence of operations of the kernel.
\<close>

section \<open>Loading\<close>

lemma window_words: "unat USER_IMG_BASE = 0x40000000" "unat USER_WINDOW_END = 0x40020000"
  by (simp_all add: sched_const_defs)

lemma seg_vp_end_le:
  assumes "\<not> seg_skipped ph" "p_vaddr ph + p_memsz ph \<le> USER_WINDOW_END"
  shows "seg_vp_end ph \<le> 32"
proof -
  define x where "x = p_vaddr ph + p_memsz ph"
  have x: "USER_IMG_BASE < x" "x \<le> USER_WINDOW_END" using assms by (auto simp: seg_skipped_def x_def)
  then have u: "0x40000000 < unat x" "unat x \<le> 0x40020000" by (auto simp: word_less_nat_alt word_le_nat_alt window_words)
  have x1: "unat (x - 1) = unat x - 1" using u by (intro unat_minus_one) auto
  then have "USER_IMG_BASE \<le> x - 1" using u by (simp add: word_le_nat_alt window_words)
  then have "unat (x - 1 - USER_IMG_BASE) = unat x - 1 - 0x40000000" using x1 by (simp add: unat_sub window_words)
  then have "unat (drop_bit 12 (x - 1 - USER_IMG_BASE)) < 32" using u 
    by (simp add: drop_bit_eq_div unat_div div_less_iff_less_mult)
  then have d: "unat (drop_bit 12 (x - 1 - USER_IMG_BASE) + 1) \<le> 32" by (simp add: unat_word_ariths)
  have "unat (seg_vp_end ph) = unat (drop_bit 12 (x - 1 - USER_IMG_BASE) + 1) mod 2 ^ 32"
    unfolding seg_vp_end_def x_def [symmetric] by (simp only: unsigned_ucast_eq take_bit_eq_mod len_of_numeral_defs) simp
  then have "unat (seg_vp_end ph) \<le> 32" using d by simp
  then show ?thesis by (simp add: word_le_nat_alt)
qed

lemma scan_phdrs_le:
  "scan_phdrs pis e eh h = Elf_Ok h' \<Longrightarrow> h \<le> 32 \<Longrightarrow> h' \<le> 32"
proof (induction pis arbitrary: h)
  case (Cons pi pis)
  then obtain ph where ph: "read_phdr e eh pi = Some ph" by (auto split: option.splits)
  show ?case
  proof (cases "seg_skipped ph")
    case False
    have "p_vaddr ph + p_memsz ph \<le> USER_WINDOW_END" using Cons.prems(1) ph False by (auto simp: not_less split: if_splits)
    then have "unat (seg_vp_end ph) \<le> unat (32 :: u32)" using seg_vp_end_le [OF False] by (simp only: word_le_nat_alt)
    then have "int (unat (seg_vp_end ph)) \<le> int 32" by (subst of_nat_le_iff) simp
    then show ?thesis using Cons.IH Cons.prems ph False by (auto split: if_splits)
  qed (use Cons ph in auto)
qed simp

lemma mset_own_code:
  assumes "length (code_frames p) = 256" "i < 256" "code_frames p ! i = 0" "f \<noteq> 0"
  shows "mset (own (p\<lparr>code_frames := (code_frames p)[i := f], user_code_pages := n\<rparr>)) = add_mset f (mset (own p))"
  using mset_nz_update [of i "code_frames p" f] assms by (simp add: own_def)

lemma alloc_pages_ok:
  assumes "fresh_space s0 p s" "user_code_pages p = i" "i \<le> n" "n \<le> 256" "alloc_pages [i..<n] (code_frames p) s = (r, fs, s')"
  shows "fresh_space s0 (p\<lparr>code_frames := fs, user_code_pages := case r of None \<Rightarrow> n | Some k \<Rightarrow> k\<rparr>) s'"
  using assms
proof (induction "n - i" arbitrary: i p s)
  case 0
  then have "p\<lparr>code_frames := code_frames p, user_code_pages := i\<rparr> = p" by simp
  moreover have "i = n" "r = None" "fs = code_frames p" "s' = s" using 0 by auto
  ultimately show ?case using 0(2) by simp
next
  case (Suc k)
  then have up: "[i..<n] = i # [Suc i..<n]" by (simp add: upt_conv_Cons)
  obtain f s1 where a: "alloc_zero_frame s = (f, s1)" by fastforce
  have F: "same_table s0 s" "pmm_inv (frames s)" "proc_wf p" "distinct (own p)" "set (own p) \<subseteq> alloced (frames s)" using Suc.prems(1) by (auto simp: fresh_space_def)
  note Z = alloc_zero_frame_ok [OF F(2) a]
  have pi: "p\<lparr>code_frames := code_frames p, user_code_pages := i\<rparr> = p" using Suc.prems(2) by simp
  show ?case
  proof (cases "f = 0")
    case True
    then have r: "r = Some i" "fs = code_frames p" "s' = s1" using Suc.prems(5) a by (auto simp: up)
    have "grows (set (own p)) s p s1" using Z True F by (auto simp: grows_def)
    then show ?thesis using fresh_grows [OF Suc.prems(1) _ subset_refl F(3)] r pi by simp
  next
    case False
    define p1 where "p1 = p\<lparr>code_frames := (code_frames p)[i := f], user_code_pages := Suc i\<rparr>"
    have W: "length (code_frames p) = 256" "length (stk_pages p) = 4" "\<forall>j. i \<le> j \<and> j < 256 \<longrightarrow> code_frames p ! j = 0"
      using F(3) Suc.prems(2) by (auto simp: proc_wf_def)
    have i: "i < 256" "code_frames p ! i = 0" using W(3) Suc.hyps(2) Suc.prems(4) by auto
    have "grows (set (own p)) s p1 s1"
      by (rule alloc_grows [OF F(2,4,5) a False]) (simp add: p1_def mset_own_code [OF W(1) i False])
    moreover have "proc_wf p1" using W i by (auto simp: proc_wf_def p1_def nth_list_update)
    ultimately have "fresh_space s0 p1 s1" using fresh_grows [OF Suc.prems(1) _ subset_refl] by blast
    moreover have "alloc_pages [Suc i..<n] (code_frames p1) s1 = (r, fs, s')" using Suc.prems(5) a False by (simp add: up p1_def)
    ultimately show ?thesis using Suc.hyps(1) [of "Suc i" p1 s1] Suc.hyps(2) Suc.prems(4) by (simp add: p1_def)
  qed
qed

lemma elf_parse_ok:
  assumes f: "fresh_space s0 p s" and u: "user_code_pages p = 0" and r: "elf_parse_and_load e p s = Elf_Ok (b, e', p', s')"
  shows "fresh_space s0 p' s'" "p' = p\<lparr>code_frames := code_frames p', user_code_pages := user_code_pages p'\<rparr>"
proof -
  define eh where "eh = dec_ehdr (elf_buf e)"
  define e1 where "e1 = e\<lparr>elf_entry := e_entry eh\<rparr>"
  define pis where "pis = [0..<unat (e_phnum eh)]"
  have "fresh_space s0 p' s' \<and> p' = p\<lparr>code_frames := code_frames p', user_code_pages := user_code_pages p'\<rparr>"
  proof (cases "p' = p \<and> s' = s")
    case True
    then show ?thesis using f by simp
  next
    case False
    obtain h where h: "scan_phdrs pis e1 eh (- 1) = Elf_Ok h" "\<not> h < 0"
      using r False unfolding elf_parse_and_load_def eh_def [symmetric] Let_def e1_def [symmetric] pis_def [symmetric]
      by (auto split: if_splits elf_result.splits)
    have h32: "nat h + 1 \<le> 256" using scan_phdrs_le [OF h(1)] by simp
    obtain q fs s1 where a: "alloc_pages [0..<nat h + 1] (code_frames p) s = (q, fs, s1)" using prod_cases3 by blast
    have g: "fresh_space s0 (p\<lparr>code_frames := fs, user_code_pages := case q of None \<Rightarrow> nat h + 1 | Some k \<Rightarrow> k\<rparr>) s1"
      by (rule alloc_pages_ok [OF f u _ h32 a]) simp
    have "(\<exists>m. s' = s1 \<or> s' = s1\<lparr>memory := m\<rparr>) \<and> p' = p\<lparr>code_frames := fs, user_code_pages := case q of None \<Rightarrow> nat h + 1 | Some k \<Rightarrow> k\<rparr>"
      using r False h a unfolding elf_parse_and_load_def eh_def [symmetric] Let_def e1_def [symmetric] pis_def [symmetric]
      by (auto split: if_splits elf_result.splits option.splits)
    then show ?thesis using g fresh_memory [OF g] by auto
  qed
  then show "fresh_space s0 p' s'" "p' = p\<lparr>code_frames := code_frames p', user_code_pages := user_code_pages p'\<rparr>" by blast+
qed

lemma alloc_tables_fresh:
  assumes f: "fresh_space s0 p s" "own p = []" and a: "alloc_tables p s = (p', s')"
  shows "fresh_space s0 p' s'" "p' = p\<lparr>pml4 := pml4 p', pdpt := pdpt p', pd := pd p', pt := pt p'\<rparr>"
proof -
  have F: "pmm_inv (frames s)" "proc_wf p" using f by (auto simp: fresh_space_def)
  have n: "nz (stk_pages p @ code_frames p) = []" using f(2) by (auto simp: own_def split: if_splits)
  note A = alloc_tables_ok [OF F _ _ a, unfolded n]
  show "fresh_space s0 p' s'" by (rule fresh_grows [OF f(1) A(1)]) (use A(2) in simp_all)
  show "p' = p\<lparr>pml4 := pml4 p', pdpt := pdpt p', pd := pd p', pt := pt p'\<rparr>" by (rule A(3)) simp_all
qed


section \<open>Starting a program\<close>

text \<open>What every operation that starts a process guarantees: it fails with \<open>- 1\<close> or adds one ready process.\<close>

definition start_spec :: "bytes \<Rightarrow> int \<Rightarrow> sched \<Rightarrow> sched \<Rightarrow> bool" where
  "start_spec nm r s s' \<longleftrightarrow> sched_inv s' \<and> cur s' = cur s \<and>
     (if r = - 1
      then \<forall>j < 32. table s' ! j = table s ! j \<or> \<not> live (table s' ! j) \<and> (\<not> live (table s ! j) \<or> state (table s ! j) = P_ZOMBIE)
      else \<exists>i < 32. let p = table s' ! i in
             r = int (unat (pid p)) \<and> state p = P_READY \<and> pname p = nm \<and> cr3 p \<noteq> 0 \<and> cr3 p = pml4 p
             \<and> (\<not> live (table s ! i) \<or> state (table s ! i) = P_ZOMBIE)
             \<and> (\<forall>j < 32. j \<noteq> i \<longrightarrow> table s' ! j = table s ! j)
             \<and> (\<forall>j < 32. j \<noteq> i \<and> live (table s ! j) \<longrightarrow> pid (table s ! j) \<noteq> pid p))"

text \<open>The two ways on from \<open>new_process\<close>.\<close>

definition prepared :: "bytes \<Rightarrow> sched \<Rightarrow> nat \<Rightarrow> process \<Rightarrow> sched \<Rightarrow> bool" where
  "prepared nm s i p s1 \<longleftrightarrow> i < 32 \<and> \<not> live (table s1 ! i) \<and> run_inv s1 \<and> cur s1 = cur s \<and> res_inv (table s1) (frames s1) (heap s1)
     \<and> heap_ok (heap s1) (insert (kstack p) (stacks (table s1))) \<and> kstack p \<notin> stacks (table s1) \<and> kstack p \<noteq> 0
     \<and> pid p \<noteq> 0 \<and> \<not> pid_used (unat (pid p)) s1 \<and> (\<forall>j. j \<noteq> i \<longrightarrow> table s1 ! j = table s ! j)
     \<and> (\<not> live (table s ! i) \<or> state (table s ! i) = P_ZOMBIE) \<and> pname p = nm"

lemma prepared_update: "prepared nm s i p s1 \<Longrightarrow> pid q = pid p \<Longrightarrow> kstack q = kstack p \<Longrightarrow> pname q = pname p \<Longrightarrow> prepared nm s i q s1"
  unfolding prepared_def by simp

lemma new_process_prepared:
  assumes "sched_inv s"
  obtains (fail) s1 where "new_process nm s = Some (Inl s1)" "start_spec nm (- 1) s s1"
  | (new) i p s1 where "new_process nm s = Some (Inr (i, p, s1))" "prepared nm s i p s1" "fresh_space s1 p s1" "own p = []"
      "stk_pages p = replicate 4 0" "code_source None 0 p" "user_code_pages p = 0"
  using assms
proof (cases rule: new_process_ok [where nm = nm])
  case (fail s1)
  then have "start_spec nm (- 1) s s1" unfolding start_spec_def by (auto simp: live_def)
  then show thesis using that(1) fail(1) by blast
next
  case (new i p s1)
  note z = zero_process_wf [OF new(10)]
  have pn: "pname p = nm" "user_code_pages p = 0" by (subst new(10), simp add: zero_process_def)+
  have "prepared nm s i p s1" unfolding prepared_def using new pn(1) by blast
  moreover have "fresh_space s1 p s1" by (rule fresh_start [OF res_invD(2) [OF new(6)]]) (use z in simp_all)
  ultimately show thesis using that(2) new(1) z pn(2) by blast
qed

lemma prepared_abandon:
  assumes p: "prepared nm s i p s1" and f: "fresh_space s1 p s2" "own p = []"
  obtains s3 where "abandon i p s2 = Some (- 1, s3)" "start_spec nm (- 1) s s3"
proof -
  note P = p [unfolded prepared_def]
  have i: "i < 32" "\<not> live (table s1 ! i)" "run_inv s1" "res_inv (table s1) (frames s1) (heap s1)"
    "heap_ok (heap s1) (insert (kstack p) (stacks (table s1)))" "kstack p \<notin> stacks (table s1)" using P by blast+
  obtain s3 where A: "abandon i p s2 = Some (- 1, s3)" "sched_inv s3" "cur s3 = cur s1" "state (table s3 ! i) = P_EMPTY"
    "\<And>j. j \<noteq> i \<Longrightarrow> table s3 ! j = table s1 ! j" by (rule abandon_ok [OF i f(2,1)]) (rule that)
  have "table s3 ! j = table s ! j \<or> \<not> live (table s3 ! j) \<and> (\<not> live (table s ! j) \<or> state (table s ! j) = P_ZOMBIE)" for j
    using A(4) A(5) [of j] P by (cases "j = i") (auto simp: live_def)
  then have "start_spec nm (- 1) s s3" unfolding start_spec_def using A(2,3) P by simp
  then show thesis using that A(1) by blast
qed

lemma prepared_finish:
  assumes p: "prepared nm s i p s1" and f: "fresh_space s1 p s2" and c: "cr3 p \<noteq> 0" "cr3 p = pml4 p"
  shows "start_spec nm (int (unat (pid p))) s (s2\<lparr>memory := m, table := (table s2)[i := p\<lparr>start_tick := tk, ctx := sp, state := P_READY\<rparr>]\<rparr>)"
proof -
  define q where "q = p\<lparr>start_tick := tk, ctx := sp, state := P_READY\<rparr>"
  define s3 where "s3 = s2\<lparr>memory := m, table := (table s2)[i := q]\<rparr>"
  note P = p [unfolded prepared_def]
  have i: "i < 32" "\<not> live (table s1 ! i)" "run_inv s1" "res_inv (table s1) (frames s1) (heap s1)"
    "heap_ok (heap s1) (insert (kstack p) (stacks (table s1)))" "kstack p \<notin> stacks (table s1)" "kstack p \<noteq> 0" "pid p \<noteq> 0"
    "\<not> pid_used (unat (pid p)) s1" and oth: "\<forall>j. j \<noteq> i \<longrightarrow> table s1 ! j = table s ! j" using P by blast+
  have T: "same_table s1 s2" using f by (simp add: fresh_space_def)
  have l: "length (table s1) = 32" by (rule res_invD(1) [OF i(4)])
  have inv3: "sched_inv s3" unfolding s3_def q_def by (rule finish_process [OF i f])
  have n: "table s3 ! j = (if j = i then q else table s ! j)" for j
    using oth i(1) l same_tableD(1) [OF T] by (cases "j = i") (simp_all add: s3_def)
  have fr: "pid (table s ! j) \<noteq> pid p" if "j < 32" "j \<noteq> i" "live (table s ! j)" for j
    using i(9) that oth l unfolding pid_used_live by metis
  have q: "table s3 ! i = q" "pid q = pid p" "state q = P_READY" "pname q = nm" "cr3 q = cr3 p" "pml4 q = pml4 p" using n P by (simp_all add: q_def)
  have ne: "int (unat (pid p)) \<noteq> - 1" using of_nat_less_0_iff by (metis neg_0_less_iff_less neg_less_0_iff_less zero_less_one)
  have cs: "cur s3 = cur s" using P same_tableD(2) [OF T] by (simp add: s3_def)
  have st: "\<not> live (table s ! i) \<or> state (table s ! i) = P_ZOMBIE" using P by blast
  have "start_spec nm (int (unat (pid p))) s s3"
    unfolding start_spec_def Let_def if_not_P [OF ne]
    by (intro conjI inv3 cs exI [of _ i]) (use i(1) q c st fr n in auto)
  then show ?thesis by (simp add: s3_def q_def)
qed

lemma sched_inv_memory [simp]: "sched_inv (s\<lparr>memory := m\<rparr>) = sched_inv s"
  by (simp add: sched_inv_def run_inv_def)

lemma start_spec_memory [simp]: "start_spec nm r s (s'\<lparr>memory := m\<rparr>) = start_spec nm r s s'"
  by (simp add: start_spec_def)


lemma sched_spawn_start:
  assumes "sched_inv s"
  obtains r s' where "sched_spawn name s = Some (r, s')" "start_spec (proc_name name) r s s'"
  using assms
proof (cases rule: new_process_prepared [where nm = "proc_name name"])
  case (fail s1)
  then have "sched_spawn name s = Some (- 1, s1)" by (simp add: sched_spawn_def)
  then show thesis using fail(2) by (rule that)
next
  case (new i p s1)
  obtain p2 s2 where v: "vm_new p s1 = (p2, s2)" by fastforce
  note B = fresh_build [OF new(3,5,6) v [unfolded vm_new_def]]
  have P: "prepared (proc_name name) s i p2 s1" by (rule prepared_update [OF new(2)]) (rule B)+
  show thesis
  proof (cases "cr3 p2 = 0")
    case True
    obtain s3 where A: "abandon i p2 s2 = Some (- 1, s3)" "start_spec (proc_name name) (- 1) s s3"
      by (rule prepared_abandon [OF P B(1) B(6) [OF True]]) (rule that)
    have "sched_spawn name s = Some (- 1, s3)" by (simp add: sched_spawn_def new(1) v True A(1))
    then show thesis using A(2) by (rule that)
  next
    case False
    define p3 where "p3 = p2\<lparr>start_tick := timer_get_ticks (clk s2)\<rparr>"
    obtain sp m where c: "build_initial_context p3 (memory s2) = (sp, m)" by fastforce
    have "sched_spawn name s = Some (int (unat (pid p2)), s2\<lparr>memory := m, table := (table s2)[i := p2\<lparr>start_tick := timer_get_ticks (clk s2), ctx := sp, state := P_READY\<rparr>]\<rparr>)"
      by (simp add: sched_spawn_def new(1) v False Let_def c [unfolded p3_def])
    then show thesis by (rule that) (rule prepared_finish [OF P B(1) False], use B(7) [OF False] in simp)
  qed
qed

lemma exec_file_start:
  assumes "sched_inv s"
  obtains (wild) "sched_exec_file path d e s = Some Elf_Wild"
  | (ret) r s' where "sched_exec_file path d e s = Some (Elf_Ok (r, s'))" "start_spec (proc_name (base_name path)) r s s'"
proof (cases "(\<not> sched_ready s \<and> cur s \<noteq> None) \<or> \<not> fst (elf_fetch path d e)")
  case True
  then have "sched_exec_file path d e s = Some (Elf_Ok (- 1, s))" by (auto simp: sched_exec_file_def split: prod.splits bool.splits)
  moreover have "start_spec (proc_name (base_name path)) (- 1) s s" using assms by (simp add: start_spec_def)
  ultimately show thesis by (rule that(2))
next
  case False
  then obtain e1 d1 where fe: "elf_fetch path d e = (True, e1, d1)" by (metis prod.collapse)
  define nm where "nm = proc_name (base_name path)"
  have guard: "(\<not> sched_ready s \<and> cur s \<noteq> None) = False" using False by blast
  have body: "sched_exec_file path d e s = (case new_process nm s of
                None \<Rightarrow> None
              | Some (Inl s) \<Rightarrow> Some (Elf_Ok (- 1, s))
              | Some (Inr (i, p, s)) \<Rightarrow>
                  let (p, s) = alloc_tables p s
                  in if no_tables p
                     then let (p, s) = vm_free p s in map_option Elf_Ok (abandon i p s)
                     else
                       (case elf_parse_and_load e1 p s of
                          Elf_Ok (False, e, p, s) \<Rightarrow> let (p, s) = vm_free p s in map_option Elf_Ok (abandon i p s)
                        | Elf_Ok (True, e, p, s) \<Rightarrow>
                            let (p, s) = vm_build (Some (code_frames p)) (user_code_pages p) p s
                            in if cr3 p = 0 then map_option Elf_Ok (abandon i p s)
                               else
                                 let p = p\<lparr>start_tick := timer_get_ticks (clk s)\<rparr>;
                                     (sp, m) = build_initial_context2 p (elf_entry e) (memory s)
                                 in Some (Elf_Ok (int (unat (pid p)),
                                      s\<lparr>memory := m, table := (table s)[i := p\<lparr>ctx := sp, state := P_READY\<rparr>]\<rparr>))
                        | _ \<Rightarrow> Some Elf_Wild))"
    unfolding sched_exec_file_def guard if_False fe nm_def by simp
  from assms show thesis
  proof (cases rule: new_process_prepared [where nm = nm])
    case (fail s1)
    show thesis by (rule that(2)) (use fail body in \<open>simp_all add: nm_def [symmetric]\<close>)
  next
    case (new i p s1)
    obtain p2 s2 where a: "alloc_tables p s1 = (p2, s2)" by fastforce
    note A = alloc_tables_fresh [OF new(3,4) a]
    have f2: "pid p2 = pid p" "kstack p2 = kstack p" "pname p2 = pname p" "stk_pages p2 = replicate 4 0" "user_code_pages p2 = 0"
      by (subst A(2), simp add: new(5,7))+
    have stop: thesis if "fresh_space s1 q t" "pid q = pid p" "kstack q = kstack p" "pname q = pname p"
        "sched_exec_file path d e s = (let (p, s) = vm_free q t in map_option Elf_Ok (abandon i p s))" for q t
    proof -
      obtain q2 t2 where v: "vm_free q t = (q2, t2)" by fastforce
      note V = fresh_free [OF that(1) v]
      have pn: "pname q2 = pname q" using v by (auto simp: vm_free_def Let_def split: if_splits prod.splits)
      have P: "prepared nm s i q2 s1" by (rule prepared_update [OF new(2)]) (use V that pn in simp_all)
      obtain s3 where X: "abandon i q2 t2 = Some (- 1, s3)" "start_spec nm (- 1) s s3" by (rule prepared_abandon [OF P V(1,2)])
      show thesis by (rule ret) (use that(5) v X in \<open>simp_all add: nm_def [symmetric]\<close>)
    qed
    show thesis
    proof (cases "no_tables p2")
      case True
      show thesis by (rule stop [OF A(1) f2(1-3)]) (simp add: body new(1) a True)
    next
      case tab: False
      show thesis
      proof (cases "elf_parse_and_load e1 p2 s2")
        case (Elf_Ok x)
        obtain b e3 p3 s3 where x: "elf_parse_and_load e1 p2 s2 = Elf_Ok (b, e3, p3, s3)" using Elf_Ok by (cases x) auto
        note E = elf_parse_ok [OF A(1) f2(5) x]
        have f3: "pid p3 = pid p" "kstack p3 = kstack p" "pname p3 = pname p" "stk_pages p3 = replicate 4 0" by (subst E(2), simp add: f2)+
        show thesis
        proof (cases b)
          case False
          show thesis by (rule stop [OF E(1) f3(1-3)]) (simp add: body new(1) a tab x False)
        next
          case True
          obtain p4 s4 where v: "vm_build (Some (code_frames p3)) (user_code_pages p3) p3 s3 = (p4, s4)" by fastforce
          have src: "code_source (Some (code_frames p3)) (user_code_pages p3) p3" by (simp add: code_source_def)
          note B = fresh_build [OF E(1) f3(4) src v]
          have P: "prepared nm s i p4 s1" by (rule prepared_update [OF new(2)]) (simp_all add: B f3)
          show thesis
          proof (cases "cr3 p4 = 0")
            case True
            obtain s5 where X: "abandon i p4 s4 = Some (- 1, s5)" "start_spec nm (- 1) s s5" by (rule prepared_abandon [OF P B(1) B(6) [OF True]])
            show thesis
              by (rule ret [of "- 1" s5]) (use X True \<open>b\<close> in \<open>simp_all add: body new(1) a tab x v nm_def [symmetric]\<close>)
          next
            case False
            define p5 where "p5 = p4\<lparr>start_tick := timer_get_ticks (clk s4)\<rparr>"
            obtain sp m where c: "build_initial_context2 p5 (elf_entry e3) (memory s4) = (sp, m)" by fastforce
            have "sched_exec_file path d e s = Some (Elf_Ok (int (unat (pid p4)), s4\<lparr>memory := m, table := (table s4)[i := p4\<lparr>start_tick := timer_get_ticks (clk s4), ctx := sp, state := P_READY\<rparr>]\<rparr>))"
              using \<open>b\<close> by (simp add: body new(1) a tab x v False Let_def c [unfolded p5_def])
            then show thesis
              by (rule ret) (use prepared_finish [OF P B(1) False] B(7) [OF False] in \<open>simp add: nm_def\<close>)
          qed
        qed
      qed (use that(1) in \<open>simp_all add: body new(1) a tab\<close>)
    qed
  qed
qed


section \<open>Fork\<close>

lemma sched_inv_set_rax [simp]: "sched_inv (set_rax c v s) = sched_inv s"
  by (simp add: set_rax_def)

lemma sys_fork_ok:
  assumes inv: "sched_inv s"
  obtains r s' where "sys_fork c s = Some (c, s')" "sched_inv s'"
    "s' = set_rax c (- 1) s \<or> (\<exists>self s1. cur s = Some self \<and> start_spec (pname (table s ! self)) r s s1 \<and>
        (if r = - 1 then s' = s1 \<or> s' = set_rax c (- 1) s1 else s' = set_rax c (of_int r) s1))"
proof (cases "\<exists>self. cur s = Some self \<and> cr3 (table s ! self) \<noteq> 0 \<and> img_pages s \<noteq> 0")
  case False
  then have "sys_fork c s = Some (c, set_rax c (- 1) s)" by (auto simp: sys_fork_def split: option.splits)
  then show thesis by (rule that) (use inv in simp_all)
next
  case True
  then obtain self where self: "cur s = Some self" "cr3 (table s ! self) \<noteq> 0" "img_pages s \<noteq> 0" by blast
  define nm where "nm = pname (table s ! self)"
  have ret: thesis if "sys_fork c s = Some (c, s')" "start_spec nm r s s1"
      "if r = - 1 then s' = s1 \<or> s' = set_rax c (- 1) s1 else s' = set_rax c (of_int r) s1" for r s' s1
  proof -
    have "sched_inv s1" using that(2) by (simp add: start_spec_def)
    then have "sched_inv s'" using that(3) by (auto split: if_splits)
    then show thesis
      using \<open>\<And>s' r. \<lbrakk>sys_fork c s = Some (c, s'); sched_inv s'; s' = set_rax c (- 1) s \<or> (\<exists>self s1. cur s = Some self \<and> start_spec (pname (table s ! self)) r s s1 \<and>
        (if r = - 1 then s' = s1 \<or> s' = set_rax c (- 1) s1 else s' = set_rax c (of_int r) s1))\<rbrakk> \<Longrightarrow> thesis\<close> that self(1) nm_def by blast
  qed
  from inv show thesis
  proof (cases rule: new_process_prepared [where nm = nm])
    case (fail s1)
    have "sys_fork c s = Some (c, set_rax c (- 1) s1)" by (simp add: sys_fork_def self nm_def [symmetric] fail(1))
    then show thesis using fail(2) by (rule ret) simp
  next
    case (new i p s1)
    obtain p2 s2 where v: "vm_new p s1 = (p2, s2)" by fastforce
    note B = fresh_build [OF new(3,5,6) v [unfolded vm_new_def]]
    have P: "prepared nm s i p2 s1" by (rule prepared_update [OF new(2)]) (rule B)+
    show thesis
    proof (cases "cr3 p2 = 0")
      case True
      obtain s3 where A: "abandon i p2 s2 = Some (- 1, s3)" "start_spec nm (- 1) s s3"
        by (rule prepared_abandon [OF P B(1) B(6) [OF True]]) (rule that)
      have "sys_fork c s = Some (c, s3)" by (simp add: sys_fork_def self nm_def [symmetric] new(1) v True A(1))
      then show thesis using A(2) by (rule ret) simp
    next
      case False
      define m1 where "m1 = copy_stack USER_STACK_PAGES (stk_pages (table s2 ! self)) (stk_pages p2) (memory s2)"
      obtain sp m where k: "build_fork_context p2 (map (\<lambda>k. load64 m1 (c + 8 * of_nat k)) [0..<22]) m1 = (sp, m)" by fastforce
      define s3 where "s3 = s2\<lparr>memory := m, table := (table s2)[i := p2\<lparr>ctx := sp, state := P_READY\<rparr>]\<rparr>"
      have e: "sys_fork c s = Some (c, set_rax c (ucast (pid p2)) s3)"
        by (simp add: sys_fork_def self nm_def [symmetric] new(1) v False Let_def m1_def [symmetric] k s3_def)
      have X: "start_spec nm (int (unat (pid p2))) s s3"
        using prepared_finish [OF P B(1) False, where m = m and tk = "start_tick p2" and sp = sp] B(7) [OF False] by (simp add: s3_def)
      have ne: "int (unat (pid p2)) \<noteq> - 1" using of_nat_less_0_iff by (metis neg_0_less_iff_less neg_less_0_iff_less zero_less_one)
      have u: "ucast (pid p2) = (of_int (int (unat (pid p2))) :: u64)" by (simp add: unsigned_ucast_eq)
      show thesis by (rule ret [OF e X]) (simp only: u if_not_P [OF ne])
    qed
  qed
qed

section \<open>Exec\<close>

text \<open>Replacing the address space of a live process.\<close>

lemma res_inv_swap:
  assumes inv: "res_inv t pm h" and i: "i < 32" and q: "live q = live (t ! i)" "proc_wf q" "distinct (own q)" "pid q = pid (t ! i)" "kstack q = kstack (t ! i)"
    and lv: "live (t ! i)" and pm: "pmm_inv pm'" "alloced pm - set (own (t ! i)) \<subseteq> alloced pm'" "set (own q) \<subseteq> alloced pm'" "set (own q) \<inter> alloced pm = {}"
  shows "res_inv (t[i := q]) pm' h"
proof -
  note D = res_invD [OF inv]
  have n: "t[i := q] ! j = (if j = i then q else t ! j)" for j using i D(1) by (cases "j = i") simp_all
  have st: "stacks (t[i := q]) = stacks t"
  proof -
    have "kstack (t[i := q] ! j) = kstack (t ! j) \<and> live (t[i := q] ! j) = live (t ! j)" for j using q by (simp add: n)
    then show ?thesis unfolding stacks_def by simp
  qed
  have sub: "set (own (t ! j)) \<subseteq> alloced pm'" "set (own (t ! j)) \<inter> set (own q) = {}" if "j < 32" "j \<noteq> i" for j
    using D(6,7) that i pm by blast+
  show ?thesis
    unfolding res_inv_def st
  proof (intro conjI allI impI)
    fix j k :: nat assume jk: "j < 32" "k < 32" "j \<noteq> k"
    then show "set (own (t[i := q] ! j)) \<inter> set (own (t[i := q] ! k)) = {}" using D(7) sub(2) by (auto simp: n)
  next
    fix j k :: nat assume jk: "j < 32" "k < 32" "j \<noteq> k \<and> live (t[i := q] ! j) \<and> live (t[i := q] ! k)"
    then have "pid (t ! j) \<noteq> pid (t ! k) \<and> kstack (t ! j) \<noteq> kstack (t ! k)" using D(10) q(1) by (auto simp: n split: if_splits)
    then show "pid (t[i := q] ! j) \<noteq> pid (t[i := q] ! k)" "kstack (t[i := q] ! j) \<noteq> kstack (t[i := q] ! k)" using q by (auto simp: n)
  next
    fix j :: nat assume j: "j < 32"
    show "proc_wf (t[i := q] ! j)" "distinct (own (t[i := q] ! j))" "set (own (t[i := q] ! j)) \<subseteq> alloced pm'"
      using D(4,5) j q sub(1) pm(3) by (auto simp: n)
    show "if live (t[i := q] ! j) then pid (t[i := q] ! j) \<noteq> 0 \<and> kstack (t[i := q] ! j) \<noteq> 0 else own (t[i := q] ! j) = []"
      using D(8,9) [OF j] D(8) [OF i lv] q lv by (auto simp: n)
  qed (use D pm in auto)
qed

lemma run_inv_swap: "run_inv s \<Longrightarrow> i < 32 \<Longrightarrow> length (table s) = 32 \<Longrightarrow> state q = state (table s ! i) \<Longrightarrow> table s' = (table s)[i := q] \<Longrightarrow> cur s' = cur s \<Longrightarrow> run_inv s'"
  by (auto simp: run_inv_def nth_list_update)

lemma take_space_simps [simp]:
  "own (take_space np p) = own np" "pid (take_space np p) = pid p" "kstack (take_space np p) = kstack p" "state (take_space np p) = state p"
  "cr3 (take_space np p) = cr3 np" "proc_wf (take_space np p) = proc_wf np" "pname (take_space np p) = pname p" "live (take_space np p) = live p"
  by (simp_all add: take_space_def own_def proc_wf_def live_def)

text \<open>
  The outcomes of \<^verbatim>\<open>sched_exec_self\<close>: the process goes on as before, or gets the new address space. The
  register \<^verbatim>\<open>cr3\<close> is not loaded.
\<close>

definition exec_spec :: "u64 \<Rightarrow> nat \<Rightarrow> u64 \<Rightarrow> sched \<Rightarrow> sched \<Rightarrow> bool" where
  "exec_spec c self c' s s' \<longleftrightarrow> sched_inv s' \<and> cur s' = cur s \<and> hw_cr3 s' = hw_cr3 s \<and> (\<forall>j. j \<noteq> self \<longrightarrow> table s' ! j = table s ! j) \<and>
     (c' = c \<and> table s' = table s \<or>
      (let p = table s ! self; q = table s' ! self in
         ctx q = c' \<and> cr3 q \<noteq> 0 \<and> cr3 q \<in> set (own q) \<and> set (own q) \<inter> alloced (frames s) = {} \<and> set (own p) \<inter> alloced (frames s') = {}
         \<and> pid q = pid p \<and> kstack q = kstack p \<and> pname q = pname p \<and> state q = state p))"

lemma exec_kept:
  assumes "sched_inv s" "fresh_space s p s1"
  shows "exec_spec c self c s s1"
proof -
  have T: "same_table s s1" "pmm_inv (frames s1)" "alloced (frames s) \<subseteq> alloced (frames s1)" using assms(2) by (auto simp: fresh_space_def)
  note S = same_tableD [OF T(1)]
  have "res_inv (table s1) (frames s1) (heap s1)"
    using assms(1) T(2,3) unfolding sched_inv_def res_inv_def S by blast
  moreover have "run_inv s1" using assms(1) by (simp add: sched_inv_def run_inv_def S)
  moreover have "hw_cr3 s1 = hw_cr3 s" using T(1) by (auto simp: same_table_def)
  ultimately show ?thesis by (simp add: exec_spec_def sched_inv_def S)
qed

lemma exec_replaced:
  assumes inv: "sched_inv s" and c: "cur s = Some self" and f: "fresh_space s np s1" "cr3 np \<noteq> 0" "cr3 np \<in> set (own np)"
    and v: "vm_free (table s1 ! self) s1 = (p, s2)"
  shows "exec_spec c0 self sp s (s2\<lparr>memory := m, table := (table s2)[self := (take_space np p)\<lparr>ctx := sp\<rparr>]\<rparr>)"
proof -
  have res: "res_inv (table s) (frames s) (heap s)" and run: "run_inv s" using inv by (auto simp: sched_inv_def)
  note D = res_invD [OF res]
  have i: "self < 32" "live (table s ! self)" using run c by (auto simp: run_inv_def live_def)
  have F: "same_table s s1" "pmm_inv (frames s1)" "proc_wf np" "distinct (own np)" "set (own np) \<subseteq> alloced (frames s1)"
    "set (own np) \<inter> alloced (frames s) = {}" "alloced (frames s) \<subseteq> alloced (frames s1)" using f(1) by (auto simp: fresh_space_def)
  note S = same_tableD [OF F(1)]
  have v': "vm_free (table s ! self) s1 = (p, s2)" using v by (simp add: S)
  have sub: "set (own (table s ! self)) \<subseteq> alloced (frames s1)" using D(6) [OF i(1)] F(7) by blast
  note V = vm_free_ok [OF F(2) D(4) [OF i(1)] D(5) [OF i(1)] sub v']
  note S2 = same_tableD [OF V(9)]
  have pn: "pname p = pname (table s ! self)" using v' by (auto simp: vm_free_def Let_def split: if_splits prod.splits)
  define q where "q = (take_space np p)\<lparr>ctx := sp\<rparr>"
  define s3 where "s3 = s2\<lparr>memory := m, table := (table s2)[self := q]\<rparr>"
  have q: "live q = live (table s ! self)" "proc_wf q" "distinct (own q)" "pid q = pid (table s ! self)" "kstack q = kstack (table s ! self)"
    "state q = state (table s ! self)" "own q = own np" "pname q = pname (table s ! self)"
    using V F(3,4) pn by (auto simp: q_def live_def)
  have "res_inv ((table s)[self := q]) (frames s2) (heap s)"
    by (rule res_inv_swap [OF res i(1) q(1-5) i(2)]) (use V(7,8) F D(6) [OF i(1)] q(7) in auto)
  moreover have t3: "table s3 = (table s)[self := q]" by (simp add: s3_def S S2)
  moreover have c3: "cur s3 = cur s" by (simp add: s3_def S S2)
  then have "run_inv s3" using run_inv_swap [OF run i(1) D(1) q(6) t3] by blast
  ultimately have inv3: "sched_inv s3" by (simp add: sched_inv_def s3_def S S2)
  have n: "table s3 ! self = q" "\<forall>j. j \<noteq> self \<longrightarrow> table s3 ! j = table s ! j" using t3 i(1) D(1) by simp_all
  have hw: "hw_cr3 s3 = hw_cr3 s" using F(1) V(9) by (auto simp: same_table_def s3_def)
  have "exec_spec c0 self sp s s3"
    unfolding exec_spec_def Let_def n(1) using inv3 c3 hw n(2) q V(7) F f by (auto simp: q_def s3_def)
  then show ?thesis by (simp add: s3_def q_def)
qed

lemma exec_self_ok:
  assumes inv: "sched_inv s" and c: "cur s = Some self"
  obtains (wild) "sched_exec_self c0 path d e s = Elf_Wild"
  | (ret) c' s' where "sched_exec_self c0 path d e s = Elf_Ok (c', s')" "exec_spec c0 self c' s s'"
proof (cases "fst (elf_fetch path d e)")
  case False
  then have "sched_exec_self c0 path d e s = Elf_Ok (c0, s)" by (auto simp: sched_exec_self_def c split: prod.splits bool.splits)
  moreover have "exec_spec c0 self c0 s s" using inv by (simp add: exec_spec_def)
  ultimately show thesis by (rule ret)
next
  case True
  then obtain e1 d1 where fe: "elf_fetch path d e = (True, e1, d1)" by (metis prod.collapse)
  have pm: "pmm_inv (frames s)" using inv by (auto simp: sched_inv_def res_inv_def)
  have z: "proc_wf zero_process" "own zero_process = []" "stk_pages zero_process = replicate 4 0" "user_code_pages zero_process = 0"
    by (simp_all add: zero_process_def proc_wf_def own_def)
  obtain p2 s2 where a: "alloc_tables zero_process s = (p2, s2)" by fastforce
  note A = alloc_tables_fresh [OF fresh_start [OF pm z(1,2)] z(2) a]
  have f2: "stk_pages p2 = replicate 4 0" "user_code_pages p2 = 0" by (subst A(2), simp add: z)+
  have body: "sched_exec_self c0 path d e s =
      (if no_tables p2 then let (np, s) = vm_free p2 s2 in Elf_Ok (c0, s)
       else
         (case elf_parse_and_load e1 p2 s2 of
            Elf_Ok (False, e, np, s) \<Rightarrow> let (np, s) = vm_free np s in Elf_Ok (c0, s)
          | Elf_Ok (True, e, np, s) \<Rightarrow>
              let (np, s) = vm_build (Some (code_frames np)) (user_code_pages np) np s
              in if cr3 np = 0 then let (np, s) = vm_free np s in Elf_Ok (c0, s)
                 else
                   let (p, s) = vm_free (table s ! self) s; p = take_space np p;
                       (sp, m) = build_initial_context2 p (elf_entry e) (memory s)
                   in Elf_Ok (sp, s\<lparr>memory := m, table := (table s)[self := p\<lparr>ctx := sp\<rparr>]\<rparr>)
          | _ \<Rightarrow> Elf_Wild))"
    unfolding sched_exec_self_def c fe by (simp add: a)
  have stop: thesis if "fresh_space s q t" "sched_exec_self c0 path d e s = (let (np, s) = vm_free q t in Elf_Ok (c0, s))" for q t
  proof -
    obtain q2 t2 where v: "vm_free q t = (q2, t2)" by fastforce
    show thesis by (rule ret [of c0 t2]) (use that(2) v exec_kept [OF inv fresh_free(1) [OF that(1) v]] in simp_all)
  qed
  show thesis
  proof (cases "no_tables p2")
    case True
    show thesis by (rule stop [OF A(1)]) (simp add: body True)
  next
    case tab: False
    show thesis
    proof (cases "elf_parse_and_load e1 p2 s2")
      case (Elf_Ok x)
      obtain b e3 p3 s3 where x: "elf_parse_and_load e1 p2 s2 = Elf_Ok (b, e3, p3, s3)" using Elf_Ok by (cases x) auto
      note E = elf_parse_ok [OF A(1) f2(2) x]
      have f3: "stk_pages p3 = replicate 4 0" by (subst E(2)) (simp add: f2)
      obtain p4 s4 where v: "vm_build (Some (code_frames p3)) (user_code_pages p3) p3 s3 = (p4, s4)" by fastforce
      have src: "code_source (Some (code_frames p3)) (user_code_pages p3) p3" by (simp add: code_source_def)
      note B = fresh_build [OF E(1) f3 src v]
      show thesis
      proof (cases "\<not> b \<or> cr3 p4 = 0")
        case True
        then show thesis using stop [OF E(1)] stop [OF B(1)] by (cases b) (simp_all add: body tab x v)
      next
        case False
        obtain p5 s5 where w: "vm_free (table s4 ! self) s4 = (p5, s5)" by fastforce
        obtain sp m where k: "build_initial_context2 (take_space p4 p5) (elf_entry e3) (memory s5) = (sp, m)" by fastforce
        have X: "exec_spec c0 self sp s (s5\<lparr>memory := m, table := (table s5)[self := (take_space p4 p5)\<lparr>ctx := sp\<rparr>]\<rparr>)"
          by (rule exec_replaced [OF inv c B(1) _ _ w]) (use False B(7) in auto)
        show thesis by (rule ret [OF _ X]) (use False in \<open>simp add: body tab x v w k\<close>)
      qed
    qed (use wild in \<open>simp_all add: body tab\<close>)
  qed
qed


lemma pmm_alloc_range_inv:
  assumes "pmm_inv s" "n \<noteq> 0" "pmm_alloc_range n s = (p, s')"
  shows "pmm_inv s'"
proof (cases "p = 0")
  case True
  have n: "0 < unat n" using assms(2) by (simp add: unat_gt_0)
  have "range_result s (unat n) (p, s')"
    using alloc_range_loop_result [OF scan_ok_init [OF n] n, of s] assms(2,3) by (simp add: pmm_alloc_range_def)
  then show ?thesis using True assms(1) pmm_frame_nonzero [OF assms(1)] n unfolding range_result_def by (auto split: if_splits)
qed (use pmm_alloc_range_start [OF assms] in blast)

section \<open>Kill and wait\<close>

text \<open>A process is gone: its slot is empty, its frames are free again and the other slots are as before.\<close>

definition gone :: "nat \<Rightarrow> sched \<Rightarrow> sched \<Rightarrow> bool" where
  "gone i s s' \<longleftrightarrow> i < 32 \<and> sched_inv s' \<and> cur s' = cur s \<and> state (table s' ! i) = P_EMPTY \<and> (\<forall>j. j \<noteq> i \<longrightarrow> table s' ! j = table s ! j)
     \<and> alloced (frames s') = alloced (frames s) - set (own (table s ! i))"

lemma reap_gone:
  assumes inv: "sched_inv s" and i: "i < 32" "live (table s ! i)" "cur s \<noteq> Some i"
  obtains s' where "reap i s = Some s'" "gone i s s'"
proof -
  have res: "res_inv (table s) (frames s) (heap s)" and run: "run_inv s" using inv by (auto simp: sched_inv_def)
  obtain s' where r: "reap i s = Some s'" "res_inv (table s') (frames s') (heap s')" "cur s' = cur s"
    "\<And>j. j \<noteq> i \<Longrightarrow> table s' ! j = table s ! j" "alloced (frames s') = alloced (frames s) - set (own (table s ! i))"
    "state (table s' ! i) = P_EMPTY"
    by (rule reap_ok [OF res i(1,2)]) (rule that)
  have "state (table s' ! j) = P_RUNNING \<longleftrightarrow> cur s' = Some j" if "j < 32" for j
    using run r(3,4,6) i(3) that by (cases "j = i") (auto simp: run_inv_def)
  then have "run_inv s'" using run r(3) by (auto simp: run_inv_def)
  then have "gone i s s'" using r i(1) by (simp add: gone_def sched_inv_def)
  then show thesis using that r(1) by blast
qed

lemma sched_kill_ok:
  assumes inv: "sched_inv s"
  shows "\<exists>r s'. sched_kill p s = Some (r, s') \<and>
     (if r = - 1 then s' = s \<and> (\<forall>i < 32. live (table s ! i) \<and> pid (table s ! i) = p \<longrightarrow> cur s = Some i)
      else r = 0 \<and> (\<exists>i. live (table s ! i) \<and> pid (table s ! i) = p \<and> cur s \<noteq> Some i \<and> gone i s s'))"
proof (cases "find_by_pid p s")
  case None
  have "sched_kill p s = Some (- 1, s)" by (simp add: sched_kill_def None)
  moreover have "\<forall>i < 32. \<not> (live (table s ! i) \<and> pid (table s ! i) = p)"
    using None by (auto simp: find_by_pid_def find_from_None MAX_PROC_def live_def)
  ultimately show ?thesis by auto
next
  case (Some i)
  then have i: "i < 32" "live (table s ! i)" "pid (table s ! i) = p"
    unfolding find_by_pid_def by (auto dest!: find_from_SomeD simp: MAX_PROC_def live_def)
  have uniq: "j = i" if "j < 32" "live (table s ! j)" "pid (table s ! j) = p" for j
    using res_invD(10) [of "table s" "frames s" "heap s" i j] inv i that by (auto simp: sched_inv_def)
  show ?thesis
  proof (cases "cur s = Some i")
    case True
    then show ?thesis using Some uniq by (auto simp: sched_kill_def)
  next
    case False
    obtain s' where "reap i s = Some s'" "gone i s s'" by (rule reap_gone [OF inv i(1,2) False])
    then show ?thesis using Some i False by (auto simp: sched_kill_def)
  qed
qed

lemma sched_wait_ok:
  assumes inv: "sched_inv s"
  shows "\<exists>r s'. sched_wait p s = Some (r, s') \<and>
     (if \<exists>i < 32. state (table s ! i) = P_ZOMBIE \<and> (p = 0 \<or> pid (table s ! i) = p)
      then \<exists>i. state (table s ! i) = P_ZOMBIE \<and> (p = 0 \<or> pid (table s ! i) = p) \<and> r = sint (exitcode (table s ! i)) \<and> gone i s s'
      else r = - 1 \<and> s' = s)"
proof (cases "find_zombie p s")
  case None
  then have "\<not> (\<exists>i < 32. state (table s ! i) = P_ZOMBIE \<and> (p = 0 \<or> pid (table s ! i) = p))"
    by (auto simp: find_zombie_def find_from_None MAX_PROC_def)
  then show ?thesis unfolding if_not_P [OF \<open>\<not> _\<close>] using None by (auto simp: sched_wait_def)
next
  case (Some i)
  then have i: "i < 32" "state (table s ! i) = P_ZOMBIE" "p = 0 \<or> pid (table s ! i) = p"
    unfolding find_zombie_def by (auto dest!: find_from_SomeD simp: MAX_PROC_def)
  have "cur s \<noteq> Some i" using inv i(1,2) by (auto simp: sched_inv_def run_inv_def)
  then obtain s' where s': "reap i s = Some s'" "gone i s s'" using reap_gone [OF inv i(1)] i(2) by (auto simp: live_def)
  have ex: "\<exists>i < 32. state (table s ! i) = P_ZOMBIE \<and> (p = 0 \<or> pid (table s ! i) = p)" using i by blast
  show ?thesis unfolding if_P [OF ex] using Some s' i by (auto simp: sched_wait_def)
qed


section \<open>The invariant over all operations\<close>

text \<open>
  The operations of the kernel on the process table: scheduling events, \<^verbatim>\<open>sched_go\<close>, the calls of the
  shell (\<^verbatim>\<open>sched_spawn\<close>, \<^verbatim>\<open>sched_exec_file\<close>, \<^verbatim>\<open>sched_kill\<close>, \<^verbatim>\<open>sched_wait\<close>) and of processes (\<^verbatim>\<open>SYS_FORK\<close>,
  \<^verbatim>\<open>SYS_EXEC\<close>).
\<close>

datatype kernel_op = Op_Event | Op_Go | Op_Spawn | Op_Exec_File | Op_Kill | Op_Wait | Op_Fork | Op_Exec_Self

inductive kernel_step :: "kernel_op \<Rightarrow> sched \<Rightarrow> sched \<Rightarrow> bool" where
  event: "event_ok e s \<Longrightarrow> kernel_step Op_Event s (snd (sched_event_step e c s))"
| go: "kernel_step Op_Go s (sched_go s)"
| spawn: "sched_spawn name s = Some (r, s') \<Longrightarrow> kernel_step Op_Spawn s s'"
| exec_file: "sched_exec_file path d e s = Some (Elf_Ok (r, s')) \<Longrightarrow> kernel_step Op_Exec_File s s'"
| kill: "sched_kill p s = Some (r, s') \<Longrightarrow> kernel_step Op_Kill s s'"
| wait: "sched_wait p s = Some (r, s') \<Longrightarrow> kernel_step Op_Wait s s'"
| fork: "sys_fork c s = Some (c', s') \<Longrightarrow> kernel_step Op_Fork s s'"
| exec_self: "sched_exec_self c path d e s = Elf_Ok (c', s') \<Longrightarrow> kernel_step Op_Exec_Self s s'"

inductive kernel_run :: "kernel_op list \<Rightarrow> sched \<Rightarrow> sched \<Rightarrow> bool" where
  start: "kernel_run [] s s"
| step: "kernel_run ops s s1 \<Longrightarrow> kernel_step op s1 s2 \<Longrightarrow> kernel_run (ops @ [op]) s s2"

lemma start_spec_inv: "start_spec nm r s s' \<Longrightarrow> sched_inv s'"
  by (simp add: start_spec_def)

lemma kernel_step_inv: "kernel_step op s s' \<Longrightarrow> sched_inv s \<Longrightarrow> sched_inv s'"
proof (induction rule: kernel_step.induct)
  case (event e s c)
  then show ?case by (simp add: event_inv)
next
  case (go s)
  then show ?case by (simp add: sched_go_def sched_inv_def run_inv_def)
next
  case (spawn name s r s')
  from spawn(2) show ?case by (rule sched_spawn_start [of s name]) (use spawn(1) start_spec_inv in auto)
next
  case (exec_file path d e s r s')
  from exec_file(2) show ?case by (rule exec_file_start [of s path d e]) (use exec_file(1) start_spec_inv in auto)
next
  case (kill p s r s')
  then show ?case using sched_kill_ok [of s p] by (auto simp: gone_def split: if_splits)
next
  case (wait p s r s')
  then show ?case using sched_wait_ok [of s p] by (auto simp: gone_def split: if_splits)
next
  case (fork c s c' s')
  from fork(2) show ?case by (rule sys_fork_ok [of s c]) (use fork(1) in auto)
next
  case (exec_self c path d e s c' s')
  show ?case
  proof (cases "cur s")
    case None
    then show ?thesis using exec_self by (simp add: sched_exec_self_def)
  next
    case (Some self)
    from exec_self(2) Some show ?thesis
      by (rule exec_self_ok [of s self c path d e]) (use exec_self(1) in \<open>auto simp: exec_spec_def\<close>)
  qed
qed

text \<open>The state before \<^verbatim>\<open>sched_init\<close>: the static table is zero, and the two allocators are initialised.\<close>

definition sched_boot :: "sched \<Rightarrow> bool" where
  "sched_boot s \<longleftrightarrow> table s = replicate 32 zero_process \<and> pmm_inv (frames s) \<and> (\<exists>bs A. kheap_inv (heap s) bs A)"

lemma load_image_frames:
  assumes "pmm_inv (frames s)"
  shows "pmm_inv (frames (load_image start sz s)) \<and> table (load_image start sz s) = table s \<and> heap (load_image start sz s) = heap s
     \<and> cur (load_image start sz s) = cur s"
proof (cases "sz = 0 \<or> sz > 128 * 4096")
  case True
  then show ?thesis using assms by (simp add: load_image_def)
next
  case False
  define n where "n = (sz + 4095) div 4096"
  have u: "0 < unat sz" "unat sz \<le> 128 * 4096" using False by (auto simp: word_less_nat_alt unat_gt_0 not_less)
  have "unat n = (unat sz + 4095) div 4096" using u by (simp add: n_def unat_div unat_word_ariths)
  then have n: "0 < unat n" "unat n \<le> 128" using u by (auto simp: div_greater_zero_iff)
  then have "unat (ucast n :: u32) = unat n" by (simp add: unsigned_ucast_eq take_bit_nat_eq_self_iff)
  then have n0: "(ucast n :: u32) \<noteq> 0" using n(1) by (metis less_not_refl unat_0)
  obtain b pm where a: "pmm_alloc_range (ucast n) (frames s) = (b, pm)" by fastforce
  have "pmm_inv pm" by (rule pmm_alloc_range_inv [OF assms n0 a])
  then show ?thesis using False a by (simp add: load_image_def Let_def n_def)
qed

lemma sched_init_inv:
  assumes "sched_boot s"
  shows "sched_inv (sched_init start sz s)"
proof -
  define s0 where "s0 = s\<lparr>table := map (\<lambda>p. p\<lparr>state := P_EMPTY, pid := 0, cr3 := 0\<rparr>) (table s), cur := None, kernel_ctx := 0,
          kernel_ctx_valid := False, sched_ready := False\<rparr>"
  have z: "zero_process\<lparr>state := P_EMPTY, pid := 0, cr3 := 0\<rparr> = zero_process" "own zero_process = []" "proc_wf zero_process" "state zero_process = P_EMPTY"
    by (simp_all add: zero_process_def own_def proc_wf_def)
  have t: "table s0 = replicate 32 zero_process" "cur s0 = None" "frames s0 = frames s" "heap s0 = heap s"
    using assms z(1) by (simp_all add: s0_def sched_boot_def)
  have L: "pmm_inv (frames (load_image start sz s0))" "table (load_image start sz s0) = replicate 32 zero_process" "heap (load_image start sz s0) = heap s"
    "cur (load_image start sz s0) = None"
    using load_image_frames [of s0 start sz] assms t by (auto simp: sched_boot_def)
  have "stacks (replicate 32 zero_process) = {}" using z(4) by (auto simp: stacks_def live_def)
  then have "heap_ok (heap s) (stacks (replicate 32 zero_process))" using assms by (auto simp: sched_boot_def heap_ok_def)
  then have "res_inv (replicate 32 zero_process) (frames (load_image start sz s0)) (heap s)"
    unfolding res_inv_def using L(1) z by (simp add: live_def)
  moreover have "run_inv (load_image start sz s0)" using L z(4) by (simp add: run_inv_def)
  ultimately have "sched_inv (load_image start sz s0)" by (simp add: sched_inv_def L)
  then show ?thesis by (simp add: sched_init_def s0_def)
qed


lemma kernel_run_inv: "kernel_run ops s s' \<Longrightarrow> sched_inv s \<Longrightarrow> sched_inv s'"
  by (induction rule: kernel_run.induct) (auto intro: kernel_step_inv)


definition boot_ex :: sched where
  "boot_ex = sched_ex\<lparr>table := replicate 32 zero_process\<rparr>"

lemma boot_ex_boot: "sched_boot boot_ex"
  using pmm_ex_inv kheap_ex2_inv by (auto simp: sched_boot_def boot_ex_def sched_ex_def)

lemma boot_ex_run: "kernel_run [Op_Go] (sched_init 0 0 boot_ex) (sched_go (sched_init 0 0 boot_ex))"
  using kernel_run.step [OF kernel_run.start kernel_step.go] by simp


text \<open>
  C16. \<^verbatim>\<open>sched_spawn\<close> returns. It returns \<open>- 1\<close> and starts nothing, though the slot of a dead process may
  have been emptied, or it adds one ready process with the given name (14 characters of it), a fresh
  number and its own page tables in a free slot or in that of a dead process; other slots stay.
\<close>

theorem sched_spawn_correct:
  assumes "sched_inv s"
  shows "\<exists>r s'. sched_spawn name s = Some (r, s') \<and> start_spec (proc_name name) r s s'"
  by (rule sched_spawn_start [OF assms]) blast

theorem sched_spawn_correct_witness:
  "sched_inv sched_ex \<and> (\<exists>r s'. sched_spawn [97, 98] sched_ex = Some (r, s') \<and> start_spec (97 # 98 # replicate 13 0) r sched_ex s')"
  using sched_spawn_correct [OF sched_ex_inv, of "[97, 98]"] sched_ex_inv by (simp add: proc_name_def)

text \<open>
  C17. \<^verbatim>\<open>sched_kill\<close> and \<^verbatim>\<open>sched_wait\<close> return. Kill refuses exactly when no live process has the number or
  it is the running one; wait refuses exactly when there is no dead process (with that number), and
  returns its exit code otherwise. On success the process is gone: its slot is empty, its frames are
  free, and every other process is as before.
\<close>

theorem sched_kill_wait_correct:
  assumes "sched_inv s"
  shows "(\<exists>r s'. sched_kill p s = Some (r, s') \<and>
           (if r = - 1 then s' = s \<and> (\<forall>i < 32. live (table s ! i) \<and> pid (table s ! i) = p \<longrightarrow> cur s = Some i)
            else r = 0 \<and> (\<exists>i. live (table s ! i) \<and> pid (table s ! i) = p \<and> cur s \<noteq> Some i \<and> gone i s s')))
     \<and> (\<exists>r s'. sched_wait p s = Some (r, s') \<and>
           (if \<exists>i < 32. state (table s ! i) = P_ZOMBIE \<and> (p = 0 \<or> pid (table s ! i) = p)
            then \<exists>i. state (table s ! i) = P_ZOMBIE \<and> (p = 0 \<or> pid (table s ! i) = p) \<and> r = sint (exitcode (table s ! i)) \<and> gone i s s'
            else r = - 1 \<and> s' = s))"
  using sched_kill_ok [OF assms] sched_wait_ok [OF assms] by blast

theorem sched_kill_wait_correct_witness:
  "sched_inv sched_ex \<and> (\<exists>r s'. sched_kill 1 sched_ex = Some (r, s') \<and> r = 0 \<and> gone 3 sched_ex s') \<and> sched_wait 0 sched_ex = Some (- 1, sched_ex)"
proof -
  have c: "cur sched_ex = None" by (simp add: sched_ex_def)
  have l: "live (table sched_ex ! 3)" "pid (table sched_ex ! 3) = 1" by (simp_all add: sched_ex_nth live_def proc_ex_def)
  have u: "i = 3" if "live (table sched_ex ! i)" "gone i sched_ex s'" for i s'
    using that sched_ex_nth [of i] by (auto simp: gone_def live_def zero_process_def split: if_splits)
  have z: "\<not> (\<exists>i < 32. state (table sched_ex ! i) = P_ZOMBIE)" by (auto simp: sched_ex_nth proc_ex_def zero_process_def)
  note T = sched_kill_wait_correct [OF sched_ex_inv]
  show ?thesis
    using T [of 1, THEN conjunct1] T [of 0, THEN conjunct2] c l u z sched_ex_inv by (auto split: if_splits)
qed


text \<open>
  C18. \<^verbatim>\<open>sched_exec_self\<close> for the current process: unless the file sends the loader outside its buffer, it
  either fails and the process goes on with its old image, or it gives the process an address space
  of fresh frames and frees the old one, keeping its number, name and kernel stack. In both cases
  the invariant and all other processes are kept. The page table register is not written.
\<close>

theorem sched_exec_self_correct:
  assumes "sched_inv s" "cur s = Some self"
  shows "sched_exec_self c path d e s = Elf_Wild \<or> (\<exists>c' s'. sched_exec_self c path d e s = Elf_Ok (c', s') \<and> exec_spec c self c' s s')"
  by (rule exec_self_ok [OF assms]) blast+

definition run_ex :: sched where
  "run_ex = sched_ex\<lparr>table := (table sched_ex)[3 := proc_ex\<lparr>state := P_RUNNING\<rparr>], cur := Some 3\<rparr>"

lemma run_ex_inv: "sched_inv run_ex"
proof -
  have len: "length (table sched_ex) = 32" by (simp add: sched_ex_def)
  have n: "table run_ex ! j = (if j = 3 then proc_ex\<lparr>state := P_RUNNING\<rparr> else zero_process)" if "j < 32" for j
    using that len sched_ex_nth [of j] by (simp add: run_ex_def nth_list_update)
  have "\<forall>i < 32. same_res (table run_ex ! i) (table sched_ex ! i)"
    by (auto simp: n sched_ex_nth same_res_def live_def proc_ex_def)
  then have "res_inv (table run_ex) (frames sched_ex) (heap sched_ex)"
    using sched_ex_inv res_inv_cong [of "table sched_ex" "frames sched_ex" "heap sched_ex" "table run_ex"]
    by (simp add: sched_inv_def) (simp add: run_ex_def)
  moreover have "frames run_ex = frames sched_ex" "heap run_ex = heap sched_ex" "cur run_ex = Some 3" by (simp_all add: run_ex_def)
  moreover have "run_inv run_ex" using calculation(4) by (simp add: run_inv_def n zero_process_def)
  ultimately show ?thesis by (simp add: sched_inv_def)
qed

theorem sched_exec_self_correct_witness:
  "sched_inv run_ex \<and> cur run_ex = Some 3 \<and>
   (\<forall>c path d e. sched_exec_self c path d e run_ex = Elf_Wild \<or> (\<exists>c' s'. sched_exec_self c path d e run_ex = Elf_Ok (c', s') \<and> exec_spec c 3 c' run_ex s'))"
proof -
  have c: "cur run_ex = Some 3" by (simp add: run_ex_def)
  show ?thesis using sched_exec_self_correct [OF run_ex_inv c] run_ex_inv c by blast
qed

text \<open>
  Whenever the image is replaced, the processor keeps running on the page tables of the old address
  space, and these have just been given back to the frame allocator.
\<close>

lemma exec_self_stale_tables:
  assumes "exec_spec c self c' s s'" "table s' \<noteq> table s" "hw_cr3 s \<in> set (own (table s ! self))"
  shows "hw_cr3 s' = hw_cr3 s" "hw_cr3 s' \<notin> alloced (frames s')"
  using assms by (auto simp: exec_spec_def Let_def)

end
