(* ===== verification/Load.thy ===== *)
theory Load
  imports Elf
begin

text \<open>
  The checks on user pointers, and the segment loader of \<^verbatim>\<open>elf_parse_and_load\<close> against what a loader should
  leave in memory.
\<close>

section \<open>User pointers\<close>

text \<open>
  The range check of system calls on user pointers accepts exactly the ranges inside the window
  and, because the sum \<^verbatim>\<open>a + n\<close> is taken modulo \<open>2 ^ 64\<close>, also every short range that runs over the end of
  the address space.
\<close>

theorem uaddr_ok_exact:
  "uaddr_ok a n \<longleftrightarrow> unat n \<le> 0x20000 \<and>
     (0x40000000 \<le> unat a \<and> unat a + unat n \<le> 0x40020000 \<or> 2 ^ 64 \<le> unat a + unat n)"
proof -
  have w: "unat (USER_WINDOW_END - USER_IMG_BASE) = 0x20000" "unat USER_IMG_BASE = 0x40000000" "unat USER_WINDOW_END = 0x40020000"
    by (simp_all add: sched_const_defs)
  show ?thesis
  proof (cases "unat a + unat n < 2 ^ 64")
    case True
    then have "unat (a + n) = unat a + unat n" by (simp add: unat_word_ariths)
    then show ?thesis using True by (auto simp: uaddr_ok_def word_le_nat_alt w)
  next
    case False
    have l: "unat a < 2 ^ 64" "unat n < 2 ^ 64" using unsigned_less [of a] unsigned_less [of n] by simp_all
    then have "unat (a + n) = unat a + unat n - 2 ^ 64" using False by (simp add: unat_word_ariths le_mod_geq)
    then show ?thesis using False l by (auto simp: uaddr_ok_def word_le_nat_alt w)
  qed
qed

section \<open>Segments\<close>

lemma unat_of_nat_self: "unat (w :: u64) = k \<Longrightarrow> w = of_nat k"
  by auto

text \<open>Byte \<open>j\<close> of a page whose first byte is byte \<open>d\<close> of the segment.\<close>

definition seg_byte :: "elf \<Rightarrow> phdr \<Rightarrow> nat \<Rightarrow> u8 option" where
  "seg_byte e ph k =
     (if k < unat (p_memsz ph) \<and> k < unat (p_filesz ph) \<and> unat (p_offset ph) + k < elf_len e
      then Some (elf_buf e ! (unat (p_offset ph) + k)) else None)"

lemma load_page_eq:
  assumes d: "unat (pv - voff0) = d" "d + 4096 < 2 ^ 63" and o: "unat (p_offset ph) < 2 ^ 63" "elf_len e < 2 ^ 63" and k: "k \<le> 4096"
  shows "load_page [k..<4096] page pv voff0 e ph m x =
     (let j = unat (x - page) in if k \<le> j \<and> j < 4096 then (case seg_byte e ph (d + j) of Some b \<Rightarrow> b | None \<Rightarrow> m x) else m x)"
  using k
proof (induction "4096 - k" arbitrary: k m)
  case 0
  then show ?case by (auto simp: Let_def)
next
  case (Suc n)
  then have kl: "k < 4096" and up: "[k..<4096] = k # [Suc k..<4096]" by (simp_all add: upt_conv_Cons)
  have a: "pv + of_nat k - voff0 = (pv - voff0) + of_nat k" by simp
  have ab: "unat (pv + of_nat k - voff0) = d + k" using d kl unfolding a by (simp add: unat_word_ariths unat_of_nat)
  have fo: "unat (p_offset ph + (pv + of_nat k - voff0)) = unat (p_offset ph) + (d + k)"
    using ab d(2) o(1) kl by (subst unat_word_ariths) (simp add: ab)
  have el: "unat (of_nat (elf_len e) :: u64) = elf_len e" using o(2) by (simp add: unat_of_nat)
  have xk: "x = page + of_nat k \<longleftrightarrow> unat (x - page) = k"
  proof
    assume "unat (x - page) = k"
    then have "x - page = of_nat k" by (metis unat_of_nat_self)
    then show "x = page + of_nat k" by (metis add.commute diff_add_cancel)
  qed (use kl in \<open>simp add: unat_of_nat\<close>)
  define w where "w = (pv + of_nat k - voff0 < p_filesz ph \<and> p_offset ph + (pv + of_nat k - voff0) < of_nat (elf_len e))"
  define m1 where "m1 = (if w then m(page + of_nat k := elf_buf e ! (unat (p_offset ph) + (d + k))) else m)"
  have w: "w \<longleftrightarrow> d + k < unat (p_filesz ph) \<and> unat (p_offset ph) + (d + k) < elf_len e"
    by (simp add: w_def word_less_nat_alt ab fo el)
  show ?case
  proof (cases "d + k < unat (p_memsz ph)")
    case False
    have "load_page [k..<4096] page pv voff0 e ph m = m" using False by (simp add: up Let_def word_le_nat_alt ab)
    moreover have "seg_byte e ph (d + j) = None" if "k \<le> j" for j using False that by (simp add: seg_byte_def)
    ultimately show ?thesis by (simp add: Let_def)
  next
    case True
    have "load_page [k..<4096] page pv voff0 e ph m x = load_page [Suc k..<4096] page pv voff0 e ph m1 x"
      using True unfolding up load_page.simps Let_def m1_def w_def fo by (simp add: word_le_nat_alt ab)
    also have "\<dots> = (let j = unat (x - page) in if Suc k \<le> j \<and> j < 4096 then (case seg_byte e ph (d + j) of Some b \<Rightarrow> b | None \<Rightarrow> m1 x) else m1 x)"
      using Suc.hyps kl by simp
    also have "\<dots> = (let j = unat (x - page) in if k \<le> j \<and> j < 4096 then (case seg_byte e ph (d + j) of Some b \<Rightarrow> b | None \<Rightarrow> m x) else m x)"
    proof (cases "unat (x - page) = k")
      case same: True
      then show ?thesis using kl True w by (auto simp: Let_def m1_def xk seg_byte_def)
    next
      case diff: False
      then have "m1 x = m x" by (simp add: m1_def xk)
      then show ?thesis using diff by (auto simp: Let_def split: option.split)
    qed
    finally show ?thesis .
  qed
qed


lemma memset_eq:
  assumes "n < 2 ^ 64"
  shows "memset p v n m x = (if unat (x - p) < n then v else m x)"
  using assms
proof (induction n arbitrary: p m)
  case (Suc n)
  have "unat (x - (p + 1)) < n \<or> x = p \<longleftrightarrow> unat (x - p) < Suc n"
  proof (cases "x = p")
    case False
    then have "x - p \<noteq> 0" by simp
    then have "unat (x - (p + 1)) = unat (x - p) - 1" "unat (x - p) \<noteq> 0" by (simp_all add: unat_minus_one unat_eq_zero flip: diff_diff_eq)
    then show ?thesis using False by auto
  qed simp
  moreover have "\<not> unat (x - (p + 1)) < n" if "x = p"
    using that Suc.prems by (simp add: unsigned_minus_1_eq_mask mask_eq_exp_minus_1)
  ultimately show ?case using Suc by auto
qed simp

text \<open>Pages at distinct multiples of 4096 do not overlap.\<close>

lemma page_unique:
  assumes "unat f mod 4096 = 0" "unat g mod 4096 = 0" "unat (x - f) < 4096" "unat (x - g) < 4096"
  shows "f = (g :: u64)"
proof -
  have "unat x div 4096 = unat f div 4096" if "unat f mod 4096 = 0" "unat (x - f) < 4096" for f :: u64
  proof -
    have le: "unat f + 4096 \<le> 2 ^ 64"
    proof -
      have "unat f < 4096 * 2 ^ 52" using unsigned_less [of f] by simp
      then have "unat f div 4096 < 2 ^ 52" by (simp add: div_less_iff_less_mult)
      then have "unat f div 4096 * 4096 + 4096 \<le> 2 ^ 64" by simp
      then show ?thesis using that(1) by (simp add: mod_0_imp_dvd)
    qed
    have "unat (f + (x - f)) = unat f + unat (x - f)" using le that(2) by (subst unat_word_ariths(1)) simp
    then have "unat x = unat f + unat (x - f)" by simp
    then show ?thesis using that by (simp add: div_add1_eq)
  qed
  then have "unat f div 4096 = unat g div 4096" using assms by metis
  then have "unat f = unat g" using assms(1,2) by (metis mod_div_decomp)
  then show ?thesis by (simp add: word_unat_eq_iff)
qed

lemma load_pages_other:
  "(\<forall>vp \<in> set vps. \<not> unat (x - fs ! vp) < 4096) \<Longrightarrow> load_pages vps fs voff0 e ph m x = m x"
proof (induction vps arbitrary: m)
  case (Cons vp vps)
  have n: "load_page offs page pv voff0 e ph m x = m x" if "\<not> unat (x - page) < 4096" "set offs \<subseteq> {..<4096}" for offs page pv m
    using that
  proof (induction offs arbitrary: m)
    case (Cons off offs)
    have "x \<noteq> page + of_nat off" using Cons.prems by (auto simp: unat_of_nat)
    then show ?case using Cons by (simp add: Let_def)
  qed simp
  have r: "set [0..<4096] \<subseteq> {..<4096 :: nat}" by auto
  show ?case using Cons n [OF _ r] memset_eq [of 4096 "fs ! vp" 0 m x] by (simp add: Let_def del: upt_rec_numeral)
qed simp


text \<open>The pages of a segment that starts at a page boundary.\<close>

lemma load_pages_eq:
  assumes "\<forall>i \<in> {a..<b}. unat (fs ! i) mod 4096 = 0" "inj_on (\<lambda>i. fs ! i) {a..<b}" "b \<le> 32"
    and v: "unat voff0 = 4096 * v" "v \<le> a" and o: "unat (p_offset ph) < 2 ^ 63" "elf_len e < 2 ^ 63"
    and x: "vp \<in> {a..<b}" "unat (x - fs ! vp) = j" "j < 4096"
  shows "load_pages [a..<b] fs voff0 e ph m x = (case seg_byte e ph (4096 * (vp - v) + j) of Some c \<Rightarrow> c | None \<Rightarrow> 0)"
  using assms(1-2) v(2) x
proof (induction "b - a" arbitrary: a m)
  case (Suc n)
  have ab: "a < b" using Suc.hyps(2) by simp
  then have up: "[a..<b] = a # [Suc a..<b]" by (rule upt_conv_Cons)
  define m1 where "m1 = load_page [0..<4096] (fs ! a) (of_nat a * 4096) voff0 e ph (memset (fs ! a) 0 4096 m)"
  have lp: "load_pages [a..<b] fs voff0 e ph m x = load_pages [Suc a..<b] fs voff0 e ph m1 x"
    unfolding up load_pages.simps Let_def m1_def ..
  show ?case
  proof (cases "vp = a")
    case False
    then have "vp \<in> {Suc a..<b}" using Suc.prems(4) by auto
    then show ?thesis unfolding lp using Suc.hyps(1) [of "Suc a" m1] Suc.hyps(2) Suc.prems by (auto simp: inj_on_def)
  next
    case True
    have "\<not> unat (x - fs ! i) < 4096" if "i \<in> set [Suc a..<b]" for i
    proof
      assume "unat (x - fs ! i) < 4096"
      then have "fs ! i = fs ! a" using page_unique [of "fs ! i" "fs ! a" x] Suc.prems(1,5,6) that ab True by auto
      then show False using inj_onD [OF Suc.prems(2), of i a] that ab by auto
    qed
    then have "load_pages [Suc a..<b] fs voff0 e ph m1 x = m1 x" by (intro load_pages_other) blast
    moreover have "unat (of_nat a * 4096 - voff0) = 4096 * (a - v)"
    proof -
      have ua: "unat (of_nat a * 4096 :: u64) = 4096 * a" using ab assms(3) by (simp add: unat_word_ariths unat_of_nat)
      then have "voff0 \<le> of_nat a * 4096" using v(1) Suc.prems(3) by (simp add: word_le_nat_alt)
      then show ?thesis using ua v(1) by (simp add: unat_sub right_diff_distrib')
    qed
    then have "m1 x = (case seg_byte e ph (4096 * (a - v) + j) of Some c \<Rightarrow> c | None \<Rightarrow> memset (fs ! a) 0 4096 m x)"
      unfolding m1_def using Suc.prems(5,6) True ab assms(3) o by (subst load_page_eq) (auto simp: Let_def)
    moreover have "memset (fs ! a) 0 4096 m x = 0" using Suc.prems(5,6) True by (subst memset_eq) auto
    ultimately show ?thesis using True by (simp add: lp split: option.split)
  qed
qed auto


definition phdr_ex :: phdr where
  "phdr_ex = \<lparr>p_type = PT_LOAD, p_offset = 2, p_vaddr = 0x40001000, p_filesz = 2, p_memsz = 5000\<rparr>"

definition elf_ex :: elf where
  "elf_ex = \<lparr>elf_buf = [0, 1, 2, 3, 4], elf_len = 5, elf_entry = 0\<rparr>"

definition pages_ex :: "u64 list" where
  "pages_ex = map (\<lambda>i. of_nat (0x200000 + 4096 * i)) [0..<256]"

lemma pages_ex_nth: "i < 256 \<Longrightarrow> unat (pages_ex ! i) = 0x200000 + 4096 * i"
  by (simp add: pages_ex_def unat_of_nat del: upt_rec_numeral of_nat_add of_nat_mult)


text \<open>
  A segment that does not start at a page boundary loses its first page: the loop over the bytes of
  the page ends at the first one, which lies before the segment.
\<close>

lemma unaligned_first_page:
  assumes "pv < voff0" "p_memsz ph \<le> 0x20000" "voff0 \<le> 0x20000"
  shows "load_page [0..<4096] page pv voff0 e ph m = m"
proof -
  have "unat (pv - voff0) = 2 ^ 64 - (unat voff0 - unat pv)"
    using assms(1) by (simp add: unat_sub_if' word_less_nat_alt)
  moreover have "unat voff0 \<le> 0x20000" "unat (p_memsz ph) \<le> 0x20000" using assms by (simp_all add: word_le_nat_alt)
  ultimately have "p_memsz ph \<le> pv - voff0" by (simp add: word_le_nat_alt)
  then show ?thesis by (subst upt_conv_Cons) (simp_all add: Let_def)
qed

end
