(* ===== verification/Vm.thy ===== *)
theory Vm
  imports Load
begin

text \<open>
  Address spaces as the processor sees them. \<open>mmu\<close> is the translation of addresses by the page tables that \<^verbatim>\<open>cr3\<close>
  names; the theorem of this theory says what the tables of \<^verbatim>\<open>vm_build\<close> of \<^verbatim>\<open>kernel/sched.cpp\<close> map in the window of
  the user: the pages of the image or of the program, the pages of the stack, and nothing else.
\<close>

unbundle bit_operations_syntax

section \<open>Address translation\<close>

text \<open>
  Four levels of tables of 512 entries, bit 0 of an entry for present and bit 7 of the two middle levels for a
  large page. The kernel runs with the write protection bit of \<^verbatim>\<open>cr0\<close> clear, so its own accesses are not
  restricted by the other bits.
\<close>

definition canonical :: "u64 \<Rightarrow> bool" where
  "canonical a \<longleftrightarrow> a < 0x800000000000 \<or> 0xFFFF800000000000 \<le> a"

definition pt_index :: "u64 \<Rightarrow> nat \<Rightarrow> u64" where
  "pt_index a lvl = drop_bit (12 + 9 * lvl) a AND 0x1FF"

definition pt_entry :: "mem \<Rightarrow> u64 \<Rightarrow> u64 \<Rightarrow> u64" where
  "pt_entry m t i = load64 m ((t AND 0x000FFFFFFFFFF000) + 8 * i)"

definition mmu :: "mem \<Rightarrow> u64 \<Rightarrow> u64 \<Rightarrow> u64 option" where
  "mmu m t a =
     (let e4 = pt_entry m t (pt_index a 3); e3 = pt_entry m e4 (pt_index a 2);
          e2 = pt_entry m e3 (pt_index a 1); e1 = pt_entry m e2 (pt_index a 0)
      in if \<not> canonical a \<or> \<not> bit e4 0 \<or> \<not> bit e3 0 then None
         else if bit e3 7 then Some ((e3 AND 0x000FFFFFC0000000) OR (a AND 0x3FFFFFFF))
         else if \<not> bit e2 0 then None
         else if bit e2 7 then Some ((e2 AND 0x000FFFFFFFE00000) OR (a AND 0x1FFFFF))
         else if \<not> bit e1 0 then None
         else Some ((e1 AND 0x000FFFFFFFFFF000) OR (a AND 0xFFF)))"


section \<open>Pages\<close>

text \<open>A page: a multiple of 4096 that fits the address field of an entry.\<close>

definition page :: "u64 \<Rightarrow> bool" where
  "page f \<longleftrightarrow> unat f mod 4096 = 0 \<and> unat f < 2 ^ 52"

definition tbl :: "mem \<Rightarrow> u64 \<Rightarrow> nat \<Rightarrow> u64" where
  "tbl m t i = load64 m (t + 8 * of_nat i)"

lemma alloced_page: "pmm_inv pm \<Longrightarrow> f \<in> alloced pm \<Longrightarrow> page f"
proof -
  assume pm: "pmm_inv pm" and f: "f \<in> alloced pm"
  obtain i where i: "i < unat (nframes pm)" "f = frame_addr (base pm) i" using f used_lt by (auto simp: alloced_def)
  have "unat f = unat (base pm) + 4096 * i" using pmm_frame_addr [OF pm] i by simp
  then show "page f" using pm i(1) by (auto simp: page_def pmm_inv_def)
qed

lemma page_bits: "page f \<Longrightarrow> n < 12 \<Longrightarrow> \<not> bit f n"
  and page_high: "page f \<Longrightarrow> 52 \<le> n \<Longrightarrow> \<not> bit f n"
proof -
  assume p: "page f"
  have "unat (take_bit 12 f) = take_bit 12 (unat f)" by (rule unsigned_take_bit_eq)
  also have "\<dots> = 0" using p by (simp add: page_def take_bit_eq_mod)
  finally have "take_bit 12 f = 0" by (simp only: unat_eq_zero)
  then show "n < 12 \<Longrightarrow> \<not> bit f n" by (metis bit_0_eq bit_take_bit_iff bot_apply bot_bool_def)
  have "take_bit 52 f = f" using p by (simp add: page_def word_unat_eq_iff unsigned_take_bit_eq take_bit_nat_eq_self)
  then show "52 \<le> n \<Longrightarrow> \<not> bit f n" by (metis bit_take_bit_iff not_le)
qed

lemma addr_mask: "(0x000FFFFFFFFFF000 :: u64) = mask 52 AND NOT (mask 12)"
  by (simp add: mask_eq_exp_minus_1)

lemma page_entry:
  assumes "page f"
  shows "(f OR 7) AND 0x000FFFFFFFFFF000 = f" "(f OR 5) AND 0x000FFFFFFFFFF000 = f" "f AND 0x000FFFFFFFFFF000 = f"
    "bit (f OR 7) 0" "bit (f OR 5) 0" "\<not> bit (f OR 7) 7"
proof -
  have seven: "(7 :: u64) = mask 3" by (simp add: mask_eq_exp_minus_1)
  show "f AND 0x000FFFFFFFFFF000 = f" unfolding addr_mask
    by (rule bit_word_eqI) (use page_bits [OF assms] page_high [OF assms] in \<open>force simp: bit_simps not_le not_less\<close>)
  have m: "(7 :: u64) AND 0x000FFFFFFFFFF000 = 0" "(5 :: u64) AND 0x000FFFFFFFFFF000 = 0" by simp_all
  show "(f OR 7) AND 0x000FFFFFFFFFF000 = f" "(f OR 5) AND 0x000FFFFFFFFFF000 = f"
    using \<open>f AND 0x000FFFFFFFFFF000 = f\<close> by (simp_all only: and.commute [of "_ OR _"] bit.conj_disj_distrib and.commute [of _ f] and.commute [of _ 7] and.commute [of _ 5] m or.right_neutral)
  show "bit (f OR 7) 0" "bit (f OR 5) 0" by (simp_all add: bit_simps)
  show "\<not> bit (f OR 7) 7" using page_bits [OF assms, of 7] by (simp add: seven bit_simps)
qed


section \<open>Entries of tables\<close>

lemma horner_take:
  "horner_sum (\<lambda>x. x) 256 (map (\<lambda>k. take_bit 8 (drop_bit (8 * k) u)) [0..<n]) = take_bit (8 * n) (u :: int)"
proof (induction n arbitrary: u)
  case (Suc n)
  have "map (\<lambda>k. take_bit 8 (drop_bit (8 * k) u)) [0..<Suc n] =
      take_bit 8 u # map (\<lambda>k. take_bit 8 (drop_bit (8 * k) (drop_bit 8 u))) [0..<n]"
    by (rule nth_equalityI) (auto simp: nth_Cons nth_append less_Suc_eq add.commute split: nat.split)
  moreover have "take_bit 8 u + 256 * take_bit (8 * n) (drop_bit 8 u) = take_bit (8 * Suc n) u"
    using zmod_zmult2_eq [of "2 ^ (8 * n)" u 256] by (simp add: take_bit_eq_mod drop_bit_eq_div power_add)
  ultimately show ?case by (simp only: horner_sum_simps Suc.IH)
qed simp

lemma rcat_bytes: "word_rcat (rev (map (\<lambda>k. ucast (drop_bit (8 * k) v) :: u8) [0..<8])) = (v :: u64)"
proof -
  have "map uint (map (\<lambda>k. ucast (drop_bit (8 * k) v) :: u8) [0..<8]) = map (\<lambda>k. take_bit 8 (drop_bit (8 * k) (take_bit 64 (uint v)))) [0..<8]"
    by (simp add: unsigned_ucast_eq unsigned_drop_bit_eq)
  moreover have "horner_sum uint 256 bs = horner_sum (\<lambda>x. x) 256 (map uint bs)" for bs :: bytes by (induction bs) simp_all
  ultimately have "horner_sum uint 256 (map (\<lambda>k. ucast (drop_bit (8 * k) v) :: u8) [0..<8]) = take_bit 64 (uint v)"
    using horner_take [of "take_bit 64 (uint v)" 8] by (simp only:) simp
  moreover have "take_bit 64 (uint v) = uint v"
    by (rule take_bit_int_eq_self) (use unsigned_less [of v, where 'a = int] in simp_all)
  ultimately show ?thesis by (simp add: word_rcat_def)
qed

lemma load64_alt: "load64 m a = word_rcat (rev (map (\<lambda>k. m (a + of_nat k)) [0..<8]))"
  by (simp add: load64_def rev_map)

lemma load64_cong: "(\<And>k. k < 8 \<Longrightarrow> m (a + of_nat k) = m' (a + of_nat k)) \<Longrightarrow> load64 m a = load64 m' a"
  unfolding load64_alt by (intro arg_cong [where f = word_rcat] arg_cong [where f = rev] map_cong) auto

lemma load64_zero: "load64 (\<lambda>_. 0) a = 0"
  using rcat_bytes [of 0] by (simp add: load64_alt)

lemma load64_store64: "load64 (store64 a v m) a = v"
proof -
  have "unat (of_nat k :: u64) = k" if "k < 8" for k using that by (simp add: unat_of_nat_small)
  then have "map (\<lambda>k. store64 a v m (a + of_nat k)) [0..<8] = map (\<lambda>k. ucast (drop_bit (8 * k) v) :: u8) [0..<8]"
    by (intro map_cong) (auto simp: store64_def word_less_nat_alt)
  then show ?thesis unfolding load64_alt by (simp only: rcat_bytes)
qed

lemma entry_addr:
  assumes "page t" "i < 512" "k < 8"
  shows "unat (t + 8 * of_nat i + of_nat k) = unat t + 8 * i + k"
proof -
  have "unat t + 8 * i + k < 2 ^ 64" using assms by (simp add: page_def)
  then show ?thesis by (simp add: unat_word_ariths unat_of_nat)
qed

lemma tbl_store64:
  assumes "page t" "page t'" "i < 512" "j < 512"
  shows "tbl (store64 (t + 8 * of_nat i) v m) t' j = (if t' = t \<and> j = i then v else tbl m t' j)"
proof (cases "t' = t \<and> j = i")
  case False
  have "store64 (t + 8 * of_nat i) v m (t' + 8 * of_nat j + of_nat k) = m (t' + 8 * of_nat j + of_nat k)" if k: "k < 8" for k
  proof (rule ccontr)
    define x where "x = t' + 8 * of_nat j + (of_nat k :: u64)"
    assume "\<not> ?thesis"
    then have "x - (t + 8 * of_nat i) < 8" by (auto simp: store64_def x_def split: if_splits)
    then obtain l where l: "l < 8" "x = t + 8 * of_nat i + of_nat l"
      using that [of "unat (x - (t + 8 * of_nat i))"] by (simp add: word_less_nat_alt)
    have "unat t' + 8 * j + k = unat t + 8 * i + l"
      using entry_addr [OF assms(2,4) k] entry_addr [OF assms(1,3) l(1)] l(2) by (simp add: x_def)
    moreover obtain p q where pq: "unat t = 4096 * p" "unat t' = 4096 * q" using assms(1,2) by (auto simp: page_def mod_eq_0_iff_dvd elim!: dvdE)
    ultimately have e: "4096 * q + (8 * j + k) = 4096 * p + (8 * i + l)" by simp
    have "q = p" using arg_cong [OF e, of "\<lambda>n. n div 4096"] assms(3,4) k l(1) by simp
    then have "8 * j + k = 8 * i + l" using e by simp
    then have "j = i" using k l(1) arg_cong [of "8 * j + k" "8 * i + l" "\<lambda>n. n div 8"] by simp
    moreover have "unat t' = unat t" using pq \<open>q = p\<close> by simp
    ultimately have "unat t' = unat t" "j = i" by blast+
    then show False using False by (simp add: word_unat_eq_iff)
  qed
  then show ?thesis using False unfolding tbl_def by (auto intro: load64_cong)
qed (simp add: tbl_def load64_store64)

lemma tbl_memset:
  assumes "page f" "page t" "j < 512"
  shows "tbl (memset f 0 4096 m) t j = (if t = f then 0 else tbl m t j)"
proof -
  have off: "unat (t + 8 * of_nat j + of_nat k - t) < 4096" if "k < 8" for k :: nat
    using that assms(3) by (simp add: unat_word_ariths unat_of_nat)
  have in_f: "unat (t + 8 * of_nat j + of_nat k - f) < 4096 \<longleftrightarrow> t = f" if "k < 8" for k :: nat
    using page_unique [OF _ _ _ off [OF that], of f] off [OF that] assms by (auto simp: page_def)
  have "memset f 0 4096 m (t + 8 * of_nat j + of_nat k) = (if t = f then 0 else m (t + 8 * of_nat j + of_nat k))" if "k < 8" for k
    using in_f [OF that] by (simp add: memset_eq)
  then have "tbl (memset f 0 4096 m) t j = tbl (if t = f then \<lambda>_. 0 else m) t j"
    unfolding tbl_def by (intro load64_cong) simp
  then show ?thesis by (simp add: tbl_def load64_zero)
qed


section \<open>The tables of an address space\<close>

lemma tbl_set_pte:
  "page t \<Longrightarrow> page t' \<Longrightarrow> i < 512 \<Longrightarrow> j < 512 \<Longrightarrow>
     tbl (memory (set_pte t i v s)) t' j = (if t' = t \<and> j = i then v else tbl (memory s) t' j)"
  by (simp add: set_pte_def tbl_store64)

lemma tbl_alloc:
  assumes "pmm_inv (frames s)" "alloc_zero_frame s = (f, s')" "page t" "j < 512"
  shows "tbl (memory s') t j = (if f \<noteq> 0 \<and> t = f then 0 else tbl (memory s) t j)"
proof (cases "f = 0")
  case True
  then show ?thesis using assms(2) by (auto simp: alloc_zero_frame_def Let_def split: prod.splits)
next
  case False
  note Z = alloc_zero_frame_ok [OF assms(1,2)]
  have "page f" using alloced_page [OF Z(1)] Z(3) False by simp
  moreover have "memory s' = memset f 0 4096 (memory s)"
    using assms(2) False by (auto simp: alloc_zero_frame_def Let_def split: prod.splits)
  ultimately show ?thesis using tbl_memset [OF _ assms(3,4)] False by simp
qed

definition tables :: "process \<Rightarrow> u64 list" where
  "tables p = [pml4 p, pdpt p, pd p, pt p]"

lemma tables_zero:
  assumes inv: "pmm_inv (frames s)" and a: "alloc_tables p s = (p1, s1)" and d: "distinct (tables p1)" and n: "\<not> no_tables p1"
    and t: "t \<in> set (tables p1)" "page t" and j: "j < 512"
  shows "tbl (memory s1) t j = 0"
proof -
  obtain f1 s1' where a1: "alloc_zero_frame s = (f1, s1')" by fastforce
  obtain f2 s2 where a2: "alloc_zero_frame s1' = (f2, s2)" by fastforce
  obtain f3 s3 where a3: "alloc_zero_frame s2 = (f3, s3)" by fastforce
  obtain f4 s4 where a4: "alloc_zero_frame s3 = (f4, s4)" by fastforce
  have e: "p1 = p\<lparr>pml4 := f1, pdpt := f2, pd := f3, pt := f4\<rparr>" "s1 = s4"
    using a a1 a2 a3 a4 by (auto simp: alloc_tables_def Let_def)
  note i1 = alloc_zero_frame_ok(1) [OF inv a1]
  note i2 = alloc_zero_frame_ok(1) [OF i1 a2]
  note i3 = alloc_zero_frame_ok(1) [OF i2 a3]
  show ?thesis
    using tbl_alloc [OF i3 a4 t(2) j] tbl_alloc [OF i2 a3 t(2) j] tbl_alloc [OF i1 a2 t(2) j] tbl_alloc [OF inv a1 t(2) j] t(1) d n
    by (auto simp: e tables_def no_tables_def)
qed

lemma tbl_link:
  assumes "list_all page (tables p)" "distinct (tables p)" "j < 512"
  shows "tbl (memory (link_tables p s)) (pml4 p) j = (if j = 0 then pdpt p OR 7 else tbl (memory s) (pml4 p) j)"
    "tbl (memory (link_tables p s)) (pdpt p) 1 = pd p OR 7"
    "tbl (memory (link_tables p s)) (pd p) j = (if j = 0 then pt p OR 7 else tbl (memory s) (pd p) j)"
    "tbl (memory (link_tables p s)) (pt p) j = tbl (memory s) (pt p) j"
  using assms by (auto simp: link_tables_def Let_def tables_def tbl_set_pte)

lemma tbl_map_image:
  assumes "page t" "page t'" "n \<le> 512" "j < 512"
  shows "tbl (memory (map_image n t s)) t' j = (if t' = t \<and> j < n then img_frames s ! j OR 5 else tbl (memory s) t' j)"
  using assms(3)
proof (induction n)
  case (Suc n)
  obtain m where m: "map_image n t s = s\<lparr>memory := m\<rparr>" using map_image_memory by blast
  then show ?case using Suc tbl_set_pte [OF assms(1,2) _ assms(4), of n] by (auto simp: less_Suc_eq)
qed simp

lemma tbl_map_code:
  assumes "page (pt p)" "page t'" "n \<le> 256" "j < 512" "n \<le> length (code_frames p)"
  shows "tbl (memory (snd (map_code n (code_frames p) (p, s)))) t' j =
     (if t' = pt p \<and> j < n then code_frames p ! j OR 5 else tbl (memory s) t' j)"
  using assms(3,5)
proof (induction n)
  case (Suc n)
  obtain m where m: "map_code n (code_frames p) (p, s) = (p, s\<lparr>memory := m\<rparr>)"
    using map_code_own [of n p s] Suc.prems by (metis Suc_leD prod.collapse)
  then show ?case using Suc tbl_set_pte [OF assms(1,2) _ assms(4), of n] by (auto simp: less_Suc_eq)
qed simp

lemma stack_idx_eq: "k < 4 \<Longrightarrow> stack_idx k = 30 - k"
proof -
  assume "k < 4"
  then consider "k = 0" | "k = 1" | "k = 2" | "k = 3" by linarith
  then show ?thesis by cases (simp_all add: stack_idx_def USER_STACK_TOP_def)
qed

lemma tbl_map_stack:
  assumes "pmm_inv (frames s)" "pt p \<in> alloced (frames s)" "t \<in> alloced (frames s)" "length (stk_pages p) = 4"
    "distinct ks" "set ks \<subseteq> {..<4}" "\<forall>k \<in> set ks. stk_pages p ! k = 0" "map_stack ks (p, s) = (p', s')" "j < 512"
  shows "tbl (memory s') t j =
      (if t = pt p \<and> (\<exists>k \<in> set ks. j = 30 - k \<and> stk_pages p' ! k \<noteq> 0) then stk_pages p' ! (30 - j) OR 7 else tbl (memory s) t j)
    \<and> (\<forall>k < 4. k \<notin> set ks \<longrightarrow> stk_pages p' ! k = stk_pages p ! k)"
  using assms
proof (induction ks arbitrary: p s)
  case (Cons k ks)
  obtain f s1 where a: "alloc_zero_frame s = (f, s1)" by fastforce
  note Z = alloc_zero_frame_ok [OF Cons.prems(1) a]
  have pg: "page t" "page (pt p)" using alloced_page [OF Cons.prems(1)] Cons.prems(2,3) by blast+
  show ?case
  proof (cases "f = 0")
    case True
    then have "p' = p" "s' = s1" using Cons.prems(8) a by auto
    then show ?thesis using tbl_alloc [OF Cons.prems(1) a pg(1) Cons.prems(9)] True Cons.prems(7) by auto
  next
    case False
    define p1 where "p1 = p\<lparr>stk_pages := (stk_pages p)[k := f]\<rparr>"
    define s2 where "s2 = set_pte (pt p) (stack_idx k) (f OR 0x7) s1"
    have k: "k < 4" "k \<notin> set ks" "stack_idx k = 30 - k" using Cons.prems(5,6) stack_idx_eq by auto
    have m: "map_stack ks (p1, s2) = (p', s')" using Cons.prems(8) a False by (simp add: p1_def s2_def)
    have al: "pmm_inv (frames s2)" "pt p1 \<in> alloced (frames s2)" "t \<in> alloced (frames s2)"
      using Z(1,3) Cons.prems(2,3) False by (simp_all add: s2_def p1_def set_pte_def)
    have st: "\<forall>j \<in> set ks. stk_pages p1 ! j = 0" using Cons.prems(5,7) by (auto simp: p1_def) (metis nth_list_update_neq)
    have IH: "tbl (memory s') t j =
        (if t = pt p \<and> (\<exists>k \<in> set ks. j = 30 - k \<and> stk_pages p' ! k \<noteq> 0) then stk_pages p' ! (30 - j) OR 7 else tbl (memory s2) t j)"
      "\<forall>i < 4. i \<notin> set ks \<longrightarrow> stk_pages p' ! i = stk_pages p1 ! i"
      using Cons.IH [OF al _ _ _ st m Cons.prems(9)] Cons.prems(4-6) by (auto simp: p1_def)
    have pk: "stk_pages p' ! k = f" using IH(2) k Cons.prems(4) by (simp add: p1_def)
    have "t \<noteq> f" using Z(2) [OF False] Cons.prems(3) by blast
    then have "tbl (memory s2) t j = (if t = pt p \<and> j = 30 - k then f OR 7 else tbl (memory s) t j)"
      using tbl_set_pte [OF pg(2,1) _ Cons.prems(9)] tbl_alloc [OF Cons.prems(1) a pg(1) Cons.prems(9)] k(1)
      by (simp add: s2_def k(3))
    moreover have "30 - j = k" if "j = 30 - k" using that k(1) by simp
    moreover have "\<forall>i < 4. i \<notin> set (k # ks) \<longrightarrow> stk_pages p' ! i = stk_pages p ! i" using IH(2) by (auto simp: p1_def)
    ultimately show ?thesis using IH(1) pk False by auto
  qed
qed simp


section \<open>The window\<close>

lemma pt_index_of_nat:
  assumes "n < 2 ^ 64"
  shows "pt_index (of_nat n) l = of_nat (n div 2 ^ (12 + 9 * l) mod 512)"
proof -
  have m: "(0x1FF :: u64) = mask 9" by (simp add: mask_eq_exp_minus_1)
  have "unat (pt_index (of_nat n) l) = take_bit 9 (drop_bit (12 + 9 * l) (unat (of_nat n :: u64)))"
    by (simp only: pt_index_def m flip: take_bit_eq_mask) (simp only: unsigned_take_bit_eq unat_drop_bit_eq)
  also have "\<dots> = n div 2 ^ (12 + 9 * l) mod 512"
    using assms by (simp add: unat_of_nat_small take_bit_eq_mod drop_bit_eq_div)
  finally show ?thesis by (simp add: word_unat_eq_iff unat_of_nat_small)
qed

lemma pt_entry_tbl: "pt_entry m t (of_nat i) = tbl m (t AND 0x000FFFFFFFFFF000) i"
  by (simp add: pt_entry_def tbl_def)

lemma window_index:
  fixes i off :: nat
  assumes "i < 2 ^ 18" "off < 4096"
  defines "n \<equiv> 0x40000000 + (4096 * i + off)"
  shows "n < 0x80000000" "n div 2 ^ 39 mod 512 = 0" "n div 2 ^ 30 mod 512 = 1" "n div 2 ^ 21 mod 512 = i div 512" "n div 2 ^ 12 mod 512 = i mod 512"
    "n mod 4096 = off"
proof -
  have b: "4096 * i + off < 0x40000000" using assms(1,2) by simp
  then show "n < 0x80000000" by (simp add: n_def)
  then show "n div 2 ^ 39 mod 512 = 0" by simp
  have "n div 2 ^ 30 = 1" using b by (simp add: n_def)
  then show "n div 2 ^ 30 mod 512 = 1" by simp
  have d: "n div 2 ^ 12 = 0x40000 + i" using assms(2) by (simp add: n_def)
  then show "n div 2 ^ 12 mod 512 = i mod 512" using mod_mult_self1 [of i 512 512] by (simp add: add.commute)
  have "n div 2 ^ 21 = (0x40000 + i) div 512" unfolding d [symmetric] by (simp add: div_mult2_eq [symmetric])
  also have "\<dots> = 512 + i div 512" using div_mult_self1 [of 512 i 512] by (simp add: add.commute)
  finally show "n div 2 ^ 21 mod 512 = i div 512" using assms(1) by simp
  show "n mod 4096 = off" using assms(2) by (simp add: n_def mod_add_eq [symmetric])
qed

lemma mmu_window:
  assumes pg: "page t4" "page t3" "page t2" "page t1"
    and e: "tbl m t4 0 = t3 OR 7" "tbl m t3 1 = t2 OR 7" "tbl m t2 (i div 512) = (if i < 512 then t1 OR 7 else 0)"
    and i: "i < 2 ^ 18" and off: "off < 4096"
  shows "mmu m t4 (0x40000000 + of_nat (4096 * i + off)) =
     (if i < 512 \<and> bit (tbl m t1 i) 0 then Some ((tbl m t1 i AND 0x000FFFFFFFFFF000) OR of_nat off) else None)"
proof -
  define n where "n = 0x40000000 + (4096 * i + off)"
  note W = window_index [OF i off, folded n_def]
  have a: "0x40000000 + of_nat (4096 * i + off) = (of_nat n :: u64)" by (simp add: n_def)
  have x: "pt_index (of_nat n) 3 = of_nat 0" "pt_index (of_nat n) 2 = of_nat 1" "pt_index (of_nat n) 1 = of_nat (i div 512)"
    "pt_index (of_nat n) 0 = of_nat (i mod 512)"
    using W pt_index_of_nat [of n 3] pt_index_of_nat [of n 2] pt_index_of_nat [of n 1] pt_index_of_nat [of n 0] by simp_all
  have can: "canonical (of_nat n)" using W(1) by (simp add: canonical_def word_less_nat_alt unat_of_nat_small)
  have low: "(of_nat n :: u64) AND 0xFFF = of_nat off"
  proof -
    have "(0xFFF :: u64) = mask 12" by (simp add: mask_eq_exp_minus_1)
    then have "unat ((of_nat n :: u64) AND 0xFFF) = take_bit 12 (unat (of_nat n :: u64))"
      by (simp only: flip: take_bit_eq_mask) (simp only: unsigned_take_bit_eq)
    also have "\<dots> = off" using W(1,6) by (simp add: unat_of_nat_small take_bit_eq_mod)
    finally show ?thesis using off by (simp add: word_unat_eq_iff unat_of_nat_small)
  qed
  note E = page_entry [OF pg(1)] page_entry [OF pg(2)] page_entry [OF pg(3)] page_entry [OF pg(4)]
  have e3: "i < 512 \<Longrightarrow> tbl m t2 0 = t1 OR 7" using e(3) by simp
  show ?thesis unfolding a mmu_def Let_def x pt_entry_tbl low
    using E can by (simp add: e(1) e(2) [unfolded One_nat_def] e(3) e3)
qed

lemma page_or: "page f \<Longrightarrow> off < 4096 \<Longrightarrow> f OR of_nat off = f + of_nat off"
proof -
  assume f: "page f" and off: "off < 4096"
  have "\<not> bit (of_nat off :: u64) n" if "12 \<le> n" for n
  proof -
    have "take_bit 12 (of_nat off :: u64) = of_nat off" using off by (simp add: word_unat_eq_iff unsigned_take_bit_eq unat_of_nat_small take_bit_nat_eq_self)
    then show ?thesis using that by (metis bit_take_bit_iff not_le)
  qed
  then have "\<not> (bit f n \<and> bit (of_nat off :: u64) n)" for n using page_bits [OF f, of n] by (cases "n < 12") auto
  then have "f AND of_nat off = 0" by (intro bit_eqI) (simp add: bit_and_iff)
  then show ?thesis by (simp add: disjunctive_add_eq_or)
qed

text \<open>The pages of the program: the frames of its code, or the shared image.\<close>

definition prog_pages :: "u64 list option \<Rightarrow> nat \<Rightarrow> sched \<Rightarrow> u64 list" where
  "prog_pages cf n s = (case cf of Some fs \<Rightarrow> take n fs | None \<Rightarrow> take (img_pages s) (img_frames s))"

lemma link_tables_memory: "\<exists>m. link_tables p s = s\<lparr>memory := m\<rparr>"
  by (auto simp: link_tables_def Let_def set_pte_def)

lemma map_program:
  assumes src: "code_source cf n p1" and wf: "proc_wf p1" and pg: "page (pt p1)" "page t" and j: "j < 512"
    and img: "cf = None \<Longrightarrow> img_pages s2 \<le> 512 \<and> img_pages s2 \<le> length (img_frames s2)"
    and c: "(case cf of Some fs \<Rightarrow> map_code (min n USER_CODE_MAX_PAGES) fs (p1, s2) | None \<Rightarrow> (p1, map_image (img_pages s2) (pt p1) s2)) = (p3, s3)"
  shows "p3 = p1" "\<exists>m. s3 = s2\<lparr>memory := m\<rparr>"
    "tbl (memory s3) t j = (if t = pt p1 \<and> j < length (prog_pages cf n s2) then prog_pages cf n s2 ! j OR 5 else tbl (memory s2) t j)"
proof -
  have "p3 = p1 \<and> (\<exists>m. s3 = s2\<lparr>memory := m\<rparr>) \<and>
    tbl (memory s3) t j = (if t = pt p1 \<and> j < length (prog_pages cf n s2) then prog_pages cf n s2 ! j OR 5 else tbl (memory s2) t j)"
  proof (cases cf)
    case None
    then have "p3 = p1 \<and> s3 = map_image (img_pages s2) (pt p1) s2" using c by auto
    then show ?thesis using map_image_memory [of "img_pages s2" "pt p1" s2] img [OF None]
        tbl_map_image [OF pg _ j, of "img_pages s2" s2] by (simp add: prog_pages_def None)
  next
    case (Some fs)
    have n: "fs = code_frames p1" "n \<le> 256" "length (code_frames p1) = 256" "min n USER_CODE_MAX_PAGES = n"
      using src wf Some by (auto simp: code_source_def proc_wf_def USER_CODE_MAX_PAGES_def)
    have "map_code n (code_frames p1) (p1, s2) = (p3, s3)" using c Some n by simp
    then show ?thesis using map_code_own [of n p1 s2] tbl_map_code [OF pg n(2) j, of s2] n Some by (auto simp: prog_pages_def)
  qed
  then show "p3 = p1" "\<exists>m. s3 = s2\<lparr>memory := m\<rparr>"
    "tbl (memory s3) t j = (if t = pt p1 \<and> j < length (prog_pages cf n s2) then prog_pages cf n s2 ! j OR 5 else tbl (memory s2) t j)"
    by blast+
qed

text \<open>The four tables that \<^verbatim>\<open>vm_build\<close> leaves.\<close>

lemma vm_build_tables:
  assumes inv: "pmm_inv (frames s)" and wf: "proc_wf p" and st: "stk_pages p = replicate 4 0" and dist: "distinct (nz (code_frames p))"
    and sub: "set (nz (code_frames p)) \<subseteq> alloced (frames s)" and src: "code_source cf n p"
    and img: "cf = None \<longrightarrow> img_pages s \<le> 512 \<and> img_pages s \<le> length (img_frames s)"
    and b: "vm_build cf n p s = (p', s')" and c3: "cr3 p' \<noteq> 0" and j: "j < 512"
  shows "list_all page (tables p')" "cr3 p' = pml4 p'" "tbl (memory s') (pml4 p') j = (if j = 0 then pdpt p' OR 7 else 0)" "tbl (memory s') (pdpt p') 1 = pd p' OR 7"
    "tbl (memory s') (pd p') j = (if j = 0 then pt p' OR 7 else 0)"
    "tbl (memory s') (pt p') j = (if 27 \<le> j \<and> j \<le> 30 \<and> stk_pages p' ! (30 - j) \<noteq> 0 then stk_pages p' ! (30 - j) OR 7
       else if j < length (prog_pages cf n s) then prog_pages cf n s ! j OR 5 else 0)"
    "code_frames p' = code_frames p" "\<not> no_tables p'"
proof -
  obtain p1 s1 where a: "alloc_tables p s = (p1, s1)" by fastforce
  have nzs: "nz (stk_pages p @ code_frames p) = nz (code_frames p)" by (simp add: st)
  have A: "grows (set (nz (code_frames p))) s p1 s1" "proc_wf p1"
    "p1 = p\<lparr>pml4 := pml4 p1, pdpt := pdpt p1, pd := pd p1, pt := pt p1\<rparr>"
    using alloc_tables_ok [OF inv wf _ _ a] dist sub unfolding nzs by auto
  have f1: "stk_pages p1 = stk_pages p" "code_frames p1 = code_frames p" "user_code_pages p1 = user_code_pages p" by (subst A(3), simp)+
  have nt: "\<not> no_tables p1"
  proof
    assume "no_tables p1"
    then have "vm_free p1 s1 = (p', s')" using b a by (simp add: vm_build_def)
    then show False using c3 by (auto simp: vm_free_def Let_def split: if_splits prod.splits)
  qed
  define s2 where "s2 = link_tables p1 s1"
  obtain m2 where m2: "s2 = s1\<lparr>memory := m2\<rparr>" using link_tables_memory s2_def by blast
  have src1: "code_source cf n p1" "p1\<lparr>user_code_pages := n\<rparr> = p1" using src f1 by (simp_all add: code_source_def)
  obtain p3 s3 where c: "(case cf of Some fs \<Rightarrow> map_code (min n USER_CODE_MAX_PAGES) fs (p1, s2)
      | None \<Rightarrow> (p1, map_image (img_pages s2) (pt p1) s2)) = (p3, s3)" by fastforce
  have i1: "pmm_inv (frames s1)" "distinct (own p1)" "same_table s s1" "set (own p1) \<subseteq> alloced (frames s1)"
    using A(1) grows_subset [OF A(1) sub] by (auto simp: grows_def)
  have tb: "distinct (tables p1)" "set (tables p1) \<subseteq> alloced (frames s1)"
    using i1(2,4) nt by (auto simp: own_def tables_def no_tables_def)
  have pg: "list_all page (tables p1)" using tb(2) alloced_page [OF i1(1)] by (auto simp: list_all_iff)
  have im: "img_pages s2 = img_pages s" "img_frames s2 = img_frames s" using i1(3) by (auto simp: m2 same_table_def)
  have ip: "prog_pages cf n s2 = prog_pages cf n s" by (cases cf) (simp_all add: prog_pages_def im)
  have C: "p3 = p1" "\<exists>m. s3 = s2\<lparr>memory := m\<rparr>"
    "page t \<Longrightarrow> tbl (memory s3) t j = (if t = pt p1 \<and> j < length (prog_pages cf n s) then prog_pages cf n s ! j OR 5 else tbl (memory s2) t j)"
    if "j < 512" for t j
    using map_program [OF src1(1) A(2) _ _ that _ c] pg img by (auto simp: tables_def im ip)
  obtain m3 where m3: "s3 = s2\<lparr>memory := m3\<rparr>" using C(2) [OF j] by blast
  have "vm_build cf n p s = (case map_stack [0..<4] (p3, s3) of (p, s) \<Rightarrow> (p\<lparr>cr3 := pml4 p\<rparr>, s))"
    using a nt by (simp add: vm_build_def Let_def USER_STACK_PAGES_def src1(2) c [unfolded s2_def])
  then obtain p4 where m: "map_stack [0..<4] (p1, s3) = (p4, s')" "p' = p4\<lparr>cr3 := pml4 p4\<rparr>"
    using b C(1) [OF j] by (auto split: prod.splits)
  have fr: "frames s3 = frames s1" by (simp add: m3 m2)
  have st0: "\<forall>k \<in> set [0..<4]. stk_pages p1 ! k = 0" by (simp add: f1(1) st)
  have r4: "set [0..<4] \<subseteq> {..<4 :: nat}" by auto
  have M: "p4 = p1\<lparr>stk_pages := stk_pages p4\<rparr>"
    using map_stack_ok [OF _ A(2) i1(2) _ _ r4 st0 m(1)] i1(1,4) by (simp add: fr)
  have "pml4 p4 = pml4 p1" "pdpt p4 = pdpt p1" "pd p4 = pd p1" "pt p4 = pt p1" and cfr: "code_frames p4 = code_frames p1" by (subst M, simp)+
  then have f4: "pml4 p' = pml4 p1" "pdpt p' = pdpt p1" "pd p' = pd p1" "pt p' = pt p1" "stk_pages p' = stk_pages p4" "tables p' = tables p1"
    by (simp_all add: m(2) tables_def)
  have S: "tbl (memory s') t j = (if t = pt p1 \<and> (\<exists>k \<in> {0..<4}. j = 30 - k \<and> stk_pages p' ! k \<noteq> 0) then stk_pages p' ! (30 - j) OR 7 else tbl (memory s3) t j)"
    if "t \<in> set (tables p1)" "j < 512" for t j
    using tbl_map_stack [OF _ _ _ _ _ r4 st0 m(1) that(2), of t] i1(1) tb(2) that(1) wf f1(1) by (auto simp: fr tables_def proc_wf_def f4(5))
  have Z: "tbl (memory s1) t j = 0" if "t \<in> set (tables p1)" "j < 512" for t j
    using tables_zero [OF inv a tb(1) nt that(1) _ that(2)] pg that(1) by (auto simp: list_all_iff)
  have L: "tbl (memory s2) (pml4 p1) j = (if j = 0 then pdpt p1 OR 7 else 0)" "tbl (memory s2) (pdpt p1) 1 = pd p1 OR 7"
    "tbl (memory s2) (pd p1) j = (if j = 0 then pt p1 OR 7 else 0)" "tbl (memory s2) (pt p1) j = 0" if "j < 512" for j
    using tbl_link [OF pg tb(1) that, of s1] Z [OF _ that] unfolding s2_def by (simp_all add: tables_def)
  have ne: "pml4 p1 \<noteq> pt p1" "pdpt p1 \<noteq> pt p1" "pd p1 \<noteq> pt p1" using tb(1) by (auto simp: tables_def)
  have P: "page (pml4 p1)" "page (pdpt p1)" "page (pd p1)" "page (pt p1)" using pg by (simp_all add: tables_def)
  show "list_all page (tables p')" using pg by (simp add: f4)
  show "cr3 p' = pml4 p'" by (simp add: m(2))
  show "\<not> no_tables p'" using nt by (simp add: no_tables_def f4)
  show "code_frames p' = code_frames p" using cfr by (simp add: m(2) f1)
  show "tbl (memory s') (pml4 p') j = (if j = 0 then pdpt p' OR 7 else 0)"
    using S [OF _ j] C(3) [OF j P(1)] L(1) [OF j] ne by (simp add: f4 tables_def)
  show "tbl (memory s') (pdpt p') 1 = pd p' OR 7" using S [of _ 1] C(3) [of 1 "pdpt p1"] L(2) [of 0] P ne by (simp add: f4 tables_def)
  show "tbl (memory s') (pd p') j = (if j = 0 then pt p' OR 7 else 0)" using S [OF _ j] C(3) [OF j P(3)] L(3) [OF j] ne by (simp add: f4 tables_def)
  have "(\<exists>k \<in> {0..<4}. j = 30 - k \<and> stk_pages p' ! k \<noteq> 0) \<longleftrightarrow> 27 \<le> j \<and> j \<le> 30 \<and> stk_pages p' ! (30 - j) \<noteq> 0"
    by (auto intro!: bexI [of _ "30 - j"])
  then show "tbl (memory s') (pt p') j = (if 27 \<le> j \<and> j \<le> 30 \<and> stk_pages p' ! (30 - j) \<noteq> 0 then stk_pages p' ! (30 - j) OR 7
       else if j < length (prog_pages cf n s) then prog_pages cf n s ! j OR 5 else 0)"
    using S [OF _ j, of "pt p1"] C(3) [OF j P(4)] L(4) [OF j] by (simp add: f4 tables_def)
qed

text \<open>
  C21. When \<^verbatim>\<open>vm_build\<close> succeeds, the processor translates every address of the gigabyte of the user as intended:
  the addresses of the four pages below the top of the stack to the pages of the stack of the process, those
  of the first pages to the pages of the program (or of the shared image), and it has no translation for
  any other, the guard page above the stack included.
\<close>

theorem vm_build_maps:
  assumes "pmm_inv (frames s)" "proc_wf p" "stk_pages p = replicate 4 0" "distinct (nz (code_frames p))"
    and "set (nz (code_frames p)) \<subseteq> alloced (frames s)" "code_source cf n p" "list_all page (prog_pages cf n s)"
    and "cf = None \<longrightarrow> img_pages s \<le> 512 \<and> img_pages s \<le> length (img_frames s)"
    and "vm_build cf n p s = (p', s')" "cr3 p' \<noteq> 0" "i < 2 ^ 18" "off < 4096"
  shows "mmu (memory s') (cr3 p') (0x40000000 + of_nat (4096 * i + off)) =
     (if 27 \<le> i \<and> i \<le> 30 \<and> stk_pages p' ! (30 - i) \<noteq> 0 then Some (stk_pages p' ! (30 - i) + of_nat off)
      else if i < length (prog_pages cf n s) then Some (prog_pages cf n s ! i + of_nat off)
      else None)"
proof -
  note T = vm_build_tables [OF assms(1-6,8-10)]
  have pg: "page (pml4 p')" "page (pdpt p')" "page (pd p')" "page (pt p')" using T(1) [of 0] by (simp_all add: tables_def)
  have len: "length (prog_pages cf n s) \<le> 512"
    using assms(2,6,8) by (cases cf) (auto simp: prog_pages_def code_source_def proc_wf_def)
  have "i div 512 < 512" using assms(11) by simp
  from T(5) [OF this] have "tbl (memory s') (pd p') (i div 512) = (if i < 512 then pt p' OR 7 else 0)" by (simp add: div_eq_0_iff)
  note W = mmu_window [OF pg T(3) [of 0, simplified] T(4) [of 0, OF zero_less_numeral] this assms(11,12)]
  have stk: "page f" if "f \<in> set (stk_pages p')" "f \<noteq> 0" for f
  proof -
    have "f \<in> set (own p')" using that by (simp add: own_def)
    moreover have g: "grows (set (nz (code_frames p))) s p' s'" using vm_build_ok(6) [OF assms(1-6,9)] assms(10) by simp
    moreover have "pmm_inv (frames s')" using g by (simp add: grows_def)
    ultimately show ?thesis using grows_subset [OF g assms(5)] alloced_page by blast
  qed
  have l4: "length (stk_pages p') = 4" using vm_build_ok(1) [OF assms(1-6,9)] by (simp add: proc_wf_def)
  show ?thesis
  proof (cases "i < 512")
    case True
    note W = W [unfolded T(6) [OF True]]
    consider (stack) "27 \<le> i" "i \<le> 30" "stk_pages p' ! (30 - i) \<noteq> 0"
      | (prog) "\<not> (27 \<le> i \<and> i \<le> 30 \<and> stk_pages p' ! (30 - i) \<noteq> 0)" "i < length (prog_pages cf n s)"
      | (none) "\<not> (27 \<le> i \<and> i \<le> 30 \<and> stk_pages p' ! (30 - i) \<noteq> 0)" "\<not> i < length (prog_pages cf n s)" by blast
    then show ?thesis
    proof cases
      case stack
      have "page (stk_pages p' ! (30 - i))" by (rule stk) (use stack l4 in \<open>auto intro!: nth_mem\<close>)
      then show ?thesis using W stack True by (simp add: T(2) [of 0] page_entry(1,4) page_or [OF _ assms(12)])
    next
      case prog
      then have "page (prog_pages cf n s ! i)" using assms(7) by (simp add: list_all_length)
      then show ?thesis using W prog True by (simp only: if_False if_True T(2) [of 0] page_entry(2,5) page_or [OF _ assms(12)] simp_thms)
    next
      case none
      then show ?thesis using W True by (simp only: if_False bit_0_eq T(2) [of 0] simp_thms) simp
    qed
  qed (use W len in \<open>simp add: T(2) [of 0]\<close>)
qed



section \<open>Stores through an address space\<close>

text \<open>
  \<open>user_space m t F\<close>: the tables at \<open>t\<close> map the 32 pages of the window to pages in \<open>F\<close> and nothing at the upper end
  of the address space, and none of the four tables is in \<open>F\<close>.
\<close>

definition user_space :: "mem \<Rightarrow> u64 \<Rightarrow> u64 set \<Rightarrow> bool" where
  "user_space m t4 F \<longleftrightarrow>
     (\<exists>t3 t2 t1. list_all page [t4, t3, t2, t1] \<and> set [t4, t3, t2, t1] \<inter> F = {}
        \<and> tbl m t4 0 = t3 OR 7 \<and> tbl m t4 511 = 0 \<and> tbl m t3 1 = t2 OR 7 \<and> tbl m t2 0 = t1 OR 7
        \<and> (\<forall>j < 32. bit (tbl m t1 j) 0 \<longrightarrow> page (tbl m t1 j AND 0x000FFFFFFFFFF000) \<and> tbl m t1 j AND 0x000FFFFFFFFFF000 \<in> F))"

definition in_pages :: "u64 set \<Rightarrow> u64 \<Rightarrow> bool" where
  "in_pages F x \<longleftrightarrow> (\<exists>f \<in> F. page f \<and> unat (x - f) < 4096)"

lemma window_addr:
  assumes "USER_IMG_BASE \<le> a" "a < USER_WINDOW_END"
  obtains i off where "i < 32" "off < 4096" "a = 0x40000000 + of_nat (4096 * i + off)"
proof -
  define d where "d = unat a - 0x40000000"
  have d: "unat a = 0x40000000 + d" "d < 0x20000"
    using assms by (auto simp: d_def word_le_nat_alt word_less_nat_alt USER_IMG_BASE_def USER_WINDOW_END_def)
  have "a = of_nat (unat a)" by simp
  also have "\<dots> = 0x40000000 + of_nat (4096 * (d div 4096) + d mod 4096)" by (simp only: d(1) mult_div_mod_eq of_nat_add of_nat_numeral)
  finally show thesis using that [of "d div 4096" "d mod 4096"] d(2) by (simp add: less_mult_imp_div_less)
qed

lemma user_space_mmu:
  assumes "user_space m t F" "USER_IMG_BASE \<le> a" "a < USER_WINDOW_END" "mmu m t a = Some x"
  shows "in_pages F x"
proof -
  obtain i off where i: "i < 32" "off < 4096" "a = 0x40000000 + of_nat (4096 * i + off)" using window_addr [OF assms(2,3)] by blast
  obtain t3 t2 t1 where T: "page t" "page t3" "page t2" "page t1" "tbl m t 0 = t3 OR 7" "tbl m t3 1 = t2 OR 7" "tbl m t2 0 = t1 OR 7"
    "\<forall>j < 32. bit (tbl m t1 j) 0 \<longrightarrow> page (tbl m t1 j AND 0x000FFFFFFFFFF000) \<and> tbl m t1 j AND 0x000FFFFFFFFFF000 \<in> F"
    using assms(1) by (auto simp: user_space_def)
  define f where "f = tbl m t1 i AND 0x000FFFFFFFFFF000"
  have b: "bit (tbl m t1 i) 0" "x = f OR of_nat off"
    using mmu_window [OF T(1-6) _ _ i(2), of i] T(7) i assms(4) by (auto simp: f_def split: if_splits)
  then have f: "page f" "f \<in> F" using T(8) i(1) by (auto simp: f_def)
  then have "unat (x - f) < 4096" using b(2) page_or [OF f(1) i(2)] i(2) by (simp add: unat_of_nat_small)
  then show ?thesis using f unfolding in_pages_def by blast
qed

lemma tbl_upd_other:
  assumes "page t" "page f" "t \<noteq> f" "unat (x - f) < 4096" "j < 512"
  shows "tbl (m(x := b)) t j = tbl m t j"
proof -
  have "t + 8 * of_nat j + of_nat k \<noteq> x" if "k < 8" for k :: nat
  proof
    assume e: "t + 8 * of_nat j + of_nat k = x"
    have "unat (x - t) < 4096" using that assms(5) by (simp add: unat_word_ariths unat_of_nat flip: e)
    then show False using page_unique [of t f x] assms by (auto simp: page_def)
  qed
  then show ?thesis unfolding tbl_def by (intro load64_cong) simp
qed

lemma user_space_upd:
  assumes "user_space m t F" "in_pages F x"
  shows "user_space (m(x := b)) t F"
proof -
  obtain f where f: "f \<in> F" "page f" "unat (x - f) < 4096" using assms(2) by (auto simp: in_pages_def)
  obtain t3 t2 t1 where T: "list_all page [t, t3, t2, t1]" "set [t, t3, t2, t1] \<inter> F = {}" "tbl m t 0 = t3 OR 7" "tbl m t 511 = 0"
    "tbl m t3 1 = t2 OR 7" "tbl m t2 0 = t1 OR 7"
    "\<forall>j < 32. bit (tbl m t1 j) 0 \<longrightarrow> page (tbl m t1 j AND 0x000FFFFFFFFFF000) \<and> tbl m t1 j AND 0x000FFFFFFFFFF000 \<in> F"
    using assms(1) by (auto simp: user_space_def)
  have same: "tbl (m(x := b)) u j = tbl m u j" if "u \<in> set [t, t3, t2, t1]" "j < 512" for u j
    by (rule tbl_upd_other [OF _ f(2) _ f(3) that(2)]) (use that T(1,2) f(1) in auto)
  show ?thesis unfolding user_space_def
    by (rule exI [of _ t3], rule exI [of _ t2], rule exI [of _ t1]) (use T same in auto)
qed

lemma high_unmapped:
  assumes "user_space m t F" "unat a \<ge> 2 ^ 64 - 2 ^ 17"
  shows "mmu m t a = None"
proof -
  define n where "n = unat a"
  have a: "a = of_nat n" "n < 2 ^ 64" using unsigned_less [of a, where 'a = nat] by (simp_all add: n_def)
  have "n div 2 ^ 39 = 2 ^ 25 - 1" using assms(2) a(2) by (intro div_nat_eqI) (simp_all add: n_def)
  then have "pt_index a 3 = of_nat 511" using pt_index_of_nat [OF a(2), of 3] a(1) by simp
  moreover have "page t" "tbl m t 511 = 0" using assms(1) by (auto simp: user_space_def)
  ultimately have "pt_entry m t (pt_index a 3) = 0" using page_entry(3) [of t] by (simp only: pt_entry_tbl)
  then show ?thesis by (simp add: mmu_def Let_def)
qed

text \<open>The address spaces of \<^verbatim>\<open>vm_build\<close> are of this form, with the pages of the program and of the stack.\<close>

lemma vm_build_user_space:
  assumes "pmm_inv (frames s)" "proc_wf p" "stk_pages p = replicate 4 0" "distinct (nz (code_frames p))"
    and "set (nz (code_frames p)) \<subseteq> alloced (frames s)" "code_source cf n p" "set (prog_pages cf n s) \<subseteq> alloced (frames s)"
    and "cf = None \<longrightarrow> img_pages s \<le> 512 \<and> img_pages s \<le> length (img_frames s)"
    and "vm_build cf n p s = (p', s')" "cr3 p' \<noteq> 0"
  shows "user_space (memory s') (cr3 p') (set (nz (stk_pages p')) \<union> set (prog_pages cf n s))"
proof -
  note T = vm_build_tables [OF assms(1-6,8-10)]
  have g: "grows (set (nz (code_frames p))) s p' s'" using vm_build_ok(6) [OF assms(1-6,9)] assms(10) by simp
  obtain N where N: "set (own p') = set (nz (code_frames p)) \<union> N" "N \<inter> alloced (frames s) = {}" "distinct (own p')" "pmm_inv (frames s')"
    using g by (auto simp: grows_def)
  have own: "set (own p') \<subseteq> alloced (frames s')" by (rule grows_subset [OF g assms(5)])
  have T2: "cr3 p' = pml4 p'" by (rule T(2) [of 0]) simp
  have "pml4 p' \<noteq> 0" "pdpt p' \<noteq> 0" "pd p' \<noteq> 0" "pt p' \<noteq> 0" using T(8) [of 0] by (simp_all add: no_tables_def)
  then have tb: "set (tables p') \<subseteq> set (own p')" "set (tables p') \<inter> set (nz (stk_pages p')) = {}" "set (tables p') \<inter> set (nz (code_frames p)) = {}"
    using N(3) T(7) [of 0] by (auto simp: own_def tables_def)
  have "set (tables p') \<inter> set (prog_pages cf n s) = {}" using tb(1,3) N(1,2) assms(7) by blast
  then have dis: "set (tables p') \<inter> (set (nz (stk_pages p')) \<union> set (prog_pages cf n s)) = {}" using tb(2) by blast
  have pgs: "page f" if "f \<in> set (nz (stk_pages p')) \<union> set (prog_pages cf n s)" for f
  proof (cases "f \<in> set (nz (stk_pages p'))")
    case True
    then have "f \<in> set (own p')" by (simp add: own_def)
    then show ?thesis using alloced_page [OF N(4)] own by blast
  qed (use that alloced_page [OF assms(1)] assms(7) in blast)
  have l4: "length (stk_pages p') = 4" using vm_build_ok(1) [OF assms(1-6,9)] by (simp add: proc_wf_def)
  have en: "tbl (memory s') (pt p') j AND 0x000FFFFFFFFFF000 \<in> set (nz (stk_pages p')) \<union> set (prog_pages cf n s)"
    if j: "j < 32" "bit (tbl (memory s') (pt p') j) 0" for j
  proof -
    have j5: "j < 512" using j(1) by simp
    consider (stack) "27 \<le> j" "j \<le> 30" "stk_pages p' ! (30 - j) \<noteq> 0"
      | (prog) "\<not> (27 \<le> j \<and> j \<le> 30 \<and> stk_pages p' ! (30 - j) \<noteq> 0)" "j < length (prog_pages cf n s)"
      using j(2) unfolding T(6) [OF j5] by (auto split: if_splits)
    then show ?thesis
    proof cases
      case stack
      then have m: "stk_pages p' ! (30 - j) \<in> set (nz (stk_pages p'))" using l4 by (auto intro!: nth_mem)
      then show ?thesis using stack page_entry(1) [OF pgs] unfolding T(6) [OF j5] by simp
    next
      case prog
      then have m: "prog_pages cf n s ! j \<in> set (prog_pages cf n s)" by simp
      then show ?thesis using prog page_entry(2) [OF pgs] unfolding T(6) [OF j5] by (simp only: if_False if_True) simp
    qed
  qed
  show ?thesis unfolding user_space_def T2
    by (rule exI [of _ "pdpt p'"], rule exI [of _ "pd p'"], rule exI [of _ "pt p'"])
      (use T(1) [of 0] T(3) [of 0] T(3) [of 511] T(4) [of 0] T(5) [of 0] dis en pgs in \<open>simp add: tables_def\<close>)
qed

text \<open>A state with eight frames, \<open>k\<close> of them allocated, and an image of one page.\<close>

definition frames_ex :: "nat \<Rightarrow> pmm" where
  "frames_ex k = \<lparr>bits = [mask k], base = 0x200000, nframes = 8, free_frames = of_nat (8 - k), ram_top = 0x208000, ram_kb = 2080\<rparr>"

definition vm_ex :: sched where
  "vm_ex = sched_ex\<lparr>frames := frames_ex 0, img_frames := [0x300000], img_pages := 1\<rparr>"

lemma frames_ex_inv: "pmm_inv (frames_ex 0)"
proof -
  have "\<not> bit_test [0] i" if "i < 8" for i using that by (simp add: bit_test_def)
  then have "pmm_used (frames_ex 0) = {}" by (auto simp: frames_ex_def pmm_used_def used_below_def)
  then show ?thesis by (simp add: pmm_inv_def) (simp add: frames_ex_def)
qed

lemma frames_ex_alloc: "k < 8 \<Longrightarrow> pmm_alloc_frame (frames_ex k) = (0x200000 + 4096 * of_nat k, frames_ex (Suc k))"
proof -
  assume "k < 8"
  then consider "k = 0" | "k = 1" | "k = 2" | "k = 3" | "k = 4" | "k = 5" | "k = 6" | "k = 7" by linarith
  then show ?thesis
    by cases (simp_all add: pmm_alloc_frame_def frames_ex_def find_from.simps bit_test_def bit_set_def frame_addr_def push_bit_eq_mult mask_eq_exp_minus_1)
qed

lemma vm_ex_build:
  "\<exists>m. vm_build None 0 zero_process vm_ex =
     (zero_process\<lparr>pml4 := 0x200000, pdpt := 0x201000, pd := 0x202000, pt := 0x203000, cr3 := 0x200000,
        stk_pages := [0x204000, 0x205000, 0x206000, 0x207000]\<rparr>, vm_ex\<lparr>frames := frames_ex 8, memory := m\<rparr>)"
proof -
  define w where "w k m = vm_ex\<lparr>frames := frames_ex k, memory := m\<rparr>" for k m
  have z: "alloc_zero_frame (w k m) = (0x200000 + 4096 * of_nat k, w (Suc k) (memset (0x200000 + 4096 * of_nat k) 0 4096 m))" if "k < 8" for k m
  proof -
    from that consider "k = 0" | "k = 1" | "k = 2" | "k = 3" | "k = 4" | "k = 5" | "k = 6" | "k = 7" by linarith
    then have "(0x200000 + 4096 * of_nat k :: u64) \<noteq> 0" by cases simp_all
    then show ?thesis by (simp add: alloc_zero_frame_def frames_ex_alloc [OF that] w_def)
  qed
  have v: "vm_ex = w 0 (memory vm_ex)" by (simp add: vm_ex_def w_def)
  have f: "dev_pd (w k m) = 0" "img_pages (w k m) = 1" for k m by (simp_all add: w_def vm_ex_def sched_ex_def)
  have p: "set_pte t i x (w k m) = w k (store64 (t + 8 * of_nat i) x m)" for t i x k m by (simp add: set_pte_def w_def)
  define q where "q = zero_process\<lparr>pml4 := 0x200000, pdpt := 0x201000, pd := 0x202000, pt := 0x203000\<rparr>"
  have nt: "\<not> no_tables q" "q\<lparr>user_code_pages := 0\<rparr> = q" "pt q = 0x203000" "pml4 q = 0x200000" by (simp_all add: no_tables_def q_def zero_process_def)
  have z1: "alloc_zero_frame (w 1 m) = (0x201000, w 2 (memset 0x201000 0 4096 m))" for m using z [of 1 m] by (simp add: numeral_2_eq_2)
  note Z = z [of 0] z1 [unfolded One_nat_def] z [of 2] z [of 3] z [of 4] z [of 5] z [of 6] z [of 7]
  have a: "\<exists>m'. alloc_tables zero_process (w 0 m) = (q, w 4 m')" for m by (simp add: alloc_tables_def Z q_def) blast
  have l: "\<exists>m'. link_tables q (w k m) = w k m'" for k m by (simp add: link_tables_def p f) blast
  have i: "\<exists>m'. map_image 1 t (w k m) = w k m'" for t k m by (simp add: p) blast
  have st: "stk_pages q = [0, 0, 0, 0]" by (simp add: q_def zero_process_def) (simp add: eval_nat_numeral)
  have s: "\<exists>m'. map_stack [0, 1, 2, 3] (q, w 4 m) = (q\<lparr>stk_pages := [0x204000, 0x205000, 0x206000, 0x207000]\<rparr>, w 8 m')" for m
    by (simp add: Z p st) blast
  have u: "[0..<USER_STACK_PAGES] = [0, 1, 2, 3]" by (simp add: USER_STACK_PAGES_def upt_rec)
  obtain m1 where e1: "alloc_tables zero_process vm_ex = (q, w 4 m1)" using a [of "memory vm_ex"] by (auto simp flip: v)
  obtain m2 where e2: "link_tables q (w 4 m1) = w 4 m2" using l by blast
  obtain m3 where e3: "map_image 1 0x203000 (w 4 m2) = w 4 m3" using i by blast
  obtain m4 where e4: "map_stack [0, 1, 2, 3] (q, w 4 m3) = (q\<lparr>stk_pages := [0x204000, 0x205000, 0x206000, 0x207000]\<rparr>, w 8 m4)" using s by blast
  have "vm_build None 0 zero_process vm_ex = (q\<lparr>stk_pages := [0x204000, 0x205000, 0x206000, 0x207000], cr3 := 0x200000\<rparr>, w 8 m4)"
    by (simp only: vm_build_def u f Let_def prod.case option.case if_False e1 e2 e3 e4 nt(1-3)) (simp add: nt(4))
  then show ?thesis unfolding q_def w_def by auto
qed

theorem vm_build_maps_witness:
  "\<exists>p' s'. vm_build None 0 zero_process vm_ex = (p', s') \<and> mmu (memory s') (cr3 p') 0x40000123 = Some 0x300123
     \<and> mmu (memory s') (cr3 p') 0x4001EFFF = Some 0x204FFF \<and> mmu (memory s') (cr3 p') 0x4001F000 = None"
proof -
  obtain p' s' where b: "vm_build None 0 zero_process vm_ex = (p', s')" "cr3 p' \<noteq> 0" "stk_pages p' = [0x204000, 0x205000, 0x206000, 0x207000]"
    using vm_ex_build by fastforce
  have pp: "prog_pages None 0 vm_ex = [0x300000]" by (simp add: prog_pages_def vm_ex_def)
  have h: "pmm_inv (frames vm_ex)" "proc_wf zero_process" "stk_pages zero_process = replicate 4 0" "distinct (nz (code_frames zero_process))"
    "set (nz (code_frames zero_process)) \<subseteq> alloced (frames vm_ex)" "code_source None 0 zero_process" "list_all page (prog_pages None 0 vm_ex)"
    "None = None \<longrightarrow> img_pages vm_ex \<le> 512 \<and> img_pages vm_ex \<le> length (img_frames vm_ex)"
    using frames_ex_inv by (simp_all add: pp) (simp_all add: vm_ex_def zero_process_def proc_wf_def code_source_def page_def)
  note M = vm_build_maps [OF h b(1,2)]
  show ?thesis using M [where i = 0 and off = "0x123"] M [where i = 30 and off = "0xFFF"] M [where i = 31 and off = 0] b by (simp add: pp)
qed

end
