(* ===== verification/Keyboard.thy ===== *)
theory Keyboard
  imports Util
begin

text \<open>
  The keyboard driver, \<^verbatim>\<open>kernel/keyboard.cpp\<close>: the scan-code state machine of the interrupt handler
  (shift, control, caps lock and the \<^verbatim>\<open>0xE0\<close> prefix) and the 256-byte ring between the interrupt
  and its readers. Characters are bytes; the byte read from port \<^verbatim>\<open>0x60\<close> is the argument of
  \<open>keyboard_irq\<close>. The ring is shown to be a bounded queue of 255 bytes.
\<close>

definition RING_SIZE :: nat where "RING_SIZE = 256"

record kbd =
  ring :: bytes
  kb_head :: nat
  kb_tail :: nat
  kb_shift :: bool
  kb_caps :: bool
  kb_extended :: bool
  kb_ctrl :: bool

definition normal :: bytes where
  "normal =
     [0, 27, 49, 50, 51, 52, 53, 54, 55, 56, 57, 48, 45, 61, 8,
      9, 113, 119, 101, 114, 116, 121, 117, 105, 111, 112, 91, 93, 10,
      0, 97, 115, 100, 102, 103, 104, 106, 107, 108, 59, 39, 96, 0,
      92, 122, 120, 99, 118, 98, 110, 109, 44, 46, 47, 0, 42, 0, 32,
      32] @ replicate 69 0"

definition shifted :: bytes where
  "shifted =
     [0, 27, 33, 64, 35, 36, 37, 94, 38, 42, 40, 41, 95, 43, 8,
      9, 81, 87, 69, 82, 84, 89, 85, 73, 79, 80, 123, 125, 10,
      0, 65, 83, 68, 70, 71, 72, 74, 75, 76, 58, 34, 126, 0,
      124, 90, 88, 67, 86, 66, 78, 77, 60, 62, 63, 0, 42, 0, 32,
      32] @ replicate 69 0"

definition push :: "u8 \<Rightarrow> kbd \<Rightarrow> kbd" where
  "push c k =
     (let n = (kb_head k + 1) mod RING_SIZE
      in if n = kb_tail k then k else k\<lparr>ring := (ring k)[kb_head k := c], kb_head := n\<rparr>)"

definition keyboard_init :: "kbd \<Rightarrow> kbd" where
  "keyboard_init k =
     k\<lparr>kb_head := 0, kb_tail := 0, kb_shift := False, kb_caps := False, kb_extended := False,
       kb_ctrl := False\<rparr>"

text \<open>
  The branches of \<^verbatim>\<open>keyboard_irq\<close>: a released key, a key after the \<^verbatim>\<open>0xE0\<close> prefix, a plain key.
\<close>

definition key_released :: "u8 \<Rightarrow> kbd \<Rightarrow> kbd" where
  "key_released sc k =
     (if kb_extended k then
        (let k = k\<lparr>kb_extended := False\<rparr> in if sc = 0x1D then k\<lparr>kb_ctrl := False\<rparr> else k)
      else
        (let k = (if sc = 0x2A \<or> sc = 0x36 then k\<lparr>kb_shift := False\<rparr> else k)
         in if sc = 0x1D then k\<lparr>kb_ctrl := False\<rparr> else k))"

definition key_extended :: "u8 \<Rightarrow> kbd \<Rightarrow> kbd" where
  "key_extended sc k =
     (let k = k\<lparr>kb_extended := False\<rparr>
      in if sc = 0x1D then k\<lparr>kb_ctrl := True\<rparr>
         else if sc = 0x48 then push 0x80 k
         else if sc = 0x50 then push 0x81 k
         else if sc = 0x4B then push 0x82 k
         else if sc = 0x4D then push 0x83 k
         else k)"

definition key_char :: "u8 \<Rightarrow> kbd \<Rightarrow> kbd" where
  "key_char sc k =
     (let c = (if kb_shift k then shifted ! unat sc else normal ! unat sc)
      in if c = 0 then k
         else push (if 97 \<le> c \<and> c \<le> 122 \<and> kb_caps k then c - 97 + 65 else c) k)"

definition keyboard_irq :: "u8 \<Rightarrow> kbd \<Rightarrow> intr \<Rightarrow> kbd \<times> intr" where
  "keyboard_irq code k i =
     (if code = 0xE0 then (k\<lparr>kb_extended := True\<rparr>, i)
      else
        let released = (code AND 0x80 \<noteq> 0); sc = code AND 0x7F
        in if released then (key_released sc k, i)
           else if kb_extended k then (key_extended sc k, i)
           else if sc = 0x2A \<or> sc = 0x36 then (k\<lparr>kb_shift := True\<rparr>, i)
           else if sc = 0x1D then (k\<lparr>kb_ctrl := True\<rparr>, i)
           else if sc = 0x3A then (k\<lparr>kb_caps := \<not> kb_caps k\<rparr>, i)
           else if kb_ctrl k \<and> sc = 0x2E then (k, sys_intr_set i)
           else if 128 \<le> sc then (k, i)
           else (key_char sc k, i))"

definition keyboard_has_char :: "kbd \<Rightarrow> bool" where
  "keyboard_has_char k \<longleftrightarrow> kb_head k \<noteq> kb_tail k"

definition keyboard_getc :: "kbd \<Rightarrow> u8 \<times> kbd" where
  "keyboard_getc k =
     (if kb_head k = kb_tail k then (0, k)
      else (ring k ! kb_tail k, k\<lparr>kb_tail := (kb_tail k + 1) mod RING_SIZE\<rparr>))"


section \<open>The ring as a queue\<close>

definition kbd_inv :: "kbd \<Rightarrow> bool" where
  "kbd_inv k \<longleftrightarrow> length (ring k) = RING_SIZE \<and> kb_head k < RING_SIZE \<and> kb_tail k < RING_SIZE"

definition ring_len :: "kbd \<Rightarrow> nat" where
  "ring_len k = (kb_head k + RING_SIZE - kb_tail k) mod RING_SIZE"

definition ring_queue :: "kbd \<Rightarrow> u8 list" where
  "ring_queue k = map (\<lambda>i. ring k ! ((kb_tail k + i) mod RING_SIZE)) [0..<ring_len k]"

definition ring_pop :: "kbd \<Rightarrow> (u8 \<times> kbd) option" where
  "ring_pop k = (if keyboard_has_char k then Some (keyboard_getc k) else None)"

lemma wrap256: "x < 512 \<Longrightarrow> x mod 256 = (if x < 256 then x else x - 256)" for x :: nat
  by (simp add: mod_if)

lemma ring_len_cases:
  "kbd_inv k \<Longrightarrow> ring_len k = (if kb_tail k \<le> kb_head k then kb_head k - kb_tail k
                              else kb_head k + 256 - kb_tail k)"
  by (auto simp: ring_len_def kbd_inv_def RING_SIZE_def wrap256)

lemma length_ring_queue: "length (ring_queue k) = ring_len k"
  by (simp add: ring_queue_def)

lemma ring_pos: "kbd_inv k \<Longrightarrow> (kb_tail k + ring_len k) mod RING_SIZE = kb_head k"
  by (auto simp: ring_len_cases kbd_inv_def RING_SIZE_def)

lemma push_full: "kbd_inv k \<Longrightarrow> (kb_head k + 1) mod RING_SIZE = kb_tail k \<longleftrightarrow> ring_len k = 255"
  by (auto simp: ring_len_cases kbd_inv_def RING_SIZE_def wrap256)

lemma push_ring_len:
  "kbd_inv k \<Longrightarrow> ring_len k < 255 \<Longrightarrow>
     ring_len (k\<lparr>ring := r, kb_head := (kb_head k + 1) mod RING_SIZE\<rparr>) = Suc (ring_len k)"
  by (simp add: ring_len_def) (auto simp: ring_len_def kbd_inv_def RING_SIZE_def wrap256)

lemma ring_pos_inj:
  assumes "kbd_inv k" "i < ring_len k"
  shows "(kb_tail k + i) mod RING_SIZE \<noteq> kb_head k"
  using assms by (auto simp: ring_len_cases kbd_inv_def RING_SIZE_def wrap256 split: if_splits)

lemma ring_len_bound: "kbd_inv k \<Longrightarrow> ring_len k \<le> 255"
  by (auto simp: ring_len_cases kbd_inv_def RING_SIZE_def)

lemma ring_len_0: "kbd_inv k \<Longrightarrow> ring_len k = 0 \<longleftrightarrow> kb_head k = kb_tail k"
  by (auto simp: ring_len_cases kbd_inv_def RING_SIZE_def)

lemma push_queue:
  assumes "kbd_inv k"
  shows "ring_queue (push c k) = (if length (ring_queue k) < 255 then ring_queue k @ [c] else ring_queue k)"
proof (cases "ring_len k < 255")
  case True
  define k' where "k' = k\<lparr>ring := (ring k)[kb_head k := c], kb_head := (kb_head k + 1) mod RING_SIZE\<rparr>"
  have "(kb_head k + 1) mod RING_SIZE \<noteq> kb_tail k" using push_full [OF assms] True by simp
  then have k': "push c k = k'" by (simp add: push_def k'_def)
  have len: "ring_len k' = Suc (ring_len k)" using push_ring_len [OF assms True] by (simp add: k'_def)
  have old: "ring k' ! ((kb_tail k + i) mod RING_SIZE) = ring k ! ((kb_tail k + i) mod RING_SIZE)"
    if "i < ring_len k" for i
    using ring_pos_inj [OF assms that] by (simp add: k'_def)
  have new: "ring k' ! ((kb_tail k + ring_len k) mod RING_SIZE) = c"
    using ring_pos [OF assms] assms by (simp add: k'_def kbd_inv_def)
  have "kb_tail k' = kb_tail k" by (simp add: k'_def)
  then have "ring_queue k' = ring_queue k @ [c]" using old new by (simp add: ring_queue_def len)
  with True show ?thesis by (simp add: k' length_ring_queue)
next
  case False
  then have "(kb_head k + 1) mod RING_SIZE = kb_tail k"
    using push_full [OF assms] ring_len_bound [OF assms] by simp
  then have "push c k = k" by (simp add: push_def)
  with False show ?thesis by (simp add: length_ring_queue)
qed

lemma push_inv: "kbd_inv k \<Longrightarrow> kbd_inv (push c k)"
  by (simp add: push_def kbd_inv_def Let_def RING_SIZE_def)

lemma getc_queue:
  assumes "kbd_inv k" "keyboard_has_char k" "keyboard_getc k = (c, k')"
  shows "ring_queue k = c # ring_queue k'" and "kbd_inv k'"
proof -
  have c: "c = ring k ! kb_tail k" and k': "k' = k\<lparr>kb_tail := (kb_tail k + 1) mod RING_SIZE\<rparr>"
    using assms(2,3) by (auto simp: keyboard_getc_def keyboard_has_char_def)
  show "kbd_inv k'" using assms(1) by (simp add: k' kbd_inv_def RING_SIZE_def)
  have pos: "0 < ring_len k" using ring_len_0 assms(1,2) by (auto simp: keyboard_has_char_def)
  have len: "ring_len k = Suc (ring_len k')"
    using pos assms(1) by (auto simp: k' ring_len_def kbd_inv_def RING_SIZE_def wrap256 split: if_splits)
  have "ring_queue k = ring k ! (kb_tail k mod RING_SIZE) #
      map (\<lambda>i. ring k ! ((kb_tail k + Suc i) mod RING_SIZE)) [0..<ring_len k']"
    unfolding ring_queue_def len by (simp add: upt_conv_Cons map_Suc_upt [symmetric] comp_def del: upt_Suc)
  moreover have "kb_tail k mod RING_SIZE = kb_tail k" using assms(1) by (simp add: kbd_inv_def)
  moreover have "((kb_tail k + 1) mod RING_SIZE + i) mod RING_SIZE = (kb_tail k + Suc i) mod RING_SIZE" for i
    by (simp add: mod_add_left_eq)
  ultimately show "ring_queue k = c # ring_queue k'" by (simp add: c k' ring_queue_def)
qed

interpretation keys: bounded_fifo ring_queue 255 push ring_pop kbd_inv
proof unfold_locales
  fix s :: kbd and c :: u8 and s' :: kbd
  assume inv: "kbd_inv s"
  show "length (ring_queue s) \<le> 255" using ring_len_bound [OF inv] by (simp add: length_ring_queue)
  show "ring_queue (push c s) = (if length (ring_queue s) < 255 then ring_queue s @ [c] else ring_queue s)"
    by (rule push_queue [OF inv])
  show "kbd_inv (push c s)" by (rule push_inv [OF inv])
  show "ring_pop s = None \<longleftrightarrow> ring_queue s = []"
    using ring_len_0 [OF inv] length_ring_queue [of s] by (auto simp: ring_pop_def keyboard_has_char_def)
  show "ring_queue s = c # ring_queue s' \<and> kbd_inv s'" if "ring_pop s = Some (c, s')"
    using getc_queue [OF inv] that by (auto simp: ring_pop_def split: if_splits)
qed



section \<open>Properties of the keyboard driver\<close>

lemma ring_frame:
  assumes "kb_head k' = kb_head k" "kb_tail k' = kb_tail k" "ring k' = ring k"
  shows "kbd_inv k' = kbd_inv k" "ring_queue k' = ring_queue k"
  using assms by (simp_all add: kbd_inv_def ring_queue_def ring_len_def)

text \<open>\<open>queued k k'\<close>: \<open>k'\<close> is well formed and has at most one more character than \<open>k\<close>.\<close>

definition queued :: "kbd \<Rightarrow> kbd \<Rightarrow> bool" where
  "queued k k' \<longleftrightarrow> kbd_inv k' \<and> (\<exists>cs. length cs \<le> 1 \<and> ring_queue k' = take 255 (ring_queue k @ cs))"

lemma queued_keep:
  "kbd_inv k \<Longrightarrow> kb_head k' = kb_head k \<Longrightarrow> kb_tail k' = kb_tail k \<Longrightarrow> ring k' = ring k \<Longrightarrow> queued k k'"
  using ring_frame [of k' k] keys.contents_bound [of k]
  by (auto simp: queued_def intro: exI [of _ "[]"])

lemma queued_push:
  "kbd_inv k \<Longrightarrow> kb_head k1 = kb_head k \<Longrightarrow> kb_tail k1 = kb_tail k \<Longrightarrow> ring k1 = ring k \<Longrightarrow> queued k (push c k1)"
  using ring_frame [of k1 k] keys.push_take [of k1 c] push_inv [of k1 c]
  by (auto simp: queued_def intro: exI [of _ "[c]"])

lemma key_queued:
  assumes "kbd_inv k"
  shows "queued k (key_released sc k)" "queued k (key_extended sc k)" "queued k (key_char sc k)"
proof -
  show "queued k (key_released sc k)" by (rule queued_keep [OF assms]) (simp_all add: key_released_def Let_def)
  show "queued k (key_extended sc k)" "queued k (key_char sc k)"
    by (simp_all add: key_extended_def key_char_def Let_def queued_push [OF assms] queued_keep [OF assms])
qed

text \<open>
  C11. The interrupt handler, for every scan code in every state of the modifiers: it keeps the ring
  well formed, appends at most one character behind the characters already queued (dropping it only
  when 255 are waiting) and loses or reorders none of them. Control-C raises the interrupt flag and
  queues nothing, and nothing else raises it.
\<close>

theorem keyboard_irq_correct:
  assumes "kbd_inv k" "keyboard_irq code k i = (k', i')"
  shows "kbd_inv k' \<and> (\<exists>cs. length cs \<le> 1 \<and> ring_queue k' = take 255 (ring_queue k @ cs))
     \<and> (i' \<noteq> i \<longrightarrow> i' = sys_intr_set i \<and> kb_ctrl k \<and> code AND 0x7F = 0x2E \<and> k' = k)
     \<and> (kb_ctrl k \<and> \<not> kb_extended k \<and> code = 0x2E \<longrightarrow> sys_intr_pending i' \<and> k' = k)"
proof -
  have "queued k k'"
    using assms key_queued [OF assms(1)] queued_keep [OF assms(1)]
    by (auto simp: keyboard_irq_def Let_def split: if_splits)
  moreover have "i' \<noteq> i \<longrightarrow> i' = sys_intr_set i \<and> kb_ctrl k \<and> code AND 0x7F = 0x2E \<and> k' = k"
    using assms(2) by (auto simp: keyboard_irq_def Let_def split: if_splits)
  moreover have "kb_ctrl k \<and> \<not> kb_extended k \<and> code = 0x2E \<longrightarrow> sys_intr_pending i' \<and> k' = k"
    using assms(2) by (auto simp: keyboard_irq_def sys_intr_set_def sys_intr_pending_def)
  ultimately show ?thesis unfolding queued_def by blast
qed

definition kbd_ex :: kbd where
  "kbd_ex = \<lparr>ring = replicate 256 0, kb_head = 255, kb_tail = 255, kb_shift = False, kb_caps = True,
     kb_extended = False, kb_ctrl = False\<rparr>"

lemma kbd_ex_inv: "kbd_inv kbd_ex" "ring_queue kbd_ex = []"
  by (simp_all add: kbd_ex_def kbd_inv_def RING_SIZE_def ring_queue_def ring_len_def)

definition intr_ex :: intr where "intr_ex = \<lparr>g_intr_pending = False\<rparr>"

lemma kbd_ex_run:
  "keyboard_irq 0x1E kbd_ex intr_ex =
     (kbd_ex\<lparr>ring := (replicate 256 0)[255 := 65], kb_head := 0\<rparr>, intr_ex)"
  by (simp add: keyboard_irq_def key_char_def normal_def push_def kbd_ex_def RING_SIZE_def)

theorem keyboard_irq_correct_witness:
  "kbd_inv kbd_ex \<and> kbd_inv (kbd_ex\<lparr>ring := (replicate 256 0)[255 := 65], kb_head := 0\<rparr>) \<and>
   keyboard_irq 0x1E kbd_ex intr_ex = (kbd_ex\<lparr>ring := (replicate 256 0)[255 := 65], kb_head := 0\<rparr>, intr_ex)"
  using keyboard_irq_correct [OF kbd_ex_inv(1) kbd_ex_run] kbd_ex_inv kbd_ex_run by blast

lemma letter_tables:
  "\<forall>sc \<in> set [0..<128]. 97 \<le> normal ! sc \<and> normal ! sc \<le> 122 \<longrightarrow>
     shifted ! sc = normal ! sc - 32 \<and> \<not> 97 \<le> shifted ! sc \<and> shifted ! sc \<noteq> 0
     \<and> sc \<notin> {0x2A, 0x36, 0x1D, 0x3A}"
  by (code_simp)

text \<open>
  The reader side: characters queued into an empty ring come out of \<^verbatim>\<open>keyboard_getc\<close> in the order
  they were typed; exactly the first 255 are kept.
\<close>

theorem keyboard_fifo:
  assumes "kbd_inv k" "\<not> keyboard_has_char k" "pop_many ring_pop n (fold push cs k) = (ys, k')"
  shows "ys = take n (take 255 cs) \<and> kbd_inv k'"
  using keys.fifo [OF assms(1) _ assms(3)] keys.pop_none [OF assms(1)] assms(2) by (simp add: ring_pop_def)

theorem keyboard_fifo_witness:
  "pop_many ring_pop 2 (fold push [104, 105] kbd_ex) =
     ([104, 105], snd (pop_many ring_pop 2 (fold push [104, 105] kbd_ex)))"
proof -
  have e: "\<not> keyboard_has_char kbd_ex" by (simp add: keyboard_has_char_def kbd_ex_def)
  obtain ys k' where r: "pop_many ring_pop 2 (fold push [104, 105] kbd_ex) = (ys, k')" by fastforce
  then show ?thesis using keyboard_fifo [OF kbd_ex_inv(1) e r] by simp
qed

text \<open>
  Letters: a plain press of a letter key (without control) queues that letter, in upper case exactly
  when shift or caps lock is on.
\<close>

theorem keyboard_letter_case:
  assumes "unat sc < 128" "97 \<le> normal ! unat sc" "normal ! unat sc \<le> 122"
    "\<not> kb_extended k" "\<not> kb_ctrl k"
  shows "keyboard_irq sc k i =
     (push (if kb_shift k \<or> kb_caps k then normal ! unat sc - 32 else normal ! unat sc) k, i)"
proof -
  have T: "shifted ! unat sc = normal ! unat sc - 32" "\<not> 97 \<le> shifted ! unat sc" "shifted ! unat sc \<noteq> 0"
    "unat sc \<notin> {0x2A, 0x36, 0x1D, 0x3A}"
    using letter_tables assms(1-3) by auto
  have ne: "sc \<noteq> 0xE0" "sc \<noteq> 0x2A" "sc \<noteq> 0x36" "sc \<noteq> 0x1D" "sc \<noteq> 0x3A" using T(4) assms(1) by auto
  have lt: "sc < 128" using assms(1) by (simp add: word_less_nat_alt)
  have m: "sc AND 0x7F = sc" "sc AND 0x80 = 0"
  proof -
    have "take_bit 7 sc = sc" using assms(1) by (simp add: word_unat_eq_iff unsigned_take_bit_eq take_bit_nat_eq_self_iff)
    then show "sc AND 0x7F = sc" by (simp add: take_bit_eq_mask mask_eq_exp_minus_1)
    then have "sc AND 0x80 = (sc AND 0x7F) AND 0x80" by simp
    also have "\<dots> = sc AND (0x7F AND 0x80)" by (rule and.assoc)
    finally show "sc AND 0x80 = 0" by simp
  qed
  have z: "normal ! unat sc \<noteq> 0" using assms(2) by auto
  show ?thesis
    using assms(2-5) T ne lt m z
    by (auto simp: keyboard_irq_def key_char_def Let_def linorder_not_le)
qed

theorem keyboard_letter_case_witness:
  "normal ! unat (0x1E :: u8) = 97 \<and> keyboard_irq 0x1E kbd_ex intr_ex = (push 65 kbd_ex, intr_ex)"
proof -
  have n: "normal ! unat (0x1E :: u8) = 97" by (simp add: normal_def)
  show ?thesis using keyboard_letter_case [of "0x1E" kbd_ex intr_ex] n by (simp add: kbd_ex_def)
qed

end
