(* ===== verification/Vga.thy ===== *)
theory Vga
  imports Prelude
begin

text \<open>
  The text console, \<^verbatim>\<open>kernel/vga.cpp\<close>: the 80 x 25 frame buffer, the attribute byte, the writing
  position and the position last sent to the hardware cursor (ports \<^verbatim>\<open>0x3D4\<close>/\<^verbatim>\<open>0x3D5\<close>). The frame
  buffer is a list of 2000 cells; that the code never addresses a cell outside it is part of the
  invariant proved here. A C \<^verbatim>\<open>char\<close> is signed, so bytes from \<open>0x80\<close> fail the test \<^verbatim>\<open>c >= 32\<close>.
\<close>

definition WIDTH :: nat where "WIDTH = 80"
definition HEIGHT :: nat where "HEIGHT = 25"

record vga =
  fb :: "u16 list"
  color :: u8
  row :: nat
  col :: nat
  cursor_reg :: u16

definition update_cursor :: "vga \<Rightarrow> vga" where
  "update_cursor v = v\<lparr>cursor_reg := of_nat (row v * WIDTH + col v)\<rparr>"

definition cell :: "u8 \<Rightarrow> u8 \<Rightarrow> u16" where
  "cell attr c = push_bit 8 (ucast attr) OR ucast c"

text \<open>\<^verbatim>\<open>for (x = 0; x < n; x++) fb[d + x] = fb[s + x];\<close> and the loop over the rows of \<^verbatim>\<open>scroll\<close>.\<close>

primrec copy_cells :: "nat \<Rightarrow> nat \<Rightarrow> nat \<Rightarrow> u16 list \<Rightarrow> u16 list" where
  "copy_cells 0 d s f = f"
| "copy_cells (Suc n) d s f = (let f = copy_cells n d s f in f[d + n := f ! (s + n)])"

primrec scroll_rows :: "nat \<Rightarrow> u16 list \<Rightarrow> u16 list" where
  "scroll_rows 0 f = f"
| "scroll_rows (Suc y) f = copy_cells WIDTH (y * WIDTH) (Suc y * WIDTH) (scroll_rows y f)"

primrec fill_cells :: "nat \<Rightarrow> nat \<Rightarrow> u16 \<Rightarrow> u16 list \<Rightarrow> u16 list" where
  "fill_cells 0 d v f = f"
| "fill_cells (Suc n) d v f = (fill_cells n d v f)[d + n := v]"

definition scroll :: "vga \<Rightarrow> vga" where
  "scroll v =
     v\<lparr>fb := fill_cells WIDTH ((HEIGHT - 1) * WIDTH) (cell (color v) 32) (scroll_rows (HEIGHT - 1) (fb v)),
       row := HEIGHT - 1, col := 0\<rparr>"

definition vga_clear :: "vga \<Rightarrow> vga" where
  "vga_clear v =
     update_cursor (v\<lparr>fb := fill_cells (WIDTH * HEIGHT) 0 (cell (color v) 32) (fb v), row := 0, col := 0\<rparr>)"

definition vga_set_color :: "u8 \<Rightarrow> vga \<Rightarrow> vga" where "vga_set_color c v = v\<lparr>color := c\<rparr>"

definition vga_put_raw :: "u8 \<Rightarrow> vga \<Rightarrow> vga" where
  "vga_put_raw c v =
     (if c = 10 then v\<lparr>row := row v + 1, col := 0\<rparr>
      else if c = 13 then v\<lparr>col := 0\<rparr>
      else if c = 9 then v\<lparr>col := (col v + 4) div 4 * 4\<rparr>
      else if c = 8 then
        (let v = (if col v \<noteq> 0 then v\<lparr>col := col v - 1\<rparr> else v)
         in v\<lparr>fb := (fb v)[row v * WIDTH + col v := cell (color v) 32]\<rparr>)
      else if 32 \<le> sint c
      then v\<lparr>fb := (fb v)[row v * WIDTH + col v := cell (color v) c], col := col v + 1\<rparr>
      else v)"

definition vga_putc :: "u8 \<Rightarrow> vga \<Rightarrow> vga" where
  "vga_putc c v =
     (let v = vga_put_raw c v;
          v = (if WIDTH \<le> col v then v\<lparr>row := row v + 1, col := 0\<rparr> else v);
          v = (if HEIGHT \<le> row v then scroll v else v)
      in update_cursor v)"

definition vga_write :: "bytes \<Rightarrow> vga \<Rightarrow> vga" where
  "vga_write s v = fold vga_putc s v"

definition vga_set_cursor :: "u8 \<Rightarrow> u8 \<Rightarrow> vga \<Rightarrow> vga" where
  "vga_set_cursor x y v =
     (let x = (if WIDTH \<le> unat x then WIDTH - 1 else unat x);
          y = (if HEIGHT \<le> unat y then HEIGHT - 1 else unat y)
      in update_cursor (v\<lparr>row := y, col := x\<rparr>))"

definition vga_init :: "vga \<Rightarrow> vga" where
  "vga_init v = vga_set_cursor 0 0 (vga_clear v)"


section \<open>Cells\<close>

lemma length_copy_cells [simp]: "length (copy_cells n d s f) = length f"
  by (induction n) (simp_all add: Let_def)

lemma length_scroll_rows [simp]: "length (scroll_rows y f) = length f"
  by (induction y) simp_all

lemma length_fill_cells [simp]: "length (fill_cells n d v f) = length f"
  by (induction n) simp_all

lemma nth_copy_cells:
  assumes "d + n \<le> s" "s + n \<le> length f"
  shows "copy_cells n d s f ! i = (if d \<le> i \<and> i < d + n then f ! (s + (i - d)) else f ! i)"
  using assms by (induction n arbitrary: i) (auto simp: Let_def nth_list_update less_Suc_eq)

lemma nth_fill_cells:
  "d + n \<le> length f \<Longrightarrow> fill_cells n d v f ! i = (if d \<le> i \<and> i < d + n then v else f ! i)"
  by (induction n) (auto simp: nth_list_update)

lemma nth_scroll_rows:
  "Suc y * WIDTH \<le> length f \<Longrightarrow>
     scroll_rows y f ! i = (if i < y * WIDTH then f ! (i + WIDTH) else f ! i)"
proof (induction y arbitrary: i)
  case (Suc y)
  then have IH: "scroll_rows y f ! j = (if j < y * WIDTH then f ! (j + WIDTH) else f ! j)" for j by simp
  have "scroll_rows (Suc y) f ! i =
      (if y * WIDTH \<le> i \<and> i < y * WIDTH + WIDTH then scroll_rows y f ! (Suc y * WIDTH + (i - y * WIDTH))
       else scroll_rows y f ! i)"
    using Suc.prems nth_copy_cells [of "y * WIDTH" WIDTH "Suc y * WIDTH" "scroll_rows y f" i] by simp
  moreover have "Suc y * WIDTH + (i - y * WIDTH) = i + WIDTH" if "y * WIDTH \<le> i" using that by simp
  ultimately show ?case by (auto simp: IH add.commute)
qed simp

definition vga_inv :: "vga \<Rightarrow> bool" where
  "vga_inv v \<longleftrightarrow> length (fb v) = WIDTH * HEIGHT \<and> row v < HEIGHT \<and> col v < WIDTH
     \<and> unat (cursor_reg v) = row v * WIDTH + col v"

lemma cursor_reg_ok:
  "row v < HEIGHT \<Longrightarrow> col v < WIDTH \<Longrightarrow> length (fb v) = WIDTH * HEIGHT \<Longrightarrow> vga_inv (update_cursor v)"
  using unat_of_nat_small [of "row v * WIDTH + col v", where 'a = 16]
  by (simp add: vga_inv_def update_cursor_def WIDTH_def HEIGHT_def del: of_nat_add of_nat_mult)

lemma scroll_cells:
  assumes "length (fb v) = WIDTH * HEIGHT" "i < WIDTH * HEIGHT"
  shows "fb (scroll v) ! i = (if i < 24 * WIDTH then fb v ! (i + WIDTH) else cell (color v) 32)"
  using assms nth_scroll_rows [of 24 "fb v" i]
    nth_fill_cells [of "(HEIGHT - 1) * WIDTH" WIDTH "scroll_rows 24 (fb v)" "cell (color v) 32" i]
  by (auto simp: scroll_def WIDTH_def HEIGHT_def)

lemma vga_put_raw_bounds:
  assumes "row v < HEIGHT" "col v < WIDTH"
  shows "row (vga_put_raw c v) \<le> HEIGHT" "col (vga_put_raw c v) \<le> WIDTH"
    "col (vga_put_raw c v) = WIDTH \<Longrightarrow> row (vga_put_raw c v) < HEIGHT"
  using assms by (auto simp: vga_put_raw_def WIDTH_def HEIGHT_def Let_def)

lemma vga_put_raw_fields [simp]:
  "length (fb (vga_put_raw c v)) = length (fb v)" "color (vga_put_raw c v) = color v"
  by (simp_all add: vga_put_raw_def Let_def)


section \<open>Properties of the console\<close>

text \<open>
  C12. For every byte, \<^verbatim>\<open>vga_putc\<close> keeps the writing position on the screen (so every later cell
  address lies inside the frame buffer), keeps the hardware cursor at that position, and scrolls
  exactly when the position would leave the last line: then each line holds what the line below it
  held after the byte was written, and the last line is blank.
\<close>

theorem vga_putc_correct:
  assumes "vga_inv v"
  shows "vga_inv (vga_putc c v)
     \<and> row v * WIDTH + col v < length (fb v)
     \<and> (let w = vga_put_raw c v
        in if row w = HEIGHT \<or> row w = HEIGHT - 1 \<and> col w = WIDTH
           then row (vga_putc c v) = HEIGHT - 1 \<and> col (vga_putc c v) = 0 \<and>
                (\<forall>y x. y < HEIGHT \<and> x < WIDTH \<longrightarrow> fb (vga_putc c v) ! (y * WIDTH + x) =
                   (if y < HEIGHT - 1 then fb w ! (Suc y * WIDTH + x) else cell (color v) 32))
           else fb (vga_putc c v) = fb w)"
proof -
  define w where "w = vga_put_raw c v"
  define w1 where "w1 = (if WIDTH \<le> col w then w\<lparr>row := row w + 1, col := 0\<rparr> else w)"
  define w2 where "w2 = (if HEIGHT \<le> row w1 then scroll w1 else w1)"
  have put: "vga_putc c v = update_cursor w2" by (simp add: vga_putc_def w_def w1_def w2_def Let_def)
  have len: "length (fb v) = WIDTH * HEIGHT" and rc: "row v < HEIGHT" "col v < WIDTH"
    using assms by (simp_all add: vga_inv_def)
  note B = vga_put_raw_bounds [OF rc, of c, folded w_def]
  have lw: "length (fb w) = WIDTH * HEIGHT" "length (fb w1) = WIDTH * HEIGHT" "color w1 = color v" "fb w1 = fb w"
    using len by (simp_all add: w_def w1_def)
  have edge: "HEIGHT \<le> row w1 \<longleftrightarrow> row w = HEIGHT \<or> row w = HEIGHT - 1 \<and> col w = WIDTH"
    using B by (auto simp: w1_def HEIGHT_def WIDTH_def)
  have inv: "vga_inv (update_cursor w2)"
    using B lw by (intro cursor_reg_ok) (auto simp: w2_def w1_def scroll_def HEIGHT_def WIDTH_def)
  have idx: "y * WIDTH + x < WIDTH * HEIGHT" if "y < HEIGHT" "x < WIDTH" for x y
    using that by (simp add: WIDTH_def HEIGHT_def)
  have cells: "fb w2 ! (y * WIDTH + x) = (if y < HEIGHT - 1 then fb w ! (Suc y * WIDTH + x) else cell (color v) 32)"
    if "HEIGHT \<le> row w1" "y < HEIGHT" "x < WIDTH" for x y
    using that scroll_cells [OF lw(2) idx [OF that(2,3)]] lw(3,4)
    by (auto simp: w2_def WIDTH_def HEIGHT_def algebra_simps)
  have pos: "HEIGHT \<le> row w1 \<Longrightarrow> row w2 = HEIGHT - 1 \<and> col w2 = 0" by (simp add: w2_def scroll_def)
  have stay: "\<not> HEIGHT \<le> row w1 \<Longrightarrow> fb w2 = fb w" by (simp add: w2_def lw(4))
  have fields: "fb (vga_putc c v) = fb w2" "row (vga_putc c v) = row w2" "col (vga_putc c v) = col w2"
    by (simp_all add: put update_cursor_def)
  show ?thesis
    using inv edge cells pos stay idx [OF rc] len
    unfolding Let_def w_def [symmetric] fields unfolding put by auto
qed


definition vga_ex :: vga where
  "vga_ex = \<lparr>fb = replicate 2000 0x0741, color = 7, row = 24, col = 79, cursor_reg = 1999\<rparr>"

lemma vga_ex_inv: "vga_inv vga_ex"
  by (simp add: vga_inv_def vga_ex_def WIDTH_def HEIGHT_def)

theorem vga_putc_correct_witness:
  "vga_inv vga_ex \<and> vga_inv (vga_putc 65 vga_ex) \<and> row (vga_putc 65 vga_ex) = 24 \<and> col (vga_putc 65 vga_ex) = 0"
proof -
  have "row (vga_put_raw 65 vga_ex) = 24" "col (vga_put_raw 65 vga_ex) = 80"
    by (simp_all add: vga_put_raw_def vga_ex_def)
  then show ?thesis
    using vga_putc_correct [OF vga_ex_inv, of 65] vga_ex_inv by (simp add: Let_def WIDTH_def HEIGHT_def)
qed

lemma vga_putc_printable:
  assumes "vga_inv v" "32 \<le> sint c" "col v + 1 < WIDTH"
  shows "vga_putc c v = update_cursor (v\<lparr>fb := (fb v)[row v * WIDTH + col v := cell (color v) c], col := col v + 1\<rparr>)"
proof -
  have "c \<noteq> 10" "c \<noteq> 13" "c \<noteq> 9" "c \<noteq> 8" using assms(2) by auto
  then show ?thesis using assms by (simp add: vga_putc_def vga_put_raw_def Let_def vga_inv_def)
qed

text \<open>
  Printing a line of printable characters that fits before the right margin: the characters
  appear in consecutive cells from the cursor on, in the current colour, no other cell changes and
  the cursor ends behind them.
\<close>

theorem vga_write_line:
  assumes "vga_inv v" "\<forall>c \<in> set s. 32 \<le> sint c" "col v + length s < WIDTH"
  shows "vga_inv (vga_write s v) \<and> row (vga_write s v) = row v \<and> col (vga_write s v) = col v + length s
     \<and> (\<forall>i < WIDTH * HEIGHT. fb (vga_write s v) ! i =
          (if row v * WIDTH + col v \<le> i \<and> i < row v * WIDTH + col v + length s
           then cell (color v) (s ! (i - (row v * WIDTH + col v))) else fb v ! i))"
  using assms
proof (induction s arbitrary: v)
  case Nil
  then show ?case by (auto simp: vga_write_def)
next
  case (Cons c s)
  define v1 where "v1 = vga_putc c v"
  have v1: "v1 = update_cursor (v\<lparr>fb := (fb v)[row v * WIDTH + col v := cell (color v) c], col := col v + 1\<rparr>)"
    unfolding v1_def using Cons.prems by (intro vga_putc_printable) auto
  have f: "row v1 = row v" "col v1 = col v + 1" "color v1 = color v"
    "fb v1 = (fb v)[row v * WIDTH + col v := cell (color v) c]"
    by (simp_all add: v1 update_cursor_def)
  have "vga_inv v1"
    unfolding v1 using Cons.prems by (intro cursor_reg_ok) (auto simp: vga_inv_def)
  moreover have "length (fb v) = WIDTH * HEIGHT" using Cons.prems by (simp add: vga_inv_def)
  moreover have "vga_write (c # s) v = vga_write s v1" by (simp add: vga_write_def v1_def)
  ultimately show ?case
    using Cons.IH [of v1] Cons.prems f by (auto simp: nth_list_update nth_Cons')
qed

definition vga_ex2 :: vga where
  "vga_ex2 = \<lparr>fb = replicate 2000 0, color = 7, row = 3, col = 10, cursor_reg = 250\<rparr>"

theorem vga_write_line_witness:
  "vga_inv vga_ex2 \<and> fb (vga_write [104, 105] vga_ex2) ! 251 = cell 7 105 \<and> col (vga_write [104, 105] vga_ex2) = 12"
proof -
  have v: "vga_inv vga_ex2" by (simp add: vga_inv_def vga_ex2_def WIDTH_def HEIGHT_def)
  show ?thesis
    using vga_write_line [OF v, of "[104, 105]"] v by (simp add: WIDTH_def HEIGHT_def vga_ex2_def)
qed

end
