(* ===== verification/Kprintf.thy ===== *)
theory Kprintf
  imports Vga
begin

text \<open>
  Formatted output, \<^verbatim>\<open>kernel/kprintf.cpp\<close>. \<open>vformat\<close> turns a format and its arguments into the sequence
  of calls of the \<^verbatim>\<open>emit\<close> function; the three emitters (bounded buffer, screen and serial line, output
  capture) consume it. The variadic arguments are a list of tagged values; what C leaves undefined
  (an argument that is missing or of the wrong kind, a format that ends inside a conversion, which
  makes the loop step over the terminating zero, and a digit written past the 24-byte stack array of
  \<^verbatim>\<open>print_u64\<close>) is the value \<open>None\<close>. Widths are unbounded.
\<close>

datatype arg = Num u64 | Str "bytes option" | IntPtr bool

datatype emission = Emit u8 | StoreCount

datatype radix = Bin | Dec | Hex

fun radix_val :: "radix \<Rightarrow> u64" where
  "radix_val Bin = 2" | "radix_val Dec = 10" | "radix_val Hex = 16"

definition digit_chars :: "bool \<Rightarrow> bytes" where
  "digit_chars upper =
     [48, 49, 50, 51, 52, 53, 54, 55, 56, 57]
     @ (if upper then [65, 66, 67, 68, 69, 70] else [97, 98, 99, 100, 101, 102])"

lemma radix_val_ge2: "2 \<le> unat (radix_val r)" "unat (radix_val r) \<le> 16"
  by (cases r; simp)+

lemma div_radix_less: "v div radix_val r \<noteq> 0 \<Longrightarrow> unat (v div radix_val r) < unat v"
  using radix_val_ge2 [of r] by (cases "v = 0") (auto simp: unat_div unat_gt_0 intro!: div_less_dividend)

function digits :: "radix \<Rightarrow> bool \<Rightarrow> u64 \<Rightarrow> bytes" where
  "digits r upper v =
     digit_chars upper ! unat (v mod radix_val r) #
       (let v' = v div radix_val r in if v' \<noteq> 0 then digits r upper v' else [])"
  by pat_completeness auto
termination
  by (relation "measure (\<lambda>(r, u, v). unat v)") (auto simp: div_radix_less)

declare digits.simps [simp del]

definition print_u64 :: "u64 \<Rightarrow> radix \<Rightarrow> bool \<Rightarrow> nat \<Rightarrow> u8 \<Rightarrow> bool \<Rightarrow> bytes option" where
  "print_u64 v base upper width fill left =
     (let ds = digits base upper v; len = length ds; padn = width - len
      in if 24 < len then None
         else Some ((if \<not> left then replicate padn fill else []) @ rev ds
                    @ (if left then replicate padn 32 else [])))"

text \<open>\<^verbatim>\<open>while (*fmt >= '0' && *fmt <= '9') { width = width * 10 + (*fmt - '0'); fmt++; }\<close>\<close>

fun parse_width :: "nat \<Rightarrow> bytes \<Rightarrow> nat \<times> bytes" where
  "parse_width w [] = (w, [])"
| "parse_width w (c # fs) = (if 48 \<le> c \<and> c \<le> 57 then parse_width (w * 10 + unat (c - 48)) fs else (w, c # fs))"

definition parse_flags :: "bytes \<Rightarrow> bool \<times> u8 \<times> nat \<times> bytes" where
  "parse_flags fs =
     (let left = (fs \<noteq> [] \<and> hd fs = 45);
          fs = dropWhile (\<lambda>c. c = 45) fs;
          zero = (fs \<noteq> [] \<and> hd fs = 48);
          fs = (if zero then tl fs else fs);
          (width, fs) = parse_width 0 fs;
          fs = dropWhile (\<lambda>c. c = 108 \<or> c = 122 \<or> c = 104) fs
      in (left, if zero then 48 else 32, width, fs))"

definition null_str :: bytes where "null_str = [40, 110, 117, 108, 108, 41]"

definition format_str :: "bool \<Rightarrow> nat \<Rightarrow> bytes \<Rightarrow> bytes" where
  "format_str left width s =
     (if \<not> left then replicate (width - length s) 32 else []) @ s
     @ (if left then replicate (width - length s) 32 else [])"

text \<open>The integer conversions: radix, case, sign and prefix of a conversion character.\<close>

definition int_conv :: "u8 \<Rightarrow> (bool \<times> bool \<times> radix \<times> bytes) option" where
  "int_conv k =
     (if k = 100 \<or> k = 105 then Some (True, False, Dec, [])
      else if k = 117 then Some (False, False, Dec, [])
      else if k = 120 then Some (False, False, Hex, [])
      else if k = 88 then Some (False, True, Hex, [])
      else if k = 112 then Some (False, False, Hex, [48, 120])
      else if k = 98 then Some (False, False, Bin, [])
      else None)"

definition format_int :: "bool \<Rightarrow> bool \<Rightarrow> radix \<Rightarrow> bool \<Rightarrow> u8 \<Rightarrow> nat \<Rightarrow> u64 \<Rightarrow> bytes option" where
  "format_int is_signed upper base left fill width a =
     (if is_signed \<and> sint a < 0
      then map_option ((#) 45) (print_u64 (word_of_int (- (sint a + 1)) + 1) base upper width 32 left)
      else print_u64 a base upper width fill left)"

definition format_conv :: "u8 \<Rightarrow> bool \<Rightarrow> u8 \<Rightarrow> nat \<Rightarrow> arg list \<Rightarrow> (emission list \<times> arg list) option" where
  "format_conv k left fill width args =
     (if k = 99 then
        (case args of Num a # as \<Rightarrow> Some ([Emit (ucast a)], as) | _ \<Rightarrow> None)
      else if k = 115 then
        (case args of
           Str so # as \<Rightarrow>
             Some (map Emit (format_str left width (case so of None \<Rightarrow> null_str | Some s \<Rightarrow> s)), as)
         | _ \<Rightarrow> None)
      else if k = 110 then
        (case args of IntPtr nonnull # as \<Rightarrow> Some (if nonnull then [StoreCount] else [], as) | _ \<Rightarrow> None)
      else if k = 37 then Some ([Emit 37], args)
      else
        (case int_conv k of
           None \<Rightarrow> Some ([Emit 37, Emit k], args)
         | Some (is_signed, upper, base, pre) \<Rightarrow>
             (case args of
                Num a # as \<Rightarrow>
                  map_option (\<lambda>out. (map Emit (pre @ out), as))
                    (format_int is_signed upper base left fill width a)
              | _ \<Rightarrow> None)))"

lemma parse_width_length: "length (snd (parse_width w fs)) \<le> length fs"
  by (induction w fs rule: parse_width.induct) auto

lemma parse_flags_length: "parse_flags fs = (left, fill, width, fs') \<Longrightarrow> length fs' \<le> length fs"
proof -
  assume a: "parse_flags fs = (left, fill, width, fs')"
  define f1 where "f1 = dropWhile (\<lambda>c. c = 45) fs"
  define f2 where "f2 = (if f1 \<noteq> [] \<and> hd f1 = 48 then tl f1 else f1)"
  have "fs' = dropWhile (\<lambda>c. c = 108 \<or> c = 122 \<or> c = 104) (snd (parse_width 0 f2))"
    using a by (simp add: parse_flags_def Let_def f1_def [symmetric] f2_def [symmetric] split_beta)
  then have "length fs' \<le> length (snd (parse_width 0 f2))" by (simp add: length_dropWhile_le)
  also have "\<dots> \<le> length f2" by (rule parse_width_length)
  also have "\<dots> \<le> length f1" by (simp add: f2_def)
  also have "\<dots> \<le> length fs" by (simp add: f1_def length_dropWhile_le)
  finally show ?thesis .
qed

function vformat :: "bytes \<Rightarrow> arg list \<Rightarrow> emission list option" where
  "vformat [] args = Some []"
| "vformat (c # fs) args =
     (if c \<noteq> 37 then map_option ((#) (Emit c)) (vformat fs args)
      else
        (case parse_flags fs of
           (left, fill, width, []) \<Rightarrow> None
         | (left, fill, width, k # rest) \<Rightarrow>
             (case format_conv k left fill width args of
                None \<Rightarrow> None
              | Some (out, as) \<Rightarrow> map_option ((@) out) (vformat rest as))))"
  by pat_completeness auto
termination
  by (relation "measure (\<lambda>(fs, args). length fs)") (auto dest!: parse_flags_length [OF sym])


section \<open>The emitters\<close>

record bufctx =
  buf_mem :: bytes
  buf_p :: nat
  buf_end :: nat
  buf_count :: nat
  buf_stores :: "nat list"

fun emit_buf :: "emission \<Rightarrow> bufctx \<Rightarrow> bufctx" where
  "emit_buf (Emit c) b =
     (let b = (if buf_p b < buf_end b then b\<lparr>buf_mem := (buf_mem b)[buf_p b := c], buf_p := buf_p b + 1\<rparr> else b)
      in b\<lparr>buf_count := buf_count b + 1\<rparr>)"
| "emit_buf StoreCount b = b\<lparr>buf_stores := buf_stores b @ [buf_count b]\<rparr>"

definition ksnprintf :: "bytes \<Rightarrow> nat \<Rightarrow> bytes \<Rightarrow> arg list \<Rightarrow> (nat \<times> bytes) option" where
  "ksnprintf buf n fmt args =
     (if n = 0 then Some (0, buf)
      else
        (case vformat fmt args of
           None \<Rightarrow> None
         | Some es \<Rightarrow>
             let b = fold emit_buf es
                       \<lparr>buf_mem = buf, buf_p = 0, buf_end = n - 1, buf_count = 0, buf_stores = []\<rparr>
             in Some (buf_count b, (buf_mem b)[buf_p b := 0])))"

record console =
  con_vga :: vga
  serial_tx :: bytes
  cap_buf :: "bytes option"
  cap_room :: nat
  cap_len :: "nat option"
  g_capturing :: bool

definition serial_putc :: "u8 \<Rightarrow> console \<Rightarrow> console" where
  "serial_putc c s = s\<lparr>serial_tx := serial_tx s @ [c]\<rparr>"

fun emit_vga_serial :: "emission \<Rightarrow> console \<Rightarrow> console" where
  "emit_vga_serial (Emit c) s =
     (let s = s\<lparr>con_vga := vga_putc c (con_vga s)\<rparr>;
          s = (if c = 10 then serial_putc 13 s else s)
      in serial_putc c s)"
| "emit_vga_serial StoreCount s = s"

fun emit_serial :: "emission \<Rightarrow> console \<Rightarrow> console" where
  "emit_serial (Emit c) s = serial_putc c (if c = 10 then serial_putc 13 s else s)"
| "emit_serial StoreCount s = s"

text \<open>
  \<^verbatim>\<open>cap_buf\<close> holds the bytes stored so far (\<open>None\<close>: a null pointer) and \<^verbatim>\<open>cap_room\<close> how many more fit.
\<close>

fun emit_capture :: "emission \<Rightarrow> console \<Rightarrow> console" where
  "emit_capture (Emit c) s =
     (let s = (case cap_buf s of
                 None \<Rightarrow> s
               | Some b \<Rightarrow> if 0 < cap_room s then s\<lparr>cap_buf := Some (b @ [c]), cap_room := cap_room s - 1\<rparr> else s)
      in s\<lparr>cap_len := map_option Suc (cap_len s)\<rparr>)"
| "emit_capture StoreCount s = s"

definition kprintf :: "bytes \<Rightarrow> arg list \<Rightarrow> console \<Rightarrow> console option" where
  "kprintf fmt args s =
     map_option (\<lambda>es. fold (if g_capturing s then emit_capture else emit_vga_serial) es s) (vformat fmt args)"

definition kslog :: "bytes \<Rightarrow> arg list \<Rightarrow> console \<Rightarrow> console option" where
  "kslog fmt args s = map_option (\<lambda>es. fold emit_serial es s) (vformat fmt args)"

definition output_capture_begin :: "bool \<Rightarrow> nat \<Rightarrow> bool \<Rightarrow> console \<Rightarrow> console" where
  "output_capture_begin has_buf cap has_len s =
     s\<lparr>cap_buf := (if has_buf then Some [] else None), cap_room := cap,
       cap_len := (if has_len then Some 0 else None), g_capturing := True\<rparr>"

definition output_capture_end :: "console \<Rightarrow> console" where
  "output_capture_end s = s\<lparr>g_capturing := False, cap_buf := None, cap_room := 0, cap_len := None\<rparr>"

definition emitted :: "emission list \<Rightarrow> bytes" where
  "emitted es = concat (map (\<lambda>e. case e of Emit c \<Rightarrow> [c] | StoreCount \<Rightarrow> []) es)"



section \<open>Digits\<close>

definition digit_val :: "u8 \<Rightarrow> nat" where
  "digit_val c =
     (if 48 \<le> c \<and> c \<le> 57 then unat c - 48 else if 65 \<le> c \<and> c \<le> 70 then unat c - 55 else unat c - 87)"

text \<open>The number a most-significant-first digit string denotes.\<close>

definition num_value :: "nat \<Rightarrow> bytes \<Rightarrow> nat" where
  "num_value b ds = foldl (\<lambda>a c. a * b + digit_val c) 0 ds"

lemma digit_val_chars: "d < 16 \<Longrightarrow> digit_val (digit_chars u ! d) = d"
proof -
  have "\<forall>d \<in> set [0..<16]. digit_val (digit_chars True ! d) = d \<and> digit_val (digit_chars False ! d) = d"
    by code_simp
  moreover assume "d < 16"
  ultimately show ?thesis by (cases u) auto
qed

lemma digit_chars_zero: "d < 16 \<Longrightarrow> digit_chars u ! d = 48 \<longleftrightarrow> d = 0"
proof
  assume "d < 16" "digit_chars u ! d = 48"
  then have "digit_val 48 = d" using digit_val_chars [of d u] by simp
  then show "d = 0" by (simp add: digit_val_def)
qed (simp add: digit_chars_def)

lemma num_value_snoc: "num_value b (ds @ [c]) = num_value b ds * b + digit_val c"
  by (simp add: num_value_def)

lemma mod_radix_16: "unat (v mod radix_val r) < 16"
proof -
  have "unat (v mod radix_val r) = unat v mod unat (radix_val r)" by (rule unat_mod_distrib)
  also have "\<dots> < unat (radix_val r)" using radix_val_ge2 [of r] by (intro mod_less_divisor) simp
  finally show ?thesis using radix_val_ge2 [of r] by simp
qed

lemma digits_nonempty [simp]: "digits r u v \<noteq> []"
  by (subst digits.simps) simp

lemma digits_value: "num_value (unat (radix_val r)) (rev (digits r u v)) = unat v"
proof (induction r u v rule: digits.induct)
  case (1 r u v)
  let ?b = "unat (radix_val r)"
  have m: "digit_val (digit_chars u ! unat (v mod radix_val r)) = unat v mod ?b"
    using digit_val_chars [OF mod_radix_16] by (simp add: unat_mod_distrib)
  have "num_value ?b (rev (digits r u v)) = unat v div ?b * ?b + unat v mod ?b"
  proof (cases "v div radix_val r = 0")
    case True
    then have "unat v div ?b = 0" by (metis unat_0 unat_div_distrib)
    then show ?thesis using True m by (subst digits.simps) (simp add: num_value_def)
  next
    case False
    with 1 have "num_value ?b (rev (digits r u (v div radix_val r))) = unat v div ?b"
      by (simp add: unat_div_distrib)
    then show ?thesis using False m by (subst digits.simps) (simp add: num_value_snoc Let_def)
  qed
  then show ?case by simp
qed

lemma digits_lead: "hd (rev (digits r u v)) = 48 \<Longrightarrow> v = 0"
proof (induction r u v rule: digits.induct)
  case (1 r u v)
  show ?case
  proof (cases "v div radix_val r = 0")
    case True
    then have "digit_chars u ! unat (v mod radix_val r) = 48"
      using "1.prems" by (subst (asm) digits.simps) simp
    then have "v mod radix_val r = 0" using digit_chars_zero [OF mod_radix_16] by (simp add: unat_eq_zero)
    with True show ?thesis by (metis add.right_neutral mult_zero_left word_mod_div_equality)
  next
    case False
    then have "hd (rev (digits r u (v div radix_val r))) = 48"
      using "1.prems" by (subst (asm) digits.simps) (simp add: Let_def hd_append)
    with "1.IH" False show ?thesis by auto
  qed
qed

lemma digits_length: "0 < k \<Longrightarrow> length (digits r u v) \<le> k \<longleftrightarrow> unat v < unat (radix_val r) ^ k"
proof (induction k arbitrary: v)
  case (Suc k)
  let ?b = "unat (radix_val r)"
  have b: "2 \<le> ?b" by (rule radix_val_ge2)
  have dv: "unat (v div radix_val r) = unat v div ?b" by (rule unat_div_distrib)
  have len: "length (digits r u v) = Suc (if v div radix_val r = 0 then 0 else length (digits r u (v div radix_val r)))"
    by (subst digits.simps) (simp add: Let_def)
  have lt: "unat v div ?b < ?b ^ k \<longleftrightarrow> unat v < ?b ^ Suc k"
    using b by (simp add: div_less_iff_less_mult mult.commute)
  show ?case
  proof (cases "v div radix_val r = 0")
    case True
    then have "unat v div ?b = 0" using dv by simp
    then show ?thesis using len True lt b by simp
  next
    case False
    then have pos: "0 < unat v div ?b" using dv by (metis unat_gt_0)
    show ?thesis
    proof (cases "k = 0")
      case True
      then show ?thesis using len False lt pos by simp
    next
      case k: False
      then show ?thesis using Suc.IH [of "v div radix_val r"] len False lt dv by simp
    qed
  qed
qed simp



section \<open>Properties of formatted output\<close>

text \<open>
  C13. Number printing: \<^verbatim>\<open>print_u64\<close> stays inside its 24-byte digit array except for \<^verbatim>\<open>%b\<close> of a value of
  \<open>2 ^ 24\<close> or more; otherwise it prints digits that denote exactly the value, without a leading zero,
  padded to the requested width on the requested side.
\<close>

theorem print_u64_correct:
  "if base = Bin \<and> 2 ^ 24 \<le> unat v then print_u64 v base upper width fill left = None
   else \<exists>ds. print_u64 v base upper width fill left =
              Some (if left then ds @ replicate (width - length ds) 32
                    else replicate (width - length ds) fill @ ds)
          \<and> num_value (unat (radix_val base)) ds = unat v \<and> (hd ds = 48 \<longrightarrow> v = 0) \<and> ds \<noteq> []"
proof -
  have v64: "unat v < 2 ^ 64" using unsigned_less [of v] by simp
  have "length (digits base upper v) \<le> 24 \<longleftrightarrow> \<not> (base = Bin \<and> 2 ^ 24 \<le> unat v)"
    using digits_length [of 24 base upper v] v64 by (cases base) auto
  then show ?thesis
    using digits_value [of base upper v] digits_lead [of base upper v]
    by (auto simp: print_u64_def Let_def intro!: exI [of _ "rev (digits base upper v)"])
qed

theorem print_u64_correct_witness:
  "print_u64 0x1000000 Bin False 0 32 False = None \<and> print_u64 42 Dec False 0 32 False = Some [52, 50]"
proof -
  have "digits Dec False 42 = [50, 52]" by (simp add: digits.simps digit_chars_def)
  then have "print_u64 42 Dec False 0 32 False = Some [52, 50]" by (simp add: print_u64_def)
  then show ?thesis using print_u64_correct [of Bin "0x1000000" False 0 32 False] by simp
qed

lemma emitted_simps [simp]:
  "emitted [] = []" "emitted (Emit c # es) = c # emitted es" "emitted (StoreCount # es) = emitted es"
  by (simp_all add: emitted_def)

lemma emit_buf_fold:
  "buf_p b \<le> buf_end b \<Longrightarrow> buf_end b \<le> length (buf_mem b) \<Longrightarrow> b' = fold emit_buf es b \<Longrightarrow>
   out = take (buf_end b - buf_p b) (emitted es) \<Longrightarrow>
     buf_count b' = buf_count b + length (emitted es) \<and> buf_p b' = buf_p b + length out
     \<and> buf_end b' = buf_end b
     \<and> buf_mem b' = take (buf_p b) (buf_mem b) @ out @ drop (buf_p b + length out) (buf_mem b)"
proof (induction es arbitrary: b out)
  case (Cons e es)
  note p = Cons.prems
  show ?case
  proof (cases "\<exists>c. e = Emit c \<and> buf_p b < buf_end b")
    case True
    then obtain c where e: "e = Emit c" "buf_p b < buf_end b" by auto
    define b1 where "b1 = emit_buf e b"
    have b1: "buf_p b1 = Suc (buf_p b)" "buf_end b1 = buf_end b" "buf_count b1 = Suc (buf_count b)"
      "buf_mem b1 = (buf_mem b)[buf_p b := c]" using e by (simp_all add: b1_def)
    define o1 where "o1 = take (buf_end b1 - buf_p b1) (emitted es)"
    have out: "out = c # o1" using p(4) e b1 by (simp add: take_Cons' o1_def)
    have "buf_p b1 \<le> buf_end b1" "buf_end b1 \<le> length (buf_mem b1)" "b' = fold emit_buf es b1"
      using p(1-3) e b1 by (auto simp: b1_def)
    from Cons.IH [OF this o1_def] show ?thesis
      using b1 e p(2) out by (simp add: take_Suc_conv_app_nth drop_update_cancel)
  next
    case False
    define b1 where "b1 = emit_buf e b"
    have b1: "buf_p b1 = buf_p b" "buf_end b1 = buf_end b" "buf_mem b1 = buf_mem b"
      "buf_count b1 = buf_count b + length (emitted [e])"
      using False p(1) by (cases e; simp add: b1_def)+
    have out: "out = take (buf_end b1 - buf_p b1) (emitted es)"
      using p(1,4) False b1 by (cases e) auto
    have "buf_p b1 \<le> buf_end b1" "buf_end b1 \<le> length (buf_mem b1)" "b' = fold emit_buf es b1"
      using p b1 by (auto simp: b1_def)
    from Cons.IH [OF this out] show ?thesis using b1 by (cases e) auto
  qed
qed simp

text \<open>
  \<^verbatim>\<open>ksnprintf\<close> never writes outside the \<open>n\<close> bytes it is given: they receive the first \<open>n - 1\<close>
  characters of the output and a terminating zero, every other byte of the buffer is unchanged, and
  the result is the untruncated length.
\<close>

theorem ksnprintf_correct:
  assumes "vformat fmt args = Some es" "0 < n" "n \<le> length buf" "out = take (n - 1) (emitted es)"
  shows "ksnprintf buf n fmt args = Some (length (emitted es), out @ [0] @ drop (length out + 1) buf)"
proof -
  define b0 where "b0 = \<lparr>buf_mem = buf, buf_p = 0, buf_end = n - 1, buf_count = 0, buf_stores = []\<rparr>"
  define b where "b = fold emit_buf es b0"
  have r: "ksnprintf buf n fmt args = Some (buf_count b, (buf_mem b)[buf_p b := 0])"
    using assms(1,2) by (simp add: ksnprintf_def b_def b0_def Let_def)
  have h: "buf_p b0 \<le> buf_end b0" "buf_end b0 \<le> length (buf_mem b0)"
    "out = take (buf_end b0 - buf_p b0) (emitted es)"
    using assms by (simp_all add: b0_def)
  note F = emit_buf_fold [OF h(1,2) b_def h(3)]
  have len: "length out < length buf" using assms by auto
  have "(out @ drop (length out) buf)[length out := 0] = out @ [0] @ drop (length out + 1) buf"
    using len by (simp add: list_update_append Cons_nth_drop_Suc [symmetric])
  then show ?thesis using F r by (simp add: b0_def)
qed

theorem ksnprintf_correct_witness:
  "vformat [37, 117, 33] [Num 42] = Some [Emit 52, Emit 50, Emit 33]
   \<and> ksnprintf [9, 9, 9, 9, 9] 3 [37, 117, 33] [Num 42] = Some (3, [52, 50, 0, 9, 9])"
proof -
  have d: "digits Dec False 42 = [50, 52]" by (simp add: digits.simps digit_chars_def)
  have v: "vformat [37, 117, 33] [Num 42] = Some [Emit 52, Emit 50, Emit 33]"
    by (simp add: parse_flags_def format_conv_def int_conv_def format_int_def print_u64_def d)
  show ?thesis
    using ksnprintf_correct [OF v, of 3 "[9, 9, 9, 9, 9]" "[52, 50]"] v by (simp add: numeral_eq_Suc)
qed

lemma emit_capture_fold:
  "cap_buf s = Some b \<Longrightarrow> cap_len s = Some n \<Longrightarrow> s' = fold emit_capture es s \<Longrightarrow>
     cap_buf s' = Some (b @ take (cap_room s) (emitted es)) \<and> cap_len s' = Some (n + length (emitted es))
     \<and> con_vga s' = con_vga s \<and> serial_tx s' = serial_tx s \<and> g_capturing s' = g_capturing s
     \<and> cap_room s' = cap_room s - length (emitted es)"
proof (induction es arbitrary: s b n)
  case (Cons e es)
  show ?case
  proof (cases e)
    case (Emit c)
    show ?thesis
    proof (cases "0 < cap_room s")
      case True
      then show ?thesis
        using Cons.IH [of "emit_capture e s" "b @ [c]" "Suc n"] Cons.prems Emit by (auto simp: take_Cons')
    next
      case False
      then show ?thesis
        using Cons.IH [of "emit_capture e s" b "Suc n"] Cons.prems Emit by auto
    qed
  next
    case StoreCount
    then show ?thesis using Cons.IH [of s b n] Cons.prems by simp
  qed
qed simp

text \<open>
  Output capture: while it is open, \<^verbatim>\<open>kprintf\<close> writes nothing to the screen or the serial line; the
  buffer receives the output up to its capacity and nothing beyond it. The length reported counts
  every character, also those that did not fit.
\<close>

theorem output_capture_correct:
  assumes "vformat fmt args = Some es"
  shows "\<exists>s'. kprintf fmt args (output_capture_begin True cap True s) = Some s'
     \<and> cap_buf s' = Some (take cap (emitted es)) \<and> cap_len s' = Some (length (emitted es))
     \<and> con_vga s' = con_vga s \<and> serial_tx s' = serial_tx s \<and> \<not> g_capturing (output_capture_end s')"
  using assms emit_capture_fold [of "output_capture_begin True cap True s" "[]" 0 _ es]
  by (simp add: kprintf_def output_capture_begin_def output_capture_end_def)

definition con_ex :: console where
  "con_ex = \<lparr>con_vga = vga_ex, serial_tx = [], cap_buf = None, cap_room = 0, cap_len = None, g_capturing = False\<rparr>"

theorem output_capture_correct_witness:
  "\<exists>s'. kprintf [104, 105, 33] [] (output_capture_begin True 2 True con_ex) = Some s'
      \<and> cap_buf s' = Some [104, 105] \<and> cap_len s' = Some 3"
proof -
  have "vformat [104, 105, 33] [] = Some [Emit 104, Emit 105, Emit 33]" by simp
  from output_capture_correct [OF this, of 2 con_ex] show ?thesis by (simp add: numeral_eq_Suc) blast
qed

text \<open>
  A format that ends inside a conversion makes the scanning loop step over the terminating zero.
\<close>

lemma vformat_truncated: "vformat [37] args = None"
  by (simp add: parse_flags_def)

end
