(* ===== verification/Syscall.thy ===== *)
theory Syscall
  imports Net_Sock Exec Vm Keyboard Kprintf
begin

text \<open>
  Where the parts of the kernel meet: the system calls of \<^verbatim>\<open>kernel/sched.cpp\<close> and the dispatch of interrupts of
  \<^verbatim>\<open>kernel/irq.cpp\<close>. The state of the kernel extends the state of the network stack, so that the interrupts taken
  during a blocking call may change everything. User memory is reached through the page tables that \<^verbatim>\<open>cr3\<close> names.
\<close>

unbundle bit_operations_syntax

section \<open>The kernel\<close>

record kernel = net6 +
  ksched :: sched
  kfs :: cofeufs
  kelf :: elf
  kkbd :: kbd
  kcon :: console
  serial_rx :: bytes
  ports :: "(u16 \<times> u8) list"

definition outb :: "u16 \<Rightarrow> u8 \<Rightarrow> 'a kernel_scheme \<Rightarrow> 'a kernel_scheme" where
  "outb p v k = k\<lparr>ports := ports k @ [(p, v)]\<rparr>"

definition serial_getc :: "'a kernel_scheme \<Rightarrow> u8 \<times> 'a kernel_scheme" where
  "serial_getc k =
     (case serial_rx k of
        [] \<Rightarrow> (0, k)
      | c # rx \<Rightarrow> (c, if c = 3 then k\<lparr>serial_rx := rx, nintr := sys_intr_set (nintr k)\<rparr> else k\<lparr>serial_rx := rx\<rparr>))"


section \<open>User memory\<close>

text \<open>Addresses are translated with the tables of the running process.\<close>

definition utrans :: "sched \<Rightarrow> u64 \<Rightarrow> u64 option" where
  "utrans s a = mmu (memory s) (hw_cr3 s) a"

definition umapped :: "u64 \<Rightarrow> nat \<Rightarrow> sched \<Rightarrow> bool" where
  "umapped a n s \<longleftrightarrow> list_all (\<lambda>i. utrans s (a + of_nat i) \<noteq> None) [0..<n]"

text \<open>Memory as the running process sees it; a byte that is not mapped reads as zero.\<close>

definition uview :: "sched \<Rightarrow> mem" where
  "uview s = (\<lambda>a. case utrans s a of None \<Rightarrow> 0 | Some p \<Rightarrow> memory s p)"

definition uload :: "u64 \<Rightarrow> nat \<Rightarrow> sched \<Rightarrow> bytes option" where
  "uload a n s = (if umapped a n s then Some (map (\<lambda>i. uview s (a + of_nat i)) [0..<n]) else None)"

fun ustore :: "u64 \<Rightarrow> bytes \<Rightarrow> sched \<Rightarrow> sched option" where
  "ustore a [] s = Some s"
| "ustore a (b # bs) s =
     (case utrans s a of None \<Rightarrow> None | Some p \<Rightarrow> ustore (a + 1) bs (s\<lparr>memory := (memory s)(p := b)\<rparr>))"

text \<open>
  \<^verbatim>\<open>copy_user_path\<close> on the view, into an array of 96 bytes: \<open>Inl True\<close> is a page fault, \<open>Inl False\<close> a refusal.
  The byte that ends the scan is the first zero or the first byte that is not mapped.
\<close>

definition user_path :: "u64 \<Rightarrow> sched \<Rightarrow> bool + bytes" where
  "user_path a s =
     (case copy_user_path (uview s) a 96 of
        None \<Rightarrow> Inl False
      | Some path \<Rightarrow> if utrans s (a + of_nat (length path)) = None then Inl True else Inr path)"


section \<open>System calls\<close>

text \<open>The interrupts of the calls that wait: those of sends, of halts, and of the waits of the TCP calls.\<close>

record waits =
  w_tx :: "nat \<Rightarrow> kernel irqs"
  w_rx :: "(kernel \<Rightarrow> kernel) list"
  w_steps :: "kernel wait_step list"
  w_send :: "kernel wait_step list list"
  w_syn :: "(kernel irqs \<times> kernel wait_step list) list"
  w_accept :: "((nat \<Rightarrow> nat \<Rightarrow> kernel irqs) \<times> (kernel \<Rightarrow> kernel) list) list"

text \<open>\<^verbatim>\<open>r[OFF_RAX] = v; break;\<close> and the result that is \<^verbatim>\<open>(uint64_t)-1\<close> for a refusal.\<close>

definition ret :: "u64 \<Rightarrow> u64 \<Rightarrow> kernel \<Rightarrow> (u64 \<times> kernel) outcome" where
  "ret c v k = Returns (c, k\<lparr>ksched := set_rax c v (ksched k)\<rparr>)"

definition fd_of :: "u64 \<Rightarrow> int" where
  "fd_of a = sint (ucast a :: u32)"

definition fd_ret :: "nat option \<Rightarrow> u64" where
  "fd_ret r = (case r of None \<Rightarrow> - 1 | Some i \<Rightarrow> of_nat i)"

definition ok_ret :: "bool \<Rightarrow> u64" where
  "ok_ret r = (if r then 0 else - 1)"

definition with_sched :: "kernel \<Rightarrow> u64 \<times> sched \<Rightarrow> (u64 \<times> kernel) outcome" where
  "with_sched k r = (case r of (c, s) \<Rightarrow> Returns (c, k\<lparr>ksched := s\<rparr>))"

definition con_putc :: "u8 \<Rightarrow> 'a kernel_scheme \<Rightarrow> 'a kernel_scheme" where
  "con_putc b k = k\<lparr>kcon := serial_putc b ((kcon k)\<lparr>con_vga := vga_putc b (con_vga (kcon k))\<rparr>)\<rparr>"

definition sys_putc :: "u64 \<Rightarrow> u64 \<Rightarrow> kernel \<Rightarrow> (u64 \<times> kernel) outcome" where
  "sys_putc c a0 k = ret c 0 (if a0 \<le> 0xFF then con_putc (ucast a0) k else k)"

definition sys_putsn :: "u64 \<Rightarrow> u64 \<Rightarrow> u64 \<Rightarrow> kernel \<Rightarrow> (u64 \<times> kernel) outcome" where
  "sys_putsn c a0 a1 k =
     (if a1 > 1024 \<or> \<not> uaddr_ok a0 a1 then ret c (- 1) k
      else case uload a0 (unat a1) (ksched k) of
             None \<Rightarrow> Halts
           | Some bs \<Rightarrow> ret c a1 (fold con_putc bs k))"

definition sys_getname :: "u64 \<Rightarrow> u64 \<Rightarrow> nat \<Rightarrow> kernel \<Rightarrow> (u64 \<times> kernel) outcome" where
  "sys_getname c a0 i k =
     (if \<not> uaddr_ok a0 15 then ret c (- 1) k
      else case ustore a0 (take 15 (pname (table (ksched k) ! i))) (ksched k) of
             None \<Rightarrow> Halts
           | Some s \<Rightarrow> ret c 0 (k\<lparr>ksched := s\<rparr>))"

text \<open>
  The calls on files. A buffer of which a part is not mapped counts as a fault, also where the code fails
  before it comes to that part.
\<close>

definition sys_fswrite :: "bool \<Rightarrow> u64 \<Rightarrow> u64 \<Rightarrow> u64 \<Rightarrow> u64 \<Rightarrow> kernel \<Rightarrow> (u64 \<times> kernel) outcome" where
  "sys_fswrite app c a0 a1 a2 k =
     (case user_path a0 (ksched k) of
        Inl True \<Rightarrow> Halts
      | Inl False \<Rightarrow> ret c (- 1) k
      | Inr path \<Rightarrow>
          if a2 > 2048 \<or> \<not> uaddr_ok a1 a2 then ret c (- 1) k
          else
            case uload a1 (unat a2) (ksched k) of
              None \<Rightarrow> Halts
            | Some data \<Rightarrow>
                (case (if app then append_file 0 path data (kfs k)
                       else case write_file 0 path data (kfs k) of (ok, d) \<Rightarrow> (Some ok, d)) of
                   (None, d) \<Rightarrow> Wild
                 | (Some ok, d) \<Rightarrow> ret c (if ok then a2 else - 1) (k\<lparr>kfs := d\<rparr>)))"

definition sys_fsread :: "u64 \<Rightarrow> u64 \<Rightarrow> u64 \<Rightarrow> u64 \<Rightarrow> kernel \<Rightarrow> (u64 \<times> kernel) outcome" where
  "sys_fsread c a0 a1 a2 k =
     (case user_path a0 (ksched k) of
        Inl True \<Rightarrow> Halts
      | Inl False \<Rightarrow> ret c (- 1) k
      | Inr path \<Rightarrow>
          if \<not> uaddr_ok a1 a2 \<or> a2 > 4096 then ret c (- 1) k
          else
            (case read_file 0 path (unat a2) (kfs k) of
               (None, d) \<Rightarrow> ret c (- 1) (k\<lparr>kfs := d\<rparr>)
             | (Some bs, d) \<Rightarrow>
                 (case ustore a1 bs (ksched k) of
                    None \<Rightarrow> Halts
                  | Some s \<Rightarrow> ret c (of_nat (length bs)) (k\<lparr>kfs := d, ksched := s\<rparr>))))"

text \<open>\<^verbatim>\<open>EntryInfo\<close> has 40 bytes: the name, the type at 32, the size at 36.\<close>

definition sys_fsstat :: "u64 \<Rightarrow> u64 \<Rightarrow> u64 \<Rightarrow> kernel \<Rightarrow> (u64 \<times> kernel) outcome" where
  "sys_fsstat c a0 a1 k =
     (case user_path a0 (ksched k) of
        Inl True \<Rightarrow> Halts
      | Inl False \<Rightarrow> ret c (- 1) k
      | Inr path \<Rightarrow>
          if \<not> uaddr_ok a1 40 then ret c (- 1) k
          else
            (case fs_stat 0 path (kfs k) of
               (None, d) \<Rightarrow> ret c (- 1) (k\<lparr>kfs := d\<rparr>)
             | (Some st, d) \<Rightarrow>
                 (case Option.bind (ustore (a1 + 32) [ei_type st] (ksched k)) (\<lambda>s.
                         Option.bind (ustore (a1 + 36) (le32 (ei_size st)) s) (ustore a1 (ei_name st))) of
                    None \<Rightarrow> Halts
                  | Some s \<Rightarrow> ret c 0 (k\<lparr>kfs := d, ksched := s\<rparr>))))"

definition sys_getch :: "u64 \<Rightarrow> kernel \<Rightarrow> (u64 \<times> kernel) outcome" where
  "sys_getch c k = ret c (if keyboard_has_char (kkbd k) \<or> serial_rx k \<noteq> [] then 1 else 0) k"

definition sys_fsgetc :: "u64 \<Rightarrow> kernel \<Rightarrow> (u64 \<times> kernel) outcome" where
  "sys_fsgetc c k =
     (if keyboard_has_char (kkbd k)
      then (case keyboard_getc (kkbd k) of (b, kb) \<Rightarrow> ret c (ucast b) (k\<lparr>kkbd := kb\<rparr>))
      else if serial_rx k \<noteq> [] then (case serial_getc k of (b, k) \<Rightarrow> ret c (ucast b) k)
      else ret c (- 1) k)"

definition sys_wait :: "u64 \<Rightarrow> u64 \<Rightarrow> kernel \<Rightarrow> (u64 \<times> kernel) outcome" where
  "sys_wait c a0 k =
     (case find_zombie (ucast a0) (ksched k) of
        None \<Rightarrow> ret c (- 1) k
      | Some i \<Rightarrow>
          (case reap i (set_rax c (ucast (exitcode (table (ksched k) ! i))) (ksched k)) of
             None \<Rightarrow> Wild
           | Some s \<Rightarrow> Returns (c, k\<lparr>ksched := s\<rparr>)))"

text \<open>The static \<^verbatim>\<open>elf_entry\<close>, which is set before every use, is not carried over.\<close>

definition sys_exec :: "u64 \<Rightarrow> u64 \<Rightarrow> kernel \<Rightarrow> (u64 \<times> kernel) outcome" where
  "sys_exec c a0 k =
     (case user_path a0 (ksched k) of
        Inl True \<Rightarrow> Halts
      | Inl False \<Rightarrow> ret c (- 1) k
      | Inr path \<Rightarrow>
          (case sched_exec_self c path (kfs k) (kelf k) (ksched k) of
             Elf_Ok r \<Rightarrow> (case elf_fetch path (kfs k) (kelf k) of (_, e, d) \<Rightarrow> with_sched (k\<lparr>kfs := d, kelf := e\<rparr>) r)
           | _ \<Rightarrow> Wild))"

text \<open>The calls on datagram sockets. The fourth argument is the register \<^verbatim>\<open>rcx\<close>.\<close>

definition sys_udpsock :: "u64 \<Rightarrow> kernel \<Rightarrow> (u64 \<times> kernel) outcome" where
  "sys_udpsock c k = (case net_udp_socket k of (r, k) \<Rightarrow> ret c (fd_ret r) k)"

definition sys_udpbind :: "u64 \<Rightarrow> u64 \<Rightarrow> u64 \<Rightarrow> kernel \<Rightarrow> (u64 \<times> kernel) outcome" where
  "sys_udpbind c a0 a1 k = (case net_udp_bind (fd_of a0) (ucast a1) k of (r, k) \<Rightarrow> ret c (ok_ret r) k)"

definition sys_udpsendto :: "waits \<Rightarrow> u64 \<Rightarrow> u64 \<Rightarrow> u64 \<Rightarrow> u64 \<Rightarrow> u64 \<Rightarrow> kernel \<Rightarrow> (u64 \<times> kernel) outcome" where
  "sys_udpsendto w c a0 a1 a2 a3 k =
     (let dport = ucast (a2 AND 0xFFFF); dlen = ucast (drop_bit 16 a2) :: u16
      in if dlen > 1472 \<or> \<not> uaddr_ok a3 (ucast dlen) then ret c (- 1) k
         else
           case uload a3 (unat dlen) (ksched k) of
             None \<Rightarrow> Halts
           | Some data \<Rightarrow>
               (case net_udp_send_to (w_rx w) (fd_of a0) (ucast a1) dport data k of
                  (n, k) \<Rightarrow> ret c (if n \<ge> 0 then of_int n else - 1) k))"

definition sys_udpwait :: "waits \<Rightarrow> u64 \<Rightarrow> u64 \<Rightarrow> u64 \<Rightarrow> kernel \<Rightarrow> (u64 \<times> kernel) outcome" where
  "sys_udpwait w c a0 a1 k =
     (case net_udp_wait (w_rx w) (fd_of a0) (ucast a1) k of (r, k) \<Rightarrow> ret c (if r then 1 else 0) k)"

definition udp_meta :: "u64 \<Rightarrow> u32 \<Rightarrow> u16 \<Rightarrow> sched \<Rightarrow> sched option" where
  "udp_meta a3 ip port s =
     (if a3 = 0 then Some s
      else Option.bind (ustore a3 (le32 ip) s) (ustore (a3 + 4) [ucast port, ucast (drop_bit 8 port)]))"

definition sys_udprecvfrom :: "u64 \<Rightarrow> u64 \<Rightarrow> u64 \<Rightarrow> u64 \<Rightarrow> u64 \<Rightarrow> kernel \<Rightarrow> (u64 \<times> kernel) outcome" where
  "sys_udprecvfrom c a0 a1 a2 a3 k =
     (if \<not> uaddr_ok a1 a2 \<or> a2 > 1500 then ret c (- 1) k
      else if a3 \<noteq> 0 \<and> \<not> uaddr_ok a3 6 then ret c (- 1) k
      else
        case net_udp_recv_from (fd_of a0) (ucast a2) k of
          (n, got, k) \<Rightarrow>
            if n < 0 then ret c (- 1) k
            else
              let (bs, ip, port) = (case got of None \<Rightarrow> ([], 0, 0) | Some d \<Rightarrow> d)
              in case Option.bind (ustore a1 bs (ksched k)) (udp_meta a3 ip port) of
                   None \<Rightarrow> Halts
                 | Some s \<Rightarrow> ret c (of_int n) (k\<lparr>ksched := s\<rparr>))"

definition sys_udpclose :: "u64 \<Rightarrow> u64 \<Rightarrow> kernel \<Rightarrow> (u64 \<times> kernel) outcome" where
  "sys_udpclose c a0 k = (case net_udp_close (fd_of a0) k of (r, k) \<Rightarrow> ret c (ok_ret r) k)"

text \<open>The calls on TCP sockets; \<^verbatim>\<open>IntrLatch\<close> enables the interrupts during those that wait.\<close>

definition sys_tcpsock :: "u64 \<Rightarrow> kernel \<Rightarrow> (u64 \<times> kernel) outcome" where
  "sys_tcpsock c k = (case net_socket k of (r, k) \<Rightarrow> ret c (fd_ret r) k)"

definition sys_tcplisten :: "u64 \<Rightarrow> u64 \<Rightarrow> u64 \<Rightarrow> kernel \<Rightarrow> (u64 \<times> kernel) outcome" where
  "sys_tcplisten c a0 a1 k = (case net_tcp_listen (fd_of a0) (ucast a1) k of (r, k) \<Rightarrow> ret c (ok_ret r) k)"

definition sys_tcpconnect :: "waits \<Rightarrow> u64 \<Rightarrow> u64 \<Rightarrow> u64 \<Rightarrow> u64 \<Rightarrow> kernel \<Rightarrow> (u64 \<times> kernel) outcome" where
  "sys_tcpconnect w c a0 a1 a2 k =
     (case net_tcp_connect (w_syn w) (fd_of a0) (ucast a1) (ucast a2) k of (r, k) \<Rightarrow> ret c (ok_ret r) k)"

definition sys_tcpaccept :: "waits \<Rightarrow> u64 \<Rightarrow> u64 \<Rightarrow> u64 \<Rightarrow> kernel \<Rightarrow> (u64 \<times> kernel) outcome" where
  "sys_tcpaccept w c a0 a1 k = (case net_tcp_accept (w_accept w) (fd_of a0) (ucast a1) k of (r, k) \<Rightarrow> ret c (fd_ret r) k)"

definition sys_tcpsend :: "waits \<Rightarrow> u64 \<Rightarrow> u64 \<Rightarrow> u64 \<Rightarrow> u64 \<Rightarrow> kernel \<Rightarrow> (u64 \<times> kernel) outcome" where
  "sys_tcpsend w c a0 a1 a2 k =
     (let len = (if a2 > 1500 then 1500 else a2)
      in if \<not> uaddr_ok a1 len then ret c (- 1) k
         else
           case uload a1 (unat len) (ksched k) of
             None \<Rightarrow> Halts
           | Some data \<Rightarrow>
               (case net_tcp_send (w_tx w) (w_send w) (fd_of a0) data k of (r, k) \<Rightarrow> ret c (if r then len else - 1) k))"

definition sys_tcpwait :: "waits \<Rightarrow> u64 \<Rightarrow> u64 \<Rightarrow> u64 \<Rightarrow> kernel \<Rightarrow> (u64 \<times> kernel) outcome" where
  "sys_tcpwait w c a0 a1 k =
     (let fd = fd_of a0; k = net_tcp_wait (w_steps w) fd (ucast a1) k
      in ret c (if net_tcp_done fd k \<or> net_tcp_err fd k \<or> net_tcp_pending fd k > 0 then 1 else 0) k)"

definition sys_tcprecv :: "waits \<Rightarrow> u64 \<Rightarrow> u64 \<Rightarrow> u64 \<Rightarrow> u64 \<Rightarrow> u64 \<Rightarrow> kernel \<Rightarrow> (u64 \<times> kernel) outcome" where
  "sys_tcprecv w c a0 a1 a2 a3 k =
     (if a2 > 4096 \<or> \<not> uaddr_ok a1 a2 then ret c (- 1) k
      else
        let fd = fd_of a0
        in case net_tcp_recv_some (w_steps w) (w_tx w 0) fd (ucast a2) (ucast a3) k of
             ([], k) \<Rightarrow> ret c (if net_tcp_err fd k then - 1 else if net_tcp_done fd k then - 2 else 0) k
           | (bs, k) \<Rightarrow>
               (case ustore a1 bs (ksched k) of
                  None \<Rightarrow> Halts
                | Some s \<Rightarrow> ret c (of_nat (length bs)) (k\<lparr>ksched := s\<rparr>)))"

definition sys_tcpclose :: "waits \<Rightarrow> u64 \<Rightarrow> u64 \<Rightarrow> kernel \<Rightarrow> (u64 \<times> kernel) outcome" where
  "sys_tcpclose w c a0 k = ret c 0 (net_tcp_close (w_tx w 0) (w_steps w) (fd_of a0) k)"

text \<open>\<^verbatim>\<open>syscall_handle\<close>: the number of the call is in \<^verbatim>\<open>rax\<close> (word 14 of the frame), the arguments in \<^verbatim>\<open>rdi\<close>, \<^verbatim>\<open>rsi\<close>, \<^verbatim>\<open>rdx\<close> and \<^verbatim>\<open>rcx\<close>.\<close>

definition reg :: "nat \<Rightarrow> u64 \<Rightarrow> kernel \<Rightarrow> u64" where
  "reg i c k = load64 (memory (ksched k)) (c + 8 * of_nat i)"

definition syscall_handle :: "waits \<Rightarrow> u64 \<Rightarrow> kernel \<Rightarrow> (u64 \<times> kernel) outcome" where
  "syscall_handle w c k =
     (let n = reg 14 c k; a0 = reg 8 c k; a1 = reg 9 c k; a2 = reg 12 c k; a3 = reg 13 c k; s = ksched k
      in case cur s of
           None \<Rightarrow> ret c (- 1) k
         | Some i \<Rightarrow>
             if n = 1 then with_sched k (sys_exit a0 c s)
             else if n = 2 then with_sched k (sys_sleep a0 c s)
             else if n = 3 then with_sched k (sys_yield c s)
             else if n = 4 then ret c (ucast (pid (table s ! i))) k
             else if n = 5 then ret c (now k) k
             else if n = 6 then sys_putc c a0 k
             else if n = 7 then sys_putsn c a0 a1 k
             else if n = 8 then (case sys_fork c s of None \<Rightarrow> Wild | Some r \<Rightarrow> with_sched k r)
             else if n = 9 then sys_getname c a0 i k
             else if n = 10 then sys_fswrite False c a0 a1 a2 k
             else if n = 11 then sys_fswrite True c a0 a1 a2 k
             else if n = 12 then sys_fsread c a0 a1 a2 k
             else if n = 13 then sys_fsstat c a0 a1 k
             else if n = 14 then sys_getch c k
             else if n = 15 then sys_fsgetc c k
             else if n = 16 then sys_wait c a0 k
             else if n = 17 then sys_exec c a0 k
             else if n = 18 then sys_udpsock c k
             else if n = 19 then sys_udpbind c a0 a1 k
             else if n = 20 then sys_udpsendto w c a0 a1 a2 a3 k
             else if n = 21 then sys_udpwait w c a0 a1 k
             else if n = 22 then sys_udprecvfrom c a0 a1 a2 a3 k
             else if n = 23 then sys_udpclose c a0 k
             else if n = 24 then sys_tcpsock c k
             else if n = 25 then sys_tcpconnect w c a0 a1 a2 k
             else if n = 26 then sys_tcplisten c a0 a1 k
             else if n = 27 then sys_tcpaccept w c a0 a1 k
             else if n = 28 then sys_tcpsend w c a0 a1 a2 k
             else if n = 29 then sys_tcpwait w c a0 a1 k
             else if n = 30 then ret c (of_nat (net_tcp_pending (fd_of a0) k)) k
             else if n = 31 then sys_tcprecv w c a0 a1 a2 a3 k
             else if n = 32 then sys_tcpclose w c a0 k
             else ret c (- 1) k)"


section \<open>Interrupts\<close>

definition pic_remap :: "kernel \<Rightarrow> kernel" where
  "pic_remap k =
     fold (\<lambda>(p, v). outb p v)
       [(0x20, 0x11), (0xA0, 0x11), (0x21, 0x20), (0xA1, 0x28), (0x21, 0x04), (0xA1, 0x02), (0x21, 0x01), (0xA1, 0x01),
        (0xA1, 0xE1), (0x21, 0xFC)] k"

definition pic_send_eoi :: "nat \<Rightarrow> kernel \<Rightarrow> kernel" where
  "pic_send_eoi irq k = outb 0x20 0x20 (if irq \<ge> 8 then outb 0xA0 0x20 k else k)"

definition is_exception_fatal :: "u64 \<Rightarrow> bool" where
  "is_exception_fatal vec \<longleftrightarrow> vec \<noteq> 1 \<and> vec \<noteq> 3 \<and> vec \<noteq> 4 \<and> vec \<noteq> 16"

text \<open>The messages of the handlers are not part of the state.\<close>

definition exception_crash :: "u64 \<Rightarrow> u64 \<Rightarrow> kernel \<Rightarrow> (u64 \<times> kernel) outcome" where
  "exception_crash vec c k = (if \<not> is_exception_fatal vec then Returns (c, k) else Halts)"

text \<open>The clock is the one of the network stack and of the scheduler.\<close>

definition kernel_timer_irq :: "kernel \<Rightarrow> kernel" where
  "kernel_timer_irq k = k\<lparr>ntime := timer_irq (ntime k), ksched := (ksched k)\<lparr>clk := timer_irq (clk (ksched k))\<rparr>\<rparr>"

text \<open>
  What an interrupt finds at the devices: the byte at the keyboard port and the frames the network card hands over,
  each with the stack address that the code mixes into initial sequence numbers. Handlers run with
  interrupts disabled.
\<close>

record hardware =
  kbd_code :: u8
  rx_frames :: "(u32 \<times> bytes) list"

definition receive_frames :: "hardware \<Rightarrow> kernel \<Rightarrow> kernel" where
  "receive_frames h k = fold (\<lambda>(ptr, f). net_handle_eth (\<lambda>_. None) ptr f) (rx_frames h) k"

definition kernel_keyboard_irq :: "u8 \<Rightarrow> kernel \<Rightarrow> kernel" where
  "kernel_keyboard_irq code k = (case keyboard_irq code (kkbd k) (nintr k) of (kb, i) \<Rightarrow> k\<lparr>kkbd := kb, nintr := i\<rparr>)"

definition isr_dispatch :: "waits \<Rightarrow> hardware \<Rightarrow> u64 \<Rightarrow> u64 \<Rightarrow> kernel \<Rightarrow> (u64 \<times> kernel) outcome" where
  "isr_dispatch w h vec c k =
     (if vec < 32
      then
        if vec = 14 \<and> reg 18 c k AND 3 = 3 then with_sched k (sched_userpf_kill c (ksched k))
        else exception_crash vec c k
      else if vec = 0x80 then syscall_handle w c k
      else if 0x20 \<le> vec \<and> vec < 0x30
      then
        if vec = 0x20
        then
          let k = pic_send_eoi 0 (net_tcp_poll_all (\<lambda>_ _. None) (receive_frames h (kernel_timer_irq k)))
          in with_sched k (sched_tick c (ksched k))
        else if vec = 0x21 then Returns (c, pic_send_eoi 1 (kernel_keyboard_irq (kbd_code h) k))
        else if vec = 0x29 \<or> vec = 0x2A \<or> vec = 0x2B \<or> vec = 0x2C
        then Returns (c, pic_send_eoi (unat (vec - 0x20)) (receive_frames h k))
        else if vec = 0x27 \<or> vec = 0x2F then Returns (c, k)
        else Returns (c, pic_send_eoi (unat (vec - 0x20)) k)
      else Returns (c, k))"



section \<open>Refused calls\<close>

text \<open>
  The calls that must fail without any effect: a number that is no system call, a pointer outside the window, a
  size above the limit of the call, a path that is not in the window or not terminated, a file descriptor that
  is no socket, no dead process to wait for, no character to read.
\<close>

definition bad_buffer :: "u64 \<Rightarrow> u64 \<Rightarrow> u64 \<Rightarrow> bool" where
  "bad_buffer a n limit \<longleftrightarrow> n > limit \<or> \<not> uaddr_ok a n"

definition bad_path :: "u64 \<Rightarrow> bool \<Rightarrow> kernel \<Rightarrow> bool" where
  "bad_path a bad k \<longleftrightarrow> user_path a (ksched k) = Inl False \<or> bad \<and> user_path a (ksched k) \<noteq> Inl True"

lemma bad_bufferE:
  assumes "bad_buffer a n limit"
  obtains "n > limit" | "\<not> uaddr_ok a n"
  using assms by (auto simp: bad_buffer_def)

lemma bad_pathE:
  assumes "bad_path a bad k"
  obtains "user_path a (ksched k) = Inl False" | path where "user_path a (ksched k) = Inr path" "bad"
proof (cases "user_path a (ksched k)")
  case (Inl b)
  then show thesis using assms that(1) by (cases b) (auto simp: bad_path_def)
qed (use assms that(2) in \<open>auto simp: bad_path_def\<close>)

definition bad_tcp :: "u64 \<Rightarrow> kernel \<Rightarrow> bool" where
  "bad_tcp a k \<longleftrightarrow> \<not> fd_ok (fd_of a) \<or> \<not> t_used (conn (nat (fd_of a)) k)"

definition sys_refused :: "u64 \<Rightarrow> kernel \<Rightarrow> bool" where
  "sys_refused c k \<longleftrightarrow>
     (let n = reg 14 c k; a0 = reg 8 c k; a1 = reg 9 c k; a2 = reg 12 c k; a3 = reg 13 c k; dlen = ucast (drop_bit 16 a2) :: u16
      in cur (ksched k) = None \<or> n = 0 \<or> n > 32
         \<or> n = 7 \<and> bad_buffer a0 a1 1024
         \<or> n = 9 \<and> \<not> uaddr_ok a0 15
         \<or> (n = 10 \<or> n = 11) \<and> bad_path a0 (bad_buffer a1 a2 2048) k
         \<or> n = 12 \<and> bad_path a0 (bad_buffer a1 a2 4096) k
         \<or> n = 13 \<and> bad_path a0 (\<not> uaddr_ok a1 40) k
         \<or> n = 15 \<and> \<not> keyboard_has_char (kkbd k) \<and> serial_rx k = []
         \<or> n = 16 \<and> find_zombie (ucast a0) (ksched k) = None
         \<or> n = 17 \<and> bad_path a0 False k
         \<or> (n = 18 \<or> n = 24) \<and> \<not> nic_is_up k
         \<or> (n = 19 \<or> n = 23) \<and> \<not> sock_ok (fd_of a0) k
         \<or> n = 20 \<and> (dlen > 1472 \<or> \<not> uaddr_ok a3 (ucast dlen))
         \<or> n = 22 \<and> (bad_buffer a1 a2 1500 \<or> a3 \<noteq> 0 \<and> \<not> uaddr_ok a3 6 \<or> \<not> sock_ok (fd_of a0) k)
         \<or> (n = 25 \<or> n = 26 \<or> n = 27) \<and> bad_tcp a0 k
         \<or> n = 28 \<and> \<not> uaddr_ok a1 (if a2 > 1500 then 1500 else a2)
         \<or> n = 31 \<and> bad_buffer a1 a2 4096)"

named_theorems sys_defs

lemmas [sys_defs] = sys_putsn_def sys_getname_def sys_fswrite_def sys_fsread_def sys_fsstat_def sys_fsgetc_def sys_wait_def sys_exec_def
  sys_udpsock_def sys_udpbind_def sys_udpsendto_def sys_udprecvfrom_def sys_udpclose_def sys_tcpsock_def sys_tcplisten_def
  sys_tcpconnect_def sys_tcpaccept_def sys_tcpsend_def sys_tcprecv_def

text \<open>
  A kernel whose process 3 runs with one page of stack, at the top, and a frame at \<open>0x8000\<close> with the number \<open>n\<close> of
  a system call and zero arguments.
\<close>

definition space_ex :: "u64 \<Rightarrow> mem" where
  "space_ex n = store64 (0x8000 + 8 * of_nat 14) n (store64 (0x4000 + 8 * of_nat 30) (0x5000 OR 7) (store64 (0x3000 + 8 * of_nat 0) (0x4000 OR 7)
     (store64 (0x2000 + 8 * of_nat 1) (0x3000 OR 7) (store64 (0x1000 + 8 * of_nat 0) (0x2000 OR 7) (\<lambda>_. 0)))))"

definition net6_ex :: net6 where
  "net6_ex = tnet.extend tnet_ex (net6.fields (replicate 16 0) False (replicate 16 0) False (replicate 16 0) 0 (replicate 16 0) False [] False False
     (replicate 16 0) (replicate 6 0) False False 0 (replicate 16 0) (replicate 16 0) False 0 0)"

definition kernel_ex :: "u64 \<Rightarrow> kernel" where
  "kernel_ex n = net6.extend net6_ex
     (kernel.fields (sched_ex\<lparr>cur := Some 3, memory := space_ex n, hw_cr3 := 0x1000\<rparr>) fs_ex elf_ex kbd_ex con_ex [] [])"

lemma kernel_ex_sched [simp]: "ksched (kernel_ex n) = sched_ex\<lparr>cur := Some 3, memory := space_ex n, hw_cr3 := 0x1000\<rparr>"
  by (simp add: kernel_ex_def net6.defs kernel.defs)

lemma space_ex_tbl:
  assumes "t \<in> {0x1000, 0x2000, 0x3000, 0x4000, 0x8000}" "j < 512"
  shows "tbl (space_ex n) t j =
     (if t = 0x8000 \<and> j = 14 then n else if t = 0x4000 \<and> j = 30 then 0x5000 OR 7 else if t = 0x3000 \<and> j = 0 then 0x4000 OR 7
      else if t = 0x2000 \<and> j = 1 then 0x3000 OR 7 else if t = 0x1000 \<and> j = 0 then 0x2000 OR 7 else 0)"
proof -
  have pg: "page t" "page 0x1000" "page 0x2000" "page 0x3000" "page 0x4000" "page 0x8000" using assms(1) by (auto simp: page_def)
  have lt: "0 < (512 :: nat)" "1 < (512 :: nat)" "14 < (512 :: nat)" "30 < (512 :: nat)" by simp_all
  have z: "tbl (\<lambda>_. 0) t j = 0" by (simp add: tbl_def load64_zero)
  show ?thesis by (simp only: space_ex_def tbl_store64 [OF _ pg(1) _ assms(2)] pg lt z)
qed

lemma reg_tbl: "reg i c k = tbl (memory (ksched k)) c i"
  by (simp add: reg_def tbl_def)

text \<open>
  C19. A system call that must be refused returns \<open>- 1\<close> in \<^verbatim>\<open>rax\<close> to the same context and changes nothing else of the
  kernel, neither the process table nor the files, the sockets, the screen or user memory.
\<close>

theorem syscall_refused:
  assumes "sys_refused c k"
  shows "syscall_handle w c k = Returns (c, k\<lparr>ksched := set_rax c (- 1) (ksched k)\<rparr>)"
proof (cases "cur (ksched k)")
  case None
  then show ?thesis by (simp add: syscall_handle_def ret_def Let_def)
next
  case (Some i)
  have big: "syscall_handle w c k = ret c (- 1) k" if "32 < reg 14 c k"
    using that by (auto simp: syscall_handle_def Let_def Some)
  have "syscall_handle w c k = ret c (- 1) k"
    using assms big unfolding sys_refused_def Let_def
    by (elim disjE conjE bad_pathE bad_bufferE; simp add: Some syscall_handle_def Let_def sys_defs bad_tcp_def
        net_udp_socket_def net_socket_def net_udp_bind_def net_udp_close_def net_udp_recv_from_def fd_ret_def ok_ret_def
        net_tcp_connect_def net_tcp_listen_def net_tcp_accept_def split: if_splits)
  then show ?thesis by (simp add: ret_def)
qed


theorem syscall_refused_witness:
  "sys_refused 0x8000 (kernel_ex 7) \<and>
   (\<forall>w. syscall_handle w 0x8000 (kernel_ex 7) = Returns (0x8000, (kernel_ex 7)\<lparr>ksched := set_rax 0x8000 (- 1) (ksched (kernel_ex 7))\<rparr>))"
proof -
  have "reg 14 0x8000 (kernel_ex 7) = 7" "reg 8 0x8000 (kernel_ex 7) = 0" by (simp_all add: reg_tbl space_ex_tbl)
  moreover have "\<not> uaddr_ok 0 n" for n by (simp add: uaddr_ok_def USER_IMG_BASE_def)
  ultimately have "sys_refused 0x8000 (kernel_ex 7)" by (simp add: sys_refused_def Let_def bad_buffer_def)
  then show ?thesis using syscall_refused by blast
qed


section \<open>Stores to user memory\<close>

lemma ustore_window:
  assumes "user_space (memory s) (hw_cr3 s) F" "0x40000000 \<le> unat a" "unat a + length bs \<le> 0x40020000" "ustore a bs s = Some s'"
  shows "(\<forall>x. \<not> in_pages F x \<longrightarrow> memory s' x = memory s x) \<and> user_space (memory s') (hw_cr3 s) F \<and> hw_cr3 s' = hw_cr3 s"
  using assms
proof (induction bs arbitrary: a s)
  case (Cons b bs)
  obtain p where p: "utrans s a = Some p" "ustore (a + 1) bs (s\<lparr>memory := (memory s)(p := b)\<rparr>) = Some s'"
    using Cons.prems(4) by (auto split: option.splits)
  have "USER_IMG_BASE \<le> a" "a < USER_WINDOW_END"
    using Cons.prems(2,3) by (auto simp: word_le_nat_alt word_less_nat_alt USER_IMG_BASE_def USER_WINDOW_END_def)
  then have ip: "in_pages F p" using user_space_mmu [OF Cons.prems(1)] p(1) by (simp add: utrans_def)
  have "unat (a + 1) = unat a + 1" using Cons.prems(3) by (simp add: unat_word_ariths)
  then have "(\<forall>x. \<not> in_pages F x \<longrightarrow> memory s' x = ((memory s)(p := b)) x) \<and> user_space (memory s') (hw_cr3 s) F \<and> hw_cr3 s' = hw_cr3 s"
    using Cons.IH [OF _ _ _ p(2)] user_space_upd [OF Cons.prems(1) ip, of b] Cons.prems(2,3) by (simp del: fun_upd_apply)
  then show ?case using ip by auto
qed simp

lemma ustore_confined:
  assumes us: "user_space (memory s) (hw_cr3 s) F" and ok: "uaddr_ok a n" "length bs \<le> unat n" and st: "ustore a bs s = Some s'"
  shows "(\<forall>x. \<not> in_pages F x \<longrightarrow> memory s' x = memory s x) \<and> user_space (memory s') (hw_cr3 s') F"
proof -
  have b: "0x40000000 \<le> unat a" "unat n \<le> 0x20000" "unat (a + n) \<le> 0x40020000"
    using ok(1) by (auto simp: uaddr_ok_def word_le_nat_alt USER_IMG_BASE_def USER_WINDOW_END_def)
  show ?thesis
  proof (cases "unat a + unat n < 2 ^ 64")
    case True
    then have "unat a + length bs \<le> 0x40020000" using b(3) ok(2) by (simp add: unat_word_ariths)
    from ustore_window [OF us b(1) this st] show ?thesis by simp
  next
    case False
    then have "mmu (memory s) (hw_cr3 s) a = None" using b(2) by (intro high_unmapped [OF us]) simp
    then have "bs = []" using st by (cases bs) (auto simp: utrans_def)
    then show ?thesis using us st by simp
  qed
qed

text \<open>\<open>kept F c k k'\<close>: memory outside the pages \<open>F\<close> is the same, the slot of \<^verbatim>\<open>rax\<close> in the frame at \<open>c\<close> apart.\<close>

definition kept :: "u64 set \<Rightarrow> u64 \<Rightarrow> kernel \<Rightarrow> kernel \<Rightarrow> bool" where
  "kept F c k k' \<longleftrightarrow> (\<forall>x. \<not> in_pages F x \<and> 8 \<le> x - (c + 112) \<longrightarrow> memory (ksched k') x = memory (ksched k) x)"

lemma ret_eq: "ret c v k1 = Returns (c', k') \<longleftrightarrow> c' = c \<and> k' = k1\<lparr>ksched := set_rax c v (ksched k1)\<rparr>"
  by (auto simp: ret_def)

lemma kept_rax:
  "(\<And>x. \<not> in_pages F x \<Longrightarrow> memory s x = memory (ksched k) x) \<Longrightarrow> kept F c k (k1\<lparr>ksched := set_rax c v s\<rparr>)"
  by (auto simp: kept_def set_rax_def store64_def)

lemma kept_same: "kept F c k (k1\<lparr>ksched := set_rax c v (ksched k)\<rparr>)"
  by (rule kept_rax) simp

lemma con_putc_sched: "ksched (fold con_putc bs k) = ksched k"
  by (induction bs arbitrary: k) (simp_all add: con_putc_def)


text \<open>The system calls that neither wait nor switch to another process.\<close>

definition sys_plain :: "u64 \<Rightarrow> bool" where
  "sys_plain n \<longleftrightarrow> n \<in> {4, 5, 6, 7, 9, 10, 11, 12, 13, 14, 15, 18, 19, 22, 23, 24, 26, 30}"

lemma read_chunks_length:
  "read_chunks ks len i d = (Some bs, d') \<Longrightarrow> length bs \<le> sum_list (map (chunk_len ((len - 1) div 512) len) ks)"
proof (induction ks arbitrary: bs d)
  case (Cons k ks)
  then show ?case by (fastforce simp: Let_def sub_bytes_def split: prod.splits option.splits)
qed simp

lemma chunks_sum: "sum_list (map (chunk_len ((len - 1) div 512) len) [0..<(len + 511) div 512]) = len"
proof (cases "len = 0")
  case False
  define l where "l = (len - 1) div 512"
  have "512 * l \<le> len - 1" by (simp add: l_def)
  then have l: "(len + 511) div 512 = Suc l" "512 * l < len" using False by (simp_all add: l_def div_add_self2 [symmetric] del: div_add_self2)
  have "map (chunk_len l len) [0..<l] = map (\<lambda>_. 512) [0..<l]" by (rule map_cong) (auto simp: chunk_len_def)
  then have "sum_list (map (chunk_len l len) [0..<l]) = 512 * l" by (simp only: sum_list_triv) (simp add: mult.commute)
  moreover have "512 * l + chunk_len l len l = len" using l(2) by (simp add: chunk_len_def)
  ultimately show ?thesis unfolding l_def [symmetric] l(1) by simp
qed simp

lemma read_file_length: "read_file bs0 path n d = (Some bs, d') \<Longrightarrow> length bs \<le> n"
  using chunks_sum read_chunks_length
  by (fastforce simp: read_file_def read_inode_def Let_def split: if_splits prod.splits option.splits)

lemma plain_sockets:
  "ksched (snd (net_udp_socket k)) = ksched k" "ksched (snd (net_udp_bind fd port k)) = ksched k" "ksched (snd (net_udp_close fd k)) = ksched k"
  "ksched (snd (net_socket k)) = ksched k" "ksched (snd (net_tcp_listen fd port k)) = ksched k" "ksched (snd (snd (net_udp_recv_from fd cap k))) = ksched k"
  by (simp_all add: net_udp_socket_def udp_sock_alloc_def upd_sock_def net_udp_bind_def net_udp_close_def net_socket_def sock_reset_def upd_conn_def
      net_tcp_listen_def net_udp_recv_from_def Let_def split: option.splits prod.splits)

lemma recv_from_length:
  assumes "net_udp_recv_from fd cap k = (n, Some (bs, ip, port), k')"
  shows "length bs \<le> unat cap"
proof -
  obtain d u where p: "udp_pop (udp_socks k ! nat fd) = Some (d, u)"
    using assms by (auto simp: net_udp_recv_from_def split: option.splits if_splits)
  then have d: "bs = take (unat (if cap < ucast (dg_len d) then ucast cap else dg_len d)) (dg_data d)"
    using assms by (auto simp: net_udp_recv_from_def Let_def split: if_splits)
  have "unat (ucast cap :: u16) \<le> unat cap" "unat (ucast (dg_len d) :: u32) = unat (dg_len d)"
    by (simp_all add: unsigned_ucast_eq take_bit_nat_less_eq_self) (simp add: take_bit_nat_eq_self less_trans [OF unsigned_less])
  then show ?thesis by (auto simp: d word_less_nat_alt)
qed

lemma sys_fsstat_kept:
  assumes "sys_fsstat c a0 a1 k = Returns (c', k')" "user_space (memory (ksched k)) (hw_cr3 (ksched k)) F" "a1 \<le> USER_WINDOW_END"
  shows "c' = c \<and> kept F c k k'"
proof -
  have "kept F c k (k1\<lparr>ksched := set_rax c v s\<rparr>)" if ok: "uaddr_ok a1 40" "length (ei_name st) \<le> 32"
    and st: "Option.bind (ustore (a1 + 32) [ei_type st] (ksched k)) (\<lambda>s. Option.bind (ustore (a1 + 36) (le32 (ei_size st)) s) (ustore a1 (ei_name st))) = Some s" for st s k1 v
  proof -
    have b: "0x40000000 \<le> unat a1" "unat a1 + 40 \<le> 0x40020000"
      using ok(1) assms(3) by (auto simp: uaddr_ok_def word_le_nat_alt USER_IMG_BASE_def USER_WINDOW_END_def unat_word_ariths)
    have p: "unat (a1 + 32) = unat a1 + 32" "unat (a1 + 36) = unat a1 + 36" using b(2) by (simp_all add: unat_word_ariths)
    obtain s1 s2 where s12: "ustore (a1 + 32) [ei_type st] (ksched k) = Some s1" "ustore (a1 + 36) (le32 (ei_size st)) s1 = Some s2"
      "ustore a1 (ei_name st) s2 = Some s" using st by (auto simp: bind_eq_Some_conv)
    note w1 = ustore_window [OF assms(2) _ _ s12(1)]
    have u1: "user_space (memory s1) (hw_cr3 s1) F" "\<And>x. \<not> in_pages F x \<Longrightarrow> memory s1 x = memory (ksched k) x" using w1 b p by simp_all
    have u2: "user_space (memory s2) (hw_cr3 s2) F" "\<And>x. \<not> in_pages F x \<Longrightarrow> memory s2 x = memory s1 x"
      using ustore_window [OF u1(1) _ _ s12(2)] b p by (simp_all add: le32_def)
    have "\<And>x. \<not> in_pages F x \<Longrightarrow> memory s x = memory s2 x" using ustore_window [OF u2(1) _ _ s12(3)] b ok(2) by simp
    then show ?thesis using u1(2) u2(2) by (intro kept_rax) simp
  qed
  moreover have "length (ei_name st) \<le> 32" if "fs_stat 0 path (kfs k) = (Some st, d)" for path st d
    using that by (auto simp: fs_stat_def name_field_def split: if_splits prod.splits option.splits)
  ultimately show ?thesis using assms(1)
    by (auto simp: sys_fsstat_def ret_eq kept_same simp del: ustore.simps split: sum.splits bool.splits if_splits option.splits prod.splits) blast
qed

lemma ustore_append: "ustore a (xs @ ys) s = Option.bind (ustore a xs s) (ustore (a + of_nat (length xs)) ys)"
  by (induction xs arbitrary: a s) (simp_all add: algebra_simps split: option.split)

lemma udp_meta_confined:
  assumes "user_space (memory s) (hw_cr3 s) F" "a3 \<noteq> 0 \<longrightarrow> uaddr_ok a3 6" "udp_meta a3 ip port s = Some s'"
  shows "\<forall>x. \<not> in_pages F x \<longrightarrow> memory s' x = memory s x"
proof (cases "a3 = 0")
  case True
  then show ?thesis using assms(3) by (simp add: udp_meta_def)
next
  case False
  then have "ustore a3 (le32 ip @ [ucast port, ucast (drop_bit 8 port)]) s = Some s'"
    using assms(3) by (simp only: udp_meta_def ustore_append if_False) (simp add: le32_def)
  from ustore_confined [OF assms(1) _ _ this, of 6] show ?thesis using assms(2) False by (simp add: le32_def)
qed

lemma sys_udprecvfrom_kept:
  assumes "sys_udprecvfrom c a0 a1 a2 a3 k = Returns (c', k')" "user_space (memory (ksched k)) (hw_cr3 (ksched k)) F"
  shows "c' = c \<and> kept F c k k'"
proof -
  obtain n got k1 where r: "net_udp_recv_from (fd_of a0) (ucast a2) k = (n, got, k1)" by (metis prod_cases3)
  have k1: "ksched k1 = ksched k" using plain_sockets(6) [of "fd_of a0" "ucast a2" k] r by simp
  show ?thesis
  proof (cases "\<not> uaddr_ok a1 a2 \<or> a2 > 1500 \<or> a3 \<noteq> 0 \<and> \<not> uaddr_ok a3 6 \<or> n < 0")
    case True
    then show ?thesis using assms(1) by (auto simp: sys_udprecvfrom_def r k1 ret_eq kept_same split: if_splits)
  next
    case False
    obtain bs ip port where g: "(case got of None \<Rightarrow> ([], 0, 0) | Some d \<Rightarrow> d) = (bs, ip, port)" by (metis prod_cases3)
    obtain s1 s2 where s: "ustore a1 bs (ksched k) = Some s1" "udp_meta a3 ip port s1 = Some s2" "ret c (of_int n) (k1\<lparr>ksched := s2\<rparr>) = Returns (c', k')"
      using assms(1) False k1 by (auto simp: sys_udprecvfrom_def r g bind_eq_Some_conv split: if_splits option.splits)
    have "unat (ucast a2 :: u32) = unat a2" using False by (simp add: unsigned_ucast_eq take_bit_nat_eq_self word_le_nat_alt not_less)
    then have "length bs \<le> unat a2" using g recv_from_length [of "fd_of a0" "ucast a2" k] r by (auto split: option.splits)
    with ustore_confined [OF assms(2) _ _ s(1)] False
    have u1: "user_space (memory s1) (hw_cr3 s1) F" "\<And>x. \<not> in_pages F x \<Longrightarrow> memory s1 x = memory (ksched k) x" by auto
    have "\<And>x. \<not> in_pages F x \<Longrightarrow> memory s2 x = memory s1 x" using udp_meta_confined [OF u1(1) _ s(2)] False by blast
    then show ?thesis using u1(2) s(3) by (auto simp: ret_eq intro!: kept_rax)
  qed
qed

lemma sys_fsread_kept:
  assumes "sys_fsread c a0 a1 a2 k = Returns (c', k')" "user_space (memory (ksched k)) (hw_cr3 (ksched k)) F"
  shows "c' = c \<and> kept F c k k'"
proof -
  have "kept F c k (k1\<lparr>ksched := set_rax c v s\<rparr>)"
    if "uaddr_ok a1 a2" "read_file 0 path (unat a2) (kfs k) = (Some bs, d)" "ustore a1 bs (ksched k) = Some s" for path bs d s k1 v
    using ustore_confined [OF assms(2) that(1) read_file_length [OF that(2)] that(3)] by (intro kept_rax) blast
  then show ?thesis using assms(1)
    by (auto simp: sys_fsread_def ret_eq kept_same split: sum.splits bool.splits if_splits option.splits prod.splits)
qed

lemma sys_fswrite_kept:
  "sys_fswrite app c a0 a1 a2 k = Returns (c', k') \<Longrightarrow> c' = c \<and> kept F c k k'"
  by (auto simp: sys_fswrite_def ret_eq kept_same split: sum.splits bool.splits if_splits option.splits prod.splits)


lemma sys_plain_kept:
  "sys_putsn c a0 a1 k = Returns (c', k') \<Longrightarrow> c' = c \<and> kept F c k k'" "sys_putc c a0 k = Returns (c', k') \<Longrightarrow> c' = c \<and> kept F c k k'"
  "sys_getch c k = Returns (c', k') \<Longrightarrow> c' = c \<and> kept F c k k'" "sys_fsgetc c k = Returns (c', k') \<Longrightarrow> c' = c \<and> kept F c k k'"
  "sys_udpsock c k = Returns (c', k') \<Longrightarrow> c' = c \<and> kept F c k k'" "sys_udpbind c a0 a1 k = Returns (c', k') \<Longrightarrow> c' = c \<and> kept F c k k'"
  "sys_udpclose c a0 k = Returns (c', k') \<Longrightarrow> c' = c \<and> kept F c k k'" "sys_tcpsock c k = Returns (c', k') \<Longrightarrow> c' = c \<and> kept F c k k'"
  "sys_tcplisten c a0 a1 k = Returns (c', k') \<Longrightarrow> c' = c \<and> kept F c k k'"
  by (auto simp: sys_putsn_def sys_putc_def sys_getch_def sys_fsgetc_def sys_udpsock_def sys_udpbind_def sys_udpclose_def sys_tcpsock_def
      sys_tcplisten_def serial_getc_def con_putc_def con_putc_sched plain_sockets case_prod_beta ret_eq kept_same
      split: if_splits option.splits list.splits intro!: kept_rax)


lemma space_ex_user: "user_space (space_ex n) 0x1000 {0x5000}"
proof -
  have pg: "page 0x1000" "page 0x2000" "page 0x3000" "page 0x4000" "page 0x5000" by (simp_all add: page_def)
  have e: "tbl (space_ex n) 0x4000 j AND 0x000FFFFFFFFFF000 = 0x5000" if "j < 32" "bit (tbl (space_ex n) 0x4000 j) 0" for j
    using that by (simp add: space_ex_tbl split: if_splits)
  show ?thesis unfolding user_space_def
    by (rule exI [of _ "0x2000"], rule exI [of _ "0x3000"], rule exI [of _ "0x4000"]) (simp add: pg e space_ex_tbl)
qed

text \<open>
  The check of pointers knows nothing of the page tables: the guard page above the stack passes it, and the access of
  the kernel to a page that is not mapped stops the machine instead of the process.
\<close>

lemma guard_page_halts: "uaddr_ok 0x4001F000 1 \<and> sys_putsn c 0x4001F000 1 (kernel_ex n) = Halts"
proof -
  have pg: "page 0x1000" "page 0x2000" "page 0x3000" "page 0x4000" by (simp_all add: page_def)
  have "mmu (space_ex n) 0x1000 (0x40000000 + of_nat (4096 * 31 + 0)) = None"
    by (subst mmu_window [OF pg]) (simp_all add: space_ex_tbl)
  then have "\<not> umapped 0x4001F000 1 (ksched (kernel_ex n))" by (simp add: umapped_def utrans_def)
  then show ?thesis by (simp add: sys_putsn_def uload_def uaddr_ok_def USER_IMG_BASE_def USER_WINDOW_END_def)
qed


end
