(* ===== verification/Device.thy ===== *)
theory Device
  imports Bytes "HOL-Library.State_Monad"
begin

text \<open>
  Access to devices, \<^verbatim>\<open>include/x86.h\<close>. What a device does is not in the source: it is the argument \<open>'s io\<close>
  of every driver operation, one function per port instruction on the state \<open>'s\<close> that driver, memory and
  device share. Operations that read and write ports in a row are state monads, so that they read
  like the code. Theorems on drivers name the behaviour they rely on as a hypothesis; \<open>reads_as\<close> is the one
  that all of them share.
\<close>

record 's io =
  in8 :: "u16 \<Rightarrow> 's \<Rightarrow> u8 \<times> 's"
  in16 :: "u16 \<Rightarrow> 's \<Rightarrow> u16 \<times> 's"
  in32 :: "u16 \<Rightarrow> 's \<Rightarrow> u32 \<times> 's"
  out8 :: "u16 \<Rightarrow> u8 \<Rightarrow> 's \<Rightarrow> 's"
  out16 :: "u16 \<Rightarrow> u16 \<Rightarrow> 's \<Rightarrow> 's"
  out32 :: "u16 \<Rightarrow> u32 \<Rightarrow> 's \<Rightarrow> 's"

definition io_inb :: "('s, 'z) io_scheme \<Rightarrow> u16 \<Rightarrow> ('s, u8) state" where
  "io_inb io p = State (in8 io p)"

definition io_inw :: "('s, 'z) io_scheme \<Rightarrow> u16 \<Rightarrow> ('s, u16) state" where
  "io_inw io p = State (in16 io p)"

definition io_inl :: "('s, 'z) io_scheme \<Rightarrow> u16 \<Rightarrow> ('s, u32) state" where
  "io_inl io p = State (in32 io p)"

definition io_outb :: "('s, 'z) io_scheme \<Rightarrow> u16 \<Rightarrow> u8 \<Rightarrow> ('s, unit) state" where
  "io_outb io p v = State_Monad.update (out8 io p v)"

definition io_outw :: "('s, 'z) io_scheme \<Rightarrow> u16 \<Rightarrow> u16 \<Rightarrow> ('s, unit) state" where
  "io_outw io p v = State_Monad.update (out16 io p v)"

definition io_outl :: "('s, 'z) io_scheme \<Rightarrow> u16 \<Rightarrow> u32 \<Rightarrow> ('s, unit) state" where
  "io_outl io p v = State_Monad.update (out32 io p v)"

definition io_wait :: "('s, 'z) io_scheme \<Rightarrow> ('s, unit) state" where
  "io_wait io = io_outb io 0x80 0"

abbreviation done_with :: "'a \<Rightarrow> ('s, 'a) state" where
  "done_with \<equiv> State_Monad.return"

text \<open>\<^verbatim>\<open>for (i = 0; i < n; i++) body\<close>\<close>

primrec repeat_state :: "nat \<Rightarrow> ('s, unit) state \<Rightarrow> ('s, unit) state" where
  "repeat_state 0 m = done_with ()"
| "repeat_state (Suc n) m = do { m; repeat_state n m }"

named_theorems device_simps \<open>running of port accesses\<close>

lemma run_state_update [simp]: "run_state (State_Monad.update f) s = ((), f s)"
  by (simp add: State_Monad.update_def)

lemma run_state_ports [device_simps]:
  "run_state (io_inb io p) s = in8 io p s"
  "run_state (io_inw io p) s = in16 io p s"
  "run_state (io_inl io p) s = in32 io p s"
  "run_state (io_outb io p b) s = ((), out8 io p b s)"
  "run_state (io_outw io p w) s = ((), out16 io p w s)"
  "run_state (io_outl io p v) s = ((), out32 io p v s)"
  "run_state (io_wait io) s = ((), out8 io 0x80 0 s)"
  by (simp_all add: io_inb_def io_inw_def io_inl_def io_outb_def io_outw_def io_outl_def io_wait_def)

text \<open>Run from a state of \<open>D\<close>, \<open>m\<close> returns \<open>v\<close> in a state of \<open>D\<close>.\<close>

definition reads_as :: "'s set \<Rightarrow> ('s, 'a) state \<Rightarrow> 'a \<Rightarrow> bool" where
  "reads_as D m v \<longleftrightarrow> (\<forall>s \<in> D. fst (run_state m s) = v \<and> snd (run_state m s) \<in> D)"

lemma reads_asD: "reads_as D m v \<Longrightarrow> s \<in> D \<Longrightarrow> \<exists>s'. run_state m s = (v, s') \<and> s' \<in> D"
  by (metis prod.collapse reads_as_def)

lemma reads_as_bind: "reads_as D m v \<Longrightarrow> reads_as D (f v) w \<Longrightarrow> reads_as D (m \<bind> f) w"
  by (auto simp: reads_as_def split: prod.splits)

lemma reads_as_return: "reads_as D (done_with v) v"
  by (simp add: reads_as_def)

end
