(* ===== verification/Pci.thy ===== *)
theory Pci
  imports Device
begin

text \<open>
  The PCI bus, \<^verbatim>\<open>kernel/pci.cpp\<close>: configuration space behind the ports \<^verbatim>\<open>0xCF8\<close> and \<^verbatim>\<open>0xCFC\<close>, the scan of the 32
  slots of bus 0 and the table of what it finds. The lines that the scan prints are left out. A scan is
  shown to list exactly the slots that answer, in order.
\<close>

record pci_device =
  bus :: u8
  slot :: u8
  func :: u8
  vendor_id :: u16
  device_id :: u16
  class_code :: u8
  sub_class :: u8
  irq_line :: u8
  bar0 :: u32
  bar1 :: u32

record pci =
  devices :: "pci_device list"
  device_count :: nat

definition pci_address :: "u8 \<Rightarrow> u8 \<Rightarrow> u8 \<Rightarrow> u8 \<Rightarrow> u32" where
  "pci_address b sl fn off =
     0x80000000 OR push_bit 16 (ucast b) OR push_bit 11 (ucast sl) OR push_bit 8 (ucast fn) OR ucast (off AND 0xFC)"

definition pci_read_config :: "('s, 'z) io_scheme \<Rightarrow> u8 \<Rightarrow> u8 \<Rightarrow> u8 \<Rightarrow> u8 \<Rightarrow> ('s, u32) state" where
  "pci_read_config io b sl fn off = do { io_outl io 0xCF8 (pci_address b sl fn off); io_inl io 0xCFC }"

definition pci_write_config :: "('s, 'z) io_scheme \<Rightarrow> u8 \<Rightarrow> u8 \<Rightarrow> u8 \<Rightarrow> u8 \<Rightarrow> u32 \<Rightarrow> ('s, unit) state" where
  "pci_write_config io b sl fn off v = do { io_outl io 0xCF8 (pci_address b sl fn off); io_outl io 0xCFC v }"

definition pci_set_bus_master :: "('s, 'z) io_scheme \<Rightarrow> u8 \<Rightarrow> u8 \<Rightarrow> u8 \<Rightarrow> ('s, unit) state" where
  "pci_set_bus_master io b sl fn =
     do { cmd \<leftarrow> pci_read_config io b sl fn 0x04; pci_write_config io b sl fn 0x04 (cmd OR 0x0004) }"

definition pci_entry :: "u8 \<Rightarrow> u32 \<Rightarrow> u32 \<Rightarrow> u32 \<Rightarrow> u32 \<Rightarrow> u32 \<Rightarrow> pci_device" where
  "pci_entry sl ident cc b0 b1 il =
     \<lparr>bus = 0, slot = sl, func = 0, vendor_id = ucast (ident AND 0xFFFF), device_id = ucast (drop_bit 16 ident),
      class_code = ucast (drop_bit 24 cc), sub_class = ucast (drop_bit 16 cc), irq_line = ucast (il AND 0xFF), bar0 = b0, bar1 = b1\<rparr>"

text \<open>One pass of the loop over the slots of bus 0; it tells whether the table is full.\<close>

definition scan_slot :: "'a pci_scheme io \<Rightarrow> u8 \<Rightarrow> ('a pci_scheme, bool) state" where
  "scan_slot io sl =
     do { ident \<leftarrow> pci_read_config io 0 sl 0 0;
          if ident = 0xFFFFFFFF then done_with False
          else do {
            cc \<leftarrow> pci_read_config io 0 sl 0 0x08;
            b0 \<leftarrow> pci_read_config io 0 sl 0 0x10;
            b1 \<leftarrow> pci_read_config io 0 sl 0 0x14;
            il \<leftarrow> pci_read_config io 0 sl 0 0x3C;
            s \<leftarrow> State_Monad.get;
            State_Monad.set (s\<lparr>devices := (devices s)[device_count s := pci_entry sl ident cc b0 b1 il],
                               device_count := device_count s + 1\<rparr>);
            done_with (32 \<le> device_count s + 1) } }"

primrec scan_slots :: "'a pci_scheme io \<Rightarrow> u8 list \<Rightarrow> ('a pci_scheme, unit) state" where
  "scan_slots io [] = done_with ()"
| "scan_slots io (sl # sls) = do { full \<leftarrow> scan_slot io sl; if full then done_with () else scan_slots io sls }"

definition pci_scan :: "'a pci_scheme io \<Rightarrow> ('a pci_scheme, nat) state" where
  "pci_scan io =
     do { State_Monad.update (\<lambda>s. s\<lparr>device_count := 0\<rparr>);
          scan_slots io (map of_nat [0..<32]);
          s \<leftarrow> State_Monad.get;
          done_with (device_count s) }"

definition pci_find :: "u16 \<Rightarrow> u16 \<Rightarrow> 'a pci_scheme \<Rightarrow> nat option" where
  "pci_find vendor device s =
     find_from (\<lambda>i. vendor_id (devices s ! i) = vendor \<and> device_id (devices s ! i) = device) 0 (device_count s)"

definition pci_get :: "int \<Rightarrow> 'a pci_scheme \<Rightarrow> pci_device option" where
  "pci_get index s = (if index < 0 \<or> int (device_count s) \<le> index then None else Some (devices s ! nat index))"


section \<open>The scan\<close>

text \<open>
  From every state of \<open>D\<close> the bus answers configuration reads from \<open>cfg\<close>, and neither the bus nor the table
  disturbs the other.
\<close>

definition pci_answers :: "'a pci_scheme set \<Rightarrow> 'a pci_scheme io \<Rightarrow> (u8 \<Rightarrow> u8 \<Rightarrow> u32) \<Rightarrow> bool" where
  "pci_answers D io cfg \<longleftrightarrow>
     (\<forall>s \<in> D. \<forall>sl off. \<exists>s' \<in> D. run_state (pci_read_config io 0 sl 0 off) s = (cfg sl off, s')
        \<and> devices s' = devices s \<and> device_count s' = device_count s)
     \<and> (\<forall>s \<in> D. \<forall>ds n. s\<lparr>devices := ds, device_count := n\<rparr> \<in> D)"

definition cfg_entry :: "(u8 \<Rightarrow> u8 \<Rightarrow> u32) \<Rightarrow> u8 \<Rightarrow> pci_device" where
  "cfg_entry cfg sl = pci_entry sl (cfg sl 0) (cfg sl 0x08) (cfg sl 0x10) (cfg sl 0x14) (cfg sl 0x3C)"

definition answering :: "(u8 \<Rightarrow> u8 \<Rightarrow> u32) \<Rightarrow> u8 list \<Rightarrow> u8 list" where
  "answering cfg sls = filter (\<lambda>sl. cfg sl 0 \<noteq> 0xFFFFFFFF) sls"

definition found :: "'a pci_scheme \<Rightarrow> pci_device list" where
  "found s = take (device_count s) (devices s)"

lemma pci_answersD:
  "pci_answers D io cfg \<Longrightarrow> s \<in> D \<Longrightarrow>
     \<exists>s' \<in> D. run_state (pci_read_config io 0 sl 0 off) s = (cfg sl off, s') \<and> devices s' = devices s \<and> device_count s' = device_count s"
  "pci_answers D io cfg \<Longrightarrow> s \<in> D \<Longrightarrow> s\<lparr>devices := ds, device_count := n\<rparr> \<in> D"
  "pci_answers D io cfg \<Longrightarrow> s \<in> D \<Longrightarrow> s\<lparr>device_count := n\<rparr> \<in> D"
  unfolding pci_answers_def by blast (blast, metis pci.surjective pci.update_convs(1,2))

lemma scan_slot_correct:
  assumes a: "pci_answers D io cfg" and s: "s \<in> D" and n: "device_count s < length (devices s)"
  shows "\<exists>s' \<in> D. run_state (scan_slot io sl) s = (cfg sl 0 \<noteq> 0xFFFFFFFF \<and> 31 \<le> device_count s, s') \<and>
      length (devices s') = length (devices s) \<and>
      device_count s' = device_count s + (if cfg sl 0 \<noteq> 0xFFFFFFFF then 1 else 0) \<and>
      found s' = found s @ (if cfg sl 0 \<noteq> 0xFFFFFFFF then [cfg_entry cfg sl] else [])"
proof -
  obtain s1 where s1: "s1 \<in> D" "run_state (pci_read_config io 0 sl 0 0) s = (cfg sl 0, s1)" "devices s1 = devices s"
      "device_count s1 = device_count s" using pci_answersD(1) [OF a s] by blast
  show ?thesis
  proof (cases "cfg sl 0 = 0xFFFFFFFF")
    case True
    then show ?thesis using s1 by (auto simp: scan_slot_def found_def)
  next
    case False
    obtain s2 where s2: "s2 \<in> D" "run_state (pci_read_config io 0 sl 0 0x08) s1 = (cfg sl 0x08, s2)" "devices s2 = devices s1"
        "device_count s2 = device_count s1" using pci_answersD(1) [OF a s1(1)] by blast
    obtain s3 where s3: "s3 \<in> D" "run_state (pci_read_config io 0 sl 0 0x10) s2 = (cfg sl 0x10, s3)" "devices s3 = devices s2"
        "device_count s3 = device_count s2" using pci_answersD(1) [OF a s2(1)] by blast
    obtain s4 where s4: "s4 \<in> D" "run_state (pci_read_config io 0 sl 0 0x14) s3 = (cfg sl 0x14, s4)" "devices s4 = devices s3"
        "device_count s4 = device_count s3" using pci_answersD(1) [OF a s3(1)] by blast
    obtain s5 where s5: "s5 \<in> D" "run_state (pci_read_config io 0 sl 0 0x3C) s4 = (cfg sl 0x3C, s5)" "devices s5 = devices s4"
        "device_count s5 = device_count s4" using pci_answersD(1) [OF a s4(1)] by blast
    let ?s = "s5\<lparr>devices := (devices s5)[device_count s5 := cfg_entry cfg sl], device_count := device_count s5 + 1\<rparr>"
    have "run_state (scan_slot io sl) s = (32 \<le> device_count s + 1, ?s)"
      using False s1 s2 s3 s4 s5 by (simp add: scan_slot_def cfg_entry_def)
    moreover have "?s \<in> D" using pci_answersD(2) [OF a s5(1)] by blast
    moreover have "found ?s = found s @ [cfg_entry cfg sl]"
      using n s1 s2 s3 s4 s5 by (simp add: found_def take_Suc_conv_app_nth)
    ultimately show ?thesis using False s1 s2 s3 s4 s5 by (intro bexI [of _ ?s]) auto
  qed
qed

lemma scan_slots_correct:
  assumes "pci_answers D io cfg" "s \<in> D" "length (devices s) = 32" "device_count s + length sls \<le> 32"
  shows "\<exists>s' \<in> D. run_state (scan_slots io sls) s = ((), s') \<and> length (devices s') = 32 \<and>
      device_count s' \<le> device_count s + length sls \<and> found s' = found s @ map (cfg_entry cfg) (answering cfg sls)"
  using assms
proof (induction sls arbitrary: s)
  case Nil
  then show ?case by (auto simp: answering_def)
next
  case (Cons sl sls)
  have n: "device_count s < length (devices s)" using Cons.prems by simp
  obtain s1 where s1: "s1 \<in> D" "run_state (scan_slot io sl) s = (cfg sl 0 \<noteq> 0xFFFFFFFF \<and> 31 \<le> device_count s, s1)"
      "length (devices s1) = 32" "device_count s1 = device_count s + (if cfg sl 0 \<noteq> 0xFFFFFFFF then 1 else 0)"
      "found s1 = found s @ (if cfg sl 0 \<noteq> 0xFFFFFFFF then [cfg_entry cfg sl] else [])"
    using scan_slot_correct [OF Cons.prems(1,2) n, of sl] Cons.prems(3) by auto
  show ?case
  proof (cases "cfg sl 0 \<noteq> 0xFFFFFFFF \<and> 31 \<le> device_count s")
    case True
    then have "sls = []" using Cons.prems(4) by (cases sls) auto
    with True s1 show ?thesis by (auto simp: answering_def)
  next
    case False
    have "device_count s1 + length sls \<le> 32" using s1(4) Cons.prems(4) by auto
    from Cons.IH [OF Cons.prems(1) s1(1) s1(3) this] obtain s' where s': "s' \<in> D" "run_state (scan_slots io sls) s1 = ((), s')"
      "length (devices s') = 32" "device_count s' \<le> device_count s1 + length sls"
      "found s' = found s1 @ map (cfg_entry cfg) (answering cfg sls)" by blast
    have "device_count s' \<le> device_count s + length (sl # sls)" using s'(4) s1(4) by (auto split: if_splits)
    then show ?thesis using False s1(2,5) s' by (intro bexI [of _ s']) (auto simp: answering_def)
  qed
qed

text \<open>
  On a bus that answers configuration reads, \<open>pci_scan\<close> ends with a table of exactly the slots of bus 0 that
  hold a device, in the order of their numbers and each with the identification, class, base
  addresses and interrupt line it announces, and returns their number. Afterwards \<open>pci_get\<close> gives the
  entries by index and refuses every other index, and \<open>pci_find\<close> gives the first entry with the
  vendor and device it is asked for.
\<close>

theorem pci_scan_correct:
  assumes a: "pci_answers D io cfg" and s: "s \<in> D" and len: "length (devices s) = 32"
  shows "\<exists>n s'. run_state (pci_scan io) s = (n, s') \<and> s' \<in> D \<and>
      (let ds = map (cfg_entry cfg) (answering cfg (map of_nat [0..<32]))
       in n = length ds \<and> n \<le> 32
          \<and> (\<forall>i. pci_get i s' = (if 0 \<le> i \<and> nat i < n then Some (ds ! nat i) else None))
          \<and> (\<forall>v d. pci_find v d s' = find_from (\<lambda>i. vendor_id (ds ! i) = v \<and> device_id (ds ! i) = d) 0 n))"
proof -
  let ?sls = "map of_nat [0..<32] :: u8 list" and ?s = "s\<lparr>device_count := 0\<rparr>"
  let ?ds = "map (cfg_entry cfg) (answering cfg ?sls)"
  have D: "?s \<in> D" using pci_answersD(3) [OF a s] by blast
  obtain s' where s': "s' \<in> D" "run_state (scan_slots io ?sls) ?s = ((), s')" "length (devices s') = 32"
      "device_count s' \<le> 32" "found s' = ?ds"
    using scan_slots_correct [OF a D, of ?sls] len by (auto simp: found_def)
  have n: "length ?ds = device_count s'" using s'(3,4,5) unfolding found_def by (metis length_take min.absorb2)
  have nth: "devices s' ! i = ?ds ! i" if "i < device_count s'" for i using s'(5) that unfolding found_def by (metis nth_take)
  have run: "run_state (pci_scan io) s = (device_count s', s')" using s'(2) by (simp add: pci_scan_def)
  have get: "pci_get i s' = (if 0 \<le> i \<and> nat i < device_count s' then Some (?ds ! nat i) else None)" for i
    by (auto simp: pci_get_def nth)
  have find: "pci_find v d s' = find_from (\<lambda>i. vendor_id (?ds ! i) = v \<and> device_id (?ds ! i) = d) 0 (device_count s')" for v d
    unfolding pci_find_def by (rule find_from_cong) (simp add: nth)
  show ?thesis using run s'(1,4) n get find unfolding Let_def by (intro exI [of _ "device_count s'"] exI [of _ s']) simp
qed

text \<open>A bus with a network card in slot 3.\<close>

record pci_bus = pci +
  address :: u32

definition cfg_ex :: "u8 \<Rightarrow> u8 \<Rightarrow> u32" where
  "cfg_ex sl off =
     (if sl AND 31 = 3
      then if off AND 0xFC = 0 then 0x813910EC else if off AND 0xFC = 0x08 then 0x02000010
           else if off AND 0xFC = 0x10 then 0xC001 else if off AND 0xFC = 0x3C then 0x10B else 0
      else 0xFFFFFFFF)"

definition pci_ex_io :: "pci_bus io" where
  "pci_ex_io =
     \<lparr>in8 = (\<lambda>p s. (0, s)), in16 = (\<lambda>p s. (0, s)),
      in32 = (\<lambda>p s. (cfg_ex (ucast (drop_bit 11 (address s))) (ucast (address s)), s)),
      out8 = (\<lambda>p v s. s), out16 = (\<lambda>p v s. s), out32 = (\<lambda>p v s. if p = 0xCF8 then s\<lparr>address := v\<rparr> else s)\<rparr>"

definition pci_ex :: pci_bus where
  "pci_ex = \<lparr>devices = replicate 32 (pci_entry 0 0 0 0 0 0), device_count = 7, address = 0\<rparr>"

lemma pci_ex_answers: "pci_answers UNIV pci_ex_io cfg_ex"
proof -
  have sl: "ucast (drop_bit 11 (pci_address 0 sl 0 off)) AND 31 = sl AND (31 :: u8)" for sl off
  proof (rule bit_word_eqI)
    fix i assume "i < LENGTH(8)"
    then have "i \<in> {0, 1, 2, 3, 4, 5, 6, 7}" by auto
    then show "bit (ucast (drop_bit 11 (pci_address 0 sl 0 off)) AND 31 :: u8) i \<longleftrightarrow> bit (sl AND 31) i"
      by (auto simp: pci_address_def bit_simps)
  qed
  have off: "ucast (pci_address 0 sl 0 off) AND 0xFC = off AND (0xFC :: u8)" for sl off
  proof (rule bit_word_eqI)
    fix i assume "i < LENGTH(8)"
    then have "i \<in> {0, 1, 2, 3, 4, 5, 6, 7}" by auto
    then show "bit (ucast (pci_address 0 sl 0 off) AND 0xFC :: u8) i \<longleftrightarrow> bit (off AND 0xFC) i"
      by (auto simp: pci_address_def bit_simps)
  qed
  show ?thesis
    by (simp add: pci_answers_def pci_read_config_def device_simps pci_ex_io_def cfg_ex_def sl off)
qed

theorem pci_scan_correct_witness:
  "\<exists>s'. run_state (pci_scan pci_ex_io) pci_ex = (1, s') \<and> pci_find 0x10EC 0x8139 s' = Some 0 \<and> pci_get 1 s' = None
      \<and> map_option irq_line (pci_get 0 s') = Some 11"
proof -
  have ds: "map (cfg_entry cfg_ex) (answering cfg_ex (map of_nat [0..<32])) = [cfg_entry cfg_ex 3]" by code_simp
  have dev: "vendor_id (cfg_entry cfg_ex 3) = 0x10EC" "device_id (cfg_entry cfg_ex 3) = 0x8139" "irq_line (cfg_entry cfg_ex 3) = 11"
    by code_simp+
  have len: "length (devices pci_ex) = 32" by (simp add: pci_ex_def)
  have "find_from (\<lambda>i. vendor_id ([cfg_entry cfg_ex 3] ! i) = 0x10EC \<and> device_id ([cfg_entry cfg_ex 3] ! i) = 0x8139) 0 1 = Some 0"
    by (subst find_from.simps) (simp add: dev)
  then show ?thesis using pci_scan_correct [OF pci_ex_answers UNIV_I len] dev(3) by (auto simp: ds Let_def)
qed

end
