(* ===== verification/Rtl8139.thy ===== *)
theory Rtl8139
  imports Pci Pmm
begin

text \<open>
  The driver of the RTL8139 network card, \<^verbatim>\<open>kernel/rtl8139.cpp\<close>: the serial EEPROM, start-up, the receive ring
  of 64 KB, the four transmit slots, the multicast filter and the interrupt handler. The card is the
  argument \<open>hw\<close>, acting on its own state \<open>dev\<close>: its ports and the receive ring it writes (\<open>rx_mem\<close>). Frames
  handed to \<^verbatim>\<open>net_handle_eth\<close> are collected in \<open>delivered\<close>; log lines are left out.
\<close>

section \<open>State and registers\<close>

record 'd rtl_hw = "'d io" +
  rx_mem :: "'d \<Rightarrow> bytes"
  rx_zero :: "'d \<Rightarrow> 'd"

record 'd rtl =
  dev :: 'd
  nic_frames :: pmm
  nic_irq_line :: int
  iobase :: u16
  mac :: bytes
  rx_addr :: u64
  rx_cur :: u32
  tx_addr :: "u64 list"
  tx_bufs :: "bytes list"
  cur_tx :: u32
  dirty_tx :: u32
  up :: bool
  promisc :: bool
  mcast :: "bytes list"
  mcast_n :: nat
  st_rx_ok :: u64
  st_rx_err :: u64
  st_rx_drop :: u64
  st_rx_ovw :: u64
  st_tx_ok :: u64
  st_tx_err :: u64
  st_tx_drop :: u64
  delivered :: "bytes list"

definition R_TXSTATUS :: u16 where "R_TXSTATUS = 0x10"
definition R_TXSTART :: u16 where "R_TXSTART = 0x20"
definition R_RXSTART :: u16 where "R_RXSTART = 0x30"
definition R_CMD :: u16 where "R_CMD = 0x37"
definition R_CAPR :: u16 where "R_CAPR = 0x38"
definition R_CBR :: u16 where "R_CBR = 0x3A"
definition R_IMR :: u16 where "R_IMR = 0x3C"
definition R_ISR :: u16 where "R_ISR = 0x3E"
definition R_TCR :: u16 where "R_TCR = 0x40"
definition R_RCR :: u16 where "R_RCR = 0x44"
definition R_RXMISSED :: u16 where "R_RXMISSED = 0x4C"
definition R_CFG9346 :: u16 where "R_CFG9346 = 0x50"
definition R_CONFIG1 :: u16 where "R_CONFIG1 = 0x52"
definition R_CONFIG3 :: u16 where "R_CONFIG3 = 0x59"
definition R_HLTCLK :: u16 where "R_HLTCLK = 0x5B"
definition R_MULTIINTR :: u16 where "R_MULTIINTR = 0x5C"
definition R_MAR0 :: u16 where "R_MAR0 = 0x08"

definition IMR_ALL :: u16 where
  "IMR_ALL = 0x8000 OR 0x4000 OR 0x40 OR 0x20 OR 0x10 OR 0x08 OR 0x04 OR 0x02 OR 0x01"

definition TSD_DONE :: u32 where "TSD_DONE = 0x8000 OR 0x4000 OR 0x40000000"
definition TSD_FIFO :: u32 where "TSD_FIFO = push_bit 11 256 AND 0x003F0000"
definition RXT_ERRORS :: u16 where "RXT_ERRORS = 0x20 OR 0x10 OR 0x08 OR 0x04 OR 0x02"
definition RCR_BASE :: u32 where "RCR_BASE = 0x1800 OR push_bit 13 7 OR push_bit 8 6"
definition TCR_BASE :: u32 where "TCR_BASE = push_bit 24 3 OR push_bit 8 6 OR push_bit 4 8"
definition RX_BUF_SIZE :: u32 where "RX_BUF_SIZE = 0x10000"
definition NUM_TX :: nat where "NUM_TX = 4"
definition MCAST_MAX :: nat where "MCAST_MAX = 8"

text \<open>Accesses to the card: \<^verbatim>\<open>inb(io + off)\<close> and its kin.\<close>

definition on_dev :: "('d, 'a) state \<Rightarrow> ('d rtl, 'a) state" where
  "on_dev m = State (\<lambda>s. case run_state m (dev s) of (v, d) \<Rightarrow> (v, s\<lparr>dev := d\<rparr>))"

definition nic_inb :: "'d rtl_hw \<Rightarrow> u16 \<Rightarrow> ('d rtl, u8) state" where
  "nic_inb hw off = do { s \<leftarrow> State_Monad.get; on_dev (io_inb hw (iobase s + off)) }"

definition nic_inw :: "'d rtl_hw \<Rightarrow> u16 \<Rightarrow> ('d rtl, u16) state" where
  "nic_inw hw off = do { s \<leftarrow> State_Monad.get; on_dev (io_inw hw (iobase s + off)) }"

definition nic_inl :: "'d rtl_hw \<Rightarrow> u16 \<Rightarrow> ('d rtl, u32) state" where
  "nic_inl hw off = do { s \<leftarrow> State_Monad.get; on_dev (io_inl hw (iobase s + off)) }"

definition nic_outb :: "'d rtl_hw \<Rightarrow> u16 \<Rightarrow> u8 \<Rightarrow> ('d rtl, unit) state" where
  "nic_outb hw off v = do { s \<leftarrow> State_Monad.get; on_dev (io_outb hw (iobase s + off) v) }"

definition nic_outw :: "'d rtl_hw \<Rightarrow> u16 \<Rightarrow> u16 \<Rightarrow> ('d rtl, unit) state" where
  "nic_outw hw off v = do { s \<leftarrow> State_Monad.get; on_dev (io_outw hw (iobase s + off) v) }"

definition nic_outl :: "'d rtl_hw \<Rightarrow> u16 \<Rightarrow> u32 \<Rightarrow> ('d rtl, unit) state" where
  "nic_outl hw off v = do { s \<leftarrow> State_Monad.get; on_dev (io_outl hw (iobase s + off) v) }"


section \<open>The serial EEPROM\<close>

definition eeprom_delay :: "'d rtl_hw \<Rightarrow> ('d rtl, unit) state" where
  "eeprom_delay hw = do { _ \<leftarrow> nic_inb hw R_CFG9346; done_with () }"

text \<open>The bits of the command, from bit \<open>n - 1\<close> down to bit 0.\<close>

primrec eeprom_command :: "'d rtl_hw \<Rightarrow> u32 \<Rightarrow> nat \<Rightarrow> ('d rtl, unit) state" where
  "eeprom_command hw cmd 0 = done_with ()"
| "eeprom_command hw cmd (Suc n) =
     do { let dv = (if bit cmd n then 0x02 else 0 :: u8);
          nic_outb hw R_CFG9346 (0x88 OR dv);
          eeprom_delay hw;
          nic_outb hw R_CFG9346 (0x88 OR dv OR 0x04);
          eeprom_delay hw;
          eeprom_command hw cmd n }"

primrec eeprom_data :: "'d rtl_hw \<Rightarrow> nat \<Rightarrow> u16 \<Rightarrow> ('d rtl, u16) state" where
  "eeprom_data hw 0 r = done_with r"
| "eeprom_data hw (Suc n) r =
     do { nic_outb hw R_CFG9346 (0x88 OR 0x04);
          eeprom_delay hw;
          b \<leftarrow> nic_inb hw R_CFG9346;
          nic_outb hw R_CFG9346 0x88;
          eeprom_delay hw;
          eeprom_data hw n (push_bit 1 r OR (if b AND 0x01 \<noteq> 0 then 1 else 0)) }"

definition eeprom_read_word :: "'d rtl_hw \<Rightarrow> nat \<Rightarrow> nat \<Rightarrow> ('d rtl, u16) state" where
  "eeprom_read_word hw location addr_len =
     do { let cmd = (of_nat location OR push_bit addr_len 6 :: u32);
          nic_outb hw R_CFG9346 0x80;
          nic_outb hw R_CFG9346 0x88;
          eeprom_delay hw;
          eeprom_command hw cmd (5 + addr_len);
          nic_outb hw R_CFG9346 0x88;
          eeprom_delay hw;
          r \<leftarrow> eeprom_data hw 16 0;
          nic_outb hw R_CFG9346 0;
          eeprom_delay hw;
          done_with r }"

definition mac_valid :: "bytes \<Rightarrow> bool" where
  "mac_valid m \<longleftrightarrow> \<not> (\<forall>b \<in> set m. b = 0) \<and> \<not> (\<forall>b \<in> set m. b = 0xFF) \<and> hd m AND 1 = 0"

definition words_mac :: "u16 \<Rightarrow> u16 \<Rightarrow> u16 \<Rightarrow> bytes" where
  "words_mac a b c = le16 a @ le16 b @ le16 c"

definition mac_from_eeprom :: "'d rtl_hw \<Rightarrow> ('d rtl, bool) state" where
  "mac_from_eeprom hw =
     do { w0 \<leftarrow> eeprom_read_word hw 0 8;
          let addr_len = (if w0 = 0x8129 then 8 else 6);
          a \<leftarrow> eeprom_read_word hw 7 addr_len;
          b \<leftarrow> eeprom_read_word hw 8 addr_len;
          c \<leftarrow> eeprom_read_word hw 9 addr_len;
          if a AND b AND c = 0xFFFF \<or> \<not> mac_valid (words_mac a b c) then done_with False
          else do { State_Monad.update (\<lambda>s. s\<lparr>mac := words_mac a b c\<rparr>); done_with True } }"


section \<open>Chip version and link\<close>

definition chipset_version :: "'d rtl_hw \<Rightarrow> ('d rtl, u32) state" where
  "chipset_version hw = do { v \<leftarrow> nic_inl hw R_TCR; done_with (v AND 0x7CC00000) }"

definition has_hltclk :: "'d rtl_hw \<Rightarrow> ('d rtl, bool) state" where
  "has_hltclk hw = do { v \<leftarrow> chipset_version hw; done_with (v AND 0x08000000 = 0) }"

definition is_8139b_plus :: "'d rtl_hw \<Rightarrow> ('d rtl, bool) state" where
  "is_8139b_plus hw = do { v \<leftarrow> chipset_version hw; done_with (v AND 0x08000000 \<noteq> 0) }"

definition mii_map :: "u8 list" where "mii_map = [0x62, 0x64, 0, 0, 0x66, 0x68, 0x6A, 0]"

definition mii_read :: "'d rtl_hw \<Rightarrow> nat \<Rightarrow> ('d rtl, u16) state" where
  "mii_read hw r =
     (if length mii_map \<le> r \<or> mii_map ! r = 0 then done_with 0xFFFF else nic_inw hw (ucast (mii_map ! r)))"

definition link_now :: "'d rtl_hw \<Rightarrow> ('d rtl, bool) state" where
  "link_now hw =
     do { bmsr \<leftarrow> mii_read hw 1;
          if bmsr = 0xFFFF then done_with False
          else do { bmsr \<leftarrow> mii_read hw 1; done_with (bmsr AND 0x0004 \<noteq> 0) } }"


section \<open>Transmission\<close>

text \<open>
  The loop of \<^verbatim>\<open>tx_reap\<close>: \<^verbatim>\<open>while (dirty_tx < cur_tx)\<close>; every pass that does not leave it advances \<^verbatim>\<open>dirty_tx\<close>, so that
  \<^verbatim>\<open>cur_tx - dirty_tx\<close> passes are enough.
\<close>

definition reap_slot :: "'d rtl_hw \<Rightarrow> ('d rtl, bool) state" where
  "reap_slot hw =
     do { s \<leftarrow> State_Monad.get;
          st \<leftarrow> nic_inl hw (R_TXSTATUS + of_nat (unat (dirty_tx s) mod NUM_TX) * 4);
          if st AND TSD_DONE = 0 then done_with False
          else do {
            (if st AND (0x20000000 OR 0x40000000) \<noteq> 0
             then do {
              State_Monad.update (\<lambda>s. s\<lparr>st_tx_err := st_tx_err s + 1\<rparr>);
              if st AND 0x40000000 \<noteq> 0
              then do { t \<leftarrow> nic_inl hw R_TCR; nic_outl hw R_TCR (t OR 0x01); nic_outw hw R_ISR 0x08 }
              else done_with () }
             else State_Monad.update (\<lambda>s. s\<lparr>st_tx_ok := st_tx_ok s + 1\<rparr>));
            State_Monad.update (\<lambda>s. s\<lparr>dirty_tx := dirty_tx s + 1\<rparr>);
            done_with True } }"

primrec tx_reap_n :: "'d rtl_hw \<Rightarrow> nat \<Rightarrow> ('d rtl, unit) state" where
  "tx_reap_n hw 0 = done_with ()"
| "tx_reap_n hw (Suc n) =
     do { s \<leftarrow> State_Monad.get;
          if dirty_tx s < cur_tx s
          then do { go \<leftarrow> reap_slot hw; if go then tx_reap_n hw n else done_with () }
          else done_with () }"

definition tx_reap :: "'d rtl_hw \<Rightarrow> ('d rtl, unit) state" where
  "tx_reap hw = do { s \<leftarrow> State_Monad.get; tx_reap_n hw (unat (cur_tx s) - unat (dirty_tx s)) }"

definition tx_full :: "'d rtl \<Rightarrow> bool" where
  "tx_full s \<longleftrightarrow> of_nat NUM_TX \<le> cur_tx s - dirty_tx s"

text \<open>\<^verbatim>\<open>for (i = 0; i < 100000 && cur_tx - dirty_tx >= NUM_TX; i++)\<close>\<close>

primrec tx_wait :: "'d rtl_hw \<Rightarrow> nat \<Rightarrow> ('d rtl, unit) state" where
  "tx_wait hw 0 = done_with ()"
| "tx_wait hw (Suc n) =
     do { s \<leftarrow> State_Monad.get;
          if tx_full s then do { on_dev (io_wait hw); tx_reap hw; tx_wait hw n } else done_with () }"

text \<open>
  The frame is what lies in memory from \<^verbatim>\<open>data\<close> on: short frames are sent with 60 bytes, of which the caller's frame may be
  only the beginning.
\<close>

definition tx_length :: "nat \<Rightarrow> nat" where
  "tx_length len = max 60 (min len 1514)"

definition tx_put :: "'d rtl_hw \<Rightarrow> bytes \<Rightarrow> nat \<Rightarrow> ('d rtl, unit) state" where
  "tx_put hw data len =
     do { s \<leftarrow> State_Monad.get;
          let entry = unat (cur_tx s) mod NUM_TX;
          State_Monad.update (\<lambda>s. s\<lparr>tx_bufs := (tx_bufs s)[entry :=
            put_bytes (put_bytes (tx_bufs s ! entry) 0 (replicate 60 0)) 0 (take len data)]\<rparr>);
          nic_outl hw (R_TXSTART + of_nat entry * 4) (ucast (tx_addr s ! entry));
          nic_outl hw (R_TXSTATUS + of_nat entry * 4) (TSD_FIFO OR of_nat len);
          State_Monad.update (\<lambda>s. s\<lparr>cur_tx := cur_tx s + 1\<rparr>) }"

definition rtl8139_send :: "'d rtl_hw \<Rightarrow> bytes \<Rightarrow> nat \<Rightarrow> ('d rtl, unit) state" where
  "rtl8139_send hw data len =
     do { s \<leftarrow> State_Monad.get;
          if \<not> up s then done_with ()
          else do {
            (if tx_full s then do { tx_reap hw; tx_wait hw 100000 } else done_with ());
            s \<leftarrow> State_Monad.get;
            if tx_full s then State_Monad.update (\<lambda>s. s\<lparr>st_tx_drop := st_tx_drop s + 1\<rparr>)
            else tx_put hw data (tx_length len) } }"


section \<open>Reception\<close>

definition rx_overflow_recover :: "'d rtl_hw \<Rightarrow> ('d rtl, unit) state" where
  "rx_overflow_recover hw =
     do { cbr \<leftarrow> nic_inw hw R_CBR;
          State_Monad.update (\<lambda>s. s\<lparr>st_rx_ovw := st_rx_ovw s + 1, rx_cur := ucast cbr\<rparr>);
          nic_outw hw R_CAPR (cbr - 16) }"

definition rx_next :: "u32 \<Rightarrow> u32" where
  "rx_next off = (off + 3) AND (RX_BUF_SIZE - 4)"

text \<open>
  The frame that begins after the header at \<open>c\<close>, and where the next header is; \<open>None\<close> when the second part of a
  frame that crosses the end of the ring gets a negative length, with which \<^verbatim>\<open>memcpy\<close> runs over all memory.
  (The other guard of the code, \<^verbatim>\<open>part1 + remain > sizeof(tmp)\<close>, is about \<^verbatim>\<open>size - 4\<close> and never true.)
\<close>

definition rx_frame :: "bytes \<Rightarrow> u32 \<Rightarrow> u16 \<Rightarrow> (bytes \<times> u32) option" where
  "rx_frame mem c sz =
     (if c + 4 + ucast sz > RX_BUF_SIZE
      then
        let part1 = RX_BUF_SIZE - c - 4; remain = ucast sz - 4 - part1
        in if unat part1 + unat remain > 0x10000 then None
           else Some (sub_bytes mem (unat (c + 4)) (unat part1) @ sub_bytes mem 0 (unat remain), rx_next (4 + remain))
      else Some (sub_bytes mem (unat (c + 4)) (unat (sz - 4)), rx_next (c + 4 + ucast sz)))"

datatype 's rx_outcome = Again 's | Stop 's | Overrun

text \<open>One pass of the loop of \<^verbatim>\<open>process_rx\<close>.\<close>

definition rx_step :: "'d rtl_hw \<Rightarrow> 'd rtl \<Rightarrow> 'd rtl rx_outcome" where
  "rx_step hw s =
     (case run_state (nic_inw hw R_CBR) s of (cbr, s) \<Rightarrow>
        if rx_cur s = ucast cbr then Stop s
        else if RX_BUF_SIZE - rx_cur s < 4 then Again (s\<lparr>rx_cur := 0\<rparr>)
        else
          let mem = rx_mem hw (dev s); c = unat (rx_cur s);
              status = un16 (sub_bytes mem c 2); sz = un16 (sub_bytes mem (c + 2) 2)
          in if status AND 0x0001 = 0 then Stop s
             else if sz < 8 \<or> 1518 < sz then Stop (snd (run_state (rx_overflow_recover hw) s))
             else if status AND RXT_ERRORS \<noteq> 0
             then Again (s\<lparr>st_rx_err := st_rx_err s + 1, rx_cur := rx_next (rx_cur s + 4 + ucast sz)\<rparr>)
             else
               (case rx_frame mem (rx_cur s) sz of
                  None \<Rightarrow> Overrun
                | Some (f, nxt) \<Rightarrow> Again (s\<lparr>st_rx_ok := st_rx_ok s + 1, delivered := delivered s @ [f], rx_cur := nxt\<rparr>)))"

partial_function (option) rx_loop :: "'d rtl_hw \<Rightarrow> 'd rtl \<Rightarrow> 'd rtl outcome option" where
  "rx_loop hw s =
     (case rx_step hw s of
        Again s \<Rightarrow> rx_loop hw s
      | Stop s \<Rightarrow> Some (Returns s)
      | Overrun \<Rightarrow> Some Wild)"

definition process_rx :: "'d rtl_hw \<Rightarrow> 'd rtl \<Rightarrow> 'd rtl outcome option" where
  "process_rx hw s =
     (case rx_loop hw s of
        Some (Returns s) \<Rightarrow>
          Some (Returns (snd (run_state (nic_outw hw R_CAPR (if 16 \<le> rx_cur s then ucast (rx_cur s - 16) else 0)) s)))
      | r \<Rightarrow> r)"


section \<open>The multicast filter\<close>

definition crc_bit :: "u32 \<Rightarrow> u32" where
  "crc_bit crc = drop_bit 1 crc XOR (if crc AND 1 \<noteq> 0 then 0xEDB88320 else 0)"

definition ether_crc :: "bytes \<Rightarrow> u32" where
  "ether_crc ds = fold (\<lambda>b crc. (crc_bit ^^ 8) (crc XOR ucast b)) ds 0xFFFFFFFF"

definition mar_bit :: "bytes \<Rightarrow> u32 \<times> u32 \<Rightarrow> u32 \<times> u32" where
  "mar_bit a mar =
     (let b = drop_bit 26 (ether_crc a); w = push_bit (unat (b AND 31)) 1
      in if b AND 0x20 \<noteq> 0 then (fst mar, snd mar OR w) else (fst mar OR w, snd mar))"

definition rx_mode :: "bool \<Rightarrow> bytes list \<Rightarrow> u32 \<times> u32 \<times> u32" where
  "rx_mode prom as =
     (let rcr = RCR_BASE OR 0x08 OR 0x02
      in if prom then (rcr OR 0x01 OR 0x04, 0xFFFFFFFF, 0xFFFFFFFF)
         else if as \<noteq> [] then (rcr OR 0x04, fold mar_bit as (0, 0))
         else (rcr OR 0x04, 0xFFFFFFFF, 0xFFFFFFFF))"

definition apply_rx_mode :: "'d rtl_hw \<Rightarrow> ('d rtl, unit) state" where
  "apply_rx_mode hw =
     do { s \<leftarrow> State_Monad.get;
          case rx_mode (promisc s) (take (mcast_n s) (mcast s)) of (rcr, mar0, mar1) \<Rightarrow>
            do { nic_outl hw R_RCR rcr; nic_outl hw R_MAR0 mar0; nic_outl hw (R_MAR0 + 4) mar1 } }"

definition rtl8139_set_promisc :: "'d rtl_hw \<Rightarrow> bool \<Rightarrow> ('d rtl, bool) state" where
  "rtl8139_set_promisc hw on =
     do { s \<leftarrow> State_Monad.get;
          if \<not> up s then done_with False
          else do { State_Monad.update (\<lambda>s. s\<lparr>promisc := on\<rparr>); apply_rx_mode hw; done_with True } }"

definition rtl8139_mcast_clear :: "'d rtl_hw \<Rightarrow> ('d rtl, unit) state" where
  "rtl8139_mcast_clear hw =
     do { State_Monad.update (\<lambda>s. s\<lparr>mcast_n := 0\<rparr>);
          s \<leftarrow> State_Monad.get;
          if up s then apply_rx_mode hw else done_with () }"

definition rtl8139_mcast_add :: "'d rtl_hw \<Rightarrow> bytes \<Rightarrow> ('d rtl, int) state" where
  "rtl8139_mcast_add hw a =
     do { s \<leftarrow> State_Monad.get;
          if MCAST_MAX \<le> mcast_n s then done_with (- 1)
          else do {
            State_Monad.set (s\<lparr>mcast := (mcast s)[mcast_n s := take 6 a], mcast_n := mcast_n s + 1\<rparr>);
            (if up s then apply_rx_mode hw else done_with ());
            done_with 0 } }"


section \<open>Start-up\<close>

primrec read_idr :: "'d rtl_hw \<Rightarrow> nat \<Rightarrow> nat \<Rightarrow> ('d rtl, bytes) state" where
  "read_idr hw i 0 = done_with []"
| "read_idr hw i (Suc n) = do { b \<leftarrow> nic_inb hw (of_nat i); bs \<leftarrow> read_idr hw (Suc i) n; done_with (b # bs) }"

primrec reset_wait :: "'d rtl_hw \<Rightarrow> nat \<Rightarrow> ('d rtl, unit) state" where
  "reset_wait hw 0 = done_with ()"
| "reset_wait hw (Suc n) =
     do { c \<leftarrow> nic_inb hw R_CMD;
          if c AND 0x10 \<noteq> 0 then do { on_dev (io_wait hw); reset_wait hw n } else done_with () }"

definition alloc_rx :: "'d rtl_hw \<Rightarrow> ('d rtl, bool) state" where
  "alloc_rx hw =
     do { s \<leftarrow> State_Monad.get;
          case pmm_alloc_range 32 (nic_frames s) of (p, fr) \<Rightarrow>
            if p = 0 then do { State_Monad.set (s\<lparr>rx_addr := 0, nic_frames := fr\<rparr>); done_with False }
            else do {
              State_Monad.set (s\<lparr>rx_addr := (p + 0xFFFF) AND NOT 0xFFFF, nic_frames := fr, dev := rx_zero hw (dev s), rx_cur := 0\<rparr>);
              done_with True } }"

text \<open>The transmit buffers from number \<open>i\<close> on.\<close>

primrec alloc_tx :: "nat \<Rightarrow> nat \<Rightarrow> ('d rtl, bool) state" where
  "alloc_tx i 0 = done_with True"
| "alloc_tx i (Suc n) =
     do { s \<leftarrow> State_Monad.get;
          case pmm_alloc_frame (nic_frames s) of (p, fr) \<Rightarrow>
            if p = 0 then do { State_Monad.set (s\<lparr>tx_addr := (tx_addr s)[i := 0], nic_frames := fr\<rparr>); done_with False }
            else do {
              State_Monad.set (s\<lparr>tx_addr := (tx_addr s)[i := p], tx_bufs := (tx_bufs s)[i := replicate 4096 0], nic_frames := fr\<rparr>);
              alloc_tx (Suc i) n } }"

primrec write_tsad :: "'d rtl_hw \<Rightarrow> nat \<Rightarrow> nat \<Rightarrow> ('d rtl, unit) state" where
  "write_tsad hw i 0 = done_with ()"
| "write_tsad hw i (Suc n) =
     do { s \<leftarrow> State_Monad.get; nic_outl hw (R_TXSTART + of_nat i * 4) (ucast (tx_addr s ! i)); write_tsad hw (Suc i) n }"

definition write_mac :: "'d rtl_hw \<Rightarrow> ('d rtl, unit) state" where
  "write_mac hw =
     do { s \<leftarrow> State_Monad.get;
          nic_outl hw 0 (un32 (take 4 (mac s)));
          nic_outw hw 4 (un16 (drop 4 (mac s))) }"

text \<open>The register settings once the memory is there.\<close>

definition rtl8139_setup :: "'d rtl_hw \<Rightarrow> ('d rtl, unit) state" where
  "rtl8139_setup hw =
     do { nic_outb hw R_CFG9346 0xC0;
          write_mac hw;
          s \<leftarrow> State_Monad.get;
          nic_outl hw R_RXSTART (ucast (rx_addr s));
          nic_outb hw R_CMD (0x08 OR 0x04);
          nic_outl hw R_RCR (RCR_BASE OR 0x08 OR 0x02);
          nic_outl hw R_TCR TCR_BASE;
          b \<leftarrow> is_8139b_plus hw;
          (if b then do { c \<leftarrow> nic_inb hw R_CONFIG3; nic_outb hw R_CONFIG3 (c AND NOT 0x20) } else done_with ());
          nic_outb hw R_CFG9346 0;
          write_tsad hw 0 NUM_TX;
          nic_outl hw R_RXMISSED 0;
          State_Monad.update (\<lambda>s. s\<lparr>promisc := False\<rparr>);
          apply_rx_mode hw;
          mi \<leftarrow> nic_inw hw R_MULTIINTR;
          nic_outw hw R_MULTIINTR (mi AND 0xF000);
          c \<leftarrow> nic_inb hw R_CMD;
          (if c AND (0x08 OR 0x04) \<noteq> 0x08 OR 0x04 then nic_outb hw R_CMD (0x08 OR 0x04) else done_with ());
          nic_outw hw R_IMR IMR_ALL;
          nic_outw hw R_ISR 0xFFFF;
          State_Monad.update (\<lambda>s. s\<lparr>up := True\<rparr>) }"

definition rtl8139_memory :: "'d rtl_hw \<Rightarrow> ('d rtl, bool) state" where
  "rtl8139_memory hw =
     do { rx \<leftarrow> alloc_rx hw;
          if \<not> rx then done_with False
          else do {
            tx \<leftarrow> alloc_tx 0 NUM_TX;
            if \<not> tx then done_with False
            else do { State_Monad.update (\<lambda>s. s\<lparr>cur_tx := 0, dirty_tx := 0\<rparr>); done_with True } } }"

definition rtl8139_init :: "'d rtl_hw \<Rightarrow> u16 \<Rightarrow> u8 \<Rightarrow> u8 \<Rightarrow> u8 \<Rightarrow> u8 \<Rightarrow> ('d rtl, bool) state" where
  "rtl8139_init hw io_base line b sl fn =
     do { State_Monad.update (\<lambda>s. s\<lparr>iobase := io_base, nic_irq_line := uint line\<rparr>);
          on_dev (pci_set_bus_master hw b sl fn);
          ee \<leftarrow> mac_from_eeprom hw;
          (if ee then done_with () else do { m \<leftarrow> read_idr hw 0 6; State_Monad.update (\<lambda>s. s\<lparr>mac := m\<rparr>) });
          s \<leftarrow> State_Monad.get;
          if \<not> mac_valid (mac s) then done_with False
          else do {
            hlt \<leftarrow> has_hltclk hw;
            (if hlt then nic_outb hw R_HLTCLK 0x52 else done_with ());
            nic_outb hw R_CONFIG1 0;
            nic_outb hw R_CMD 0x10;
            reset_wait hw 1000;
            m \<leftarrow> rtl8139_memory hw;
            if \<not> m then done_with False
            else do { rtl8139_setup hw; done_with True } } }"

definition rtl8139_nic_probe :: "'d rtl_hw \<Rightarrow> pci_device \<Rightarrow> ('d rtl, bool) state" where
  "rtl8139_nic_probe hw d =
     do { s \<leftarrow> State_Monad.get;
          if up s then done_with False
          else if vendor_id d \<noteq> 0x10EC \<or> device_id d \<noteq> 0x8139 then done_with False
          else rtl8139_init hw (ucast (bar0 d AND 0xFFFC)) (irq_line d) (bus d) (slot d) (func d) }"


section \<open>Interrupts\<close>

definition rtl8139_poll :: "'d rtl_hw \<Rightarrow> 'd rtl \<Rightarrow> 'd rtl outcome option" where
  "rtl8139_poll hw s =
     (if \<not> up s then Some (Returns s)
      else
        case run_state (nic_inw hw R_ISR) s of (isr, s) \<Rightarrow>
          if isr AND (0x01 OR 0x04 OR 0x08 OR 0x40 OR 0x10) = 0 then Some (Returns s)
          else
            let s = snd (run_state
              (do { nic_outw hw R_ISR isr;
                    (if isr AND 0x04 \<noteq> 0 then tx_reap hw else done_with ());
                    (if isr AND 0x08 \<noteq> 0 then do { tx_reap hw; nic_outw hw R_ISR 0x08 } else done_with ());
                    (if isr AND (0x10 OR 0x40) \<noteq> 0 then rx_overflow_recover hw else done_with ()) }) s)
            in if isr AND 0x01 \<noteq> 0 then process_rx hw s else Some (Returns s))"

definition rtl8139_irq :: "'d rtl_hw \<Rightarrow> 'd rtl \<Rightarrow> 'd rtl outcome option" where
  "rtl8139_irq hw s =
     (if \<not> up s then Some (Returns s)
      else
        case run_state (nic_inw hw R_ISR) s of (isr, s) \<Rightarrow>
          if isr = 0 \<or> isr = 0xFFFF then Some (Returns s)
          else
            let s = snd (run_state
              (do { nic_outw hw R_ISR isr;
                    (if isr AND (0x8000 OR 0x4000 OR 0x20 OR 0x02) \<noteq> 0
                     then do {
                       missed \<leftarrow> nic_inl hw R_RXMISSED;
                       (if missed \<noteq> 0
                        then do { State_Monad.update (\<lambda>s. s\<lparr>st_rx_drop := st_rx_drop s + ucast missed\<rparr>); nic_outl hw R_RXMISSED 0 }
                        else done_with ());
                       (if isr AND 0x20 \<noteq> 0 then State_Monad.update (\<lambda>s. s\<lparr>st_rx_err := st_rx_err s + 1\<rparr>) else done_with ()) }
                     else done_with ());
                    (if isr AND (0x04 OR 0x08) \<noteq> 0 then tx_reap hw else done_with ());
                    (if isr AND 0x10 \<noteq> 0 then rx_overflow_recover hw else done_with ()) }) s)
            in if isr AND 0x01 \<noteq> 0 then process_rx hw s else Some (Returns s))"

definition rtl8139_link :: "'d rtl_hw \<Rightarrow> ('d rtl, bool) state" where
  "rtl8139_link hw = do { s \<leftarrow> State_Monad.get; if up s then link_now hw else done_with False }"


section \<open>Theorems on reception\<close>

text \<open>
  What the card has written: from the offset \<open>c\<close> on, one after another up to the offset \<open>e\<close>, packets with a status and
  a frame, each with a header of four bytes and followed by a checksum of four.
\<close>

definition packet_end :: "nat \<Rightarrow> bytes \<Rightarrow> nat" where
  "packet_end c f = (c + 4 + (length f + 4) + 3) div 4 * 4 mod 0x10000"

definition packet_at :: "bytes \<Rightarrow> nat \<Rightarrow> u16 \<Rightarrow> bytes \<Rightarrow> bool" where
  "packet_at mem c st f \<longleftrightarrow>
     un16 (sub_bytes mem c 2) = st \<and> unat (un16 (sub_bytes mem (c + 2) 2)) = length f + 4
     \<and> (\<forall>i < length f. mem ! ((c + 4 + i) mod 0x10000) = f ! i)"

fun ring_holds :: "bytes \<Rightarrow> nat \<Rightarrow> (u16 \<times> bytes) list \<Rightarrow> nat \<Rightarrow> bool" where
  "ring_holds mem c [] e \<longleftrightarrow> c = e"
| "ring_holds mem c ((st, f) # ps) e \<longleftrightarrow> c \<noteq> e \<and> packet_at mem c st f \<and> ring_holds mem (packet_end c f) ps e"

text \<open>A packet of legal size that is complete.\<close>

fun legal :: "u16 \<times> bytes \<Rightarrow> bool" where
  "legal (st, f) \<longleftrightarrow> st AND 0x0001 \<noteq> 0 \<and> 4 \<le> length f \<and> length f \<le> 1514"

fun faultless :: "u16 \<times> bytes \<Rightarrow> bool" where
  "faultless (st, f) \<longleftrightarrow> st AND RXT_ERRORS = 0"

text \<open>No packet ends less than its checksum before the end of the ring.\<close>

fun no_crc_split :: "nat \<Rightarrow> (u16 \<times> bytes) list \<Rightarrow> bool" where
  "no_crc_split c [] \<longleftrightarrow> True"
| "no_crc_split c ((st, f) # ps) \<longleftrightarrow>
     (c + 8 + length f \<le> 0x10000 \<or> 0x10000 \<le> c + 4 + length f) \<and> no_crc_split (packet_end c f) ps"

lemma unat_minus_le: "unat b \<le> unat a \<Longrightarrow> unat (a - b) = unat a - unat (b :: 'a :: len word)"
  by (simp add: unat_sub_if_size)

lemma unat_minus_wrap: "unat a < unat b \<Longrightarrow> unat (a - b) = 2 ^ LENGTH('a) + unat a - unat (b :: 'a :: len word)"
  by (simp add: unat_sub_if_size word_size)

lemma unat_rx_next:
  assumes "unat off + 3 < 2 ^ 32"
  shows "unat (rx_next off) = (unat off + 3) div 4 * 4 mod 0x10000"
proof -
  have m: "RX_BUF_SIZE - 4 = mask 16 AND NOT (mask 2)" by (simp add: RX_BUF_SIZE_def mask_eq_exp_minus_1)
  have u: "unat (off + 3) = unat off + 3" using unat_plus_small [of off 3] assms by simp
  have "rx_next off = take_bit 16 (off + 3) AND NOT (mask 2)"
    by (simp only: rx_next_def m and.assoc [symmetric] take_bit_eq_mask)
  moreover have "unat (take_bit 16 (off + 3)) = (unat off + 3) mod 2 ^ 16"
    by (simp only: unsigned_take_bit_eq u take_bit_eq_mod [where 'a = nat])
  ultimately have "unat (rx_next off) = (unat off + 3) mod 2 ^ 16 div 4 * 4"
    by (simp add: unat_and_not_mask)
  also have "\<dots> = (unat off + 3) div 4 * 4 mod 0x10000"
    using mod_mult2_eq [of "unat off + 3" 4 16384] mod_mult_mult2 [of "(unat off + 3) div 4" 4 16384] by simp
  finally show ?thesis .
qed

lemma round_up_mod: "(0x10000 + n) div 4 * 4 mod 0x10000 = n div 4 * 4 mod (0x10000 :: nat)"
proof -
  have "(0x10000 + n) div 4 = 0x4000 + n div (4 :: nat)" by simp
  then show ?thesis by (simp add: add_mult_distrib)
qed

lemma rx_frame_correct:
  assumes mem: "length mem = 0x10000" and c: "unat c + 4 \<le> 0x10000" and f: "length f \<le> 1514" "unat sz = length f + 4"
    and bytes: "\<forall>i < length f. mem ! ((unat c + 4 + i) mod 0x10000) = f ! i"
    and split: "unat c + 8 + length f \<le> 0x10000 \<or> 0x10000 \<le> unat c + 4 + length f"
  shows "\<exists>n. rx_frame mem c sz = Some (f, n) \<and> unat n = packet_end (unat c) f"
proof -
  have sz: "unat (ucast sz :: u32) = length f + 4" using f by (simp add: unsigned_ucast_eq take_bit_nat_eq_self)
  have c4: "unat (c + 4) = unat c + 4" using unat_plus_small [of c 4] c by simp
  have e: "unat (c + 4 + ucast sz) = unat c + 8 + length f"
    using unat_plus_small [of "c + 4" "ucast sz"] c f by (simp add: c4 sz)
  show ?thesis
  proof (cases "unat c + 8 + length f \<le> 0x10000")
    case True
    have s4: "unat (sz - 4) = length f" using f(2) by (simp add: unat_sub_if_size)
    have "sub_bytes mem (unat (c + 4)) (length f) = f"
      using True bytes mem by (intro nth_equalityI) (simp_all add: nth_sub_bytes c4)
    moreover have "unat (rx_next (c + 4 + ucast sz)) = packet_end (unat c) f"
      using c f by (subst unat_rx_next) (simp_all add: e packet_end_def)
    moreover have "\<not> c + 4 + ucast sz > RX_BUF_SIZE" using True by (simp add: word_less_nat_alt e RX_BUF_SIZE_def)
    ultimately show ?thesis by (simp add: rx_frame_def s4)
  next
    case False
    let ?p = "RX_BUF_SIZE - c - 4" and ?r = "ucast sz - 4 - (RX_BUF_SIZE - c - 4)"
    have p: "unat ?p = 0x10000 - unat c - 4"
      using c by (simp add: unat_sub_if_size RX_BUF_SIZE_def)
    have x: "unat (ucast sz - 4 :: u32) = length f" using sz by (simp add: unat_sub_if_size)
    have le: "unat ?p \<le> length f" using False split p by linarith
    then have r: "unat ?r = length f - unat ?p" by (subst unat_minus_le) (simp_all only: x)
    have "sub_bytes mem (unat (c + 4)) (unat ?p) @ sub_bytes mem 0 (unat ?r) = f"
    proof (rule nth_equalityI)
      show "length (sub_bytes mem (unat (c + 4)) (unat ?p) @ sub_bytes mem 0 (unat ?r)) = length f"
        using le r mem p c f(1) by (simp add: sub_bytes_def c4)
      fix i assume "i < length (sub_bytes mem (unat (c + 4)) (unat ?p) @ sub_bytes mem 0 (unat ?r))"
      then have i: "i < length f" using le r mem p c f(1) by (simp add: sub_bytes_def c4)
      show "(sub_bytes mem (unat (c + 4)) (unat ?p) @ sub_bytes mem 0 (unat ?r)) ! i = f ! i"
      proof (cases "i < unat ?p")
        case True
        then have "(unat c + 4 + i) mod 0x10000 = unat c + 4 + i" using p by simp
        then show ?thesis using bytes i True p mem by (auto simp: nth_append sub_bytes_def c4)
      next
        case False
        then have "unat c + 4 + i = 0x10000 + (i - unat ?p)" "i - unat ?p < 0x10000" using p c i f(1) by linarith+
        then have "(unat c + 4 + i) mod 0x10000 = i - unat ?p" by (metis mod_add_self1 mod_less)
        then have "mem ! (i - unat ?p) = f ! i" using bytes i by metis
        moreover have "i - unat ?p < length f - unat ?p" using False i by simp
        ultimately show ?thesis using False p mem r by (simp add: nth_append sub_bytes_def c4)
      qed
    qed
    moreover have "unat (rx_next (4 + ?r)) = packet_end (unat c) f"
    proof -
      have "unat (4 + ?r) = 4 + unat ?r" using r f(1) unat_plus_small [of 4 ?r] by simp
      then have "unat (rx_next (4 + ?r)) = (4 + (length f - unat ?p) + 3) div 4 * 4 mod 0x10000"
        using r f(1) by (subst unat_rx_next) simp_all
      moreover have "unat c + 4 + (length f + 4) + 3 = 0x10000 + (4 + (length f - unat ?p) + 3)" using le p c by simp
      ultimately show ?thesis by (simp only: packet_end_def round_up_mod)
    qed
    moreover have "c + 4 + ucast sz > RX_BUF_SIZE" using False by (simp add: word_less_nat_alt e RX_BUF_SIZE_def)
    moreover have "\<not> unat ?p + unat ?r > 0x10000" using le r f(1) by linarith
    ultimately show ?thesis by (simp add: rx_frame_def Let_def)
  qed
qed

text \<open>
  A frame that ends within four bytes of the end of the ring, so that its checksum crosses it, makes \<^verbatim>\<open>remain\<close> negative: the driver copies
  nearly 4 GB.
\<close>

lemma rx_frame_crc_split:
  assumes "unat c + 4 \<le> 0x10000" "unat sz = n + 4" "n \<le> 1514" "unat c + 4 + n < 0x10000" "0x10000 < unat c + 8 + n"
  shows "rx_frame mem c sz = None"
proof -
  let ?p = "RX_BUF_SIZE - c - 4" and ?r = "ucast sz - 4 - (RX_BUF_SIZE - c - 4)"
  have sz: "unat (ucast sz :: u32) = n + 4" using assms by (simp add: unsigned_ucast_eq take_bit_nat_eq_self)
  have c4: "unat (c + 4) = unat c + 4" using unat_plus_small [of c 4] assms(1) by simp
  have e: "unat (c + 4 + ucast sz) = unat c + 8 + n"
    using unat_plus_small [of "c + 4" "ucast sz"] assms by (simp add: c4 sz)
  have p: "unat ?p = 0x10000 - unat c - 4"
    using assms(1) by (simp add: unat_sub_if_size RX_BUF_SIZE_def)
  have x: "unat (ucast sz - 4 :: u32) = n" using sz by (simp add: unat_sub_if_size)
  have "unat ?r = 2 ^ 32 + n - unat ?p" by (subst unat_minus_wrap) (use assms p x in simp_all)
  moreover have "c + 4 + ucast sz > RX_BUF_SIZE" using assms(5) by (simp add: word_less_nat_alt e RX_BUF_SIZE_def)
  ultimately show ?thesis using p by (simp add: rx_frame_def Let_def)
qed


text \<open>
  The card rests in states of \<open>D\<close>: the offset it has written up to and the ring stay as they are.
\<close>

definition card_rests :: "'d rtl_hw \<Rightarrow> 'd set \<Rightarrow> u16 \<Rightarrow> u16 \<Rightarrow> bytes \<Rightarrow> bool" where
  "card_rests hw D bs0 cbr mem \<longleftrightarrow> reads_as D (io_inw hw (bs0 + R_CBR)) cbr \<and> (\<forall>d \<in> D. rx_mem hw d = mem)"

definition frames_of :: "(u16 \<times> bytes) list \<Rightarrow> bytes list" where
  "frames_of ps = map snd (filter faultless ps)"

lemma run_nic_inw: "run_state (nic_inw hw off) s = (case in16 hw (iobase s + off) (dev s) of (v, d) \<Rightarrow> (v, s\<lparr>dev := d\<rparr>))"
  by (simp add: nic_inw_def on_dev_def device_simps)

lemma run_nic_outw: "run_state (nic_outw hw off v) s = ((), s\<lparr>dev := out16 hw (iobase s + off) v (dev s)\<rparr>)"
  by (simp add: nic_outw_def on_dev_def device_simps)

lemma run_nic_inl: "run_state (nic_inl hw off) s = (case in32 hw (iobase s + off) (dev s) of (v, d) \<Rightarrow> (v, s\<lparr>dev := d\<rparr>))"
  by (simp add: nic_inl_def on_dev_def device_simps)

lemma run_nic_outl: "run_state (nic_outl hw off v) s = ((), s\<lparr>dev := out32 hw (iobase s + off) v (dev s)\<rparr>)"
  by (simp add: nic_outl_def on_dev_def device_simps)

lemma card_restsD:
  assumes "card_rests hw D (iobase s) cbr mem" "dev s \<in> D"
  shows "\<exists>d \<in> D. run_state (nic_inw hw R_CBR) s = (cbr, s\<lparr>dev := d\<rparr>)" "rx_mem hw (dev s) = mem"
proof -
  obtain d where "in16 hw (iobase s + R_CBR) (dev s) = (cbr, d)" "d \<in> D"
    using assms reads_asD [of D "io_inw hw (iobase s + R_CBR)" cbr "dev s"] by (auto simp: card_rests_def device_simps)
  then show "\<exists>d \<in> D. run_state (nic_inw hw R_CBR) s = (cbr, s\<lparr>dev := d\<rparr>)" by (auto simp: run_nic_inw)
  show "rx_mem hw (dev s) = mem" using assms by (simp add: card_rests_def)
qed

definition packet_fits :: "nat \<Rightarrow> bytes \<Rightarrow> bool" where
  "packet_fits c f \<longleftrightarrow> c + 8 + length f \<le> 0x10000 \<or> 0x10000 \<le> c + 4 + length f"

lemma rx_step_packet:
  assumes q: "card_rests hw D (iobase s) cbr mem" and d: "dev s \<in> D" and mem: "length mem = 0x10000"
    and c: "unat (rx_cur s) + 4 \<le> 0x10000" "rx_cur s \<noteq> ucast cbr"
    and p: "packet_at mem (unat (rx_cur s)) st f" "legal (st, f)"
    and fits: "packet_fits (unat (rx_cur s)) f"
  shows "\<exists>s'. rx_step hw s = Again s' \<and> dev s' \<in> D \<and> iobase s' = iobase s \<and> unat (rx_cur s') = packet_end (unat (rx_cur s)) f
      \<and> delivered s' = delivered s @ frames_of [(st, f)]
      \<and> st_rx_ok s' = st_rx_ok s + (if faultless (st, f) then 1 else 0) \<and> st_rx_err s' = st_rx_err s + (if faultless (st, f) then 0 else 1)"
proof -
  obtain d' where d': "d' \<in> D" "run_state (nic_inw hw R_CBR) s = (cbr, s\<lparr>dev := d'\<rparr>)" "rx_mem hw d' = mem"
    using card_restsD(1) [OF q d] q by (auto simp: card_rests_def)
  let ?sz = "un16 (sub_bytes mem (unat (rx_cur s) + 2) 2)"
  have f: "length f \<le> 1514" "4 \<le> length f" and st: "un16 (sub_bytes mem (unat (rx_cur s)) 2) = st" "st AND 1 \<noteq> 0"
    and sz: "unat ?sz = length f + 4" and bytes: "\<forall>i < length f. mem ! ((unat (rx_cur s) + 4 + i) mod 0x10000) = f ! i"
    using p by (auto simp: packet_at_def)
  have sz_ok: "\<not> ?sz < 8" "\<not> 1518 < ?sz" using f sz by (auto simp: word_less_nat_alt)
  have room: "\<not> RX_BUF_SIZE - rx_cur s < 4"
    using c(1) by (simp add: word_less_nat_alt unat_minus_le RX_BUF_SIZE_def)
  show ?thesis
  proof (cases "faultless (st, f)")
    case True
    obtain n where n: "rx_frame mem (rx_cur s) ?sz = Some (f, n)" "unat n = packet_end (unat (rx_cur s)) f"
      using rx_frame_correct [OF mem c(1) f(1) sz bytes] fits by (auto simp: packet_fits_def)
    show ?thesis
      using True d' c(2) room st sz_ok n by (simp add: rx_step_def Let_def frames_of_def)
  next
    case False
    have "unat (ucast ?sz :: u32) = length f + 4" using sz f by (simp add: unsigned_ucast_eq take_bit_nat_eq_self)
    then have "unat (rx_cur s + 4 + ucast ?sz) = unat (rx_cur s) + 4 + (length f + 4)"
      using c(1) f unat_plus_small [of "rx_cur s" 4] unat_plus_small [of "rx_cur s + 4" "ucast ?sz"] by simp
    then have "unat (rx_next (rx_cur s + 4 + ucast ?sz)) = packet_end (unat (rx_cur s)) f"
      using c(1) f by (subst unat_rx_next) (simp_all add: packet_end_def)
    then show ?thesis
      using False d' c(2) room st sz_ok by (simp add: rx_step_def Let_def frames_of_def)
  qed
qed

lemma packet_end_aligned: "packet_end c f mod 4 = 0" "packet_end c f < 0x10000"
  by (simp_all add: packet_end_def mod_mod_cancel [of 4 "0x10000"])

lemma rx_loop_packets:
  assumes "card_rests hw D (iobase s) cbr mem" "dev s \<in> D" "length mem = 0x10000"
    "unat (rx_cur s) mod 4 = 0" "unat (rx_cur s) < 0x10000"
    "ring_holds mem (unat (rx_cur s)) ps (unat cbr)" "\<forall>p \<in> set ps. legal p" "no_crc_split (unat (rx_cur s)) ps"
  shows "\<exists>s'. rx_loop hw s = Some (Returns s') \<and> dev s' \<in> D \<and> iobase s' = iobase s \<and> rx_cur s' = ucast cbr
      \<and> delivered s' = delivered s @ frames_of ps
      \<and> st_rx_ok s' = st_rx_ok s + of_nat (length (filter faultless ps))
      \<and> st_rx_err s' = st_rx_err s + of_nat (length (filter (\<lambda>p. \<not> faultless p) ps))"
  using assms
proof (induction ps arbitrary: s)
  case Nil
  have u: "unat (ucast cbr :: u32) = unat cbr" using unsigned_less [of cbr, where 'a = nat] by (simp add: unsigned_ucast_eq take_bit_nat_eq_self)
  then have e: "rx_cur s = ucast cbr" using Nil.prems(6) by (simp add: word_unat_eq_iff)
  obtain d' where "d' \<in> D" "run_state (nic_inw hw R_CBR) s = (cbr, s\<lparr>dev := d'\<rparr>)"
    using card_restsD(1) [OF Nil.prems(1,2)] by blast
  with e show ?case by (subst rx_loop.simps) (simp add: rx_step_def frames_of_def)
next
  case (Cons p ps)
  obtain st f where p: "p = (st, f)" by (cases p)
  have u: "unat (ucast cbr :: u32) = unat cbr" using unsigned_less [of cbr, where 'a = nat] by (simp add: unsigned_ucast_eq take_bit_nat_eq_self)
  have ne: "rx_cur s \<noteq> ucast cbr" using Cons.prems(6) u by (auto simp: p)
  have c4: "unat (rx_cur s) + 4 \<le> 0x10000" using Cons.prems(4,5) by presburger
  obtain s1 where s1: "rx_step hw s = Again s1" "dev s1 \<in> D" "iobase s1 = iobase s"
      "unat (rx_cur s1) = packet_end (unat (rx_cur s)) f" "delivered s1 = delivered s @ frames_of [p]"
      "st_rx_ok s1 = st_rx_ok s + (if faultless p then 1 else 0)" "st_rx_err s1 = st_rx_err s + (if faultless p then 0 else 1)"
    using rx_step_packet [OF Cons.prems(1,2,3) c4 ne, of st f] Cons.prems(6,7,8) by (auto simp: p packet_fits_def)
  have "\<exists>s'. rx_loop hw s1 = Some (Returns s') \<and> dev s' \<in> D \<and> iobase s' = iobase s1 \<and> rx_cur s' = ucast cbr
      \<and> delivered s' = delivered s1 @ frames_of ps
      \<and> st_rx_ok s' = st_rx_ok s1 + of_nat (length (filter faultless ps))
      \<and> st_rx_err s' = st_rx_err s1 + of_nat (length (filter (\<lambda>p. \<not> faultless p) ps))"
    using Cons.prems s1 packet_end_aligned [of "unat (rx_cur s)" f] by (intro Cons.IH) (simp_all add: p)
  then obtain s' where s': "rx_loop hw s1 = Some (Returns s')" "dev s' \<in> D" "iobase s' = iobase s1" "rx_cur s' = ucast cbr"
      "delivered s' = delivered s1 @ frames_of ps" "st_rx_ok s' = st_rx_ok s1 + of_nat (length (filter faultless ps))"
      "st_rx_err s' = st_rx_err s1 + of_nat (length (filter (\<lambda>p. \<not> faultless p) ps))" by blast
  have "rx_loop hw s = Some (Returns s')" by (subst rx_loop.simps) (simp add: s1(1) s'(1))
  then show ?case using s1 s' by (cases "faultless p") (simp_all add: frames_of_def)
qed

text \<open>
  C32. When the card has filled the receive ring with packets of legal size, in order from the driver's read
  offset to the card's write offset and around the end of the ring, and none of them ends within the
  last four bytes of the ring, then \<open>process_rx\<close> returns, hands up exactly the frames of the packets
  without errors, whole and in order, counts the good and the bad ones, and leaves its read offset at
  the write offset.
\<close>

theorem process_rx_correct:
  assumes card: "card_rests hw D (iobase s) cbr mem" "dev s \<in> D" "length mem = 0x10000"
    and c: "unat (rx_cur s) mod 4 = 0" "unat (rx_cur s) < 0x10000"
    and ring: "ring_holds mem (unat (rx_cur s)) ps (unat cbr)" "\<forall>p \<in> set ps. legal p" "no_crc_split (unat (rx_cur s)) ps"
  shows "\<exists>s' d. process_rx hw s = Some (Returns s') \<and> delivered s' = delivered s @ frames_of ps \<and> rx_cur s' = ucast cbr
      \<and> st_rx_ok s' = st_rx_ok s + of_nat (length (filter faultless ps))
      \<and> st_rx_err s' = st_rx_err s + of_nat (length (filter (\<lambda>p. \<not> faultless p) ps))
      \<and> d \<in> D \<and> dev s' = out16 hw (iobase s + R_CAPR) (if 16 \<le> cbr then cbr - 16 else 0) d"
proof -
  obtain s' where s': "rx_loop hw s = Some (Returns s')" "dev s' \<in> D" "iobase s' = iobase s" "rx_cur s' = ucast cbr"
      "delivered s' = delivered s @ frames_of ps" "st_rx_ok s' = st_rx_ok s + of_nat (length (filter faultless ps))"
      "st_rx_err s' = st_rx_err s + of_nat (length (filter (\<lambda>p. \<not> faultless p) ps))"
    using rx_loop_packets [OF assms] by blast
  have u: "unat (ucast cbr :: u32) = unat cbr" using unsigned_less [of cbr, where 'a = nat] by (simp add: unsigned_ucast_eq take_bit_nat_eq_self)
  have le: "(16 :: u32) \<le> ucast cbr \<longleftrightarrow> 16 \<le> cbr" by (simp add: word_le_nat_alt u)
  have sub: "ucast (ucast cbr - 16 :: u32) = cbr - 16" if "16 \<le> cbr"
  proof -
    have "unat (ucast cbr - 16 :: u32) = unat cbr - 16" using that le by (simp add: unat_minus_le word_le_nat_alt u)
    moreover have "unat (cbr - 16) = unat cbr - 16" using that by (simp add: unat_minus_le word_le_nat_alt)
    moreover have "unat cbr - 16 < 2 ^ 16" using unsigned_less [of cbr, where 'a = nat] by simp
    ultimately show ?thesis by (simp add: word_unat_eq_iff unsigned_ucast_eq take_bit_nat_eq_self)
  qed
  show ?thesis
    using s' le sub by (intro exI [of _ "snd (run_state (nic_outw hw R_CAPR (if 16 \<le> rx_cur s' then ucast (rx_cur s' - 16) else 0)) s')"]
        exI [of _ "dev s'"]) (auto simp: process_rx_def run_nic_outw)
qed


text \<open>A card that has received one frame of four bytes and finishes every transmission at once.\<close>

definition ring_ex :: bytes where
  "ring_ex = [1, 0, 8, 0] @ replicate 65532 7"

definition card_ex :: "unit rtl_hw" where
  "card_ex =
     \<lparr>in8 = (\<lambda>p d. (0, d)), in16 = (\<lambda>p d. (12, d)), in32 = (\<lambda>p d. (0x8000, d)), out8 = (\<lambda>p v d. d), out16 = (\<lambda>p v d. d),
      out32 = (\<lambda>p v d. d), rx_mem = (\<lambda>d. ring_ex), rx_zero = (\<lambda>d. d)\<rparr>"

definition rtl_ex :: "unit rtl" where
  "rtl_ex =
     \<lparr>dev = (), nic_frames = pmm_ex, nic_irq_line = 11, iobase = 0xC000, mac = [0x52, 0x54, 0, 0x12, 0x34, 0x56], rx_addr = 0, rx_cur = 0,
      tx_addr = replicate 4 0, tx_bufs = replicate 4 (replicate 4096 0), cur_tx = 5, dirty_tx = 1, up = True, promisc = False,
      mcast = replicate 8 [], mcast_n = 0, st_rx_ok = 0, st_rx_err = 0, st_rx_drop = 0, st_rx_ovw = 0, st_tx_ok = 1, st_tx_err = 0,
      st_tx_drop = 0, delivered = []\<rparr>"

theorem process_rx_correct_witness:
  "\<exists>s'. process_rx card_ex rtl_ex = Some (Returns s') \<and> delivered s' = [[7, 7, 7, 7]] \<and> rx_cur s' = 12"
proof -
  have c: "card_rests card_ex UNIV (iobase rtl_ex) 12 ring_ex"
    by (simp add: card_rests_def reads_as_def card_ex_def device_simps)
  have len: "length ring_ex = 0x10000" by (simp add: ring_ex_def)
  have "packet_at ring_ex 0 1 [7, 7, 7, 7]"
    by (auto simp: packet_at_def ring_ex_def sub_bytes_def un16_def nth_append nth_Cons')
  then have h: "ring_holds ring_ex (unat (rx_cur rtl_ex)) [(1, [7, 7, 7, 7])] (unat (12 :: u16))"
    by (simp add: packet_end_def rtl_ex_def)
  have f: "frames_of [(1, [7, 7, 7, 7])] = [[7, 7, 7, 7]]" by (simp add: frames_of_def RXT_ERRORS_def)
  show ?thesis using process_rx_correct [OF c UNIV_I len _ _ h] by (simp add: f) (auto simp: rtl_ex_def)
qed

text \<open>The copy that runs over all memory, when the first packet ends within the last four bytes of the ring.\<close>

lemma process_rx_wild:
  assumes card: "card_rests hw D (iobase s) cbr mem" "dev s \<in> D"
    and c: "unat (rx_cur s) + 4 \<le> 0x10000" "rx_cur s \<noteq> ucast cbr"
    and p: "packet_at mem (unat (rx_cur s)) st f" "legal (st, f)" "faultless (st, f)"
    and split: "\<not> packet_fits (unat (rx_cur s)) f"
  shows "process_rx hw s = Some Wild"
proof -
  obtain d' where d': "d' \<in> D" "run_state (nic_inw hw R_CBR) s = (cbr, s\<lparr>dev := d'\<rparr>)" "rx_mem hw d' = mem"
    using card_restsD(1) [OF card] card(1) by (auto simp: card_rests_def)
  let ?sz = "un16 (sub_bytes mem (unat (rx_cur s) + 2) 2)"
  have sz: "unat ?sz = length f + 4" "length f \<le> 1514" using p by (auto simp: packet_at_def)
  have "\<not> ?sz < 8" "\<not> 1518 < ?sz" using p(2) sz by (auto simp: word_less_nat_alt)
  moreover have "\<not> RX_BUF_SIZE - rx_cur s < 4"
    using c(1) by (simp add: word_less_nat_alt unat_minus_le RX_BUF_SIZE_def)
  moreover have "rx_frame mem (rx_cur s) ?sz = None"
    using rx_frame_crc_split [OF c(1) sz(1,2)] split by (simp add: packet_fits_def)
  ultimately have "rx_step hw s = Overrun"
    using d' c(2) p by (simp add: rx_step_def packet_at_def)
  then show ?thesis by (simp add: process_rx_def rx_loop.simps)
qed



section \<open>Theorems on transmission\<close>

text \<open>Slots from \<open>dirty_tx\<close> up to \<open>cur_tx\<close> belong to the card; the counters have not wrapped around.\<close>

definition tx_inv :: "'d rtl \<Rightarrow> bool" where
  "tx_inv s \<longleftrightarrow>
     length (tx_bufs s) = NUM_TX \<and> length (tx_addr s) = NUM_TX \<and> (\<forall>b \<in> set (tx_bufs s). length b = 4096)
     \<and> unat (dirty_tx s) \<le> unat (cur_tx s) \<and> unat (cur_tx s) \<le> unat (dirty_tx s) + NUM_TX"

definition in_flight :: "'d rtl \<Rightarrow> nat" where
  "in_flight s = unat (cur_tx s) - unat (dirty_tx s)"

text \<open>\<open>n\<close> slots were collected.\<close>

definition reaped :: "nat \<Rightarrow> 'd rtl \<Rightarrow> 'd rtl \<Rightarrow> bool" where
  "reaped n s s' \<longleftrightarrow> n \<le> in_flight s \<and>
     (\<exists>d a b. s' = s\<lparr>dev := d, dirty_tx := dirty_tx s + of_nat n, st_tx_ok := a, st_tx_err := b\<rparr>
        \<and> a + b = st_tx_ok s + st_tx_err s + of_nat n)"

lemma unat_add_in_flight:
  "tx_inv s \<Longrightarrow> n \<le> in_flight s \<Longrightarrow> unat (dirty_tx s + of_nat n) = unat (dirty_tx s) + n"
proof -
  assume a: "tx_inv s" "n \<le> in_flight s"
  then have "unat (dirty_tx s) + n < 2 ^ 32"
  proof -
    have "unat (dirty_tx s) + n \<le> unat (cur_tx s)" using a unfolding tx_inv_def in_flight_def by linarith
    also have "\<dots> < 2 ^ 32" using unsigned_less [of "cur_tx s", where 'a = nat] by simp
    finally show ?thesis .
  qed
  moreover from this have "n < 2 ^ 32" by linarith
  ultimately show ?thesis by (simp add: unat_plus_small unat_of_nat_small)
qed

lemma reaped_inv:
  assumes "reaped n s s'" "tx_inv s"
  shows "tx_inv s'" "in_flight s' = in_flight s - n" "unat (dirty_tx s') = unat (dirty_tx s) + n" "cur_tx s' = cur_tx s"
    "tx_bufs s' = tx_bufs s" "tx_addr s' = tx_addr s" "up s' = up s" "st_tx_drop s' = st_tx_drop s"
    "st_tx_ok s' + st_tx_err s' = st_tx_ok s + st_tx_err s + of_nat n"
  using assms unat_add_in_flight [of s n] by (auto simp: reaped_def tx_inv_def in_flight_def)

lemma reaped_none: "reaped 0 s (s\<lparr>dev := d\<rparr>)" "reaped 0 s s"
  unfolding reaped_def
  by (rule conjI, simp, rule exI [of _ d], rule exI [of _ "st_tx_ok s"], rule exI [of _ "st_tx_err s"], simp)
    (rule conjI, simp, rule exI [of _ "dev s"], rule exI [of _ "st_tx_ok s"], rule exI [of _ "st_tx_err s"], simp)

lemma reaped_trans:
  assumes a: "reaped m s s1" "reaped n s1 s2" and i: "tx_inv s"
  shows "reaped (m + n) s s2"
proof -
  have "in_flight s1 = in_flight s - m" using reaped_inv(2) [OF a(1) i] .
  then have le: "m + n \<le> in_flight s" using a by (auto simp: reaped_def)
  obtain d x y where 1: "s1 = s\<lparr>dev := d, dirty_tx := dirty_tx s + of_nat m, st_tx_ok := x, st_tx_err := y\<rparr>"
      "x + y = st_tx_ok s + st_tx_err s + of_nat m" using a(1) by (auto simp: reaped_def)
  obtain d' x' y' where 2: "s2 = s1\<lparr>dev := d', dirty_tx := dirty_tx s1 + of_nat n, st_tx_ok := x', st_tx_err := y'\<rparr>"
      "x' + y' = st_tx_ok s1 + st_tx_err s1 + of_nat n" using a(2) by (auto simp: reaped_def)
  have "s2 = s\<lparr>dev := d', dirty_tx := dirty_tx s + of_nat (m + n), st_tx_ok := x', st_tx_err := y'\<rparr>"
    using 1(1) 2(1) by (simp add: add.assoc)
  moreover have "x' + y' = st_tx_ok s + st_tx_err s + of_nat (m + n)" using 1 2(2) by (simp add: add.assoc)
  ultimately show ?thesis using le unfolding reaped_def by blast
qed

lemma reaped_one:
  assumes "1 \<le> in_flight s"
  shows "reaped 1 s (s\<lparr>dev := d, st_tx_err := st_tx_err s + 1, dirty_tx := dirty_tx s + 1\<rparr>)"
    "reaped 1 s (s\<lparr>dev := d, st_tx_ok := st_tx_ok s + 1, dirty_tx := dirty_tx s + 1\<rparr>)"
proof -
  have e: "s\<lparr>dev := d, st_tx_err := st_tx_err s + 1, dirty_tx := dirty_tx s + 1\<rparr> =
      s\<lparr>dev := d, dirty_tx := dirty_tx s + of_nat 1, st_tx_ok := st_tx_ok s, st_tx_err := st_tx_err s + 1\<rparr>"
    "s\<lparr>dev := d, st_tx_ok := st_tx_ok s + 1, dirty_tx := dirty_tx s + 1\<rparr> =
      s\<lparr>dev := d, dirty_tx := dirty_tx s + of_nat 1, st_tx_ok := st_tx_ok s + 1, st_tx_err := st_tx_err s\<rparr>"
    by (rule rtl.equality; simp)+
  show "reaped 1 s (s\<lparr>dev := d, st_tx_err := st_tx_err s + 1, dirty_tx := dirty_tx s + 1\<rparr>)"
    unfolding reaped_def by (intro conjI exI, fact assms, rule e(1), simp)
  show "reaped 1 s (s\<lparr>dev := d, st_tx_ok := st_tx_ok s + 1, dirty_tx := dirty_tx s + 1\<rparr>)"
    unfolding reaped_def by (intro conjI exI, fact assms, rule e(2), simp)
qed

lemmas reap_simps =
  State_Monad.run_state_bind State_Monad.run_state_get State_Monad.run_state_return run_state_update
  run_nic_inl run_nic_outl run_nic_outw prod.case rtl.simps

lemma reap_slot_effect:
  assumes "dirty_tx s < cur_tx s"
  shows "\<exists>s' go. run_state (reap_slot hw) s = (go, s') \<and> reaped (if go then 1 else 0) s s'"
proof -
  have fl: "1 \<le> in_flight s" using assms by (simp add: in_flight_def word_less_nat_alt)
  obtain v d where v: "in32 hw (iobase s + (R_TXSTATUS + of_nat (unat (dirty_tx s) mod NUM_TX) * 4)) (dev s) = (v, d)" by force
  obtain t d' where t: "in32 hw (iobase s + R_TCR) d = (t, d')" by force
  let ?d = "out16 hw (iobase s + R_ISR) 0x08 (out32 hw (iobase s + R_TCR) (t OR 0x01) d')"
  consider "v AND TSD_DONE = 0" | "v AND TSD_DONE \<noteq> 0" "v AND (0x20000000 OR 0x40000000) = 0"
    | "v AND TSD_DONE \<noteq> 0" "v AND (0x20000000 OR 0x40000000) \<noteq> 0" "v AND 0x40000000 = 0"
    | "v AND TSD_DONE \<noteq> 0" "v AND (0x20000000 OR 0x40000000) \<noteq> 0" "v AND 0x40000000 \<noteq> 0" by blast
  then show ?thesis
  proof cases
    case 1
    then have "run_state (reap_slot hw) s = (False, s\<lparr>dev := d\<rparr>)" by (simp only: reap_slot_def reap_simps v if_True if_False simp_thms)
    then show ?thesis using reaped_none(1) by (intro exI conjI) (assumption, simp only: if_False)
  next
    case 2
    then have "run_state (reap_slot hw) s = (True, s\<lparr>dev := d, st_tx_ok := st_tx_ok s + 1, dirty_tx := dirty_tx s + 1\<rparr>)"
      by (simp only: reap_slot_def reap_simps v if_True if_False simp_thms) simp
    then show ?thesis using reaped_one(2) [OF fl] by (intro exI conjI) (assumption, simp only: if_True)
  next
    case 3
    then have "run_state (reap_slot hw) s = (True, s\<lparr>dev := d, st_tx_err := st_tx_err s + 1, dirty_tx := dirty_tx s + 1\<rparr>)"
      by (simp only: reap_slot_def reap_simps v if_True if_False simp_thms) simp
    then show ?thesis using reaped_one(1) [OF fl] by (intro exI conjI) (assumption, simp only: if_True)
  next
    case 4
    then have "run_state (reap_slot hw) s = (True, s\<lparr>dev := ?d, st_tx_err := st_tx_err s + 1, dirty_tx := dirty_tx s + 1\<rparr>)"
      by (simp only: reap_slot_def reap_simps v t if_True if_False simp_thms) (simp add: t)
    then show ?thesis using reaped_one(1) [OF fl] by (intro exI conjI) (assumption, simp only: if_True)
  qed
qed

lemma tx_reap_n_effect: "tx_inv s \<Longrightarrow> \<exists>n. reaped n s (snd (run_state (tx_reap_n hw k) s))"
proof (induction k arbitrary: s)
  case 0
  show ?case using reaped_none(2) by auto
next
  case (Suc k)
  show ?case
  proof (cases "dirty_tx s < cur_tx s")
    case True
    then obtain s1 go where s1: "run_state (reap_slot hw) s = (go, s1)" "reaped (if go then 1 else 0) s s1"
      using reap_slot_effect by blast
    have "tx_inv s1" using reaped_inv(1) [OF s1(2) Suc.prems] .
    then obtain n where "reaped n s1 (snd (run_state (tx_reap_n hw k) s1))" using Suc.IH by blast
    then have "reaped (1 + n) s (snd (run_state (tx_reap_n hw k) s1))" if go
      using reaped_trans [OF s1(2) _ Suc.prems] that by simp
    then show ?thesis using s1 True by (cases go) auto
  next
    case False
    then show ?thesis using reaped_none(2) by auto
  qed
qed

lemma tx_reap_effect: "tx_inv s \<Longrightarrow> \<exists>n. reaped n s (snd (run_state (tx_reap hw) s))"
  using tx_reap_n_effect by (simp add: tx_reap_def)

lemma tx_wait_effect: "tx_inv s \<Longrightarrow> \<exists>n. reaped n s (snd (run_state (tx_wait hw k) s))"
proof (induction k arbitrary: s)
  case 0
  show ?case using reaped_none(2) by auto
next
  case (Suc k)
  show ?case
  proof (cases "tx_full s")
    case True
    let ?s = "s\<lparr>dev := out8 hw 0x80 0 (dev s)\<rparr>"
    have r0: "reaped 0 s ?s" by (rule reaped_none(1))
    obtain s1 where s1: "run_state (tx_reap hw) ?s = ((), s1)" by (metis prod.collapse unit.exhaust)
    obtain m where m: "reaped m ?s s1" using tx_reap_effect [OF reaped_inv(1) [OF r0 Suc.prems], of hw] by (auto simp: s1)
    have r1: "reaped m s s1" using reaped_trans [OF r0 m Suc.prems] by simp
    obtain n where "reaped n s1 (snd (run_state (tx_wait hw k) s1))" using Suc.IH [OF reaped_inv(1) [OF r1 Suc.prems]] by blast
    then have "reaped (m + n) s (snd (run_state (tx_wait hw k) s1))" using reaped_trans [OF r1 _ Suc.prems] by blast
    then show ?thesis using True by (auto simp: on_dev_def device_simps s1)
  next
    case False
    then show ?thesis using reaped_none(2) by auto
  qed
qed

lemma tx_full_iff: "tx_inv s \<Longrightarrow> tx_full s \<longleftrightarrow> in_flight s = NUM_TX"
  by (auto simp: tx_full_def tx_inv_def in_flight_def word_le_nat_alt unat_minus_le NUM_TX_def)

definition make_room :: "'d rtl_hw \<Rightarrow> 'd rtl \<Rightarrow> 'd rtl" where
  "make_room hw s = snd (run_state (if tx_full s then do { tx_reap hw; tx_wait hw 100000 } else done_with ()) s)"

lemma make_room_effect:
  assumes "tx_inv s"
  shows "\<exists>n. reaped n s (make_room hw s)"
proof (cases "tx_full s")
  case True
  obtain s1 where s1: "run_state (tx_reap hw) s = ((), s1)" by (metis prod.collapse unit.exhaust)
  obtain m where m: "reaped m s s1" using tx_reap_effect [OF assms, of hw] by (auto simp: s1)
  obtain n where "reaped n s1 (snd (run_state (tx_wait hw 100000) s1))"
    using tx_wait_effect [OF reaped_inv(1) [OF m assms]] by blast
  then have "reaped (m + n) s (make_room hw s)" using reaped_trans [OF m _ assms] True by (simp add: make_room_def s1)
  then show ?thesis ..
next
  case False
  then show ?thesis using reaped_none(2) by (auto simp: make_room_def)
qed

lemma send_eq:
  "up s \<Longrightarrow> snd (run_state (rtl8139_send hw data len) s) =
     (let s1 = make_room hw s
      in if tx_full s1 then s1\<lparr>st_tx_drop := st_tx_drop s1 + 1\<rparr> else snd (run_state (tx_put hw data (tx_length len)) s1))"
  by (cases "run_state (if tx_full s then do { tx_reap hw; tx_wait hw 100000 } else done_with ()) s")
    (auto simp: rtl8139_send_def make_room_def Let_def)

lemma tx_put_effect:
  assumes i: "tx_inv s" "in_flight s < NUM_TX" "unat (cur_tx s) + 1 < 2 ^ 32" and l: "len \<le> length data" "60 \<le> len" "len \<le> 1514"
  shows "\<exists>s'. snd (run_state (tx_put hw data len) s) = s' \<and> tx_inv s' \<and> dirty_tx s' = dirty_tx s \<and> unat (cur_tx s') = unat (cur_tx s) + 1
      \<and> st_tx_drop s' = st_tx_drop s \<and> st_tx_ok s' = st_tx_ok s \<and> st_tx_err s' = st_tx_err s
      \<and> take len (tx_bufs s' ! (unat (cur_tx s) mod NUM_TX)) = take len data
      \<and> (\<forall>k. unat (dirty_tx s) \<le> k \<and> k < unat (cur_tx s) \<longrightarrow> tx_bufs s' ! (k mod NUM_TX) = tx_bufs s ! (k mod NUM_TX))"
proof -
  let ?e = "unat (cur_tx s) mod NUM_TX" and ?s' = "snd (run_state (tx_put hw data len) s)"
  let ?b = "put_bytes (put_bytes (tx_bufs s ! ?e) 0 (replicate 60 0)) 0 (take len data)"
  have e: "?e < length (tx_bufs s)" using i(1) by (simp add: tx_inv_def NUM_TX_def)
  then have lb: "length (tx_bufs s ! ?e) = 4096" using i(1) by (simp add: tx_inv_def)
  have b: "length ?b = 4096" "take len ?b = take len data" using l lb by (simp_all add: put_bytes_def)
  have s': "tx_bufs ?s' = (tx_bufs s)[?e := ?b]" "tx_addr ?s' = tx_addr s" "cur_tx ?s' = cur_tx s + 1" "dirty_tx ?s' = dirty_tx s"
      "st_tx_drop ?s' = st_tx_drop s" "st_tx_ok ?s' = st_tx_ok s" "st_tx_err ?s' = st_tx_err s"
    by (simp_all add: tx_put_def run_nic_outl Let_def)
  have c: "unat (cur_tx s + 1) = unat (cur_tx s) + 1" using unat_plus_small [of "cur_tx s" 1] i(3) by simp
  have "\<forall>b \<in> set ((tx_bufs s)[?e := ?b]). length b = 4096"
    using i(1) b(1) set_update_subset_insert [of "tx_bufs s" ?e ?b] by (auto simp: tx_inv_def)
  then have inv: "tx_inv ?s'" using i unfolding tx_inv_def s' c in_flight_def by (simp add: tx_inv_def)
  have other: "k mod NUM_TX \<noteq> ?e" if "unat (dirty_tx s) \<le> k" "k < unat (cur_tx s)" for k
  proof
    assume "k mod NUM_TX = ?e"
    then have "NUM_TX dvd unat (cur_tx s) - k" using that by (metis mod_eq_dvd_iff_nat order_less_imp_le)
    then have "NUM_TX \<le> unat (cur_tx s) - k" using that by (intro dvd_imp_le) auto
    then show False using that i(2) unfolding in_flight_def by linarith
  qed
  have "tx_bufs ?s' ! (k mod NUM_TX) = tx_bufs s ! (k mod NUM_TX)" if "unat (dirty_tx s) \<le> k" "k < unat (cur_tx s)" for k
    using other [OF that] by (simp add: s')
  then show ?thesis using inv s' c b(2) e by (intro exI [of _ ?s']) auto
qed



text \<open>Once \<open>cur_tx\<close> has wrapped around, no slot is collected any more, and every frame is dropped.\<close>

lemma tx_stuck_after_wrap:
  assumes "up s" "tx_full s" "cur_tx s \<le> dirty_tx s"
  shows "\<exists>d. snd (run_state (rtl8139_send hw data len) s) = s\<lparr>dev := d, st_tx_drop := st_tx_drop s + 1\<rparr>"
proof -
  have none: "run_state (tx_reap hw) t = ((), t)" if "cur_tx t \<le> dirty_tx t" for t
    using that by (simp add: tx_reap_def word_le_nat_alt)
  have "\<exists>d. run_state (tx_wait hw k) t = ((), t\<lparr>dev := d\<rparr>)" if "cur_tx t \<le> dirty_tx t" for k t
    using that
  proof (induction k arbitrary: t)
    case 0
    show ?case by (auto intro: exI [of _ "dev t"])
  next
    case (Suc k)
    show ?case
    proof (cases "tx_full t")
      case True
      obtain d where "run_state (tx_wait hw k) (t\<lparr>dev := out8 hw 0x80 0 (dev t)\<rparr>) = ((), t\<lparr>dev := d\<rparr>)"
        using Suc.IH [of "t\<lparr>dev := out8 hw 0x80 0 (dev t)\<rparr>"] Suc.prems by auto
      then show ?thesis using True Suc.prems none by (auto simp: on_dev_def device_simps)
    qed (auto intro: exI [of _ "dev t"])
  qed
  from this [OF assms(3), of 100000] obtain d where "run_state (tx_wait hw 100000) s = ((), s\<lparr>dev := d\<rparr>)" by blast
  then have "make_room hw s = s\<lparr>dev := d\<rparr>" using assms none by (simp add: make_room_def)
  then show ?thesis using assms(1,2) by (auto simp: send_eq tx_full_def Let_def)
qed


section \<open>Theorems on the multicast filter\<close>

definition mcast_hash :: "bytes \<Rightarrow> nat" where
  "mcast_hash a = unat (drop_bit 26 (ether_crc a))"

definition mar_has :: "u32 \<times> u32 \<Rightarrow> nat \<Rightarrow> bool" where
  "mar_has mar i \<longleftrightarrow> (if i < 32 then bit (fst mar) i else bit (snd mar) (i - 32))"

lemma mcast_hash_bound: "mcast_hash a < 64"
proof -
  have "unat (ether_crc a) < 2 ^ 26 * 64" using unsigned_less [of "ether_crc a", where 'a = nat] by simp
  then have "unat (ether_crc a) div 2 ^ 26 < 64" by (simp add: div_less_iff_less_mult)
  then show ?thesis by (simp only: mcast_hash_def unat_drop_bit_eq drop_bit_eq_div [where 'a = nat])
qed

lemma mar_bit_has:
  assumes "i < 64"
  shows "mar_has (mar_bit a mar) i \<longleftrightarrow> mar_has mar i \<or> mcast_hash a = i"
proof -
  let ?b = "drop_bit 26 (ether_crc a)"
  have u: "unat ?b = mcast_hash a" by (simp add: mcast_hash_def)
  have lo: "unat (?b AND 31) = mcast_hash a mod 32"
  proof -
    have "?b AND 31 = take_bit 5 ?b" by (simp add: take_bit_eq_mask mask_eq_exp_minus_1)
    then show ?thesis by (simp only: unsigned_take_bit_eq u take_bit_eq_mod [where 'a = nat]) simp
  qed
  have hi: "?b AND 0x20 \<noteq> 0 \<longleftrightarrow> 32 \<le> mcast_hash a"
  proof -
    have "?b AND 0x20 = ?b AND push_bit 5 1" by simp
    also have "\<dots> \<noteq> 0 \<longleftrightarrow> bit ?b 5" by (simp add: bit_iff_and_push_bit_not_eq_0 del: push_bit_of_1)
    finally have "?b AND 0x20 \<noteq> 0 \<longleftrightarrow> bit (unat ?b) 5" by (simp add: bit_unsigned_iff)
    also have "\<dots> \<longleftrightarrow> odd (mcast_hash a div 32)" by (simp add: u bit_iff_odd)
    also have "\<dots> \<longleftrightarrow> 32 \<le> mcast_hash a" using mcast_hash_bound [of a] by presburger
    finally show ?thesis .
  qed
  have m: "mcast_hash a mod 32 = (if 32 \<le> mcast_hash a then mcast_hash a - 32 else mcast_hash a)"
    using mcast_hash_bound [of a] by (simp add: le_mod_geq)
  show ?thesis
    using assms mcast_hash_bound [of a]
    by (auto simp: mar_bit_def mar_has_def hi lo m Let_def bit_or_iff bit_exp_iff)
qed


lemma mar_bits_has: "i < 64 \<Longrightarrow> mar_has (fold mar_bit as mar) i \<longleftrightarrow> mar_has mar i \<or> (\<exists>a \<in> set as. mcast_hash a = i)"
  by (induction as arbitrary: mar) (auto simp: mar_bit_has)

text \<open>
  The multicast filter that the driver programs (64 hash bits in the two registers \<^verbatim>\<open>MAR0\<close>) passes exactly the hash
  values of the addresses on the list when there is a list and the card is not promiscuous, and every
  hash value otherwise.
\<close>

theorem rx_mode_correct:
  "case rx_mode prom as of (rcr, mar) \<Rightarrow>
     {i. i < 64 \<and> mar_has mar i} = (if prom \<or> as = [] then {..<64} else mcast_hash ` set as)"
proof -
  have all: "mar_has (0xFFFFFFFF, 0xFFFFFFFF) i" if "i < 64" for i
  proof -
    have "(0xFFFFFFFF :: u32) = mask 32" by (simp add: mask_eq_exp_minus_1)
    then show ?thesis using that by (simp only: mar_has_def fst_conv snd_conv bit_mask_iff) auto
  qed
  have none: "\<not> mar_has (0, 0) i" for i by (simp add: mar_has_def)
  have "{i. i < 64 \<and> mar_has (fold mar_bit as (0, 0)) i} = mcast_hash ` set as"
    using mar_bits_has [of _ as "(0, 0)"] none mcast_hash_bound by auto
  then show ?thesis using all by (auto simp: rx_mode_def Let_def)
qed

end
