(* ===== verification/E1000.thy ===== *)
theory E1000
  imports Pci Proc
begin

text \<open>
  The driver of the Intel 82540EM network card, \<^verbatim>\<open>kernel/e1000.cpp\<close>: registers in memory, a ring of 16 receive
  descriptors and one of 8 transmit descriptors in memory shared with the card (\<open>dma\<close>). The card is the
  argument \<open>hw\<close>: it answers register accesses and changes the shared memory then and while time passes.
  Frames handed to \<^verbatim>\<open>net_handle_eth\<close> are collected in \<open>e_delivered\<close>; printed lines are left out.
\<close>

section \<open>State\<close>

record rx_desc =
  rd_addr :: u64
  rd_length :: u16
  rd_checksum :: u16
  rd_status :: u8
  rd_errors :: u8
  rd_special :: u16

record tx_desc =
  td_addr :: u64
  td_length :: u16
  td_cso :: u8
  td_cmd :: u8
  td_status :: u8
  td_css :: u8
  td_special :: u16

record dma =
  rx_ring :: "rx_desc list"
  rx_data :: "bytes list"
  tx_ring :: "tx_desc list"
  tx_data :: "bytes list"

record 'd e_hw = "('d \<times> dma) io" +
  reg_rd :: "u32 \<Rightarrow> 'd \<times> dma \<Rightarrow> u32 \<times> ('d \<times> dma)"
  reg_wr :: "u32 \<Rightarrow> u32 \<Rightarrow> 'd \<times> dma \<Rightarrow> 'd \<times> dma"
  elapse :: "'d \<times> dma \<Rightarrow> 'd \<times> dma"

record 'd e1000 =
  e_dev :: "'d \<times> dma"
  e_sys :: sched
  e_mmio_ready :: bool
  e_mmio :: u32
  e_mac :: bytes
  e_up :: bool
  rx_ring_at :: u64
  rx_bufs :: "u64 list"
  e_rx_next :: nat
  tx_ring_at :: u64
  e_tx_bufs :: "u64 list"
  e_tx_next :: nat
  e_rx_ok :: u64
  e_rx_err :: u64
  e_rx_drop :: u64
  e_rx_ovw :: u64
  e_tx_ok :: u64
  e_tx_err :: u64
  e_tx_drop :: u64
  e_delivered :: "bytes list"

definition R_CTRL :: u32 where "R_CTRL = 0x0000"
definition R_STATUS :: u32 where "R_STATUS = 0x0008"
definition R_EEPROM :: u32 where "R_EEPROM = 0x0014"
definition R_ICR :: u32 where "R_ICR = 0x00C0"
definition R_IMS :: u32 where "R_IMS = 0x00D0"
definition R_RCTL :: u32 where "R_RCTL = 0x0100"
definition R_TCTL :: u32 where "R_TCTL = 0x0400"
definition R_RDBAL :: u32 where "R_RDBAL = 0x2800"
definition R_RDBAH :: u32 where "R_RDBAH = 0x2804"
definition R_RDLEN :: u32 where "R_RDLEN = 0x2808"
definition R_RDH :: u32 where "R_RDH = 0x2810"
definition R_RDT :: u32 where "R_RDT = 0x2818"
definition R_TDBAL :: u32 where "R_TDBAL = 0x3800"
definition R_TDBAH :: u32 where "R_TDBAH = 0x3804"
definition R_TDLEN :: u32 where "R_TDLEN = 0x3808"
definition R_TDH :: u32 where "R_TDH = 0x3810"
definition R_TDT :: u32 where "R_TDT = 0x3818"
definition R_MTA :: u32 where "R_MTA = 0x5200"
definition R_RAL :: u32 where "R_RAL = 0x5400"
definition R_RAH :: u32 where "R_RAH = 0x5404"

definition RX_SLOTS :: nat where "RX_SLOTS = 16"
definition TX_SLOTS :: nat where "TX_SLOTS = 8"

definition desc_done :: "u8 \<Rightarrow> bool" where
  "desc_done st \<longleftrightarrow> st AND 0x01 \<noteq> 0"

definition reg_read :: "'d e_hw \<Rightarrow> u32 \<Rightarrow> ('d e1000, u32) state" where
  "reg_read hw off = State (\<lambda>s. case reg_rd hw off (e_dev s) of (v, d) \<Rightarrow> (v, s\<lparr>e_dev := d\<rparr>))"

definition reg_write :: "'d e_hw \<Rightarrow> u32 \<Rightarrow> u32 \<Rightarrow> ('d e1000, unit) state" where
  "reg_write hw off v = State_Monad.update (\<lambda>s. s\<lparr>e_dev := reg_wr hw off v (e_dev s)\<rparr>)"

definition on_dma :: "(dma \<Rightarrow> dma) \<Rightarrow> 'd e1000 \<Rightarrow> 'd e1000" where
  "on_dma f s = s\<lparr>e_dev := (fst (e_dev s), f (snd (e_dev s)))\<rparr>"

definition the_dma :: "'d e1000 \<Rightarrow> dma" where
  "the_dma s = snd (e_dev s)"


section \<open>Reception\<close>

definition rx_strip :: "u16 \<Rightarrow> nat" where
  "rx_strip len = (let n = (if 4 < len then unat (len - 4) else unat len) in min n 1514)"

text \<open>
  One pass of the loop of \<^verbatim>\<open>rx_process\<close>: what becomes of the descriptor \<open>rx_next\<close>, and its return to the card.
  \<open>skipping\<close> is the local variable of the code.
\<close>

definition rx_take :: "bool \<Rightarrow> rx_desc \<Rightarrow> bytes \<Rightarrow> 'd e1000 \<Rightarrow> bool \<times> 'd e1000" where
  "rx_take skipping d buf s =
     (let eop = (rd_status d AND 0x02 \<noteq> 0)
      in if skipping then (\<not> eop, s\<lparr>e_rx_drop := e_rx_drop s + 1\<rparr>)
         else if \<not> eop then (True, s\<lparr>e_rx_drop := e_rx_drop s + 1\<rparr>)
         else if rd_errors d AND (0x01 OR 0x04 OR 0x80) \<noteq> 0 then (False, s\<lparr>e_rx_err := e_rx_err s + 1\<rparr>)
         else (False, s\<lparr>e_delivered := e_delivered s @ [take (rx_strip (rd_length d)) buf], e_rx_ok := e_rx_ok s + 1\<rparr>))"

definition rx_return :: "'d e_hw \<Rightarrow> 'd e1000 \<Rightarrow> 'd e1000" where
  "rx_return hw s =
     (let i = e_rx_next s;
          s = on_dma (\<lambda>m. m\<lparr>rx_ring := (rx_ring m)[i := (rx_ring m ! i)\<lparr>rd_status := 0, rd_errors := 0\<rparr>]\<rparr>) s;
          s = snd (run_state (reg_write hw R_RDT (of_nat i)) s)
      in s\<lparr>e_rx_next := (i + 1) mod RX_SLOTS\<rparr>)"

definition rx_pass :: "'d e_hw \<Rightarrow> bool \<Rightarrow> 'd e1000 \<Rightarrow> bool \<times> 'd e1000" where
  "rx_pass hw skipping s =
     (case rx_take skipping (rx_ring (the_dma s) ! e_rx_next s) (rx_data (the_dma s) ! e_rx_next s) s of
        (sk, s) \<Rightarrow> (sk, rx_return hw s))"

partial_function (option) rx_loop :: "'d e_hw \<Rightarrow> bool \<Rightarrow> 'd e1000 \<Rightarrow> 'd e1000 option" where
  "rx_loop hw skipping s =
     (if desc_done (rd_status (rx_ring (the_dma s) ! e_rx_next s))
      then case rx_pass hw skipping s of (sk, s) \<Rightarrow> rx_loop hw sk s
      else Some s)"

definition rx_process :: "'d e_hw \<Rightarrow> 'd e1000 \<Rightarrow> 'd e1000 option" where
  "rx_process hw s = rx_loop hw False s"

definition e1000_poll :: "'d e_hw \<Rightarrow> 'd e1000 \<Rightarrow> 'd e1000 option" where
  "e1000_poll hw s = (if \<not> e_up s then Some s else rx_process hw (snd (run_state (reg_read hw R_ICR) s)))"

definition e1000_irq :: "'d e_hw \<Rightarrow> 'd e1000 \<Rightarrow> 'd e1000 option" where
  "e1000_irq hw s = e1000_poll hw s"

definition e1000_link :: "'d e_hw \<Rightarrow> ('d e1000, bool) state" where
  "e1000_link hw =
     do { s \<leftarrow> State_Monad.get;
          if e_up s then do { v \<leftarrow> reg_read hw R_STATUS; done_with (v AND 0x02 \<noteq> 0) } else done_with False }"


section \<open>Transmission\<close>

text \<open>\<^verbatim>\<open>for (w = 0; w < n && !(tx_ring[i].status & RXS_DD); w++) { }\<close>\<close>

primrec tx_spin :: "'d e_hw \<Rightarrow> nat \<Rightarrow> nat \<Rightarrow> 'd \<times> dma \<Rightarrow> 'd \<times> dma" where
  "tx_spin hw i 0 dv = dv"
| "tx_spin hw i (Suc n) dv = (if desc_done (td_status (tx_ring (snd dv) ! i)) then dv else tx_spin hw i n (elapse hw dv))"

definition clear_tx :: "nat \<Rightarrow> 'd e1000 \<Rightarrow> 'd e1000" where
  "clear_tx i = on_dma (\<lambda>m. m\<lparr>tx_ring := (tx_ring m)[i := (tx_ring m ! i)\<lparr>td_status := 0\<rparr>]\<rparr>)"

definition fill_tx :: "nat \<Rightarrow> bytes \<Rightarrow> nat \<Rightarrow> 'd e1000 \<Rightarrow> 'd e1000" where
  "fill_tx i frame len s =
     on_dma (\<lambda>m. m\<lparr>tx_data := (tx_data m)[i := put_bytes (tx_data m ! i) 0 (take len frame)],
                   tx_ring := (tx_ring m)[i := (tx_ring m ! i)\<lparr>td_addr := e_tx_bufs s ! i, td_length := of_nat len, td_cso := 0,
                     td_cmd := 0x01 OR 0x02 OR 0x08, td_css := 0, td_special := 0\<rparr>]\<rparr>) s"

definition tx_result :: "nat \<Rightarrow> 'd e1000 \<Rightarrow> 'd e1000" where
  "tx_result i s =
     (if desc_done (td_status (tx_ring (the_dma s) ! i)) then s\<lparr>e_tx_ok := e_tx_ok s + 1\<rparr> else s\<lparr>e_tx_err := e_tx_err s + 1\<rparr>)"

text \<open>What the card finds when it is told of the descriptor: the first half of \<^verbatim>\<open>e1000_send\<close>.\<close>

definition tx_prepare :: "'d e_hw \<Rightarrow> bytes \<Rightarrow> nat \<Rightarrow> 'd e1000 \<Rightarrow> 'd e1000" where
  "tx_prepare hw frame len s =
     (let i = e_tx_next s; s = s\<lparr>e_dev := tx_spin hw i 500000 (e_dev s)\<rparr> in fill_tx i frame len (clear_tx i s))"

definition e1000_send :: "'d e_hw \<Rightarrow> bytes \<Rightarrow> nat \<Rightarrow> 'd e1000 \<Rightarrow> 'd e1000" where
  "e1000_send hw frame len s =
     (if \<not> e_up s then s\<lparr>e_tx_drop := e_tx_drop s + 1\<rparr>
      else
        let len = min len 1514; i = e_tx_next s;
            s = tx_prepare hw frame len s;
            s = snd (run_state (reg_write hw R_TDT (of_nat ((i + 1) mod TX_SLOTS))) s);
            s = s\<lparr>e_dev := tx_spin hw i 500000 (e_dev s)\<rparr>;
            s = clear_tx i (tx_result i s)
        in s\<lparr>e_tx_next := (i + 1) mod TX_SLOTS\<rparr>)"


section \<open>Start-up\<close>

primrec eeprom_wait :: "'d e_hw \<Rightarrow> nat \<Rightarrow> ('d e1000, u16) state" where
  "eeprom_wait hw 0 = done_with 0"
| "eeprom_wait hw (Suc n) =
     do { v \<leftarrow> reg_read hw R_EEPROM; if v AND 0x10 \<noteq> 0 then done_with (ucast (drop_bit 16 v)) else eeprom_wait hw n }"

definition eeprom_read :: "'d e_hw \<Rightarrow> u32 \<Rightarrow> ('d e1000, u16) state" where
  "eeprom_read hw r = do { reg_write hw R_EEPROM (push_bit 8 r OR 1); eeprom_wait hw 1000 }"

definition mta_add :: "'d e_hw \<Rightarrow> bytes \<Rightarrow> ('d e1000, unit) state" where
  "mta_add hw a =
     do { let h = ((push_bit 4 (ucast (a ! 5)) OR drop_bit 4 (ucast (a ! 4))) AND 0xFFF :: u32);
          let off = R_MTA + 4 * drop_bit 5 h;
          v \<leftarrow> reg_read hw off;
          reg_write hw off (v OR push_bit (unat (h AND 0x1F)) 1) }"

definition port_wait :: "'d e_hw \<Rightarrow> ('d e1000, unit) state" where
  "port_wait hw = State_Monad.update (\<lambda>s. s\<lparr>e_dev := snd (run_state (io_wait hw) (e_dev s))\<rparr>)"

definition read_mac :: "'d e_hw \<Rightarrow> ('d e1000, unit) state" where
  "read_mac hw =
     do { a \<leftarrow> eeprom_read hw 0; b \<leftarrow> eeprom_read hw 1; c \<leftarrow> eeprom_read hw 2;
          if a \<noteq> 0 \<and> a \<noteq> 0xFFFF then State_Monad.update (\<lambda>s. s\<lparr>e_mac := le16 a @ le16 b @ le16 c\<rparr>)
          else do {
            ral \<leftarrow> reg_read hw R_RAL;
            rah \<leftarrow> reg_read hw R_RAH;
            State_Monad.update (\<lambda>s. s\<lparr>e_mac := le32 ral @ take 2 (le32 rah)\<rparr>) } }"

definition write_filter :: "'d e_hw \<Rightarrow> ('d e1000, unit) state" where
  "write_filter hw =
     do { s \<leftarrow> State_Monad.get;
          reg_write hw R_RAL (un32 (take 4 (e_mac s)));
          reg_write hw R_RAH (ucast (un16 (drop 4 (e_mac s))) OR 0x80000000);
          mta_add hw [0x33, 0x33, 0x00, 0x00, 0x00, 0x01] }"

definition take_frame :: "('d e1000, u64) state" where
  "take_frame =
     State (\<lambda>s. case pmm_alloc_frame (frames (e_sys s)) of (p, pm) \<Rightarrow> (p, s\<lparr>e_sys := (e_sys s)\<lparr>frames := pm\<rparr>\<rparr>))"

text \<open>The receive buffers and their descriptors, from number \<open>i\<close> on.\<close>

primrec alloc_rx_bufs :: "nat \<Rightarrow> nat \<Rightarrow> ('d e1000, bool) state" where
  "alloc_rx_bufs i 0 = done_with True"
| "alloc_rx_bufs i (Suc n) =
     do { p \<leftarrow> take_frame;
          State_Monad.update (\<lambda>s. s\<lparr>rx_bufs := (rx_bufs s)[i := p]\<rparr>);
          if p = 0 then done_with False
          else do {
            State_Monad.update (on_dma (\<lambda>m. m\<lparr>rx_data := (rx_data m)[i := replicate 4096 0],
              rx_ring := (rx_ring m)[i := (rx_ring m ! i)\<lparr>rd_addr := p\<rparr>]\<rparr>));
            alloc_rx_bufs (Suc i) n } }"

primrec alloc_tx_bufs :: "nat \<Rightarrow> nat \<Rightarrow> ('d e1000, bool) state" where
  "alloc_tx_bufs i 0 = done_with True"
| "alloc_tx_bufs i (Suc n) =
     do { p \<leftarrow> take_frame;
          State_Monad.update (\<lambda>s. s\<lparr>e_tx_bufs := (e_tx_bufs s)[i := p]\<rparr>);
          if p = 0 then done_with False else alloc_tx_bufs (Suc i) n }"

definition rx_desc0 :: rx_desc where
  "rx_desc0 = \<lparr>rd_addr = 0, rd_length = 0, rd_checksum = 0, rd_status = 0, rd_errors = 0, rd_special = 0\<rparr>"

definition tx_desc0 :: tx_desc where
  "tx_desc0 = \<lparr>td_addr = 0, td_length = 0, td_cso = 0, td_cmd = 0, td_status = 0, td_css = 0, td_special = 0\<rparr>"

definition setup_rx :: "'d e_hw \<Rightarrow> ('d e1000, bool) state" where
  "setup_rx hw =
     do { p \<leftarrow> take_frame;
          State_Monad.update (\<lambda>s. s\<lparr>rx_ring_at := p\<rparr>);
          if p = 0 then done_with False
          else do {
            State_Monad.update (on_dma (\<lambda>m. m\<lparr>rx_ring := replicate RX_SLOTS rx_desc0\<rparr>));
            got \<leftarrow> alloc_rx_bufs 0 RX_SLOTS;
            if \<not> got then done_with False
            else do {
              reg_write hw R_RDBAL (ucast p);
              reg_write hw R_RDBAH 0;
              reg_write hw R_RDLEN (of_nat RX_SLOTS * 16);
              reg_write hw R_RDH 0;
              reg_write hw R_RDT (of_nat RX_SLOTS - 1);
              State_Monad.update (\<lambda>s. s\<lparr>e_rx_next := 0\<rparr>);
              done_with True } } }"

definition setup_tx :: "'d e_hw \<Rightarrow> ('d e1000, bool) state" where
  "setup_tx hw =
     do { p \<leftarrow> take_frame;
          State_Monad.update (\<lambda>s. s\<lparr>tx_ring_at := p\<rparr>);
          if p = 0 then done_with False
          else do {
            State_Monad.update (on_dma (\<lambda>m. m\<lparr>tx_ring := replicate TX_SLOTS tx_desc0\<rparr>));
            State_Monad.update (\<lambda>s. s\<lparr>e_tx_next := 0\<rparr>);
            got \<leftarrow> alloc_tx_bufs 0 TX_SLOTS;
            if \<not> got then done_with False
            else do {
              reg_write hw R_TDBAL (ucast p);
              reg_write hw R_TDBAH 0;
              reg_write hw R_TDLEN (of_nat TX_SLOTS * 16);
              reg_write hw R_TDH 0;
              reg_write hw R_TDT 0;
              done_with True } } }"

definition reset_card :: "'d e_hw \<Rightarrow> ('d e1000, unit) state" where
  "reset_card hw =
     do { v \<leftarrow> reg_read hw R_CTRL;
          reg_write hw R_CTRL (v OR 0x04000000);
          repeat_state 1000 (port_wait hw);
          reg_write hw R_CTRL 0;
          repeat_state 1000 (port_wait hw);
          reg_write hw R_CTRL (0x40 OR 0x20) }"

definition enable_card :: "'d e_hw \<Rightarrow> ('d e1000, unit) state" where
  "enable_card hw =
     do { reg_write hw R_RCTL (0x02 OR 0x8000 OR 0x10 OR 0x20);
          reg_write hw R_TCTL (0x02 OR 0x08 OR 0xF0 OR 0x0003F000);
          _ \<leftarrow> reg_read hw R_ICR;
          reg_write hw R_IMS 0x1F6DC;
          State_Monad.update (\<lambda>s. s\<lparr>e_up := True\<rparr>) }"

definition map_window :: "('d e1000, bool) state" where
  "map_window =
     State (\<lambda>s. case mmio_map_device (e_mmio_ready s) (e_sys s) of (r, rdy, k) \<Rightarrow> (r, s\<lparr>e_mmio_ready := rdy, e_sys := k\<rparr>))"

definition e1000_nic_probe :: "'d e_hw \<Rightarrow> pci_device \<Rightarrow> ('d e1000, bool) state" where
  "e1000_nic_probe hw d =
     do { s \<leftarrow> State_Monad.get;
          if e_up s \<or> vendor_id d \<noteq> 0x8086 \<or> device_id d \<noteq> 0x100E \<or> bar0 d AND 1 \<noteq> 0 then done_with False
          else do {
            m \<leftarrow> map_window;
            if \<not> m then done_with False
            else do {
              State_Monad.update (\<lambda>s. s\<lparr>e_mmio := bar0 d AND 0xFFFFFFF0,
                e_dev := snd (run_state (pci_set_bus_master hw (bus d) (slot d) (func d)) (e_dev s))\<rparr>);
              reset_card hw;
              read_mac hw;
              write_filter hw;
              rx \<leftarrow> setup_rx hw;
              if \<not> rx then done_with False
              else do {
                tx \<leftarrow> setup_tx hw;
                if \<not> tx then done_with False
                else do { enable_card hw; done_with True } } } } }"


section \<open>Theorems on reception\<close>

text \<open>What a pass does to the frames handed up and to the counters (good, bad, dropped).\<close>

type_synonym rx_view = "bytes list \<times> u64 \<times> u64 \<times> u64"

definition rx_view :: "'d e1000 \<Rightarrow> rx_view" where
  "rx_view s = (e_delivered s, e_rx_ok s, e_rx_err s, e_rx_drop s)"

definition bad_frame :: "rx_desc \<Rightarrow> bool" where
  "bad_frame d \<longleftrightarrow> rd_errors d AND (0x01 OR 0x04 OR 0x80) \<noteq> 0"

definition last_part :: "rx_desc \<Rightarrow> bool" where
  "last_part d \<longleftrightarrow> rd_status d AND 0x02 \<noteq> 0"

fun view_step :: "bool \<times> rx_view \<Rightarrow> rx_desc \<times> bytes \<Rightarrow> bool \<times> rx_view" where
  "view_step (sk, fs, good, bad, drp) (d, b) =
     (if sk then (\<not> last_part d, fs, good, bad, drp + 1)
      else if \<not> last_part d then (True, fs, good, bad, drp + 1)
      else if bad_frame d then (False, fs, good, bad + 1, drp)
      else (False, fs @ [take (rx_strip (rd_length d)) b], good + 1, bad, drp))"

text \<open>Writing the tail register leaves the shared memory to the driver.\<close>

definition card_quiet :: "'d e_hw \<Rightarrow> bool" where
  "card_quiet hw \<longleftrightarrow> (\<forall>v dv. snd (reg_wr hw R_RDT v dv) = snd dv)"

definition rx_slot :: "'d e1000 \<Rightarrow> nat \<Rightarrow> nat" where
  "rx_slot s j = (e_rx_next s + j) mod RX_SLOTS"

definition rx_ok :: "'d e1000 \<Rightarrow> bool" where
  "rx_ok s \<longleftrightarrow> length (rx_ring (the_dma s)) = RX_SLOTS \<and> length (rx_data (the_dma s)) = RX_SLOTS \<and> e_rx_next s < RX_SLOTS"

text \<open>From the read position on, exactly the descriptors \<open>ds\<close> are done.\<close>

definition rx_holds :: "'d e1000 \<Rightarrow> (rx_desc \<times> bytes) list \<Rightarrow> bool" where
  "rx_holds s ds \<longleftrightarrow> length ds \<le> RX_SLOTS
     \<and> (\<forall>j < length ds. rx_ring (the_dma s) ! rx_slot s j = fst (ds ! j) \<and> rx_data (the_dma s) ! rx_slot s j = snd (ds ! j)
          \<and> desc_done (rd_status (fst (ds ! j))))
     \<and> (length ds < RX_SLOTS \<longrightarrow> \<not> desc_done (rd_status (rx_ring (the_dma s) ! rx_slot s (length ds))))"

lemma rx_take_view:
  "rx_take sk d b s = (sk', s') \<Longrightarrow>
     (sk', rx_view s') = view_step (sk, rx_view s) (d, b) \<and> e_dev s' = e_dev s \<and> e_rx_next s' = e_rx_next s"
  by (auto simp: rx_take_def rx_view_def bad_frame_def last_part_def Let_def split: if_splits)

lemma rx_return_effect:
  assumes "card_quiet hw"
  shows "rx_ring (the_dma (rx_return hw s)) =
      (rx_ring (the_dma s))[e_rx_next s := (rx_ring (the_dma s) ! e_rx_next s)\<lparr>rd_status := 0, rd_errors := 0\<rparr>]"
    "rx_data (the_dma (rx_return hw s)) = rx_data (the_dma s)" "e_rx_next (rx_return hw s) = (e_rx_next s + 1) mod RX_SLOTS"
    "rx_view (rx_return hw s) = rx_view s"
  using assms by (simp_all add: rx_return_def the_dma_def on_dma_def reg_write_def card_quiet_def rx_view_def Let_def)

lemma rx_slot_Suc: "e_rx_next s' = (e_rx_next s + 1) mod RX_SLOTS \<Longrightarrow> rx_slot s' j = rx_slot s (Suc j)"
  by (simp add: rx_slot_def mod_add_left_eq)

lemma rx_slot_other:
  assumes "e_rx_next s < RX_SLOTS" "0 < j" "j < RX_SLOTS"
  shows "rx_slot s j \<noteq> e_rx_next s"
proof
  assume "rx_slot s j = e_rx_next s"
  moreover have "(e_rx_next s + j) mod RX_SLOTS = (if e_rx_next s + j < RX_SLOTS then e_rx_next s + j else e_rx_next s + j - RX_SLOTS)"
    using assms by (simp add: le_mod_geq)
  ultimately show False using assms by (auto simp: rx_slot_def split: if_splits)
qed

lemma rx_pass_effect:
  assumes q: "card_quiet hw" and ok: "rx_ok s" and h: "rx_holds s (x # ds)"
  shows "\<exists>sk' s'. rx_pass hw sk s = (sk', s') \<and> rx_ok s' \<and> rx_holds s' ds \<and> (sk', rx_view s') = view_step (sk, rx_view s) x
      \<and> e_rx_next s' = rx_slot s 1"
proof -
  let ?n = "e_rx_next s"
  have n: "?n < RX_SLOTS" "rx_slot s 0 = ?n" using ok by (auto simp: rx_ok_def rx_slot_def)
  have x: "rx_ring (the_dma s) ! ?n = fst x" "rx_data (the_dma s) ! ?n = snd x" using h n(2) by (auto simp: rx_holds_def)
  obtain sk' s1 where t: "rx_take sk (fst x) (snd x) s = (sk', s1)" by force
  note v = rx_take_view [OF t]
  have d1: "the_dma s1 = the_dma s" using v by (simp add: the_dma_def)
  note r = rx_return_effect [OF q, of s1, unfolded d1]
  let ?s' = "rx_return hw s1"
  have nx: "e_rx_next ?s' = (?n + 1) mod RX_SLOTS" using r(3) v by simp
  note sl = rx_slot_Suc [OF nx]
  have ring: "rx_ring (the_dma ?s') = (rx_ring (the_dma s))[?n := (fst x)\<lparr>rd_status := 0, rd_errors := 0\<rparr>]"
    using r(1) v x by simp
  have same: "rx_ring (the_dma ?s') ! rx_slot s j = rx_ring (the_dma s) ! rx_slot s j" if "0 < j" "j < RX_SLOTS" for j
    using rx_slot_other [OF n(1) that] by (simp add: ring)
  have len: "length ds < RX_SLOTS" using h by (simp add: rx_holds_def)
  have "rx_holds ?s' ds"
  proof (unfold rx_holds_def, intro conjI allI impI)
    show "length ds \<le> RX_SLOTS" using len by simp
    fix j assume "j < length ds"
    then show "rx_ring (the_dma ?s') ! rx_slot ?s' j = fst (ds ! j)" "rx_data (the_dma ?s') ! rx_slot ?s' j = snd (ds ! j)"
        "desc_done (rd_status (fst (ds ! j)))"
      using h len same [of "Suc j"] r(2) by (auto simp: rx_holds_def sl)
  next
    show "\<not> desc_done (rd_status (rx_ring (the_dma ?s') ! rx_slot ?s' (length ds)))"
    proof (cases "Suc (length ds) < RX_SLOTS")
      case True
      then show ?thesis using h same [of "Suc (length ds)"] by (simp add: rx_holds_def sl)
    next
      case False
      then have "Suc (length ds) = RX_SLOTS" using len by simp
      then have "rx_slot s (Suc (length ds)) = ?n" using n(1) by (simp add: rx_slot_def)
      then show ?thesis using ok n(1) by (simp add: sl ring rx_ok_def desc_done_def)
    qed
  qed
  moreover have "rx_ok ?s'" using ok r(2) by (simp add: rx_ok_def ring nx RX_SLOTS_def)
  moreover have "rx_pass hw sk s = (sk', ?s')" by (simp add: rx_pass_def x t)
  ultimately show ?thesis using v r(4) nx by (cases x) (simp add: rx_slot_def)
qed

lemma rx_loop_effect:
  assumes "card_quiet hw" "rx_ok s" "rx_holds s ds"
  shows "\<exists>s'. rx_loop hw sk s = Some s' \<and> rx_ok s' \<and> rx_holds s' [] \<and> rx_view s' = snd (foldl view_step (sk, rx_view s) ds)
      \<and> e_rx_next s' = rx_slot s (length ds)"
  using assms(2,3)
proof (induction ds arbitrary: sk s)
  case Nil
  have "rx_slot s 0 = e_rx_next s" using Nil.prems(1) by (simp add: rx_ok_def rx_slot_def)
  then show ?case using Nil by (subst rx_loop.simps) (auto simp: rx_holds_def RX_SLOTS_def)
next
  case (Cons x ds)
  have n: "rx_slot s 0 = e_rx_next s" using Cons.prems(1) by (simp add: rx_ok_def rx_slot_def)
  then have dn: "desc_done (rd_status (rx_ring (the_dma s) ! e_rx_next s))" using Cons.prems(2) by (auto simp: rx_holds_def)
  obtain sk1 s1 where s1: "rx_pass hw sk s = (sk1, s1)" "rx_ok s1" "rx_holds s1 ds" "(sk1, rx_view s1) = view_step (sk, rx_view s) x"
      "e_rx_next s1 = rx_slot s 1" using rx_pass_effect [OF assms(1) Cons.prems] by blast
  obtain s' where s': "rx_loop hw sk1 s1 = Some s'" "rx_ok s'" "rx_holds s' []"
      "rx_view s' = snd (foldl view_step (sk1, rx_view s1) ds)" "e_rx_next s' = rx_slot s1 (length ds)"
    using Cons.IH [OF s1(2,3)] by blast
  have "rx_loop hw sk s = Some s'" by (subst rx_loop.simps) (simp add: dn s1(1) s'(1))
  moreover have "e_rx_next s' = rx_slot s (length (x # ds))"
    using s'(5) rx_slot_Suc [of s1 s "length ds"] s1(5) by (simp add: rx_slot_def)
  ultimately show ?case using s' s1(4) by auto
qed

text \<open>A frame of the wire: one descriptor per buffer it fills, the last of them marked.\<close>

definition wire_frame :: "(rx_desc \<times> bytes) list \<Rightarrow> bool" where
  "wire_frame p \<longleftrightarrow> p \<noteq> [] \<and> last_part (fst (last p)) \<and> (\<forall>x \<in> set (butlast p). \<not> last_part (fst x))"

definition good_single :: "(rx_desc \<times> bytes) list \<Rightarrow> bool" where
  "good_single p \<longleftrightarrow> length p = 1 \<and> \<not> bad_frame (fst (hd p))"

definition bad_single :: "(rx_desc \<times> bytes) list \<Rightarrow> bool" where
  "bad_single p \<longleftrightarrow> length p = 1 \<and> bad_frame (fst (hd p))"

definition frames_up :: "(rx_desc \<times> bytes) list list \<Rightarrow> bytes list" where
  "frames_up ps = map (\<lambda>p. take (rx_strip (rd_length (fst (hd p)))) (snd (hd p))) (filter good_single ps)"

definition oversize :: "(rx_desc \<times> bytes) list list \<Rightarrow> nat" where
  "oversize ps = sum_list (map length (filter (\<lambda>p. length p \<noteq> 1) ps))"

lemma skip_rest:
  "p \<noteq> [] \<Longrightarrow> last_part (fst (last p)) \<Longrightarrow> \<forall>x \<in> set (butlast p). \<not> last_part (fst x) \<Longrightarrow>
     foldl view_step (True, fs, good, bad, drp) p = (False, fs, good, bad, drp + of_nat (length p))"
proof (induction p arbitrary: drp)
  case (Cons x p)
  then show ?case by (cases x; cases "p = []") (auto simp: add.assoc)
qed simp

lemma view_packet:
  assumes "wire_frame p"
  shows "foldl view_step (False, fs, good, bad, drp) p =
     (False, fs @ frames_up [p], good + (if good_single p then 1 else 0), bad + (if bad_single p then 1 else 0), drp + of_nat (oversize [p]))"
proof -
  obtain d b q where p: "p = (d, b) # q" using assms by (cases p) (auto simp: wire_frame_def)
  show ?thesis
  proof (cases "q = []")
    case True
    then show ?thesis using assms by (simp add: p wire_frame_def frames_up_def good_single_def bad_single_def oversize_def)
  next
    case False
    then have "\<not> last_part d" "last_part (fst (last q))" "\<forall>x \<in> set (butlast q). \<not> last_part (fst x)"
      using assms by (auto simp: p wire_frame_def)
    then show ?thesis using skip_rest [OF False, of fs good bad "drp + 1"] False
      by (simp add: p frames_up_def good_single_def bad_single_def oversize_def add.assoc)
  qed
qed

lemma view_packets:
  "\<forall>p \<in> set ps. wire_frame p \<Longrightarrow>
   foldl view_step (False, fs, good, bad, drp) (concat ps) =
     (False, fs @ frames_up ps, good + of_nat (length (filter good_single ps)), bad + of_nat (length (filter bad_single ps)),
      drp + of_nat (oversize ps))"
proof (induction ps arbitrary: fs good bad drp)
  case (Cons p ps)
  have "frames_up (p # ps) = frames_up [p] @ frames_up ps" "oversize (p # ps) = oversize [p] + oversize ps"
    by (simp_all add: frames_up_def oversize_def)
  then show ?case using Cons by (simp add: view_packet add.assoc)
qed (simp add: frames_up_def oversize_def)


text \<open>A card that has filled slot 15 with a frame of 64 bytes and slots 0 and 1 with an oversize frame.\<close>

definition e_card_ex :: "unit e_hw" where
  "e_card_ex =
     \<lparr>in8 = (\<lambda>p d. (0, d)), in16 = (\<lambda>p d. (0, d)), in32 = (\<lambda>p d. (0, d)), out8 = (\<lambda>p v d. d), out16 = (\<lambda>p v d. d),
      out32 = (\<lambda>p v d. d), reg_rd = (\<lambda>r d. (0, d)), reg_wr = (\<lambda>r v d. d), elapse = (\<lambda>d. d)\<rparr>"

definition dma_ex :: dma where
  "dma_ex =
     \<lparr>rx_ring = [rx_desc0\<lparr>rd_length := 2048, rd_status := 1\<rparr>, rx_desc0\<lparr>rd_length := 100, rd_status := 3\<rparr>] @ replicate 13 rx_desc0
        @ [rx_desc0\<lparr>rd_length := 68, rd_status := 3\<rparr>],
      rx_data = replicate 16 (replicate 2048 7), tx_ring = replicate 8 tx_desc0, tx_data = replicate 8 (replicate 4096 0)\<rparr>"

definition e1000_ex :: "sched \<Rightarrow> unit e1000" where
  "e1000_ex k =
     \<lparr>e_dev = ((), dma_ex), e_sys = k, e_mmio_ready = True, e_mmio = 0xFEBC0000, e_mac = [0x52, 0x54, 0, 0x12, 0x34, 0x56], e_up = True,
      rx_ring_at = 0x200000, rx_bufs = replicate 16 0x201000, e_rx_next = 15, tx_ring_at = 0x300000, e_tx_bufs = replicate 8 0x301000,
      e_tx_next = 7, e_rx_ok = 0, e_rx_err = 0, e_rx_drop = 0, e_rx_ovw = 0, e_tx_ok = 0, e_tx_err = 0, e_tx_drop = 0, e_delivered = []\<rparr>"


text \<open>
  The flag \<open>skipping\<close> is forgotten between two runs: when the first part of an oversize frame is complete in one run and its end in
  the next, the end is handed up as if it were a frame.
\<close>

lemma e1000_tail_delivered:
  assumes q: "card_quiet hw" and ok: "rx_ok s" and h: "rx_holds s [(d, b)]" and p: "last_part d" "\<not> bad_frame d"
  shows "\<exists>s'. rx_process hw s = Some s' \<and> e_delivered s' = e_delivered s @ [take (rx_strip (rd_length d)) b]"
  using rx_loop_effect [OF q ok h, of False] p unfolding rx_process_def by (auto simp: rx_view_def)


section \<open>Theorems on transmission\<close>

definition tx_ok :: "'d e1000 \<Rightarrow> bool" where
  "tx_ok s \<longleftrightarrow> length (tx_ring (the_dma s)) = TX_SLOTS \<and> length (tx_data (the_dma s)) = TX_SLOTS \<and> e_tx_next s < TX_SLOTS
     \<and> (\<forall>b \<in> set (tx_data (the_dma s)). length b = 4096)"

text \<open>Neither time nor the tail register changes the sizes of the shared memory.\<close>

definition card_sound :: "'d e_hw \<Rightarrow> bool" where
  "card_sound hw \<longleftrightarrow> (\<forall>dv. length (tx_ring (snd (elapse hw dv))) = length (tx_ring (snd dv))
     \<and> map length (tx_data (snd (elapse hw dv))) = map length (tx_data (snd dv)))"

lemma tx_spin_sizes:
  "card_sound hw \<Longrightarrow> length (tx_ring (snd (tx_spin hw i n dv))) = length (tx_ring (snd dv))
     \<and> map length (tx_data (snd (tx_spin hw i n dv))) = map length (tx_data (snd dv))"
  by (induction n arbitrary: dv) (auto simp: card_sound_def)

lemma tx_frame:
  "e_tx_ok (clear_tx i s) = e_tx_ok s" "e_tx_err (clear_tx i s) = e_tx_err s"
  "e_tx_ok (fill_tx i frame n s) = e_tx_ok s" "e_tx_err (fill_tx i frame n s) = e_tx_err s"
  by (simp_all add: clear_tx_def fill_tx_def on_dma_def)

text \<open>
  A send hands the card the next descriptor, filled with the address of its buffer, the length (cut at 1514)
  and the commands for one whole frame, and with the frame in the buffer, before it moves the tail
  register past it; afterwards exactly one of the two counters has grown, that of successes exactly
  when the card reported the descriptor done while the driver waited, and the next slot is next.
\<close>

theorem e1000_send_correct:
  assumes c: "card_sound hw" and ok: "tx_ok s" "e_up s" and len: "min len 1514 \<le> length frame"
  shows "(let i = e_tx_next s; n = min len 1514; dv = e_dev (tx_prepare hw frame n s); t = tx_ring (snd dv) ! i;
             s' = e1000_send hw frame len s; dv' = tx_spin hw i 500000 (reg_wr hw R_TDT (of_nat ((i + 1) mod TX_SLOTS)) dv)
         in td_addr t = e_tx_bufs s ! i \<and> td_length t = of_nat n \<and> td_cmd t = 0x0B \<and> \<not> desc_done (td_status t)
            \<and> take n (tx_data (snd dv) ! i) = take n frame
            \<and> (if desc_done (td_status (tx_ring (snd dv') ! i)) then e_tx_ok s' = e_tx_ok s + 1 \<and> e_tx_err s' = e_tx_err s
               else e_tx_ok s' = e_tx_ok s \<and> e_tx_err s' = e_tx_err s + 1)
            \<and> e_tx_next s' = (i + 1) mod TX_SLOTS)"
proof -
  let ?i = "e_tx_next s" and ?n = "min len 1514"
  let ?s1 = "s\<lparr>e_dev := tx_spin hw ?i 500000 (e_dev s)\<rparr>"
  let ?s2 = "fill_tx ?i frame ?n (clear_tx ?i ?s1)"
  have sizes: "length (tx_ring (the_dma ?s1)) = TX_SLOTS" "map length (tx_data (the_dma ?s1)) = map length (tx_data (the_dma s))"
    using tx_spin_sizes [OF c, of ?i 500000 "e_dev s"] ok by (simp_all add: the_dma_def tx_ok_def)
  have i: "?i < TX_SLOTS" using ok by (simp add: tx_ok_def)
  have "length (tx_data (the_dma ?s1)) = TX_SLOTS" using ok arg_cong [OF sizes(2), of length] by (simp add: tx_ok_def)
  then have idata: "?i < length (tx_data (the_dma ?s1))" using i by simp
  have "length (tx_data (the_dma ?s1) ! ?i) = length (tx_data (the_dma s) ! ?i)"
    using arg_cong [OF sizes(2), of "\<lambda>ls. ls ! ?i"] idata i ok by (simp add: tx_ok_def)
  then have blen: "length (tx_data (the_dma ?s1) ! ?i) = 4096" using ok i by (auto simp: tx_ok_def)
  have t: "tx_ring (the_dma ?s2) ! ?i = (tx_ring (the_dma ?s1) ! ?i)\<lparr>td_status := 0, td_addr := e_tx_bufs s ! ?i, td_length := of_nat ?n,
      td_cso := 0, td_cmd := 0x0B, td_css := 0, td_special := 0\<rparr>"
    using i sizes(1) by (simp add: fill_tx_def clear_tx_def on_dma_def the_dma_def)
  have "tx_data (the_dma ?s2) ! ?i = put_bytes (tx_data (the_dma ?s1) ! ?i) 0 (take ?n frame)"
    using idata by (simp add: fill_tx_def clear_tx_def on_dma_def the_dma_def)
  then have d: "take ?n (tx_data (the_dma ?s2) ! ?i) = take ?n frame"
    using blen len by (simp add: put_bytes_def)
  have e_twice: "t\<lparr>e_dev := u, e_dev := v\<rparr> = t\<lparr>e_dev := v\<rparr>" "e_dev (t\<lparr>e_dev := u\<rparr>) = u" for t u v by simp_all
  have e_next: "e_tx_next (s\<lparr>e_dev := dv\<rparr>) = e_tx_next s" for dv by simp
  let ?w = "of_nat ((?i + 1) mod TX_SLOTS) :: u32"
  let ?s4 = "?s2\<lparr>e_dev := tx_spin hw ?i 500000 (reg_wr hw R_TDT ?w (e_dev ?s2))\<rparr>"
  have send: "e1000_send hw frame len s = clear_tx ?i (tx_result ?i ?s4)\<lparr>e_tx_next := (?i + 1) mod TX_SLOTS\<rparr>"
    by (simp only: e1000_send_def tx_prepare_def Let_def reg_write_def run_state_update snd_conv if_False not_True_eq_False ok(2) e_next e_twice)
  have res: "if desc_done (td_status (tx_ring (the_dma ?s4) ! ?i))
      then e_tx_ok (e1000_send hw frame len s) = e_tx_ok s + 1 \<and> e_tx_err (e1000_send hw frame len s) = e_tx_err s
      else e_tx_ok (e1000_send hw frame len s) = e_tx_ok s \<and> e_tx_err (e1000_send hw frame len s) = e_tx_err s + 1"
    unfolding send by (simp add: tx_result_def tx_frame)
  have "e_tx_next (e1000_send hw frame len s) = (?i + 1) mod TX_SLOTS" unfolding send by simp
  moreover have "tx_prepare hw frame ?n s = ?s2" by (simp only: tx_prepare_def Let_def)
  ultimately show ?thesis using res t d
    by (simp only: Let_def the_dma_def) (simp add: desc_done_def)
qed

theorem e1000_send_correct_witness:
  "\<forall>k. (let s' = e1000_send e_card_ex (replicate 60 9) 60 (e1000_ex k); dv = e_dev (tx_prepare e_card_ex (replicate 60 9) 60 (e1000_ex k));
            t = tx_ring (snd dv) ! 7
     in td_length t = 60 \<and> td_addr t = 0x301000 \<and> take 60 (tx_data (snd dv) ! 7) = replicate 60 9 \<and> e_tx_next s' = 0)"
proof
  fix k
  have c: "card_sound e_card_ex" by (simp add: card_sound_def e_card_ex_def)
  have ok: "tx_ok (e1000_ex k)" "e_up (e1000_ex k)" by (simp_all add: tx_ok_def e1000_ex_def dma_ex_def the_dma_def TX_SLOTS_def)
  have e: "e_tx_next (e1000_ex k) = 7" "e_tx_bufs (e1000_ex k) ! 7 = 0x301000" "(7 + 1) mod TX_SLOTS = 0"
    by (simp_all add: e1000_ex_def TX_SLOTS_def)
  from e1000_send_correct [OF c ok, of 60 "replicate 60 9"]
  show "(let s' = e1000_send e_card_ex (replicate 60 9) 60 (e1000_ex k); dv = e_dev (tx_prepare e_card_ex (replicate 60 9) 60 (e1000_ex k));
            t = tx_ring (snd dv) ! 7
      in td_length t = 60 \<and> td_addr t = 0x301000 \<and> take 60 (tx_data (snd dv) ! 7) = replicate 60 9 \<and> e_tx_next s' = 0)"
    unfolding Let_def e by simp
qed

text \<open>
  The wait before a send is for a descriptor that the driver itself has cleared, at start-up or after the last use. Unless the
  card touches idle descriptors, every send runs this loop to its end.
\<close>

lemma tx_spin_idle:
  assumes idle: "\<And>dv. tx_ring (snd (elapse hw dv)) ! i = tx_ring (snd dv) ! i"
    and clear: "\<not> desc_done (td_status (tx_ring (snd dv) ! i))"
  shows "tx_spin hw i n dv = (elapse hw ^^ n) dv"
  using clear
proof (induction n arbitrary: dv)
  case (Suc n)
  then show ?case using idle by (simp add: funpow_swap1)
qed simp

end
