(* ===== verification/Nic.thy ===== *)
theory Nic
  imports Rtl8139 E1000
begin

text \<open>
  The network cards as one device, \<^verbatim>\<open>kernel/nic.cpp\<close>: the table of the cards that a driver recognised, the
  active card, and the dispatch of sends, polls and interrupts to the drivers. The function pointers of
  \<^verbatim>\<open>NicOps\<close> are the datatype \<open>driver\<close>. The table \<^verbatim>\<open>devs[0 .. ndev - 1]\<close> is a list; both drivers take
  frames from the one allocator of the kernel, kept in the state of the e1000 driver.
\<close>

definition NIC_MAX :: nat where "NIC_MAX = 4"

datatype driver = Drv_e1000 | Drv_rtl8139

datatype nic_kind = NIC_WIRED | NIC_WIFI

record nic_device =
  nd_ops :: driver
  nd_kind :: nic_kind
  nd_irq :: int
  nd_up :: bool
  nd_mac :: bytes

record ('d, 'e) nics =
  rtl8139 :: "'d rtl"
  e1000 :: "'e e1000"
  devs :: "nic_device list"
  active :: int

record nicstats =
  rx_ok :: u64
  rx_err :: u64
  rx_drop :: u64
  rx_ovw :: u64
  tx_ok :: u64
  tx_err :: u64
  tx_drop :: u64

text \<open>The hardware of both cards.\<close>

type_synonym ('d, 'e) cards = "'d rtl_hw \<times> 'e e_hw"


section \<open>Probing\<close>

definition with_rtl :: "('d rtl, bool) state \<Rightarrow> ('d, 'e) nics \<Rightarrow> bool \<times> ('d, 'e) nics" where
  "with_rtl m s =
     (case run_state m ((rtl8139 s)\<lparr>nic_frames := frames (e_sys (e1000 s))\<rparr>) of
        (r, t) \<Rightarrow> (r, s\<lparr>rtl8139 := t, e1000 := (e1000 s)\<lparr>e_sys := (e_sys (e1000 s))\<lparr>frames := nic_frames t\<rparr>\<rparr>\<rparr>))"

definition with_e1000 :: "('e e1000, bool) state \<Rightarrow> ('d, 'e) nics \<Rightarrow> bool \<times> ('d, 'e) nics" where
  "with_e1000 m s = (case run_state m (e1000 s) of (r, t) \<Rightarrow> (r, s\<lparr>e1000 := t\<rparr>))"

fun drv_probe :: "('d, 'e) cards \<Rightarrow> driver \<Rightarrow> pci_device \<Rightarrow> ('d, 'e) nics \<Rightarrow> bool \<times> ('d, 'e) nics" where
  "drv_probe (hr, he) Drv_e1000 p s = with_e1000 (e1000_nic_probe he p) s"
| "drv_probe (hr, he) Drv_rtl8139 p s = with_rtl (rtl8139_nic_probe hr p) s"

fun drv_mac :: "driver \<Rightarrow> ('d, 'e) nics \<Rightarrow> bytes" where
  "drv_mac Drv_e1000 s = e_mac (e1000 s)"
| "drv_mac Drv_rtl8139 s = mac (rtl8139 s)"

definition DRIVERS :: "driver list" where
  "DRIVERS = [Drv_e1000, Drv_rtl8139]"

definition nic_try :: "('d, 'e) cards \<Rightarrow> pci_device \<Rightarrow> driver \<Rightarrow> ('d, 'e) nics \<Rightarrow> ('d, 'e) nics" where
  "nic_try hw p drv s =
     (if length (devs s) < NIC_MAX
      then
        case drv_probe hw drv p s of (ok, s) \<Rightarrow>
          if ok
          then s\<lparr>devs := devs s @ [\<lparr>nd_ops = drv, nd_kind = NIC_WIRED, nd_irq = uint (irq_line p), nd_up = True, nd_mac = drv_mac drv s\<rparr>]\<rparr>
          else s
      else s)"

fun nic_probe_all :: "('d, 'e) cards \<Rightarrow> pci_device list \<Rightarrow> ('d, 'e) nics \<Rightarrow> ('d, 'e) nics" where
  "nic_probe_all hw [] s = s"
| "nic_probe_all hw (p # ps) s =
     (if length (devs s) < NIC_MAX then nic_probe_all hw ps (fold (nic_try hw p) DRIVERS s) else s)"

definition nic_choose :: "nic_device list \<Rightarrow> int" where
  "nic_choose ds =
     (case find_from (\<lambda>i. nd_kind (ds ! i) = NIC_WIRED) 0 (length ds) of
        Some i \<Rightarrow> int i
      | None \<Rightarrow> if ds \<noteq> [] then 0 else - 1)"

text \<open>The loop over \<^verbatim>\<open>pci_get(idx++)\<close> runs over the entries that the last scan found.\<close>

definition nic_probe :: "('d, 'e) cards \<Rightarrow> 'a pci_scheme \<Rightarrow> ('d, 'e) nics \<Rightarrow> nat \<times> ('d, 'e) nics" where
  "nic_probe hw tab s =
     (let s = nic_probe_all hw (found tab) (s\<lparr>devs := []\<rparr>)
      in (length (devs s), s\<lparr>active := nic_choose (devs s)\<rparr>))"


section \<open>The cards\<close>

definition nic_count :: "('d, 'e) nics \<Rightarrow> nat" where "nic_count s = length (devs s)"

definition nic_active_idx :: "('d, 'e) nics \<Rightarrow> int" where "nic_active_idx s = active s"

definition nic_valid :: "int \<Rightarrow> ('d, 'e) nics \<Rightarrow> bool" where
  "nic_valid i s \<longleftrightarrow> 0 \<le> i \<and> i < int (length (devs s))"

definition nic_select :: "int \<Rightarrow> ('d, 'e) nics \<Rightarrow> bool \<times> ('d, 'e) nics" where
  "nic_select i s = (if nic_valid i s then (True, s\<lparr>active := i\<rparr>) else (False, s))"

definition nic_get :: "int \<Rightarrow> ('d, 'e) nics \<Rightarrow> nic_device option" where
  "nic_get i s = (if nic_valid i s then Some (devs s ! nat i) else None)"

definition nic_current :: "('d, 'e) nics \<Rightarrow> nic_device option" where
  "nic_current s = nic_get (active s) s"

fun drv_send :: "('d, 'e) cards \<Rightarrow> driver \<Rightarrow> bytes \<Rightarrow> nat \<Rightarrow> ('d, 'e) nics \<Rightarrow> ('d, 'e) nics" where
  "drv_send (hr, he) Drv_e1000 f len s = s\<lparr>e1000 := e1000_send he f len (e1000 s)\<rparr>"
| "drv_send (hr, he) Drv_rtl8139 f len s = s\<lparr>rtl8139 := snd (run_state (rtl8139_send hr f len) (rtl8139 s))\<rparr>"

definition nic_send :: "('d, 'e) cards \<Rightarrow> bytes \<Rightarrow> nat \<Rightarrow> ('d, 'e) nics \<Rightarrow> ('d, 'e) nics" where
  "nic_send hw f len s =
     (case nic_current s of None \<Rightarrow> s | Some d \<Rightarrow> if nd_up d then drv_send hw (nd_ops d) f len s else s)"

fun drv_active :: "driver \<Rightarrow> ('d, 'e) nics \<Rightarrow> bool" where
  "drv_active Drv_e1000 s = e_up (e1000 s)"
| "drv_active Drv_rtl8139 s = up (rtl8139 s)"

definition nic_up :: "('d, 'e) nics \<Rightarrow> bool" where
  "nic_up s = (case nic_current s of None \<Rightarrow> False | Some d \<Rightarrow> nd_up d \<and> drv_active (nd_ops d) s)"

fun drv_link :: "('d, 'e) cards \<Rightarrow> driver \<Rightarrow> ('d, 'e) nics \<Rightarrow> bool \<times> ('d, 'e) nics" where
  "drv_link (hr, he) Drv_e1000 s = with_e1000 (e1000_link he) s"
| "drv_link (hr, he) Drv_rtl8139 s = (case run_state (rtl8139_link hr) (rtl8139 s) of (r, t) \<Rightarrow> (r, s\<lparr>rtl8139 := t\<rparr>))"

definition nic_link :: "('d, 'e) cards \<Rightarrow> ('d, 'e) nics \<Rightarrow> bool \<times> ('d, 'e) nics" where
  "nic_link hw s =
     (case nic_current s of None \<Rightarrow> (False, s) | Some d \<Rightarrow> if nd_up d then drv_link hw (nd_ops d) s else (False, s))"

fun drv_stats :: "driver \<Rightarrow> ('d, 'e) nics \<Rightarrow> nicstats" where
  "drv_stats Drv_e1000 s =
     (let e = e1000 s
      in \<lparr>rx_ok = e_rx_ok e, rx_err = e_rx_err e, rx_drop = e_rx_drop e, rx_ovw = e_rx_ovw e, tx_ok = e_tx_ok e,
          tx_err = e_tx_err e, tx_drop = e_tx_drop e\<rparr>)"
| "drv_stats Drv_rtl8139 s =
     (let r = rtl8139 s
      in \<lparr>rx_ok = st_rx_ok r, rx_err = st_rx_err r, rx_drop = st_rx_drop r, rx_ovw = st_rx_ovw r, tx_ok = st_tx_ok r,
          tx_err = st_tx_err r, tx_drop = st_tx_drop r\<rparr>)"

definition nic_stats0 :: nicstats where
  "nic_stats0 = \<lparr>rx_ok = 0, rx_err = 0, rx_drop = 0, rx_ovw = 0, tx_ok = 0, tx_err = 0, tx_drop = 0\<rparr>"

definition nic_stats :: "('d, 'e) nics \<Rightarrow> nicstats" where
  "nic_stats s =
     (case nic_current s of None \<Rightarrow> nic_stats0 | Some d \<Rightarrow> if nd_up d then drv_stats (nd_ops d) s else nic_stats0)"


section \<open>Polls and interrupts\<close>

text \<open>A driver's handler may fail to return or write wildly.\<close>

definition lift_rtl :: "('d rtl \<Rightarrow> 'd rtl outcome option) \<Rightarrow> ('d, 'e) nics \<Rightarrow> ('d, 'e) nics outcome option" where
  "lift_rtl f s = map_option (map_outcome (\<lambda>t. s\<lparr>rtl8139 := t\<rparr>)) (f (rtl8139 s))"

definition lift_e1000 :: "('e e1000 \<Rightarrow> 'e e1000 option) \<Rightarrow> ('d, 'e) nics \<Rightarrow> ('d, 'e) nics outcome option" where
  "lift_e1000 f s = map_option (\<lambda>t. Returns (s\<lparr>e1000 := t\<rparr>)) (f (e1000 s))"

fun drv_poll :: "('d, 'e) cards \<Rightarrow> driver \<Rightarrow> ('d, 'e) nics \<Rightarrow> ('d, 'e) nics outcome option" where
  "drv_poll (hr, he) Drv_e1000 s = lift_e1000 (e1000_poll he) s"
| "drv_poll (hr, he) Drv_rtl8139 s = lift_rtl (rtl8139_poll hr) s"

fun drv_irq :: "('d, 'e) cards \<Rightarrow> driver \<Rightarrow> ('d, 'e) nics \<Rightarrow> ('d, 'e) nics outcome option" where
  "drv_irq (hr, he) Drv_e1000 s = lift_e1000 (e1000_irq he) s"
| "drv_irq (hr, he) Drv_rtl8139 s = lift_rtl (rtl8139_irq hr) s"

fun each_dev :: "(nic_device \<Rightarrow> bool) \<Rightarrow> (driver \<Rightarrow> 's \<Rightarrow> 's outcome option) \<Rightarrow> nic_device list \<Rightarrow> 's \<Rightarrow> 's outcome option" where
  "each_dev P f [] s = Some (Returns s)"
| "each_dev P f (d # ds) s =
     (if nd_up d \<and> P d
      then case f (nd_ops d) s of Some (Returns s) \<Rightarrow> each_dev P f ds s | r \<Rightarrow> r
      else each_dev P f ds s)"

definition nic_poll_all :: "('d, 'e) cards \<Rightarrow> ('d, 'e) nics \<Rightarrow> ('d, 'e) nics outcome option" where
  "nic_poll_all hw s = each_dev (\<lambda>_. True) (drv_poll hw) (devs s) s"

definition nic_irq :: "('d, 'e) cards \<Rightarrow> int \<Rightarrow> ('d, 'e) nics \<Rightarrow> ('d, 'e) nics outcome option" where
  "nic_irq hw line s = each_dev (\<lambda>d. nd_irq d = line) (drv_irq hw) (devs s) s"


section \<open>The table of cards\<close>

text \<open>
  Each driver serves at most one card and is up when it serves one, the table is within its bounds, and the active card is
  one of the table.
\<close>

definition devs_ok :: "('d, 'e) nics \<Rightarrow> bool" where
  "devs_ok s \<longleftrightarrow> distinct (map nd_ops (devs s)) \<and> (\<forall>d \<in> set (devs s). nd_up d \<and> nd_kind d = NIC_WIRED \<and> drv_active (nd_ops d) s)"

definition nic_inv :: "('d, 'e) nics \<Rightarrow> bool" where
  "nic_inv s \<longleftrightarrow> devs_ok s \<and> (if devs s = [] then active s = - 1 else nic_valid (active s) s)"

lemma setup_up: "up (snd (run_state (rtl8139_setup hw) s))"
  by (simp add: rtl8139_setup_def split: prod.splits)

lemma enable_up: "e_up (snd (run_state (enable_card hw) s))"
  by (simp add: enable_card_def reg_write_def reg_read_def split: prod.splits)

lemma rtl_probe_up:
  "run_state (rtl8139_nic_probe hw p) s = (True, s') \<Longrightarrow> \<not> up s \<and> up s'"
  using setup_up [of hw]
  by (auto simp: rtl8139_nic_probe_def rtl8139_init_def split: if_splits prod.splits) (metis snd_conv)+

lemma e1000_probe_up:
  "run_state (e1000_nic_probe hw p) s = (True, s') \<Longrightarrow> \<not> e_up s \<and> e_up s'"
  using enable_up [of hw]
  by (auto simp: e1000_nic_probe_def split: if_splits prod.splits) (metis snd_conv)+

lemma drv_active_frame [simp]: "drv_active d (s\<lparr>devs := ds\<rparr>) = drv_active d s" "drv_active d (s\<lparr>active := i\<rparr>) = drv_active d s"
  by (cases d; simp)+

lemma rtl_probe_busy: "up s \<Longrightarrow> run_state (rtl8139_nic_probe hw p) s = (False, s)"
  by (simp add: rtl8139_nic_probe_def)

lemma e1000_probe_busy: "e_up s \<Longrightarrow> run_state (e1000_nic_probe hw p) s = (False, s)"
  by (simp add: e1000_nic_probe_def)

lemma drv_probe_effect:
  assumes "drv_probe hw drv p s = (ok, s')"
  shows "devs s' = devs s" "active s' = active s" "ok \<Longrightarrow> \<not> drv_active drv s \<and> drv_active drv s'"
    "drv_active d s \<Longrightarrow> drv_active d s'"
proof -
  obtain hr he where hw: "hw = (hr, he)" by (cases hw)
  have "devs s' = devs s \<and> active s' = active s \<and> (ok \<longrightarrow> \<not> drv_active drv s \<and> drv_active drv s')
      \<and> (drv_active d s \<longrightarrow> drv_active d s')"
  proof (cases drv)
    case Drv_e1000
    obtain t where t: "run_state (e1000_nic_probe he p) (e1000 s) = (ok, t)" "s' = s\<lparr>e1000 := t\<rparr>"
      using assms by (auto simp: hw Drv_e1000 with_e1000_def split: prod.splits)
    have "ok \<Longrightarrow> \<not> e_up (e1000 s) \<and> e_up t" using e1000_probe_up t(1) by (cases ok) auto
    moreover have "e_up (e1000 s) \<Longrightarrow> t = e1000 s" using e1000_probe_busy [of "e1000 s" he p] t(1) by simp
    ultimately show ?thesis using t(2) by (cases d) (auto simp: Drv_e1000)
  next
    case Drv_rtl8139
    let ?r = "(rtl8139 s)\<lparr>nic_frames := frames (e_sys (e1000 s))\<rparr>"
    obtain t where t: "run_state (rtl8139_nic_probe hr p) ?r = (ok, t)"
        "s' = s\<lparr>rtl8139 := t, e1000 := (e1000 s)\<lparr>e_sys := (e_sys (e1000 s))\<lparr>frames := nic_frames t\<rparr>\<rparr>\<rparr>"
      using assms by (auto simp: hw Drv_rtl8139 with_rtl_def split: prod.splits)
    have "ok \<Longrightarrow> \<not> up (rtl8139 s) \<and> up t" using rtl_probe_up [of hr p ?r t] t(1) by (cases ok) auto
    moreover have "up (rtl8139 s) \<Longrightarrow> up t" using rtl_probe_busy [of ?r hr p] t(1) by auto
    ultimately show ?thesis using t(2) by (cases d) (auto simp: Drv_rtl8139)
  qed
  then show "devs s' = devs s" "active s' = active s" "ok \<Longrightarrow> \<not> drv_active drv s \<and> drv_active drv s'"
    "drv_active d s \<Longrightarrow> drv_active d s'" by auto
qed

lemma nic_try_ok: "devs_ok s \<Longrightarrow> devs_ok (nic_try hw p drv s)"
proof -
  assume a: "devs_ok s"
  obtain ok s' where s': "drv_probe hw drv p s = (ok, s')" by force
  note e = drv_probe_effect [OF s']
  have up: "\<forall>d \<in> set (devs s). nd_up d \<and> nd_kind d = NIC_WIRED \<and> drv_active (nd_ops d) s'"
    using a e(4) by (auto simp: devs_ok_def)
  have "drv \<notin> nd_ops ` set (devs s)" if ok using a e(3) [OF that] by (auto simp: devs_ok_def)
  then show ?thesis using a up e s'
    by (cases ok; cases drv) (auto simp: nic_try_def devs_ok_def)
qed

lemma nic_probe_all_ok: "devs_ok s \<Longrightarrow> devs_ok (nic_probe_all hw ps s)"
  by (induction ps arbitrary: s) (auto simp: DRIVERS_def intro: nic_try_ok)

lemma two_drivers: "distinct (ds :: driver list) \<Longrightarrow> length ds \<le> 2"
proof -
  assume d: "distinct ds"
  have "set ds \<subseteq> {Drv_e1000, Drv_rtl8139}" using driver.exhaust by auto
  then have "card (set ds) \<le> card {Drv_e1000, Drv_rtl8139}" by (intro card_mono) auto
  then show ?thesis using distinct_card [OF d] by simp
qed

text \<open>
  Probing leaves a consistent table, whatever cards and memory it finds: at most one card for each driver, every card
  wired and with a driver that is running, and an active card that is the first of the table, or \<open>- 1\<close>
  exactly when there is none. Selecting keeps this and refuses exactly the indices outside the
  table, and a frame that is sent reaches at most the active card.
\<close>

theorem nic_probe_correct:
  "case nic_probe hw tab s of (n, s') \<Rightarrow>
     nic_inv s' \<and> n = length (devs s') \<and> n \<le> 2 \<and> active s' = (if n = 0 then - 1 else 0)
     \<and> nic_inv (snd (nic_select i s')) \<and> fst (nic_select i s') = nic_valid i s'
     \<and> nic_current (snd (nic_select i s')) = (if nic_valid i s' then Some (devs s' ! nat i) else nic_current s')
     \<and> nic_send hw f len s' = (if n = 0 then s' else drv_send hw (nd_ops (devs s' ! 0)) f len s')"
proof -
  define s1 where "s1 = nic_probe_all hw (found tab) (s\<lparr>devs := []\<rparr>)"
  define s' where "s' = s1\<lparr>active := nic_choose (devs s1)\<rparr>"
  have p: "nic_probe hw tab s = (length (devs s1), s')" by (simp add: nic_probe_def s1_def s'_def Let_def)
  have "devs_ok (s\<lparr>devs := []\<rparr>)" by (simp add: devs_ok_def)
  then have ok1: "devs_ok s1" unfolding s1_def by (rule nic_probe_all_ok)
  then have ok: "devs_ok s'" by (simp add: devs_ok_def s'_def)
  have two: "length (devs s') \<le> 2" using two_drivers [of "map nd_ops (devs s')"] ok by (simp add: devs_ok_def)
  have act: "active s' = (if devs s' = [] then - 1 else 0)"
  proof (cases "devs s'")
    case Nil
    then show ?thesis by (simp add: s'_def nic_choose_def find_from.simps)
  next
    case (Cons d ds)
    then have "nd_kind (devs s1 ! 0) = NIC_WIRED" using ok by (simp add: devs_ok_def s'_def)
    then show ?thesis using Cons by (simp add: s'_def nic_choose_def find_from.simps)
  qed
  have inv: "nic_inv s'" using ok act by (auto simp: nic_inv_def nic_valid_def)
  have sel: "nic_inv (snd (nic_select i s'))" "fst (nic_select i s') = nic_valid i s'"
      "nic_current (snd (nic_select i s')) = (if nic_valid i s' then Some (devs s' ! nat i) else nic_current s')"
    using inv by (auto simp: nic_select_def nic_inv_def nic_valid_def devs_ok_def nic_current_def nic_get_def)
  have "nd_up (devs s' ! 0)" if "devs s' \<noteq> []" using ok that by (simp add: devs_ok_def)
  then have "nic_send hw f len s' = (if devs s' = [] then s' else drv_send hw (nd_ops (devs s' ! 0)) f len s')"
    using act by (auto simp: nic_send_def nic_current_def nic_get_def nic_valid_def)
  moreover have "devs s1 = devs s'" by (simp add: s'_def)
  ultimately show ?thesis using inv two act sel by (simp add: p)
qed

end
