(* ===== verification/Rtc.thy ===== *)
theory Rtc
  imports Device
begin

text \<open>
  The real-time clock, \<^verbatim>\<open>kernel/rtc.cpp\<close>: registers behind the index port \<^verbatim>\<open>0x70\<close>, the reading of a date with
  its conversions, and the time stamp. The wait for the end of an update has no bound in the code, so
  \<open>rtc_read\<close> is partial. The time stamp is shown to be the number of seconds since 1970 by comparing
  it with the calendar that \<open>next_day\<close> steps through.
\<close>

record rtcdate =
  second :: u8
  minute :: u8
  hour :: u8
  day :: u8
  month :: u8
  year :: u16
  century :: u8

definition cmos_read :: "'s io \<Rightarrow> u8 \<Rightarrow> ('s, u8) state" where
  "cmos_read io r = do { io_outb io 0x70 (r OR 0x80); io_wait io; io_inb io 0x71 }"

definition cmos_write :: "'s io \<Rightarrow> u8 \<Rightarrow> u8 \<Rightarrow> ('s, unit) state" where
  "cmos_write io r v = do { io_outb io 0x70 (r OR 0x80); io_wait io; io_outb io 0x71 v }"

definition bcd_to_bin :: "u8 \<Rightarrow> u8" where
  "bcd_to_bin v = drop_bit 4 v * 10 + (v AND 0x0F)"

definition read_reg_b :: "'s io \<Rightarrow> ('s, u8) state" where
  "read_reg_b io = cmos_read io 0x0B"

definition is_update_in_progress :: "'s io \<Rightarrow> ('s, bool) state" where
  "is_update_in_progress io = do { a \<leftarrow> cmos_read io 0x0A; done_with (a AND 0x80 \<noteq> 0) }"

definition rtc_init :: "'s io \<Rightarrow> ('s, unit) state" where
  "rtc_init io =
     do { b \<leftarrow> read_reg_b io;
          let b = (if b AND 0x04 = 0 then b OR 0x04 else b);
          let b = (if b AND 0x02 = 0 then b OR 0x02 else b);
          cmos_write io 0x0B b }"

text \<open>\<^verbatim>\<open>while (is_update_in_progress());\<close>\<close>

partial_function (option) wait_update :: "'s io \<Rightarrow> 's \<Rightarrow> 's option" where
  "wait_update io s =
     (case run_state (is_update_in_progress io) s of (p, s) \<Rightarrow> if p then wait_update io s else Some s)"

text \<open>The seven registers of a date, in the order they are read.\<close>

record rtcregs =
  r_sec :: u8
  r_min :: u8
  r_hr :: u8
  r_day :: u8
  r_mon :: u8
  r_yr :: u8
  r_cen :: u8

definition read_regs :: "'s io \<Rightarrow> ('s, rtcregs) state" where
  "read_regs io =
     do { sec \<leftarrow> cmos_read io 0x00; mn \<leftarrow> cmos_read io 0x02; hr \<leftarrow> cmos_read io 0x04; dy \<leftarrow> cmos_read io 0x07;
          mon \<leftarrow> cmos_read io 0x08; yr \<leftarrow> cmos_read io 0x09; cen \<leftarrow> cmos_read io 0x32;
          done_with \<lparr>r_sec = sec, r_min = mn, r_hr = hr, r_day = dy, r_mon = mon, r_yr = yr, r_cen = cen\<rparr> }"

text \<open>The second reading, and the register that tells the format.\<close>

definition reread_regs :: "'s io \<Rightarrow> rtcregs \<Rightarrow> ('s, rtcregs \<times> u8) state" where
  "reread_regs io r =
     do { again \<leftarrow> cmos_read io 0x00;
          r \<leftarrow> (if r_sec r \<noteq> again then read_regs io else done_with r);
          b \<leftarrow> read_reg_b io;
          done_with (r, b) }"

definition regs_from_bcd :: "rtcregs \<Rightarrow> rtcregs" where
  "regs_from_bcd r =
     \<lparr>r_sec = bcd_to_bin (r_sec r), r_min = bcd_to_bin (r_min r), r_hr = bcd_to_bin (r_hr r), r_day = bcd_to_bin (r_day r),
      r_mon = bcd_to_bin (r_mon r), r_yr = bcd_to_bin (r_yr r), r_cen = bcd_to_bin (r_cen r)\<rparr>"

definition hour_24 :: "u8 \<Rightarrow> u8" where
  "hour_24 hr = (let hr = (if hr AND 0x80 \<noteq> 0 then (hr AND 0x7F) + 12 else hr) in if hr = 24 then 0 else hr)"

definition rtc_decode :: "u8 \<Rightarrow> rtcregs \<Rightarrow> rtcdate" where
  "rtc_decode b r =
     (let r = (if b AND 0x02 = 0 then regs_from_bcd r else r);
          hr = (if b AND 0x04 = 0 then hour_24 (r_hr r) else r_hr r);
          y = ucast (r_yr r) + 2000 :: u16;
          y = (if r_cen r > 0 \<and> y < 2000 then ucast (r_cen r) * 100 + ucast (r_yr r) else y)
      in \<lparr>second = r_sec r, minute = r_min r, hour = hr, day = r_day r, month = r_mon r, year = y, century = r_cen r\<rparr>)"

definition rtc_read :: "'s io \<Rightarrow> 's \<Rightarrow> (rtcdate \<times> 's) option" where
  "rtc_read io s =
     (case wait_update io s of None \<Rightarrow> None
      | Some s \<Rightarrow>
          case run_state (read_regs io) s of (r, s) \<Rightarrow>
            case wait_update io s of None \<Rightarrow> None
            | Some s \<Rightarrow> case run_state (reread_regs io r) s of ((r, b), s) \<Rightarrow> Some (rtc_decode b r, s))"


section \<open>The time stamp\<close>

definition leap :: "nat \<Rightarrow> bool" where
  "leap y \<longleftrightarrow> 4 dvd y \<and> (\<not> 100 dvd y \<or> 400 dvd y)"

definition days_in_month :: "nat list" where
  "days_in_month = [31, 28, 31, 30, 31, 30, 31, 31, 30, 31, 30, 31]"

text \<open>\<^verbatim>\<open>for (i = 1970; i < y; i++)\<close>\<close>

function year_days :: "nat \<Rightarrow> nat \<Rightarrow> u32 \<Rightarrow> u32" where
  "year_days i y ds = (if i < y then year_days (Suc i) y (ds + (if leap i then 366 else 365)) else ds)"
  by pat_completeness auto
termination by (relation "measure (\<lambda>(i, y, ds). y - i)") auto

declare year_days.simps [simp del]

text \<open>
  \<^verbatim>\<open>for (i = 1; i < m; i++)\<close>; \<open>None\<close> when the loop reads past the end of \<^verbatim>\<open>days_in_month\<close>, which it does for months
  from 14 on.
\<close>

function month_days :: "nat \<Rightarrow> nat \<Rightarrow> nat \<Rightarrow> u32 \<Rightarrow> u32 option" where
  "month_days i m y ds =
     (if i < m
      then
        if i - 1 < length days_in_month
        then month_days (Suc i) m y (ds + of_nat (days_in_month ! (i - 1)) + (if i = 2 \<and> leap y then 1 else 0))
        else None
      else Some ds)"
  by pat_completeness auto
termination by (relation "measure (\<lambda>(i, m, y, ds). m - i)") auto

declare month_days.simps [simp del]

definition rtc_seconds :: "rtcdate \<Rightarrow> u32 option" where
  "rtc_seconds d =
     (case month_days 1 (unat (month d)) (unat (year d)) (year_days 1970 (unat (year d)) 0) of
        None \<Rightarrow> None
      | Some ds \<Rightarrow>
          Some ((ds + (ucast (day d) - 1)) * 86400 + ucast (hour d) * 3600 + ucast (minute d) * 60 + ucast (second d)))"

definition rtc_timestamp :: "'s io \<Rightarrow> 's \<Rightarrow> (u32 \<times> 's) option" where
  "rtc_timestamp io s =
     (case rtc_read io s of None \<Rightarrow> None
      | Some (d, s) \<Rightarrow> case rtc_seconds d of None \<Rightarrow> None | Some t \<Rightarrow> Some (t, s))"


section \<open>The calendar\<close>

definition month_len :: "nat \<Rightarrow> nat \<Rightarrow> nat" where
  "month_len y m = (if m = 2 \<and> leap y then 29 else days_in_month ! (m - 1))"

fun next_day :: "nat \<times> nat \<times> nat \<Rightarrow> nat \<times> nat \<times> nat" where
  "next_day (y, m, d) = (if d < month_len y m then (y, m, d + 1) else if m < 12 then (y, m + 1, 1) else (y + 1, 1, 1))"

text \<open>The date \<open>n\<close> days after the first of January 1970.\<close>

definition date_of :: "nat \<Rightarrow> nat \<times> nat \<times> nat" where
  "date_of n = (next_day ^^ n) (1970, 1, 1)"

fun valid_date :: "nat \<times> nat \<times> nat \<Rightarrow> bool" where
  "valid_date (y, m, d) \<longleftrightarrow> 1970 \<le> y \<and> 1 \<le> m \<and> m \<le> 12 \<and> 1 \<le> d \<and> d \<le> month_len y m"

fun epoch_days :: "nat \<times> nat \<times> nat \<Rightarrow> nat" where
  "epoch_days (y, m, d) = (\<Sum>i = 1970..<y. if leap i then 366 else 365) + (\<Sum>i = 1..<m. month_len y i) + (d - 1)"

lemma month_cases:
  "1 \<le> m \<Longrightarrow> m \<le> 12 \<Longrightarrow>
     m = 1 \<or> m = 2 \<or> m = 3 \<or> m = 4 \<or> m = 5 \<or> m = 6 \<or> m = 7 \<or> m = 8 \<or> m = 9 \<or> m = 10 \<or> m = 11 \<or> m = (12 :: nat)"
  by presburger

lemma month_len_bounds: "1 \<le> m \<Longrightarrow> m \<le> 12 \<Longrightarrow> 28 \<le> month_len y m \<and> month_len y m \<le> 31"
  by (drule (1) month_cases) (elim disjE; simp add: month_len_def days_in_month_def)

lemma year_of_months: "(\<Sum>i = 1..<12. month_len y i) + 31 = (if leap y then 366 else 365)"
proof -
  have "{1..<12} = {1, 2, 3, 4, 5, 6, 7, 8, 9, 10, 11 :: nat}"
    unfolding set_eq_iff atLeastLessThan_iff insert_iff empty_iff by presburger
  then show ?thesis by (simp add: month_len_def days_in_month_def)
qed

lemma valid_next:
  assumes "valid_date x"
  shows "valid_date (next_day x)"
proof -
  obtain y m d where x: "x = (y, m, d)" by (cases x)
  have "1 \<le> month_len y (m + 1)" if "m < 12" using month_len_bounds [of "m + 1" y] that by simp
  moreover have "1 \<le> month_len (y + 1) 1" using month_len_bounds [of 1 "y + 1"] by simp
  ultimately show ?thesis using assms by (simp add: x)
qed

lemma epoch_next:
  assumes "valid_date x"
  shows "epoch_days (next_day x) = Suc (epoch_days x)"
proof -
  obtain y m d where x: "x = (y, m, d)" by (cases x)
  have v: "1970 \<le> y" "1 \<le> m" "m \<le> 12" "1 \<le> d" "d \<le> month_len y m" using assms by (auto simp: x)
  consider "d < month_len y m" | "d = month_len y m" "m < 12" | "d = month_len y m" "m = 12" using v by linarith
  then show ?thesis
  proof cases
    case 3
    have "month_len y 12 = 31" by (simp add: month_len_def days_in_month_def)
    with 3 v year_of_months [of y] show ?thesis by (simp add: x)
  qed (use v in \<open>auto simp: x\<close>)
qed

lemma date_of_valid: "valid_date (date_of n)"
proof (induction n)
  case 0
  show ?case by (simp add: date_of_def month_len_def days_in_month_def)
qed (use valid_next in \<open>simp add: date_of_def\<close>)

lemma epoch_date_of: "epoch_days (date_of n) = n"
proof (induction n)
  case (Suc n)
  then show ?case using epoch_next [OF date_of_valid [of n]] by (simp add: date_of_def)
qed (simp add: date_of_def)

lemma prev_day:
  assumes "valid_date x" "x \<noteq> (1970, 1, 1)"
  shows "\<exists>x'. valid_date x' \<and> next_day x' = x"
proof -
  obtain y m d where x: "x = (y, m, d)" by (cases x)
  have v: "1970 \<le> y" "1 \<le> m" "m \<le> 12" "1 \<le> d" "d \<le> month_len y m" using assms(1) by (auto simp: x)
  consider "1 < d" | "d = 1" "1 < m" | "d = 1" "m = 1" "1970 < y" using v assms(2) by (fastforce simp: x)
  then show ?thesis
  proof cases
    case 1
    then show ?thesis using v by (intro exI [of _ "(y, m, d - 1)"]) (auto simp: x)
  next
    case 2
    then have "1 \<le> m - 1" "m - 1 \<le> 12" using v by auto
    then have "1 \<le> month_len y (m - 1)" using month_len_bounds [of "m - 1" y] by linarith
    with 2 v show ?thesis by (intro exI [of _ "(y, m - 1, month_len y (m - 1))"]) (auto simp: x)
  next
    case 3
    then show ?thesis using v
      by (intro exI [of _ "(y - 1, 12, 31)"]) (auto simp: x month_len_def days_in_month_def)
  qed
qed

lemma date_of_epoch: "valid_date x \<Longrightarrow> date_of (epoch_days x) = x"
proof (induction "epoch_days x" arbitrary: x rule: less_induct)
  case less
  show ?case
  proof (cases "x = (1970, 1, 1)")
    case True
    then show ?thesis by (simp add: date_of_def)
  next
    case False
    then obtain x' where x': "valid_date x'" "next_day x' = x" using prev_day less.prems by blast
    then have "epoch_days x = Suc (epoch_days x')" using epoch_next by blast
    then show ?thesis using less.hyps [of x'] x' by (simp add: date_of_def)
  qed
qed

lemma year_days_sum: "year_days i y ds = ds + of_nat (\<Sum>j = i..<y. if leap j then 366 else 365)"
proof (induction i y ds rule: year_days.induct)
  case (1 i y ds)
  then show ?case by (subst year_days.simps) (simp add: sum.atLeast_Suc_lessThan)
qed

lemma month_days_sum:
  "1 \<le> i \<Longrightarrow> m \<le> 13 \<Longrightarrow> month_days i m y ds = Some (ds + of_nat (\<Sum>j = i..<m. month_len y j))"
proof (induction i m y ds rule: month_days.induct)
  case (1 i m y ds)
  have step: "month_len y i = days_in_month ! (i - 1) + (if i = 2 \<and> leap y then 1 else 0)"
    by (simp add: month_len_def days_in_month_def)
  have len: "length days_in_month = 12" by (simp add: days_in_month_def)
  show ?case
  proof (cases "i < m")
    case True
    then have "i - 1 < length days_in_month" using 1(2,3) by (simp add: len)
    with 1 True show ?thesis
      by (subst month_days.simps) (simp add: sum.atLeast_Suc_lessThan step add.assoc)
  qed (subst month_days.simps, simp)
qed

lemma year_sum_bound: "(\<Sum>i = 1970..<y. if leap i then 366 else (365 :: nat)) \<le> 366 * (y - 1970)"
  using sum_bounded_above [of "{1970..<y}" "\<lambda>i. if leap i then 366 else 365" "366 :: nat"] by (simp add: mult.commute)


lemma rtc_seconds_correct:
  assumes d: "date_of n = (unat (year t), unat (month t), unat (day t))" and y: "unat (year t) < 2100"
    and h: "unat (hour t) < 24" "unat (minute t) < 60" "unat (second t) < 60"
  shows "\<exists>w. rtc_seconds t = Some w \<and> unat w = n * 86400 + unat (hour t) * 3600 + unat (minute t) * 60 + unat (second t)"
proof -
  let ?y = "unat (year t)" and ?m = "unat (month t)" and ?d = "unat (day t)"
  let ?Y = "\<Sum>i = 1970..<?y. if leap i then 366 else (365 :: nat)" and ?M = "\<Sum>i = 1..<?m. month_len ?y i"
  let ?w = "of_nat (n * 86400 + unat (hour t) * 3600 + unat (minute t) * 60 + unat (second t)) :: u32"
  have v: "valid_date (?y, ?m, ?d)" and n: "?Y + ?M + (?d - 1) = n"
    using date_of_valid [of n] epoch_date_of [of n] d by auto
  then have m: "1 \<le> ?m" "?m \<le> 12" and dd: "1 \<le> ?d" "?d \<le> 31" using month_len_bounds [of ?m ?y] by auto
  have "?M \<le> (\<Sum>i = 1..<?m. 31)" using m month_len_bounds by (intro sum_mono) auto
  then have "n \<le> 366 * 130 + 31 * 11 + 30" using year_sum_bound [of ?y] y m dd n by auto
  then have lt: "n * 86400 + unat (hour t) * 3600 + unat (minute t) * 60 + unat (second t) < 2 ^ 32" using h by simp
  have "of_nat n = of_nat ?Y + of_nat ?M + (of_nat (?d - 1) :: u32)" unfolding n [symmetric] by (simp only: of_nat_add)
  moreover have "of_nat (?d - 1) = (ucast (day t) - 1 :: u32)" using dd by (simp add: of_nat_diff)
  ultimately have "rtc_seconds t = Some ?w"
    using m by (simp add: rtc_seconds_def month_days_sum year_days_sum add.assoc)
  moreover have "unat ?w = n * 86400 + unat (hour t) * 3600 + unat (minute t) * 60 + unat (second t)"
    using lt by (intro unat_of_nat_small) simp
  ultimately show ?thesis by blast
qed

definition bcd :: "nat \<Rightarrow> u8" where
  "bcd n = of_nat (16 * (n div 10) + n mod 10)"

lemma bcd_to_bin_bcd:
  assumes "n < 100"
  shows "unat (bcd_to_bin (bcd n)) = n"
proof -
  have "\<forall>n \<in> set [0..<100]. unat (bcd_to_bin (bcd n)) = n" by code_simp
  then show ?thesis using assms by (auto simp: set_upt)
qed

text \<open>The registers \<open>reg\<close> of a clock in 24-hour mode show this date and time, as binary or decimal numbers.\<close>

definition shows_time :: "(u8 \<Rightarrow> u8) \<Rightarrow> nat \<times> nat \<times> nat \<Rightarrow> nat \<Rightarrow> nat \<Rightarrow> nat \<Rightarrow> bool" where
  "shows_time reg ymd h mn sec \<longleftrightarrow>
     reg 0x0A AND 0x80 = 0 \<and> reg 0x0B AND 0x04 \<noteq> 0 \<and>
     (let enc = (if reg 0x0B AND 0x02 = 0 then bcd else of_nat)
      in reg 0x00 = enc sec \<and> reg 0x02 = enc mn \<and> reg 0x04 = enc h
         \<and> reg 0x07 = enc (snd (snd ymd)) \<and> reg 0x08 = enc (fst (snd ymd)) \<and> reg 0x09 = enc (fst ymd - 2000))"

definition regs_of :: "(u8 \<Rightarrow> u8) \<Rightarrow> rtcregs" where
  "regs_of reg =
     \<lparr>r_sec = reg 0x00, r_min = reg 0x02, r_hr = reg 0x04, r_day = reg 0x07, r_mon = reg 0x08, r_yr = reg 0x09, r_cen = reg 0x32\<rparr>"

lemma rtc_read_steady:
  assumes r: "\<forall>r. reads_as D (cmos_read io r) (reg r)" and s: "s \<in> D" and u: "reg 0x0A AND 0x80 = 0"
  shows "\<exists>s'. s' \<in> D \<and> rtc_read io s = Some (rtc_decode (reg 0x0B) (regs_of reg), s')"
proof -
  have R: "reads_as D (cmos_read io r) (reg r)" for r using r by blast
  have "reads_as D (is_update_in_progress io) False"
    unfolding is_update_in_progress_def by (rule reads_as_bind [OF R]) (simp add: u reads_as_return)
  then have w: "\<exists>s'. wait_update io s = Some s' \<and> s' \<in> D" if "s \<in> D" for s
    using reads_asD [OF _ that] by (subst wait_update.simps) fastforce
  have a: "reads_as D (read_regs io) (regs_of reg)"
    unfolding read_regs_def regs_of_def by (intro reads_as_bind [OF R] reads_as_return)
  have b: "reads_as D (reread_regs io (regs_of reg)) (regs_of reg, reg 0x0B)"
    unfolding reread_regs_def read_reg_b_def
    by (rule reads_as_bind [OF R]) (simp add: regs_of_def, intro reads_as_bind [OF R] reads_as_return)
  obtain s1 s2 s3 s4 where
    "wait_update io s = Some s1" "s1 \<in> D" "run_state (read_regs io) s1 = (regs_of reg, s2)" "s2 \<in> D"
    "wait_update io s2 = Some s3" "s3 \<in> D"
    "run_state (reread_regs io (regs_of reg)) s3 = ((regs_of reg, reg 0x0B), s4)" "s4 \<in> D"
    using w [OF s] reads_asD [OF a] w reads_asD [OF b] by metis
  then show ?thesis by (auto simp: rtc_read_def)
qed

lemma unat_year: "unat (ucast (v :: u8) + 2000 :: u16) = unat v + 2000"
  using unsigned_less [of v, where 'a = nat] by (simp add: unat_word_ariths unsigned_ucast_eq take_bit_nat_eq_self)

lemma shows_time_decode:
  assumes "shows_time reg (y, m, d) h mn sec" "2000 \<le> y" "y < 2100" "m < 100" "d < 100" "h < 24" "mn < 60" "sec < 60"
  shows "rtc_decode (reg 0x0B) (regs_of reg) =
     \<lparr>second = of_nat sec, minute = of_nat mn, hour = of_nat h, day = of_nat d, month = of_nat m, year = of_nat y,
      century = century (rtc_decode (reg 0x0B) (regs_of reg))\<rparr>"
proof -
  have b: "bcd_to_bin (bcd n) = of_nat n" if "n < 100" for n
    using bcd_to_bin_bcd [OF that] that by (simp add: word_unat_eq_iff unat_of_nat_small)
  let ?yr = "of_nat (y - 2000) :: u8"
  have n: "y - 2000 < 100" "h < 100" "mn < 100" "sec < 100" using assms(3,6-8) by auto
  have u: "unat (ucast ?yr + 2000 :: u16) = y"
  proof -
    have "unat ?yr = y - 2000" using n(1) by (intro unat_of_nat_small) simp
    then show ?thesis using assms(2) by (simp only: unat_year)
  qed
  then have yr: "(ucast ?yr + 2000 :: u16) = of_nat y" using assms(3) by (simp add: word_unat_eq_iff unat_of_nat_small)
  have ge: "\<not> (ucast ?yr + 2000 :: u16) < 2000" using u assms(2) by (simp add: word_less_nat_alt)
  show ?thesis
    using assms(1) ge yr n
    by (cases "reg 0x0B AND 0x02 = 0")
      (simp_all add: shows_time_def rtc_decode_def regs_from_bcd_def regs_of_def b assms(4,5) Let_def)
qed



text \<open>A clock that shows the 29th of February 2024, 23:59:58, in decimal form.\<close>

definition rtc_ex_reg :: "u8 \<Rightarrow> u8" where
  "rtc_ex_reg r =
     (if r = 0x00 then 0x58 else if r = 0x02 then 0x59 else if r = 0x04 then 0x23 else if r = 0x07 then 0x29
      else if r = 0x08 then 0x02 else if r = 0x09 then 0x24 else if r = 0x0B then 0x04 else 0)"

definition rtc_ex_io :: "u8 io" where
  "rtc_ex_io =
     \<lparr>in8 = (\<lambda>p s. (rtc_ex_reg (s AND 0x7F), s)), in16 = (\<lambda>p s. (0, s)), in32 = (\<lambda>p s. (0, s)),
      out8 = (\<lambda>p v s. if p = 0x70 then v else s), out16 = (\<lambda>p v s. s), out32 = (\<lambda>p v s. s)\<rparr>"

text \<open>The clock answers for every register below 128.\<close>

lemma rtc_ex_steady: "reads_as UNIV (cmos_read rtc_ex_io r) (rtc_ex_reg (r AND 0x7F))"
proof -
  have "(r OR 0x80) AND 0x7F = (r AND 0x7F :: u8)" by (simp add: bit.conj_disj_distrib2)
  then show ?thesis by (simp add: reads_as_def cmos_read_def device_simps rtc_ex_io_def)
qed


text \<open>
  In 12-hour mode noon and midnight are exchanged (twelve o'clock is \<open>12\<close> with or without the afternoon bit), and in
  decimal form the afternoon bit is lost by the conversion.
\<close>

lemma hour_24_noon: "hour_24 (12 OR 0x80) = 0" "hour_24 12 = 12"
  by code_simp+

lemma hour_24_bcd: "hour_24 (bcd_to_bin (bcd 1 OR 0x80)) = 81"
  by code_simp

text \<open>The correction by the century register is never made.\<close>

lemma century_unused: "unat (year (rtc_decode b r)) \<ge> 2000"
  by (simp add: rtc_decode_def Let_def word_less_nat_alt unat_year)

end
