(* ===== verification/Net_Text.thy ===== *)
theory Net_Text
  imports Bytes
begin

text \<open>
  Addresses as text, \<^verbatim>\<open>kernel/net.cpp\<close>: \<^verbatim>\<open>net_ip6_fmt\<close>, \<^verbatim>\<open>net_ip6_parse\<close> and \<^verbatim>\<open>net_parse_ip\<close>. Strings are lists of their
  characters without the final zero. What is printed for an IPv6 address is shown to be parsed back to
  it.
\<close>

section \<open>Printing IPv6 addresses\<close>

definition COLON :: u8 where "COLON = 58"

definition group :: "bytes \<Rightarrow> nat \<Rightarrow> u16" where
  "group a i = push_bit 8 (ucast (a ! (2 * i))) OR ucast (a ! (2 * i + 1))"

definition zero_group :: "bytes \<Rightarrow> nat \<Rightarrow> bool" where
  "zero_group a i \<longleftrightarrow> a ! (2 * i) = 0 \<and> a ! (2 * i + 1) = 0"

text \<open>The search for the longest run of zero groups: start and length of the best one and of the present one.\<close>

definition zero_scan :: "bytes \<Rightarrow> nat \<Rightarrow> (nat option \<times> nat) \<times> (nat option \<times> nat) \<Rightarrow> (nat option \<times> nat) \<times> (nat option \<times> nat)" where
  "zero_scan a i st =
     (case st of ((bb, bl), (cb, cl)) \<Rightarrow>
        if zero_group a i
        then
          let (cb, cl) = (if cb = None then (Some i, 1) else (cb, cl + 1))
          in if bl < cl then ((cb, cl), (cb, cl)) else ((bb, bl), (cb, cl))
        else ((bb, bl), (None, cl)))"

definition best_run :: "bytes \<Rightarrow> nat option" where
  "best_run a =
     (case fold (zero_scan a) [0..<8] ((None, 0), (None, 0)) of ((bb, bl), _) \<Rightarrow> if bl < 2 then None else bb)"

text \<open>\<^verbatim>\<open>while (i + 1 < 8 && group i + 1 is zero) i++;\<close>\<close>

function skip_zeros :: "bytes \<Rightarrow> nat \<Rightarrow> nat" where
  "skip_zeros a i = (if i + 1 < 8 \<and> zero_group a (i + 1) then skip_zeros a (i + 1) else i)"
  by auto
termination by (relation "measure (\<lambda>(a, i). 8 - i)") auto

declare skip_zeros.simps [simp del]

definition hex_digit :: "u16 \<Rightarrow> u8" where
  "hex_digit d = (if d < 10 then 48 + ucast d else 87 + ucast d)"

text \<open>\<^verbatim>\<open>do { tmp[n++] = digit; g >>= 4; } while (g && n < 4);\<close> and the digits in reverse.\<close>

fun hex_digits :: "nat \<Rightarrow> u16 \<Rightarrow> bytes" where
  "hex_digits 0 g = []"
| "hex_digits (Suc n) g =
     (let r = drop_bit 4 g in (if r \<noteq> 0 then hex_digits n r else []) @ [hex_digit (g AND 0xF)])"

definition put_char :: "nat \<Rightarrow> u8 \<Rightarrow> bytes \<Rightarrow> bytes" where
  "put_char cap c out = (if length out < cap - 1 then out @ [c] else out)"

lemma skip_zeros_ge: "i \<le> skip_zeros a i"
proof (induction a i rule: skip_zeros.induct)
  case (1 a i)
  then show ?case by (subst skip_zeros.simps) auto
qed

lemma skip_zeros_less: "i < 8 \<Longrightarrow> 7 - skip_zeros a i < 8 - i"
  using skip_zeros_ge [of i a] by linarith

function fmt_groups :: "bytes \<Rightarrow> nat \<Rightarrow> nat option \<Rightarrow> nat \<Rightarrow> bool \<Rightarrow> bytes \<Rightarrow> bytes" where
  "fmt_groups a cap bb i after_dc out =
     (if i < 8
      then
        if bb = Some i
        then if length out + 2 \<ge> cap then out
             else fmt_groups a cap bb (Suc (skip_zeros a i)) True (out @ [COLON, COLON])
        else
          let out = (if 0 < i \<and> \<not> after_dc then put_char cap COLON out else out)
          in fmt_groups a cap bb (Suc i) False (fold (put_char cap) (hex_digits 4 (group a i)) out)
      else out)"
  by auto
termination
  by (relation "measure (\<lambda>(a, cap, bb, i, dc, out). 8 - i)")
    (auto simp: skip_zeros_less)

declare fmt_groups.simps [simp del]

definition net_ip6_fmt :: "bytes \<Rightarrow> nat \<Rightarrow> bytes" where
  "net_ip6_fmt a cap = take (cap - 1) (fmt_groups a cap (best_run a) 0 False [])"


section \<open>Parsing IPv6 addresses\<close>

definition hex_value :: "u8 \<Rightarrow> u32 option" where
  "hex_value c =
     (if 48 \<le> c \<and> c \<le> 57 then Some (ucast c - 48)
      else if 97 \<le> c \<and> c \<le> 102 then Some (ucast c - 87)
      else if 65 \<le> c \<and> c \<le> 70 then Some (ucast c - 55)
      else None)"

text \<open>The digits of one group: its value, their number and the rest of the string.\<close>

fun parse_group :: "bytes \<Rightarrow> u32 \<Rightarrow> nat \<Rightarrow> (u32 \<times> nat \<times> bytes) option" where
  "parse_group [] v d = Some (v, d, [])"
| "parse_group (c # cs) v d =
     (if c = COLON then Some (v, d, c # cs)
      else
        case hex_value c of None \<Rightarrow> None
        | Some h \<Rightarrow> if 4 < d + 1 then None else parse_group cs (v * 16 + h) (d + 1))"

lemma parse_group_shorter: "parse_group s v d = Some (v', d', r) \<Longrightarrow> length r + d' = length s + d"
  by (induction s v d rule: parse_group.induct) (auto split: if_splits option.splits)

text \<open>The loop over the groups: those found so far, whether \<^verbatim>\<open>::\<close> was seen and how many groups were before it.\<close>

function parse_groups :: "bytes \<Rightarrow> u16 list \<Rightarrow> bool \<Rightarrow> nat option \<Rightarrow> (u16 list \<times> bool \<times> nat option) option" where
  "parse_groups s g dc before =
     (if s = [] then Some (g, dc, before)
      else
        case parse_group s 0 0 of
          None \<Rightarrow> None
        | Some (v, d, r) \<Rightarrow>
            if d = 0 \<or> 8 \<le> length g then None
            else
              let g = g @ [ucast v]
              in if take 2 r = [COLON, COLON]
                 then if dc then None else parse_groups (drop 2 r) g True (Some (length g))
                 else if take 1 r = [COLON]
                 then if drop 1 r = [] then None else parse_groups (drop 1 r) g dc before
                 else parse_groups r g dc before)"
  by auto
termination
  by (relation "measure (\<lambda>(s, g, dc, b). length s)") (auto dest!: parse_group_shorter)

declare parse_groups.simps [simp del]

definition group_bytes :: "u16 list \<Rightarrow> bytes" where
  "group_bytes gs = concat (map (\<lambda>w. [ucast (drop_bit 8 w), ucast (w AND 0xFF)]) gs)"

definition net_ip6_parse :: "bytes \<Rightarrow> bytes option" where
  "net_ip6_parse s =
     (case (if take 2 s = [COLON, COLON] then parse_groups (drop 2 s) [] True None else parse_groups s [] False None) of
        None \<Rightarrow> None
      | Some (g, dc, before) \<Rightarrow>
          if dc
          then
            if 8 \<le> length g then None
            else
              let b = (case before of None \<Rightarrow> 0 | Some b \<Rightarrow> b)
              in Some (group_bytes (take b g) @ replicate (16 - 2 * length g) 0 @ group_bytes (drop b g))
          else if length g \<noteq> 8 then None else Some (group_bytes g))"


section \<open>Parsing IPv4 addresses\<close>

text \<open>The digits of one part; \<open>None\<close> when the value passes 255.\<close>

fun parse_part :: "bytes \<Rightarrow> nat \<Rightarrow> (nat \<times> bytes) option" where
  "parse_part [] v = Some (v, [])"
| "parse_part (c # cs) v =
     (if 48 \<le> c \<and> c \<le> 57
      then let v = v * 10 + unat (c - 48) in if 255 < v then None else parse_part cs v
      else Some (v, c # cs))"

lemma parse_part_shorter: "parse_part s v = Some (v', r) \<Longrightarrow> length r \<le> length s"
  by (induction s v rule: parse_part.induct) (auto simp: Let_def split: if_splits)

lemma parse_part_digit:
  "parse_part (c # cs) v = Some (v', r) \<Longrightarrow> 48 \<le> c \<Longrightarrow> c \<le> 57 \<Longrightarrow> length r - 1 \<le> length cs"
  by (rule le_trans [of _ "length r"]) (auto simp: Let_def split: if_splits dest: parse_part_shorter)

text \<open>\<open>(ip, segs, rest)\<close> when the loop is left regularly.\<close>

function parse_parts :: "bytes \<Rightarrow> u32 \<Rightarrow> nat \<Rightarrow> (u32 \<times> nat \<times> bytes) option" where
  "parse_parts s ip segs =
     (case s of
        [] \<Rightarrow> Some (ip, segs, [])
      | c # cs \<Rightarrow>
          if \<not> (48 \<le> c \<and> c \<le> 57) then None
          else
            case parse_part s 0 of
              None \<Rightarrow> None
            | Some (v, r) \<Rightarrow>
                let ip = push_bit 8 ip OR of_nat v; segs = segs + 1
                in if take 1 r = [46] then parse_parts (drop 1 r) ip segs else Some (ip, segs, r))"
  by auto
termination
  by (relation "measure (\<lambda>(s, ip, n). length s)") (auto dest: parse_part_digit simp: less_Suc_eq_le simp del: parse_part.simps)

declare parse_parts.simps [simp del]

definition net_parse_ip :: "bytes \<Rightarrow> u32 option" where
  "net_parse_ip s =
     (case parse_parts s 0 0 of
        Some (ip, segs, r) \<Rightarrow> if segs = 4 \<and> r = [] then Some ip else None
      | None \<Rightarrow> None)"


section \<open>The round trip\<close>

lemma group_zero: "zero_group a i \<Longrightarrow> group a i = 0"
  by (simp add: zero_group_def group_def)

lemma group_split: "ucast (drop_bit 8 (group a i)) = a ! (2 * i)" "ucast (group a i AND 0xFF) = a ! (2 * i + 1)"
proof -
  show "ucast (drop_bit 8 (group a i)) = a ! (2 * i)"
    by (rule bit_word_eqI) (auto simp: group_def bit_simps dest: bit_imp_le_length)
  have m: "group a i AND 0xFF = take_bit 8 (group a i)" by (simp add: take_bit_eq_mask mask_eq_exp_minus_1)
  show "ucast (group a i AND 0xFF) = a ! (2 * i + 1)"
    unfolding m by (rule bit_word_eqI) (auto simp: group_def bit_simps)
qed

lemma best_run_zero:
  assumes "best_run a = Some b"
  shows "b < 8 \<and> zero_group a b"
proof -
  define ok where "ok = (\<lambda>n. \<lambda>((bb :: nat option, bl :: nat), (cb :: nat option, cl :: nat)).
    (\<forall>b. bb = Some b \<longrightarrow> b < n \<and> zero_group a b) \<and> (\<forall>b. cb = Some b \<longrightarrow> b < n \<and> zero_group a b))"
  have "ok n (fold (zero_scan a) [0..<n] ((None, 0), (None, 0)))" for n
  proof (induction n)
    case 0
    then show ?case by (simp add: ok_def)
  next
    case (Suc n)
    then show ?case
      by (cases "fold (zero_scan a) [0..<n] ((None, 0), (None, 0))")
        (auto simp: ok_def zero_scan_def Let_def less_Suc_eq split: prod.splits if_splits)
  qed
  from this [of 8] assms show ?thesis
    by (auto simp: best_run_def ok_def split: prod.splits if_splits)
qed

lemma skip_zeros_bounds: "i < 8 \<Longrightarrow> skip_zeros a i < 8 \<and> (\<forall>j. i < j \<and> j \<le> skip_zeros a i \<longrightarrow> zero_group a j)"
proof (induction a i rule: skip_zeros.induct)
  case (1 a i)
  then show ?case by (subst (1 2) skip_zeros.simps) (auto, metis Suc_lessI)
qed

text \<open>The text without the limit of the buffer.\<close>

function ip6_text :: "bytes \<Rightarrow> nat option \<Rightarrow> nat \<Rightarrow> bool \<Rightarrow> bytes" where
  "ip6_text a bb i dc =
     (if i < 8
      then
        if bb = Some i then [COLON, COLON] @ ip6_text a bb (Suc (skip_zeros a i)) True
        else (if 0 < i \<and> \<not> dc then [COLON] else []) @ hex_digits 4 (group a i) @ ip6_text a bb (Suc i) False
      else [])"
  by auto
termination
  by (relation "measure (\<lambda>(a, bb, i, dc). 8 - i)")
    (auto simp: skip_zeros_less)

declare ip6_text.simps [simp del]

lemma hex_digits_length: "length (hex_digits n g) \<le> n"
  by (induction n g rule: hex_digits.induct) (auto simp: Let_def)

lemma put_chars: "length out + length cs \<le> cap - 1 \<Longrightarrow> fold (put_char cap) cs out = out @ cs"
  by (induction cs arbitrary: out) (auto simp: put_char_def)

lemma fmt_groups_text:
  "40 \<le> cap \<Longrightarrow> length out \<le> 5 * i - 1 \<Longrightarrow> fmt_groups a cap bb i dc out = out @ ip6_text a bb i dc"
proof (induction a cap bb i dc out rule: fmt_groups.induct)
  case (1 a cap bb i dc out)
  show ?case
  proof (cases "i < 8")
    case i: True
    show ?thesis
    proof (cases "bb = Some i")
      case True
      have len: "length out + 2 < cap" using i 1(3,4) by linarith
      have "length (out @ [COLON, COLON]) \<le> 5 * Suc (skip_zeros a i) - 1" using 1(4) skip_zeros_ge [of i a] by simp
      with 1(1) i True len 1(3) show ?thesis
        by (subst fmt_groups.simps, subst ip6_text.simps) simp
    next
      case False
      let ?o = "if 0 < i \<and> \<not> dc then put_char cap COLON out else out"
      have "length out < cap - 1" using i 1(3,4) by linarith
      then have o: "?o = out @ (if 0 < i \<and> \<not> dc then [COLON] else [])" by (simp add: put_char_def)
      have lo: "length ?o \<le> 5 * i" using 1(4) o by auto
      have h: "length (hex_digits 4 (group a i)) \<le> 4" by (rule hex_digits_length)
      have p: "fold (put_char cap) (hex_digits 4 (group a i)) ?o = ?o @ hex_digits 4 (group a i)"
        by (rule put_chars) (use i lo h 1(3) in linarith)
      have "length (?o @ hex_digits 4 (group a i)) \<le> 5 * Suc i - 1" using lo h by simp
      with 1(2) [OF i False refl] 1(3) p o i False show ?thesis
        by (subst fmt_groups.simps, subst ip6_text.simps) (simp add: Let_def)
    qed
  qed (subst fmt_groups.simps, subst ip6_text.simps, simp)
qed

lemma put_chars_bound: "length out \<le> cap - 1 \<Longrightarrow> length (fold (put_char cap) cs out) \<le> cap - 1"
  by (induction cs arbitrary: out) (auto simp: put_char_def)

lemma fmt_groups_bound: "length out \<le> cap - 1 \<Longrightarrow> length (fmt_groups a cap bb i dc out) \<le> cap - 1"
proof (induction a cap bb i dc out rule: fmt_groups.induct)
  case (1 a cap bb i dc out)
  have "length (if 0 < i \<and> \<not> dc then put_char cap COLON out else out) \<le> cap - 1" using 1(3) by (auto simp: put_char_def)
  from put_chars_bound [OF this] show ?case using 1 by (subst fmt_groups.simps) (simp add: Let_def)
qed

text \<open>A printed group is parsed back.\<close>

definition group_ends :: "bytes \<Rightarrow> bool" where
  "group_ends r \<longleftrightarrow> r = [] \<or> hd r = COLON"

lemma parse_group_end: "group_ends r \<Longrightarrow> parse_group r v d = Some (v, d, r)"
  by (cases r) (auto simp: group_ends_def)

lemma hex_digit_value:
  assumes "unat d < 16"
  shows "hex_value (hex_digit d) = Some (ucast d) \<and> hex_digit d \<noteq> COLON"
proof -
  have "\<forall>n \<in> set [0..<16]. hex_value (hex_digit (of_nat n)) = Some (ucast (of_nat n :: u16)) \<and> hex_digit (of_nat n) \<noteq> COLON"
    by code_simp
  then show ?thesis using assms by (metis atLeastLessThan_iff set_upt of_nat_unat ucast_id zero_le)
qed

lemma low_nibble: "unat (g AND 0xF) = unat (g :: u16) mod 16"
proof -
  have "g AND 0xF = take_bit 4 g" by (simp add: take_bit_eq_mask mask_eq_exp_minus_1)
  then show ?thesis by (simp only: unsigned_take_bit_eq take_bit_eq_mod [where 'a = nat]) simp
qed

lemma group_ends_parse: "hex_value c = Some h \<Longrightarrow> c \<noteq> COLON \<Longrightarrow> d < 4 \<Longrightarrow> parse_group (c # cs) v d = parse_group cs (v * 16 + h) (d + 1)"
  by simp

lemma hex_digits_parse:
  assumes "unat g < 16 ^ n" "0 < n" "n \<le> 4" "group_ends r" "d + n \<le> 4"
  shows "\<exists>k. 0 < k \<and> k \<le> n \<and> parse_group (hex_digits n g @ cs) v d = parse_group cs (v * 16 ^ k + ucast g) (d + k)"
  using assms
proof (induction n g arbitrary: v d cs rule: hex_digits.induct)
  case (2 n g)
  let ?r = "drop_bit 4 g" and ?l = "g AND 0xF"
  have ul: "unat ?l = unat g mod 16" by (rule low_nibble)
  have ur: "unat ?r = unat g div 16" by (simp only: unat_drop_bit_eq drop_bit_eq_div [where 'a = nat]) simp
  have h: "hex_value (hex_digit ?l) = Some (ucast ?l)" "hex_digit ?l \<noteq> COLON" using hex_digit_value [of ?l] ul by auto
  show ?case
  proof (cases "?r = 0")
    case True
    have "?l = g" using True ur ul by (simp add: word_unat_eq_iff)
    then show ?thesis using True h 2(6) by (intro exI [of _ 1]) simp
  next
    case False
    have "0 < n" using 2(2) False ur by (cases n) (auto simp: word_unat_eq_iff)
    moreover have "unat ?r < 16 ^ n" using 2(2) ur by (simp add: div_less_iff_less_mult mult.commute)
    ultimately obtain k where k: "0 < k" "k \<le> n"
      "parse_group (hex_digits n ?r @ hex_digit ?l # cs) v d = parse_group (hex_digit ?l # cs) (v * 16 ^ k + ucast ?r) (d + k)"
      using 2(1) [OF refl False, of d "hex_digit ?l # cs" v] 2(4,5,6) by auto
    have "parse_group (hex_digit ?l # cs) (v * 16 ^ k + ucast ?r) (d + k) = parse_group cs ((v * 16 ^ k + ucast ?r) * 16 + ucast ?l) (d + k + 1)"
      using h k(2) 2(6) by simp
    moreover have "ucast ?r * 16 + ucast ?l = (ucast g :: u32)"
    proof -
      have "unat (ucast ?r * 16 + ucast ?l :: u32) = unat g"
        using unsigned_less [of g, where 'a = nat] ul ur
        by (simp add: unat_word_ariths unsigned_ucast_eq take_bit_nat_eq_self)
      moreover have "unat (ucast g :: u32) = unat g"
        using unsigned_less [of g, where 'a = nat] by (simp add: unsigned_ucast_eq take_bit_nat_eq_self)
      ultimately show ?thesis by (simp add: word_unat_eq_iff)
    qed
    then have "(v * 16 ^ k + ucast ?r) * 16 + ucast ?l = v * 16 ^ (k + 1) + ucast g"
      by (metis (no_types, lifting) add.assoc distrib_right mult.assoc power_Suc2 Suc_eq_plus1)
    ultimately have "parse_group (hex_digits n ?r @ hex_digit ?l # cs) v d = parse_group cs (v * 16 ^ (k + 1) + ucast g) (d + (k + 1))"
      by (simp only: k(3) add.assoc)
    then show ?thesis using False k by (intro exI [of _ "k + 1"]) (simp add: Let_def del: parse_group.simps)
  qed
qed simp

lemma parse_group_hex:
  assumes "group_ends r"
  shows "\<exists>k. 0 < k \<and> parse_group (hex_digits 4 g @ r) 0 0 = Some (ucast g, k, r)"
proof -
  have "unat g < 16 ^ 4" using unsigned_less [of g, where 'a = nat] by simp
  then show ?thesis using hex_digits_parse [of g 4 r 0 r 0] assms by (auto simp: parse_group_end)
qed

lemma hex_digits_first: "hex_digits 4 g \<noteq> [] \<and> hd (hex_digits 4 g @ r) \<noteq> COLON"
proof -
  have d: "hex_digit (g AND 0xF) \<noteq> COLON" for g using hex_digit_value [of "g AND 0xF"] by (simp add: low_nibble)
  have "hex_digits (Suc n) g \<noteq> [] \<and> hd (hex_digits (Suc n) g @ r) \<noteq> COLON" for n g r
  proof (induction n arbitrary: g r)
    case (Suc n)
    show ?case
    proof (cases "drop_bit 4 g = 0")
      case False
      then show ?thesis using Suc.IH [of "drop_bit 4 g" "hex_digit (g AND 0xF) # r"]
        by (subst (1 2) hex_digits.simps) (simp only: Let_def, auto simp: hd_append simp del: hex_digits.simps)
    qed (simp add: d)
  qed (simp add: d Let_def)
  from this [of 3 g r] show ?thesis by (auto simp: hd_append simp del: hex_digits.simps)
qed

text \<open>The text from a group on, without a colon before it.\<close>

definition groups_from :: "bytes \<Rightarrow> nat \<Rightarrow> u16 list" where
  "groups_from a i = map (group a) [i..<8]"

lemma groups_from_Cons: "i < 8 \<Longrightarrow> groups_from a i = group a i # groups_from a (Suc i)"
  by (simp add: groups_from_def upt_conv_Cons [of i])

lemma groups_from_8 [simp]: "8 \<le> i \<Longrightarrow> groups_from a i = []"
  by (simp add: groups_from_def)

lemma parse_groups_step:
  assumes "group_ends r" "length g < 8"
  shows "parse_groups (hex_digits 4 w @ r) g dc before =
     (if take 2 r = [COLON, COLON]
      then if dc then None else parse_groups (drop 2 r) (g @ [w]) True (Some (length g + 1))
      else if take 1 r = [COLON]
      then if drop 1 r = [] then None else parse_groups (drop 1 r) (g @ [w]) dc before
      else parse_groups r (g @ [w]) dc before)"
proof -
  obtain k where k: "0 < k" "parse_group (hex_digits 4 w @ r) 0 0 = Some (ucast w, k, r)" using parse_group_hex [OF assms(1)] by blast
  have "ucast (ucast w :: u32) = w" by (rule bit_word_eqI) (simp add: bit_simps)
  then show ?thesis using hex_digits_first [of w r] k assms(2) by (subst parse_groups.simps) (simp add: Let_def)
qed

lemma ip6_text_plain: "bb \<noteq> Some i \<Longrightarrow> i < 8 \<Longrightarrow> ip6_text a bb i True = hex_digits 4 (group a i) @ ip6_text a bb (Suc i) False"
  "bb \<noteq> Some i \<Longrightarrow> i < 8 \<Longrightarrow> 0 < i \<Longrightarrow> ip6_text a bb i False = COLON # hex_digits 4 (group a i) @ ip6_text a bb (Suc i) False"
  "8 \<le> i \<Longrightarrow> ip6_text a bb i dc = []"
  "i < 8 \<Longrightarrow> ip6_text a (Some i) i dc = COLON # COLON # ip6_text a (Some i) (Suc (skip_zeros a i)) True"
  by (subst ip6_text.simps, simp)+

lemma ip6_text_ends: "0 < i \<Longrightarrow> group_ends (ip6_text a bb i False)"
  by (subst ip6_text.simps) (auto simp: group_ends_def)

text \<open>No run of zeros lies ahead.\<close>

lemma parse_plain:
  assumes "i < 8" "\<forall>b. bb = Some b \<longrightarrow> b < i" "length g + (8 - i) \<le> 8"
  shows "parse_groups (hex_digits 4 (group a i) @ ip6_text a bb (Suc i) False) g dc before = Some (g @ groups_from a i, dc, before)"
  using assms
proof (induction "8 - i" arbitrary: i g)
  case (Suc n)
  have e: "group_ends (ip6_text a bb (Suc i) False)" by (rule ip6_text_ends) simp
  show ?case
  proof (cases "Suc i < 8")
    case True
    have nb: "bb \<noteq> Some (Suc i)" using Suc.prems(2) by auto
    have t: "ip6_text a bb (Suc i) False = COLON # hex_digits 4 (group a (Suc i)) @ ip6_text a bb (Suc (Suc i)) False"
      using ip6_text_plain(2) [OF nb True] by simp
    have ne: "hex_digits 4 (group a (Suc i)) @ ip6_text a bb (Suc (Suc i)) False \<noteq> []"
      "take 2 (ip6_text a bb (Suc i) False) \<noteq> [COLON, COLON]"
      using hex_digits_first [of "group a (Suc i)" "ip6_text a bb (Suc (Suc i)) False"]
      by (auto simp: t take_Cons' hd_append neq_Nil_conv split: if_splits)
    have "parse_groups (hex_digits 4 (group a (Suc i)) @ ip6_text a bb (Suc (Suc i)) False) (g @ [group a i]) dc before =
        Some ((g @ [group a i]) @ groups_from a (Suc i), dc, before)"
      using Suc True by (intro Suc.hyps(1)) auto
    then show ?thesis
      using parse_groups_step [OF e, of g "group a i" dc before] ne Suc.prems True groups_from_Cons [of i a] by (simp add: t)
  next
    case False
    then have "i = 7" using Suc.prems(1) by simp
    then show ?thesis using parse_groups_step [OF e, of g "group a i" dc before] Suc.prems groups_from_Cons [of i a]
      by (simp add: ip6_text_plain(3) parse_groups.simps)
  qed
qed simp

text \<open>After a run of zeros that ends before group \<open>e\<close>.\<close>

lemma parse_after_run:
  assumes "b < e" "e \<le> 8" "length g + (8 - e) \<le> 8"
  shows "parse_groups (ip6_text a (Some b) e True) g dc before = Some (g @ groups_from a e, dc, before)"
proof (cases "e < 8")
  case True
  then have "ip6_text a (Some b) e True = hex_digits 4 (group a e) @ ip6_text a (Some b) (Suc e) False"
    using assms(1) by (intro ip6_text_plain(1)) auto
  then show ?thesis using parse_plain [of e "Some b" g a dc before] assms True by simp
next
  case False
  then show ?thesis by (simp add: ip6_text_plain(3) parse_groups.simps)
qed

lemma parse_before_run:
  assumes "i < b" "b < 8" "length g = i"
  shows "parse_groups (hex_digits 4 (group a i) @ ip6_text a (Some b) (Suc i) False) g False None =
     Some (g @ map (group a) [i..<b] @ groups_from a (Suc (skip_zeros a b)), True, Some b)"
  using assms
proof (induction "b - i" arbitrary: i g)
  case (Suc n)
  have e: "group_ends (ip6_text a (Some b) (Suc i) False)" by (rule ip6_text_ends) simp
  have i8: "length g < 8" using Suc.prems by simp
  have ib: "[i..<b] = i # [Suc i..<b]" using Suc.prems(1) by (rule upt_conv_Cons)
  show ?case
  proof (cases "Suc i = b")
    case True
    have sk: "skip_zeros a b < 8" "b \<le> skip_zeros a b" using skip_zeros_bounds [OF Suc.prems(2), of a] skip_zeros_ge [of b a] by auto
    then have "parse_groups (ip6_text a (Some b) (Suc (skip_zeros a b)) True) (g @ [group a i]) True (Some b) =
        Some ((g @ [group a i]) @ groups_from a (Suc (skip_zeros a b)), True, Some b)"
      using Suc.prems by (intro parse_after_run) auto
    then show ?thesis using parse_groups_step [OF e i8, of "group a i" False None] ip6_text_plain(4) [OF Suc.prems(2), of a False] True Suc.prems(3) ib
      by simp
  next
    case False
    then have lt: "Suc i < b" using Suc.prems(1) by simp
    have t: "ip6_text a (Some b) (Suc i) False = COLON # hex_digits 4 (group a (Suc i)) @ ip6_text a (Some b) (Suc (Suc i)) False"
      using ip6_text_plain(2) [of "Some b" "Suc i" a] False lt Suc.prems(2) by auto
    have ne: "hex_digits 4 (group a (Suc i)) @ ip6_text a (Some b) (Suc (Suc i)) False \<noteq> []"
      "take 2 (ip6_text a (Some b) (Suc i) False) \<noteq> [COLON, COLON]"
      using hex_digits_first [of "group a (Suc i)" "ip6_text a (Some b) (Suc (Suc i)) False"]
      by (auto simp: t take_Cons' hd_append neq_Nil_conv split: if_splits)
    have "parse_groups (hex_digits 4 (group a (Suc i)) @ ip6_text a (Some b) (Suc (Suc i)) False) (g @ [group a i]) False None =
        Some ((g @ [group a i]) @ map (group a) [Suc i..<b] @ groups_from a (Suc (skip_zeros a b)), True, Some b)"
      using Suc lt by (intro Suc.hyps(1)) auto
    then show ?thesis using parse_groups_step [OF e i8, of "group a i" False None] ne ib by (simp add: t)
  qed
qed simp

lemma group_bytes_from: "i \<le> 8 \<Longrightarrow> length a = 16 \<Longrightarrow> group_bytes (groups_from a i) = drop (2 * i) a"
proof (induction "8 - i" arbitrary: i)
  case (Suc n)
  then have i: "i < 8" by simp
  have "drop (2 * i) a = a ! (2 * i) # a ! (2 * i + 1) # drop (2 * Suc i) a"
    using i Suc.prems(2) by (simp add: Cons_nth_drop_Suc)
  moreover have "group_bytes (groups_from a (Suc i)) = drop (2 * Suc i) a" using Suc i by (intro Suc.hyps(1)) auto
  ultimately show ?case using i by (simp add: groups_from_Cons group_bytes_def group_split)
qed (simp add: group_bytes_def)

lemma group_bytes_upto: "b \<le> 8 \<Longrightarrow> length a = 16 \<Longrightarrow> group_bytes (map (group a) [0..<b]) = take (2 * b) a"
proof (induction b)
  case (Suc b)
  have "take (2 * Suc b) a = take (2 * b) a @ [a ! (2 * b), a ! (2 * b + 1)]"
    using Suc.prems by (simp add: take_Suc_conv_app_nth)
  then show ?case using Suc by (simp add: group_bytes_def group_split)
qed (simp add: group_bytes_def)

lemma zero_window:
  assumes "b \<le> e" "2 * e \<le> length a" "\<And>k. 2 * b \<le> k \<Longrightarrow> k < 2 * e \<Longrightarrow> a ! k = (0 :: u8)"
  shows "take (2 * b) a @ replicate (2 * (e - b)) 0 @ drop (2 * e) a = a"
proof -
  have "replicate (2 * (e - b)) 0 = take (2 * (e - b)) (drop (2 * b) a)"
    using assms by (intro nth_equalityI) auto
  moreover have "drop (2 * e) a = drop (2 * (e - b)) (drop (2 * b) a)" using assms(1) by (simp add: diff_mult_distrib2)
  ultimately show ?thesis by (simp only: append_take_drop_id)
qed

lemma zero_run_bytes:
  assumes "zero_group a b" "b < 8" "length a = 16"
  shows "take (2 * b) a @ replicate (2 * (Suc (skip_zeros a b) - b)) 0 @ drop (2 * Suc (skip_zeros a b)) a = a"
proof (rule zero_window)
  have e: "\<forall>j. b \<le> j \<and> j < Suc (skip_zeros a b) \<longrightarrow> zero_group a j"
    using skip_zeros_bounds [OF assms(2), of a] assms(1) by (auto simp: less_Suc_eq_le le_eq_less_or_eq)
  show "b \<le> Suc (skip_zeros a b)" "2 * Suc (skip_zeros a b) \<le> length a"
    using skip_zeros_bounds [OF assms(2), of a] skip_zeros_ge [of b a] assms(3) by auto
  fix k assume k: "2 * b \<le> k" "k < 2 * Suc (skip_zeros a b)"
  then have "b \<le> k div 2" "k div 2 < Suc (skip_zeros a b)" by auto
  then have "zero_group a (k div 2)" using e by blast
  then have "a ! (2 * (k div 2)) = 0" "a ! (2 * (k div 2) + 1) = 0" by (auto simp: zero_group_def)
  moreover have "k = 2 * (k div 2) \<or> k = 2 * (k div 2) + 1" by presburger
  ultimately show "a ! k = 0" by metis
qed

lemma net_ip6_fmt_text: "40 \<le> cap \<Longrightarrow> net_ip6_fmt a cap = ip6_text a (best_run a) 0 False"
  using fmt_groups_bound [of "[]" cap a "best_run a" 0 False] fmt_groups_text [of cap "[]" 0 a "best_run a" False]
  by (simp add: net_ip6_fmt_def)

lemma fmt_parse:
  assumes "length a = 16"
  shows "net_ip6_parse (net_ip6_fmt a (40 + n)) = Some a"
proof -
  have f: "net_ip6_fmt a (40 + n) = ip6_text a (best_run a) 0 False" by (rule net_ip6_fmt_text) simp
  show ?thesis
  proof (cases "best_run a")
    case None
    have t: "ip6_text a None 0 False = hex_digits 4 (group a 0) @ ip6_text a None (Suc 0) False" by (subst ip6_text.simps) simp
    have ne: "take 2 (ip6_text a None 0 False) \<noteq> [COLON, COLON]"
      using hex_digits_first [of "group a 0" "ip6_text a None (Suc 0) False"]
      by (auto simp: t take_Cons' hd_append neq_Nil_conv split: if_splits)
    have "parse_groups (ip6_text a None 0 False) [] False None = Some (groups_from a 0, False, None)"
      using parse_plain [of 0 None "[]" a False None] by (simp add: t)
    then show ?thesis using ne group_bytes_from [of 0 a] assms by (simp add: f None net_ip6_parse_def groups_from_def)
  next
    case (Some b)
    have b: "b < 8" "zero_group a b" using best_run_zero [OF Some] by auto
    let ?e = "Suc (skip_zeros a b)"
    have e: "b < ?e" "?e \<le> 8" using skip_zeros_bounds [OF b(1), of a] skip_zeros_ge [of b a] by auto
    have out: "group_bytes (map (group a) [0..<b]) @ replicate (16 - 2 * (b + (8 - ?e))) 0 @ group_bytes (groups_from a ?e) = a"
    proof -
      have "16 - 2 * (b + (8 - ?e)) = 2 * (?e - b)" using e b(1) by auto
      then show ?thesis using zero_run_bytes [OF b(2,1) assms] group_bytes_upto [of b a] group_bytes_from [of ?e a] b(1) e(2) assms by simp
    qed
    have lg: "length (groups_from a ?e) = 8 - ?e" by (simp add: groups_from_def)
    show ?thesis
    proof (cases "b = 0")
      case True
      have "parse_groups (ip6_text a (Some 0) ?e True) [] True None = Some (groups_from a ?e, True, None)"
        using parse_after_run [of 0 ?e "[]" a True None] e by simp
      then show ?thesis using out lg e ip6_text_plain(4) [of 0 a False] by (simp add: f Some True net_ip6_parse_def Let_def)
    next
      case False
      have t: "ip6_text a (Some b) 0 False = hex_digits 4 (group a 0) @ ip6_text a (Some b) (Suc 0) False"
        using False by (subst ip6_text.simps) simp
      have ne: "take 2 (ip6_text a (Some b) 0 False) \<noteq> [COLON, COLON]"
        using hex_digits_first [of "group a 0" "ip6_text a (Some b) (Suc 0) False"]
        by (auto simp: t take_Cons' hd_append neq_Nil_conv split: if_splits)
      have "parse_groups (ip6_text a (Some b) 0 False) [] False None =
          Some (map (group a) [0..<b] @ groups_from a ?e, True, Some b)"
        using parse_before_run [of 0 b "[]" a] False b(1) by (simp add: t)
      then show ?thesis using ne out lg e b(1) by (simp add: f Some net_ip6_parse_def Let_def)
    qed
  qed
qed

text \<open>
  C36. Printing never passes the end of the buffer, and in a buffer of 40 bytes or more every IPv6 address is printed in a
  form (with one run of zero groups shortened) that the parser turns back into the address.
\<close>

theorem ip6_text_roundtrip:
  assumes "length a = 16"
  shows "net_ip6_parse (net_ip6_fmt a (40 + n)) = Some a \<and> length (net_ip6_fmt a cap) \<le> cap - 1"
  using fmt_parse [OF assms] by (simp add: net_ip6_fmt_def)

theorem ip6_text_roundtrip_witness:
  "net_ip6_parse (net_ip6_fmt ([0xFE, 0x80] @ replicate 13 0 @ [1]) 40) = Some ([0xFE, 0x80] @ replicate 13 0 @ [1])"
  using ip6_text_roundtrip [of "[0xFE, 0x80] @ replicate 13 0 @ [1]" 0] by simp

text \<open>A dot after the fourth part is accepted.\<close>

lemma parse_ip_trailing_dot: "net_parse_ip [49, 46, 50, 46, 51, 46, 52, 46] = Some 0x01020304"
  by code_simp

end
