(* ===== verification/Cpu.thy ===== *)
theory Cpu
  imports Bytes
begin

text \<open>
  The tables of the processor: segments and task state, \<^verbatim>\<open>kernel/gdt.cpp\<close>, and interrupt gates,
  \<^verbatim>\<open>kernel/idt.cpp\<close>. The addresses of the task state, of the kernel stack and of the interrupt stubs come
  from the linker and from assembly and are arguments. The loading of the tables into the processor is
  left out. The bits are read back the way the processor reads them.
\<close>

section \<open>Segments\<close>

record tss =
  rsp0 :: u64
  rsp1 :: u64
  rsp2 :: u64
  ist :: "u64 list"
  iopb :: u16

definition TSS_SIZE :: u64 where "TSS_SIZE = 104"

definition tss_desc_low :: "u64 \<Rightarrow> u64" where
  "tss_desc_low bs0 =
     (let limit = TSS_SIZE - 1
      in (limit AND 0xFFFF) OR push_bit 16 (bs0 AND 0xFFFFFF) OR push_bit 40 0x89 OR push_bit 48 (drop_bit 16 limit AND 0xF)
           OR push_bit 56 (drop_bit 24 bs0 AND 0xFF))"

definition tss_write_desc :: "u64 \<Rightarrow> u64 list \<Rightarrow> u64 list" where
  "tss_write_desc bs0 g = g[6 := tss_desc_low bs0, 7 := drop_bit 32 bs0]"

definition gdt_init :: "u64 \<Rightarrow> u64 \<Rightarrow> u64 list \<times> tss" where
  "gdt_init tss_at kstack_top =
     (tss_write_desc tss_at
        [0x0000000000000000, 0x00AF9A000000FFFF, 0x00CF92000000FFFF, 0x00AF9A000000FFFF, 0x00CFF2000000FFFF, 0x00AFFA000000FFFF, 0, 0],
      \<lparr>rsp0 = kstack_top, rsp1 = 0, rsp2 = 0, ist = replicate 7 0, iopb = ucast TSS_SIZE\<rparr>)"

definition tss_set_rsp0 :: "u64 \<Rightarrow> tss \<Rightarrow> tss" where "tss_set_rsp0 v t = t\<lparr>rsp0 := v\<rparr>"


section \<open>Interrupt gates\<close>

record idt_gate =
  off0 :: u16
  sel :: u16
  gate_ist :: u8
  attr :: u8
  off1 :: u16
  off2 :: u32
  gate_zero :: u32

definition set_gate :: "(nat \<Rightarrow> u64) \<Rightarrow> nat \<Rightarrow> u16 \<Rightarrow> u8 \<Rightarrow> idt_gate list \<Rightarrow> idt_gate list" where
  "set_gate stubs i s a t =
     (let off = stubs i
      in t[i := \<lparr>off0 = ucast (off AND 0xFFFF), sel = s, gate_ist = 0, attr = a, off1 = ucast (drop_bit 16 off AND 0xFFFF),
                 off2 = ucast (drop_bit 32 off), gate_zero = 0\<rparr>])"

definition idt_init :: "(nat \<Rightarrow> u64) \<Rightarrow> idt_gate list \<Rightarrow> idt_gate list" where
  "idt_init stubs t = set_gate stubs 0x80 0x08 0xEE (fold (\<lambda>i. set_gate stubs i 0x08 0x8E) [0..<256] t)"


section \<open>What the processor reads\<close>

definition gate_offset :: "idt_gate \<Rightarrow> u64" where
  "gate_offset g = ucast (off0 g) OR push_bit 16 (ucast (off1 g)) OR push_bit 32 (ucast (off2 g))"

definition gate_dpl :: "idt_gate \<Rightarrow> u8" where "gate_dpl g = drop_bit 5 (attr g) AND 3"

definition gate_present :: "idt_gate \<Rightarrow> bool" where "gate_present g \<longleftrightarrow> bit (attr g) 7"

definition seg_dpl :: "u64 \<Rightarrow> u64" where "seg_dpl d = drop_bit 45 d AND 3"

definition seg_code :: "u64 \<Rightarrow> bool" where "seg_code d \<longleftrightarrow> bit d 44 \<and> bit d 43"

definition tss_base :: "u64 \<Rightarrow> u64 \<Rightarrow> u64" where
  "tss_base lo hi =
     (drop_bit 16 lo AND 0xFFFFFF) OR push_bit 24 (drop_bit 56 lo AND 0xFF) OR push_bit 32 (hi AND 0xFFFFFFFF)"

definition tss_limit :: "u64 \<Rightarrow> u64" where
  "tss_limit lo = (lo AND 0xFFFF) OR push_bit 16 (drop_bit 48 lo AND 0xF)"

lemma gate_offset_set:
  "gate_offset \<lparr>off0 = ucast (off AND 0xFFFF), sel = s, gate_ist = 0, attr = a, off1 = ucast (drop_bit 16 off AND 0xFFFF),
     off2 = ucast (drop_bit 32 off), gate_zero = 0\<rparr> = off"
proof -
  have m: "(x :: u64) AND 0xFFFF = take_bit 16 x" for x by (simp add: take_bit_eq_mask mask_eq_exp_minus_1)
  show ?thesis unfolding gate_offset_def idt_gate.select_convs m
  proof (rule bit_word_eqI)
    fix n assume "n < LENGTH(64)"
    then consider "n < 16" | "16 \<le> n" "n < 32" | "32 \<le> n" "n < 64" by fastforce
    then show "bit ((ucast (ucast (take_bit 16 off) :: u16) :: u64) OR push_bit 16 (ucast (ucast (take_bit 16 (drop_bit 16 off)) :: u16))
        OR push_bit 32 (ucast (ucast (drop_bit 32 off) :: u32))) n = bit off n"
      by cases (auto simp: bit_simps)
  qed
qed

lemma length_set_gate [simp]: "length (set_gate stubs i s a t) = length t"
  by (simp add: set_gate_def Let_def)

lemma set_gates:
  "n \<le> length t \<Longrightarrow>
     length (fold (\<lambda>i. set_gate stubs i s a) [0..<n] t) = length t
     \<and> (\<forall>i < n. let g = fold (\<lambda>i. set_gate stubs i s a) [0..<n] t ! i in gate_offset g = stubs i \<and> sel g = s \<and> attr g = a)"
proof (induction n)
  case (Suc n)
  then show ?case by (auto simp: set_gate_def Let_def gate_offset_set nth_list_update less_Suc_eq)
qed simp

text \<open>
  After \<open>idt_init\<close> every one of the 256 gates is present, leads to the stub of its number in the kernel's code
  segment, and the only gate that user code may call is the one of system calls.
\<close>

theorem idt_init_correct:
  assumes "length t = 256"
  shows "map gate_offset (idt_init stubs t) = map stubs [0..<256]"
    "list_all (\<lambda>g. gate_present g \<and> sel g = 0x08) (idt_init stubs t)"
    "{i. i < 256 \<and> gate_dpl (idt_init stubs t ! i) = 3} = {0x80}"
proof -
  let ?u = "fold (\<lambda>i. set_gate stubs i 0x08 0x8E) [0..<256] t"
  have u: "length ?u = 256" "\<And>i. i < 256 \<Longrightarrow> gate_offset (?u ! i) = stubs i \<and> sel (?u ! i) = 0x08 \<and> attr (?u ! i) = 0x8E"
    using set_gates [where n = 256 and t = t and stubs = stubs and s = "0x08" and a = "0x8E"] assms by (auto simp: Let_def)
  have len: "length (idt_init stubs t) = 256" using u(1) by (simp add: idt_init_def)
  have nth: "gate_offset (idt_init stubs t ! i) = stubs i \<and> sel (idt_init stubs t ! i) = 0x08
      \<and> attr (idt_init stubs t ! i) = (if i = 0x80 then 0xEE else 0x8E)" if "i < 256" for i
    using u that by (auto simp: idt_init_def set_gate_def Let_def gate_offset_set nth_list_update)
  show "map gate_offset (idt_init stubs t) = map stubs [0..<256]" using len nth by (intro nth_equalityI) simp_all
  have attr: "gate_present g \<longleftrightarrow> True" "gate_dpl g = (if attr g = 0xEE then 3 else 0)" if "attr g = 0xEE \<or> attr g = 0x8E" for g
    using that by (auto simp: gate_present_def gate_dpl_def)
  show "list_all (\<lambda>g. gate_present g \<and> sel g = 0x08) (idt_init stubs t)"
    using len nth attr(1) by (simp add: list_all_length)
  show "{i. i < 256 \<and> gate_dpl (idt_init stubs t ! i) = 3} = {0x80}" using nth attr(2) by (auto split: if_splits)
qed

definition gate_ex :: idt_gate where
  "gate_ex = \<lparr>off0 = 0, sel = 0, gate_ist = 0, attr = 0, off1 = 0, off2 = 0, gate_zero = 0\<rparr>"

theorem idt_init_correct_witness:
  "map gate_offset (idt_init (\<lambda>i. of_nat i * 16) (replicate 256 gate_ex)) = map (\<lambda>i. of_nat i * 16) [0..<256]"
  "{i. i < 256 \<and> gate_dpl (idt_init (\<lambda>i. of_nat i * 16) (replicate 256 gate_ex) ! i) = 3} = {0x80}"
  using idt_init_correct [of "replicate 256 gate_ex" "\<lambda>i. of_nat i * 16"] by simp_all

text \<open>
  The descriptors of \<open>gdt_init\<close>: only the last two segments are for user code, and the task state descriptor
  gives back the address and the size of the task state.
\<close>

lemma gdt_correct:
  "case gdt_init tss_at kstack_top of (g, t) \<Rightarrow>
     map seg_dpl (take 6 g) = [0, 0, 0, 0, 3, 3] \<and> map seg_code (take 6 g) = [False, True, False, True, False, True]
     \<and> tss_base (g ! 6) (g ! 7) = tss_at \<and> tss_limit (g ! 6) = TSS_SIZE - 1 \<and> rsp0 t = kstack_top"
proof -
  have m: "(x :: u64) AND 0xFFFFFF = take_bit 24 x" "x AND 0xFF = take_bit 8 x" "x AND 0xFFFFFFFF = take_bit 32 x"
    "x AND 0xFFFF = take_bit 16 x" "x AND 0xF = take_bit 4 x" for x
    by (simp_all add: take_bit_eq_mask mask_eq_exp_minus_1)
  have lo: "tss_desc_low tss_at = 103 OR push_bit 16 (take_bit 24 tss_at) OR push_bit 40 0x89 OR push_bit 56 (take_bit 8 (drop_bit 24 tss_at))"
    by (simp add: tss_desc_low_def TSS_SIZE_def m Let_def)
  have base: "tss_base (tss_desc_low tss_at) (drop_bit 32 tss_at) = tss_at"
    unfolding tss_base_def m lo
  proof (rule bit_word_eqI)
    fix n assume "n < LENGTH(64)"
    then consider "n < 24" | "24 \<le> n" "n < 32" | "32 \<le> n" "n < 64" by fastforce
    then show "bit (take_bit 24 (drop_bit 16 (103 OR push_bit 16 (take_bit 24 tss_at) OR push_bit 40 137
          OR push_bit 56 (take_bit 8 (drop_bit 24 tss_at))))
        OR push_bit 24 (take_bit 8 (drop_bit 56 (103 OR push_bit 16 (take_bit 24 tss_at) OR push_bit 40 137
          OR push_bit 56 (take_bit 8 (drop_bit 24 tss_at)))))
        OR push_bit 32 (take_bit 32 (drop_bit 32 tss_at))) n = bit tss_at n"
      by cases (auto simp: bit_simps bit_numeral_rec)
  qed
  have lim: "tss_limit (tss_desc_low tss_at) = TSS_SIZE - 1"
    unfolding tss_limit_def m lo TSS_SIZE_def
  proof (rule bit_word_eqI)
    fix n assume "n < LENGTH(64)"
    then consider "n < 16" | "16 \<le> n" "n < 20" | "20 \<le> n" "n < 64" by fastforce
    then show "bit (take_bit 16 (103 OR push_bit 16 (take_bit 24 tss_at) OR push_bit 40 137
          OR push_bit 56 (take_bit 8 (drop_bit 24 tss_at)))
        OR push_bit 16 (take_bit 4 (drop_bit 48 (103 OR push_bit 16 (take_bit 24 tss_at) OR push_bit 40 137
          OR push_bit 56 (take_bit 8 (drop_bit 24 tss_at)))))) n = bit (104 - 1 :: u64) n"
      by cases (auto simp: bit_simps bit_numeral_rec)
  qed
  show ?thesis using base lim
    by (simp add: gdt_init_def tss_write_desc_def seg_dpl_def seg_code_def bit_numeral_rec)
qed

end
