(* ===== verification/Ata.thy ===== *)
theory Ata
  imports Device Fs_Disk
begin

text \<open>
  The disk driver, \<^verbatim>\<open>kernel/ata.cpp\<close>, at the level of its ports, and the proof that on a drive that follows the ATA
  protocol it is the pair of operations \<open>ata_read_sector\<close> and \<open>ata_write_sector\<close> on which the file system is built.
\<close>

unbundle bit_operations_syntax

section \<open>The driver\<close>

definition ATA_DATA :: u16 where "ATA_DATA = 0x1F0"
definition ATA_ERROR :: u16 where "ATA_ERROR = 0x1F1"
definition ATA_SECTS :: u16 where "ATA_SECTS = 0x1F2"
definition ATA_LBALO :: u16 where "ATA_LBALO = 0x1F3"
definition ATA_LBAMI :: u16 where "ATA_LBAMI = 0x1F4"
definition ATA_LBAHI :: u16 where "ATA_LBAHI = 0x1F5"
definition ATA_DRIVE :: u16 where "ATA_DRIVE = 0x1F6"
definition ATA_CMD :: u16 where "ATA_CMD = 0x1F7"
definition ATA_CTRL :: u16 where "ATA_CTRL = 0x3F6"
definition TRIES :: nat where "TRIES = 10000000"

lemmas ata_ports = ATA_DATA_def ATA_ERROR_def ATA_SECTS_def ATA_LBALO_def ATA_LBAMI_def ATA_LBAHI_def ATA_DRIVE_def ATA_CMD_def

text \<open>The two polling loops, with the number of tries that are left.\<close>

primrec wait_idle_n :: "nat \<Rightarrow> 's io \<Rightarrow> ('s, unit) state" where
  "wait_idle_n 0 io = done_with ()"
| "wait_idle_n (Suc n) io = do { st \<leftarrow> io_inb io ATA_CMD; if st AND 0x80 = 0 then done_with () else wait_idle_n n io }"

definition wait_idle :: "'s io \<Rightarrow> ('s, unit) state" where
  "wait_idle io = wait_idle_n TRIES io"

primrec wait_drq_n :: "nat \<Rightarrow> 's io \<Rightarrow> ('s, unit) state" where
  "wait_drq_n 0 io = done_with ()"
| "wait_drq_n (Suc n) io =
     do { st \<leftarrow> io_inb io ATA_CMD;
          if st AND 0x80 \<noteq> 0 then wait_drq_n n io
          else if st AND 0x40 \<noteq> 0 then done_with ()
          else if st AND 0x01 \<noteq> 0 then done_with ()
          else wait_drq_n n io }"

definition wait_drq :: "'s io \<Rightarrow> ('s, unit) state" where
  "wait_drq io = wait_drq_n TRIES io"

definition select_drive :: "'s io \<Rightarrow> u32 \<Rightarrow> ('s, unit) state" where
  "select_drive io lba =
     do { io_outb io ATA_DRIVE (ucast (0xE0 OR (drop_bit 24 lba AND 0x0F)));
          io_wait io;
          io_outb io ATA_ERROR 0 }"

text \<open>\<^verbatim>\<open>rep insl\<close> and \<^verbatim>\<open>rep outsl\<close> for \<open>n\<close> double words.\<close>

primrec insl :: "nat \<Rightarrow> 's io \<Rightarrow> u16 \<Rightarrow> ('s, bytes) state" where
  "insl 0 io p = done_with []"
| "insl (Suc n) io p = do { v \<leftarrow> io_inl io p; rest \<leftarrow> insl n io p; done_with (le32 v @ rest) }"

primrec outsl :: "nat \<Rightarrow> 's io \<Rightarrow> u16 \<Rightarrow> bytes \<Rightarrow> ('s, unit) state" where
  "outsl 0 io p bs = done_with ()"
| "outsl (Suc n) io p bs = do { io_outl io p (un32 (take 4 bs)); outsl n io p (drop 4 bs) }"

text \<open>The result of \<^verbatim>\<open>ata_init\<close> is the variable \<^verbatim>\<open>present\<close>.\<close>

definition ata_init :: "'s io \<Rightarrow> ('s, bool) state" where
  "ata_init io =
     do { io_outb io ATA_CTRL 0x08;
          io_wait io;
          io_outb io ATA_ERROR 0;
          a \<leftarrow> io_inb io ATA_CMD;
          if a = 0xFF then done_with False
          else do { b \<leftarrow> io_inb io ATA_CMD; done_with (b \<noteq> 0) } }"

definition ata_identify :: "'s io \<Rightarrow> ('s, bool) state" where
  "ata_identify io =
     do { select_drive io 0;
          io_outb io ATA_SECTS 0;
          io_outb io ATA_LBALO 0;
          io_outb io ATA_LBAMI 0;
          io_outb io ATA_LBAHI 0;
          io_outb io ATA_CMD 0xEC;
          wait_idle io;
          st \<leftarrow> io_inb io ATA_CMD;
          if st AND 0x40 = 0 then done_with False
          else do { idbuf \<leftarrow> insl 128 io ATA_DATA; done_with True } }"

definition send_address :: "'s io \<Rightarrow> u32 \<Rightarrow> ('s, unit) state" where
  "send_address io lba =
     do { io_outb io ATA_SECTS 1;
          io_outb io ATA_LBALO (ucast (lba AND 0xFF));
          io_outb io ATA_LBAMI (ucast (drop_bit 8 lba AND 0xFF));
          io_outb io ATA_LBAHI (ucast (drop_bit 16 lba AND 0xFF)) }"

definition port_read_sector :: "'s io \<Rightarrow> bool \<Rightarrow> u32 \<Rightarrow> ('s, bytes option) state" where
  "port_read_sector io present lba =
     (if \<not> present then done_with None
      else
        do { wait_idle io;
             select_drive io lba;
             send_address io lba;
             io_outb io ATA_CMD 0x20;
             wait_idle io;
             wait_drq io;
             st \<leftarrow> io_inb io ATA_CMD;
             if st AND 0x01 \<noteq> 0 then done_with None
             else do { buf \<leftarrow> insl 128 io ATA_DATA; done_with (Some buf) } })"

definition port_write_sector :: "'s io \<Rightarrow> bool \<Rightarrow> u32 \<Rightarrow> bytes \<Rightarrow> ('s, bool) state" where
  "port_write_sector io present lba buf =
     (if \<not> present then done_with False
      else
        do { wait_idle io;
             select_drive io lba;
             send_address io lba;
             io_outb io ATA_CMD 0x30;
             wait_idle io;
             wait_drq io;
             outsl 128 io ATA_DATA buf;
             wait_idle io;
             io_outb io ATA_CMD 0xE7;
             wait_idle io;
             done_with True })"


section \<open>A drive\<close>

text \<open>
  What the ATA standard says of a drive, as far as the driver uses it: the registers, the memory of sectors, and the buffer
  from which a sector is read or in which one is collected.
\<close>

record drive =
  d_image :: "u32 \<Rightarrow> bytes"
  d_bad :: "u32 \<Rightarrow> bool"
  d_count :: u8
  d_lo :: u8
  d_mid :: u8
  d_hi :: u8
  d_dev :: u8
  d_buf :: bytes
  d_writing :: bool
  d_err :: bool

definition d_addr :: "drive \<Rightarrow> u32" where
  "d_addr d = un32 [d_lo d, d_mid d, d_hi d, d_dev d] AND 0x0FFFFFFF"

definition drive_cmd :: "u8 \<Rightarrow> drive \<Rightarrow> drive" where
  "drive_cmd c d =
     (if c = 0x20 \<and> d_count d = 1
      then if d_bad d (d_addr d) then d\<lparr>d_err := True, d_writing := False\<rparr>
           else d\<lparr>d_err := False, d_writing := False, d_buf := d_image d (d_addr d)\<rparr>
      else if c = 0x30 \<and> d_count d = 1 then d\<lparr>d_err := False, d_writing := True, d_buf := []\<rparr>
      else d\<lparr>d_err := False, d_writing := False\<rparr>)"

definition drive_out :: "u16 \<Rightarrow> u8 \<Rightarrow> drive \<Rightarrow> drive" where
  "drive_out p v d =
     (if p = ATA_SECTS then d\<lparr>d_count := v\<rparr>
      else if p = ATA_LBALO then d\<lparr>d_lo := v\<rparr>
      else if p = ATA_LBAMI then d\<lparr>d_mid := v\<rparr>
      else if p = ATA_LBAHI then d\<lparr>d_hi := v\<rparr>
      else if p = ATA_DRIVE then d\<lparr>d_dev := v\<rparr>
      else if p = ATA_CMD then drive_cmd v d
      else d)"

definition drive_data :: "u32 \<Rightarrow> drive \<Rightarrow> drive" where
  "drive_data v d =
     (if \<not> d_writing d then d
      else
        let b = d_buf d @ le32 v
        in if length b < 512 then d\<lparr>d_buf := b\<rparr>
           else d\<lparr>d_buf := [], d_writing := False, d_image := (d_image d)(d_addr d := b)\<rparr>)"

text \<open>
  A device that is a drive behind its ports. \<open>vw\<close> is the drive in the state of the device and \<open>busy\<close> the number of times
  that the status will still be read as busy; a drive that is not busy takes what is written, and a command, or the last
  word of a sector, makes it busy for less than the tries of the driver.
\<close>

definition ata_device :: "'s io \<Rightarrow> ('s \<Rightarrow> drive) \<Rightarrow> ('s \<Rightarrow> nat) \<Rightarrow> bool" where
  "ata_device io vw busy \<longleftrightarrow>
     (\<forall>s. case in8 io ATA_CMD s of (st, s') \<Rightarrow>
        vw s' = vw s \<and> busy s' = busy s - 1 \<and> (st AND 0x80 = 0 \<longleftrightarrow> busy s = 0)
        \<and> (busy s = 0 \<longrightarrow> st AND 0x40 \<noteq> 0 \<and> (st AND 0x01 = 0 \<longleftrightarrow> \<not> d_err (vw s))))
     \<and> (\<forall>p v s. busy s = 0 \<longrightarrow> vw (out8 io p v s) = drive_out p v (vw s)
          \<and> busy (out8 io p v s) < (if p = ATA_CMD then TRIES else 1))
     \<and> (\<forall>s. busy s = 0 \<longrightarrow> (case in32 io ATA_DATA s of (v, s') \<Rightarrow>
          v = un32 (take 4 (d_buf (vw s))) \<and> vw s' = (vw s)\<lparr>d_buf := drop 4 (d_buf (vw s))\<rparr> \<and> busy s' = 0))
     \<and> (\<forall>v s. busy s = 0 \<longrightarrow> vw (out32 io ATA_DATA v s) = drive_data v (vw s)
          \<and> busy (out32 io ATA_DATA v s) < (if length (d_buf (vw s)) + 4 < 512 then 1 else TRIES))"

text \<open>The drive holds the sectors of the file system.\<close>

definition holds_disk :: "drive \<Rightarrow> cofeufs \<Rightarrow> bool" where
  "holds_disk d fs \<longleftrightarrow> d_image d = sectors fs \<and> d_bad d = bad_sector fs \<and> (\<forall>a. length (d_image d a) = 512)"


section \<open>The driver on a drive\<close>

lemma TRIES_pos: "0 < TRIES" by (simp add: TRIES_def)

lemmas ata_deviceD =
  ata_device_def [THEN iffD1, THEN conjunct1]
  ata_device_def [THEN iffD1, THEN conjunct2, THEN conjunct1]
  ata_device_def [THEN iffD1, THEN conjunct2, THEN conjunct2, THEN conjunct1]
  ata_device_def [THEN iffD1, THEN conjunct2, THEN conjunct2, THEN conjunct2]

lemma status_run:
  assumes "ata_device io vw busy"
  obtains st t where "in8 io ATA_CMD s = (st, t)" "vw t = vw s" "busy t = busy s - 1" "st AND 0x80 = 0 \<longleftrightarrow> busy s = 0"
    "busy s = 0 \<Longrightarrow> st AND 0x40 \<noteq> 0" "busy s = 0 \<Longrightarrow> st AND 0x01 = 0 \<longleftrightarrow> \<not> d_err (vw s)"
proof -
  obtain st t where e: "in8 io ATA_CMD s = (st, t)" by fastforce
  have "case in8 io ATA_CMD s of (st, s') \<Rightarrow>
        vw s' = vw s \<and> busy s' = busy s - 1 \<and> (st AND 0x80 = 0 \<longleftrightarrow> busy s = 0)
        \<and> (busy s = 0 \<longrightarrow> st AND 0x40 \<noteq> 0 \<and> (st AND 0x01 = 0 \<longleftrightarrow> \<not> d_err (vw s)))"
    by (rule ata_deviceD(1) [OF assms, THEN spec])
  then show ?thesis unfolding e prod.case by (elim conjE) (rule that [OF e]; simp)
qed

lemma wait_idle_n_run:
  assumes "ata_device io vw busy"
  shows "busy s < n \<Longrightarrow> \<exists>t. run_state (wait_idle_n n io) s = ((), t) \<and> vw t = vw s \<and> busy t = 0"
proof (induction n arbitrary: s)
  case (Suc n)
  obtain st t where t: "in8 io ATA_CMD s = (st, t)" "vw t = vw s" "busy t = busy s - 1" "st AND 0x80 = 0 \<longleftrightarrow> busy s = 0"
    by (rule status_run [OF assms]) 
  show ?case
  proof (cases "busy s = 0")
    case False
    then have "busy t < n" using Suc.prems t(3) by simp
    from Suc.IH [OF this] False t show ?thesis by (simp add: run_state_bind device_simps)
  qed (use t in \<open>simp add: run_state_bind device_simps\<close>)
qed simp

lemma wait_idle_run:
  "ata_device io vw busy \<Longrightarrow> busy s < TRIES \<Longrightarrow> \<exists>t. run_state (wait_idle io) s = ((), t) \<and> vw t = vw s \<and> busy t = 0"
  unfolding wait_idle_def by (rule wait_idle_n_run)

lemma wait_drq_run:
  assumes "ata_device io vw busy" "busy s = 0"
  shows "\<exists>t. run_state (wait_drq io) s = ((), t) \<and> vw t = vw s \<and> busy t = 0"
proof -
  obtain n where n: "TRIES = Suc n" using TRIES_pos gr0_conv_Suc by auto
  obtain st t where "in8 io ATA_CMD s = (st, t)" "vw t = vw s" "busy t = busy s - 1" "st AND 0x80 = 0 \<longleftrightarrow> busy s = 0" "st AND 0x40 \<noteq> 0"
    by (rule status_run [OF assms(1), of s]) (use assms(2) in auto)
  then show ?thesis using assms(2) by (simp add: wait_drq_def n run_state_bind device_simps)
qed

lemma out_run:
  assumes "ata_device io vw busy" "busy s = 0"
  shows "vw (out8 io p v s) = drive_out p v (vw s)" "busy (out8 io p v s) < TRIES" "p \<noteq> ATA_CMD \<Longrightarrow> busy (out8 io p v s) = 0"
proof -
  have a: "vw (out8 io p v s) = drive_out p v (vw s) \<and> busy (out8 io p v s) < (if p = ATA_CMD then TRIES else 1)"
    using ata_deviceD(2) [OF assms(1)] assms(2) by simp
  then show "vw (out8 io p v s) = drive_out p v (vw s)" by simp
  show "busy (out8 io p v s) < TRIES" "p \<noteq> ATA_CMD \<Longrightarrow> busy (out8 io p v s) = 0"
    using a TRIES_pos by (auto split: if_splits)
qed

lemma select_run:
  assumes "ata_device io vw busy" "busy s = 0"
  shows "\<exists>t. run_state (select_drive io lba) s = ((), t) \<and> busy t = 0
     \<and> vw t = (vw s)\<lparr>d_dev := ucast (0xE0 OR (drop_bit 24 lba AND 0x0F))\<rparr>"
  by (simp add: select_drive_def run_state_bind device_simps out_run [OF assms(1)] assms(2) drive_out_def ata_ports)

lemma address_run:
  assumes "ata_device io vw busy" "busy s = 0"
  shows "\<exists>t. run_state (send_address io lba) s = ((), t) \<and> busy t = 0
     \<and> vw t = (vw s)\<lparr>d_count := 1, d_lo := ucast (lba AND 0xFF), d_mid := ucast (drop_bit 8 lba AND 0xFF), d_hi := ucast (drop_bit 16 lba AND 0xFF)\<rparr>"
  by (simp add: send_address_def run_state_bind device_simps out_run [OF assms(1)] assms(2) drive_out_def ata_ports)

lemma insl_run:
  assumes "ata_device io vw busy"
  shows "busy s = 0 \<Longrightarrow> length (d_buf (vw s)) = 4 * n \<Longrightarrow>
     \<exists>t. run_state (insl n io ATA_DATA) s = (d_buf (vw s), t) \<and> busy t = 0 \<and> vw t = (vw s)\<lparr>d_buf := []\<rparr>"
proof (induction n arbitrary: s)
  case 0
  then show ?case by simp
next
  case (Suc n)
  obtain v t where t: "in32 io ATA_DATA s = (v, t)" by fastforce
  have "case in32 io ATA_DATA s of (v, s') \<Rightarrow>
      v = un32 (take 4 (d_buf (vw s))) \<and> vw s' = (vw s)\<lparr>d_buf := drop 4 (d_buf (vw s))\<rparr> \<and> busy s' = 0"
    by (rule ata_deviceD(3) [OF assms, THEN spec, THEN mp, OF Suc.prems(1)])
  then have v: "v = un32 (take 4 (d_buf (vw s)))" "vw t = (vw s)\<lparr>d_buf := drop 4 (d_buf (vw s))\<rparr>" "busy t = 0"
    by (simp_all add: t)
  have "length (d_buf (vw t)) = 4 * n" using v(2) Suc.prems(2) by simp
  from Suc.IH [OF v(3) this] obtain u where u: "run_state (insl n io ATA_DATA) t = (d_buf (vw t), u)" "busy u = 0" "vw u = (vw s)\<lparr>d_buf := []\<rparr>"
    using v(2) by auto
  have "le32 v @ d_buf (vw t) = d_buf (vw s)" using v Suc.prems(2) by (simp add: le32_un32)
  then show ?case using t u by (simp add: run_state_bind device_simps)
qed

lemma outsl_run:
  assumes "ata_device io vw busy" "d_writing d"
  shows "busy s = 0 \<Longrightarrow> vw s = d\<lparr>d_buf := pre\<rparr> \<Longrightarrow> length bs = 4 * n \<Longrightarrow> length pre + length bs = 512 \<Longrightarrow> 0 < n \<Longrightarrow>
     \<exists>t. run_state (outsl n io ATA_DATA bs) s = ((), t) \<and> busy t < TRIES
       \<and> vw t = d\<lparr>d_buf := [], d_writing := False, d_image := (d_image d)(d_addr d := pre @ bs)\<rparr>"
proof (induction n arbitrary: s pre bs)
  case (Suc n)
  let ?v = "un32 (take 4 bs)"
  have le: "le32 ?v = take 4 bs" using Suc.prems(3) by (simp add: le32_un32)
  have o: "vw (out32 io ATA_DATA ?v s) = drive_data ?v (vw s) \<and>
      busy (out32 io ATA_DATA ?v s) < (if length (d_buf (vw s)) + 4 < 512 then 1 else TRIES)"
    by (rule ata_deviceD(4) [OF assms(1), THEN spec, THEN spec, THEN mp, OF Suc.prems(1)])
  show ?case
  proof (cases "n = 0")
    case True
    then have tk: "take 4 bs = bs" using Suc.prems(3) by simp
    have "drive_data ?v (vw s) = d\<lparr>d_buf := [], d_writing := False, d_image := (d_image d)(d_addr d := pre @ bs)\<rparr>"
      unfolding drive_data_def Suc.prems(2) le unfolding tk using Suc.prems(4) assms(2) by (simp add: d_addr_def)
    then show ?thesis using o True TRIES_pos by (auto simp: run_state_bind device_simps fun_upd_def split: if_splits)
  next
    case False
    have len: "length (take 4 bs) = 4" "length pre + 4 < 512" "length (drop 4 bs) = 4 * n" "length (pre @ take 4 bs) + length (drop 4 bs) = 512"
      using Suc.prems(3,4) False by auto
    have "drive_data ?v (vw s) = d\<lparr>d_buf := pre @ take 4 bs\<rparr>"
      unfolding drive_data_def Suc.prems(2) le using len(1,2) assms(2) by simp
    then have v: "vw (out32 io ATA_DATA ?v s) = d\<lparr>d_buf := pre @ take 4 bs\<rparr>" using o by simp
    have "length (d_buf (vw s)) + 4 < 512" using len(2) Suc.prems(2) by simp
    then have "busy (out32 io ATA_DATA ?v s) = 0" using o by simp
    from Suc.IH [OF this v len(3,4)] False show ?thesis by (simp add: run_state_bind device_simps)
  qed
qed simp

lemma lba_bytes:
  "un32 [ucast (lba AND 0xFF), ucast (drop_bit 8 lba AND 0xFF), ucast (drop_bit 16 lba AND 0xFF), ucast (0xE0 OR (drop_bit 24 lba AND 0x0F))]
     AND 0x0FFFFFFF = lba AND (0x0FFFFFFF :: u32)"
proof (rule bit_word_eqI)
  have m: "(0xFF :: u32) = mask 8" "(0x0F :: u32) = mask 4" "(0x0FFFFFFF :: u32) = mask 28" "(0xE0 :: u32) = push_bit 5 (mask 3)"
    by (simp_all add: mask_eq_exp_minus_1 push_bit_eq_mult)
  fix n assume "n < LENGTH(32)"
  then consider "n < 8" | "8 \<le> n" "n < 16" | "16 \<le> n" "n < 24" | "24 \<le> n" "n < 28" | "28 \<le> n" "n < 32" by force
  then show "bit (un32 [ucast (lba AND 0xFF), ucast (drop_bit 8 lba AND 0xFF), ucast (drop_bit 16 lba AND 0xFF),
      ucast (0xE0 OR (drop_bit 24 lba AND 0x0F))] AND 0x0FFFFFFF) n = bit (lba AND (0x0FFFFFFF :: u32)) n"
    unfolding m by cases (auto simp: un32_def bit_byte_simps bit_mask_iff)
qed

text \<open>The registers of the drive after the address was sent.\<close>

definition addressed :: "u32 \<Rightarrow> drive \<Rightarrow> drive" where
  "addressed lba d =
     d\<lparr>d_dev := ucast (0xE0 OR (drop_bit 24 lba AND 0x0F)), d_count := 1, d_lo := ucast (lba AND 0xFF),
       d_mid := ucast (drop_bit 8 lba AND 0xFF), d_hi := ucast (drop_bit 16 lba AND 0xFF)\<rparr>"

lemma addressed_fields [simp]:
  "d_addr (addressed lba d) = lba AND 0x0FFFFFFF" "d_count (addressed lba d) = 1" "d_image (addressed lba d) = d_image d"
  "d_bad (addressed lba d) = d_bad d"
  unfolding d_addr_def addressed_def using lba_bytes [of lba] by simp_all

text \<open>Up to the point where the drive has taken the command \<open>c\<close> and is ready.\<close>

lemma command_run:
  assumes "ata_device io vw busy" "busy s < TRIES"
  shows "\<exists>t. run_state (do { wait_idle io; select_drive io lba; send_address io lba; io_outb io ATA_CMD c; wait_idle io; wait_drq io; m }) s
       = run_state m t \<and> busy t = 0 \<and> vw t = drive_cmd c (addressed lba (vw s))"
proof -
  obtain t1 where t1: "run_state (wait_idle io) s = ((), t1)" "vw t1 = vw s" "busy t1 = 0" using wait_idle_run [OF assms] by blast
  obtain t2 where t2: "run_state (select_drive io lba) t1 = ((), t2)" "busy t2 = 0"
      "vw t2 = (vw t1)\<lparr>d_dev := ucast (0xE0 OR (drop_bit 24 lba AND 0x0F))\<rparr>"
    using select_run [OF assms(1) t1(3)] by blast
  obtain t3 where t3: "run_state (send_address io lba) t2 = ((), t3)" "busy t3 = 0" "vw t3 = addressed lba (vw s)"
    using address_run [OF assms(1) t2(2), of lba] t1(2) t2(3) by (auto simp: addressed_def)
  define t4 where "t4 = out8 io ATA_CMD c t3"
  have t4: "busy t4 < TRIES" "vw t4 = drive_cmd c (addressed lba (vw s))"
    using out_run [OF assms(1) t3(2), of ATA_CMD c] t3(3) by (simp_all add: t4_def drive_out_def ata_ports)
  obtain t5 where t5: "run_state (wait_idle io) t4 = ((), t5)" "vw t5 = vw t4" "busy t5 = 0"
    using wait_idle_run [OF assms(1) t4(1)] by blast
  obtain t6 where t6: "run_state (wait_drq io) t5 = ((), t6)" "vw t6 = vw t5" "busy t6 = 0"
    using wait_drq_run [OF assms(1) t5(3)] by blast
  show ?thesis
    using t1(1) t2(1) t3(1) t5 t6 t4 by (intro exI [of _ t6]) (simp add: run_state_bind device_simps t4_def [symmetric])
qed

lemma port_read_run:
  assumes "ata_device io vw busy" "busy s < TRIES" "holds_disk (vw s) fs"
  shows "\<exists>t. run_state (port_read_sector io (ata_present fs) lba) s = (ata_read_sector lba fs, t) \<and> holds_disk (vw t) fs \<and> busy t < TRIES"
proof (cases "ata_present fs")
  case True
  let ?a = "lba AND 0x0FFFFFFF"
  let ?m = "do { st \<leftarrow> io_inb io ATA_CMD; if st AND 0x01 \<noteq> 0 then done_with None else do { buf \<leftarrow> insl 128 io ATA_DATA; done_with (Some buf) } }"
  have d: "d_image (vw s) = sectors fs" "d_bad (vw s) = bad_sector fs" "length (sectors fs a) = 512" for a
    using assms(3) by (auto simp: holds_disk_def)
  obtain t where t: "run_state (port_read_sector io True lba) s = run_state ?m t" "busy t = 0" "vw t = drive_cmd 0x20 (addressed lba (vw s))"
    using command_run [OF assms(1,2), where lba = lba and c = "0x20" and m = ?m] by (auto simp: port_read_sector_def)
  obtain st u where u: "in8 io ATA_CMD t = (st, u)" "vw u = vw t" "busy u = busy t - 1" "st AND 0x01 = 0 \<longleftrightarrow> \<not> d_err (vw t)"
    by (rule status_run [OF assms(1), of t]) (use t(2) in auto)
  show ?thesis
  proof (cases "bad_sector fs ?a")
    case bad: True
    then have "vw t = (addressed lba (vw s))\<lparr>d_err := True, d_writing := False\<rparr>" by (simp add: t(3) drive_cmd_def d)
    then show ?thesis using True bad t(1,2) u d TRIES_pos
      by (simp add: run_state_bind device_simps ata_read_sector_def holds_disk_def)
  next
    case False
    then have v: "vw t = (addressed lba (vw s))\<lparr>d_err := False, d_writing := False, d_buf := sectors fs ?a\<rparr>"
      by (simp add: t(3) drive_cmd_def d)
    have b: "busy u = 0" "length (d_buf (vw u)) = 4 * 128" using u t(2) v d by simp_all
    obtain w where "run_state (insl 128 io ATA_DATA) u = (d_buf (vw u), w)" "busy w = 0" "vw w = (vw u)\<lparr>d_buf := []\<rparr>"
      using insl_run [OF assms(1) b] by blast
    then show ?thesis using True False t(1,2) u v d TRIES_pos
      by (simp add: run_state_bind device_simps ata_read_sector_def holds_disk_def)
  qed
qed (use assms in \<open>simp add: port_read_sector_def ata_read_sector_def\<close>)

lemma port_write_run:
  assumes "ata_device io vw busy" "busy s < TRIES" "holds_disk (vw s) fs" "length buf = 512"
  shows "\<exists>t. run_state (port_write_sector io (ata_present fs) lba buf) s = (ata_present fs, t)
     \<and> holds_disk (vw t) (ata_write_sector lba buf fs) \<and> busy t < TRIES"
proof (cases "ata_present fs")
  case True
  let ?d = "addressed lba (vw s)"
  let ?m = "do { outsl 128 io ATA_DATA buf; wait_idle io; io_outb io ATA_CMD 0xE7; wait_idle io; done_with True }"
  have d: "d_image (vw s) = sectors fs" "d_bad (vw s) = bad_sector fs" "length (sectors fs a) = 512" for a
    using assms(3) by (auto simp: holds_disk_def)
  obtain t where t: "run_state (port_write_sector io True lba buf) s = run_state ?m t" "busy t = 0" "vw t = drive_cmd 0x30 ?d"
    using command_run [OF assms(1,2), where lba = lba and c = "0x30" and m = ?m] by (auto simp: port_write_sector_def)
  let ?w = "?d\<lparr>d_err := False, d_writing := True\<rparr>"
  have "d_writing ?w" "vw t = ?w\<lparr>d_buf := []\<rparr>" "length buf = 4 * 128" "length ([] :: bytes) + length buf = 512" "(0 :: nat) < 128"
    using assms(4) by (simp_all add: t(3) drive_cmd_def)
  from outsl_run [OF assms(1) this(1) t(2) this(2-5)] obtain u where u: "run_state (outsl 128 io ATA_DATA buf) t = ((), u)" "busy u < TRIES"
      "vw u = ?w\<lparr>d_buf := [], d_writing := False, d_image := (d_image ?w)(d_addr ?w := buf)\<rparr>" by auto
  obtain u1 where u1: "run_state (wait_idle io) u = ((), u1)" "vw u1 = vw u" "busy u1 = 0"
    using wait_idle_run [OF assms(1) u(2)] by blast
  define u2 where "u2 = out8 io ATA_CMD 0xE7 u1"
  have u2: "busy u2 < TRIES" "vw u2 = drive_cmd 0xE7 (vw u)"
    using out_run [OF assms(1) u1(3), of ATA_CMD "0xE7"] u1(2) by (simp_all add: u2_def drive_out_def ata_ports)
  obtain u3 where u3: "run_state (wait_idle io) u2 = ((), u3)" "vw u3 = vw u2" "busy u3 = 0"
    using wait_idle_run [OF assms(1) u2(1)] by blast
  have "d_addr ?d = lba AND 0x0FFFFFFF" by simp
  then have addr: "d_addr ?w = lba AND 0x0FFFFFFF" unfolding d_addr_def by simp
  have "holds_disk (vw u3) (ata_write_sector lba buf fs)"
    using True d assms(4) by (auto simp: u3(2) u2(2) u(3) drive_cmd_def holds_disk_def ata_write_sector_def addr)
  moreover have "run_state (port_write_sector io True lba buf) s = (True, u3)"
    using t(1) u(1) u1(1) u3(1) by (simp add: run_state_bind device_simps u2_def [symmetric])
  ultimately show ?thesis using True u3(3) TRIES_pos by (simp add: exI [of _ u3])
qed (use assms in \<open>simp add: port_write_sector_def ata_write_sector_def\<close>)


text \<open>A drive that is never busy.\<close>

definition drive_io :: "drive io" where
  "drive_io =
     \<lparr>in8 = \<lambda>p d. (if p = ATA_CMD then (if d_err d then 0x41 else 0x40) else 0, d), in16 = \<lambda>p d. (0, d),
      in32 = \<lambda>p d. (un32 (take 4 (d_buf d)), d\<lparr>d_buf := drop 4 (d_buf d)\<rparr>),
      out8 = drive_out, out16 = \<lambda>p v d. d, out32 = \<lambda>p v d. drive_data v d\<rparr>"

lemma drive_io_device: "ata_device drive_io (\<lambda>d. d) (\<lambda>d. 0)"
  using TRIES_pos by (auto simp: ata_device_def drive_io_def)

definition drive_ex :: drive where
  "drive_ex = \<lparr>d_image = \<lambda>a. replicate 512 0, d_bad = \<lambda>a. a = 7, d_count = 0, d_lo = 0, d_mid = 0, d_hi = 0, d_dev = 0,
     d_buf = [], d_writing = False, d_err = False\<rparr>"


end
