(* ===== verification/Shell_Text.thy ===== *)
theory Shell_Text
  imports Fs_Path
begin

text \<open>
  The text processing of the shell, \<^verbatim>\<open>kernel/shell.cpp\<close>: words of a command line, redirection, pipes, the
  displayed working directory, numbers and the counts of \<^verbatim>\<open>wc\<close>. Strings are lists of their characters without the
  final zero. A write outside an array is the outcome \<open>Wild\<close>.
\<close>

section \<open>Words\<close>

definition SP :: u8 where "SP = 32"
definition BAR :: u8 where "BAR = 124"
definition TOK_MAX :: nat where "TOK_MAX = 32"
definition TOK_LEN :: nat where "TOK_LEN = 31"

text \<open>\<^verbatim>\<open>while (*p == ' ') p++;\<close>\<close>

definition skip_spaces :: "bytes \<Rightarrow> bytes" where
  "skip_spaces p = dropWhile (\<lambda>c. c = SP) p"

text \<open>\<^verbatim>\<open>while (*p && *p != ' ' && len < 31) tok[len++] = *p++;\<close>\<close>

definition tok_text :: "bytes \<Rightarrow> bytes" where
  "tok_text p = take TOK_LEN (takeWhile (\<lambda>c. c \<noteq> SP) p)"

primrec tokenize_n :: "nat \<Rightarrow> bytes \<Rightarrow> bytes list" where
  "tokenize_n 0 p = []"
| "tokenize_n (Suc n) p =
     (let p = skip_spaces p
      in if p = [] then [] else tok_text p # tokenize_n n (drop (length (tok_text p)) p))"

definition tokenize :: "bytes \<Rightarrow> bytes list" where
  "tokenize line = tokenize_n TOK_MAX line"


section \<open>Redirection\<close>

definition is_redir :: "bytes \<Rightarrow> bool" where
  "is_redir t \<longleftrightarrow> t = [62, 62] \<or> t = [62]"

definition find_redirect :: "bytes list \<Rightarrow> nat option" where
  "find_redirect ts = find_from (\<lambda>i. is_redir (ts ! i)) 0 (length ts)"

text \<open>\<^verbatim>\<open>if (o) line[o++] = ' '; for (...) line[o++] = toks[i][j];\<close>\<close>

definition put_word :: "bytes \<Rightarrow> bytes \<Rightarrow> bytes" where
  "put_word out t = (if out \<noteq> [] then out @ [SP] else out) @ t"

definition join_words :: "bytes list \<Rightarrow> bytes" where
  "join_words ts = foldl put_word [] ts"

text \<open>
  \<open>room\<close> is the space from \<^verbatim>\<open>line\<close> to the end of its array. The result is the rewritten line, the target, and
  whether to append.
\<close>

definition extract_redirect :: "nat \<Rightarrow> bytes \<Rightarrow> (bytes \<times> bytes \<times> bool) option outcome" where
  "extract_redirect room line =
     (let ts = tokenize line
      in case find_redirect ts of
           None \<Rightarrow> Returns None
         | Some r \<Rightarrow>
             if r + 1 \<ge> length ts then Returns None
             else
               let out = join_words (take r ts @ drop (r + 2) ts)
               in if length out < room then Returns (Some (out, take 63 (ts ! (r + 1)), ts ! r = [62, 62])) else Wild)"


section \<open>Pipes\<close>

definition MAXP :: nat where "MAXP = 8"

text \<open>The positions of the bars that begin a word.\<close>

fun pipe_scan :: "nat \<Rightarrow> bool \<Rightarrow> bytes \<Rightarrow> nat list" where
  "pipe_scan p in_tok [] = []"
| "pipe_scan p in_tok (c # cs) =
     (if c = SP then pipe_scan (p + 1) False cs
      else if in_tok then pipe_scan (p + 1) in_tok cs
      else if c = BAR then p # pipe_scan (p + 1) in_tok cs
      else pipe_scan (p + 1) True cs)"

text \<open>The starts of the commands after the first, in the line whose bars have become zeros.\<close>

fun seg_starts :: "bytes \<Rightarrow> nat \<Rightarrow> nat list \<Rightarrow> nat list" where
  "seg_starts l p [] = []"
| "seg_starts l p (q # qs) =
     (if q < p then seg_starts l p qs
      else let p' = q + 1 + length (takeWhile (\<lambda>c. c = SP) (drop (q + 1) l)) in p' # seg_starts l p' qs)"

definition strip_right :: "bytes \<Rightarrow> bytes" where
  "strip_right s = rev (dropWhile (\<lambda>c. c = SP) (rev s))"

definition seg_text :: "bytes \<Rightarrow> nat \<Rightarrow> bytes" where
  "seg_text l p = strip_right (takeWhile (\<lambda>c. c \<noteq> 0) (drop p l))"

definition cut_pipes :: "bytes \<Rightarrow> nat list \<Rightarrow> bytes" where
  "cut_pipes line ps = fold (\<lambda>q l. l[q := 0]) ps line"

text \<open>
  The commands of a line with their positions; \<open>Wild\<close> when there are more bars than \<^verbatim>\<open>pipes\<close> has room for: the code counts
  them, but stores only the first eight, and then writes through the others.
\<close>

definition split_pipes :: "bytes \<Rightarrow> (nat \<times> bytes) list outcome" where
  "split_pipes line =
     (let ps = pipe_scan 0 False line; l = cut_pipes line ps
      in if MAXP < length ps then Wild
         else Returns (map (\<lambda>p. (p, seg_text l p)) (0 # seg_starts l 0 ps)))"


section \<open>The working directory as text\<close>

definition SLASH :: u8 where "SLASH = 47"

text \<open>The array \<^verbatim>\<open>tmp\<close>.\<close>

definition join_path :: "bytes \<Rightarrow> bytes \<Rightarrow> bytes" where
  "join_path cwd path =
     (if take 1 path = [SLASH] then take 127 path
      else
        let t = take 127 cwd; t = (if t \<noteq> [] \<and> last t \<noteq> SLASH then t @ [SLASH] else t)
        in if length t + length path + 1 < 127 then t @ path else t)"

definition seg_name :: "bytes \<Rightarrow> bytes" where
  "seg_name t = take 19 (takeWhile (\<lambda>c. c \<noteq> SLASH) t)"

definition push_seg :: "bytes list \<Rightarrow> bytes \<Rightarrow> bytes list" where
  "push_seg st seg =
     (if seg = DOT then st else if seg = DOTDOT then butlast st else if length st < 16 then st @ [seg] else st)"

function norm_segs :: "bytes \<Rightarrow> bytes list \<Rightarrow> bytes list" where
  "norm_segs t st =
     (let t = dropWhile (\<lambda>c. c = SLASH) t
      in if t = [] then st else norm_segs (drop (length (seg_name t)) t) (push_seg st (seg_name t)))"
  by pat_completeness auto
termination
proof (relation "measure (\<lambda>(t, st). length t)")
  fix t st x
  assume x: "x = dropWhile (\<lambda>c. c = SLASH) t" "x \<noteq> []"
  then have "hd x \<noteq> SLASH" by (metis (mono_tags) hd_dropWhile)
  then have "0 < length (seg_name x)" using x(2) by (cases x) (auto simp: seg_name_def)
  moreover have "length x \<le> length t" by (simp add: x(1) length_dropWhile_le)
  ultimately show "((drop (length (seg_name x)) x, push_seg st (seg_name x)), t, st) \<in> measure (\<lambda>(t, st). length t)"
    using x(2) by (auto simp: diff_less_mono2 intro: less_le_trans [OF diff_less])
qed simp

declare norm_segs.simps [simp del]

definition render_path :: "bytes list \<Rightarrow> bytes" where
  "render_path st = (if st = [] then [SLASH] else concat (map (\<lambda>s. SLASH # s) st))"

text \<open>
  The new text of the working directory. \<open>Wild\<close>: what was copied to \<^verbatim>\<open>tmp\<close> is not terminated, or the result does not fit
  with its final zero into the 127 bytes that are copied to \<^verbatim>\<open>cwdstr\<close> (\<^verbatim>\<open>out\<close> has 128).
\<close>

definition norm_join :: "bytes \<Rightarrow> bytes \<Rightarrow> bytes outcome" where
  "norm_join cwd path =
     (let t = join_path cwd path; r = render_path (norm_segs t [])
      in if 127 \<le> length (if take 1 path = [SLASH] then path else cwd) \<or> 127 \<le> length r then Wild else Returns r)"


section \<open>Numbers and counts\<close>

text \<open>\<open>None\<close> when the value leaves the range of \<^verbatim>\<open>int\<close>.\<close>

fun atoi_digits :: "int \<Rightarrow> bytes \<Rightarrow> int option" where
  "atoi_digits v [] = Some v"
| "atoi_digits v (c # cs) =
     (if 48 \<le> c \<and> c \<le> 57
      then let v = v * 10 + uint (c - 48) in if v > 2147483647 then None else atoi_digits v cs
      else Some v)"

definition atoi_cst :: "bytes \<Rightarrow> int option" where
  "atoi_cst s =
     (let s = skip_spaces s
      in if take 1 s = [45] then map_option uminus (atoi_digits 0 (drop 1 s)) else atoi_digits 0 s)"

definition is_blank :: "u8 \<Rightarrow> bool" where
  "is_blank c \<longleftrightarrow> c = 32 \<or> c = 9 \<or> c = 10 \<or> c = 13"

text \<open>The loop of \<^verbatim>\<open>wc\<close>: lines, words and characters so far.\<close>

fun wc_loop :: "bytes \<Rightarrow> bool \<Rightarrow> u64 \<times> u64 \<times> u64 \<Rightarrow> u64 \<times> u64 \<times> u64" where
  "wc_loop [] in_word n = n"
| "wc_loop (c # cs) in_word (l, w, n) =
     (let n = n + 1; l = (if c = 10 then l + 1 else l)
      in if is_blank c then wc_loop cs False (l, w, n)
         else if \<not> in_word then wc_loop cs True (l, w + 1, n) else wc_loop cs in_word (l, w, n))"

definition wc_counts :: "bytes \<Rightarrow> u64 \<times> u64 \<times> u64" where
  "wc_counts s =
     (case wc_loop s False (0, 0, 0) of (l, w, n) \<Rightarrow> (if n \<noteq> 0 \<and> last s \<noteq> 10 then l + 1 else l, w, n))"


section \<open>Words of a line\<close>

fun split_on :: "(u8 \<Rightarrow> bool) \<Rightarrow> bytes \<Rightarrow> bytes list" where
  "split_on P [] = [[]]"
| "split_on P (c # cs) = (if P c then [] # split_on P cs else (c # hd (split_on P cs)) # tl (split_on P cs))"

definition words_on :: "(u8 \<Rightarrow> bool) \<Rightarrow> bytes \<Rightarrow> bytes list" where
  "words_on P s = filter (\<lambda>w. w \<noteq> []) (split_on P s)"

abbreviation words :: "bytes \<Rightarrow> bytes list" where
  "words \<equiv> words_on (\<lambda>c. c = SP)"

lemma split_on_step:
  "split_on P p = takeWhile (Not \<circ> P) p # (case dropWhile (Not \<circ> P) p of [] \<Rightarrow> [] | c # r \<Rightarrow> split_on P r)"
  by (induction p) (auto split: list.splits)

lemma words_on_Nil [simp]: "words_on P [] = []"
  by (simp add: words_on_def)

lemma words_on_sep [simp]: "P c \<Longrightarrow> words_on P (c # cs) = words_on P cs"
  by (simp add: words_on_def)

lemma words_on_skip [simp]: "words_on P (dropWhile P p) = words_on P p"
  by (induction p) auto

lemma words_on_step:
  assumes "p \<noteq> []" "\<not> P (hd p)"
  shows "words_on P p = takeWhile (Not \<circ> P) p # words_on P (dropWhile (Not \<circ> P) p)"
proof -
  have ne: "takeWhile (Not \<circ> P) p \<noteq> []" using assms by (cases p) auto
  show ?thesis
  proof (cases "dropWhile (Not \<circ> P) p")
    case Nil
    have "words_on P p = [takeWhile (Not \<circ> P) p]"
      unfolding words_on_def split_on_step [of P p] Nil using ne by simp
    then show ?thesis unfolding Nil by simp
  next
    case (Cons c r)
    then have "P c" using hd_dropWhile [of "Not \<circ> P" p] by simp
    then have "words_on P p = takeWhile (Not \<circ> P) p # words_on P (c # r)"
      unfolding words_on_def split_on_step [of P p] Cons using ne by simp
    then show ?thesis unfolding Cons .
  qed
qed

lemma words_on_append_sep:
  assumes "\<forall>c \<in> set w. \<not> P c" "w \<noteq> []" "p = [] \<or> P (hd p)"
  shows "words_on P (w @ p) = w # words_on P p"
proof -
  have "takeWhile (Not \<circ> P) (w @ p) = w" "dropWhile (Not \<circ> P) (w @ p) = p"
    using assms(1,3) by (cases p; simp add: takeWhile_append2 dropWhile_append2)+
  then show ?thesis using words_on_step [of "w @ p" P] assms by (cases w) auto
qed

lemma words_on_in: "w \<in> set (words_on P p) \<Longrightarrow> w \<noteq> [] \<and> (\<forall>c \<in> set w. \<not> P c \<and> c \<in> set p)"
proof (induction p rule: length_induct)
  case (1 p)
  let ?p = "dropWhile P p"
  show ?case
  proof (cases "?p = []")
    case True
    then have "words_on P p = []" using words_on_skip [of P p] unfolding True by simp
    then show ?thesis using "1.prems" by simp
  next
    case False
    then have hd: "\<not> P (hd ?p)" by (rule hd_dropWhile)
    let ?r = "dropWhile (Not \<circ> P) ?p" and ?w = "takeWhile (Not \<circ> P) ?p"
    have ws: "words_on P p = ?w # words_on P ?r" using words_on_step [of ?p P, OF False hd] by simp
    have sub: "set ?p \<subseteq> set p" by (auto dest: set_dropWhileD)
    have ne: "?w \<noteq> []" using False hd by (cases ?p) auto
    have "length ?r < length ?p" using False hd by (cases ?p) (auto simp: less_Suc_eq_le length_dropWhile_le)
    then have len: "length ?r < length p" using length_dropWhile_le [of P p] by simp
    show ?thesis
    proof (cases "w = ?w")
      case True
      have "\<forall>c \<in> set ?w. \<not> P c \<and> c \<in> set ?p" by (auto dest: set_takeWhileD)
      then show ?thesis using True ne sub by auto
    next
      case False
      then have "w \<in> set (words_on P ?r)" using "1.prems" ws by simp
      moreover have "set ?r \<subseteq> set p" using sub by (auto dest: set_dropWhileD)
      ultimately show ?thesis using "1.IH" len by blast
    qed
  qed
qed

lemma tokenize_n_words:
  "list_all (\<lambda>w. length w \<le> TOK_LEN) (words p) \<Longrightarrow> tokenize_n n p = take n (words p)"
proof (induction n arbitrary: p)
  case (Suc n)
  let ?p = "skip_spaces p"
  have ws: "words ?p = words p" by (simp add: skip_spaces_def)
  show ?case
  proof (cases "?p = []")
    case True
    then show ?thesis using ws by simp
  next
    case False
    then have hd: "hd ?p \<noteq> SP" unfolding skip_spaces_def by (rule hd_dropWhile)
    let ?w = "takeWhile (Not \<circ> (\<lambda>c. c = SP)) ?p" and ?r = "dropWhile (Not \<circ> (\<lambda>c. c = SP)) ?p"
    have step: "words p = ?w # words ?r" using words_on_step [of ?p "\<lambda>c. c = SP"] False hd ws by simp
    have "length ?w \<le> TOK_LEN" using Suc.prems step by simp
    then have "tok_text ?p = ?w" by (simp add: tok_text_def comp_def)
    moreover have "drop (length ?w) ?p = ?r" by (simp add: dropWhile_eq_drop)
    moreover have "tokenize_n n ?r = take n (words ?r)" using Suc step by simp
    ultimately show ?thesis using False step by (simp add: Let_def)
  qed
qed simp

lemma tokenize_words:
  "list_all (\<lambda>w. length w \<le> TOK_LEN) (words p) \<Longrightarrow> length (words p) \<le> TOK_MAX \<Longrightarrow> tokenize p = words p"
  by (simp add: tokenize_def tokenize_n_words)

definition word_ok :: "bytes \<Rightarrow> bool" where
  "word_ok w \<longleftrightarrow> w \<noteq> [] \<and> SP \<notin> set w"

lemma word_ok_words: "list_all word_ok (words p)"
  using words_on_in by (fastforce simp: list_all_iff word_ok_def)

lemma foldl_put_word: "out \<noteq> [] \<Longrightarrow> foldl put_word out ts = out @ concat (map ((#) SP) ts)"
  by (induction ts arbitrary: out) (simp_all add: put_word_def)

lemma join_words_Cons: "w \<noteq> [] \<Longrightarrow> join_words (w # ts) = w @ concat (map ((#) SP) ts)"
  by (simp add: join_words_def put_word_def foldl_put_word)

lemma words_spaced: "list_all word_ok ts \<Longrightarrow> words (concat (map ((#) SP) ts)) = ts"
proof (induction ts)
  case (Cons t ts)
  have "words (t @ concat (map ((#) SP) ts)) = t # words (concat (map ((#) SP) ts))"
    using Cons.prems by (intro words_on_append_sep) (cases ts; auto simp: word_ok_def)+
  then show ?case using Cons by simp
qed simp

lemma words_join: "list_all word_ok ts \<Longrightarrow> words (join_words ts) = ts"
proof (cases ts)
  case (Cons w us)
  assume a: "list_all word_ok ts"
  have "words (w @ concat (map ((#) SP) us)) = w # words (concat (map ((#) SP) us))"
    using a Cons by (intro words_on_append_sep) (cases us; auto simp: word_ok_def)+
  then show ?thesis using a Cons words_spaced [of us] by (simp add: join_words_Cons word_ok_def)
qed (simp add: join_words_def)

lemma length_join_words:
  "list_all word_ok ts \<Longrightarrow> length (join_words ts) + 1 = (if ts = [] then 1 else sum_list (map (\<lambda>w. length w + 1) ts))"
proof (cases ts)
  case (Cons w us)
  have "length (concat (map ((#) SP) us)) = sum_list (map (\<lambda>w. length w + 1) us)" by (induction us) simp_all
  moreover assume "list_all word_ok ts"
  ultimately show ?thesis using Cons by (simp add: join_words_Cons word_ok_def)
qed (simp add: join_words_def)

lemma length_words: "sum_list (map (\<lambda>w. length w + 1) (words_on P p)) \<le> length p + 1"
proof (induction p rule: length_induct)
  case (1 p)
  let ?p = "dropWhile P p"
  show ?case
  proof (cases "?p = []")
    case True
    then have "words_on P p = []" using words_on_skip [of P p] unfolding True by simp
    then show ?thesis by simp
  next
    case False
    then have hd: "\<not> P (hd ?p)" by (rule hd_dropWhile)
    let ?r = "dropWhile (Not \<circ> P) ?p" and ?w = "takeWhile (Not \<circ> P) ?p"
    have ws: "words_on P p = ?w # words_on P ?r" using words_on_step [of ?p P, OF False hd] by simp
    have len: "length ?w + length ?r = length ?p" by (metis length_append takeWhile_dropWhile_id)
    have le: "length ?p \<le> length p" by (rule length_dropWhile_le)
    have w: "0 < length ?w" using False hd by (cases ?p) auto
    show ?thesis
    proof (cases ?r)
      case Nil
      have "words_on P p = [?w]" unfolding ws Nil by simp
      moreover have "length ?w \<le> length p" using len le by linarith
      ultimately have "words_on P p = [?w]" "length ?w \<le> length p" by blast+
      then show ?thesis by simp
    next
      case (Cons c q)
      then have "P c" using hd_dropWhile [of "Not \<circ> P" ?p] by simp
      then have "words_on P ?r = words_on P q" using Cons by simp
      moreover have "length q < length p" "length q + 1 = length ?r" using Cons len le by auto
      moreover have "sum_list (map (\<lambda>w. length w + 1) (words_on P q)) \<le> length q + 1" using "1.IH" \<open>length q < length p\<close> by blast
      ultimately show ?thesis using ws len le by simp
    qed
  qed
qed

lemma join_words_short: "list_all word_ok ts \<Longrightarrow> sum_list (map (\<lambda>w. length w + 1) ts) \<le> n + 1 \<Longrightarrow> length (join_words ts) \<le> n"
  using length_join_words [of ts] by (simp split: if_splits)


section \<open>Theorems on redirection\<close>

lemma find_redirect_first:
  "\<not> list_ex is_redir us \<Longrightarrow> is_redir r \<Longrightarrow> find_redirect (us @ r # vs) = Some (length us)"
  unfolding find_redirect_def by (rule find_from_SomeI) (auto simp: nth_append list_ex_iff)

text \<open>
  A line with a redirection is split into the target, the mode and a command whose words are the other words of the
  line, and the rewriting stays within the array that held the line, as long as no word has more than 31 characters and
  there are at most 32 words.
\<close>

theorem extract_redirect_correct:
  assumes "words line = us @ r # f # vs" "\<not> list_ex is_redir us" "is_redir r"
    "list_all (\<lambda>w. length w \<le> TOK_LEN) (words line)" "length (words line) \<le> TOK_MAX" "length line < room"
  shows "\<exists>cmd. extract_redirect room line = Returns (Some (cmd, f, r = [62, 62])) \<and> words cmd = us @ vs \<and> length cmd \<le> length line"
proof -
  have tok: "tokenize line = us @ r # f # vs" using tokenize_words assms(1,4,5) by metis
  have ok: "list_all word_ok (us @ vs)" using word_ok_words [of line] assms(1) by simp
  have "sum_list (map (\<lambda>w. length w + 1) (us @ vs)) \<le> length line + 1"
    using length_words [of "\<lambda>c. c = SP" line] assms(1) by simp
  then have len: "length (join_words (us @ vs)) \<le> length line" by (rule join_words_short [OF ok])
  have "length f \<le> 31" using assms(1,4) by (simp add: TOK_LEN_def)
  then have "extract_redirect room line = Returns (Some (join_words (us @ vs), f, r = [62, 62]))"
    using find_redirect_first [OF assms(2,3)] len assms(6) by (simp add: extract_redirect_def tok Let_def nth_append)
  then show ?thesis using words_join [OF ok] len by blast
qed

theorem extract_redirect_correct_witness:
  "\<exists>cmd. extract_redirect 256 [108, 115, 32, 62, 62, 32, 102] = Returns (Some (cmd, [102], True)) \<and> words cmd = [[108, 115]]"
  using extract_redirect_correct [of "[108, 115, 32, 62, 62, 32, 102]" "[[108, 115]]" "[62, 62]" "[102]" "[]" 256]
  by (auto simp: words_on_def SP_def is_redir_def TOK_LEN_def TOK_MAX_def)

text \<open>
  A word of more than 31 characters is cut in two, and the space between the parts makes the line longer: this line of
  254 characters, which fits into the 256 bytes of the array, needs 259 bytes when it is written back.
\<close>

lemma redirect_overflow: "extract_redirect 256 ([62, 32, 102, 32] @ replicate 250 97) = Wild"
  by code_simp


section \<open>Theorems on pipes\<close>

definition cmd_ok :: "bytes \<Rightarrow> bool" where
  "cmd_ok c \<longleftrightarrow> c \<noteq> [] \<and> hd c \<noteq> SP \<and> last c \<noteq> SP \<and> 0 \<notin> set c \<and> list_all (\<lambda>w. hd w \<noteq> BAR) (words c)"

definition join_pipes :: "bytes list \<Rightarrow> bytes" where
  "join_pipes cs = hd cs @ concat (map (\<lambda>c. [SP, BAR, SP] @ c) (tl cs))"

definition with_bars :: "u8 \<Rightarrow> bytes list \<Rightarrow> bytes" where
  "with_bars b cs = concat (map (\<lambda>c. [SP, b, SP] @ c) cs)"

fun bars_at :: "nat \<Rightarrow> bytes list \<Rightarrow> nat list" where
  "bars_at n [] = []"
| "bars_at n (c # cs) = Suc n # bars_at (Suc (Suc (Suc (n + length c)))) cs"

lemma length_bars_at [simp]: "length (bars_at n cs) = length cs"
  by (induction n cs rule: bars_at.induct) simp_all

lemma pipe_scan_words:
  "pipe_scan p b s = [] \<longleftrightarrow> list_all (\<lambda>w. hd w \<noteq> BAR) (words (if b then dropWhile (\<lambda>c. c \<noteq> SP) s else s))"
proof (induction p b s rule: pipe_scan.induct)
  case (2 p b c cs)
  have "words (c # cs) = (c # takeWhile (Not \<circ> (\<lambda>c. c = SP)) cs) # words (dropWhile (\<lambda>c. c \<noteq> SP) cs)" if "c \<noteq> SP"
    using words_on_step [of "c # cs" "\<lambda>c. c = SP"] that by (simp add: comp_def)
  then show ?case using 2 by (cases b) (auto simp: SP_def BAR_def)
qed simp

lemma pipe_scan_append:
  "pipe_scan p b c = [] \<Longrightarrow> pipe_scan p b (c @ r) = pipe_scan (p + length c) (if c = [] then b else last c \<noteq> SP) r"
  by (induction p b c rule: pipe_scan.induct) (auto split: if_splits)

lemma pipe_scan_bars:
  "list_all cmd_ok cs \<Longrightarrow> pipe_scan n True (with_bars BAR cs) = bars_at n cs"
proof (induction cs arbitrary: n)
  case (Cons c cs)
  let ?n = "Suc (Suc (Suc n))"
  have "pipe_scan ?n False c = []" using Cons.prems by (simp add: pipe_scan_words cmd_ok_def)
  from pipe_scan_append [OF this, of "with_bars BAR cs"] Cons
  have "pipe_scan ?n False (c @ with_bars BAR cs) = bars_at (?n + length c) cs" by (simp add: cmd_ok_def)
  then show ?case by (simp add: with_bars_def SP_def BAR_def)
qed (simp add: with_bars_def)

lemma cut_bars:
  "fold (\<lambda>q l. l[q := 0]) (bars_at (length pre) cs) (pre @ with_bars BAR cs) = pre @ with_bars 0 cs"
proof (induction cs arbitrary: pre)
  case (Cons c cs)
  have "(pre @ with_bars BAR (c # cs))[Suc (length pre) := 0] = (pre @ [SP, 0, SP] @ c) @ with_bars BAR cs"
    by (simp add: with_bars_def list_update_append)
  then show ?case using Cons.IH [of "pre @ [SP, 0, SP] @ c"] by (simp add: with_bars_def)
qed (simp add: with_bars_def)

lemma strip_right_cmd: "c \<noteq> [] \<Longrightarrow> last c \<noteq> SP \<Longrightarrow> strip_right c = c" "c \<noteq> [] \<Longrightarrow> last c \<noteq> SP \<Longrightarrow> strip_right (c @ [SP]) = c"
  by (cases c rule: rev_cases; simp add: strip_right_def)+

lemma takeWhile_zero: "0 \<notin> set c \<Longrightarrow> x \<noteq> 0 \<Longrightarrow> takeWhile (\<lambda>c. c \<noteq> 0) (c @ x # 0 # r) = c @ [x]" for c :: bytes
  by (induction c) auto

lemma takeWhile_no_zero: "0 \<notin> set c \<Longrightarrow> takeWhile (\<lambda>c. c \<noteq> 0) c = c" for c :: bytes
  by (induction c) auto

lemma seg_text_cmd:
  assumes "cmd_ok c"
  shows "seg_text (pre @ c @ with_bars 0 cs) (length pre) = c"
proof -
  have "takeWhile (\<lambda>c. c \<noteq> 0) (c @ with_bars 0 cs) = (if cs = [] then c else c @ [SP])"
    using assms by (cases cs) (auto simp: cmd_ok_def with_bars_def takeWhile_zero takeWhile_no_zero SP_def)
  then show ?thesis using assms strip_right_cmd [of c] by (auto simp: seg_text_def cmd_ok_def)
qed

lemma seg_texts:
  "list_all cmd_ok cs \<Longrightarrow> p \<le> length pre + 1 \<Longrightarrow>
     map (seg_text (pre @ with_bars 0 cs)) (seg_starts (pre @ with_bars 0 cs) p (bars_at (length pre) cs)) = cs"
proof (induction cs arbitrary: pre p)
  case (Cons c cs)
  let ?l = "pre @ with_bars 0 (c # cs)" and ?pre = "pre @ [SP, 0, SP]"
  have l: "?l = ?pre @ c @ with_bars 0 cs" by (simp add: with_bars_def)
  have "takeWhile (\<lambda>c. c = SP) (drop (length pre + 1 + 1) ?l) = [SP]"
    using Cons.prems(1) by (cases c) (auto simp: with_bars_def cmd_ok_def)
  then have starts: "seg_starts ?l p (bars_at (length pre) (c # cs))
      = length ?pre # seg_starts ?l (length ?pre) (bars_at (length (?pre @ c)) cs)"
    using Cons.prems(2) by (simp add: add.assoc)
  have "seg_text ?l (length ?pre) = c" using Cons.prems(1) seg_text_cmd [of c ?pre cs] by (simp add: l)
  moreover have "map (seg_text ?l) (seg_starts ?l (length ?pre) (bars_at (length (?pre @ c)) cs)) = cs"
    using Cons.IH [of "length ?pre" "?pre @ c"] Cons.prems(1) unfolding l append_assoc by simp
  ultimately show ?case unfolding starts by simp
qed simp

text \<open>
  A line of at most nine commands, separated by bars with a space on each side, is split into exactly these commands;
  a line with more than eight bars makes \<open>run_line\<close> write through pointers that it never stored.
\<close>

theorem split_pipes_correct:
  assumes "cs \<noteq> []" "list_all cmd_ok cs"
  shows "map_outcome (map snd) (split_pipes (join_pipes cs)) = (if length cs \<le> 9 then Returns cs else Wild)"
proof -
  obtain c ds where cs: "cs = c # ds" using assms(1) by (cases cs) auto
  have ok: "cmd_ok c" "list_all cmd_ok ds" using assms(2) cs by simp_all
  have line: "join_pipes cs = c @ with_bars BAR ds" by (simp add: join_pipes_def with_bars_def cs)
  have "pipe_scan 0 False c = []" using ok(1) by (simp add: pipe_scan_words cmd_ok_def)
  from pipe_scan_append [OF this, of "with_bars BAR ds"] pipe_scan_bars [OF ok(2)] ok(1)
  have ps: "pipe_scan 0 False (join_pipes cs) = bars_at (length c) ds" by (simp add: line cmd_ok_def)
  have cut: "cut_pipes (join_pipes cs) (bars_at (length c) ds) = c @ with_bars 0 ds"
    by (simp add: cut_pipes_def line cut_bars)
  have "map (seg_text (c @ with_bars 0 ds)) (0 # seg_starts (c @ with_bars 0 ds) 0 (bars_at (length c) ds)) = c # ds"
    using seg_text_cmd [of c "[]" ds] seg_texts [OF ok(2), of 0 c] ok(1) by simp
  then show ?thesis unfolding split_pipes_def ps Let_def cut by (simp add: comp_def MAXP_def cs)
qed

theorem split_pipes_correct_witness:
  "map_outcome (map snd) (split_pipes (join_pipes [[108, 115, 32, 47], [119, 99]])) = Returns [[108, 115, 32, 47], [119, 99]]"
  using split_pipes_correct [of "[[108, 115, 32, 47], [119, 99]]"] by (simp add: cmd_ok_def words_on_def SP_def BAR_def)


section \<open>Theorems on the working directory\<close>

text \<open>What the components of a path do to a directory given by its names.\<close>

definition norm_step :: "bytes list \<Rightarrow> bytes \<Rightarrow> bytes list" where
  "norm_step st c = (if c = DOTDOT then butlast st else st @ [c])"

definition seg_ok :: "bytes \<Rightarrow> bool" where
  "seg_ok s \<longleftrightarrow> s \<noteq> [] \<and> SLASH \<notin> set s \<and> length s \<le> 19 \<and> s \<noteq> DOT \<and> s \<noteq> DOTDOT"

definition dir_text :: "bytes \<Rightarrow> bytes list \<Rightarrow> bool" where
  "dir_text cwd st \<longleftrightarrow> cwd = render_path st \<and> list_all seg_ok st \<and> length st \<le> 16 \<and> length cwd < 127"

lemma norm_segs_Nil [simp]: "norm_segs [] st = st"
  by (simp add: norm_segs.simps)

lemma norm_segs_slash [simp]: "norm_segs (SLASH # p) st = norm_segs p st"
  by (subst (1 2) norm_segs.simps) simp

lemma norm_segs_skip: "norm_segs (dropWhile (\<lambda>c. c = SLASH) p) st = norm_segs p st"
  by (induction p) auto

lemma norm_segs_step:
  assumes "p \<noteq> []" "hd p \<noteq> SLASH"
  shows "norm_segs p st = norm_segs (drop (length (seg_name p)) p) (push_seg st (seg_name p))"
proof -
  have "dropWhile (\<lambda>c. c = SLASH) p = p" using assms by (cases p) auto
  then show ?thesis using assms by (subst norm_segs.simps) simp
qed

lemma norm_segs_append:
  assumes "seg_ok s" "p = [] \<or> hd p = SLASH"
  shows "norm_segs (s @ p) st = norm_segs p (push_seg st s)"
proof -
  have s: "s \<noteq> []" "hd s \<noteq> SLASH" "SLASH \<notin> set s" "length s \<le> 19"
    using assms(1) by (cases s; force simp: seg_ok_def)+
  have "takeWhile (\<lambda>c. c \<noteq> SLASH) (s @ p) = s"
    using s(3) assms(2) by (induction s) (auto simp: takeWhile_eq_Nil_iff)
  then have "seg_name (s @ p) = s" using s(4) by (simp add: seg_name_def)
  then show ?thesis using norm_segs_step [of "s @ p" st] s by simp
qed

lemma norm_segs_render:
  "list_all seg_ok us \<Longrightarrow> length st + length us \<le> 16 \<Longrightarrow>
     norm_segs (concat (map ((#) SLASH) us) @ SLASH # p) st = norm_segs p (st @ us)"
proof (induction us arbitrary: st)
  case (Cons u us)
  let ?r = "concat (map ((#) SLASH) us) @ SLASH # p"
  have r: "hd ?r = SLASH" by (cases us) simp_all
  have "push_seg st u = st @ [u]" using Cons.prems by (simp add: push_seg_def seg_ok_def)
  moreover have "norm_segs (u @ ?r) st = norm_segs ?r (push_seg st u)"
    using Cons.prems(1) r by (intro norm_segs_append) simp_all
  ultimately show ?case using Cons.IH [of "st @ [u]"] Cons.prems by simp
qed simp

lemma seg_name_facts:
  assumes "p \<noteq> []" "hd p \<noteq> SLASH"
  shows "seg_name p \<noteq> []" "SLASH \<notin> set (seg_name p)" "length (seg_name p) \<le> 19"
proof -
  have "SLASH \<notin> set (takeWhile (\<lambda>c. c \<noteq> SLASH) p)" by (auto dest: set_takeWhileD)
  then show "SLASH \<notin> set (seg_name p)" unfolding seg_name_def by (meson in_set_takeD)
qed (use assms in \<open>cases p; simp add: seg_name_def\<close>)+

lemma list_all_butlast: "list_all P xs \<Longrightarrow> list_all P (butlast xs)"
  by (induction xs) auto

lemma push_seg_ok:
  "list_all seg_ok st \<Longrightarrow> length st \<le> 16 \<Longrightarrow> s \<noteq> [] \<Longrightarrow> SLASH \<notin> set s \<Longrightarrow> length s \<le> 19 \<Longrightarrow>
     list_all seg_ok (push_seg st s) \<and> length (push_seg st s) \<le> 16"
  by (auto simp: push_seg_def seg_ok_def list_all_butlast)

lemma norm_segs_ok:
  "list_all seg_ok st \<Longrightarrow> length st \<le> 16 \<Longrightarrow> list_all seg_ok (norm_segs t st) \<and> length (norm_segs t st) \<le> 16"
proof (induction t st rule: norm_segs.induct)
  case (1 t st)
  let ?t = "dropWhile (\<lambda>c. c = SLASH) t"
  show ?case
  proof (cases "?t = []")
    case True
    then show ?thesis using "1.prems" norm_segs_skip [of t st] unfolding True by simp
  next
    case False
    then have "hd ?t \<noteq> SLASH" by (rule hd_dropWhile)
    then have "norm_segs t st = norm_segs (drop (length (seg_name ?t)) ?t) (push_seg st (seg_name ?t))"
      using norm_segs_step [OF False, of st] norm_segs_skip [of t st] by argo
    moreover note push = push_seg_ok [OF "1.prems" seg_name_facts [OF False \<open>hd ?t \<noteq> SLASH\<close>]]
    ultimately show ?thesis using "1.IH" [OF refl False push [THEN conjunct1] push [THEN conjunct2]] by (simp only:)
  qed
qed

definition text_len :: "bytes list \<Rightarrow> nat" where
  "text_len st = length (concat (map ((#) SLASH) st))"

lemma text_len_simps [simp]: "text_len (st @ us) = text_len st + text_len us" "text_len [s] = length s + 1" "text_len [] = 0"
  by (simp_all add: text_len_def)

lemma text_len_push: "text_len (push_seg st s) \<le> text_len st + length s + 1"
  by (cases st rule: rev_cases) (auto simp: push_seg_def simp del: append_assoc)

lemma length_render: "length (render_path st) = (if st = [] then 1 else text_len st)"
  by (simp add: render_path_def text_len_def)

lemma norm_segs_length:
  "text_len (norm_segs t st) \<le> text_len st + length t + (if t = [] \<or> hd t = SLASH then 0 else 1) + length t div 19"
proof (induction "length t" arbitrary: t st rule: less_induct)
  case less
  show ?case
  proof (cases t)
    case (Cons c cs)
    show ?thesis
    proof (cases "c = SLASH")
      case True
      have "text_len (norm_segs cs st) \<le> text_len st + length cs + 1 + length cs div 19"
        using less [of cs st] Cons by (auto split: if_splits)
      moreover have "length cs div 19 \<le> length t div 19" using Cons by (intro div_le_mono) simp
      ultimately show ?thesis using Cons True by simp
    next
      case False
      let ?s = "seg_name t" and ?r = "drop (length (seg_name t)) t"
      have s: "0 < length ?s" "length ?s \<le> 19" using Cons False by (auto simp: seg_name_def)
      have le: "length ?s \<le> length t" by (simp add: seg_name_def length_takeWhile_le min.coboundedI1)
      have ns: "norm_segs t st = norm_segs ?r (push_seg st ?s)" using norm_segs_step [of t st] Cons False by simp
      have r: "?r = [] \<or> hd ?r = SLASH" if "length ?s < 19"
      proof -
        have "?s = takeWhile (\<lambda>c. c \<noteq> SLASH) t" using that by (auto simp: seg_name_def min_def split: if_splits)
        then have "?r = dropWhile (\<lambda>c. c \<noteq> SLASH) t" by (simp add: dropWhile_eq_drop)
        then show ?thesis using hd_dropWhile [of "\<lambda>c. c \<noteq> SLASH" t] by auto
      qed
      have ih: "text_len (norm_segs ?r (push_seg st ?s)) \<le> text_len (push_seg st ?s) + length ?r
          + (if ?r = [] \<or> hd ?r = SLASH then 0 else 1) + length ?r div 19"
        using s le by (intro less) (simp add: Cons)
      have lr: "length ?r = length t - length ?s" by simp
      have "(if ?r = [] \<or> hd ?r = SLASH then 0 else 1) + length ?r div 19 \<le> length t div 19"
      proof (cases "length ?s < 19")
        case True
        then show ?thesis using r [OF True] by (simp add: lr div_le_mono)
      next
        case False
        then have "length ?s = 19" using s by simp
        then have "length t = length ?r + 19" using le lr by simp
        then have "length t div 19 = length ?r div 19 + 1" by simp
        then show ?thesis by simp
      qed
      then show ?thesis using ih text_len_push [of st ?s] lr le Cons False unfolding ns by simp
    qed
  qed simp
qed

lemma words_path: "path_names p = filter (\<lambda>c. c \<noteq> DOT) (words_on (\<lambda>c. c = SLASH) p)"
proof -
  have "split_slash p = split_on (\<lambda>c. c = SLASH) p" for p by (induction p) (simp_all add: SLASH_def)
  then show ?thesis by (simp add: path_names_def words_on_def conj_commute)
qed

lemma norm_segs_words:
  "list_all (\<lambda>c. length c \<le> 19) (words_on (\<lambda>c. c = SLASH) p) \<Longrightarrow>
     norm_segs p st = foldl push_seg st (words_on (\<lambda>c. c = SLASH) p)"
proof (induction p st rule: norm_segs.induct)
  case (1 p st)
  let ?p = "dropWhile (\<lambda>c. c = SLASH) p"
  show ?case
  proof (cases "?p = []")
    case True
    then have "norm_segs p st = st" "words_on (\<lambda>c. c = SLASH) p = []"
      using norm_segs_skip [of p st] words_on_skip [of "\<lambda>c. c = SLASH" p] unfolding True by simp_all
    then show ?thesis by simp
  next
    case False
    then have hd: "hd ?p \<noteq> SLASH" by (rule hd_dropWhile)
    have ws: "words_on (\<lambda>c. c = SLASH) p
        = takeWhile (\<lambda>c. c \<noteq> SLASH) ?p # words_on (\<lambda>c. c = SLASH) (dropWhile (\<lambda>c. c \<noteq> SLASH) ?p)"
      using words_on_step [of ?p "\<lambda>c. c = SLASH", OF False hd] by (simp add: comp_def)
    have "seg_name ?p = takeWhile (\<lambda>c. c \<noteq> SLASH) ?p" using "1.prems" ws by (simp add: seg_name_def)
    moreover have "drop (length (takeWhile (\<lambda>c. c \<noteq> SLASH) ?p)) ?p = dropWhile (\<lambda>c. c \<noteq> SLASH) ?p" by (simp add: dropWhile_eq_drop)
    moreover have "norm_segs p st = norm_segs (drop (length (seg_name ?p)) ?p) (push_seg st (seg_name ?p))"
      using norm_segs_skip [of p st] norm_segs_step [of ?p st] False hd by simp
    ultimately show ?thesis using "1.IH" [OF refl False] "1.prems" ws by simp
  qed
qed

lemma foldl_push:
  "length st + length (filter (\<lambda>c. c \<noteq> DOT) cs) \<le> 16 \<Longrightarrow> foldl push_seg st cs = foldl norm_step st (filter (\<lambda>c. c \<noteq> DOT) cs)"
  by (induction cs arbitrary: st) (auto simp: push_seg_def norm_step_def)

lemma norm_segs_exact:
  "list_all (\<lambda>c. length c \<le> 19) (path_names p) \<Longrightarrow> length st + length (path_names p) \<le> 16 \<Longrightarrow>
     norm_segs p st = foldl norm_step st (path_names p)"
  by (subst norm_segs_words) (auto simp: words_path foldl_push list_all_iff DOT_def)

lemma join_path_segs:
  assumes "dir_text cwd st" "take 1 path \<noteq> [SLASH]"
  shows "norm_segs (join_path cwd path) [] = (if (if st = [] then 1 else length cwd + 1) + length path + 1 < 127 then norm_segs path st else st)"
proof -
  let ?c = "concat (map ((#) SLASH) st)"
  have c: "take 127 cwd = cwd" "list_all seg_ok st" "length st \<le> 16" "cwd = render_path st" using assms(1) by (auto simp: dir_text_def)
  have "last cwd \<noteq> SLASH" if ne: "st \<noteq> []"
  proof -
    have s: "last st \<noteq> []" "SLASH \<notin> set (last st)" using c(2) ne by (auto simp: list_all_iff seg_ok_def)
    have "cwd = concat (map ((#) SLASH) (butlast st @ [last st]))" using c(4) ne by (simp add: render_path_def)
    also have "\<dots> = concat (map ((#) SLASH) (butlast st)) @ SLASH # last st"
      unfolding map_append concat_append by simp
    finally show ?thesis using s by (simp add: last_in_set [OF s(1)]) (metis last_in_set)
  qed
  then have "(if cwd \<noteq> [] \<and> last cwd \<noteq> SLASH then cwd @ [SLASH] else cwd) = ?c @ [SLASH]"
    using c(4) by (auto simp: render_path_def)
  then have "join_path cwd path = (if length (?c @ [SLASH]) + length path + 1 < 127 then ?c @ [SLASH] @ path else ?c @ [SLASH])"
    using assms(2) c(1) by (simp add: join_path_def Let_def)
  moreover have "length (?c @ [SLASH]) = (if st = [] then 1 else length cwd + 1)" using c(4) by (simp add: render_path_def)
  moreover have "norm_segs (?c @ SLASH # p) [] = norm_segs p st" for p using norm_segs_render [OF c(2), of "[]"] c(3) by simp
  ultimately show ?thesis by simp
qed

text \<open>
  C37. The text of the working directory stays a normalised absolute path that fits its array, whatever word is given to
  \<open>cd\<close>; and when the path has names of at most 19 characters and the result is neither too deep nor too long, it
  is the walk through the names of the path, with \<^verbatim>\<open>.\<close> and \<^verbatim>\<open>..\<close> resolved.
\<close>

theorem norm_join_correct:
  assumes "dir_text cwd st" "length path \<le> TOK_LEN"
  shows "\<exists>cwd' st'. norm_join cwd path = Returns cwd' \<and> dir_text cwd' st' \<and>
      (if list_all (\<lambda>c. length c \<le> 19) (path_names path) \<and> length st + length (path_names path) \<le> 16 \<and> length cwd + length path < 125
       then st' = foldl norm_step (if take 1 path = [SLASH] then [] else st) (path_names path) else True)"
proof -
  let ?s = "if take 1 path = [SLASH] then [] else st"
  define st' where "st' = norm_segs (join_path cwd path) []"
  have st: "list_all seg_ok st" "length st \<le> 16" "length cwd < 127" "length path < 127"
    using assms by (auto simp: dir_text_def TOK_LEN_def)
  have cw: "length cwd = (if st = [] then 1 else text_len st)" using assms(1) by (simp add: dir_text_def length_render)
  have eq: "st' = (if take 1 path = [SLASH] \<or> (if st = [] then 1 else length cwd + 1) + length path + 1 < 127 then norm_segs path ?s else st)"
    using join_path_segs [OF assms(1), of path] st(4) by (auto simp: st'_def join_path_def)
  have ok: "list_all seg_ok st' \<and> length st' \<le> 16" unfolding st'_def by (rule norm_segs_ok) simp_all
  have "length path div 19 \<le> 31 div 19" using assms(2) by (intro div_le_mono) (simp add: TOK_LEN_def)
  then have b: "text_len (norm_segs path us) \<le> text_len us + length path + 2" for us
    using norm_segs_length [of path us] by (auto split: if_splits)
  have "text_len st' < 127" using b [of "[]"] b [of st] eq cw assms(2) st(3) by (auto simp: TOK_LEN_def split: if_splits)
  then have len: "length (render_path st') < 127" by (simp add: length_render)
  then have r: "norm_join cwd path = Returns (render_path st')" using st by (simp add: norm_join_def Let_def st'_def)
  have "dir_text (render_path st') st'" using ok len by (simp add: dir_text_def)
  moreover have "st' = foldl norm_step ?s (path_names path)"
    if "list_all (\<lambda>c. length c \<le> 19) (path_names path)" "length st + length (path_names path) \<le> 16" "length cwd + length path < 125"
    using eq that norm_segs_exact [of path ?s] by (auto split: if_splits)
  ultimately show ?thesis
    by (intro exI [of _ "render_path st'"] exI [of _ st'] conjI r) auto
qed

theorem norm_join_correct_witness:
  "\<exists>cwd' st'. norm_join [47, 97, 47, 98] [46, 46, 47, 99] = Returns cwd' \<and> dir_text cwd' st' \<and> st' = [[97], [99]]"
  using norm_join_correct [of "[47, 97, 47, 98]" "[[97], [98]]" "[46, 46, 47, 99]"]
  by (simp add: dir_text_def render_path_def seg_ok_def SLASH_def DOT_def DOTDOT_def path_names_def norm_step_def TOK_LEN_def)

text \<open>
  A name of more than 19 characters, which the file system allows, is shown as two, so that \<^verbatim>\<open>cd ..\<close> leaves half of
  it in the prompt while the shell is in the parent directory.
\<close>

lemma norm_join_splits_name:
  "norm_join [47] (replicate 20 97) = Returns (47 # replicate 19 97 @ [47, 97])"
  "norm_join (47 # replicate 19 97 @ [47, 97]) DOTDOT = Returns (47 # replicate 19 97)"
  by code_simp+


section \<open>Numbers and counts\<close>

lemma atoi_digits_value:
  "list_all (\<lambda>c. 48 \<le> c \<and> c \<le> 57) ds \<Longrightarrow> 0 \<le> v \<Longrightarrow> foldl (\<lambda>v c. v * 10 + uint (c - 48)) v ds \<le> 2147483647 \<Longrightarrow>
     atoi_digits v ds = Some (foldl (\<lambda>v c. v * 10 + uint (c - 48)) v ds)"
proof (induction ds arbitrary: v)
  case (Cons d ds)
  let ?v = "v * 10 + uint (d - 48)"
  have mono: "w \<le> foldl (\<lambda>v c. v * 10 + uint (c - 48)) w ds" if "0 \<le> w" for w
    using that
  proof (induction ds arbitrary: w)
    case (Cons e es)
    have "w \<le> w * 10 + uint (e - 48)" using Cons.prems by (intro add_increasing2) auto
    also have "\<dots> \<le> foldl (\<lambda>v c. v * 10 + uint (c - 48)) (w * 10 + uint (e - 48)) es"
      using Cons.prems by (intro Cons.IH) simp
    finally show ?case by simp
  qed simp
  have v: "0 \<le> ?v" using Cons.prems(2) by simp
  have "?v \<le> 2147483647" using mono [OF v] Cons.prems(3) by simp
  then show ?case using Cons.IH [OF _ v] Cons.prems by simp
qed simp

end
