(* ===== verification/Shell_Line.thy ===== *)
theory Shell_Line
  imports Syscall Shell_Text
begin

text \<open>
  The state of the shell and its line editor, \<^verbatim>\<open>read_line\<close> of \<^verbatim>\<open>kernel/shell.cpp\<close>, with the history of the last 32
  lines. Characters come from the keyboard and from the serial line; when there are none the shell waits for the
  next interrupt of the list \<open>irqs\<close>.
\<close>

section \<open>State\<close>

record 'd shell = kernel +
  sh_cwd :: u32
  sh_cwdstr :: bytes
  sh_hist :: "bytes list"
  sh_hist_count :: int
  sh_browse :: int
  sh_rtc :: 'd

text \<open>The array \<^verbatim>\<open>line\<close> of 256 bytes and the position in it.\<close>

record line_buf =
  lb_text :: bytes
  lb_pos :: nat

definition LINE_MAX :: nat where "LINE_MAX = 256"
definition HIST_MAX :: nat where "HIST_MAX = 32"


section \<open>The editor\<close>

definition newline :: "'d shell \<Rightarrow> 'd shell" where
  "newline s = s\<lparr>kcon := serial_putc 10 (serial_putc 13 ((kcon s)\<lparr>con_vga := vga_putc 10 (con_vga (kcon s))\<rparr>))\<rparr>"

definition echo :: "bytes \<Rightarrow> 'd shell \<Rightarrow> 'd shell" where
  "echo cs s = fold con_putc cs s"

text \<open>\<^verbatim>\<open>strncpy(line, hist[hist_browse], max - 1); line[max - 1] = 0; pos = strlen(line);\<close>\<close>

definition recall :: "bytes \<Rightarrow> line_buf" where
  "recall h =
     (let t = take (LINE_MAX - 1) h in \<lparr>lb_text = t @ replicate (LINE_MAX - length t) 0, lb_pos = length (c_string t)\<rparr>)"

text \<open>What is drawn after the cursor was moved to the start of the old line of \<open>old\<close> characters.\<close>

definition redraw :: "nat \<Rightarrow> line_buf \<Rightarrow> 'd shell \<Rightarrow> 'd shell" where
  "redraw old b s =
     (let s = echo (take (lb_pos b) (lb_text b)) s
      in if lb_pos b < old then echo (replicate (old - lb_pos b) 8) (echo (replicate (old - lb_pos b) 32) s) else s)"

definition hist_up :: "line_buf \<Rightarrow> 'd shell \<Rightarrow> line_buf \<times> 'd shell" where
  "hist_up b s =
     (if sh_hist_count s > 0 \<and> sh_browse s < sh_hist_count s - 1
      then
        let s = s\<lparr>sh_browse := sh_browse s + 1\<rparr>;
            s = echo (replicate (lb_pos b) 8) s;
            b' = recall (sh_hist s ! nat (sh_browse s))
        in (b', redraw (lb_pos b) b' s)
      else (b, s))"

definition hist_down :: "line_buf \<Rightarrow> 'd shell \<Rightarrow> line_buf \<times> 'd shell" where
  "hist_down b s =
     (if sh_browse s \<ge> 0
      then
        let s = echo (replicate (lb_pos b) 8) s;
            (b', s) =
              (if sh_browse s > 0
               then let s = s\<lparr>sh_browse := sh_browse s - 1\<rparr> in (recall (sh_hist s ! nat (sh_browse s)), s)
               else (\<lparr>lb_text = (lb_text b)[0 := 0], lb_pos = 0\<rparr>, s\<lparr>sh_browse := - 1\<rparr>))
        in (b', redraw (lb_pos b) b' s)
      else (b, s))"

definition push_hist :: "bytes \<Rightarrow> 'd shell \<Rightarrow> 'd shell" where
  "push_hist line s =
     s\<lparr>sh_hist := take HIST_MAX (take 255 line # sh_hist s),
       sh_hist_count := (if sh_hist_count s < int HIST_MAX then sh_hist_count s + 1 else sh_hist_count s)\<rparr>"

definition enter_key :: "line_buf \<Rightarrow> 'd shell \<Rightarrow> bytes \<times> 'd shell" where
  "enter_key b s =
     (let s = newline s;
          s = (if lb_pos b > 0 then push_hist (c_string (lb_text b)) s else s)
      in (c_string ((lb_text b)[lb_pos b := 0]), s\<lparr>sh_browse := - 1\<rparr>))"

definition key_step :: "u8 \<Rightarrow> line_buf \<Rightarrow> 'd shell \<Rightarrow> (bytes \<times> 'd shell) + (line_buf \<times> 'd shell)" where
  "key_step c b s =
     (if c = 0x80 then Inr (hist_up b s)
      else if c = 0x81 then Inr (hist_down b s)
      else if c = 0x82 \<or> c = 0x83 then Inr (b, s)
      else if c = 13 \<or> c = 10 then Inl (enter_key b s)
      else if c = 8
      then
        let (b, s) = (if lb_pos b > 0 then (b\<lparr>lb_pos := lb_pos b - 1\<rparr>, con_putc 8 s) else (b, s))
        in Inr (b, s\<lparr>sh_browse := - 1\<rparr>)
      else if c = 0 \<or> sint c < 32 then Inr (b, s)
      else
        let s = s\<lparr>sh_browse := - 1\<rparr>
        in if lb_pos b < LINE_MAX - 2
           then Inr (\<lparr>lb_text = (lb_text b)[lb_pos b := c, lb_pos b + 1 := 0], lb_pos = lb_pos b + 1\<rparr>, con_putc c s)
           else Inr (b, s))"

definition next_key :: "'d shell \<Rightarrow> (u8 \<times> 'd shell) option" where
  "next_key s =
     (if keyboard_has_char (kkbd s) then (case keyboard_getc (kkbd s) of (c, kb) \<Rightarrow> Some (c, s\<lparr>kkbd := kb\<rparr>))
      else if serial_rx s \<noteq> [] then Some (serial_getc s)
      else None)"

partial_function (option) read_keys :: "('d shell \<Rightarrow> 'd shell) list \<Rightarrow> line_buf \<Rightarrow> 'd shell \<Rightarrow> (bytes \<times> 'd shell) option" where
  "read_keys irqs b s =
     (if sys_intr_pending (nintr s) then Some ([], newline (s\<lparr>nintr := sys_intr_clear (nintr s)\<rparr>))
      else
        case next_key s of
          Some (c, s) \<Rightarrow> (case key_step c b s of Inl r \<Rightarrow> Some r | Inr (b, s) \<Rightarrow> read_keys irqs b s)
        | None \<Rightarrow> (case irqs of [] \<Rightarrow> None | irq # irqs \<Rightarrow> read_keys irqs b (irq s)))"

text \<open>\<open>stack\<close> is what the array \<^verbatim>\<open>line\<close> holds at first.\<close>

definition read_line :: "('d shell \<Rightarrow> 'd shell) list \<Rightarrow> bytes \<Rightarrow> 'd shell \<Rightarrow> (bytes \<times> 'd shell) option" where
  "read_line irqs stack s = read_keys irqs \<lparr>lb_text = stack[0 := 0], lb_pos = 0\<rparr> s"


section \<open>The bounds of the line and of the history\<close>

definition buf_ok :: "line_buf \<Rightarrow> bool" where
  "buf_ok b \<longleftrightarrow> length (lb_text b) = LINE_MAX \<and> lb_pos b \<le> length (c_string (lb_text b)) \<and> length (c_string (lb_text b)) \<le> 254"

definition hist_view :: "'d shell \<Rightarrow> bytes list \<times> int \<times> int" where
  "hist_view s = (sh_hist s, sh_hist_count s, sh_browse s)"

definition hist_ok :: "'d shell \<Rightarrow> bool" where
  "hist_ok s \<longleftrightarrow> length (sh_hist s) = HIST_MAX \<and> list_all (\<lambda>h. length h \<le> 254 \<and> 0 \<notin> set h) (sh_hist s)
     \<and> 0 \<le> sh_hist_count s \<and> sh_hist_count s \<le> int HIST_MAX \<and> - 1 \<le> sh_browse s \<and> sh_browse s < max 1 (sh_hist_count s)"

lemma con_putc_view [simp]:
  "sh_hist (con_putc c s) = sh_hist s" "sh_hist_count (con_putc c s) = sh_hist_count s" "sh_browse (con_putc c s) = sh_browse s"
  "serial_rx (con_putc c s) = serial_rx s" "kkbd (con_putc c s) = kkbd s" "nintr (con_putc c s) = nintr s"
  by (simp_all add: con_putc_def)

lemma echo_view [simp]:
  "sh_hist (echo cs s) = sh_hist s" "sh_hist_count (echo cs s) = sh_hist_count s" "sh_browse (echo cs s) = sh_browse s"
  "serial_rx (echo cs s) = serial_rx s" "kkbd (echo cs s) = kkbd s" "nintr (echo cs s) = nintr s"
  unfolding echo_def by (induction cs arbitrary: s) simp_all

lemma redraw_view [simp]:
  "sh_hist (redraw n b s) = sh_hist s" "sh_hist_count (redraw n b s) = sh_hist_count s" "sh_browse (redraw n b s) = sh_browse s"
  by (simp_all add: redraw_def Let_def)

lemma newline_view [simp]:
  "sh_hist (newline s) = sh_hist s" "sh_hist_count (newline s) = sh_hist_count s" "sh_browse (newline s) = sh_browse s"
  "serial_rx (newline s) = serial_rx s" "kkbd (newline s) = kkbd s" "nintr (newline s) = nintr s"
  by (simp_all add: newline_def)

lemma c_string_append: "0 \<notin> set t \<Longrightarrow> c_string (t @ 0 # r) = t"
  by (induction t) (auto simp: c_string_def)

lemma c_string_id: "0 \<notin> set t \<Longrightarrow> c_string t = t"
  by (induction t) (auto simp: c_string_def)

lemma c_string_no_zero: "0 \<notin> set (c_string t)"
  by (auto simp: c_string_def dest: set_takeWhileD)

lemma take_c_string: "n \<le> length (c_string t) \<Longrightarrow> take n t = take n (c_string t) \<and> 0 \<notin> set (take n t)"
proof -
  assume n: "n \<le> length (c_string t)"
  have "t = c_string t @ dropWhile (\<lambda>c. c \<noteq> 0) t" by (simp add: c_string_def)
  then have "take n t = take n (c_string t)" using n by (metis append_Nil2 diff_is_0_eq take_append take_eq_Nil)
  then show ?thesis using c_string_no_zero [of t] by (metis in_set_takeD)
qed

lemma c_string_cut: "n \<le> length (c_string t) \<Longrightarrow> n < length t \<Longrightarrow> c_string (t[n := 0]) = take n t"
  using c_string_append [OF take_c_string [THEN conjunct2], of n t] by (simp add: upd_conv_take_nth_drop)

lemma c_string_type:
  assumes "n \<le> length (c_string t)" "Suc n < length t" "c \<noteq> 0"
  shows "c_string (t[n := c, Suc n := 0]) = take n t @ [c]"
proof -
  have "t[n := c, Suc n := 0] = (take n t @ [c]) @ 0 # drop (Suc (Suc n)) t"
    using assms(2) by (simp add: upd_conv_take_nth_drop take_Suc_conv_app_nth)
  moreover have "0 \<notin> set (take n t @ [c])" using take_c_string [OF assms(1), THEN conjunct2] assms(3) by simp
  ultimately show ?thesis by (metis c_string_append)
qed

lemma recall_ok:
  assumes "length h \<le> 254" "0 \<notin> set h"
  shows "buf_ok (recall h)" "c_string (lb_text (recall h)) = h" "lb_pos (recall h) = length h"
proof -
  have t: "take (LINE_MAX - 1) h = h" and r: "replicate (LINE_MAX - length h) 0 = (0 :: u8) # replicate (255 - length h) 0"
    using assms(1) by (simp_all add: LINE_MAX_def Suc_diff_le flip: replicate_Suc)
  have "recall h = \<lparr>lb_text = h @ 0 # replicate (255 - length h) 0, lb_pos = length h\<rparr>"
    unfolding recall_def Let_def t r c_string_id [OF assms(2)] ..
  then show "buf_ok (recall h)" "c_string (lb_text (recall h)) = h" "lb_pos (recall h) = length h"
    using assms by (simp_all add: buf_ok_def c_string_append LINE_MAX_def)
qed


lemma hist_nth: "hist_ok s \<Longrightarrow> i < 32 \<Longrightarrow> length (sh_hist s ! i) \<le> 254 \<and> 0 \<notin> set (sh_hist s ! i)"
  by (simp add: hist_ok_def list_all_length HIST_MAX_def)

lemma hist_up_ok: "buf_ok b \<Longrightarrow> hist_ok s \<Longrightarrow> hist_up b s = (b', s') \<Longrightarrow> buf_ok b' \<and> hist_ok s'"
proof -
  assume a: "buf_ok b" "hist_ok s" "hist_up b s = (b', s')"
  have "nat (sh_browse s + 1) < 32" if "sh_browse s < sh_hist_count s - 1" using a(2) that by (auto simp: hist_ok_def HIST_MAX_def)
  then have "buf_ok (recall (sh_hist s ! nat (sh_browse s + 1)))" if "sh_browse s < sh_hist_count s - 1"
    using recall_ok(1) hist_nth [OF a(2)] that by blast
  then show ?thesis using a by (auto simp: hist_up_def hist_ok_def Let_def split: if_splits)
qed

lemma hist_down_ok: "buf_ok b \<Longrightarrow> hist_ok s \<Longrightarrow> hist_down b s = (b', s') \<Longrightarrow> buf_ok b' \<and> hist_ok s'"
proof -
  assume a: "buf_ok b" "hist_ok s" "hist_down b s = (b', s')"
  have "nat (sh_browse s - 1) < 32" if "0 < sh_browse s" using a(2) that by (auto simp: hist_ok_def HIST_MAX_def)
  then have "buf_ok (recall (sh_hist s ! nat (sh_browse s - 1)))" if "0 < sh_browse s"
    using recall_ok(1) hist_nth [OF a(2)] that by blast
  moreover have "buf_ok \<lparr>lb_text = (lb_text b)[0 := 0], lb_pos = 0\<rparr>"
    using a(1) c_string_cut [of 0 "lb_text b"] by (simp add: buf_ok_def LINE_MAX_def)
  ultimately show ?thesis using a by (auto simp: hist_down_def hist_ok_def Let_def split: if_splits)
qed

definition line_ok :: "bytes \<Rightarrow> bool" where
  "line_ok l \<longleftrightarrow> length l \<le> 254 \<and> 0 \<notin> set l"

lemma push_hist_ok: "hist_ok s \<Longrightarrow> line_ok l \<Longrightarrow> hist_ok ((push_hist l s)\<lparr>sh_browse := - 1\<rparr>)"
proof -
  assume a: "hist_ok s" "line_ok l"
  have l: "take 255 l = l" "length l \<le> 254 \<and> 0 \<notin> set l" using a(2) by (simp_all add: line_ok_def)
  have "list_all (\<lambda>h. length h \<le> 254 \<and> 0 \<notin> set h) (take 31 (sh_hist s))"
    using a(1) unfolding hist_ok_def list_all_iff by (meson in_set_takeD)
  then show ?thesis using a(1) l by (simp add: hist_ok_def push_hist_def HIST_MAX_def)
qed

lemma enter_key_ok: "buf_ok b \<Longrightarrow> hist_ok s \<Longrightarrow> enter_key b s = (l, s') \<Longrightarrow> line_ok l \<and> hist_ok s'"
proof -
  assume a: "buf_ok b" "hist_ok s" "enter_key b s = (l, s')"
  have b: "lb_pos b \<le> length (c_string (lb_text b))" "length (c_string (lb_text b)) \<le> 254" "length (lb_text b) = 256"
    using a(1) by (auto simp: buf_ok_def LINE_MAX_def)
  then have l: "c_string ((lb_text b)[lb_pos b := 0]) = take (lb_pos b) (lb_text b)" by (intro c_string_cut) simp_all
  have "line_ok (take (lb_pos b) (lb_text b))" using take_c_string [OF b(1), THEN conjunct2] b by (simp add: line_ok_def)
  moreover have "hist_ok (newline s)" "hist_ok (s\<lparr>sh_browse := - 1\<rparr>)" if "hist_ok s" for s :: "'a shell"
    using that by (auto simp: hist_ok_def)
  moreover have "hist_ok ((push_hist (c_string (lb_text b)) (newline s))\<lparr>sh_browse := - 1\<rparr>)"
    by (rule push_hist_ok) (use calculation(2) a(2) b(2) c_string_no_zero in \<open>simp_all add: line_ok_def\<close>)
  ultimately show ?thesis using a(2,3) l by (auto simp: enter_key_def Let_def)
qed

lemma type_ok:
  "buf_ok b \<Longrightarrow> lb_pos b < 254 \<Longrightarrow> c \<noteq> 0 \<Longrightarrow> buf_ok \<lparr>lb_text = (lb_text b)[lb_pos b := c, lb_pos b + 1 := 0], lb_pos = lb_pos b + 1\<rparr>"
  using c_string_type [of "lb_pos b" "lb_text b" c] by (simp add: buf_ok_def LINE_MAX_def)

lemma hist_ok_browse: "hist_ok s \<Longrightarrow> hist_ok (s\<lparr>sh_browse := - 1\<rparr>)"
  by (auto simp: hist_ok_def)

lemma hist_ok_putc: "hist_ok s \<Longrightarrow> hist_ok (con_putc c s)"
  by (auto simp: hist_ok_def)

lemma key_step_ok:
  assumes "buf_ok b" "hist_ok s"
  shows "case key_step c b s of Inl (l, s') \<Rightarrow> line_ok l \<and> hist_ok s' | Inr (b', s') \<Rightarrow> buf_ok b' \<and> hist_ok s'"
proof -
  have del: "buf_ok (b\<lparr>lb_pos := lb_pos b - 1\<rparr>)" using assms(1) by (auto simp: buf_ok_def)
  show ?thesis
    unfolding key_step_def Let_def
    using assms hist_up_ok [OF assms] hist_down_ok [OF assms] enter_key_ok [OF assms] del type_ok [OF assms(1), of c]
    by (auto simp: LINE_MAX_def intro: hist_ok_browse hist_ok_putc split: prod.splits)
qed

definition keeps_hist :: "('d shell \<Rightarrow> 'd shell) \<Rightarrow> bool" where
  "keeps_hist f \<longleftrightarrow> (\<forall>s. hist_view (f s) = hist_view s)"

lemma hist_ok_view: "hist_view t = hist_view s \<Longrightarrow> hist_ok t = hist_ok s"
  by (simp add: hist_ok_def hist_view_def)

lemma next_key_view: "next_key s = Some (c, t) \<Longrightarrow> hist_view t = hist_view s"
  by (auto simp: next_key_def serial_getc_def hist_view_def split: if_splits prod.splits list.splits)

lemma read_keys_ok:
  assumes "read_keys irqs b s = Some r"
  shows "buf_ok b \<longrightarrow> hist_ok s \<longrightarrow> list_all keeps_hist irqs \<longrightarrow> line_ok (fst r) \<and> hist_ok (snd r)"
  using assms
proof (induction irqs b s r rule: read_keys.raw_induct [rotated, consumes 1, case_names loop])
  case (loop rec irqs b s r)
  show ?case
  proof (intro impI)
    assume b: "buf_ok b" and h: "hist_ok s" and q: "list_all keeps_hist irqs"
    show "line_ok (fst r) \<and> hist_ok (snd r)"
    proof (cases "sys_intr_pending (nintr s)")
      case True
      then have "r = ([], newline (s\<lparr>nintr := sys_intr_clear (nintr s)\<rparr>))" using loop.hyps by simp
      then show ?thesis using h by (simp add: line_ok_def hist_ok_def)
    next
      case run: False
      show ?thesis
      proof (cases "next_key s")
        case None
        then obtain irq qs where iq: "irqs = irq # qs" "rec qs b (irq s) = Some r"
          using loop.hyps run by (auto split: list.splits)
        have "hist_ok (irq s)" "list_all keeps_hist qs"
          using q h hist_ok_view [of "irq s" s] iq(1) by (simp_all add: keeps_hist_def)
        then show ?thesis using loop.IH [OF iq(2)] b by blast
      next
        case (Some ct)
        obtain c t where ct: "ct = (c, t)" by force
        have t: "hist_ok t" using Some ct next_key_view hist_ok_view h by blast
        from key_step_ok [OF b t, of c] show ?thesis
          using loop.hyps loop.IH run Some ct q by (auto split: sum.splits prod.splits)
      qed
    qed
  qed
qed

text \<open>
  Whatever is typed, and whatever the interrupts do that leave the history alone, \<open>read_line\<close> writes only inside the
  256 bytes of the line and returns a line of at most 254 characters, and the history keeps its bounds.
\<close>

theorem read_line_safe:
  assumes "read_line irqs stack s = Some (l, t)" "length stack = 256" "hist_ok s" "list_all keeps_hist irqs"
  shows "length l \<le> 254 \<and> 0 \<notin> set l \<and> hist_ok t"
proof -
  have "buf_ok \<lparr>lb_text = stack[0 := 0], lb_pos = 0\<rparr>"
    using c_string_cut [of 0 stack] assms(2) by (simp add: buf_ok_def LINE_MAX_def)
  then show ?thesis using read_keys_ok assms(1,3,4) unfolding read_line_def by (fastforce simp: line_ok_def)
qed


section \<open>The text that was typed\<close>

definition edit_key :: "bytes \<Rightarrow> u8 \<Rightarrow> bytes" where
  "edit_key t c = (if c = 8 then butlast t else if length t < 254 then t @ [c] else t)"

definition typed :: "u8 \<Rightarrow> bool" where
  "typed c \<longleftrightarrow> c = 8 \<or> 32 \<le> c \<and> c < 128"

lemma edit_key_ne: "c \<noteq> 8 \<Longrightarrow> edit_key us c \<noteq> []"
  by (cases us) (auto simp: edit_key_def)

lemma typed_char:
  assumes "typed c" "c \<noteq> 8"
  shows "c \<noteq> 0x80" "c \<noteq> 0x81" "c \<noteq> 0x82" "c \<noteq> 0x83" "c \<noteq> 13" "c \<noteq> 10" "c \<noteq> 0" "c \<noteq> 3" "\<not> sint c < 32"
proof -
  have c: "32 \<le> c" "c < 128" using assms by (simp_all add: typed_def)
  show "c \<noteq> 0x80" "c \<noteq> 0x81" "c \<noteq> 0x82" "c \<noteq> 0x83" "c \<noteq> 13" "c \<noteq> 10" "c \<noteq> 0" "c \<noteq> 3" using c by auto
  have u: "32 \<le> uint c" "uint c < 128" using c by (simp_all add: word_le_def word_less_def)
  then have "sint c = uint c" by (simp add: sint_uint signed_take_bit_int_eq_self)
  then show "\<not> sint c < 32" using u by simp
qed

lemma read_keys_char:
  assumes "\<not> sys_intr_pending (nintr s)" "\<not> keyboard_has_char (kkbd s)" "serial_rx s = c # r" "c \<noteq> 3"
  shows "read_keys irqs b s =
     (case key_step c b (s\<lparr>serial_rx := r\<rparr>) of Inl x \<Rightarrow> Some x | Inr (b, t) \<Rightarrow> read_keys irqs b t)"
  using assms by (subst read_keys.simps) (simp add: next_key_def serial_getc_def)

lemma read_keys_hd:
  "\<not> sys_intr_pending (nintr s) \<Longrightarrow> \<not> keyboard_has_char (kkbd s) \<Longrightarrow> serial_rx s \<noteq> [] \<Longrightarrow> hd (serial_rx s) \<noteq> 3 \<Longrightarrow>
     read_keys irqs b s =
       (case key_step (hd (serial_rx s)) b (s\<lparr>serial_rx := tl (serial_rx s)\<rparr>) of Inl x \<Rightarrow> Some x | Inr (b, t) \<Rightarrow> read_keys irqs b t)"
  by (rule read_keys_char) simp_all

lemma read_keys_text:
  assumes "buf_ok b" "\<not> sys_intr_pending (nintr s)" "\<not> keyboard_has_char (kkbd s)" "serial_rx s = ks @ 13 # rest"
    "list_all typed ks" "take (lb_pos b) (lb_text b) = acc"
  shows "\<exists>t. read_keys irqs b s = Some (foldl edit_key acc ks, t) \<and> serial_rx t = rest \<and>
     (8 \<notin> set ks \<longrightarrow> c_string (lb_text b) = acc \<longrightarrow>
        sh_hist t = (if foldl edit_key acc ks = [] then sh_hist s else take 32 (foldl edit_key acc ks # sh_hist s)))"
  using assms
proof (induction ks arbitrary: b s acc)
  case Nil
  have b: "lb_pos b \<le> length (c_string (lb_text b))" "length (c_string (lb_text b)) \<le> 254" "length (lb_text b) = 256"
    using Nil.prems(1) by (auto simp: buf_ok_def LINE_MAX_def)
  then have "length acc = lb_pos b" by (simp add: Nil.prems(6) [symmetric])
  then have l: "c_string ((lb_text b)[lb_pos b := 0]) = acc" "lb_pos b = length acc" "length acc \<le> 254"
    using c_string_cut [of "lb_pos b" "lb_text b"] Nil.prems(6) b by simp_all
  then show ?case
    using read_keys_char [OF Nil.prems(2,3), of 13 rest irqs b] Nil.prems(4)
    by (auto simp: key_step_def enter_key_def push_hist_def Let_def HIST_MAX_def)
next
  case (Cons c ks)
  let ?s = "s\<lparr>serial_rx := ks @ 13 # rest\<rparr>"
  have c: "typed c" using Cons.prems(5) by simp
  have b: "lb_pos b \<le> length (c_string (lb_text b))" "length (c_string (lb_text b)) \<le> 254" "length (lb_text b) = 256"
    using Cons.prems(1) by (auto simp: buf_ok_def LINE_MAX_def)
  then have pos: "lb_pos b = length acc" using Cons.prems(6) by auto
  have step: "read_keys irqs b s = (case key_step c b ?s of Inl x \<Rightarrow> Some x | Inr (b, t) \<Rightarrow> read_keys irqs b t)"
    using read_keys_char [OF Cons.prems(2,3), of c "ks @ 13 # rest" irqs b] Cons.prems(4) c typed_char [of c] by (cases "c = 8") auto
  have next_state: "\<exists>b' t'. key_step c b ?s = Inr (b', t') \<and> buf_ok b' \<and> take (lb_pos b') (lb_text b') = edit_key acc c
      \<and> serial_rx t' = ks @ 13 # rest \<and> kkbd t' = kkbd s \<and> nintr t' = nintr s \<and> sh_hist t' = sh_hist s
      \<and> (c \<noteq> 8 \<longrightarrow> c_string (lb_text b) = acc \<longrightarrow> c_string (lb_text b') = edit_key acc c)"
  proof (cases "c = 8")
    case True
    have "buf_ok (b\<lparr>lb_pos := lb_pos b - 1\<rparr>)" using Cons.prems(1) by (auto simp: buf_ok_def)
    moreover have "take (lb_pos b - 1) (lb_text b) = butlast acc" if "lb_pos b > 0"
      using Cons.prems(6) pos that by (metis butlast_take diff_le_self b(3) le_trans b(1) b(2) butlast_conv_take min.absorb1 take_take)
    ultimately show ?thesis using True Cons.prems(1,6) pos by (auto simp: key_step_def edit_key_def)
  next
    case False
    note ch = typed_char [OF c False]
    show ?thesis
    proof (cases "lb_pos b < 254")
      case True
      have "length acc < 254" "Suc (lb_pos b) < length (lb_text b)" using True pos b(3) by simp_all
      then show ?thesis
        using ch False True type_ok [OF Cons.prems(1) True ch(7)] c_string_type [OF b(1) _ ch(7)] Cons.prems(6) pos
        by (simp add: key_step_def edit_key_def LINE_MAX_def take_Suc_conv_app_nth)
    next
      case full: False
      then show ?thesis using ch False Cons.prems(1,6) pos by (simp add: key_step_def edit_key_def LINE_MAX_def)
    qed
  qed
  then obtain b' t' where n: "key_step c b ?s = Inr (b', t')" "buf_ok b'" "take (lb_pos b') (lb_text b') = edit_key acc c"
      "serial_rx t' = ks @ 13 # rest" "kkbd t' = kkbd s" "nintr t' = nintr s" "sh_hist t' = sh_hist s"
      "c \<noteq> 8 \<longrightarrow> c_string (lb_text b) = acc \<longrightarrow> c_string (lb_text b') = edit_key acc c" by blast
  have "\<exists>t. read_keys irqs b' t' = Some (foldl edit_key (edit_key acc c) ks, t) \<and> serial_rx t = rest \<and>
     (8 \<notin> set ks \<longrightarrow> c_string (lb_text b') = edit_key acc c \<longrightarrow> sh_hist t = (if foldl edit_key (edit_key acc c) ks = [] then sh_hist t'
        else take 32 (foldl edit_key (edit_key acc c) ks # sh_hist t')))"
    using Cons.prems(2,3,5) n by (intro Cons.IH) simp_all
  then show ?case using step n by auto
qed

text \<open>
  C40. \<open>read_line\<close> returns what was typed: each character appended while the line has fewer than 254, each backspace
  removing the last one, up to the end of the line; it takes exactly these characters from the serial line, and a
  line without backspaces becomes the newest one of the history.
\<close>

theorem read_line_text:
  assumes "length stack = 256" "\<not> sys_intr_pending (nintr s)" "\<not> keyboard_has_char (kkbd s)"
    "serial_rx s = ks @ 13 # rest" "list_all typed ks"
  shows "\<exists>t. read_line irqs stack s = Some (foldl edit_key [] ks, t) \<and> serial_rx t = rest \<and>
     (if 8 \<in> set ks then True
      else sh_hist t = (if ks = [] then sh_hist s else take 32 (foldl edit_key [] ks # sh_hist s)))"
proof -
  let ?b = "\<lparr>lb_text = stack[0 := 0], lb_pos = 0\<rparr>"
  have cs: "c_string (stack[0 := 0]) = []" using c_string_cut [of 0 stack] assms(1) by simp
  then have "buf_ok ?b" using assms(1) by (simp add: buf_ok_def LINE_MAX_def)
  then have "\<exists>t. read_keys irqs ?b s = Some (foldl edit_key [] ks, t) \<and> serial_rx t = rest \<and>
     (8 \<notin> set ks \<longrightarrow> c_string (lb_text ?b) = [] \<longrightarrow>
        sh_hist t = (if foldl edit_key [] ks = [] then sh_hist s else take 32 (foldl edit_key [] ks # sh_hist s)))"
    by (rule read_keys_text) (use assms(2-5) in simp_all)
  then obtain t where t: "read_keys irqs ?b s = Some (foldl edit_key [] ks, t)" "serial_rx t = rest"
      "8 \<notin> set ks \<Longrightarrow> sh_hist t = (if foldl edit_key [] ks = [] then sh_hist s else take 32 (foldl edit_key [] ks # sh_hist s))"
    using cs by force
  have keep: "foldl edit_key us ks \<noteq> []" if "8 \<notin> set ks" "us \<noteq> [] \<or> ks \<noteq> []" for us
    using that by (induction ks arbitrary: us) (simp_all add: edit_key_ne)
  show ?thesis
  proof (cases "8 \<in> set ks")
    case False
    then have "foldl edit_key [] ks = [] \<longleftrightarrow> ks = []" using keep [of "[]"] by (cases ks) auto
    then show ?thesis using t False by (simp add: read_line_def)
  qed (use t in \<open>simp add: read_line_def\<close>)
qed

definition shell_ex :: "unit shell" where
  "shell_ex = kernel.extend (kernel_ex 0) (shell.fields 0 [47] (replicate 32 []) 0 (- 1) ())"

lemma shell_ex_simps [simp]:
  "nintr shell_ex = nintr (kernel_ex 0)" "kkbd shell_ex = kbd_ex" "sh_hist shell_ex = replicate 32 []" "sh_hist_count shell_ex = 0"
  "sh_browse shell_ex = - 1" "sh_cwd shell_ex = 0" "sh_cwdstr shell_ex = [47]" "kfs shell_ex = fs_ex" "kcon shell_ex = con_ex"
  by (simp_all add: shell_ex_def kernel.defs shell.defs kernel_ex_def net6.defs)

lemma shell_ex_calm [simp]: "\<not> sys_intr_pending (nintr (kernel_ex 0))" "\<not> keyboard_has_char kbd_ex"
  by (simp_all add: kernel_ex_def net6.defs net6_ex_def tnet.defs tnet_ex_def net.defs unet.defs dnet.defs unet_ex_def net_ex_def intr_ex_def sys_intr_pending_def kbd_ex_def keyboard_has_char_def)

theorem read_line_safe_witness:
  "hist_ok shell_ex \<and> (\<forall>l t. read_line [] (replicate 256 7) (shell_ex\<lparr>serial_rx := [108, 115, 13]\<rparr>) = Some (l, t) \<longrightarrow> length l \<le> 254)"
proof -
  have h: "hist_ok shell_ex" "hist_ok (shell_ex\<lparr>serial_rx := [108, 115, 13]\<rparr>)" by (simp_all add: hist_ok_def HIST_MAX_def list_all_length)
  then show ?thesis using read_line_safe [of "[]" "replicate 256 7" "shell_ex\<lparr>serial_rx := [108, 115, 13]\<rparr>"] by simp
qed

theorem read_line_text_witness:
  "\<exists>t. read_line [] (replicate 256 7) (shell_ex\<lparr>serial_rx := [108, 115, 13, 100]\<rparr>) = Some ([108, 115], t) \<and> serial_rx t = [100]
     \<and> sh_hist t = [108, 115] # replicate 31 []"
proof -
  have "foldl edit_key [] [108, 115] = [108, 115]" "list_all typed [108, 115]" by (simp_all add: edit_key_def typed_def)
  then show ?thesis
    using read_line_text [of "replicate 256 7" "shell_ex\<lparr>serial_rx := [108, 115, 13, 100]\<rparr>" "[108, 115]" "[100]" "[]"] by simp
qed


text \<open>
  The history takes the line before it is cut at the cursor, so that characters that were erased at its end are
  in it: after \<^verbatim>\<open>ab\<close> and a backspace the line is \<^verbatim>\<open>a\<close>, and the arrow key brings \<^verbatim>\<open>ab\<close> back.
\<close>

lemma hist_keeps_erased:
  "\<exists>t. read_line [] (replicate 256 0) (shell_ex\<lparr>serial_rx := [97, 98, 8, 13]\<rparr>) = Some ([97], t) \<and> sh_hist t ! 0 = [97, 98]"
proof -
  define t1 :: bytes where "t1 = (replicate 256 0)[0 := 0, 0 := 97, 1 := 0]"
  define t2 where "t2 = t1[1 := 98, Suc 1 := 0]"
  have l: "length t1 = 256" "length t2 = 256" by (simp_all add: t1_def t2_def)
  have c1: "c_string t1 = [97]" using c_string_type [of 0 "replicate 256 0" 97] by (simp add: t1_def)
  have nz: "(98 :: u8) \<noteq> 0" by simp
  have c2: "c_string t2 = [97, 98]"
    using c_string_type [OF _ _ nz, of 1 t1] take_c_string [of 1 t1] l c1 by (simp only: t2_def) simp
  have c3: "c_string (t2[1 := 0]) = [97]" using c_string_cut [of 1 t2] take_c_string [of 1 t2] c2 l by simp
  note step = read_keys_hd [THEN trans]
  note key = key_step_def LINE_MAX_def
  have "\<exists>s. read_line [] (replicate 256 0) (shell_ex\<lparr>serial_rx := [97, 98, 8, 13]\<rparr>) = Some (enter_key \<lparr>lb_text = t2, lb_pos = 1\<rparr> s)"
    unfolding read_line_def t2_def t1_def
    apply (intro exI)
    apply (rule step; simp add: key)
    apply (rule step; simp add: key)
    apply (rule step; simp add: key)
    by (rule step; simp add: key)
  then obtain s where "read_line [] (replicate 256 0) (shell_ex\<lparr>serial_rx := [97, 98, 8, 13]\<rparr>) = Some (enter_key \<lparr>lb_text = t2, lb_pos = 1\<rparr> s)" ..
  then show ?thesis using c2 c3 by (simp add: enter_key_def push_hist_def Let_def HIST_MAX_def)
qed

end
