(* ===== verification/Shell.thy ===== *)
theory Shell
  imports Shell_Line Rtc Net_Text
begin

text \<open>
  The commands of the shell, \<^verbatim>\<open>kernel/shell.cpp\<close>, with redirection and pipes: a command line becomes operations on
  files, processes, memory, clock and network, and output that goes to the screen, to a file or to the next command.
\<close>

unbundle bit_operations_syntax

section \<open>Surroundings\<close>

text \<open>
  What the commands meet outside the kernel state: the clock chip, the number of nested directories that the
  kernel stack has room for, the interrupts during the waits of \<^verbatim>\<open>ping\<close>, \<^verbatim>\<open>ping6\<close> and \<^verbatim>\<open>dns\<close>, and the commands
  \<^verbatim>\<open>ifconfig\<close>, \<^verbatim>\<open>sock\<close>, \<^verbatim>\<open>dhcp\<close>, \<^verbatim>\<open>http\<close>, \<^verbatim>\<open>httpd\<close> and \<^verbatim>\<open>nettest\<close>, which are not modelled.
\<close>

record 'd surroundings =
  su_clock :: "'d io"
  su_depth :: nat
  su_arp :: "('d shell \<Rightarrow> 'd shell) list"
  su_echo :: "('d shell \<Rightarrow> 'd shell) list"
  su_nd6 :: "nat \<Rightarrow> ('d shell \<Rightarrow> 'd shell) list"
  su_stack :: bytes
  su_dns :: "nat \<Rightarrow> nat \<Rightarrow> 'd shell round"
  su_net :: "bytes list \<Rightarrow> 'd shell \<Rightarrow> 'd shell outcome"


section \<open>Output\<close>

definition chars :: "string \<Rightarrow> bytes" where "chars s = map of_char s"
definition nl :: "string \<Rightarrow> bytes" where "nl s = chars s @ [10]"

text \<open>
  \<^verbatim>\<open>kprintf\<close> on the console of the kernel. An \<^verbatim>\<open>int\<close> is passed in the lower half of a register whose upper half is
  zero.
\<close>

definition say :: "bytes \<Rightarrow> arg list \<Rightarrow> 'd shell \<Rightarrow> 'd shell outcome" where
  "say fmt args s = (case kprintf fmt args (kcon s) of None \<Rightarrow> Wild | Some c \<Rightarrow> Returns (s\<lparr>kcon := c\<rparr>))"

fun say_all :: "(bytes \<times> arg list) list \<Rightarrow> 'd shell \<Rightarrow> 'd shell outcome" where
  "say_all [] s = Returns s"
| "say_all ((fmt, args) # ms) s = (case say fmt args s of Returns s \<Rightarrow> say_all ms s | Halts \<Rightarrow> Halts | Wild \<Rightarrow> Wild)"

definition int_arg :: "int \<Rightarrow> arg" where "int_arg i = Num (ucast (word_of_int i :: u32))"
definition str_arg :: "bytes \<Rightarrow> arg" where "str_arg s = Str (Some s)"

text \<open>A byte or a character; of a character only the low eight bits are printed.\<close>

definition byte_arg :: "u8 \<Rightarrow> arg" where "byte_arg c = Num (ucast c)"

definition VGA_LIGHT_GRAY :: u8 where "VGA_LIGHT_GRAY = 7"
definition VGA_LIGHT_GREEN :: u8 where "VGA_LIGHT_GREEN = 10"
definition VGA_LIGHT_CYAN :: u8 where "VGA_LIGHT_CYAN = 11"

definition set_color :: "u8 \<Rightarrow> 'd shell \<Rightarrow> 'd shell" where
  "set_color c s = s\<lparr>kcon := (kcon s)\<lparr>con_vga := vga_set_color c (con_vga (kcon s))\<rparr>\<rparr>"

definition rst_color :: "'d shell \<Rightarrow> 'd shell" where
  "rst_color s = set_color VGA_LIGHT_GRAY s"

definition clear_screen :: "'d shell \<Rightarrow> 'd shell" where
  "clear_screen s = s\<lparr>kcon := (kcon s)\<lparr>con_vga := vga_clear (con_vga (kcon s))\<rparr>\<rparr>"

text \<open>Commands get all words of their line, \<^verbatim>\<open>tok[0]\<close> to \<^verbatim>\<open>tok[n - 1]\<close>.\<close>

definition HELP :: bytes where
  "HELP = concat (map nl [
    ''cofeuos komutlari:'',
    ''  help                     - bu liste'',
    ''  clear                    - ekrani temizle'',
    ''  ls [yol]                 - dizin listele'',
    ''  cd <yol>                 - dizin degistir'',
    ''  pwd                      - calisma dizinini goster'',
    ''  mkdir <yol>              - dizin olustur'',
    ''  touch <yol>              - bos dosya olustur'',
    ''  echo <metin>             - metni yazdir'',
    ''  <komut> > <dosya>        - komut ciktisini dosyaya yaz (ustune)'',
    ''  <komut> >> <dosya>       - komut ciktisini dosyaya ekle'',
    ''  <k1> | <k2> [| <k3>]...  - komut zinciri (cikti sonrakine stdin)'',
    ''                          (ornek: ls / | wc, cat f | wc)'',
    ''                          (ornek: ls > /uspc/liste.chars, ps >> log.chars)'',
    ''  cat <dosya>              - dosyayi oku (argumansiz: stdin)'',
    ''  wc                       - stdin'den satir/kelime/karakter say'',
    ''  xxd <dosya>              - hexdump'',
    ''  rm [-r] <yol>            - dosya/dizin sil'',
    ''  lsfs                     - dosya sistemi bilgisi'',
    ''  date                     - tarih ve saati goster'',
    ''  uptime                   - calisma suresi'',
    ''  cnv                      - sistem bilgisi (uname gibi)'',
    ''  mem                      - bellek kullanimi'',
    ''  ps                       - surec listesi (bellek/sure)'',
    ''  kill <pid>               - sureci oldur'',
    ''  wait [pid]               - zombie surec temizle / bekle'',
    ''  spawn <ad>               - yeni surec baslat'',
    ''  run <dosya.cexe>         - ELF uygulama calistir (diskten)'',
    ''  ifconfig                 - ag arayuz bilgisi'',
    ''  dhcp                     - DHCP ile IP iste'',
    ''  dns <ad>                 - alan adini coz (A kaydi)'',
    ''  dhcp [renew]             - DHCP ile IP iste / kirayi yenile'',
    ''  http <host> [yol] [dosya] - HTTP GET iste; govdeyi bulundugu dizine kaydet'',
    ''  httpd [port]             - pasif HTTP sunucu (varsayilan 8080), eszamanli servis'',
    ''  nettest                  - ag regresyon testi (ping/dns/http)'',
    ''  ping <a.b.c.d>           - ICMP echo gonder'',
    ''  reboot                   - yeniden baslat'',
    ''  poweroff                 - kapat'',
    '''',
    ''dizin yapisi:'',
    ''  /    - kok'',
    ''  /temp - gecici dosyalar'',
    ''  /sys  - sistem dosyalari ve .cexe uygulamalari'',
    ''  /uspc - kullanicinin yonettigi alan'',
    ''uygulama uzantisi: .cexe (cofeuos executable)''])"


section \<open>Commands on files\<close>

fun print_entries :: "entry_info list \<Rightarrow> 'd shell \<Rightarrow> 'd shell outcome" where
  "print_entries [] s = Returns s"
| "print_entries (e # es) s =
     (case (if ei_type e = 2
            then say (chars ''%-31s <DIZIN>'' @ [10]) [str_arg (c_string (ei_name e))] (set_color VGA_LIGHT_CYAN s)
            else say (chars ''%-31s    %u bayt'' @ [10]) [str_arg (c_string (ei_name e)), Num (ucast (ei_size e))]
                   (set_color VGA_LIGHT_GRAY s)) of
        Returns s \<Rightarrow> print_entries es (rst_color s)
      | Halts \<Rightarrow> Halts | Wild \<Rightarrow> Wild)"

definition cmd_ls :: "bytes list \<Rightarrow> 'd shell \<Rightarrow> 'd shell outcome" where
  "cmd_ls t s =
     (case fs_list (sh_cwd s) (if length t \<ge> 2 then t ! 1 else DOT) (kfs s) of
        (es, d) \<Rightarrow> print_entries es (s\<lparr>kfs := d\<rparr>))"

definition cmd_cd :: "bytes list \<Rightarrow> 'd shell \<Rightarrow> 'd shell outcome" where
  "cmd_cd t s =
     (let path = (if length t \<ge> 2 then t ! 1 else [SLASH])
      in case resolve (sh_cwd s) path (kfs s) of
           (None, d) \<Rightarrow> say (nl ''hata: dizin yok'') [] (s\<lparr>kfs := d\<rparr>)
         | (Some ino, d) \<Rightarrow>
             (case fs_stat (sh_cwd s) path d of
                (st, d) \<Rightarrow>
                  if map_option ei_type st \<noteq> Some 2 then say (nl ''hata: dizin degil'') [] (s\<lparr>kfs := d\<rparr>)
                  else (case norm_join (sh_cwdstr s) path of
                          Returns c \<Rightarrow> Returns (s\<lparr>kfs := d, sh_cwd := ino, sh_cwdstr := c\<rparr>)
                        | Halts \<Rightarrow> Halts | Wild \<Rightarrow> Wild)))"

definition cmd_mkdir :: "bytes list \<Rightarrow> 'd shell \<Rightarrow> 'd shell outcome" where
  "cmd_mkdir t s =
     (if length t < 2 then say (nl ''kullanim: mkdir <yol>'') [] s
      else case mkdir (sh_cwd s) (t ! 1) (kfs s) of
             (ok, d) \<Rightarrow> let s = s\<lparr>kfs := d\<rparr> in if ok then Returns s else say (nl ''hata: olusturulamadi'') [] s)"

definition cmd_touch :: "bytes list \<Rightarrow> 'd shell \<Rightarrow> 'd shell outcome" where
  "cmd_touch t s =
     (if length t < 2 then say (nl ''kullanim: touch <yol>'') [] s
      else case create_file (sh_cwd s) (t ! 1) (kfs s) of
             (ok, d) \<Rightarrow> let s = s\<lparr>kfs := d\<rparr> in if ok then Returns s else say (nl ''hata: olusturulamadi'') [] s)"

definition cmd_echo :: "bytes list \<Rightarrow> 'd shell \<Rightarrow> 'd shell outcome" where
  "cmd_echo t s =
     (if length t < 2 then say [10] [] s
      else say_all (concat (map (\<lambda>i. (if i > 1 then [(chars '' '', [])] else []) @ [(chars ''%s'', [str_arg (t ! i)])]) [1..<length t])
                    @ [([10], [])]) s)"

definition CAT_SIZE :: nat where "CAT_SIZE = 12288"

definition cmd_cat :: "bytes list \<Rightarrow> bytes option \<Rightarrow> 'd shell \<Rightarrow> 'd shell outcome" where
  "cmd_cat t pipe_in s =
     (case pipe_in of
        Some inp \<Rightarrow> say (chars ''%s'') [str_arg inp] s
      | None \<Rightarrow>
          if length t < 2 then say (nl ''kullanim: cat <dosya>'') [] s
          else
            (case read_file (sh_cwd s) (t ! 1) (CAT_SIZE - 1) (kfs s) of
               (None, d) \<Rightarrow> say (nl ''hata: okunamadi'') [] (s\<lparr>kfs := d\<rparr>)
             | (Some data, d) \<Rightarrow>
                 say_all ([(chars ''%s'', [str_arg (c_string data)])]
                          @ (if data \<noteq> [] \<and> last data \<noteq> 10 then [([10], [])] else [])) (s\<lparr>kfs := d\<rparr>)))"

definition cmd_wc :: "bytes option \<Rightarrow> 'd shell \<Rightarrow> 'd shell outcome" where
  "cmd_wc pipe_in s =
     (case wc_counts (case pipe_in of None \<Rightarrow> [] | Some inp \<Rightarrow> inp) of
        (l, w, c) \<Rightarrow> say (chars ''%lu  %lu  %lu'' @ [10]) [Num l, Num w, Num c] s)"

definition XXD_SIZE :: nat where "XXD_SIZE = 4096"

definition xxd_row :: "bytes \<Rightarrow> nat \<Rightarrow> (bytes \<times> arg list) list" where
  "xxd_row buf i =
     [(chars ''%08x  '', [Num (of_nat i)])]
     @ concat (map (\<lambda>j. [if i + j < length buf then (chars ''%02x '', [byte_arg (buf ! (i + j))]) else (chars ''   '', [])]
                        @ (if j = 7 then [(chars '' '', [])] else [])) [0..<16])
     @ [(chars '' |'', [])]
     @ map (\<lambda>c. (chars ''%c'', [byte_arg (if 32 \<le> sint c \<and> sint c < 127 then c else 46)])) (take 16 (drop i buf))
     @ [(nl ''|'', [])]"

definition cmd_xxd :: "bytes list \<Rightarrow> 'd shell \<Rightarrow> 'd shell outcome" where
  "cmd_xxd t s =
     (if length t < 2 then say (nl ''kullanim: xxd <dosya>'') [] s
      else
        (case read_file (sh_cwd s) (t ! 1) XXD_SIZE (kfs s) of
           (None, d) \<Rightarrow> say (nl ''hata: okunamadi'') [] (s\<lparr>kfs := d\<rparr>)
         | (Some buf, d) \<Rightarrow>
             say_all (concat (map (\<lambda>k. xxd_row buf (16 * k)) [0..<(length buf + 15) div 16])) (s\<lparr>kfs := d\<rparr>)))"

definition cmd_rm :: "nat \<Rightarrow> bytes list \<Rightarrow> 'd shell \<Rightarrow> 'd shell outcome" where
  "cmd_rm depth t s =
     (let rec = (length t \<ge> 2 \<and> t ! 1 = chars ''-r''); idx = (if rec then 2 else 1)
      in if length t \<le> idx then say (nl ''kullanim: rm [-r] <yol>'') [] s
         else
           (case fs_stat (sh_cwd s) (t ! idx) (kfs s) of
              (st, d) \<Rightarrow>
                let s = s\<lparr>kfs := d\<rparr>
                in if map_option ei_type st = Some 2 \<and> \<not> rec
                   then say (chars ''hata: '%s' bir dizin, silmek icin 'rm -r %s'' @ [39, 10]) [str_arg (t ! idx), str_arg (t ! idx)] s
                   else
                     (case remove_file depth (sh_cwd s) (t ! idx) rec (kfs s) of
                        None \<Rightarrow> Wild
                      | Some (ok, d) \<Rightarrow>
                          let s = s\<lparr>kfs := d\<rparr> in if ok then Returns s else say (nl ''hata: silinemedi'') [] s)))"

definition cmd_lsfs :: "'d shell \<Rightarrow> 'd shell outcome" where
  "cmd_lsfs s =
     say_all [(chars ''disc toplam blok : %u'' @ [10], [Num (ucast DISK_BLOCKS)]), (chars ''sektor (LBA)     : %u'' @ [10], [Num 512])] s"


section \<open>Commands on processes, memory and clock\<close>

text \<open>The state letters, \<open>None\<close> where the loop goes on with the next slot.\<close>

fun state_text :: "pstate \<Rightarrow> bytes option" where
  "state_text P_READY = Some (chars ''R'')"
| "state_text P_RUNNING = Some (chars ''R'')"
| "state_text P_SLEEPING = Some (chars ''S'')"
| "state_text P_ZOMBIE = Some (chars ''Z'')"
| "state_text _ = None"

definition process_row :: "u64 \<Rightarrow> process \<Rightarrow> (bytes \<times> arg list) list" where
  "process_row now_ticks p =
     (case state_text (state p) of
        None \<Rightarrow> []
      | Some st \<Rightarrow>
          let memkb = of_nat (user_code_pages p + USER_STACK_PAGES + 4) * 4 :: u32;
              secs = (if state p = P_ZOMBIE then 0 else (now_ticks - start_tick p) div 100)
          in [(chars ''%-5u 0x%04X  %-2s %-14s %-4lu %5llus  %6u    %lu'' @ [10],
               [Num (ucast (pid p)), Num (ucast (pid p)), str_arg st, str_arg (pname p), Num (preempts p), Num secs,
                Num (ucast memkb), Num (ucast (exitcode p))])])"

definition sched_list :: "'d shell \<Rightarrow> 'd shell outcome" where
  "sched_list s =
     say_all ((nl ''PID    HEX   ST NAME           PRM  TIME  MEM(KB)  EXIT'', [])
              # concat (map (process_row (timer_get_ticks (clk (ksched s)))) (table (ksched s)))) s"

definition MONTHS :: "bytes list" where
  "MONTHS = map chars [''Ocak'', ''Subat'', ''Mart'', ''Nisan'', ''Mayis'', ''Haziran'', ''Temmuz'', ''Agustos'', ''Eylul'', ''Ekim'',
     ''Kasim'', ''Aralik'']"

definition DAYS :: "bytes list" where
  "DAYS = map chars [''Pazar'', ''Pazartesi'', ''Sali'', ''Carsamba'', ''Persembe'', ''Cuma'', ''Cumartesi'']"

text \<open>\<open>Halts\<close>: the chip never finishes its update. \<open>Wild\<close>: the month is read outside the table of names.\<close>

definition cmd_date :: "'d io \<Rightarrow> 'd shell \<Rightarrow> 'd shell outcome" where
  "cmd_date io s =
     (case rtc_read io (sh_rtc s) of
        None \<Rightarrow> Halts
      | Some (r, d) \<Rightarrow>
          if month r < 1 \<or> 12 < month r then Wild
          else say (chars ''%s, %02d %s %04d  %02d:%02d:%02d'' @ [10])
                 [str_arg (DAYS ! ((unat (day r) + 1) mod 7)), byte_arg (day r), str_arg (MONTHS ! (unat (month r) - 1)),
                  Num (ucast (year r)), byte_arg (hour r), byte_arg (minute r), byte_arg (second r)] (s\<lparr>sh_rtc := d\<rparr>))"

definition cmd_mem :: "'d shell \<Rightarrow> 'd shell outcome" where
  "cmd_mem s =
     (let f = frames (ksched s); h = heap (ksched s)
      in say_all
           [(chars ''RAM        : %lu MB (%lu KB)'' @ [10], [Num (pmm_total_kb f div 1024), Num (pmm_total_kb f)]),
            (chars ''yonetilen  : %lu KB (%lu frame, %lu serbest)'' @ [10],
             [Num (pmm_managed_kb f), Num (ucast (pmm_total_frames f)), Num (ucast (pmm_free_frames f))]),
            (chars ''heap       : %lu / %lu KB'' @ [10],
             [Num (ucast (kmem_used h div 1024)), Num (ucast (kmem_capacity h div 1024))])] s)"

text \<open>The results of \<^verbatim>\<open>sched_kill\<close> and the other calls: \<open>None\<close> is a list of heap blocks that does not end.\<close>

definition cmd_kill :: "bytes list \<Rightarrow> 'd shell \<Rightarrow> 'd shell outcome" where
  "cmd_kill t s =
     (if length t < 2 then say (nl ''kullanim: kill <pid>'') [] s
      else
        (case atoi_cst (t ! 1) of
           None \<Rightarrow> Wild
         | Some p \<Rightarrow>
             let failed = say (chars ''hata: %d oldurulemedi'' @ [10]) [int_arg p]
             in if p < 1 \<or> p > 0xFFFF then failed s
                else
                  (case sched_kill (word_of_int p) (ksched s) of
                     None \<Rightarrow> Wild
                   | Some (r, k) \<Rightarrow>
                       let s = s\<lparr>ksched := k\<rparr>
                       in if r \<noteq> 0 then failed s else say (chars ''surec %d olduruldu'' @ [10]) [int_arg p] s)))"

definition started :: "bytes \<Rightarrow> arg list \<Rightarrow> int \<Rightarrow> 'd shell \<Rightarrow> 'd shell outcome" where
  "started failure args p s =
     (if p < 0 then say failure args s
      else say (chars ''baslatildi pid=0x%04X (%d)'' @ [10]) [Num (ucast (word_of_int p :: u16)), int_arg p] s)"

definition cmd_spawn :: "bytes list \<Rightarrow> 'd shell \<Rightarrow> 'd shell outcome" where
  "cmd_spawn t s =
     (case sched_spawn (if length t \<ge> 2 then t ! 1 else chars ''proc'') (ksched s) of
        None \<Rightarrow> Wild
      | Some (p, k) \<Rightarrow> started (nl ''hata: baslatilamadi (tablo dolu)'') [] p (s\<lparr>ksched := k\<rparr>))"

text \<open>The array \<^verbatim>\<open>pathstr\<close>; \<open>None\<close> when the 63 bytes copied to it hold no zero, so that its length is read outside it.\<close>

definition run_path :: "bytes \<Rightarrow> bytes \<Rightarrow> bytes option" where
  "run_path cwdstr name =
     (if take 1 name = [SLASH] then Some (take 63 name)
      else if 63 \<le> length cwdstr then None
      else
        let b = (if length cwdstr > 1 \<and> last cwdstr \<noteq> SLASH then cwdstr @ [SLASH] else cwdstr)
        in Some (b @ take (63 - length b) name))"

definition cmd_run :: "bytes list \<Rightarrow> 'd shell \<Rightarrow> 'd shell outcome" where
  "cmd_run t s =
     (if length t < 2 then say (nl ''kullanim: run <dosya.cexe>'') [] s
      else
        (case run_path (sh_cwdstr s) (t ! 1) of
           None \<Rightarrow> Wild
         | Some path \<Rightarrow>
             (case sched_exec_file path (kfs s) (kelf s) (ksched s) of
                Some (Elf_Ok (p, k)) \<Rightarrow>
                  (case elf_fetch path (kfs s) (kelf s) of
                     (_, e, d) \<Rightarrow> started (chars ''hata: %s calistirilamadi'' @ [10]) [str_arg path] p (s\<lparr>ksched := k, kelf := e, kfs := d\<rparr>))
              | _ \<Rightarrow> Wild)))"

definition cmd_wait :: "bytes list \<Rightarrow> 'd shell \<Rightarrow> 'd shell outcome" where
  "cmd_wait t s =
     (case (if length t \<ge> 2 then atoi_cst (t ! 1) else Some 0) of
        None \<Rightarrow> Wild
      | Some want \<Rightarrow>
          (case sched_wait (word_of_int want) (ksched s) of
             None \<Rightarrow> Wild
           | Some (ec, k) \<Rightarrow>
               let s = s\<lparr>ksched := k\<rparr>
               in if ec < 0 then say (nl ''beklenecek surec yok'') [] s
                  else say (chars ''surec tamamlandi (cikis kodu: %d)'' @ [10]) [int_arg ec] s))"


section \<open>Commands on the network\<close>

definition net_lost :: "'d shell \<Rightarrow> 'd shell outcome" where
  "net_lost s = say (nl ''hata: ag arayuzu yok'') [] s"

definition reply_text :: "bool \<Rightarrow> bytes \<Rightarrow> 'd shell \<Rightarrow> 'd shell outcome" where
  "reply_text ok name s =
     (if ok then say (chars ''cevap! %s makinesinden'' @ [10]) [str_arg name] s else say (nl ''zaman asimi (cevap yok)'') [] s)"

definition cmd_ping :: "'d surroundings \<Rightarrow> bytes list \<Rightarrow> 'd shell \<Rightarrow> 'd shell outcome" where
  "cmd_ping w t s =
     (if length t < 2 then say (nl ''kullanim: ping <a.b.c.d>'') [] s
      else
        (case net_parse_ip (t ! 1) of
           None \<Rightarrow> say (nl ''hata: gecersiz IP'') [] s
         | Some ip \<Rightarrow>
             if \<not> nic_is_up s then net_lost s
             else
               (case say (chars ''PING %s (64 bayt):'' @ [10]) [str_arg (t ! 1)] s of
                  Returns s \<Rightarrow> (case net_ping (su_arp w) (su_echo w) ip s of (ok, s) \<Rightarrow> reply_text ok (t ! 1) s)
                | Halts \<Rightarrow> Halts | Wild \<Rightarrow> Wild)))"

definition cmd_ping6 :: "'d surroundings \<Rightarrow> bytes list \<Rightarrow> 'd shell \<Rightarrow> 'd shell outcome" where
  "cmd_ping6 w t s =
     (if length t < 2 then say (nl ''kullanim: ping6 <ipv6-adresi>'') [] s
      else
        (case net_ip6_parse (t ! 1) of
           None \<Rightarrow> say (nl ''hata: gecersiz IPv6 adresi'') [] s
         | Some a \<Rightarrow>
             if \<not> nic_is_up s then net_lost s
             else
               (case say (chars ''PING6 %s (56 bayt):'' @ [10]) [str_arg (t ! 1)] s of
                  Returns s \<Rightarrow> (case net_ping6 (su_nd6 w) (su_echo w) a 64 s of (ok, s) \<Rightarrow> reply_text ok (t ! 1) s)
                | Halts \<Rightarrow> Halts | Wild \<Rightarrow> Wild)))"

definition ip_args :: "u32 \<Rightarrow> arg list" where
  "ip_args ip = map (\<lambda>n. Num (ucast (drop_bit n ip AND 0xFF))) [24, 16, 8, 0]"

definition cmd_dns :: "'d surroundings \<Rightarrow> bytes list \<Rightarrow> 'd shell \<Rightarrow> 'd shell outcome" where
  "cmd_dns w t s =
     (if length t < 2 then say (nl ''kullanim: dns <alan adi>'') [] s
      else if \<not> nic_is_up s then net_lost s
      else
        let h0 = dns_cache_hits s
        in case say (chars ''cozuluyor: %s ...'' @ [10]) [str_arg (t ! 1)] s of
             Returns s \<Rightarrow>
               (case net_dns_resolve (su_stack w) (su_dns w) (t ! 1) s of
                  (Some ip, s) \<Rightarrow>
                    say (chars ''%s -> %u.%u.%u.%u%s'' @ [10])
                      (str_arg (t ! 1) # ip_args ip @ [str_arg (if dns_cache_hits s > h0 then chars '' [onbellekten]'' else [])]) s
                | (None, s) \<Rightarrow> say (chars ''cozulemedi: %s'' @ [10]) [str_arg (t ! 1)] s)
           | Halts \<Rightarrow> Halts | Wild \<Rightarrow> Wild)"


section \<open>Command lines\<close>

definition is_cmd :: "bytes list \<Rightarrow> string \<Rightarrow> bool" where
  "is_cmd t c \<longleftrightarrow> hd t = chars c"

text \<open>One command with the output of the command before it. \<open>Halts\<close>: the machine restarts or is switched off.\<close>

definition run_line_inner :: "'d surroundings \<Rightarrow> bytes \<Rightarrow> bytes option \<Rightarrow> 'd shell \<Rightarrow> 'd shell outcome" where
  "run_line_inner w line pipe_in s =
     (let t = tokenize line
      in if t = [] then Returns s
         else if is_cmd t ''help'' then say (chars ''%s'') [str_arg HELP] s
         else if is_cmd t ''clear'' \<or> is_cmd t ''cls'' then Returns (clear_screen s)
         else if is_cmd t ''cnv'' then say (nl ''cofeuos node x86_64 0.1.0 (uname benzeri)'') [] s
         else if is_cmd t ''ls'' then cmd_ls t s
         else if is_cmd t ''cd'' then cmd_cd t s
         else if is_cmd t ''mkdir'' then cmd_mkdir t s
         else if is_cmd t ''touch'' then cmd_touch t s
         else if is_cmd t ''echo'' then cmd_echo t s
         else if is_cmd t ''cat'' then cmd_cat t pipe_in s
         else if is_cmd t ''wc'' then cmd_wc pipe_in s
         else if is_cmd t ''xxd'' then cmd_xxd t s
         else if is_cmd t ''rm'' then cmd_rm (su_depth w) t s
         else if is_cmd t ''lsfs'' then cmd_lsfs s
         else if is_cmd t ''pwd'' then say (chars ''%s'' @ [10]) [str_arg (sh_cwdstr s)] s
         else if is_cmd t ''uptime''
         then say (chars ''calisma suresi: %llu sn'' @ [10]) [Num (timer_get_seconds (clk (ksched s)))] s
         else if is_cmd t ''date'' then cmd_date (su_clock w) s
         else if is_cmd t ''mem'' then cmd_mem s
         else if is_cmd t ''ps'' then sched_list s
         else if is_cmd t ''kill'' then cmd_kill t s
         else if is_cmd t ''spawn'' then cmd_spawn t s
         else if is_cmd t ''run'' then cmd_run t s
         else if is_cmd t ''wait'' then cmd_wait t s
         else if is_cmd t ''dns'' then cmd_dns w t s
         else if is_cmd t ''ping'' then cmd_ping w t s
         else if is_cmd t ''ping6'' then cmd_ping6 w t s
         else if hd t \<in> set (map chars [''ifconfig'', ''sock'', ''dhcp'', ''http'', ''httpd'', ''nettest'']) then su_net w t s
         else if hd t \<in> set (map chars [''reboot'', ''poweroff'', ''exit'']) then Halts
         else say (chars ''bilinmeyen komut: %s ('' @ [39] @ chars ''help'' @ [39] @ nl '' yazin)'') [str_arg (hd t)] s)"

definition CAP_SIZE :: nat where "CAP_SIZE = 8192"

text \<open>What a command writes between \<^verbatim>\<open>output_capture_begin\<close> and \<^verbatim>\<open>output_capture_end\<close>, and the length that is reported.\<close>

definition captured :: "('d shell \<Rightarrow> 'd shell outcome) \<Rightarrow> 'd shell \<Rightarrow> (bytes \<times> nat \<times> 'd shell) outcome" where
  "captured f s =
     (case f (s\<lparr>kcon := output_capture_begin True CAP_SIZE True (kcon s)\<rparr>) of
        Returns s \<Rightarrow>
          (case (cap_buf (kcon s), cap_len (kcon s)) of
             (Some b, Some n) \<Rightarrow> Returns (b, n, s\<lparr>kcon := output_capture_end (kcon s)\<rparr>)
           | _ \<Rightarrow> Wild)
      | Halts \<Rightarrow> Halts | Wild \<Rightarrow> Wild)"

text \<open>\<open>Wild\<close>: more was written than the buffer holds, and the file gets what lies behind it.\<close>

definition run_cmd :: "'d surroundings \<Rightarrow> nat \<Rightarrow> bytes \<Rightarrow> bytes option \<Rightarrow> 'd shell \<Rightarrow> 'd shell outcome" where
  "run_cmd w room line pipe_in s =
     (case extract_redirect room line of
        Returns None \<Rightarrow> run_line_inner w line pipe_in s
      | Returns (Some (line, rpath, app)) \<Rightarrow>
          (case captured (run_line_inner w line pipe_in) s of
             Returns (out, n, s) \<Rightarrow>
               if CAP_SIZE < n then Wild
               else
                 (case (if app then append_file (sh_cwd s) rpath out (kfs s)
                        else case write_file (sh_cwd s) rpath out (kfs s) of (ok, d) \<Rightarrow> (Some ok, d)) of
                    (None, d) \<Rightarrow> Wild
                  | (Some ok, d) \<Rightarrow>
                      let s = s\<lparr>kfs := d\<rparr>
                      in if \<not> ok then say (chars ''hata: '' @ [39] @ chars ''%s'' @ [39] @ nl '' yonlendirilemedi'') [str_arg rpath] s
                         else if \<not> app then say (chars ''(%d bayt yazildi: %s)'' @ [10]) [Num (of_nat n), str_arg rpath] s
                         else Returns s)
           | Halts \<Rightarrow> Halts | Wild \<Rightarrow> Wild)
      | Halts \<Rightarrow> Halts | Wild \<Rightarrow> Wild)"

text \<open>\<open>Wild\<close>: the final zero does not fit into the buffer any more.\<close>

fun run_pipe_chain :: "'d surroundings \<Rightarrow> (nat \<times> bytes) list \<Rightarrow> bytes option \<Rightarrow> 'd shell \<Rightarrow> 'd shell outcome" where
  "run_pipe_chain w [] prev s = Returns s"
| "run_pipe_chain w [(p, seg)] prev s = run_cmd w (LINE_MAX - p) seg prev s"
| "run_pipe_chain w ((p, seg) # segs) prev s =
     (case captured (run_line_inner w seg prev) s of
        Returns (out, n, s) \<Rightarrow> if CAP_SIZE \<le> n then Wild else run_pipe_chain w segs (Some (c_string out)) s
      | Halts \<Rightarrow> Halts | Wild \<Rightarrow> Wild)"

definition run_line :: "'d surroundings \<Rightarrow> bytes \<Rightarrow> 'd shell \<Rightarrow> 'd shell outcome" where
  "run_line w line s =
     (if pipe_scan 0 False line = [] then run_cmd w LINE_MAX line None s
      else
        (case split_pipes line of
           Returns segs \<Rightarrow> run_pipe_chain w segs None s
         | Halts \<Rightarrow> Halts | Wild \<Rightarrow> Wild))"


section \<open>The loop\<close>

definition shell_start :: "'d shell \<Rightarrow> 'd shell outcome" where
  "shell_start s =
     (case say [10] [] (s\<lparr>sh_cwd := 0, sh_cwdstr := [SLASH]\<rparr>) of
        Returns s \<Rightarrow>
          (case say_all (map (\<lambda>l. (nl l, []))
                  ['' ###############################################'',
                   '' #  cofeuos 0.1 - x86_64 toy OS                #'',
                   '' #  assembly + C + C++                         #'',
                   '' #  'help' yazarak komutlari gorebilirsin      #'',
                   '' ###############################################'']) (set_color VGA_LIGHT_CYAN s) of
             Returns s \<Rightarrow> say [10] [] (rst_color s)
           | Halts \<Rightarrow> Halts | Wild \<Rightarrow> Wild)
      | Halts \<Rightarrow> Halts | Wild \<Rightarrow> Wild)"

definition prompt :: "'d shell \<Rightarrow> 'd shell outcome" where
  "prompt s =
     (let s = set_color VGA_LIGHT_GREEN s
      in case (if sh_cwdstr s = [SLASH] then say (chars ''cofeuos:/$ '') [] s
               else say (chars ''cofeuos:%s$ '') [str_arg (sh_cwdstr s)] s) of
           Returns s \<Rightarrow> Returns (rst_color s)
         | Halts \<Rightarrow> Halts | Wild \<Rightarrow> Wild)"

text \<open>
  The loop of \<^verbatim>\<open>shell_run\<close> for as many lines as there are lists of interrupts. \<open>stack\<close> is the array \<^verbatim>\<open>line\<close>, of which only the
  length matters. \<open>Halts\<close>: no line is entered any more.
\<close>

fun shell_loop :: "'d surroundings \<Rightarrow> bytes \<Rightarrow> ('d shell \<Rightarrow> 'd shell) list list \<Rightarrow> 'd shell \<Rightarrow> 'd shell outcome" where
  "shell_loop w stack [] s = Returns s"
| "shell_loop w stack (irqs # ws) s =
     (case prompt s of
        Returns s \<Rightarrow>
          (case read_line irqs stack s of
             None \<Rightarrow> Halts
           | Some (line, s) \<Rightarrow>
               (case (if line \<noteq> [] then run_line w line s else Returns s) of
                  Returns s \<Rightarrow> shell_loop w stack ws s
                | Halts \<Rightarrow> Halts | Wild \<Rightarrow> Wild))
      | Halts \<Rightarrow> Halts | Wild \<Rightarrow> Wild)"


section \<open>Captured output\<close>

text \<open>The effect of output on an open capture.\<close>

definition cap_add :: "bytes \<Rightarrow> console \<Rightarrow> console" where
  "cap_add out c =
     c\<lparr>cap_buf := map_option (\<lambda>b. b @ take (cap_room c) out) (cap_buf c), cap_room := cap_room c - length out,
       cap_len := map_option (\<lambda>n. n + length out) (cap_len c)\<rparr>"

definition capturing :: "console \<Rightarrow> bool" where
  "capturing c \<longleftrightarrow> g_capturing c \<and> cap_buf c \<noteq> None \<and> cap_len c \<noteq> None"

definition con_idle :: "console \<Rightarrow> bool" where
  "con_idle c \<longleftrightarrow> \<not> g_capturing c \<and> cap_buf c = None \<and> cap_room c = 0 \<and> cap_len c = None"

lemma cap_add_add: "cap_add b (cap_add a c) = cap_add (a @ b) c"
  by (cases "cap_buf c"; cases "cap_len c"; simp add: cap_add_def)

lemma capturing_add [simp]: "capturing (cap_add a c) = capturing c"
  by (auto simp: capturing_def cap_add_def)

lemma cap_add_Nil: "cap_add [] c = c"
  by (cases "cap_buf c"; cases "cap_len c"; simp add: cap_add_def)

lemma say_capture:
  assumes "capturing (kcon s)" "vformat fmt args = Some es"
  shows "say fmt args s = Returns (s\<lparr>kcon := cap_add (emitted es) (kcon s)\<rparr>)"
proof -
  obtain b n where c: "g_capturing (kcon s)" "cap_buf (kcon s) = Some b" "cap_len (kcon s) = Some n"
    using assms(1) by (auto simp: capturing_def)
  have "fold emit_capture es (kcon s) = cap_add (emitted es) (kcon s)"
    using emit_capture_fold [OF c(2,3) refl, of es] c by (intro console.equality) (simp_all add: cap_add_def)
  then show ?thesis using c(1) assms(2) by (simp add: say_def kprintf_def)
qed

text \<open>The text of a list of calls of \<^verbatim>\<open>kprintf\<close>.\<close>

fun says_text :: "(bytes \<times> arg list) list \<Rightarrow> bytes option" where
  "says_text [] = Some []"
| "says_text ((fmt, args) # ms) =
     (case vformat fmt args of None \<Rightarrow> None | Some es \<Rightarrow> map_option ((@) (emitted es)) (says_text ms))"

lemma say_all_capture:
  "capturing (kcon s) \<Longrightarrow> says_text ms = Some out \<Longrightarrow> say_all ms s = Returns (s\<lparr>kcon := cap_add out (kcon s)\<rparr>)"
proof (induction ms arbitrary: s out)
  case Nil
  then show ?case by (simp add: cap_add_Nil)
next
  case (Cons m ms)
  obtain fmt args where m: "m = (fmt, args)" by (cases m)
  obtain es r where r: "vformat fmt args = Some es" "says_text ms = Some r" "out = emitted es @ r"
    using Cons.prems(2) by (auto simp: m split: option.splits)
  show ?case using Cons.IH [of "s\<lparr>kcon := cap_add (emitted es) (kcon s)\<rparr>" r] Cons.prems(1) r
    by (simp add: m say_capture cap_add_add)
qed

lemma capture_end:
  "con_idle c \<Longrightarrow> output_capture_end (cap_add out (output_capture_begin True n True c)) = c"
  by (rule console.equality) (simp_all add: output_capture_end_def output_capture_begin_def cap_add_def con_idle_def)

lemma captured_says:
  assumes "con_idle (kcon s)" "says_text ms = Some out"
    "f (s\<lparr>kcon := output_capture_begin True CAP_SIZE True (kcon s)\<rparr>) = say_all ms (s\<lparr>kcon := output_capture_begin True CAP_SIZE True (kcon s)\<rparr>)"
  shows "captured f s = Returns (take CAP_SIZE out, length out, s)"
proof -
  let ?c = "output_capture_begin True CAP_SIZE True (kcon s)"
  have "capturing ?c" by (simp add: capturing_def output_capture_begin_def)
  then have "f (s\<lparr>kcon := ?c\<rparr>) = Returns (s\<lparr>kcon := cap_add out ?c\<rparr>)"
    using say_all_capture [of "s\<lparr>kcon := ?c\<rparr>" ms out] assms(2,3) by simp
  then show ?thesis
    using capture_end [OF assms(1)] by (simp add: captured_def cap_add_def output_capture_begin_def)
qed

text \<open>Formats of the shell.\<close>

lemma of_char_simps [simp]: "chars [] = []" "chars (c # cs) = of_char c # chars cs"
  by (simp_all add: chars_def)

lemma emitted_text [simp]: "emitted (map Emit w) = w"
  by (induction w) simp_all

lemma vformat_text: "37 \<notin> set f \<Longrightarrow> vformat f args = Some (map Emit f)"
  by (induction f) auto

lemma vformat_str [simp]: "vformat (chars ''%s'') [str_arg w] = Some (map Emit w)"
  by (simp add: parse_flags_def format_conv_def format_str_def str_arg_def)

lemma vformat_space [simp]: "vformat (chars '' '') [] = Some [Emit SP]" "vformat [10] [] = Some [Emit 10]"
  by (simp_all add: SP_def)

lemma echo_says:
  "concat (map (\<lambda>i. (if i > 1 then [(chars '' '', [])] else []) @ [(chars ''%s'', [str_arg ((e # w # us) ! i)])]) [1..<length (e # w # us)])
     = (chars ''%s'', [str_arg w]) # concat (map (\<lambda>u. [(chars '' '', []), (chars ''%s'', [str_arg u])]) us)"
proof -
  let ?g = "\<lambda>i. (if i > 1 then [(chars '' '', [])] else []) @ [(chars ''%s'', [str_arg ((e # w # us) ! i)])]"
  have u: "[1..<length (e # w # us)] = 1 # map (\<lambda>j. j + 2) [0..<length us]" 
    by (rule nth_equalityI) (auto simp: nth_Cons' simp del: upt_Suc)
  have "map (\<lambda>j. ?g (j + 2)) [0..<length us] = map (\<lambda>u. [(chars '' '', []), (chars ''%s'', [str_arg u])]) us"
    by (rule nth_equalityI) simp_all
  then show ?thesis unfolding u by (simp only: list.map map_map comp_def concat.simps) (simp del: of_char_simps)
qed

lemma spaced_says:
  "says_text (concat (map (\<lambda>u. [(chars '' '', []), (chars ''%s'', [str_arg u])]) us) @ [([10], [])]) = Some (concat (map ((#) SP) us) @ [10])"
  by (induction us) (simp_all del: of_char_simps)

lemma cmd_echo_text:
  assumes "ws \<noteq> []" "list_all word_ok ws"
  shows "\<exists>ms. (\<forall>s. cmd_echo (e # ws) s = say_all ms s) \<and> says_text ms = Some (join_words ws @ [10])"
proof -
  obtain w us where ws: "ws = w # us" "w \<noteq> []" using assms by (cases ws) (auto simp: word_ok_def)
  let ?ms = "((chars ''%s'', [str_arg w]) # concat (map (\<lambda>u. [(chars '' '', []), (chars ''%s'', [str_arg u])]) us)) @ [([10], [])]"
  have "cmd_echo (e # ws) s = say_all ?ms s" for s :: "'a shell"
    using echo_says [of e w us] by (simp only: cmd_echo_def ws) simp
  moreover have "says_text ?ms = Some (join_words ws @ [10])"
    using spaced_says [of us] ws(2) by (simp add: ws(1) join_words_Cons del: of_char_simps)
  ultimately show ?thesis by blast
qed


section \<open>Counting\<close>

lemma wc_loop_counts:
  "wc_loop s b (l, w, n) =
     (l + of_nat (length (filter (\<lambda>c. c = 10) s)),
      w + of_nat (length (words_on is_blank (if b then dropWhile (Not \<circ> is_blank) s else s))), n + of_nat (length s))"
proof (induction s arbitrary: b l w n)
  case (Cons c cs)
  have "words_on is_blank (c # cs) = (c # takeWhile (Not \<circ> is_blank) cs) # words_on is_blank (dropWhile (Not \<circ> is_blank) cs)" if "\<not> is_blank c"
    using words_on_step [of "c # cs" is_blank] that by simp
  then show ?case using Cons by (cases b; cases "is_blank c"; simp add: Let_def)
qed (cases b; simp)

definition count_lines :: "bytes \<Rightarrow> nat" where
  "count_lines s = length (filter (\<lambda>c. c = 10) s) + (if s \<noteq> [] \<and> last s \<noteq> 10 then 1 else 0)"

lemma wc_counts_correct:
  "length s < 2 ^ 64 \<Longrightarrow> wc_counts s = (of_nat (count_lines s), of_nat (length (words_on is_blank s)), of_nat (length s))"
proof -
  assume "length s < 2 ^ 64"
  then have "unat (of_nat (length s) :: u64) = length s" by (intro unat_of_nat_small) simp
  then have "(of_nat (length s) :: u64) = 0 \<longleftrightarrow> s = []" by (metis length_0_conv unat_0 unat_eq_zero)
  then show ?thesis by (simp add: wc_counts_def wc_loop_counts count_lines_def)
qed


section \<open>Pipes and redirection\<close>

lemma run_line_inner_words:
  "tokenize line = tokenize line' \<Longrightarrow> run_line_inner w line inp s = run_line_inner w line' inp s"
  by (simp add: run_line_inner_def)

lemma inner_echo: "tokenize line = chars ''echo'' # ws \<Longrightarrow> run_line_inner w line inp s = cmd_echo (chars ''echo'' # ws) s"
  by (simp add: run_line_inner_def is_cmd_def)

lemma inner_wc: "tokenize line = chars ''wc'' # ws \<Longrightarrow> run_line_inner w line inp s = cmd_wc inp s"
  by (simp add: run_line_inner_def is_cmd_def)


lemma no_redirect: "\<not> list_ex is_redir (tokenize line) \<Longrightarrow> extract_redirect room line = Returns None"
proof -
  assume "\<not> list_ex is_redir (tokenize line)"
  then have "find_redirect (tokenize line) = None" unfolding find_redirect_def find_from_None by (auto simp: list_ex_length)
  then show ?thesis by (simp add: extract_redirect_def Let_def)
qed

lemma run_line_pipe:
  assumes "cmd_ok c" "cmd_ok d"
  shows "\<exists>room. \<forall>s. run_line w (join_pipes [c, d]) s =
     (case captured (run_line_inner w c None) s of
        Returns (out, n, s) \<Rightarrow> if CAP_SIZE \<le> n then Wild else run_cmd w room d (Some (c_string out)) s
      | Halts \<Rightarrow> Halts | Wild \<Rightarrow> Wild)"
proof -
  let ?l = "join_pipes [c, d]"
  obtain ps where ps: "split_pipes ?l = Returns ps" "map snd ps = [c, d]"
    using split_pipes_correct [of "[c, d]"] assms by (cases "split_pipes ?l") auto
  then have some: "pipe_scan 0 False ?l \<noteq> []" by (auto simp: split_pipes_def Let_def)
  obtain p q where "ps = [(p, c), (q, d)]" using ps(2) by auto
  then show ?thesis using some by (intro exI [of _ "LINE_MAX - q"]) (simp add: run_line_def ps(1) split: outcome.split)
qed

text \<open>
  A command that fills the buffer of the pipe makes the shell store the final zero behind the buffer: the length that is
  reported counts what did not fit.
\<close>

lemma pipe_overflow:
  assumes "cmd_ok c" "cmd_ok d" "captured (run_line_inner w c None) s = Returns (out, n, t)" "CAP_SIZE \<le> n"
  shows "run_line w (join_pipes [c, d]) s = Wild"
  using run_line_pipe [OF assms(1,2), of w] assms(3,4) by auto

text \<open>
  C39. A command piped into \<^verbatim>\<open>wc\<close>: whatever the command writes (without zeros, and less than the buffer of the pipe), the
  line prints the number of its lines, of its words and of its characters, and has no other effect than the command.
\<close>

theorem pipe_to_wc:
  assumes "cmd_ok c" "captured (run_line_inner w c None) s = Returns (out, length out, t)" "length out < CAP_SIZE" "0 \<notin> set out"
  shows "run_line w (join_pipes [c, chars ''wc'']) s =
     say (chars ''%lu  %lu  %lu'' @ [10])
       [Num (of_nat (count_lines out)), Num (of_nat (length (words_on is_blank out))), Num (of_nat (length out))] t"
proof -
  have wc: "words (chars ''wc'') = [chars ''wc'']" by (simp add: words_on_def SP_def)
  have "cmd_ok (chars ''wc'')" using wc by (simp add: cmd_ok_def SP_def BAR_def)
  from run_line_pipe [OF assms(1) this, of w] obtain room where "run_line w (join_pipes [c, chars ''wc'']) s = run_cmd w room (chars ''wc'') (Some (c_string out)) t"
    using assms(2,3) by auto
  moreover have tok: "tokenize (chars ''wc'') = [chars ''wc'']" using tokenize_words [of "chars ''wc''"] wc by (simp add: TOK_LEN_def TOK_MAX_def)
  moreover have "extract_redirect room (chars ''wc'') = Returns None" by (rule no_redirect) (simp add: tok is_redir_def del: of_char_simps, simp)
  moreover have "run_line_inner w (chars ''wc'') inp t = cmd_wc inp t" for inp by (rule inner_wc) (rule tok)
  moreover have "c_string out = out" using assms(4) by (rule c_string_id)
  moreover have "length out < 2 ^ 64" using assms(3) by (simp add: CAP_SIZE_def)
  ultimately show ?thesis by (simp add: run_cmd_def cmd_wc_def wc_counts_correct del: of_char_simps)
qed


lemma echo_captured:
  assumes "con_idle (kcon s)" "ws \<noteq> []" "list_all word_ok ws" "list_all (\<lambda>w. length w \<le> TOK_LEN) ws" "length ws < TOK_MAX"
  shows "captured (run_line_inner w (join_words (chars ''echo'' # ws)) None) s
     = Returns (take CAP_SIZE (join_words ws @ [10]), length (join_words ws @ [10]), s)"
proof -
  have "word_ok (chars ''echo'')" "length (chars ''echo'') \<le> TOK_LEN" by (simp_all add: word_ok_def SP_def TOK_LEN_def)
  then have "tokenize (join_words (chars ''echo'' # ws)) = chars ''echo'' # ws"
    using tokenize_words [of "join_words (chars ''echo'' # ws)"] words_join [of "chars ''echo'' # ws"] assms(3-5)
    by (simp del: of_char_simps)
  moreover obtain ms where "\<And>s :: 'a shell. cmd_echo (chars ''echo'' # ws) s = say_all ms s" "says_text ms = Some (join_words ws @ [10])"
    using cmd_echo_text [OF assms(2,3)] by metis
  ultimately show ?thesis using assms(1) by (intro captured_says) (simp_all add: inner_echo)
qed

lemma idle_ex [simp]: "con_idle con_ex"
  by (simp add: con_idle_def con_ex_def)

theorem pipe_to_wc_witness:
  "\<forall>w. run_line w (chars ''echo a bc | wc'') shell_ex = say (chars ''%lu  %lu  %lu'' @ [10]) [Num 1, Num 2, Num 5] shell_ex"
proof
  fix w :: "unit surroundings"
  have e: "join_words [chars ''echo'', [97], [98, 99]] = chars ''echo a bc''" "join_words [[97], [98, 99 :: u8]] = [97, 32, 98, 99]"
    by (simp_all add: join_words_def put_word_def SP_def)
  have c: "captured (run_line_inner w (chars ''echo a bc'') None) shell_ex = Returns ([97, 32, 98, 99, 10], length [97, 32, 98, 99, 10 :: u8], shell_ex)"
    using echo_captured [of shell_ex "[[97], [98, 99]]" w] unfolding e
    by (simp add: word_ok_def SP_def TOK_LEN_def TOK_MAX_def CAP_SIZE_def)
  have ok: "cmd_ok (chars ''echo a bc'')" by (simp add: cmd_ok_def words_on_def SP_def BAR_def)
  have l: "join_pipes [chars ''echo a bc'', chars ''wc''] = chars ''echo a bc | wc''" by (simp add: join_pipes_def SP_def BAR_def)
  have n: "count_lines [97, 32, 98, 99, 10] = 1" "words_on is_blank [97, 32, 98, 99, 10] = [[97], [98, 99]]"
    by (simp_all add: count_lines_def words_on_def is_blank_def)
  show "run_line w (chars ''echo a bc | wc'') shell_ex = say (chars ''%lu  %lu  %lu'' @ [10]) [Num 1, Num 2, Num 5] shell_ex"
    using pipe_to_wc [OF ok c] unfolding l n by (simp add: CAP_SIZE_def del: of_char_simps)
qed


end
